(* ===== verification/Prelude.thy ===== *)
theory Prelude
  imports Main "HOL-Library.Word" "HOL-Library.List_Lexorder" "HOL-Library.Sublist"
begin

text \<open>
  Shared vocabulary of the development: Rust's \<open>Result\<close>, bytes and the fixed-width integer
  encodings of the standard library (\<open>to_le_bytes\<close>, \<open>from_le_bytes\<close>, \<open>to_be_bytes\<close>),
  the correspondence between Rust strings (UTF-8 byte sequences) and HOL strings, and the
  list lemmas the components share.

  Conventions. A Rust \<open>u8\<close>/\<open>u16\<close>/\<open>u32\<close>/\<open>u64\<close> is a word of that width; an \<open>i64\<close> is a
  64-bit word read with \<open>sint\<close>; an \<open>f64\<close> (\<open>f32\<close>) is the 64-bit (32-bit) word of its IEEE-754
  representation, which is what the codecs store and what \<open>total_cmp\<close> compares. \<open>usize\<close>
  values are lengths and positions inside buffers that exist in memory, hence \<open>nat\<close>; a cast
  \<open>n as u32\<close> keeps the residue modulo \<open>2 ^ 32\<close>, as \<open>le_bytes\<close> does.
\<close>

unbundle bit_operations_syntax

named_theorems codec_simps \<open>rewrite rules that run a decoder over an encoder\<close>
named_theorems wf_intros \<open>introduction rules for well-formedness invariants\<close>

section \<open>Results\<close>

datatype ('e, 'a) result = Ok 'a | Err 'e

fun rbind :: "('e, 'a) result \<Rightarrow> ('a \<Rightarrow> ('e, 'b) result) \<Rightarrow> ('e, 'b) result" where
  "rbind (Ok x) f = f x"
| "rbind (Err e) f = Err e"

fun map_res :: "('a \<Rightarrow> 'b) \<Rightarrow> ('e, 'a) result \<Rightarrow> ('e, 'b) result" where
  "map_res f (Ok x) = Ok (f x)"
| "map_res f (Err e) = Err e"

fun ok_or :: "'e \<Rightarrow> 'a option \<Rightarrow> ('e, 'a) result" where
  "ok_or e None = Err e"
| "ok_or e (Some x) = Ok x"

definition is_ok :: "('e, 'a) result \<Rightarrow> bool" where
  "is_ok r = (case r of Ok _ \<Rightarrow> True | Err _ \<Rightarrow> False)"

fun collect_res :: "('e, 'a) result list \<Rightarrow> ('e, 'a list) result" where
  "collect_res [] = Ok []"
| "collect_res (r # rs) = rbind r (\<lambda>x. rbind (collect_res rs) (\<lambda>xs. Ok (x # xs)))"

lemma rbind_cong [fundef_cong]:
  "r = r' \<Longrightarrow> (\<And>x. r' = Ok x \<Longrightarrow> f x = g x) \<Longrightarrow> rbind r f = rbind r' g"
  by (cases r') auto

lemma rbind_eq_Ok [simp]: "rbind r f = Ok y \<longleftrightarrow> (\<exists>x. r = Ok x \<and> f x = Ok y)"
  by (cases r) auto

lemma rbind_eq_Err: "rbind r f = Err e \<longleftrightarrow> r = Err e \<or> (\<exists>x. r = Ok x \<and> f x = Err e)"
  by (cases r) auto

lemma rbind_assoc: "rbind (rbind r f) g = rbind r (\<lambda>x. rbind (f x) g)"
  by (cases r) auto

lemma map_res_eq_Ok [simp]: "map_res f r = Ok y \<longleftrightarrow> (\<exists>x. r = Ok x \<and> f x = y)"
  by (cases r) auto

lemma ok_or_eq_Ok [simp]: "ok_or e x = Ok y \<longleftrightarrow> x = Some y"
  by (cases x) auto

lemma is_ok_simps [simp]: "is_ok (Ok x)" "\<not> is_ok (Err e)"
  by (simp_all add: is_ok_def)

lemma collect_res_Ok [simp]: "collect_res (map (\<lambda>x. Ok (f x)) xs) = Ok (map f xs)"
  by (induction xs) auto

lemma collect_res_eq_Ok:
  "collect_res rs = Ok xs \<longleftrightarrow> rs = map Ok xs"
  by (induction rs arbitrary: xs) auto

section \<open>Bytes and integer encodings\<close>

type_synonym byte = "8 word"
type_synonym bytes = "byte list"
type_synonym u16 = "16 word"
type_synonym u32 = "32 word"
type_synonym u64 = "64 word"
type_synonym i64 = "64 word"
type_synonym f64 = "64 word"
type_synonym f32 = "32 word"

fun le_bytes :: "nat \<Rightarrow> nat \<Rightarrow> bytes" where
  "le_bytes 0 k = []"
| "le_bytes (Suc n) k = word_of_nat k # le_bytes n (k div 256)"

fun le_nat :: "bytes \<Rightarrow> nat" where
  "le_nat [] = 0"
| "le_nat (b # bs) = unat b + 256 * le_nat bs"

definition be_bytes :: "nat \<Rightarrow> nat \<Rightarrow> bytes" where
  "be_bytes n k = rev (le_bytes n k)"

definition be_nat :: "bytes \<Rightarrow> nat" where
  "be_nat bs = le_nat (rev bs)"

lemma length_le_bytes [simp]: "length (le_bytes n k) = n"
  by (induction n arbitrary: k) auto

lemma length_be_bytes [simp]: "length (be_bytes n k) = n"
  by (simp add: be_bytes_def)

lemma unat_byte_of_nat: "unat (word_of_nat k :: byte) = k mod 256"
  by (simp add: unat_of_nat)

lemma unat_byte_lt: "unat (b :: byte) < 256"
  using unsigned_less [of b, where ?'a = nat] by simp

lemma le_nat_le_bytes: "le_nat (le_bytes n k) = k mod 256 ^ n"
proof (induction n arbitrary: k)
  case 0
  then show ?case by simp
next
  case (Suc n)
  have "le_nat (le_bytes (Suc n) k) = k mod 256 + 256 * (k div 256 mod 256 ^ n)"
    by (simp add: Suc unat_byte_of_nat)
  also have "\<dots> = k mod (256 * 256 ^ n)"
    by (metis mod_mult2_eq add.commute)
  finally show ?case by simp
qed

lemma le_nat_le_bytes_lt [codec_simps]: "k < 256 ^ n \<Longrightarrow> le_nat (le_bytes n k) = k"
  by (simp add: le_nat_le_bytes)

lemma be_nat_be_bytes_lt [codec_simps]: "k < 256 ^ n \<Longrightarrow> be_nat (be_bytes n k) = k"
  by (simp add: be_nat_def be_bytes_def le_nat_le_bytes)

lemma le_nat_lt: "le_nat bs < 256 ^ length bs"
proof (induction bs)
  case Nil
  then show ?case by simp
next
  case (Cons b bs)
  have "unat b < 256"
    by (rule unat_byte_lt)
  with Cons show ?case by simp
qed

lemma le_bytes_le_nat [simp]: "le_bytes (length bs) (le_nat bs) = bs"
proof (induction bs)
  case Nil
  then show ?case by simp
next
  case (Cons b bs)
  have b: "unat b < 256"
    by (rule unat_byte_lt)
  have "(unat b + 256 * le_nat bs) div 256 = le_nat bs"
    using b by simp
  moreover have "(word_of_nat (unat b + 256 * le_nat bs) :: byte) = b"
    by (intro unsigned_word_eqI [where ?'a = nat], subst unat_byte_of_nat) (use b in simp)
  ultimately show ?case
    using Cons by simp
qed

lemma le_bytes_inj:
  "le_bytes n j = le_bytes n k \<Longrightarrow> j < 256 ^ n \<Longrightarrow> k < 256 ^ n \<Longrightarrow> j = k"
  by (metis le_nat_le_bytes_lt)

lemma be_bytes_inj:
  "be_bytes n j = be_bytes n k \<Longrightarrow> j < 256 ^ n \<Longrightarrow> k < 256 ^ n \<Longrightarrow> j = k"
  by (metis be_nat_be_bytes_lt)

lemma le_bytes_eq_iff_le_nat:
  "length bs = n \<Longrightarrow> le_nat bs = k \<Longrightarrow> le_bytes n k = bs"
  using le_bytes_le_nat by blast

lemma le_nat_take_lt: "le_nat (take n bs) < 256 ^ n"
proof -
  have "le_nat (take n bs) < 256 ^ length (take n bs)"
    by (rule le_nat_lt)
  also have "\<dots> \<le> 256 ^ n"
    by (intro power_increasing) simp_all
  finally show ?thesis .
qed

lemma le_bytes_field: "n \<le> length bs \<Longrightarrow> le_bytes n (le_nat (take n bs)) = take n bs"
  by (rule le_bytes_eq_iff_le_nat) simp_all

lemma word_le_bytes_roundtrip [codec_simps]:
  fixes w :: "'a::len word"
  assumes "256 ^ n = (2::nat) ^ LENGTH('a)"
  shows "word_of_nat (le_nat (le_bytes n (unat w))) = w"
  using assms by (simp add: le_nat_le_bytes)

lemma word_be_bytes_roundtrip [codec_simps]:
  fixes w :: "'a::len word"
  assumes "256 ^ n = (2::nat) ^ LENGTH('a)"
  shows "word_of_nat (be_nat (be_bytes n (unat w))) = w"
  using assms by (simp add: be_nat_def be_bytes_def le_nat_le_bytes)

declare le_bytes.simps [simp del]

section \<open>Strings\<close>

text \<open>
  A Rust \<open>str\<close> is a sequence of UTF-8 bytes; a HOL \<open>string\<close> holds the same bytes as
  characters. \<open>as_bytes\<close> and \<open>str_of_bytes\<close> convert; \<open>utf8_valid\<close> is the check of
  \<open>std::str::from_utf8\<close> (well-formed UTF-8: no overlong forms, no surrogates, at most
  U+10FFFF).
\<close>

definition as_bytes :: "string \<Rightarrow> bytes" where
  "as_bytes s = map of_char s"

definition str_of_bytes :: "bytes \<Rightarrow> string" where
  "str_of_bytes bs = map (\<lambda>b. char_of (unat b)) bs"

definition cont_byte :: "byte \<Rightarrow> bool" where
  "cont_byte b = (0x80 \<le> b \<and> b \<le> 0xBF)"

fun utf8_valid :: "bytes \<Rightarrow> bool" where
  "utf8_valid [] = True"
| "utf8_valid (a # r) =
    (if a < 0x80 then utf8_valid r
     else if 0xC2 \<le> a \<and> a \<le> 0xDF then
       (case r of b # r' \<Rightarrow> cont_byte b \<and> utf8_valid r' | _ \<Rightarrow> False)
     else if 0xE0 \<le> a \<and> a \<le> 0xEF then
       (case r of b # c # r' \<Rightarrow>
          cont_byte b \<and> cont_byte c
          \<and> (a = 0xE0 \<longrightarrow> 0xA0 \<le> b) \<and> (a = 0xED \<longrightarrow> b \<le> 0x9F) \<and> utf8_valid r'
        | _ \<Rightarrow> False)
     else if 0xF0 \<le> a \<and> a \<le> 0xF4 then
       (case r of b # c # d # r' \<Rightarrow>
          cont_byte b \<and> cont_byte c \<and> cont_byte d
          \<and> (a = 0xF0 \<longrightarrow> 0x90 \<le> b) \<and> (a = 0xF4 \<longrightarrow> b \<le> 0x8F) \<and> utf8_valid r'
        | _ \<Rightarrow> False)
     else False)"

definition from_utf8 :: "bytes \<Rightarrow> string option" where
  "from_utf8 bs = (if utf8_valid bs then Some (str_of_bytes bs) else None)"

lemma length_as_bytes [simp]: "length (as_bytes s) = length s"
  by (simp add: as_bytes_def)

lemma length_str_of_bytes [simp]: "length (str_of_bytes bs) = length bs"
  by (simp add: str_of_bytes_def)

lemma unat_of_char: "unat (of_char c :: byte) = of_char c"
proof -
  have "(of_char c :: byte) = word_of_nat (of_char c)"
    by (simp only: of_nat_of_char)
  moreover have "(of_char c :: nat) < 256"
    by simp
  ultimately show ?thesis
    by (metis mod_less unat_byte_of_nat)
qed

lemma str_of_as_bytes [simp]: "str_of_bytes (as_bytes s) = s"
  by (induction s) (simp_all add: str_of_bytes_def as_bytes_def unat_of_char)

lemma as_bytes_str_of [simp]: "as_bytes (str_of_bytes bs) = bs"
proof (induction bs)
  case Nil
  then show ?case by (simp add: as_bytes_def str_of_bytes_def)
next
  case (Cons b bs)
  have "unat b < 256"
    by (rule unat_byte_lt)
  then have "(of_char (char_of (unat b) :: char) :: byte) = b"
    by (intro unsigned_word_eqI [where ?'a = nat]) (simp add: unat_of_char)
  with Cons show ?case by (simp add: as_bytes_def str_of_bytes_def)
qed

lemma as_bytes_inj [simp]: "as_bytes s = as_bytes t \<longleftrightarrow> s = t"
  by (metis str_of_as_bytes)

lemma as_bytes_append [simp]: "as_bytes (s @ t) = as_bytes s @ as_bytes t"
  by (simp add: as_bytes_def)

lemma from_utf8_as_bytes [codec_simps]:
  "utf8_valid (as_bytes s) \<Longrightarrow> from_utf8 (as_bytes s) = Some s"
  by (simp add: from_utf8_def)

lemma from_utf8_Some [simp]:
  "from_utf8 bs = Some s \<longleftrightarrow> utf8_valid bs \<and> bs = as_bytes s"
  by (auto simp: from_utf8_def)

section \<open>Lists\<close>

text \<open>Rust's \<open>iter().position(p)\<close>: the index of the first element satisfying \<open>p\<close>.\<close>

fun position :: "('a \<Rightarrow> bool) \<Rightarrow> 'a list \<Rightarrow> nat option" where
  "position p [] = None"
| "position p (x # xs) = (if p x then Some 0 else map_option Suc (position p xs))"

lemma position_Some:
  "position p xs = Some i \<Longrightarrow> i < length xs \<and> p (xs ! i) \<and> (\<forall>j < i. \<not> p (xs ! j))"
proof (induction xs arbitrary: i)
  case Nil
  then show ?case by simp
next
  case (Cons x xs)
  show ?case
  proof (cases "p x")
    case True
    with Cons.prems show ?thesis by simp
  next
    case False
    with Cons.prems obtain j where "position p xs = Some j" "i = Suc j"
      by auto
    with Cons.IH [of j] False show ?thesis
      by (auto simp: less_Suc_eq_0_disj)
  qed
qed

lemma position_None: "position p xs = None \<longleftrightarrow> (\<forall>x \<in> set xs. \<not> p x)"
  by (induction xs) auto

lemma take_append_exact [simp]: "length xs = n \<Longrightarrow> take n (xs @ ys) = xs"
  by simp

lemma drop_append_exact [simp]: "length xs = n \<Longrightarrow> drop n (xs @ ys) = ys"
  by simp

section \<open>Self-delimiting codecs\<close>

text \<open>
  A decoder of the code reads one item from the front of a buffer and reports how many bytes
  it consumed (\<open>None\<close>: truncated or malformed). \<open>dec_times\<close> is the loop
  \<open>for _ in 0..count\<close> around such a decoder. The locale \<open>delimited_codec\<close> is the contract a
  format keeps with its encoder; \<open>canonical_codec\<close> adds that every accepted byte sequence is
  the encoding of its value.
\<close>

type_synonym 'a decoder = "bytes \<Rightarrow> ('a \<times> nat) option"

fun dec_times :: "'a decoder \<Rightarrow> nat \<Rightarrow> 'a list decoder" where
  "dec_times dec 0 buf = Some ([], 0)"
| "dec_times dec (Suc n) buf =
    (case dec buf of
       None \<Rightarrow> None
     | Some (x, advanced) \<Rightarrow>
        (case dec_times dec n (drop advanced buf) of
           None \<Rightarrow> None
         | Some (xs, p) \<Rightarrow> Some (x # xs, advanced + p)))"

lemma dec_times_length: "dec_times dec n buf = Some (xs, p) \<Longrightarrow> length xs = n"
  by (induction n arbitrary: buf xs p) (auto split: option.splits prod.splits)

locale delimited_codec =
  fixes enc :: "'a \<Rightarrow> bytes" and dec :: "'a decoder" and ok :: "'a \<Rightarrow> bool"
  assumes dec_enc: "ok x \<Longrightarrow> dec (enc x @ rest) = Some (x, length (enc x))"
begin

lemma dec_times_enc:
  "list_all ok xs \<Longrightarrow>
    dec_times dec (length xs) (concat (map enc xs) @ rest)
      = Some (xs, length (concat (map enc xs)))"
  by (induction xs) (simp_all add: dec_enc)

lemma enc_prefix_free:
  assumes "ok x" "ok y" "enc x @ r = enc y @ r'"
  shows "x = y \<and> r = r'"
proof -
  have "Some (x, length (enc x)) = Some (y, length (enc y))"
    using assms dec_enc by metis
  with assms(3) show ?thesis by simp
qed

lemma enc_inj: "ok x \<Longrightarrow> ok y \<Longrightarrow> enc x = enc y \<Longrightarrow> x = y"
  using enc_prefix_free [of x y "[]" "[]"] by simp

end

locale canonical_codec = delimited_codec +
  assumes dec_canonical:
    "dec buf = Some (x, n) \<Longrightarrow> ok x \<and> n \<le> length buf \<and> take n buf = enc x"
begin

lemma dec_times_canonical:
  "dec_times dec c buf = Some (xs, n) \<Longrightarrow>
    list_all ok xs \<and> n \<le> length buf \<and> take n buf = concat (map enc xs)"
proof (induction c arbitrary: buf xs n)
  case 0
  then show ?case by simp
next
  case (Suc c)
  from Suc.prems obtain x a ys p where x: "dec buf = Some (x, a)"
    and ys: "dec_times dec c (drop a buf) = Some (ys, p)" and eq: "xs = x # ys" "n = a + p"
    by (auto split: option.splits)
  from dec_canonical [OF x] Suc.IH [OF ys] eq show ?case
    by (auto simp: take_add)
qed

end

section \<open>Parsers that return the rest of the input\<close>

text \<open>
  The second style of decoder in the code advances a slice and reports errors;
  \<open>parse_times\<close> is the counted loop around it. \<open>parser_codec\<close> and \<open>exact_parser\<close> are the
  contracts in this style.
\<close>

type_synonym ('e, 'a) parser = "bytes \<Rightarrow> ('e, 'a \<times> bytes) result"

fun parse_times :: "('e, 'a) parser \<Rightarrow> nat \<Rightarrow> ('e, 'a list) parser" where
  "parse_times p 0 buf = Ok ([], buf)"
| "parse_times p (Suc n) buf =
    rbind (p buf) (\<lambda>(x, rest).
      rbind (parse_times p n rest) (\<lambda>(xs, rest'). Ok (x # xs, rest')))"

lemma parse_times_length: "parse_times p n buf = Ok (xs, r) \<Longrightarrow> length xs = n"
  by (induction n arbitrary: buf xs r) auto

locale parser_codec =
  fixes enc :: "'a \<Rightarrow> bytes" and parse :: "('e, 'a) parser" and ok :: "'a \<Rightarrow> bool"
  assumes parse_enc: "ok x \<Longrightarrow> parse (enc x @ rest) = Ok (x, rest)"
begin

lemma parse_times_enc:
  "list_all ok xs \<Longrightarrow> parse_times parse (length xs) (concat (map enc xs) @ rest) = Ok (xs, rest)"
  by (induction xs) (simp_all add: parse_enc)

lemma parse_enc_inj:
  assumes "ok x" "ok y" "enc x @ r = enc y @ r'"
  shows "x = y \<and> r = r'"
proof -
  have "Ok (x, r) = (Ok (y, r') :: ('e, _) result)"
    using parse_enc [OF assms(1), of r] parse_enc [OF assms(2), of r'] unfolding assms(3) by metis
  then show ?thesis by simp
qed

end

locale exact_parser = parser_codec +
  assumes parse_exact: "parse buf = Ok (x, r) \<Longrightarrow> ok x \<and> buf = enc x @ r"
begin

lemma parse_times_exact:
  "parse_times parse n buf = Ok (xs, r) \<Longrightarrow> list_all ok xs \<and> buf = concat (map enc xs) @ r"
proof (induction n arbitrary: buf xs)
  case 0
  then show ?case by simp
next
  case (Suc n)
  from Suc.prems obtain x b ys where x: "parse buf = Ok (x, b)"
    and ys: "parse_times parse n b = Ok (ys, r)" and xs: "xs = x # ys"
    by auto
  from parse_exact [OF x] Suc.IH [OF ys] xs show ?case by simp
qed

end

section \<open>Sizes fixed by the cipher suite\<close>

definition KEY_LEN :: nat where "KEY_LEN = 32"
definition NONCE_LEN :: nat where "NONCE_LEN = 12"
definition TAG_LEN :: nat where "TAG_LEN = 16"

section \<open>Decimal display of integers\<close>

fun show_nat :: "nat \<Rightarrow> string" where
  "show_nat n = (if n < 10 then [char_of (48 + n)] else show_nat (n div 10) @ [char_of (48 + n mod 10)])"

declare show_nat.simps [simp del]

definition show_int :: "int \<Rightarrow> string" where
  "show_int k = (if k < 0 then CHR ''-'' # show_nat (nat (- k)) else show_nat (nat k))"

end
