(* ===== verification/Congruence.thy ===== *)
theory Congruence
  imports Prelude
begin

text \<open>
  Congruence of integers modulo a number, shared by the theories that verify modular arithmetic: the
  polynomial rings of the lattice schemes and the field of Curve25519.
\<close>

definition congr :: "int \<Rightarrow> int \<Rightarrow> int \<Rightarrow> bool" where
  "congr q x y \<longleftrightarrow> q dvd x - y"

lemma congr_mod: "congr q x y \<longleftrightarrow> x mod q = y mod q"
  by (simp add: congr_def mod_eq_dvd_iff)

lemma congr_refl [simp, intro]: "congr q x x"
  by (simp add: congr_def)

lemma congr_sym: "congr q x y \<Longrightarrow> congr q y x"
  by (simp add: congr_mod)

lemma congr_trans [trans]: "congr q x y \<Longrightarrow> congr q y z \<Longrightarrow> congr q x z"
  by (simp add: congr_mod)

lemma congr_eq_trans [trans]: "congr q x y \<Longrightarrow> y = z \<Longrightarrow> congr q x z" "x = y \<Longrightarrow> congr q y z \<Longrightarrow> congr q x z"
  by simp_all

lemma congr_add: "congr q a b \<Longrightarrow> congr q c d \<Longrightarrow> congr q (a + c) (b + d)"
  by (auto simp: congr_mod intro: mod_add_cong)

lemma congr_diff: "congr q a b \<Longrightarrow> congr q c d \<Longrightarrow> congr q (a - c) (b - d)"
  by (auto simp: congr_mod intro: mod_diff_cong)

lemma congr_mult: "congr q a b \<Longrightarrow> congr q c d \<Longrightarrow> congr q (a * c) (b * d)"
  by (auto simp: congr_mod intro: mod_mult_cong)

lemma congr_minus: "congr q a b \<Longrightarrow> congr q (- a) (- b)"
  using congr_diff [of q 0 0 a b] by simp

lemma congr_power: "congr q a b \<Longrightarrow> congr q (a ^ n) (b ^ n)"
  by (induction n) (auto intro: congr_mult)

lemma congr_sum: "(\<And>i. i \<in> A \<Longrightarrow> congr q (f i) (g i)) \<Longrightarrow> congr q (sum f A) (sum g A)"
  by (induction A rule: infinite_finite_induct) (auto intro: congr_add)

lemma congr_of_mod [simp]: "congr q (x mod q) x" "congr q x (x mod q)"
  by (simp_all add: congr_mod)

lemmas congr_intros = congr_add congr_diff congr_mult congr_power congr_minus congr_sum

lemma congr_range_eq:
  assumes "congr q x y" "0 \<le> x" "x < q" "0 \<le> y" "y < q"
  shows "x = y"
  using assms by (simp add: congr_mod)

end
