(* ===== verification/Ntt.thy ===== *)
theory Ntt
  imports Congruence
begin

text \<open>
  The number-theoretic transform that ML-KEM and ML-DSA share: the loops of \<open>ntt\<close> and \<open>intt\<close>
  (\<open>crates/ciphra-crypto/src/ml_kem.rs\<close>, \<open>ml_dsa.rs\<close>) as layers of butterflies over a list of 256 coefficients,
  and a locale that proves, for any modulus and table of roots, what they compute: residues modulo the
  factors of \<open>X\<^sup>2\<^sup>5\<^sup>6 + 1\<close>. Multiplication of residues is multiplication of polynomials.
\<close>

unbundle bit_operations_syntax

section \<open>Layers of butterflies\<close>

text \<open>\<open>for j in start..start + len\<close>: one butterfly on the coefficients \<open>j\<close> and \<open>j + len\<close>.\<close>

definition butterflies :: "(int \<Rightarrow> int \<Rightarrow> int \<times> int) \<Rightarrow> nat \<Rightarrow> nat \<Rightarrow> int list \<Rightarrow> int list" where
  "butterflies bf start len a =
    foldl (\<lambda>a j. let (x, y) = bf (a ! j) (a ! (j + len)) in a[j := x, j + len := y]) a [start..<start + len]"

text \<open>
  \<open>while start < 256 { ...; start += 2 * len }\<close> for a power of two \<open>len\<close>, with the counter \<open>i\<close> into the table
  of roots advanced by \<open>step\<close> after each block.
\<close>

definition ntt_layer :: "(nat \<Rightarrow> nat) \<Rightarrow> (nat \<Rightarrow> int \<Rightarrow> int \<Rightarrow> int \<times> int) \<Rightarrow> int list \<times> nat \<Rightarrow> nat \<Rightarrow> int list \<times> nat" where
  "ntt_layer step bf s len =
    foldl (\<lambda>(a, i) k. (butterflies (bf i) (2 * len * k) len a, step i)) s [0..<256 div (2 * len)]"

lemma length_butterflies [simp]: "length (butterflies bf start len a) = length a"
proof -
  have "length (foldl (\<lambda>a j. let (x, y) = bf (a ! j) (a ! (j + len)) in a[j := x, j + len := y]) a js) = length a" for js
    by (induction js arbitrary: a) (simp_all add: Let_def split_def)
  then show ?thesis by (simp add: butterflies_def)
qed

lemma butterflies_nth:
  assumes "start + 2 * len \<le> length a"
  shows "butterflies bf start len a ! p =
    (if start \<le> p \<and> p < start + len then fst (bf (a ! p) (a ! (p + len)))
     else if start + len \<le> p \<and> p < start + 2 * len then snd (bf (a ! (p - len)) (a ! p))
     else a ! p)"
proof -
  define body where "body = (\<lambda>a j. let (x, y) = bf (a ! j) (a ! (j + len)) in a[j := x, j + len := y])"
  have len: "length (foldl body a js) = length a" for js
    by (induction js arbitrary: a) (simp_all add: body_def Let_def split_def)
  have "foldl body a [start..<start + n] ! p =
    (if start \<le> p \<and> p < start + n then fst (bf (a ! p) (a ! (p + len)))
     else if start + len \<le> p \<and> p < start + len + n then snd (bf (a ! (p - len)) (a ! p))
     else a ! p)" if "n \<le> len" for n p
    using that
  proof (induction n arbitrary: p)
    case (Suc n)
    let ?b = "foldl body a [start..<start + n]"
    have here: "?b ! (start + n) = a ! (start + n)" "?b ! (start + n + len) = a ! (start + n + len)"
      using Suc.IH [of "start + n"] Suc.IH [of "start + n + len"] Suc.prems by simp_all
    have step: "foldl body a [start..<start + Suc n] =
        ?b[start + n := fst (bf (a ! (start + n)) (a ! (start + n + len))),
           start + n + len := snd (bf (a ! (start + n)) (a ! (start + n + len)))]"
      by (simp add: body_def Let_def split_def here [unfolded body_def Let_def split_def])
    show ?case unfolding step using Suc.IH [of p] Suc.prems assms len by (auto simp: nth_list_update)
  qed simp
  from this [of len p] show ?thesis by (simp add: butterflies_def body_def)
qed

text \<open>Coefficient \<open>p\<close> after a layer that starts with the counter at \<open>i\<close>.\<close>

definition layer_at :: "(nat \<Rightarrow> nat) \<Rightarrow> (nat \<Rightarrow> int \<Rightarrow> int \<Rightarrow> int \<times> int) \<Rightarrow> nat \<Rightarrow> int list \<Rightarrow> nat \<Rightarrow> nat \<Rightarrow> int" where
  "layer_at step bf len a i p =
    (let z = (step ^^ (p div (2 * len))) i in
     if p mod (2 * len) < len then fst (bf z (a ! p) (a ! (p + len))) else snd (bf z (a ! (p - len)) (a ! p)))"

lemma block_position:
  assumes "2 * len * n \<le> p" "p < 2 * len * Suc n"
  shows "p div (2 * len) = n \<and> p mod (2 * len) = p - 2 * len * n"
proof -
  have "p = 2 * len * n + (p - 2 * len * n)" "p - 2 * len * n < 2 * len" using assms by (simp_all add: algebra_simps)
  then show ?thesis by (metis div_mult_self4 mod_mult_self4 div_less mod_less add_0_right mult_eq_0_iff not_gr_zero not_less0)
qed

lemma layer_prefix:
  assumes "length a = 256" "2 * len * n \<le> 256"
  shows "snd (foldl (\<lambda>(a, i) k. (butterflies (bf i) (2 * len * k) len a, step i)) (a, i) [0..<n]) = (step ^^ n) i
    \<and> length (fst (foldl (\<lambda>(a, i) k. (butterflies (bf i) (2 * len * k) len a, step i)) (a, i) [0..<n])) = 256
    \<and> (\<forall>p < 256. fst (foldl (\<lambda>(a, i) k. (butterflies (bf i) (2 * len * k) len a, step i)) (a, i) [0..<n]) ! p
      = (if p < 2 * len * n then layer_at step bf len a i p else a ! p))"
  using assms(2)
proof (induction n)
  case 0
  then show ?case using assms(1) by simp
next
  case (Suc n)
  let ?s = "2 * len * n" and ?r = "\<lambda>n. foldl (\<lambda>(a, i) k. (butterflies (bf i) (2 * len * k) len a, step i)) (a, i) [0..<n]"
  have IH: "snd (?r n) = (step ^^ n) i" "length (fst (?r n)) = 256"
    "\<And>p. p < 256 \<Longrightarrow> fst (?r n) ! p = (if p < ?s then layer_at step bf len a i p else a ! p)" using Suc by simp_all
  have r: "?r (Suc n) = (butterflies (bf ((step ^^ n) i)) ?s len (fst (?r n)), (step ^^ Suc n) i)"
    using IH(1) by (simp add: split_def)
  have fit: "?s + 2 * len \<le> length (fst (?r n))" using Suc.prems IH(2) by simp
  have "fst (?r (Suc n)) ! p = (if p < 2 * len * Suc n then layer_at step bf len a i p else a ! p)" if "p < 256" for p
  proof (cases "?s \<le> p \<and> p < 2 * len * Suc n")
    case True
    have old: "fst (?r n) ! u = a ! u" if "?s \<le> u" "u < 2 * len * Suc n" for u
      using IH(3) [of u] that Suc.prems by simp
    show ?thesis unfolding r fst_conv butterflies_nth [OF fit]
      using True block_position [of len n p] old [of p] old [of "p + len"] old [of "p - len"]
      by (auto simp: layer_at_def Let_def)
  next
    case False
    then show ?thesis unfolding r fst_conv butterflies_nth [OF fit] using IH(3) [OF that] by auto
  qed
  moreover have "snd (?r (Suc n)) = (step ^^ Suc n) i" "length (fst (?r (Suc n))) = 256" unfolding r using IH(2) by simp_all
  ultimately show ?case by blast
qed

lemma layer_result:
  assumes "length a = 256" "len \<in> {1, 2, 4, 8, 16, 32, 64, 128}"
  shows "snd (ntt_layer step bf (a, i) len) = (step ^^ (128 div len)) i"
    "length (fst (ntt_layer step bf (a, i) len)) = 256"
    "p < 256 \<Longrightarrow> fst (ntt_layer step bf (a, i) len) ! p = layer_at step bf len a i p"
proof -
  have n: "2 * len * (256 div (2 * len)) = 256" "256 div (2 * len) = 128 div len" using assms(2) by auto
  show "snd (ntt_layer step bf (a, i) len) = (step ^^ (128 div len)) i"
    "length (fst (ntt_layer step bf (a, i) len)) = 256"
    "p < 256 \<Longrightarrow> fst (ntt_layer step bf (a, i) len) ! p = layer_at step bf len a i p"
    using layer_prefix [OF assms(1), of len "256 div (2 * len)" bf step i] n by (simp_all add: ntt_layer_def)
qed

section \<open>The roots\<close>

text \<open>The loop of \<open>pow_mod\<close>, the same in both schemes, on \<open>(result, base, exp)\<close>.\<close>

fun pow_loop :: "int \<Rightarrow> int \<Rightarrow> int \<Rightarrow> nat \<Rightarrow> int" where
  "pow_loop q res base e =
    (if e = 0 then res
     else pow_loop q (if odd e then res * base mod q else res) (base * base mod q) (e div 2))"

declare pow_loop.simps [simp del]

lemma pow_loop_power: "congr q (pow_loop q res base e) (res * base ^ e)"
proof (induction q res base e rule: pow_loop.induct)
  case (1 q res base e)
  show ?case
  proof (cases "e = 0")
    case True
    then show ?thesis by (subst pow_loop.simps) simp
  next
    case False
    let ?r = "if odd e then res * base mod q else res"
    have "pow_loop q res base e = pow_loop q ?r (base * base mod q) (e div 2)"
      using False by (subst pow_loop.simps) simp
    also have "congr q \<dots> (?r * (base * base mod q) ^ (e div 2))" by (rule "1.IH" [OF False])
    also have "congr q \<dots> ((if odd e then res * base else res) * (base * base) ^ (e div 2))"
      by (intro congr_mult congr_power) auto
    also have "\<dots> = res * base ^ e"
      by (cases "even e") (auto elim!: evenE oddE simp: power_mult power2_eq_square power_mult_distrib power_add)
    finally show ?thesis .
  qed
qed

text \<open>
  The factors of \<open>X\<^sup>2\<^sup>5\<^sup>6 + 1\<close> form a binary tree, numbered like a heap: node \<open>h\<close> on level \<open>t\<close> stands for
  \<open>X\<^sup>n - root h\<close> with \<open>n = 2\<^sup>8\<^sup>-\<^sup>t\<close>, and the table entry \<open>zeta h\<close> is a square root of \<open>root h\<close> that splits it.
\<close>

definition tree_root :: "(nat \<Rightarrow> int) \<Rightarrow> nat \<Rightarrow> int" where
  "tree_root zeta h = (if h \<le> 1 then - 1 else if even h then zeta (h div 2) else - zeta (h div 2))"

text \<open>The residue of \<open>f\<close> at node \<open>h\<close> of level \<open>t\<close>, coefficient \<open>j\<close>.\<close>

definition residue :: "int \<Rightarrow> nat \<Rightarrow> int list \<Rightarrow> nat \<Rightarrow> int" where
  "residue c t f j = (\<Sum>m < 2 ^ t. f ! (m * 2 ^ (8 - t) + j) * c ^ m)"

lemma sum_even_odd: "(\<Sum>m < 2 * n. g m) = (\<Sum>m < (n :: nat). g (2 * m) + g (2 * m + 1 :: nat) :: int)"
  by (induction n) (simp_all add: algebra_simps)

lemma residue_split:
  assumes "congr q (z ^ 2) c" "t < 8"
  shows "congr q (residue c t f j + z * residue c t f (2 ^ (7 - t) + j)) (residue z (Suc t) f j)"
proof -
  let ?l = "2 ^ (7 - t) :: nat"
  have l: "2 ^ (8 - t) = 2 * ?l" using assms(2) by (simp add: Suc_diff_le flip: power_Suc)
  have "residue z (Suc t) f j = (\<Sum>m < 2 ^ t. f ! (2 * m * ?l + j) * z ^ (2 * m) + f ! ((2 * m + 1) * ?l + j) * z ^ (2 * m + 1))"
    unfolding residue_def using sum_even_odd [of "\<lambda>m. f ! (m * ?l + j) * z ^ m" "2 ^ t"] by simp
  also have "congr q \<dots> (\<Sum>m < 2 ^ t. f ! (2 * m * ?l + j) * c ^ m + f ! ((2 * m + 1) * ?l + j) * (z * c ^ m))"
    using congr_power [OF assms(1)] by (intro congr_sum congr_add congr_mult) (auto simp: power_mult intro: congr_mult)
  also have "\<dots> = residue c t f j + z * residue c t f (?l + j)"
    unfolding residue_def l by (simp add: sum.distrib sum_distrib_left algebra_simps)
  finally show ?thesis by (rule congr_sym)
qed

locale negacyclic_ntt =
  fixes q :: int and zeta :: "nat \<Rightarrow> int" and depth :: nat
  assumes q_gt_1: "1 < q"
    and depth: "0 < depth" "depth \<le> 8"
    and square: "1 \<le> h \<Longrightarrow> h < 2 ^ depth \<Longrightarrow> congr q (zeta h ^ 2) (tree_root zeta h)"
    and opposite: "t < depth \<Longrightarrow> k < 2 ^ t \<Longrightarrow> congr q (zeta (2 ^ t + k) * zeta (2 ^ Suc t - 1 - k)) (- 1)"
begin

lemma root_children:
  assumes "1 \<le> h"
  shows "tree_root zeta (2 * h) = zeta h" "tree_root zeta (Suc (2 * h)) = - zeta h"
  using assms by (simp_all add: tree_root_def)

text \<open>A node of level \<open>t\<close>: its root is a \<open>2\<^sup>t\<close>-th root of \<open>-1\<close>.\<close>

lemma root_order:
  "t \<le> depth \<Longrightarrow> k < 2 ^ t \<Longrightarrow> congr q (tree_root zeta (2 ^ t + k) ^ 2 ^ t) (- 1)"
proof (induction t arbitrary: k)
  case (Suc t)
  let ?h = "2 ^ t + k div 2"
  have h: "1 \<le> ?h" "?h < 2 ^ depth"
  proof -
    show "1 \<le> ?h" using one_le_power [of "2 :: nat" t] by linarith
    have "?h < 2 ^ Suc t" using Suc.prems(2) by auto
    also have "\<dots> \<le> 2 ^ depth" using Suc.prems(1) by (intro power_increasing) auto
    finally show "?h < 2 ^ depth" .
  qed
  have "2 ^ Suc t + k = 2 * ?h \<or> 2 ^ Suc t + k = Suc (2 * ?h)" by (cases "even k") (auto elim!: evenE oddE)
  then have "tree_root zeta (2 ^ Suc t + k) ^ 2 = zeta ?h ^ 2"
    using root_children [OF h(1)] by (elim disjE) (simp_all only: power2_minus)
  then have "congr q (tree_root zeta (2 ^ Suc t + k) ^ 2 ^ Suc t) (tree_root zeta ?h ^ 2 ^ t)"
    using congr_power [OF square [OF h], of "2 ^ t"] by (simp add: power_mult)
  with Suc.IH [of "k div 2"] Suc.prems show ?case by (auto intro: congr_trans)
qed (simp add: tree_root_def)

text \<open>All coefficients are residues on level \<open>t\<close>.\<close>

definition on_level :: "nat \<Rightarrow> int list \<Rightarrow> int list \<Rightarrow> bool" where
  "on_level t f a \<longleftrightarrow> length a = 256 \<and>
    (\<forall>k < 2 ^ t. \<forall>j < 2 ^ (8 - t). congr q (a ! (k * 2 ^ (8 - t) + j)) (residue (tree_root zeta (2 ^ t + k)) t f j))"

lemma on_level_0: "length f = 256 \<Longrightarrow> on_level 0 f f"
  by (simp add: on_level_def residue_def)

lemma layer_lengths: "t < depth \<Longrightarrow> 2 ^ (7 - t) \<in> {1, 2, 4, 8, 16, 32, 64, 128 :: nat}" "t < depth \<Longrightarrow> 128 div 2 ^ (7 - t) = (2 ^ t :: nat)"
proof -
  assume "t < depth"
  then have "t \<in> {0, 1, 2, 3, 4, 5, 6, 7}" using depth by auto
  then show "2 ^ (7 - t) \<in> {1, 2, 4, 8, 16, 32, 64, 128 :: nat}" "128 div 2 ^ (7 - t) = (2 ^ t :: nat)" by auto
qed

text \<open>One layer splits every node of level \<open>t\<close> in two.\<close>

definition splits :: "nat \<Rightarrow> int list \<Rightarrow> int list \<Rightarrow> bool" where
  "splits t a b \<longleftrightarrow> length b = 256 \<and> (\<forall>k < 2 ^ t. \<forall>j < 2 ^ (7 - t).
    let p = 2 * 2 ^ (7 - t) * k + j; x = a ! p; y = a ! (p + 2 ^ (7 - t)) in
    congr q (b ! p) (x + zeta (2 ^ t + k) * y) \<and> congr q (b ! (p + 2 ^ (7 - t))) (x - zeta (2 ^ t + k) * y))"

lemma splitsD:
  assumes "splits t a b" "k < 2 ^ t" "j < 2 ^ (7 - t)" "p = 2 * 2 ^ (7 - t) * k + j"
  shows "congr q (b ! p) (a ! p + zeta (2 ^ t + k) * a ! (p + 2 ^ (7 - t)))"
    "congr q (b ! (p + 2 ^ (7 - t))) (a ! p - zeta (2 ^ t + k) * a ! (p + 2 ^ (7 - t)))"
  using assms by (auto simp: splits_def Let_def)

lemma node_positions:
  fixes k j p :: nat
  assumes "t < depth" "k < 2 ^ t" "j < 2 ^ (7 - t)" "p = 2 * 2 ^ (7 - t) * k + j"
  shows "p + 2 ^ (7 - t) < 256" "p div (2 * 2 ^ (7 - t)) = k" "p mod (2 * 2 ^ (7 - t)) = j"
    "(p + 2 ^ (7 - t)) div (2 * 2 ^ (7 - t)) = k" "(p + 2 ^ (7 - t)) mod (2 * 2 ^ (7 - t)) = j + 2 ^ (7 - t)"
proof -
  let ?l = "2 ^ (7 - t) :: nat"
  have l: "2 * ?l * 2 ^ t = 256" using assms(1) depth by (simp flip: power_Suc power_add)
  have "2 * ?l * Suc k \<le> 2 * ?l * 2 ^ t" using assms(2) by (intro mult_le_mono) auto
  then show "p + ?l < 256" unfolding l using assms(3,4) by simp
  show "p div (2 * ?l) = k" "p mod (2 * ?l) = j" "(p + ?l) div (2 * ?l) = k" "(p + ?l) mod (2 * ?l) = j + ?l"
    using block_position [of ?l k p] block_position [of ?l k "p + ?l"] assms(3,4) by simp_all
qed

lemma node_in_table:
  assumes "t < depth" "k < 2 ^ t"
  shows "1 \<le> 2 ^ t + k" "2 ^ t + k < (2 :: nat) ^ depth"
proof -
  show "1 \<le> 2 ^ t + k" using one_le_power [of "2 :: nat" t] by linarith
  have "2 ^ t + k < 2 ^ Suc t" using assms(2) by simp
  also have "\<dots> \<le> 2 ^ depth" using assms(1) by (intro power_increasing) auto
  finally show "2 ^ t + k < (2 :: nat) ^ depth" .
qed

lemma forward_splits:
  assumes "length a = 256" "t < depth"
    and "\<And>k x y. k < 2 ^ t \<Longrightarrow> congr q (fst (bf ((step ^^ k) i) x y)) (x + zeta (2 ^ t + k) * y)
      \<and> congr q (snd (bf ((step ^^ k) i) x y)) (x - zeta (2 ^ t + k) * y)"
  shows "splits t a (fst (ntt_layer step bf (a, i) (2 ^ (7 - t))))"
proof -
  note res = layer_result [OF assms(1) layer_lengths(1) [OF assms(2)], where step = step and bf = bf and i = i]
  show ?thesis unfolding splits_def Let_def
  proof (intro conjI allI impI)
    fix k j :: nat assume kj: "k < 2 ^ t" "j < 2 ^ (7 - t)"
    note pos = node_positions [OF assms(2) kj refl]
    let ?p = "2 * 2 ^ (7 - t) * k + j"
    show "congr q (fst (ntt_layer step bf (a, i) (2 ^ (7 - t))) ! ?p) (a ! ?p + zeta (2 ^ t + k) * a ! (?p + 2 ^ (7 - t)))"
      using res(3) [of ?p] pos kj assms(3) [OF kj(1)] by (simp add: layer_at_def)
    show "congr q (fst (ntt_layer step bf (a, i) (2 ^ (7 - t))) ! (?p + 2 ^ (7 - t))) (a ! ?p - zeta (2 ^ t + k) * a ! (?p + 2 ^ (7 - t)))"
      using res(3) [of "?p + 2 ^ (7 - t)"] pos kj assms(3) [OF kj(1)] by (simp add: layer_at_def)
  qed (rule res(2))
qed

lemma splits_level:
  assumes "on_level t f a" "splits t a b" "t < depth"
  shows "on_level (Suc t) f b"
proof -
  let ?l = "2 ^ (7 - t) :: nat"
  have l: "2 ^ (8 - t) = 2 * ?l" "2 ^ (8 - Suc t) = ?l" using assms(3) depth by (simp_all add: Suc_diff_le flip: power_Suc)
  have "congr q (b ! (k * ?l + j)) (residue (tree_root zeta (2 ^ Suc t + k)) (Suc t) f j)"
    if k: "k < 2 ^ Suc t" and j: "j < ?l" for k j
  proof -
    define u where "u = k div 2"
    have u: "u < 2 ^ t" using k by (auto simp: u_def)
    let ?h = "2 ^ t + u" and ?p = "2 * ?l * u + j"
    let ?z = "zeta ?h" and ?r = "residue (tree_root zeta ?h) t f"
    note h = node_in_table [OF assms(3) u]
    have at: "congr q (a ! (u * (2 * ?l) + v)) (?r v)" if "v < 2 * ?l" for v
      using assms(1) u that unfolding on_level_def l(1) by blast
    have lo: "congr q (a ! ?p) (?r j)" and hi: "congr q (a ! (?p + ?l)) (?r (?l + j))"
      using at [of j] at [of "?l + j"] j by (simp_all add: ac_simps)
    note sp = splitsD [OF assms(2) u j refl]
    consider "k = 2 * u" | "k = Suc (2 * u)" by (cases "even k") (auto simp: u_def)
    then show ?thesis
    proof cases
      case 1
      note sp(1)
      also have "congr q (a ! ?p + ?z * a ! (?p + ?l)) (?r j + ?z * ?r (?l + j))"
        by (intro congr_add congr_mult lo hi congr_refl)
      also have "congr q \<dots> (residue ?z (Suc t) f j)"
        using residue_split [OF square [OF h], of t f j] assms(3) depth by simp
      finally show ?thesis using root_children(1) [OF h(1)] 1 by (simp add: ac_simps)
    next
      case 2
      note sp(2)
      also have "congr q (a ! ?p - ?z * a ! (?p + ?l)) (?r j - ?z * ?r (?l + j))"
        by (intro congr_diff congr_mult lo hi congr_refl)
      also have "congr q \<dots> (residue (- ?z) (Suc t) f j)"
        using residue_split [of q "- ?z" _ t f j] square [OF h] assms(3) depth by simp
      finally show ?thesis using root_children(2) [OF h(1)] 2 by (simp add: ac_simps)
    qed
  qed
  then show ?thesis using assms(2) unfolding on_level_def l(2) by (simp add: splits_def)
qed

text \<open>An inverse layer undoes a split, up to a factor of two.\<close>

definition scaled :: "int \<Rightarrow> int list \<Rightarrow> int list \<Rightarrow> bool" where
  "scaled c a b \<longleftrightarrow> length b = 256 \<and> (\<forall>p < 256. congr q (b ! p) (c * a ! p))"

lemma inverse_layer:
  assumes "splits t a b" "scaled c b d" "t < depth"
    and inv: "\<And>k x y. k < 2 ^ t \<Longrightarrow> congr q (fst (bf ((step ^^ k) i) x y)) (x + y)
      \<and> congr q (snd (bf ((step ^^ k) i) x y)) (zeta (2 ^ Suc t - 1 - k) * (y - x))"
  shows "scaled (2 * c) a (fst (ntt_layer step bf (d, i) (2 ^ (7 - t))))"
proof -
  let ?l = "2 ^ (7 - t) :: nat"
  have ld: "length d = 256" using assms(2) by (simp add: scaled_def)
  have lens: "2 * ?l * 2 ^ t = 256" using assms(3) depth by (simp flip: power_Suc power_add)
  note res = layer_result [OF ld layer_lengths(1) [OF assms(3)], where step = step and bf = bf and i = i]
  let ?r = "fst (ntt_layer step bf (d, i) ?l)"
  have "congr q (?r ! p) (2 * c * a ! p)" if p: "p < 256" for p
  proof -
    define k where "k = p div (2 * ?l)"
    define j where "j = p mod ?l"
    have k: "k < 2 ^ t" unfolding k_def using p lens by (simp add: less_mult_imp_div_less mult.commute)
    have j: "j < ?l" by (simp add: j_def)
    let ?s = "2 * ?l * k + j"
    let ?x = "a ! ?s" and ?y = "a ! (?s + ?l)" and ?z = "zeta (2 ^ t + k)" and ?z' = "zeta (2 ^ Suc t - 1 - k)"
    note pos = node_positions [OF assms(3) k j refl] and sp = splitsD [OF assms(1) k j refl]
    have lo: "congr q (d ! ?s) (c * (?x + ?z * ?y))" and hi: "congr q (d ! (?s + ?l)) (c * (?x - ?z * ?y))"
      using assms(2) pos(1) sp unfolding scaled_def by (meson add_lessD1 congr_mult congr_refl congr_trans)+
    have "p mod (2 * ?l) = j \<or> p mod (2 * ?l) = j + ?l"
      unfolding j_def using mod_mult2_eq [of p ?l 2] by (cases "p div ?l mod 2 = 0") (auto simp: mult.commute)
    moreover have "p = 2 * ?l * k + p mod (2 * ?l)" unfolding k_def by simp
    ultimately consider "p = ?s" | "p = ?s + ?l" by (metis add.assoc)
    then show ?thesis
    proof cases
      case 1
      have "?r ! p = fst (bf ((step ^^ k) i) (d ! ?s) (d ! (?s + ?l)))"
        using res(3) [OF p] pos j unfolding 1 by (simp add: layer_at_def)
      also have "congr q \<dots> (d ! ?s + d ! (?s + ?l))" using inv [OF k] by blast
      also have "congr q \<dots> (c * (?x + ?z * ?y) + c * (?x - ?z * ?y))" by (intro congr_add lo hi)
      finally show ?thesis unfolding 1 by (simp add: algebra_simps)
    next
      case 2
      have "?r ! p = snd (bf ((step ^^ k) i) (d ! ?s) (d ! (?s + ?l)))"
        using res(3) [OF p] pos j unfolding 2 by (simp add: layer_at_def)
      also have "congr q \<dots> (?z' * (d ! (?s + ?l) - d ! ?s))" using inv [OF k] by blast
      also have "congr q \<dots> (?z' * (c * (?x - ?z * ?y) - c * (?x + ?z * ?y)))"
        by (intro congr_mult congr_diff lo hi congr_refl)
      also have "\<dots> = (?z * ?z') * (- 2 * c * ?y)" by (simp add: algebra_simps)
      also have "congr q \<dots> (- 1 * (- 2 * c * ?y))" by (intro congr_mult opposite assms(3) k congr_refl)
      finally show ?thesis unfolding 2 by simp
    qed
  qed
  then show ?thesis using res(2) by (simp add: scaled_def)
qed

end

section \<open>Multiplication\<close>

text \<open>Multiplication of polynomials modulo \<open>X\<^sup>2\<^sup>5\<^sup>6 + 1\<close> and \<open>q\<close>, term by term.\<close>

definition schoolbook :: "int \<Rightarrow> int list \<Rightarrow> int list \<Rightarrow> int list" where
  "schoolbook q a b =
    map (\<lambda>k. (\<Sum>i < 256. \<Sum>j < 256. a ! i * b ! j * (if i + j = k then 1 else if i + j = k + 256 then - 1 else 0)) mod q)
      [0..<256]"

lemma schoolbook_nth:
  "k < 256 \<Longrightarrow> schoolbook q a b ! k =
    (\<Sum>i < 256. \<Sum>j < 256. a ! i * b ! j * (if i + j = k then 1 else if i + j = k + 256 then - 1 else 0)) mod q"
proof -
  assume "k < 256"
  then have "[0..<256] ! k = k" by simp
  with \<open>k < 256\<close> show ?thesis unfolding schoolbook_def by (subst nth_map) (simp_all only: length_upt diff_zero)
qed

lemma length_schoolbook [simp]: "length (schoolbook q a b) = 256"
  by (simp add: schoolbook_def)

text \<open>Coefficient \<open>j\<close> of \<open>X\<^sup>k\<close> modulo \<open>X\<^sup>w - c\<close>.\<close>

definition xpow :: "int \<Rightarrow> nat \<Rightarrow> nat \<Rightarrow> nat \<Rightarrow> int" where
  "xpow c w j k = (if k mod w = j then c ^ (k div w) else 0)"

definition leaf_mult :: "int \<Rightarrow> nat \<Rightarrow> (nat \<Rightarrow> int) \<Rightarrow> (nat \<Rightarrow> int) \<Rightarrow> nat \<Rightarrow> int" where
  "leaf_mult c w F G j = (\<Sum>i < w. \<Sum>k < w. F i * G k * xpow c w j (i + k))"

lemma xpow_shift: "0 < w \<Longrightarrow> xpow c w j (n * w + k) = c ^ n * xpow c w j k"
  by (simp add: xpow_def power_add)

lemma residue_xpow:
  assumes "t \<le> 8" "j < 2 ^ (8 - t)"
  shows "residue c t f j = (\<Sum>k < 256. f ! k * xpow c (2 ^ (8 - t)) j k)"
proof -
  let ?w = "2 ^ (8 - t) :: nat"
  have w: "2 ^ t * ?w = 256" using assms(1) by (simp flip: power_add)
  have "(\<Sum>k < 256. f ! k * xpow c ?w j k) = (\<Sum>m < 2 ^ t. \<Sum>k = m * ?w..<m * ?w + ?w. f ! k * xpow c ?w j k)"
    using sum.nat_group [of "\<lambda>k. f ! k * xpow c ?w j k" ?w "2 ^ t"] w by simp
  also have "\<dots> = (\<Sum>m < 2 ^ t. f ! (m * ?w + j) * c ^ m)"
  proof (rule sum.cong [OF refl])
    fix m
    have "(\<Sum>k = m * ?w..<m * ?w + ?w. f ! k * xpow c ?w j k) = (\<Sum>r < ?w. f ! (m * ?w + r) * xpow c ?w j (m * ?w + r))"
      using sum.shift_bounds_nat_ivl [of "\<lambda>k. f ! k * xpow c ?w j k" 0 "m * ?w" ?w] by (simp add: ac_simps atLeast0LessThan)
    also have "\<dots> = (\<Sum>r < ?w. if r = j then f ! (m * ?w + j) * c ^ m else 0)"
      by (rule sum.cong) (auto simp: xpow_def)
    finally show "(\<Sum>k = m * ?w..<m * ?w + ?w. f ! k * xpow c ?w j k) = f ! (m * ?w + j) * c ^ m"
      using assms(2) by simp
  qed
  finally show ?thesis by (simp add: residue_def)
qed

lemma xpow_mult:
  assumes "0 < w"
  shows "(\<Sum>i < w. \<Sum>k < w. xpow c w i a * xpow c w k b * xpow c w j (i + k)) = xpow c w j (a + b)"
proof -
  have pick: "(\<Sum>k < w. xpow c w k d * F k) = c ^ (d div w) * F (d mod w)" for d and F :: "nat \<Rightarrow> int"
  proof -
    have "(\<Sum>k < w. xpow c w k d * F k) = (\<Sum>k < w. if k = d mod w then c ^ (d div w) * F (d mod w) else 0)"
      by (intro sum.cong) (auto simp: xpow_def)
    then show ?thesis using assms by simp
  qed
  have "(\<Sum>i < w. \<Sum>k < w. xpow c w i a * xpow c w k b * xpow c w j (i + k))
      = (\<Sum>i < w. xpow c w i a * (\<Sum>k < w. xpow c w k b * xpow c w j (i + k)))"
    by (simp add: sum_distrib_left ac_simps)
  also have "\<dots> = c ^ (a div w) * c ^ (b div w) * xpow c w j (a mod w + b mod w)" by (simp add: pick)
  also have "\<dots> = xpow c w j ((a div w + b div w) * w + (a mod w + b mod w))"
    using xpow_shift [OF assms] by (simp add: power_add)
  also have "(a div w + b div w) * w + (a mod w + b mod w) = a + b"
    using div_mult_mod_eq [of a w] div_mult_mod_eq [of b w] by (simp add: algebra_simps)
  finally show ?thesis .
qed

lemma leaf_mult_expand:
  assumes "0 < w"
  shows "leaf_mult c w (\<lambda>i. \<Sum>k < n. f ! k * xpow c w i k) (\<lambda>i. \<Sum>k < n. g ! k * xpow c w i k) j
    = (\<Sum>a < n. \<Sum>b < n. f ! a * g ! b * xpow c w j (a + b))"
proof -
  let ?t = "\<lambda>i k a b. f ! a * g ! b * (xpow c w i a * xpow c w k b * xpow c w j (i + k))"
  have "leaf_mult c w (\<lambda>i. \<Sum>k < n. f ! k * xpow c w i k) (\<lambda>i. \<Sum>k < n. g ! k * xpow c w i k) j
      = (\<Sum>i < w. \<Sum>k < w. \<Sum>a < n. \<Sum>b < n. ?t i k a b)"
    unfolding leaf_mult_def by (simp only: sum_product) (simp add: sum_distrib_right sum_distrib_left ac_simps)
  also have "\<dots> = (\<Sum>i < w. \<Sum>a < n. \<Sum>k < w. \<Sum>b < n. ?t i k a b)" by (intro sum.cong refl sum.swap)
  also have "\<dots> = (\<Sum>a < n. \<Sum>i < w. \<Sum>k < w. \<Sum>b < n. ?t i k a b)" by (rule sum.swap)
  also have "\<dots> = (\<Sum>a < n. \<Sum>i < w. \<Sum>b < n. \<Sum>k < w. ?t i k a b)" by (intro sum.cong refl sum.swap)
  also have "\<dots> = (\<Sum>a < n. \<Sum>b < n. \<Sum>i < w. \<Sum>k < w. ?t i k a b)" by (intro sum.cong refl sum.swap)
  also have "\<dots> = (\<Sum>a < n. \<Sum>b < n. f ! a * g ! b * xpow c w j (a + b))"
    using xpow_mult [OF assms, of c _ _ j] by (simp flip: sum_distrib_left)
  finally show ?thesis .
qed

lemma schoolbook_xpow:
  assumes wrap: "\<And>n. congr q (xpow c w j (n + 256)) (- xpow c w j n)"
  shows "congr q (\<Sum>k < 256. schoolbook q f g ! k * xpow c w j k) (\<Sum>a < 256. \<Sum>b < 256. f ! a * g ! b * xpow c w j (a + b))"
proof -
  define s :: "nat \<Rightarrow> nat \<Rightarrow> nat \<Rightarrow> int" where "s = (\<lambda>a b k. if a + b = k then 1 else if a + b = k + 256 then - 1 else 0)"
  have one: "congr q (\<Sum>k < 256. s a b k * xpow c w j k) (xpow c w j (a + b))" if "a < 256" "b < 256" for a b
  proof (cases "a + b < 256")
    case True
    then have "(\<Sum>k < 256. s a b k * xpow c w j k) = (\<Sum>k < 256. if k = a + b then xpow c w j k else 0)"
      by (intro sum.cong) (auto simp: s_def)
    then show ?thesis using True by simp
  next
    case False
    then have "(\<Sum>k < 256. s a b k * xpow c w j k) = (\<Sum>k < 256. if k = a + b - 256 then - xpow c w j k else 0)"
      using that by (intro sum.cong) (auto simp: s_def)
    then have "(\<Sum>k < 256. s a b k * xpow c w j k) = - xpow c w j (a + b - 256)" using that by (subst (asm) sum.delta) auto
    with wrap [of "a + b - 256"] False show ?thesis by (simp add: congr_sym)
  qed
  have "congr q (\<Sum>k < 256. schoolbook q f g ! k * xpow c w j k)
      (\<Sum>k < 256. (\<Sum>a < 256. \<Sum>b < 256. f ! a * g ! b * s a b k) * xpow c w j k)"
    by (intro congr_sum congr_mult congr_refl) (simp add: schoolbook_nth s_def)
  also have "(\<Sum>k < 256. (\<Sum>a < 256. \<Sum>b < 256. f ! a * g ! b * s a b k) * xpow c w j k)
      = (\<Sum>k < 256. \<Sum>a < 256. \<Sum>b < 256. f ! a * g ! b * (s a b k * xpow c w j k))"
    by (simp add: sum_distrib_right sum_distrib_left ac_simps)
  also have "\<dots> = (\<Sum>a < 256. \<Sum>k < 256. \<Sum>b < 256. f ! a * g ! b * (s a b k * xpow c w j k))" by (rule sum.swap)
  also have "\<dots> = (\<Sum>a < 256. \<Sum>b < 256. \<Sum>k < 256. f ! a * g ! b * (s a b k * xpow c w j k))"
    by (intro sum.cong refl sum.swap)
  also have "\<dots> = (\<Sum>a < 256. \<Sum>b < 256. f ! a * g ! b * (\<Sum>k < 256. s a b k * xpow c w j k))"
    by (simp add: sum_distrib_left)
  also have "congr q \<dots> (\<Sum>a < 256. \<Sum>b < 256. f ! a * g ! b * xpow c w j (a + b))"
    by (intro congr_sum congr_mult one congr_refl) auto
  finally show ?thesis .
qed

section \<open>What the transforms compute\<close>

context negacyclic_ntt
begin

lemma leaf_width: "0 < (2 :: nat) ^ (8 - depth)" "2 ^ depth * 2 ^ (8 - depth) = (256 :: nat)"
  using depth by (simp_all flip: power_add)

text \<open>Residues of a product are products of residues.\<close>

lemma residue_product:
  assumes "k < 2 ^ depth" "j < 2 ^ (8 - depth)"
  defines "c \<equiv> tree_root zeta (2 ^ depth + k)"
  shows "congr q (residue c depth (schoolbook q f g) j)
    (leaf_mult c (2 ^ (8 - depth)) (residue c depth f) (residue c depth g) j)"
proof -
  let ?w = "2 ^ (8 - depth) :: nat"
  have "congr q (xpow c ?w i (n + 256)) (- xpow c ?w i n)" for i n
  proof -
    have "xpow c ?w i (n + 256) = c ^ 2 ^ depth * xpow c ?w i n"
      using xpow_shift [OF leaf_width(1), of c i "2 ^ depth" n] leaf_width(2) by (simp add: add.commute)
    also have "congr q \<dots> (- 1 * xpow c ?w i n)"
      unfolding c_def by (intro congr_mult congr_refl root_order) (use assms in auto)
    finally show ?thesis by simp
  qed
  then have "congr q (residue c depth (schoolbook q f g) j) (\<Sum>a < 256. \<Sum>b < 256. f ! a * g ! b * xpow c ?w j (a + b))"
    using schoolbook_xpow [of q c ?w j f g] residue_xpow [OF depth(2) assms(2)] by simp
  also have "(\<Sum>a < 256. \<Sum>b < 256. f ! a * g ! b * xpow c ?w j (a + b))
      = leaf_mult c ?w (residue c depth f) (residue c depth g) j"
    unfolding leaf_mult_expand [OF leaf_width(1), symmetric] leaf_mult_def
    by (intro sum.cong refl) (simp add: residue_xpow [OF depth(2)])
  finally show ?thesis .
qed

lemma level_product:
  assumes "on_level depth f a" "on_level depth g b" "length p = 256"
    and prod: "\<And>k j. k < 2 ^ depth \<Longrightarrow> j < 2 ^ (8 - depth) \<Longrightarrow> congr q (p ! (k * 2 ^ (8 - depth) + j))
      (leaf_mult (tree_root zeta (2 ^ depth + k)) (2 ^ (8 - depth))
        (\<lambda>i. a ! (k * 2 ^ (8 - depth) + i)) (\<lambda>i. b ! (k * 2 ^ (8 - depth) + i)) j)"
  shows "on_level depth (schoolbook q f g) p"
  unfolding on_level_def
proof (intro conjI allI impI)
  fix k j :: nat
  assume kj: "k < 2 ^ depth" "j < 2 ^ (8 - depth)"
  let ?c = "tree_root zeta (2 ^ depth + k)" and ?w = "2 ^ (8 - depth) :: nat"
  note prod [OF kj]
  also have "congr q (leaf_mult ?c ?w (\<lambda>i. a ! (k * ?w + i)) (\<lambda>i. b ! (k * ?w + i)) j)
      (leaf_mult ?c ?w (residue ?c depth f) (residue ?c depth g) j)"
    unfolding leaf_mult_def using assms(1,2) kj(1)
    by (intro congr_sum congr_mult congr_refl) (auto simp: on_level_def)
  also have "congr q \<dots> (residue ?c depth (schoolbook q f g) j)"
    by (rule congr_sym [OF residue_product [OF kj]])
  finally show "congr q (p ! (k * ?w + j)) (residue ?c depth (schoolbook q f g) j)" .
qed (rule assms(3))

lemma level_unique:
  assumes "on_level depth f a" "on_level depth f b" "p < 256"
  shows "congr q (b ! p) (a ! p)"
proof -
  let ?w = "2 ^ (8 - depth) :: nat"
  have "p div ?w < 2 ^ depth" "p mod ?w < ?w" using assms(3) leaf_width by (simp_all add: less_mult_imp_div_less)
  then have "congr q (a ! (p div ?w * ?w + p mod ?w)) (residue (tree_root zeta (2 ^ depth + p div ?w)) depth f (p mod ?w))"
    "congr q (b ! (p div ?w * ?w + p mod ?w)) (residue (tree_root zeta (2 ^ depth + p div ?w)) depth f (p mod ?w))"
    using assms(1,2) unfolding on_level_def by blast+
  then have "congr q (b ! (p div ?w * ?w + p mod ?w)) (a ! (p div ?w * ?w + p mod ?w))" by (simp add: congr_mod)
  then show ?thesis by (simp only: div_mult_mod_eq)
qed

text \<open>
  The forward loops, with the counter running up from the root's number, and the inverse loops, with it
  running down from the last number of the table. \<open>up\<close> and \<open>down\<close> say which table entry a counter selects.
\<close>

lemma forward_levels:
  assumes "length f = 256" "\<And>i. 1 \<le> i \<Longrightarrow> Suc (up i) = up (Suc i)"
    and fwd: "\<And>i x y. 1 \<le> i \<Longrightarrow> congr q (fst (bf (up i) x y)) (x + zeta i * y) \<and> congr q (snd (bf (up i) x y)) (x - zeta i * y)"
  defines "st \<equiv> \<lambda>n. foldl (ntt_layer Suc bf) (f, up 1) (map (\<lambda>t. 2 ^ (7 - t)) [0..<n])"
  shows "n \<le> depth \<Longrightarrow> snd (st n) = up (2 ^ n) \<and> on_level n f (fst (st n)) \<and> (\<forall>t < n. splits t (fst (st t)) (fst (st (Suc t))))"
proof (induction n)
  case 0
  then show ?case using on_level_0 [OF assms(1)] by (simp add: st_def)
next
  case (Suc n)
  then have n: "n < depth" "snd (st n) = up (2 ^ n)" "on_level n f (fst (st n))" by simp_all
  have len: "length (fst (st n)) = 256" using n(3) by (simp add: on_level_def)
  have step: "st (Suc n) = ntt_layer Suc bf (fst (st n), up (2 ^ n)) (2 ^ (7 - n))"
    using n(2) by (simp add: st_def) (metis prod.collapse)
  have pos: "1 \<le> (2 :: nat) ^ n + k" for k using one_le_power [of "2 :: nat" n] by linarith
  have up: "(Suc ^^ k) (up (2 ^ n)) = up (2 ^ n + k)" for k
    by (induction k) (simp_all add: assms(2) [OF pos])
  have "splits n (fst (st n)) (fst (st (Suc n)))"
    unfolding step by (rule forward_splits [OF len n(1)]) (simp only: up fwd [OF pos])
  moreover have "snd (st (Suc n)) = up (2 ^ Suc n)"
    unfolding step using layer_result(1) [OF len layer_lengths(1) [OF n(1)]] layer_lengths(2) [OF n(1)]
    by (simp only: up) (simp add: mult_2)
  ultimately show ?case using splits_level [OF n(3) _ n(1)] Suc by (auto simp: less_Suc_eq)
qed

lemma inverse_levels:
  assumes down: "\<And>i. 1 \<le> i \<Longrightarrow> down i - 1 = down (i - 1)"
    and inv: "\<And>i x y. congr q (fst (bf (down i) x y)) (x + y) \<and> congr q (snd (bf (down i) x y)) (zeta i * (y - x))"
    and split: "\<And>t. t < depth \<Longrightarrow> splits t (a t) (a (Suc t))" and "scaled 1 (a depth) d"
  defines "st \<equiv> \<lambda>n. foldl (ntt_layer (\<lambda>i. i - 1) bf) (d, down (2 ^ depth - 1)) (map (\<lambda>t. 2 ^ (7 - (depth - Suc t))) [0..<n])"
  shows "n \<le> depth \<Longrightarrow> snd (st n) = down (2 ^ (depth - n) - 1) \<and> scaled (2 ^ n) (a (depth - n)) (fst (st n))"
proof (induction n)
  case 0
  then show ?case using assms(4) by (simp add: st_def)
next
  case (Suc n)
  define t where "t = depth - Suc n"
  have t: "t < depth" "depth - n = Suc t" using Suc.prems by (auto simp: t_def)
  have IH: "snd (st n) = down (2 ^ Suc t - 1)" "scaled (2 ^ n) (a (Suc t)) (fst (st n))" using Suc t by simp_all
  have len: "length (fst (st n)) = 256" using IH(2) by (simp add: scaled_def)
  have step: "st (Suc n) = ntt_layer (\<lambda>i. i - 1) bf (fst (st n), down (2 ^ Suc t - 1)) (2 ^ (7 - t))"
    using IH(1) by (simp add: st_def t_def) (metis prod.collapse)
  have down_k: "((\<lambda>i. i - 1) ^^ k) (down (2 ^ Suc t - 1)) = down (2 ^ Suc t - 1 - k)" if "k \<le> 2 ^ t" for k
    using that
  proof (induction k)
    case (Suc k)
    have "1 \<le> (2 :: nat) ^ Suc t - 1 - k" using Suc.prems by simp
    with Suc down show ?case by (simp del: power_Suc)
  qed simp
  have "scaled (2 * 2 ^ n) (a t) (fst (st (Suc n)))"
    unfolding step by (rule inverse_layer [OF split [OF t(1)] IH(2) t(1)]) (simp only: down_k less_imp_le inv)
  moreover have "snd (st (Suc n)) = down (2 ^ t - 1)"
    unfolding step using layer_result(1) [OF len layer_lengths(1) [OF t(1)]] layer_lengths(2) [OF t(1)] down_k [of "2 ^ t"]
    by (simp add: mult_2)
  ultimately show ?case by (simp add: t_def)
qed

text \<open>
  The inverse loops, run on the residues of \<open>g\<close> and scaled by the inverse of \<open>2\<^sup>d\<^sup>e\<^sup>p\<^sup>t\<^sup>h\<close>, give the coefficients of
  \<open>g\<close>: the forward loops exhibit a chain of splits from \<open>g\<close> to these residues.
\<close>

lemma inverse_transform:
  assumes "length g = 256" "on_level depth g p"
    and "\<And>i. 1 \<le> i \<Longrightarrow> Suc (up i) = up (Suc i)" "\<And>i. 1 \<le> i \<Longrightarrow> down i - 1 = down (i - 1)"
    and "\<And>i x y. 1 \<le> i \<Longrightarrow> congr q (fst (bf (up i) x y)) (x + zeta i * y) \<and> congr q (snd (bf (up i) x y)) (x - zeta i * y)"
    and "\<And>i x y. congr q (fst (bi (down i) x y)) (x + y) \<and> congr q (snd (bi (down i) x y)) (zeta i * (y - x))"
    and "congr q (2 ^ depth * ninv) 1"
  shows "map (\<lambda>x. x * ninv mod q) (fst (foldl (ntt_layer (\<lambda>i. i - 1) bi) (p, down (2 ^ depth - 1))
      (map (\<lambda>t. 2 ^ (7 - (depth - Suc t))) [0..<depth]))) = map (\<lambda>x. x mod q) g"
proof -
  let ?a = "\<lambda>n. fst (foldl (ntt_layer Suc bf) (g, up 1) (map (\<lambda>t. 2 ^ (7 - t)) [0..<n]))"
  have fwd: "on_level depth g (?a depth)" "\<And>t. t < depth \<Longrightarrow> splits t (?a t) (?a (Suc t))"
    using forward_levels [OF assms(1,3,5), of depth] by auto
  have "scaled 1 (?a depth) p"
    using level_unique [OF fwd(1) assms(2)] assms(2) by (simp add: scaled_def on_level_def)
  from inverse_levels [where a = ?a, OF assms(4,6) fwd(2) this, of depth]
  have r: "scaled (2 ^ depth) g (fst (foldl (ntt_layer (\<lambda>i. i - 1) bi) (p, down (2 ^ depth - 1))
      (map (\<lambda>t. 2 ^ (7 - (depth - Suc t))) [0..<depth])))" (is "scaled _ _ ?r") by simp
  have "?r ! i * ninv mod q = g ! i mod q" if "i < 256" for i
  proof -
    have "congr q (?r ! i * ninv) (2 ^ depth * g ! i * ninv)" using r that by (auto simp: scaled_def intro: congr_mult)
    also have "\<dots> = g ! i * (2 ^ depth * ninv)" by simp
    also have "congr q \<dots> (g ! i * 1)" by (intro congr_mult assms(7) congr_refl)
    finally show ?thesis by (simp add: congr_mod)
  qed
  then show ?thesis using r assms(1) by (intro nth_equalityI) (simp_all add: scaled_def)
qed

end

section \<open>Tables of powers in bit-reversed order\<close>

text \<open>The low \<open>n\<close> bits of \<open>i\<close> in reverse.\<close>

fun brv :: "nat \<Rightarrow> nat \<Rightarrow> nat" where
  "brv 0 i = 0"
| "brv (Suc n) i = (i mod 2) * 2 ^ n + brv n (i div 2)"

lemma brv_small: "i < 2 ^ n \<Longrightarrow> brv (Suc n) i = 2 * brv n i"
proof (induction n arbitrary: i)
  case (Suc n)
  then have "brv (Suc n) (i div 2) = 2 * brv n (i div 2)" by simp
  then show ?case by simp
qed simp

lemma brv_halve: "h < 2 ^ n \<Longrightarrow> 2 * brv n h = (h mod 2) * 2 ^ n + brv n (h div 2)"
  using brv_small [of h n] by simp

lemma brv_top: "k < 2 ^ n \<Longrightarrow> brv (Suc n) (2 ^ n + k) = brv (Suc n) k + 1"
proof (induction n arbitrary: k)
  case (Suc n)
  have d: "(2 ^ Suc n + k) div 2 = 2 ^ n + k div 2" "(2 ^ Suc n + k) mod 2 = k mod 2" by (simp_all add: mod_add_left_eq)
  have "brv (Suc (Suc n)) (2 ^ Suc n + k) = (k mod 2) * 2 ^ Suc n + brv (Suc n) (2 ^ n + k div 2)"
    unfolding brv.simps(2) [of "Suc n"] d ..
  also have "\<dots> = (k mod 2) * 2 ^ Suc n + (brv (Suc n) (k div 2) + 1)" using Suc.IH [of "k div 2"] Suc.prems by simp
  finally show ?case unfolding brv.simps(2) [of "Suc n" k] by simp
qed simp

lemma brv_complement: "k < 2 ^ n \<Longrightarrow> brv n k + brv n (2 ^ n - 1 - k) = 2 ^ n - 1"
proof (induction n arbitrary: k)
  case (Suc n)
  let ?c = "2 ^ Suc n - 1 - k"
  have c: "k mod 2 + ?c mod 2 = 1" "?c div 2 = 2 ^ n - 1 - k div 2" using Suc.prems by (auto simp: mod2_eq_if)
  have "brv (Suc n) k + brv (Suc n) ?c = (k mod 2 + ?c mod 2) * 2 ^ n + (brv n (k div 2) + brv n (2 ^ n - 1 - k div 2))"
    unfolding brv.simps(2) c(2) by (simp only: distrib_right add.assoc add.left_commute)
  also have "\<dots> = 1 * 2 ^ n + (2 ^ n - 1)" using Suc.IH [of "k div 2"] Suc.prems c(1) by (simp only: less_mult_imp_div_less power_Suc2)
  finally show ?case by simp
qed simp

lemma brv_scale: "t \<le> n \<Longrightarrow> i < 2 ^ t \<Longrightarrow> brv n i = 2 ^ (n - t) * brv t i"
proof (induction n)
  case (Suc n)
  show ?case
  proof (cases "t = Suc n")
    case False
    then have "t \<le> n" using Suc.prems by simp
    moreover have "i < 2 ^ n" using Suc.prems(2) power_increasing [OF \<open>t \<le> n\<close>, of "2 :: nat"] by linarith
    ultimately show ?thesis using Suc brv_small [of i n] by (simp add: Suc_diff_le)
  qed simp
qed simp

lemma brv_opposite:
  assumes "t < n" "k < 2 ^ t"
  shows "brv n (2 ^ t + k) + brv n (2 ^ Suc t - 1 - k) = 2 ^ n"
proof -
  have k: "k < 2 ^ Suc t" "2 ^ t + k < 2 ^ Suc t" "2 ^ Suc t - 1 - k < 2 ^ Suc t" using assms(2) by simp_all
  have "brv (Suc t) (2 ^ t + k) + brv (Suc t) (2 ^ Suc t - 1 - k) = 2 ^ Suc t" (is "?s = _")
    using brv_top [OF assms(2)] brv_complement [OF k(1)] one_le_power [of "2 :: nat" "Suc t"] by linarith
  then have "2 ^ (n - Suc t) * ?s = 2 ^ (n - Suc t) * 2 ^ Suc t" by (rule arg_cong)
  also have "\<dots> = 2 ^ n" using assms(1) by (simp flip: power_add add: Suc_leI del: power_Suc)
  finally show ?thesis using brv_scale [OF Suc_leI [OF assms(1)] k(2)] brv_scale [OF Suc_leI [OF assms(1)] k(3)]
    by (simp only: distrib_left)
qed

lemma brv_Suc_high: "brv (Suc n) i = 2 * brv n i + (i div 2 ^ n) mod 2"
proof (induction n arbitrary: i)
  case (Suc n)
  have "brv (Suc (Suc n)) i = (i mod 2) * 2 ^ Suc n + brv (Suc n) (i div 2)" by (rule brv.simps)
  also have "\<dots> = 2 * ((i mod 2) * 2 ^ n + brv n (i div 2)) + (i div 2 ^ Suc n) mod 2"
    unfolding Suc.IH by (simp add: div_mult2_eq)
  finally show ?case unfolding brv.simps(2) [of n i] .
qed simp

lemma brv_fold:
  "m \<le> n \<Longrightarrow> foldl (\<lambda>r b. r OR push_bit (n - 1 - b) (drop_bit b i AND 1)) 0 [0..<m] = push_bit (n - m) (brv m i)"
proof (induction m)
  case (Suc m)
  have b: "drop_bit m i AND 1 = (i div 2 ^ m) mod 2" by (simp add: and_one_eq drop_bit_eq_div)
  have or: "2 * x OR (y mod 2) = 2 * x + y mod 2" for x y :: nat by (cases "even y") (auto simp: or_Suc_0_eq odd_iff_mod_2_eq_one)
  have n: "n - m = Suc (n - Suc m)" using Suc.prems by simp
  have "foldl (\<lambda>r b. r OR push_bit (n - 1 - b) (drop_bit b i AND 1)) 0 [0..<Suc m]
      = push_bit (n - m) (brv m i) OR push_bit (n - Suc m) ((i div 2 ^ m) mod 2)"
    using Suc by (simp add: b [unfolded and_one_eq])
  also have "\<dots> = push_bit (n - Suc m) (2 * brv m i OR (i div 2 ^ m) mod 2)"
    unfolding n by (simp add: push_bit_or mult.commute)
  finally show ?case unfolding or brv_Suc_high .
qed simp

text \<open>
  A table that holds the powers of a root of \<open>-1\<close> in bit-reversed order is one that the transforms need.
\<close>

locale root_table =
  fixes q :: int and zeta :: "nat \<Rightarrow> int" and depth :: nat and w :: int
  assumes q_gt_1': "1 < q" and depth': "0 < depth" "depth \<le> 8"
    and root: "congr q (w ^ 2 ^ depth) (- 1)"
    and table: "h < 2 ^ depth \<Longrightarrow> congr q (zeta h) (w ^ brv depth h)"
begin

lemma root_shift: "congr q (w ^ (e * 2 ^ depth + n)) (if even e then w ^ n else - (w ^ n))" if "e < 2"
proof -
  have "congr q (w ^ (2 ^ depth + n)) (- 1 * w ^ n)" unfolding power_add by (intro congr_mult root congr_refl)
  with that show ?thesis by (cases "e = 0") (auto simp: less_2_cases_iff)
qed

lemma table_tree_root:
  assumes "2 \<le> h" "h div 2 < 2 ^ depth"
  shows "congr q (w ^ ((h mod 2) * 2 ^ depth + brv depth (h div 2))) (tree_root zeta h)"
proof -
  have "congr q (w ^ ((h mod 2) * 2 ^ depth + brv depth (h div 2)))
      (if even h then w ^ brv depth (h div 2) else - (w ^ brv depth (h div 2)))"
    using root_shift [of "h mod 2" "brv depth (h div 2)"] by (simp add: even_iff_mod_2_eq_zero)
  also have "congr q \<dots> (tree_root zeta h)"
    using congr_sym [OF table [OF assms(2)]] assms(1) by (auto simp: tree_root_def intro: congr_minus)
  finally show ?thesis .
qed

lemma leaf_root:
  assumes "k < 2 ^ depth"
  shows "congr q (w ^ (2 * brv depth k + 1)) (tree_root zeta (2 ^ depth + k))"
proof -
  obtain n where n: "depth = Suc n" using depth'(1) gr0_implies_Suc by blast
  have k: "k div 2 < 2 ^ n" using assms n by auto
  have "2 * brv depth k + 1 = ((2 ^ depth + k) mod 2) * 2 ^ depth + brv depth ((2 ^ depth + k) div 2)"
  proof -
    have "(2 ^ depth + k) div 2 = 2 ^ n + k div 2" "(2 ^ depth + k) mod 2 = k mod 2" by (simp_all add: n mod_add_left_eq)
    then show ?thesis using brv_halve [OF assms] brv_top [OF k] by (simp add: n)
  qed
  moreover have "2 \<le> 2 ^ depth + k" using n by (simp add: trans_le_add1)
  moreover have "(2 ^ depth + k) div 2 < 2 ^ depth" using assms by (simp add: n less_mult_imp_div_less)
  ultimately show ?thesis using table_tree_root by simp
qed

end

sublocale root_table \<subseteq> negacyclic_ntt
proof unfold_locales
  show "1 < q" "0 < depth" "depth \<le> 8" by (rule q_gt_1' depth')+
next
  fix h :: nat assume h: "1 \<le> h" "h < 2 ^ depth"
  have "congr q (zeta h ^ 2) ((w ^ brv depth h) ^ 2)" by (intro congr_power table h)
  also have "(w ^ brv depth h) ^ 2 = w ^ (2 * brv depth h)" by (simp add: mult.commute flip: power_mult)
  also have "\<dots> = w ^ ((h mod 2) * 2 ^ depth + brv depth (h div 2))" using brv_halve [OF h(2)] by simp
  also have "congr q \<dots> (tree_root zeta h)"
  proof (cases "h = 1")
    case True
    have "brv n 0 = 0" for n by (induction n) simp_all
    then show ?thesis using root True by (simp add: tree_root_def)
  next
    case False
    then show ?thesis using h by (intro table_tree_root) auto
  qed
  finally show "congr q (zeta h ^ 2) (tree_root zeta h)" .
next
  fix t k :: nat assume tk: "t < depth" "k < 2 ^ t"
  have le: "(2 :: nat) ^ Suc t \<le> 2 ^ depth" using tk(1) by (intro power_increasing) auto
  have "congr q (zeta (2 ^ t + k) * zeta (2 ^ Suc t - 1 - k)) (w ^ brv depth (2 ^ t + k) * w ^ brv depth (2 ^ Suc t - 1 - k))"
    using tk le by (intro congr_mult table) auto
  also have "\<dots> = w ^ 2 ^ depth" using brv_opposite [OF tk] by (simp flip: power_add)
  also note root
  finally show "congr q (zeta (2 ^ t + k) * zeta (2 ^ Suc t - 1 - k)) (- 1)" .
qed

section \<open>Linearity\<close>

context negacyclic_ntt
begin

lemma level_add:
  assumes "on_level t f a" "on_level t g b" "length p = 256" "t \<le> 8"
    and "\<And>i. i < 256 \<Longrightarrow> congr q (h ! i) (f ! i + g ! i)" "\<And>i. i < 256 \<Longrightarrow> congr q (p ! i) (a ! i + b ! i)"
  shows "on_level t h p"
  unfolding on_level_def
proof (intro conjI allI impI)
  fix k j :: nat
  assume kj: "k < 2 ^ t" "j < 2 ^ (8 - t)"
  let ?c = "tree_root zeta (2 ^ t + k)" and ?w = "2 ^ (8 - t) :: nat"
  have below: "m * ?w + j < 256" if "m < 2 ^ t" for m
  proof -
    have "m * ?w + j < Suc m * ?w" using kj(2) by simp
    also have "\<dots> \<le> 2 ^ t * ?w" using that by (intro mult_le_mono) auto
    also have "\<dots> = 2 ^ 8" unfolding power_add [symmetric] using assms(4) by simp
    finally show ?thesis by simp
  qed
  have "congr q (p ! (k * ?w + j)) (a ! (k * ?w + j) + b ! (k * ?w + j))" by (rule assms(6) [OF below [OF kj(1)]])
  also have "congr q \<dots> (residue ?c t f j + residue ?c t g j)"
    using assms(1,2) kj by (intro congr_add) (auto simp: on_level_def)
  also have "\<dots> = (\<Sum>m < 2 ^ t. (f ! (m * ?w + j) + g ! (m * ?w + j)) * ?c ^ m)"
    by (simp add: residue_def sum.distrib distrib_right)
  also have "congr q \<dots> (residue ?c t h j)"
    unfolding residue_def by (intro congr_sum congr_mult congr_refl congr_sym [OF assms(5)]) (simp add: below)
  finally show "congr q (p ! (k * ?w + j)) (residue ?c t h j)" .
qed (rule assms(3))

end

end
