(* ===== verification/Dsa_Ring.thy ===== *)
theory Dsa_Ring
  imports Ntt
begin

text \<open>
  The arithmetic of ML-DSA-65, first part of \<open>crates/ciphra-crypto/src/ml_dsa.rs\<close>: coefficients modulo \<open>q\<close>, the
  transform and its inverse, and the rounding of coefficients with hints. Coefficients are \<open>i32\<close> values, held
  here as integers: sums stay below \<open>2\<^sup>2\<^sup>4\<close> and products are taken in \<open>i64\<close>. The transform splits the ring
  into linear factors, so that multiplication in its domain is coefficient-wise.
\<close>

section \<open>Coefficients\<close>

definition dsa_q :: int where "dsa_q = 8380417"
definition dsa_d :: nat where "dsa_d = 13"
definition GAMMA1 :: int where "GAMMA1 = 2 ^ 19"
definition GAMMA2 :: int where "GAMMA2 = (dsa_q - 1) div 32"

definition add_mod :: "int \<Rightarrow> int \<Rightarrow> int" where
  "add_mod a b = (let s = a + b in if dsa_q \<le> s then s - dsa_q else s)"

definition sub_mod :: "int \<Rightarrow> int \<Rightarrow> int" where
  "sub_mod a b = (let s = a - b in if s < 0 then s + dsa_q else s)"

definition dsa_mul_mod :: "int \<Rightarrow> int \<Rightarrow> int" where "dsa_mul_mod a b = (a * b) mod dsa_q"

definition dsa_pow_mod :: "int \<Rightarrow> nat \<Rightarrow> int" where
  "dsa_pow_mod base e = pow_loop dsa_q 1 (base mod dsa_q) e"

definition center :: "int \<Rightarrow> int" where
  "center a = (if dsa_q div 2 < a then a - dsa_q else a)"

definition norm_inf :: "int list \<Rightarrow> int" where
  "norm_inf p = foldl max 0 (map (\<lambda>c. \<bar>center c\<bar>) p)"

section \<open>The transform\<close>

definition dsa_zetas :: "int list" where
  "dsa_zetas = map (\<lambda>i. dsa_pow_mod 1753 (brv 8 i)) [0..<256]"

definition n_inverse :: int where "n_inverse = dsa_pow_mod 256 (nat (dsa_q - 2))"

definition dsa_butterfly :: "int \<Rightarrow> int \<Rightarrow> int \<Rightarrow> int \<times> int" where
  "dsa_butterfly zeta x y = (let t = dsa_mul_mod zeta y in (add_mod x t, sub_mod x t))"

definition dsa_inv_butterfly :: "int \<Rightarrow> int \<Rightarrow> int \<Rightarrow> int \<times> int" where
  "dsa_inv_butterfly zeta x y = (add_mod x y, dsa_mul_mod zeta (sub_mod x y))"

text \<open>The counter is advanced before it selects the root.\<close>

definition dsa_ntt :: "int list \<Rightarrow> int list" where
  "dsa_ntt a = fst (foldl (ntt_layer Suc (\<lambda>k. dsa_butterfly (dsa_zetas ! (k + 1)))) (a, 0) [128, 64, 32, 16, 8, 4, 2, 1])"

definition dsa_inv_ntt :: "int list \<Rightarrow> int list" where
  "dsa_inv_ntt a =
    map (\<lambda>x. dsa_mul_mod x n_inverse)
      (fst (foldl (ntt_layer (\<lambda>k. k - 1) (\<lambda>k. dsa_inv_butterfly (dsa_q - dsa_zetas ! (k - 1)))) (a, 256) [1, 2, 4, 8, 16, 32, 64, 128]))"

definition dsa_add :: "int list \<Rightarrow> int list \<Rightarrow> int list" where
  "dsa_add a b = map (\<lambda>i. add_mod (a ! i) (b ! i)) [0..<256]"

definition dsa_sub :: "int list \<Rightarrow> int list \<Rightarrow> int list" where
  "dsa_sub a b = map (\<lambda>i. sub_mod (a ! i) (b ! i)) [0..<256]"

definition dsa_pointwise :: "int list \<Rightarrow> int list \<Rightarrow> int list" where
  "dsa_pointwise a b = map (\<lambda>i. dsa_mul_mod (a ! i) (b ! i)) [0..<256]"

section \<open>Rounding and hints\<close>

definition power2round :: "int \<Rightarrow> int \<times> int" where
  "power2round r0 = (let r = r0 mod dsa_q; r1 = (r + 2 ^ (dsa_d - 1) - 1) div 2 ^ dsa_d in (r1, r - r1 * 2 ^ dsa_d))"

definition decompose :: "int \<Rightarrow> int \<times> int" where
  "decompose r' =
    (let r = r' mod dsa_q; m = r mod (2 * GAMMA2);
         r0 = (if GAMMA2 < m then m - 2 * GAMMA2 else m)
     in if r - r0 = dsa_q - 1 then (0, r0 - 1) else ((r - r0) div (2 * GAMMA2), r0))"

definition high_bits :: "int \<Rightarrow> int" where "high_bits r = fst (decompose r)"
definition low_bits :: "int \<Rightarrow> int" where "low_bits r = snd (decompose r)"

definition make_hint :: "int \<Rightarrow> int \<Rightarrow> bool" where
  "make_hint z r \<longleftrightarrow> high_bits r \<noteq> high_bits (add_mod (r mod dsa_q) (z mod dsa_q))"

definition use_hint :: "bool \<Rightarrow> int \<Rightarrow> int" where
  "use_hint hint r =
    (let m = (dsa_q - 1) div (2 * GAMMA2); (r1, r0) = decompose r in
     if hint then (if 0 < r0 then (r1 + 1) mod m else (r1 - 1) mod m) else r1)"

section \<open>The transform multiplies\<close>

definition dsa_poly :: "int list \<Rightarrow> bool" where
  "dsa_poly a \<longleftrightarrow> length a = 256 \<and> list_all (\<lambda>x. 0 \<le> x \<and> x < dsa_q) a"

lemma dsa_poly_nth: "dsa_poly a \<Longrightarrow> i < 256 \<Longrightarrow> 0 \<le> a ! i \<and> a ! i < dsa_q"
  by (simp add: dsa_poly_def list_all_length)

lemma dsa_poly_length: "dsa_poly a \<Longrightarrow> length a = 256"
  by (simp add: dsa_poly_def)

lemma dsa_poly_eqI:
  assumes "dsa_poly a" "dsa_poly b" "\<And>i. i < 256 \<Longrightarrow> congr dsa_q (a ! i) (b ! i)"
  shows "a = b"
proof (rule nth_equalityI)
  fix i assume "i < length a"
  then have "i < 256" using assms(1) by (simp add: dsa_poly_def)
  then show "a ! i = b ! i" using congr_range_eq [OF assms(3)] dsa_poly_nth [OF assms(1)] dsa_poly_nth [OF assms(2)] by simp
qed (use assms in \<open>simp add: dsa_poly_def\<close>)

text \<open>The operations reduce coefficients in range, and are congruent to the exact ones on any.\<close>

definition in_range :: "int \<Rightarrow> bool" where "in_range x \<longleftrightarrow> 0 \<le> x \<and> x < dsa_q"

lemma mod_ops_range:
  "in_range x \<Longrightarrow> in_range y \<Longrightarrow> in_range (add_mod x y)" "in_range x \<Longrightarrow> in_range y \<Longrightarrow> in_range (sub_mod x y)"
  "in_range (dsa_mul_mod x y)"
  by (auto simp: in_range_def add_mod_def sub_mod_def dsa_mul_mod_def Let_def dsa_q_def)

lemma mod_ops_congr:
  "congr dsa_q (add_mod x y) (x + y)" "congr dsa_q (sub_mod x y) (x - y)" "congr dsa_q (dsa_mul_mod x y) (x * y)"
  by (auto simp: congr_def add_mod_def sub_mod_def Let_def dsa_mul_mod_def mod_eq_dvd_iff [symmetric])

lemma dsa_poly_iff: "dsa_poly a \<longleftrightarrow> length a = 256 \<and> (\<forall>i < 256. in_range (a ! i))"
  by (auto simp: dsa_poly_def list_all_length in_range_def)

lemma dsa_ops_nth [simp]:
  "i < 256 \<Longrightarrow> dsa_add a b ! i = add_mod (a ! i) (b ! i)" "i < 256 \<Longrightarrow> dsa_sub a b ! i = sub_mod (a ! i) (b ! i)"
  "i < 256 \<Longrightarrow> dsa_pointwise a b ! i = dsa_mul_mod (a ! i) (b ! i)"
  by (simp_all add: dsa_add_def dsa_sub_def dsa_pointwise_def)

lemma dsa_ops_length [simp]: "length (dsa_add a b) = 256" "length (dsa_sub a b) = 256" "length (dsa_pointwise a b) = 256"
  by (simp_all add: dsa_add_def dsa_sub_def dsa_pointwise_def)

lemma dsa_ops_poly [simp, intro]:
  "dsa_poly a \<Longrightarrow> dsa_poly b \<Longrightarrow> dsa_poly (dsa_add a b)" "dsa_poly a \<Longrightarrow> dsa_poly b \<Longrightarrow> dsa_poly (dsa_sub a b)"
  "dsa_poly (dsa_pointwise a b)"
  by (simp_all add: dsa_poly_iff mod_ops_range)

lemma dsa_pow_mod_power: "congr dsa_q (dsa_pow_mod b e) (b ^ e)"
  unfolding dsa_pow_mod_def by (rule congr_trans [OF pow_loop_power]) (simp add: congr_power)

lemma dsa_zetas_nth: "i < 256 \<Longrightarrow> congr dsa_q (dsa_zetas ! i) (1753 ^ brv 8 i)"
  by (simp add: dsa_zetas_def dsa_pow_mod_power)

interpretation dsa: root_table dsa_q "\<lambda>i. dsa_zetas ! i" 8 1753
proof unfold_locales
  note congr_sym [OF dsa_pow_mod_power [of 1753 "2 ^ 8"]]
  also have "congr dsa_q (dsa_pow_mod 1753 (2 ^ 8)) (- 1)" by (simp add: congr_def dsa_pow_mod_def pow_loop.simps dsa_q_def)
  finally show "congr dsa_q (1753 ^ 2 ^ 8) (- 1)" .
next
  show "congr dsa_q (dsa_zetas ! h) (1753 ^ brv 8 h)" if "h < 2 ^ 8" for h
    by (rule dsa_zetas_nth) (use that in simp)
qed (simp_all add: dsa_q_def)

lemma dsa_butterfly_congr:
  "congr dsa_q (fst (dsa_butterfly z x y)) (x + z * y) \<and> congr dsa_q (snd (dsa_butterfly z x y)) (x - z * y)"
  unfolding dsa_butterfly_def Let_def fst_conv snd_conv
  by (meson congr_add congr_diff congr_refl congr_trans mod_ops_congr)

lemma dsa_inv_butterfly_congr:
  "congr dsa_q (fst (dsa_inv_butterfly (dsa_q - z) x y)) (x + y) \<and>
   congr dsa_q (snd (dsa_inv_butterfly (dsa_q - z) x y)) (z * (y - x))"
proof -
  have "congr dsa_q (dsa_mul_mod (dsa_q - z) (sub_mod x y)) ((dsa_q - z) * (x - y))"
    by (rule congr_trans [OF mod_ops_congr(3)]) (intro congr_mult congr_refl mod_ops_congr)
  also have "congr dsa_q \<dots> (z * (y - x))"
    unfolding congr_def by (rule dvdI [of _ _ "x - y"]) (simp add: algebra_simps)
  finally show ?thesis by (simp add: dsa_inv_butterfly_def mod_ops_congr)
qed

lemma layer_dsa_poly:
  assumes "dsa_poly (fst s)" "len \<in> {1, 2, 4, 8, 16, 32, 64, 128}"
    and "\<And>i x y. in_range x \<Longrightarrow> in_range y \<Longrightarrow> in_range (fst (bf i x y)) \<and> in_range (snd (bf i x y))"
  shows "dsa_poly (fst (ntt_layer step bf s len))"
proof -
  have len: "length (fst s) = 256" using assms(1) by (simp add: dsa_poly_def)
  note r = layer_result [OF len assms(2), where step = step and bf = bf and i = "snd s"]
  have "in_range (fst (ntt_layer step bf s len) ! p)" if p: "p < 256" for p
  proof -
    have low: "p + len < 256" if "p mod (2 * len) < len"
    proof -
      have "p div (2 * len) < 256 div (2 * len)" using p assms(2) by (auto simp: less_mult_imp_div_less)
      then have "2 * len * Suc (p div (2 * len)) \<le> 2 * len * (256 div (2 * len))" by (intro mult_le_mono2) simp
      also have "\<dots> = 256" using assms(2) by auto
      finally have "2 * len * (p div (2 * len)) + 2 * len \<le> 256" by simp
      moreover have "p = 2 * len * (p div (2 * len)) + p mod (2 * len)" by simp
      ultimately show ?thesis using that by linarith
    qed
    show ?thesis
      using r(3) [OF p] assms(1,3) p low by (auto simp: layer_at_def Let_def dsa_poly_iff)
  qed
  then show ?thesis using r(2) by (simp add: dsa_poly_iff)
qed

lemma layers_dsa_poly:
  assumes "\<And>i x y. in_range x \<Longrightarrow> in_range y \<Longrightarrow> in_range (fst (bf i x y)) \<and> in_range (snd (bf i x y))"
  shows "dsa_poly (fst s) \<Longrightarrow> set ls \<subseteq> {1, 2, 4, 8, 16, 32, 64, 128} \<Longrightarrow> dsa_poly (fst (foldl (ntt_layer step bf) s ls))"
proof (induction ls arbitrary: s)
  case (Cons len ls)
  then have "dsa_poly (fst (ntt_layer step bf s len))" by (intro layer_dsa_poly assms) auto
  with Cons show ?case by simp
qed simp

lemma dsa_ntt_poly [simp]: "dsa_poly a \<Longrightarrow> dsa_poly (dsa_ntt a)"
  unfolding dsa_ntt_def by (rule layers_dsa_poly) (auto simp: dsa_butterfly_def Let_def mod_ops_range)

lemma dsa_ntt_level:
  assumes "length f = 256"
  shows "dsa.on_level 8 f (dsa_ntt f)"
proof -
  have lens: "map (\<lambda>t. 2 ^ (7 - t)) [0..<8] = [128, 64, 32, 16, 8, 4, 2, 1 :: nat]" by (simp add: upt_rec)
  from dsa.forward_levels [OF assms, of "\<lambda>i. i - 1" "\<lambda>k. dsa_butterfly (dsa_zetas ! (k + 1))" 8] show ?thesis
    by (simp add: dsa_butterfly_congr lens dsa_ntt_def del: One_nat_def)
qed

lemma dsa_inv_ntt_level:
  assumes "length g = 256" "dsa.on_level 8 g p"
  shows "dsa_inv_ntt p = map (\<lambda>x. x mod dsa_q) g"
proof -
  have lens: "map (\<lambda>t. 2 ^ (7 - (8 - Suc t))) [0..<8] = [1, 2, 4, 8, 16, 32, 64, 128 :: nat]" by (simp add: upt_rec)
  have "congr dsa_q (2 ^ 8 * n_inverse) 1"
    by (simp add: congr_def n_inverse_def dsa_pow_mod_def pow_loop.simps dsa_q_def)
  from dsa.inverse_transform [OF assms, where up = "\<lambda>i. i - 1" and down = "\<lambda>i. i + 1", OF _ _ _ _ this,
      where bf = "\<lambda>k. dsa_butterfly (dsa_zetas ! (k + 1))" and bi = "\<lambda>k. dsa_inv_butterfly (dsa_q - dsa_zetas ! (k - 1))"]
  show ?thesis
    by (simp add: dsa_butterfly_congr dsa_inv_butterfly_congr lens [simplified] dsa_inv_ntt_def dsa_mul_mod_def [abs_def])
qed

lemma map_mod_dsa_poly: "dsa_poly a \<Longrightarrow> map (\<lambda>x. x mod dsa_q) a = a"
  by (rule nth_equalityI) (simp_all add: dsa_poly_iff in_range_def)

lemma dsa_inv_of_level: "dsa_poly g \<Longrightarrow> dsa.on_level 8 g p \<Longrightarrow> dsa_inv_ntt p = g"
  using dsa_inv_ntt_level [of g p] map_mod_dsa_poly [of g] by (simp add: dsa_poly_def)

lemma dsa_inv_ntt_ntt [simp]: "dsa_poly a \<Longrightarrow> dsa_inv_ntt (dsa_ntt a) = a"
  by (rule dsa_inv_of_level) (simp_all add: dsa_ntt_level dsa_poly_length)

text \<open>The transform is a bijection: it is injective on a finite set.\<close>

lemma finite_dsa_poly: "finite {a. dsa_poly a}"
proof -
  have "{a. dsa_poly a} \<subseteq> {a. set a \<subseteq> {0..<dsa_q} \<and> length a = 256}" by (auto simp: dsa_poly_def list_all_iff)
  then show ?thesis using finite_lists_length_eq [of "{0..<dsa_q}" 256] finite_subset by blast
qed

lemma dsa_ntt_surj: "dsa_poly p \<Longrightarrow> \<exists>a. dsa_poly a \<and> p = dsa_ntt a"
proof -
  assume p: "dsa_poly p"
  have "inj_on dsa_ntt {a. dsa_poly a}" by (rule inj_on_inverseI [of _ dsa_inv_ntt]) simp
  then have "dsa_ntt ` {a. dsa_poly a} = {a. dsa_poly a}" using finite_dsa_poly by (intro endo_inj_surj) auto
  with p show ?thesis by blast
qed

lemma dsa_inv_ntt_poly [simp]: "dsa_poly p \<Longrightarrow> dsa_poly (dsa_inv_ntt p)"
  and dsa_ntt_inv_ntt [simp]: "dsa_poly p \<Longrightarrow> dsa_ntt (dsa_inv_ntt p) = p"
  using dsa_ntt_surj [of p] by auto

lemma dsa_ntt_unique: "dsa_poly a \<Longrightarrow> dsa_poly p \<Longrightarrow> dsa.on_level 8 a p \<Longrightarrow> dsa_ntt a = p"
  by (rule dsa_poly_eqI) (auto intro: dsa.level_unique [OF _ dsa_ntt_level] simp: dsa_poly_length)

lemma dsa_ntt_add: "dsa_poly a \<Longrightarrow> dsa_poly b \<Longrightarrow> dsa_ntt (dsa_add a b) = dsa_add (dsa_ntt a) (dsa_ntt b)"
  by (rule dsa_ntt_unique, simp, simp, rule dsa.level_add [OF dsa_ntt_level [of a] dsa_ntt_level [of b]])
     (simp_all add: dsa_poly_length mod_ops_congr)

lemma dsa_sub_add: "dsa_poly a \<Longrightarrow> dsa_poly b \<Longrightarrow> dsa_add (dsa_sub a b) b = a"
proof (rule dsa_poly_eqI)
  fix i :: nat assume "i < 256"
  have "congr dsa_q (add_mod (sub_mod (a ! i) (b ! i)) (b ! i)) (a ! i - b ! i + b ! i)"
    by (rule congr_trans [OF mod_ops_congr(1)]) (intro congr_add mod_ops_congr congr_refl)
  then show "congr dsa_q (dsa_add (dsa_sub a b) b ! i) (a ! i)" using \<open>i < 256\<close> by simp
qed auto

lemma dsa_ntt_sub: "dsa_poly a \<Longrightarrow> dsa_poly b \<Longrightarrow> dsa_ntt (dsa_sub a b) = dsa_sub (dsa_ntt a) (dsa_ntt b)"
proof -
  assume ab: "dsa_poly a" "dsa_poly b"
  have sum: "dsa_add (dsa_ntt (dsa_sub a b)) (dsa_ntt b) = dsa_ntt a"
    using dsa_ntt_add [of "dsa_sub a b" b] ab by (simp add: dsa_sub_add)
  show ?thesis
  proof (rule dsa_poly_eqI)
    fix i :: nat assume i: "i < 256"
    let ?x = "dsa_ntt (dsa_sub a b) ! i" and ?y = "dsa_ntt b ! i"
    have "congr dsa_q (?x + ?y - ?y) (add_mod ?x ?y - ?y)" by (intro congr_diff congr_refl congr_sym [OF mod_ops_congr(1)])
    also have "add_mod ?x ?y = dsa_ntt a ! i" using arg_cong [OF sum, of "\<lambda>p. p ! i"] i by simp
    also have "congr dsa_q (dsa_ntt a ! i - ?y) (sub_mod (dsa_ntt a ! i) ?y)" by (rule congr_sym [OF mod_ops_congr(2)])
    finally show "congr dsa_q ?x (dsa_sub (dsa_ntt a) (dsa_ntt b) ! i)" using i by simp
  qed (use ab in auto)
qed

lemma dsa_poly_schoolbook: "dsa_poly (schoolbook dsa_q a b)"
  by (simp add: dsa_poly_def list_all_length schoolbook_nth dsa_q_def)

lemma dsa_pointwise_level:
  assumes "dsa.on_level 8 f a" "dsa.on_level 8 g b"
  shows "dsa.on_level 8 (schoolbook dsa_q f g) (dsa_pointwise a b)"
proof (rule dsa.level_product [OF assms])
  fix k j :: nat assume "k < 2 ^ 8" "j < 2 ^ (8 - 8)"
  then show "congr dsa_q (dsa_pointwise a b ! (k * 2 ^ (8 - 8) + j))
      (leaf_mult (tree_root ((!) dsa_zetas) (2 ^ 8 + k)) (2 ^ (8 - 8)) (\<lambda>i. a ! (k * 2 ^ (8 - 8) + i)) (\<lambda>i. b ! (k * 2 ^ (8 - 8) + i)) j)"
    by (simp add: leaf_mult_def xpow_def mod_ops_congr)
qed simp

lemma dsa_product:
  "dsa_poly a \<Longrightarrow> dsa_poly b \<Longrightarrow> dsa_inv_ntt (dsa_pointwise (dsa_ntt a) (dsa_ntt b)) = schoolbook dsa_q a b"
  by (intro dsa_inv_of_level dsa_pointwise_level dsa_ntt_level dsa_poly_schoolbook) (simp_all add: dsa_poly_length)

section \<open>Rounding\<close>

lemma gamma_values: "GAMMA1 = 524288" "GAMMA2 = 261888" "dsa_d = 13"
  by (simp_all add: GAMMA1_def GAMMA2_def dsa_q_def dsa_d_def)

text \<open>What \<open>decompose\<close> returns, and that its first component is determined by this.\<close>

lemma decompose_spec:
  assumes "decompose r = (r1, r0)"
  shows "congr dsa_q r (r1 * (2 * GAMMA2) + r0)" "0 \<le> r1" "r1 \<le> 15" "- GAMMA2 \<le> r0" "r0 \<le> GAMMA2" "r1 = 0 \<or> - GAMMA2 < r0"
proof -
  define s where "s = r mod dsa_q"
  define m where "m = s mod 523776"
  define c where "c = (if 261888 < m then m - 523776 else m)"
  have s: "0 \<le> s" "s < 8380417" "congr dsa_q r s" by (simp_all add: s_def dsa_q_def)
  have m: "0 \<le> m" "m < 523776" by (simp_all add: m_def)
  have c: "- 261888 < c" "c \<le> 261888" using m by (auto simp: c_def)
  define k where "k = (s - c) div 523776"
  have "523776 dvd s - m" by (simp add: m_def)
  moreover have "s - c = s - m + (if 261888 < m then 523776 else 0)" by (simp add: c_def)
  ultimately have "523776 dvd s - c" by (simp only: dvd_add if_split dvd_refl dvd_0_right simp_thms)
  then have k: "s - c = k * 523776" by (simp add: k_def)
  have range: "0 \<le> k" "k \<le> 16" using k s c by linarith+
  have dec: "decompose r = (if s - c = 8380416 then (0, c - 1) else (k, c))"
  proof -
    have n: "(2 :: int) * 261888 = 523776" "dsa_q - 1 = 8380416" by (simp_all add: dsa_q_def)
    show ?thesis
      unfolding decompose_def Let_def gamma_values s_def [symmetric] n m_def [symmetric] c_def [symmetric] k_def [symmetric] ..
  qed
  have "congr dsa_q r (r1 * (2 * GAMMA2) + r0) \<and> 0 \<le> r1 \<and> r1 \<le> 15 \<and> - GAMMA2 \<le> r0 \<and> r0 \<le> GAMMA2 \<and> (r1 = 0 \<or> - GAMMA2 < r0)"
  proof (cases "s - c = 8380416")
    case True
    then have "r1 = 0" "r0 = c - 1" using assms dec by auto
    moreover have "congr dsa_q s (c - 1)" using True by (simp add: congr_def dsa_q_def algebra_simps)
    ultimately show ?thesis using c congr_trans [OF s(3)] by (auto simp: gamma_values)
  next
    case False
    then have "r1 = k" "r0 = c" using assms dec by auto
    moreover have "k \<noteq> 16" using False k by auto
    moreover have "s = k * 523776 + c" using k by simp
    ultimately show ?thesis using c range s(3) by (simp add: gamma_values)
  qed
  then show "congr dsa_q r (r1 * (2 * GAMMA2) + r0)" "0 \<le> r1" "r1 \<le> 15" "- GAMMA2 \<le> r0" "r0 \<le> GAMMA2" "r1 = 0 \<or> - GAMMA2 < r0"
    by blast+
qed

lemma high_bits_unique:
  assumes "congr dsa_q r (r1 * (2 * GAMMA2) + r0)" "0 \<le> r1" "r1 \<le> 15" "- GAMMA2 \<le> r0" "r0 \<le> GAMMA2" "r1 = 0 \<or> - GAMMA2 < r0"
  shows "high_bits r = r1"
proof -
  obtain k c where kc: "decompose r = (k, c)" by fastforce
  note d = decompose_spec [OF kc]
  have "congr dsa_q (k * 523776 + c) (r1 * 523776 + r0)"
    using congr_trans [OF congr_sym [OF d(1)] assms(1)] by (simp add: gamma_values)
  then obtain t where t: "(k - r1) * 523776 + (c - r0) = t * 8380417"
    by (auto simp: congr_def dsa_q_def algebra_simps elim!: dvdE)
  have b: "- 15 \<le> k - r1" "k - r1 \<le> 15" "- 523776 \<le> c - r0" "c - r0 \<le> 523776"
    using assms(2-5) d(2-5) by (simp_all add: gamma_values)
  have "(k - r1) * 523776 \<le> 15 * 523776" "(- 15) * 523776 \<le> (k - r1) * 523776" using b(1,2) by (intro mult_right_mono; simp)+
  then have "t * 8380417 < 1 * 8380417" "(- 1) * 8380417 < t * 8380417" unfolding t [symmetric] using b(3,4) by simp_all
  then have "t < 1" "- 1 < t" by simp_all
  then have "t = 0" by simp
  with t have e: "(k - r1) * 523776 = r0 - c" by simp
  have "(k - r1) * 523776 \<le> 1 * 523776" "(- 1) * 523776 \<le> (k - r1) * 523776" unfolding e using b(3,4) by simp_all
  then have "- 1 \<le> k - r1" "k - r1 \<le> 1" by (simp_all only: mult_le_cancel_right_pos zero_less_numeral)
  then consider "k - r1 = - 1" | "k - r1 = 0" | "k - r1 = 1" by linarith
  then have "k = r1"
  proof cases
    case 1
    with e assms(5,6) d(2-5) have "r1 = 0 \<or> False" by (simp add: gamma_values)
    with 1 d(2) show ?thesis by simp
  next
    case 3
    with e assms(2,5) d(4,6) have "k = 0" by (simp add: gamma_values)
    with 3 assms(2) show ?thesis by simp
  qed simp
  then show ?thesis by (simp add: high_bits_def kc)
qed

text \<open>A change that leaves the low part within its range does not change the high part.\<close>

lemma high_bits_stable:
  assumes "congr dsa_q w (v + e)" "\<bar>e\<bar> \<le> b" "\<bar>low_bits v\<bar> < GAMMA2 - b"
  shows "high_bits w = high_bits v"
proof -
  obtain k c where kc: "decompose v = (k, c)" by fastforce
  note d = decompose_spec [OF kc]
  have c: "low_bits v = c" "high_bits v = k" by (simp_all add: low_bits_def high_bits_def kc)
  have "congr dsa_q w (k * (2 * GAMMA2) + (c + e))"
    using congr_trans [OF assms(1) congr_add [OF d(1) congr_refl]] by (simp add: add.assoc)
  from high_bits_unique [OF this d(2,3)] assms(2,3) show ?thesis unfolding c by linarith
qed

text \<open>A hint for a small change \<open>z\<close> recovers the high part of the sum.\<close>

lemma use_hint_correct:
  assumes "congr dsa_q s (r + z)" "\<bar>z\<bar> < GAMMA2" "hint \<longleftrightarrow> high_bits r \<noteq> high_bits s"
  shows "use_hint hint r = high_bits s"
proof -
  obtain k c where kc: "decompose r = (k, c)" by fastforce
  note d = decompose_spec [OF kc]
  have k: "high_bits r = k" by (simp add: high_bits_def kc)
  have m: "(dsa_q - 1) div (2 * GAMMA2) = 16" by (simp add: gamma_values dsa_q_def)
  have s: "congr dsa_q s (k * (2 * GAMMA2) + (c + z))"
    using congr_trans [OF assms(1) congr_add [OF d(1) congr_refl]] by (simp add: add.assoc)
  have hint: "use_hint True r = (if 0 < c then (k + 1) mod 16 else (k - 1) mod 16)" "use_hint False r = k"
    by (simp_all add: use_hint_def kc m Let_def)
  have shift: "high_bits s = k'" if "congr dsa_q (k * (2 * GAMMA2)) (k' * (2 * GAMMA2) + x)" "0 \<le> k'" "k' \<le> 15"
    "- GAMMA2 \<le> c + z + x" "c + z + x \<le> GAMMA2" "k' = 0 \<or> - GAMMA2 < c + z + x" for k' x
  proof -
    have "congr dsa_q s (k' * (2 * GAMMA2) + x + (c + z))" using congr_trans [OF s congr_add [OF that(1) congr_refl]] .
    then have "congr dsa_q s (k' * (2 * GAMMA2) + (c + z + x))" by (simp add: ac_simps)
    from high_bits_unique [OF this that(2-6)] show ?thesis .
  qed
  consider "- GAMMA2 \<le> c + z" "c + z \<le> GAMMA2" "k = 0 \<or> - GAMMA2 < c + z"
    | "GAMMA2 < c + z" | "c + z \<le> - GAMMA2" "k = 0 \<longrightarrow> c + z < - GAMMA2" by linarith
  then show ?thesis
  proof cases
    case 1
    then have "high_bits s = k" using shift [of k 0] d(2,3) by simp
    with assms(3) k hint show ?thesis by simp
  next
    case 2
    then have c: "0 < c" using assms(2) by linarith
    have "high_bits s = (k + 1) mod 16"
    proof (cases "k = 15")
      case True
      then show ?thesis using 2 d(5) assms(2) by (intro shift [of _ "- 523777"]) (auto simp: gamma_values congr_def dsa_q_def)
    next
      case False
      then show ?thesis using 2 d(2,3,5) assms(2) by (intro shift [of _ "- 523776"]) (auto simp: gamma_values algebra_simps)
    qed
    moreover have "(k + 1) mod 16 \<noteq> k" using d(2,3) by (cases "k = 15") auto
    ultimately show ?thesis using assms(3) k hint c by simp
  next
    case 3
    then have c: "\<not> 0 < c" using assms(2) by linarith
    have "high_bits s = (k - 1) mod 16"
    proof (cases "k = 0")
      case True
      then show ?thesis using 3 d(4) assms(2) by (intro shift [of _ "523777"]) (auto simp: gamma_values congr_def dsa_q_def)
    next
      case False
      then show ?thesis using 3 d(2,3,4) assms(2) by (intro shift [of _ "523776"]) (auto simp: gamma_values algebra_simps)
    qed
    moreover have "(k - 1) mod 16 \<noteq> k" using d(2,3) by (cases "k = 0") auto
    ultimately show ?thesis using assms(3) k hint c by simp
  qed
qed

lemma power2round_spec:
  assumes "power2round r = (r1, r0)"
  shows "congr dsa_q r (r1 * 2 ^ 13 + r0)" "0 \<le> r1" "r1 < 2 ^ 10" "- (2 ^ 12) < r0" "r0 \<le> 2 ^ 12"
proof -
  define s where "s = r mod dsa_q"
  have s: "0 \<le> s" "s < 8380417" "congr dsa_q r s" by (simp_all add: s_def dsa_q_def)
  have r: "r1 = (s + 4095) div 8192" "r0 = s - r1 * 8192"
    using assms by (auto simp: power2round_def Let_def gamma_values s_def)
  have e: "s + 4095 = 8192 * r1 + (s + 4095) mod 8192" "0 \<le> (s + 4095) mod 8192" "(s + 4095) mod 8192 < 8192"
    unfolding r(1) by simp_all
  show "0 \<le> r1" unfolding r(1) using s by simp
  have "8192 * r1 < 8388608" using e s by linarith
  then show "r1 < 2 ^ 10" by simp
  show "- (2 ^ 12) < r0" "r0 \<le> 2 ^ 12" using e unfolding r(2) by simp_all
  show "congr dsa_q r (r1 * 2 ^ 13 + r0)" using s(3) by (simp add: r(2))
qed

end
