(* ===== verification/Keccak.thy ===== *)
theory Keccak
  imports Prelude
begin

text \<open>
  Keccak-f[1600], SHA-3 and SHAKE of \<open>crates/ciphra-crypto/src/keccak.rs\<close>. The incremental sponge, which
  xors bytes into the lanes as they come and permutes when a block is full, is proved equal to the sponge
  construction of FIPS 202 over the padded message, however the input and the output are cut into calls.
\<close>

unbundle bit_operations_syntax

section \<open>The permutation\<close>

type_synonym lanes = "u64 list"

definition keccak_RC :: "u64 list" where
  "keccak_RC = [
    0x0000000000000001, 0x0000000000008082, 0x800000000000808a, 0x8000000080008000,
    0x000000000000808b, 0x0000000080000001, 0x8000000080008081, 0x8000000000008009,
    0x000000000000008a, 0x0000000000000088, 0x0000000080008009, 0x000000008000000a,
    0x000000008000808b, 0x800000000000008b, 0x8000000000008089, 0x8000000000008003,
    0x8000000000008002, 0x8000000000000080, 0x000000000000800a, 0x800000008000000a,
    0x8000000080008081, 0x8000000000008080, 0x0000000080000001, 0x8000000080008008]"

definition keccak_RHO :: "nat list" where
  "keccak_RHO = [0, 1, 62, 28, 27, 36, 44, 6, 55, 20, 3, 10, 43, 25, 39, 41, 45, 15, 21, 8, 18, 2, 61, 56, 14]"

text \<open>The pairs \<open>for x in 0..5 { for y in 0..5\<close>, in the order of the loops.\<close>

definition lane_pairs :: "(nat \<times> nat) list" where
  "lane_pairs = concat (map (\<lambda>x. map (Pair x) [0..<5]) [0..<5])"

definition keccak_theta :: "lanes \<Rightarrow> lanes" where
  "keccak_theta st =
    (let c = map (\<lambda>x. st ! x XOR st ! (x + 5) XOR st ! (x + 10) XOR st ! (x + 15) XOR st ! (x + 20)) [0..<5];
         d = map (\<lambda>x. c ! ((x + 4) mod 5) XOR word_rotl 1 (c ! ((x + 1) mod 5))) [0..<5]
     in foldl (\<lambda>s (x, y). s[x + 5 * y := s ! (x + 5 * y) XOR d ! x]) st lane_pairs)"

definition keccak_rho_pi :: "lanes \<Rightarrow> lanes" where
  "keccak_rho_pi st =
    foldl (\<lambda>b (x, y). b[y + 5 * ((2 * x + 3 * y) mod 5) := word_rotl (keccak_RHO ! (x + 5 * y)) (st ! (x + 5 * y))])
      (replicate 25 0) lane_pairs"

definition keccak_chi :: "lanes \<Rightarrow> lanes \<Rightarrow> lanes" where
  "keccak_chi st b =
    foldl (\<lambda>s (x, y). s[x + 5 * y := b ! (x + 5 * y) XOR (NOT (b ! ((x + 1) mod 5 + 5 * y)) AND b ! ((x + 2) mod 5 + 5 * y))])
      st lane_pairs"

definition keccak_round :: "lanes \<Rightarrow> u64 \<Rightarrow> lanes" where
  "keccak_round st rc =
    (let s1 = keccak_theta st; b = keccak_rho_pi s1; s2 = keccak_chi s1 b in s2[0 := s2 ! 0 XOR rc])"

definition keccak_f :: "lanes \<Rightarrow> lanes" where
  "keccak_f st = foldl keccak_round st keccak_RC"

section \<open>The incremental sponge\<close>

record keccak =
  kk_state :: lanes
  kk_rate :: nat
  kk_suffix :: byte
  kk_offset :: nat
  kk_squeezing :: bool

definition keccak_new :: "nat \<Rightarrow> byte \<Rightarrow> keccak" where
  "keccak_new rate suf =
    \<lparr>kk_state = replicate 25 0, kk_rate = rate, kk_suffix = suf, kk_offset = 0, kk_squeezing = False\<rparr>"

definition new_sha3_256 :: keccak where "new_sha3_256 = keccak_new 136 0x06"
definition new_sha3_512 :: keccak where "new_sha3_512 = keccak_new 72 0x06"
definition new_shake128 :: keccak where "new_shake128 = keccak_new 168 0x1f"
definition new_shake256 :: keccak where "new_shake256 = keccak_new 136 0x1f"

definition xor_byte :: "lanes \<Rightarrow> nat \<Rightarrow> byte \<Rightarrow> lanes" where
  "xor_byte st index b =
    (let lane = index div 8; shift = 8 * (index mod 8) in st[lane := st ! lane XOR push_bit shift (ucast b)])"

definition state_byte :: "lanes \<Rightarrow> nat \<Rightarrow> byte" where
  "state_byte st index = (let lane = index div 8; shift = 8 * (index mod 8) in ucast (drop_bit shift (st ! lane)))"

text \<open>The inner loop of \<open>absorb\<close>: one run of bytes from \<open>offset\<close> on.\<close>

definition xor_run :: "lanes \<Rightarrow> nat \<Rightarrow> bytes \<Rightarrow> lanes" where
  "xor_run st offset data = foldl (\<lambda>s (i, b). xor_byte s (offset + i) b) st (enumerate 0 data)"

text \<open>
  The outer loop. It makes no progress on a full block, a state that \<open>absorb\<close> never leaves behind;
  not returning is \<open>None\<close>.
\<close>

partial_function (option) absorb_loop :: "keccak \<Rightarrow> bytes \<Rightarrow> keccak option" where
  "absorb_loop k data =
    (if data = [] then Some k
     else
       let n = min (kk_rate k - kk_offset k) (length data);
           k1 = k\<lparr>kk_state := xor_run (kk_state k) (kk_offset k) (take n data), kk_offset := kk_offset k + n\<rparr>
       in absorb_loop
            (if kk_offset k1 = kk_rate k1 then k1\<lparr>kk_state := keccak_f (kk_state k1), kk_offset := 0\<rparr> else k1)
            (drop n data))"

declare absorb_loop.simps [code]

text \<open>\<open>absorb\<close> asserts that squeezing has not begun; \<open>None\<close> is the failed assertion.\<close>

definition keccak_absorb :: "keccak \<Rightarrow> bytes \<Rightarrow> keccak option" where
  "keccak_absorb k data = (if kk_squeezing k then None else absorb_loop k data)"

definition pad_and_switch :: "keccak \<Rightarrow> keccak" where
  "pad_and_switch k =
    (let s1 = xor_byte (kk_state k) (kk_offset k) (kk_suffix k);
         s2 = xor_byte s1 (kk_rate k - 1) 0x80
     in k\<lparr>kk_state := keccak_f s2, kk_offset := 0, kk_squeezing := True\<rparr>)"

text \<open>The loop of \<open>squeeze\<close>: \<open>n\<close> bytes are left to write.\<close>

partial_function (option) squeeze_loop :: "keccak \<Rightarrow> nat \<Rightarrow> (keccak \<times> bytes) option" where
  "squeeze_loop k n =
    (if n = 0 then Some (k, [])
     else
       let k1 = (if kk_offset k = kk_rate k then k\<lparr>kk_state := keccak_f (kk_state k), kk_offset := 0\<rparr> else k);
           m = min (kk_rate k1 - kk_offset k1) n;
           out = map (\<lambda>i. state_byte (kk_state k1) (kk_offset k1 + i)) [0..<m]
       in Option.bind (squeeze_loop (k1\<lparr>kk_offset := kk_offset k1 + m\<rparr>) (n - m)) (\<lambda>(k2, rest). Some (k2, out @ rest)))"

declare squeeze_loop.simps [code]

definition keccak_squeeze :: "keccak \<Rightarrow> nat \<Rightarrow> (keccak \<times> bytes) option" where
  "keccak_squeeze k n = squeeze_loop (if kk_squeezing k then k else pad_and_switch k) n"

definition hash_with :: "keccak \<Rightarrow> bytes \<Rightarrow> nat \<Rightarrow> bytes option" where
  "hash_with k data n = Option.bind (keccak_absorb k data) (\<lambda>k1. map_option snd (keccak_squeeze k1 n))"

definition sha3_256 :: "bytes \<Rightarrow> bytes option" where "sha3_256 data = hash_with new_sha3_256 data 32"
definition sha3_512 :: "bytes \<Rightarrow> bytes option" where "sha3_512 data = hash_with new_sha3_512 data 64"
definition shake256 :: "bytes \<Rightarrow> nat \<Rightarrow> bytes option" where "shake256 data n = hash_with new_shake256 data n"

section \<open>The sponge construction of FIPS 202\<close>

text \<open>A block of bytes as lanes, zero beyond its end.\<close>

fun lane_of :: "bytes \<Rightarrow> u64" where
  "lane_of [] = 0"
| "lane_of (b # bs) = ucast b OR push_bit 8 (lane_of bs)"

definition xor_block :: "lanes \<Rightarrow> bytes \<Rightarrow> lanes" where
  "xor_block st blk = map (\<lambda>i. st ! i XOR lane_of (take 8 (drop (8 * i) blk))) [0..<25]"

text \<open>The domain suffix, zeros and the final one bit up to a block boundary.\<close>

definition sponge_pad :: "nat \<Rightarrow> byte \<Rightarrow> nat \<Rightarrow> bytes" where
  "sponge_pad rate suf n =
    (let q = rate - n mod rate in
     if q = 1 then [suf XOR 0x80] else suf # replicate (q - 2) 0 @ [0x80])"

fun sponge_blocks :: "nat \<Rightarrow> nat \<Rightarrow> bytes \<Rightarrow> lanes" where
  "sponge_blocks rate 0 m = replicate 25 0"
| "sponge_blocks rate (Suc n) m =
    keccak_f (xor_block (sponge_blocks rate n m) (take rate (drop (rate * n) m)))"

definition sponge :: "nat \<Rightarrow> byte \<Rightarrow> bytes \<Rightarrow> nat \<Rightarrow> bytes" where
  "sponge rate suf m n =
    (let p = m @ sponge_pad rate suf (length m);
         st = sponge_blocks rate (length p div rate) p
     in map (\<lambda>j. state_byte ((keccak_f ^^ (j div rate)) st) (j mod rate)) [0..<n])"

section \<open>Bytes of a state\<close>

lemma bit_state_byte: "n < 8 \<Longrightarrow> bit (state_byte st j) n \<longleftrightarrow> bit (st ! (j div 8)) (8 * (j mod 8) + n)"
  by (simp add: state_byte_def Let_def bit_ucast_iff bit_drop_bit_eq)

lemma byte_eqI: "(\<And>n. n < 8 \<Longrightarrow> bit (a :: byte) n = bit b n) \<Longrightarrow> a = b"
  by (rule bit_word_eqI) simp

lemma lanes_eqI:
  assumes "length s = 25" "length t = 25" "\<And>j. j < 200 \<Longrightarrow> state_byte s j = state_byte t j"
  shows "s = t"
proof (rule nth_equalityI)
  fix i assume i: "i < length s"
  show "s ! i = t ! i"
  proof (rule bit_word_eqI)
    fix n assume "n < LENGTH(64)"
    define j where "j = 8 * i + n div 8"
    have j: "j < 200" "j div 8 = i" "j mod 8 = n div 8" "8 * (n div 8) + n mod 8 = n"
      using i assms(1) \<open>n < LENGTH(64)\<close> by (auto simp: j_def)
    from assms(3) [OF j(1)] bit_state_byte [of "n mod 8" _ j] show "bit (s ! i) n = bit (t ! i) n"
      by (metis j(2-4) mod_less_divisor zero_less_numeral)
  qed
qed (use assms in simp)

lemma length_xor_byte [simp]: "length (xor_byte st i b) = length st"
  by (simp add: xor_byte_def Let_def)

lemma state_byte_xor_byte:
  assumes "length st = 25" "i < 200"
  shows "state_byte (xor_byte st i b) j = state_byte st j XOR (if i = j then b else 0)"
proof (rule byte_eqI)
  fix n :: nat assume n: "n < 8"
  have same: "i = j \<longleftrightarrow> i div 8 = j div 8 \<and> i mod 8 = j mod 8" by (metis div_mult_mod_eq)
  have shift: "bit (push_bit (8 * (i mod 8)) (ucast b :: u64)) (8 * (j mod 8) + n) \<longleftrightarrow> i mod 8 = j mod 8 \<and> bit b n"
  proof (cases "i mod 8 = j mod 8")
    case False
    then have "8 * (j mod 8) + n < 8 * (i mod 8) \<or> 8 * (i mod 8) + 8 \<le> 8 * (j mod 8) + n" using n by linarith
    then have "8 * (i mod 8) \<le> 8 * (j mod 8) + n \<Longrightarrow> 8 \<le> 8 * (j mod 8) + n - 8 * (i mod 8)" by linarith
    then show ?thesis using False by (auto simp: bit_push_bit_iff bit_ucast_iff dest: bit_imp_le_length)
  next
    case True
    have "j mod 8 \<le> 7" using mod_less_divisor [of 8 j] by linarith
    then have "8 * (j mod 8) + n < 64" using n by linarith
    then show ?thesis using True n by (simp add: bit_push_bit_iff bit_ucast_iff)
  qed
  show "bit (state_byte (xor_byte st i b) j) n = bit (state_byte st j XOR (if i = j then b else 0)) n"
    using n assms shift by (auto simp: bit_state_byte xor_byte_def Let_def bit_xor_iff nth_list_update same)
qed

lemma xor_run_Nil [simp]: "xor_run st off [] = st"
  by (simp add: xor_run_def)

lemma xor_run_shift:
  "foldl (\<lambda>s (i, x). xor_byte s (off + i) x) u (enumerate (k + m) b)
    = foldl (\<lambda>s (i, x). xor_byte s (off + m + i) x) u (enumerate k b)"
proof (induction b arbitrary: u k)
  case (Cons x b)
  have "off + (k + m) = off + m + k" by simp
  then show ?case using Cons.IH [of "xor_byte u (off + (k + m)) x" "Suc k"] by (simp only: enumerate_simps foldl_Cons prod.case add_Suc)
qed simp

lemma xor_run_append: "xor_run st off (a @ b) = xor_run (xor_run st off a) (off + length a) b"
  using xor_run_shift [of off _ 0 "length a" b] by (simp add: xor_run_def enumerate_append_eq)

lemma xor_run_single [simp]: "xor_run st off [b] = xor_byte st off b"
  by (simp add: xor_run_def)

lemma xor_run_Cons: "xor_run st off (b # bs) = xor_run (xor_byte st off b) (Suc off) bs"
  using xor_run_append [of st off "[b]" bs] by simp

lemma length_xor_run [simp]: "length (xor_run st off bs) = length st"
  by (induction bs arbitrary: st off) (simp_all add: xor_run_Cons)

lemma state_byte_xor_run:
  assumes "length st = 25" "off + length bs \<le> 200"
  shows "state_byte (xor_run st off bs) j = state_byte st j XOR (if off \<le> j \<and> j < off + length bs then bs ! (j - off) else 0)"
  using assms
proof (induction bs arbitrary: st off)
  case (Cons b bs)
  then show ?case by (auto simp: xor_run_Cons state_byte_xor_byte nth_Cons' xor.assoc)
qed auto

lemma bit_lane_of: "n < 8 \<Longrightarrow> k < 8 \<Longrightarrow> bit (lane_of bs) (8 * k + n) \<longleftrightarrow> k < length bs \<and> bit (bs ! k) n"
proof (induction bs arbitrary: k)
  case (Cons b bs)
  show ?case
  proof (cases k)
    case 0
    then show ?thesis using Cons.prems by (simp add: bit_or_iff bit_ucast_iff bit_push_bit_iff)
  next
    case (Suc k')
    then have "8 * k + n < 64" using Cons.prems by simp
    then show ?thesis using Cons.prems Cons.IH [of k'] Suc
      by (auto simp: bit_or_iff bit_ucast_iff bit_push_bit_iff dest: bit_imp_le_length)
  qed
qed simp

lemma state_byte_xor_block:
  assumes "length st = 25" "j < 200" "length blk \<le> 200"
  shows "state_byte (xor_block st blk) j = state_byte st j XOR (if j < length blk then blk ! j else 0)"
proof (rule byte_eqI)
  fix n :: nat assume n: "n < 8"
  have j: "8 * (j div 8) + j mod 8 = j" by simp
  have "bit (lane_of (take 8 (drop (8 * (j div 8)) blk))) (8 * (j mod 8) + n) \<longleftrightarrow> j < length blk \<and> bit (blk ! j) n"
    using bit_lane_of [OF n, of "j mod 8" "take 8 (drop (8 * (j div 8)) blk)"] j by (auto simp: less_diff_conv add.commute)
  moreover have "j div 8 < 25" using assms(2) by simp
  ultimately show "bit (state_byte (xor_block st blk) j) n = bit (state_byte st j XOR (if j < length blk then blk ! j else 0)) n"
    using n by (auto simp: bit_state_byte xor_block_def bit_xor_iff)
qed

lemma xor_run_block: "length st = 25 \<Longrightarrow> length blk \<le> 200 \<Longrightarrow> xor_run st 0 blk = xor_block st blk"
  by (rule lanes_eqI) (auto simp: state_byte_xor_run state_byte_xor_block, simp add: xor_block_def)

section \<open>Absorbing\<close>

lemma length_foldl_update: "length (foldl (\<lambda>s p. s[f p := g s p]) st ps) = length st"
  by (induction ps arbitrary: st) simp_all

lemma length_keccak_f [simp]: "length (keccak_f st) = length st"
proof -
  have "length (keccak_theta st) = length st" for st
    using length_foldl_update [of "\<lambda>(x, y). x + 5 * y"] by (simp add: keccak_theta_def Let_def split_def)
  moreover have "length (keccak_chi st b) = length st" for st b
    using length_foldl_update [of "\<lambda>(x, y). x + 5 * y"] by (simp add: keccak_chi_def split_def)
  ultimately have "length (keccak_round st rc) = length st" for st rc by (simp add: keccak_round_def Let_def)
  then have "length (foldl keccak_round st rcs) = length st" for rcs by (induction rcs arbitrary: st) simp_all
  then show ?thesis by (simp add: keccak_f_def)
qed

lemma length_sponge_blocks [simp]: "length (sponge_blocks rate n m) = 25"
  by (induction n) (simp_all add: xor_block_def)

lemma sponge_blocks_append: "rate * n \<le> length m \<Longrightarrow> sponge_blocks rate n (m @ u) = sponge_blocks rate n m"
  by (induction n) (simp_all add: algebra_simps)

text \<open>The sponge after absorbing \<open>m\<close>: complete blocks are absorbed, the rest is xored in.\<close>

definition absorbed :: "nat \<Rightarrow> byte \<Rightarrow> bytes \<Rightarrow> keccak" where
  "absorbed rate suf m = \<lparr>
    kk_state = xor_run (sponge_blocks rate (length m div rate) m) 0 (drop (rate * (length m div rate)) m),
    kk_rate = rate, kk_suffix = suf, kk_offset = length m mod rate, kk_squeezing = False\<rparr>"

lemma absorbed_Nil: "0 < rate \<Longrightarrow> absorbed rate suf [] = keccak_new rate suf"
  by (simp add: absorbed_def keccak_new_def)

lemma absorbed_partial:
  assumes "0 < rate" "length m mod rate + length u < rate"
  shows "absorbed rate suf (m @ u) = (absorbed rate suf m)\<lparr>
    kk_state := xor_run (kk_state (absorbed rate suf m)) (length m mod rate) u, kk_offset := length m mod rate + length u\<rparr>"
proof -
  have "length (m @ u) = rate * (length m div rate) + (length m mod rate + length u)" by simp
  then have dm: "length (m @ u) div rate = length m div rate" "length (m @ u) mod rate = length m mod rate + length u"
    using assms by (simp_all only: div_mult_self4 mod_mult_self4) simp_all
  show ?thesis using dm by (simp add: absorbed_def sponge_blocks_append xor_run_append minus_mult_div_eq_mod)
qed

lemma absorbed_full:
  assumes "0 < rate" "rate \<le> 200" "length m mod rate + length u = rate"
  shows "absorbed rate suf (m @ u) = (absorbed rate suf m)\<lparr>
    kk_state := keccak_f (xor_run (kk_state (absorbed rate suf m)) (length m mod rate) u), kk_offset := 0\<rparr>"
proof -
  let ?n = "length m div rate"
  have len: "length (m @ u) = rate * Suc ?n"
    using assms(3) mult_div_mod_eq [of rate "length m"] by (simp only: length_append mult_Suc_right)
  have dm: "length (m @ u) div rate = Suc ?n" "length (m @ u) mod rate = 0" unfolding len using assms(1) by simp_all
  let ?blk = "drop (rate * ?n) m @ u"
  have blk: "take rate (drop (rate * ?n) (m @ u)) = ?blk" "length ?blk = rate"
    using assms(3) by (simp_all add: mod_div_mult_eq minus_mult_div_eq_mod)
  have "xor_run (sponge_blocks rate ?n m) 0 ?blk = xor_block (sponge_blocks rate ?n m) ?blk"
    by (rule xor_run_block) (use blk assms in simp_all)
  then have st: "xor_run (xor_run (sponge_blocks rate ?n m) 0 (drop (rate * ?n) m)) (length m mod rate) u
      = xor_block (sponge_blocks rate ?n m) ?blk"
    by (simp add: xor_run_append minus_mult_div_eq_mod)
  have "sponge_blocks rate ?n (m @ u) = sponge_blocks rate ?n m" by (rule sponge_blocks_append) simp
  then show ?thesis unfolding absorbed_def dm using st blk(1) len by simp
qed

lemma absorb_loop_absorbed:
  assumes "0 < rate" "rate \<le> 200"
  shows "absorb_loop (absorbed rate suf m) data = Some (absorbed rate suf (m @ data))"
proof (induction data arbitrary: m rule: length_induct)
  case (1 data)
  show ?case
  proof (cases "data = []")
    case True
    then show ?thesis by (subst absorb_loop.simps) simp
  next
    case False
    let ?k = "absorbed rate suf m"
    define n where "n = min (rate - length m mod rate) (length data)"
    have lt: "length m mod rate < rate" using assms(1) by simp
    then have n: "0 < n" "n \<le> length data" "length m mod rate + n \<le> rate" using False by (auto simp: n_def)
    have k: "kk_rate ?k = rate" "kk_offset ?k = length m mod rate" by (simp_all add: absorbed_def)
    define k1 where "k1 = ?k\<lparr>kk_state := xor_run (kk_state ?k) (kk_offset ?k) (take n data), kk_offset := kk_offset ?k + n\<rparr>"
    have "(if kk_offset k1 = kk_rate k1 then k1\<lparr>kk_state := keccak_f (kk_state k1), kk_offset := 0\<rparr> else k1)
        = absorbed rate suf (m @ take n data)"
      using absorbed_full [OF assms, of m "take n data" suf] absorbed_partial [OF assms(1), of m "take n data" suf] n k
      by (cases "length m mod rate + n = rate") (simp_all add: k1_def min_absorb2)
    then have "absorb_loop ?k data = absorb_loop (absorbed rate suf (m @ take n data)) (drop n data)"
      by (subst absorb_loop.simps) (simp only: False if_False Let_def k n_def [symmetric] k1_def)
    also have "\<dots> = Some (absorbed rate suf (m @ data))"
      using "1.IH" n by simp
    finally show ?thesis .
  qed
qed

section \<open>Padding and squeezing\<close>

lemma xor_zeros: "length st = 25 \<Longrightarrow> off + n \<le> 200 \<Longrightarrow> xor_run st off (replicate n 0) = st"
  by (rule lanes_eqI) (auto simp: state_byte_xor_run)

lemma xor_padding:
  assumes "length st = 25" "off + z + 2 \<le> 200"
  shows "xor_run st off (suf # replicate z 0 @ [0x80]) = xor_byte (xor_byte st off suf) (off + z + 1) 0x80"
  using assms by (simp add: xor_run_Cons xor_run_append xor_zeros)

text \<open>The state once squeezing has begun and \<open>pos\<close> bytes have been written.\<close>

definition padded_state :: "nat \<Rightarrow> byte \<Rightarrow> bytes \<Rightarrow> lanes" where
  "padded_state rate suf m = (let p = m @ sponge_pad rate suf (length m) in sponge_blocks rate (length p div rate) p)"

definition squeezed :: "nat \<Rightarrow> byte \<Rightarrow> lanes \<Rightarrow> nat \<Rightarrow> keccak" where
  "squeezed rate suf st pos = \<lparr>
    kk_state = (keccak_f ^^ ((pos - 1) div rate)) st, kk_rate = rate, kk_suffix = suf,
    kk_offset = (if pos = 0 then 0 else (pos - 1) mod rate + 1), kk_squeezing = True\<rparr>"

lemma sponge_pad_length:
  assumes "0 < rate"
  shows "n mod rate + length (sponge_pad rate suf n) = rate"
  using mod_less_divisor [OF assms, of n] unfolding sponge_pad_def Let_def by (cases "rate - n mod rate = 1") auto

lemma pad_and_switch_absorbed:
  assumes "0 < rate" "rate \<le> 200"
  shows "pad_and_switch (absorbed rate suf m) = squeezed rate suf (padded_state rate suf m) 0"
proof -
  let ?k = "absorbed rate suf m" and ?o = "length m mod rate" and ?pad = "sponge_pad rate suf (length m)"
  have o: "?o < rate" using assms(1) by simp
  have len: "length (kk_state ?k) = 25" by (simp add: absorbed_def)
  have "xor_byte (xor_byte (kk_state ?k) ?o suf) (rate - 1) 0x80 = xor_run (kk_state ?k) ?o ?pad"
  proof (cases "rate - ?o = 1")
    case True
    then have "rate - 1 = ?o" using o by simp
    with True show ?thesis using o assms(2) len unfolding sponge_pad_def Let_def
      by (intro lanes_eqI) (auto simp: state_byte_xor_byte xor.assoc)
  next
    case False
    define z where "z = rate - ?o - 2"
    have z: "rate - 1 = ?o + z + 1" "?o + z + 2 \<le> 200" using o False assms(2) by (auto simp: z_def)
    have "?pad = suf # replicate z 0 @ [0x80]" using False by (simp add: sponge_pad_def z_def)
    with xor_padding [OF len z(2), of suf] show ?thesis unfolding z(1) by simp
  qed
  then have "kk_state (pad_and_switch ?k) = kk_state (absorbed rate suf (m @ ?pad))"
    using absorbed_full [OF assms sponge_pad_length [OF assms(1)]] by (simp add: pad_and_switch_def absorbed_def)
  moreover have "length (m @ ?pad) mod rate = 0"
    using sponge_pad_length [OF assms(1), of "length m" suf] by (metis length_append mod_add_left_eq mod_self)
  ultimately show ?thesis
    by (auto simp: pad_and_switch_def Let_def squeezed_def padded_state_def absorbed_def minus_mod_eq_mult_div [symmetric])
qed

lemma squeeze_loop_squeezed:
  assumes "0 < rate"
  shows "squeeze_loop (squeezed rate suf st pos) n = Some (squeezed rate suf st (pos + n),
    map (\<lambda>j. state_byte ((keccak_f ^^ (j div rate)) st) (j mod rate)) [pos..<pos + n])"
proof (induction n arbitrary: pos rule: less_induct)
  case (less n)
  show ?case
  proof (cases "n = 0")
    case True
    then show ?thesis by (subst squeeze_loop.simps) simp
  next
    case False
    let ?k = "squeezed rate suf st pos" and ?b = "pos div rate" and ?o = "pos mod rate"
    define k1 where "k1 = (if kk_offset ?k = kk_rate ?k then ?k\<lparr>kk_state := keccak_f (kk_state ?k), kk_offset := 0\<rparr> else ?k)"
    have o: "?o < rate" using assms by simp
    have k1: "kk_state k1 = (keccak_f ^^ ?b) st" "kk_offset k1 = ?o" "kk_rate k1 = rate" "kk_suffix k1 = suf" "kk_squeezing k1"
    proof -
      consider "pos = 0" | "pos \<noteq> 0" "?o = 0" | "pos \<noteq> 0" "?o \<noteq> 0" by blast
      then have "kk_state k1 = (keccak_f ^^ ?b) st \<and> kk_offset k1 = ?o"
      proof cases
        case 1
        then show ?thesis using assms by (simp add: k1_def squeezed_def)
      next
        case 2
        then have "(pos - 1) mod rate + 1 = rate" "Suc ((pos - 1) div rate) = ?b"
          using assms div_Suc [of "pos - 1" rate] mod_Suc [of "pos - 1" rate] by (auto split: if_splits)
        moreover from this(2) have "(keccak_f ^^ ?b) st = keccak_f ((keccak_f ^^ ((pos - 1) div rate)) st)"
          by (metis comp_apply funpow.simps(2))
        ultimately show ?thesis using 2 by (simp add: k1_def squeezed_def)
      next
        case 3
        then have "(pos - 1) mod rate + 1 = ?o" "(pos - 1) div rate = ?b"
          using assms div_Suc [of "pos - 1" rate] mod_Suc [of "pos - 1" rate] by (auto split: if_splits)
        then show ?thesis using 3 o by (simp add: k1_def squeezed_def)
      qed
      then show "kk_state k1 = (keccak_f ^^ ?b) st" "kk_offset k1 = ?o" by simp_all
      show "kk_rate k1 = rate" "kk_suffix k1 = suf" "kk_squeezing k1" by (simp_all add: k1_def squeezed_def)
    qed
    define m where "m = min (rate - ?o) n"
    have m: "0 < m" "m \<le> n" "?o + m \<le> rate" using o False by (auto simp: m_def)
    have run: "(pos + i) div rate = ?b \<and> (pos + i) mod rate = ?o + i" if "i < m" for i
    proof -
      have "pos + i = rate * ?b + (?o + i)" by simp
      moreover have "?o + i < rate" using that m by simp
      ultimately show ?thesis by (metis div_mult_self4 mod_mult_self4 div_less mod_less add_0_right not_less0 assms neq0_conv)
    qed
    have next_state: "k1\<lparr>kk_offset := kk_offset k1 + m\<rparr> = squeezed rate suf st (pos + m)"
    proof -
      have "pos + m - 1 = pos + (m - 1)" using m by simp
      then show ?thesis using run [of "m - 1"] m k1 by (auto simp: squeezed_def intro!: keccak.equality)
    qed
    have out: "map (\<lambda>i. state_byte (kk_state k1) (kk_offset k1 + i)) [0..<m]
        = map (\<lambda>j. state_byte ((keccak_f ^^ (j div rate)) st) (j mod rate)) [pos..<pos + m]"
      by (rule nth_equalityI) (simp_all add: k1 run)
    have "squeeze_loop ?k n = Option.bind (squeeze_loop (squeezed rate suf st (pos + m)) (n - m))
        (\<lambda>(k2, rest). Some (k2, map (\<lambda>i. state_byte (kk_state k1) (kk_offset k1 + i)) [0..<m] @ rest))"
      using False by (subst squeeze_loop.simps)
        (simp only: if_False Let_def k1_def [symmetric] k1(2,3) m_def [symmetric] next_state [unfolded k1(2)])
    then show ?thesis using less.IH [of "n - m" "pos + m"] m False upt_add_eq_append [of pos "pos + m" "n - m"]
      by (simp add: out)
  qed
qed

lemma squeeze_absorbed:
  assumes "0 < rate" "rate \<le> 200"
  shows "keccak_squeeze (absorbed rate suf m) n = Some (squeezed rate suf (padded_state rate suf m) n, sponge rate suf m n)"
  using squeeze_loop_squeezed [OF assms(1), of suf "padded_state rate suf m" 0 n] pad_and_switch_absorbed [OF assms, of suf m]
  by (simp add: keccak_squeeze_def absorbed_def sponge_def padded_state_def Let_def)

lemma keccak_absorb_absorbed:
  "0 < rate \<Longrightarrow> rate \<le> 200 \<Longrightarrow> keccak_absorb (absorbed rate suf m) data = Some (absorbed rate suf (m @ data))"
  using absorb_loop_absorbed [of rate suf m data] by (simp add: keccak_absorb_def absorbed_def)

lemma hash_with_sponge:
  "0 < rate \<Longrightarrow> rate \<le> 200 \<Longrightarrow> hash_with (keccak_new rate suf) data n = Some (sponge rate suf data n)"
  using keccak_absorb_absorbed [of rate suf "[]" data]
  by (simp add: hash_with_def absorbed_Nil [symmetric] squeeze_absorbed)

lemma sha3_sponge:
  "sha3_256 data = Some (sponge 136 0x06 data 32)"
  "sha3_512 data = Some (sponge 72 0x06 data 64)"
  "shake256 data n = Some (sponge 136 0x1f data n)"
  by (simp_all add: sha3_256_def sha3_512_def shake256_def new_sha3_256_def new_sha3_512_def new_shake256_def hash_with_sponge)

lemma length_sponge [simp]: "length (sponge rate suf m n) = n"
  by (simp add: sponge_def Let_def)

section \<open>However the calls are cut\<close>

fun absorb_all :: "keccak \<Rightarrow> bytes list \<Rightarrow> keccak option" where
  "absorb_all k [] = Some k"
| "absorb_all k (c # cs) = Option.bind (keccak_absorb k c) (\<lambda>k1. absorb_all k1 cs)"

fun squeeze_all :: "keccak \<Rightarrow> nat list \<Rightarrow> bytes option" where
  "squeeze_all k [] = Some []"
| "squeeze_all k (n # ns) = Option.bind (keccak_squeeze k n) (\<lambda>(k1, out). map_option (append out) (squeeze_all k1 ns))"

lemma absorb_all_absorbed:
  "0 < rate \<Longrightarrow> rate \<le> 200 \<Longrightarrow> absorb_all (absorbed rate suf m) cs = Some (absorbed rate suf (m @ concat cs))"
  by (induction cs arbitrary: m) (simp_all add: keccak_absorb_absorbed)

lemma squeeze_all_squeezed:
  assumes "0 < rate"
  shows "squeeze_all (squeezed rate suf st pos) ns =
    Some (map (\<lambda>j. state_byte ((keccak_f ^^ (j div rate)) st) (j mod rate)) [pos..<pos + sum_list ns])"
proof (induction ns arbitrary: pos)
  case (Cons n ns)
  have "keccak_squeeze (squeezed rate suf st pos) n = squeeze_loop (squeezed rate suf st pos) n"
    by (simp add: keccak_squeeze_def squeezed_def)
  then show ?case
    using Cons.IH [of "pos + n"] squeeze_loop_squeezed [OF assms, of suf st pos n] upt_add_eq_append [of pos "pos + n" "sum_list ns"]
    by (simp add: add.assoc)
qed simp

text \<open>
  The incremental sponge is the sponge of FIPS 202. For every rate up to the state size, absorbing a
  message in any pieces and squeezing output in any pieces returns, never panics or loops, and gives the
  output of the sponge construction over the whole padded message; in particular \<open>sha3_256\<close>, \<open>sha3_512\<close> and
  \<open>shake256\<close> are total and equal to it.
\<close>

theorem keccak_streaming_correct:
  assumes "0 < rate" "rate \<le> 200"
  shows "Option.bind (absorb_all (keccak_new rate suf) pieces) (\<lambda>k. squeeze_all k (n # ns)) =
      Some (sponge rate suf (concat pieces) (n + sum_list ns))
    \<and> sha3_256 data = Some (sponge 136 0x06 data 32)
    \<and> sha3_512 data = Some (sponge 72 0x06 data 64)
    \<and> shake256 data len = Some (sponge 136 0x1f data len)"
proof -
  let ?m = "concat pieces" and ?f = "\<lambda>st j. state_byte ((keccak_f ^^ (j div rate)) st) (j mod rate)"
  have sp: "sponge rate suf ?m k = map (?f (padded_state rate suf ?m)) [0..<k]" for k
    by (simp add: sponge_def padded_state_def Let_def)
  have "squeeze_all (absorbed rate suf ?m) (n # ns) = Some (sponge rate suf ?m (n + sum_list ns))"
    using squeeze_all_squeezed [OF assms(1), of suf "padded_state rate suf ?m" n ns] upt_add_eq_append [of 0 n "sum_list ns"]
    by (simp add: squeeze_absorbed [OF assms] sp)
  then show ?thesis
    using absorb_all_absorbed [OF assms, of suf "[]" pieces] assms by (simp add: absorbed_Nil sha3_sponge)
qed

theorem keccak_streaming_correct_witness:
  "0 < (136 :: nat) \<and> (136 :: nat) \<le> 200 \<and>
   Option.bind (absorb_all (keccak_new 136 0x06) [[0x61, 0x62], [0x63]]) (\<lambda>k. squeeze_all k [20, 12]) =
     Some (sponge 136 0x06 [0x61, 0x62, 0x63] 32)"
  using keccak_streaming_correct [of 136 "0x06" "[[0x61, 0x62], [0x63]]" 20 "[12]"] by simp

end
