(* ===== verification/Kem_Ring.thy ===== *)
theory Kem_Ring
  imports Ntt
begin

text \<open>
  The polynomial arithmetic of ML-KEM-768, first half of \<open>crates/ciphra-crypto/src/ml_kem.rs\<close>: tables of
  roots, the two transforms, multiplication in the transform domain. Coefficients are \<open>i16\<close> values of
  \<open>0..3329\<close>, held here as integers: every intermediate of the code is below \<open>2\<^sup>3\<^sup>1\<close> in absolute value
  (\<open>kem_no_overflow\<close>), so that its \<open>i32\<close> arithmetic is exact.
\<close>

unbundle bit_operations_syntax

section \<open>Roots of unity\<close>

definition kem_q :: int where "kem_q = 3329"

definition reduce :: "int \<Rightarrow> int" where "reduce x = x mod kem_q"

definition kem_pow_mod :: "int \<Rightarrow> nat \<Rightarrow> int" where
  "kem_pow_mod base e = pow_loop kem_q 1 (base mod kem_q) e"

definition bitrev7 :: "nat \<Rightarrow> nat" where
  "bitrev7 i = foldl (\<lambda>r b. r OR push_bit (6 - b) (drop_bit b i AND 1)) 0 [0..<7]"

definition kem_zetas :: "int list" where
  "kem_zetas = map (\<lambda>i. kem_pow_mod 17 (bitrev7 i)) [0..<128]"

definition kem_gammas :: "int list" where
  "kem_gammas = map (\<lambda>i. kem_pow_mod 17 (2 * bitrev7 i + 1)) [0..<128]"

section \<open>The transforms\<close>

definition ntt_butterfly :: "int \<Rightarrow> int \<Rightarrow> int \<Rightarrow> int \<times> int" where
  "ntt_butterfly zeta x y = (let t = reduce (zeta * y) in (reduce (x + t), reduce (x - t)))"

definition intt_butterfly :: "int \<Rightarrow> int \<Rightarrow> int \<Rightarrow> int \<times> int" where
  "intt_butterfly zeta x y = (reduce (x + y), reduce (zeta * (y - x)))"

definition kem_ntt :: "int list \<Rightarrow> int list" where
  "kem_ntt f = fst (foldl (ntt_layer Suc (\<lambda>i. ntt_butterfly (kem_zetas ! i))) (f, 1) [128, 64, 32, 16, 8, 4, 2])"

definition kem_intt :: "int list \<Rightarrow> int list" where
  "kem_intt f =
    map (\<lambda>x. reduce (x * 3303))
      (fst (foldl (ntt_layer (\<lambda>i. i - 1) (\<lambda>i. intt_butterfly (kem_zetas ! i))) (f, 127) [2, 4, 8, 16, 32, 64, 128]))"

text \<open>
  \<open>a1 * b1 % Q * gamma\<close> is reduced again, so that the sign convention of \<open>%\<close> does not matter.
\<close>

definition kem_ntt_mul :: "int list \<Rightarrow> int list \<Rightarrow> int list" where
  "kem_ntt_mul a b = concat (map (\<lambda>i.
    let gamma = kem_gammas ! i; a0 = a ! (2 * i); a1 = a ! (2 * i + 1); b0 = b ! (2 * i); b1 = b ! (2 * i + 1) in
    [reduce (a0 * b0 + a1 * b1 mod kem_q * gamma), reduce (a0 * b1 + a1 * b0)]) [0..<128])"

definition kem_poly_add :: "int list \<Rightarrow> int list \<Rightarrow> int list" where
  "kem_poly_add a b = map (\<lambda>i. reduce (a ! i + b ! i)) [0..<256]"

definition kem_poly_sub :: "int list \<Rightarrow> int list \<Rightarrow> int list" where
  "kem_poly_sub a b = map (\<lambda>i. reduce (a ! i - b ! i)) [0..<256]"

text \<open>What the arrays of the code hold: 256 coefficients of \<open>0..3329\<close>.\<close>

definition kem_poly :: "int list \<Rightarrow> bool" where
  "kem_poly a \<longleftrightarrow> length a = 256 \<and> list_all (\<lambda>x. 0 \<le> x \<and> x < kem_q) a"

section \<open>The tables\<close>

lemma bitrev7_brv: "bitrev7 i = brv 7 i"
  using brv_fold [of 7 7 i] by (simp add: bitrev7_def)

lemma kem_pow_mod_power: "congr kem_q (kem_pow_mod b e) (b ^ e)"
  unfolding kem_pow_mod_def
  by (rule congr_trans [OF pow_loop_power]) (simp add: congr_power)

lemma kem_zetas_nth: "i < 128 \<Longrightarrow> congr kem_q (kem_zetas ! i) (17 ^ brv 7 i)"
  by (simp add: kem_zetas_def kem_pow_mod_power bitrev7_brv)

lemma kem_gammas_nth: "i < 128 \<Longrightarrow> congr kem_q (kem_gammas ! i) (17 ^ (2 * brv 7 i + 1))"
  using kem_pow_mod_power [of 17 "2 * bitrev7 i + 1"] by (simp add: kem_gammas_def bitrev7_brv)

interpretation kem: root_table kem_q "\<lambda>i. kem_zetas ! i" 7 17
proof unfold_locales
  have "congr kem_q (17 ^ 2 ^ 7) (kem_pow_mod 17 128)" using congr_sym [OF kem_pow_mod_power [of 17 128]] by simp
  also have "congr kem_q \<dots> (- 1)" by (simp add: congr_def kem_pow_mod_def pow_loop.simps kem_q_def)
  finally show "congr kem_q (17 ^ 2 ^ 7) (- 1)" .
qed (simp_all add: kem_q_def kem_zetas_nth [unfolded kem_q_def])

section \<open>Ranges\<close>

lemma reduce_range [simp]: "0 \<le> reduce x" "reduce x < kem_q"
  by (simp_all add: reduce_def kem_q_def)

lemma congr_reduce [simp]: "congr kem_q (reduce x) x" "congr kem_q x (reduce x)"
  by (simp_all add: reduce_def)

lemma reduce_id: "0 \<le> x \<Longrightarrow> x < kem_q \<Longrightarrow> reduce x = x"
  by (simp add: reduce_def)

lemma kem_poly_nth: "kem_poly a \<Longrightarrow> i < 256 \<Longrightarrow> 0 \<le> a ! i \<and> a ! i < kem_q"
  by (simp add: kem_poly_def list_all_length)

lemma kem_poly_map: "kem_poly (map (\<lambda>i. reduce (f i)) [0..<256])"
  by (simp add: kem_poly_def list_all_iff)

lemma kem_poly_eqI:
  assumes "kem_poly a" "kem_poly b" "\<And>i. i < 256 \<Longrightarrow> congr kem_q (a ! i) (b ! i)"
  shows "a = b"
proof (rule nth_equalityI)
  fix i assume "i < length a"
  then have "i < 256" using assms(1) by (simp add: kem_poly_def)
  then show "a ! i = b ! i" using congr_range_eq [OF assms(3)] kem_poly_nth [OF assms(1)] kem_poly_nth [OF assms(2)] by simp
qed (use assms in \<open>simp add: kem_poly_def\<close>)

lemma kem_poly_add_sub [simp, intro]: "kem_poly (kem_poly_add a b)" "kem_poly (kem_poly_sub a b)"
  by (simp_all add: kem_poly_add_def kem_poly_sub_def kem_poly_map)

lemma layer_kem_poly:
  assumes "length (fst s) = 256" "len \<in> {1, 2, 4, 8, 16, 32, 64, 128}"
    and "\<And>i x y. fst (bf i x y) \<in> {0..<kem_q} \<and> snd (bf i x y) \<in> {0..<kem_q}"
  shows "kem_poly (fst (ntt_layer step bf s len))"
proof -
  note r = layer_result [OF assms(1,2), where step = step and bf = bf and i = "snd s"]
  have "fst (ntt_layer step bf s len) ! p \<in> {0..<kem_q}" if "p < 256" for p
    using r(3) [OF that] assms(3) by (simp add: layer_at_def Let_def)
  then show ?thesis using r(2) by (simp add: kem_poly_def list_all_length)
qed

lemma ntt_butterfly_range: "fst (ntt_butterfly z x y) \<in> {0..<kem_q} \<and> snd (ntt_butterfly z x y) \<in> {0..<kem_q}"
  by (simp add: ntt_butterfly_def Let_def)

text \<open>No intermediate of the butterflies and of the base multiplication leaves the range of \<open>i32\<close>.\<close>

lemma kem_no_overflow:
  assumes "0 \<le> x" "x < kem_q" "0 \<le> y" "y < kem_q" "0 \<le> z" "z < kem_q" "0 \<le> g" "g < kem_q"
  shows "\<bar>z * y\<bar> < 2 ^ 31" "\<bar>x + reduce (z * y)\<bar> < 2 ^ 31" "\<bar>z * (y - x)\<bar> < 2 ^ 31"
    "\<bar>x * y + z * y mod kem_q * g\<bar> < 2 ^ 31" "\<bar>x * y + z * g\<bar> < 2 ^ 31" "\<bar>x * 3303\<bar> < 2 ^ 31"
proof -
  have m: "0 \<le> a * b \<and> a * b \<le> 3328 * 3328" if "0 \<le> a" "a < kem_q" "0 \<le> b" "b < kem_q" for a b
    using that mult_mono [of a 3328 b 3328] by (simp add: kem_q_def)
  have r: "0 \<le> z * y mod kem_q" "z * y mod kem_q < kem_q" by (simp_all add: kem_q_def)
  show "\<bar>z * y\<bar> < 2 ^ 31" using m [of z y] assms by simp
  show "\<bar>x + reduce (z * y)\<bar> < 2 ^ 31" using assms r by (simp add: reduce_def kem_q_def)
  show "\<bar>z * (y - x)\<bar> < 2 ^ 31" using m [OF assms(5,6,3,4)] m [OF assms(5,6,1,2)] unfolding right_diff_distrib by (auto simp: abs_less_iff)
  show "\<bar>x * y + z * y mod kem_q * g\<bar> < 2 ^ 31" using m [of x y] m [of "z * y mod kem_q" g] r assms by simp
  show "\<bar>x * y + z * g\<bar> < 2 ^ 31" using m [of x y] m [of z g] assms by simp
  show "\<bar>x * 3303\<bar> < 2 ^ 31" using assms by (simp add: kem_q_def)
qed

section \<open>The transforms multiply polynomials\<close>

lemma kem_ntt_level: "length f = 256 \<Longrightarrow> kem.on_level 7 f (kem_ntt f)"
proof -
  assume f: "length f = 256"
  have lens: "map (\<lambda>t. 2 ^ (7 - t)) [0..<7] = [128, 64, 32, 16, 8, 4, 2 :: nat]" by (simp add: upt_rec)
  have bf: "congr kem_q (fst (ntt_butterfly z x y)) (x + z * y) \<and> congr kem_q (snd (ntt_butterfly z x y)) (x - z * y)" for z x y
  proof -
    have "congr kem_q (reduce (x + reduce (z * y))) (x + z * y)"
      by (rule congr_trans [OF congr_reduce(1)]) (intro congr_add congr_refl congr_reduce)
    moreover have "congr kem_q (reduce (x - reduce (z * y))) (x - z * y)"
      by (rule congr_trans [OF congr_reduce(1)]) (intro congr_diff congr_refl congr_reduce)
    ultimately show ?thesis by (simp add: ntt_butterfly_def Let_def)
  qed
  from kem.forward_levels [OF f, of "\<lambda>i. i" "\<lambda>i. ntt_butterfly (kem_zetas ! i)" 7] show ?thesis
    by (simp add: bf lens kem_ntt_def)
qed

lemma kem_ntt_poly: "length f = 256 \<Longrightarrow> kem_poly (kem_ntt f)"
proof -
  assume f: "length f = 256"
  let ?l = "ntt_layer Suc (\<lambda>i. ntt_butterfly (kem_zetas ! i))"
  have len: "length (fst (foldl ?l s ls)) = 256" if "length (fst s) = 256" "set ls \<subseteq> {1, 2, 4, 8, 16, 32, 64, 128}" for s ls
    using that
  proof (induction ls arbitrary: s)
    case (Cons len ls)
    have "length (fst (?l s len)) = 256"
      using layer_result(2) [of "fst s" len, where i = "snd s"] Cons.prems by simp
    then show ?case using Cons by simp
  qed simp
  have "length (fst (foldl ?l (f, 1) [128, 64, 32, 16, 8, 4])) = 256" by (rule len) (use f in simp_all)
  from layer_kem_poly [OF this, of 2] ntt_butterfly_range show ?thesis by (simp add: kem_ntt_def)
qed

lemma kem_intt_level:
  assumes "length g = 256" "kem.on_level 7 g p"
  shows "kem_intt p = map reduce g"
proof -
  have lens: "map (\<lambda>t. 2 ^ (7 - (7 - Suc t))) [0..<7] = [2, 4, 8, 16, 32, 64, 128 :: nat]" by (simp add: upt_rec)
  have bf: "congr kem_q (fst (ntt_butterfly z x y)) (x + z * y) \<and> congr kem_q (snd (ntt_butterfly z x y)) (x - z * y)" for z x y
    unfolding ntt_butterfly_def Let_def fst_conv snd_conv
    by (meson congr_add congr_diff congr_refl congr_reduce(1) congr_trans)
  have bi: "congr kem_q (fst (intt_butterfly z x y)) (x + y) \<and> congr kem_q (snd (intt_butterfly z x y)) (z * (y - x))" for z x y
    by (simp add: intt_butterfly_def)
  have "congr kem_q (2 ^ 7 * 3303) 1" by (simp add: congr_def kem_q_def)
  from kem.inverse_transform [OF assms, where up = "\<lambda>i. i" and down = "\<lambda>i. i", OF _ _ _ _ this,
      where bf = "\<lambda>i. ntt_butterfly (kem_zetas ! i)" and bi = "\<lambda>i. intt_butterfly (kem_zetas ! i)"]
  show ?thesis by (simp add: bf bi lens [simplified] kem_intt_def reduce_def [abs_def])
qed

lemma pairs_nth:
  assumes "k < n"
  shows "concat (map (\<lambda>i. [f i, g i]) [0..<n]) ! (2 * k) = f k" "concat (map (\<lambda>i. [f i, g i]) [0..<n]) ! Suc (2 * k) = g k"
    "length (concat (map (\<lambda>i. [f i, g i]) [0..<n])) = 2 * n"
proof -
  have len: "length (concat (map (\<lambda>i. [f i, g i]) [0..<n])) = 2 * n" for n by (induction n) simp_all
  have "k < n \<Longrightarrow> concat (map (\<lambda>i. [f i, g i]) [0..<n]) ! (2 * k) = f k \<and> concat (map (\<lambda>i. [f i, g i]) [0..<n]) ! Suc (2 * k) = g k" for n
    by (induction n) (auto simp: nth_append len less_Suc_eq)
  with assms len show "concat (map (\<lambda>i. [f i, g i]) [0..<n]) ! (2 * k) = f k" "concat (map (\<lambda>i. [f i, g i]) [0..<n]) ! Suc (2 * k) = g k"
    "length (concat (map (\<lambda>i. [f i, g i]) [0..<n])) = 2 * n" by blast+
qed

lemma kem_ntt_mul_level:
  assumes "kem.on_level 7 f a" "kem.on_level 7 g b"
  shows "kem.on_level 7 (schoolbook kem_q f g) (kem_ntt_mul a b)"
proof (rule kem.level_product [OF assms])
  show "length (kem_ntt_mul a b) = 256" using pairs_nth(3) [of 0 128] by (simp add: kem_ntt_mul_def Let_def)
next
  fix k j :: nat assume "k < 2 ^ 7" "j < 2 ^ (8 - 7)"
  then have k: "k < 128" and j: "j = 0 \<or> j = 1" by auto
  let ?c = "tree_root ((!) kem_zetas) (2 ^ 7 + k)"
  have c: "congr kem_q (kem_gammas ! k) ?c"
    using congr_trans [OF kem_gammas_nth [OF k]] kem.leaf_root [of k] k by simp
  let ?a = "\<lambda>i. a ! (k * 2 + i)" and ?b = "\<lambda>i. b ! (k * 2 + i)"
  have leaf: "leaf_mult ?c 2 ?a ?b 0 = ?a 0 * ?b 0 + ?a 1 * ?b 1 * ?c" "leaf_mult ?c 2 ?a ?b 1 = ?a 0 * ?b 1 + ?a 1 * ?b 0"
    by (simp_all add: leaf_mult_def xpow_def numeral_2_eq_2)
  have at: "kem_ntt_mul a b ! (k * 2) = reduce (?a 0 * ?b 0 + ?a 1 * ?b 1 mod kem_q * kem_gammas ! k)"
    "kem_ntt_mul a b ! (k * 2 + 1) = reduce (?a 0 * ?b 1 + ?a 1 * ?b 0)"
    using pairs_nth(1,2) [OF k] unfolding kem_ntt_mul_def Let_def mult.commute [of k 2] by simp_all
  have "congr kem_q (kem_ntt_mul a b ! (k * 2)) (?a 0 * ?b 0 + ?a 1 * ?b 1 mod kem_q * kem_gammas ! k)"
    unfolding at(1) by simp
  also have "congr kem_q \<dots> (?a 0 * ?b 0 + ?a 1 * ?b 1 * ?c)"
    by (intro congr_add congr_mult [OF congr_of_mod(1) c] congr_refl)
  finally have e0: "congr kem_q (kem_ntt_mul a b ! (k * 2)) (leaf_mult ?c 2 ?a ?b 0)" unfolding leaf(1) .
  have e1: "congr kem_q (kem_ntt_mul a b ! (k * 2 + 1)) (leaf_mult ?c 2 ?a ?b 1)"
    unfolding leaf(2) at(2) by simp
  from j e0 e1 show "congr kem_q (kem_ntt_mul a b ! (k * 2 ^ (8 - 7) + j))
      (leaf_mult ?c (2 ^ (8 - 7)) (\<lambda>i. a ! (k * 2 ^ (8 - 7) + i)) (\<lambda>i. b ! (k * 2 ^ (8 - 7) + i)) j)"
    by auto
qed

lemma kem_poly_schoolbook: "kem_poly (schoolbook kem_q a b)"
  by (simp add: kem_poly_def list_all_length schoolbook_nth kem_q_def)

lemma map_reduce_poly: "kem_poly a \<Longrightarrow> map reduce a = a"
  by (rule nth_equalityI) (simp_all add: kem_poly_def list_all_length reduce_id)

lemma kem_intt_poly: "kem.on_level 7 g p \<Longrightarrow> kem_poly g \<Longrightarrow> kem_intt p = g"
  using kem_intt_level [of g p] map_reduce_poly [of g] by (simp add: kem_poly_def)

lemma kem_mult:
  "length a = 256 \<Longrightarrow> length b = 256 \<Longrightarrow> kem_intt (kem_ntt_mul (kem_ntt a) (kem_ntt b)) = schoolbook kem_q a b"
  by (intro kem_intt_poly kem_ntt_mul_level kem_ntt_level kem_poly_schoolbook)

text \<open>
  The transforms of ML-KEM compute polynomial multiplication. For all polynomials of the ring, the
  inverse transform inverts the transform, and transforming two polynomials, multiplying in the transform
  domain and transforming back is the schoolbook product modulo \<open>X\<^sup>2\<^sup>5\<^sup>6 + 1\<close> and 3329, for every entry of the
  tables \<open>zetas\<close> and \<open>gammas\<close> that \<open>pow_mod\<close> and \<open>bitrev7\<close> compute.
\<close>

theorem kem_ntt_multiplies:
  assumes "kem_poly a" "kem_poly b"
  shows "kem_intt (kem_ntt a) = a \<and> kem_intt (kem_ntt_mul (kem_ntt a) (kem_ntt b)) = schoolbook kem_q a b"
  using assms kem_intt_poly [OF kem_ntt_level, of a] kem_mult [of a b] by (simp add: kem_poly_def)

theorem kem_ntt_multiplies_witness:
  "kem_poly (replicate 256 5) \<and> kem_poly (replicate 256 3328)
   \<and> kem_intt (kem_ntt (replicate 256 5)) = replicate 256 5
   \<and> kem_intt (kem_ntt_mul (kem_ntt (replicate 256 5)) (kem_ntt (replicate 256 3328)))
     = schoolbook kem_q (replicate 256 5) (replicate 256 3328)"
proof -
  have "kem_poly (replicate 256 5)" "kem_poly (replicate 256 3328)" by (simp_all add: kem_poly_def list_all_length kem_q_def)
  with kem_ntt_multiplies show ?thesis by blast
qed

end
