(* ===== verification/Ml_Kem.thy ===== *)
theory Ml_Kem
  imports Keccak Kem_Ring "HOL-Library.Monad_Syntax"
begin

text \<open>
  ML-KEM-768, \<open>crates/ciphra-crypto/src/ml_kem.rs\<close> from the codecs on: bit packing, compression, sampling from
  the Keccak streams, public-key encryption and the key encapsulation around it. \<open>None\<close> is a panic (a slice
  out of range) or a rejection loop that does not end. Random seeds are arguments.
\<close>

section \<open>Codecs\<close>

text \<open>The bits of a polynomial in the order of the loops: bit \<open>b\<close> of coefficient \<open>i\<close> is bit \<open>d * i + b\<close> of the output.\<close>

definition bit_order :: "nat \<Rightarrow> (nat \<times> nat) list" where
  "bit_order d = concat (map (\<lambda>i. map (Pair i) [0..<d]) [0..<256])"

definition put_bit :: "int list \<Rightarrow> nat \<Rightarrow> bytes \<Rightarrow> nat \<times> nat \<Rightarrow> bytes" where
  "put_bit f d out = (\<lambda>(i, b). let bitpos = d * i + b in
    if bit (f ! i) b then out[bitpos div 8 := out ! (bitpos div 8) OR push_bit (bitpos mod 8) 1] else out)"

definition byte_encode :: "int list \<Rightarrow> nat \<Rightarrow> bytes" where
  "byte_encode f d = foldl (put_bit f d) (replicate (32 * d) 0) (bit_order d)"

definition byte_decode :: "bytes \<Rightarrow> nat \<Rightarrow> int list" where
  "byte_decode bs d =
    (let modulus = (if d < 12 then 2 ^ d else kem_q) in
     map (\<lambda>i. foldl (\<lambda>v b. let bitpos = d * i + b in v OR push_bit b (of_bool (bit (bs ! (bitpos div 8)) (bitpos mod 8)))) 0 [0..<d]
       mod max modulus 1) [0..<256])"

definition kem_compress :: "int \<Rightarrow> nat \<Rightarrow> int" where
  "kem_compress x d = ((x * 2 ^ d + kem_q div 2) div kem_q) mod 2 ^ d"

definition kem_decompress :: "int \<Rightarrow> nat \<Rightarrow> int" where
  "kem_decompress y d = (y * kem_q + 2 ^ (d - 1)) div 2 ^ d"

definition poly_compress :: "int list \<Rightarrow> nat \<Rightarrow> int list" where
  "poly_compress f d = map (\<lambda>i. kem_compress (f ! i) d) [0..<256]"

definition poly_decompress :: "int list \<Rightarrow> nat \<Rightarrow> int list" where
  "poly_decompress f d = map (\<lambda>i. kem_decompress (f ! i) d) [0..<256]"

section \<open>Sampling\<close>

text \<open>The body of the loop of \<open>sample_ntt\<close> on three bytes; \<open>a\<close> is the coefficients found so far.\<close>

definition sample_step :: "bytes \<Rightarrow> int list \<Rightarrow> int list" where
  "sample_step buf a =
    (let b0 = uint (buf ! 0); b1 = uint (buf ! 1); b2 = uint (buf ! 2);
         d1 = b0 + 256 * (b1 AND 0x0f);
         d2 = drop_bit 4 b1 + 16 * b2;
         a1 = (if d1 < kem_q then a @ [d1] else a)
     in if d2 < kem_q \<and> length a1 < 256 then a1 @ [d2] else a1)"

partial_function (option) sample_loop :: "keccak \<Rightarrow> int list \<Rightarrow> int list option" where
  "sample_loop xof a =
    (if length a < 256 then Option.bind (keccak_squeeze xof 3) (\<lambda>(xof1, buf). sample_loop xof1 (sample_step buf a))
     else Some a)"

declare sample_loop.simps [code]

definition sample_ntt :: "bytes \<Rightarrow> nat \<Rightarrow> nat \<Rightarrow> int list option" where
  "sample_ntt rho i j = do {
    x1 \<leftarrow> keccak_absorb new_shake128 rho;
    x2 \<leftarrow> keccak_absorb x1 [word_of_nat i, word_of_nat j];
    sample_loop x2 [] }"

definition sample_cbd :: "bytes \<Rightarrow> nat \<Rightarrow> int list" where
  "sample_cbd bs eta = map (\<lambda>i.
    let base = 2 * i * eta;
        bit_at = (\<lambda>pos. of_bool (bit (bs ! (pos div 8)) (pos mod 8)) :: int);
        x = sum_list (map (\<lambda>b. bit_at (base + b)) [0..<eta]);
        y = sum_list (map (\<lambda>b. bit_at (base + eta + b)) [0..<eta])
    in reduce (x - y)) [0..<256]"

definition kem_prf :: "bytes \<Rightarrow> nat \<Rightarrow> nat \<Rightarrow> bytes option" where
  "kem_prf s b eta = shake256 (s @ [word_of_nat b]) (64 * eta)"

definition kem_g :: "bytes \<Rightarrow> (bytes \<times> bytes) option" where
  "kem_g input = map_option (\<lambda>h. (take 32 h, drop 32 h)) (sha3_512 input)"

definition kem_h :: "bytes \<Rightarrow> bytes option" where "kem_h input = sha3_256 input"

definition kem_j :: "bytes \<Rightarrow> bytes option" where "kem_j input = shake256 input 32"

definition gen_matrix :: "bytes \<Rightarrow> bool \<Rightarrow> int list list list option" where
  "gen_matrix rho transposed =
    those (map (\<lambda>i. those (map (\<lambda>j. if transposed then sample_ntt rho i j else sample_ntt rho j i) [0..<3])) [0..<3])"

text \<open>\<open>for p in polys { *p = sample_cbd(&prf(seed, n, eta), eta); n += 1 }\<close> from \<open>n\<close> on.\<close>

definition sample_polys :: "bytes \<Rightarrow> nat \<Rightarrow> nat \<Rightarrow> int list list option" where
  "sample_polys seed n k = those (map (\<lambda>i. map_option (\<lambda>b. sample_cbd b 2) (kem_prf seed (n + i) 2)) [0..<k])"

section \<open>K-PKE\<close>

definition zero_poly :: "int list" where "zero_poly = replicate 256 0"

text \<open>\<open>acc = poly_add(&acc, &ntt_mul(&a[j], &b[j]))\<close> over \<open>j\<close>.\<close>

definition dot :: "int list list \<Rightarrow> int list list \<Rightarrow> int list" where
  "dot a b = foldl (\<lambda>acc j. kem_poly_add acc (kem_ntt_mul (a ! j) (b ! j))) zero_poly [0..<3]"

definition keygen_t :: "int list list list \<Rightarrow> int list list \<Rightarrow> int list list \<Rightarrow> int list list" where
  "keygen_t a s_hat e_hat = map (\<lambda>i. kem_poly_add (dot (a ! i) s_hat) (e_hat ! i)) [0..<3]"

definition pke_keygen :: "bytes \<Rightarrow> (bytes \<times> bytes) option" where
  "pke_keygen d = do {
    (rho, sigma) \<leftarrow> kem_g (d @ [3]);
    a \<leftarrow> gen_matrix rho False;
    s \<leftarrow> sample_polys sigma 0 3;
    e \<leftarrow> sample_polys sigma 3 3;
    let s_hat = map kem_ntt s;
    let e_hat = map kem_ntt e;
    let t_hat = keygen_t a s_hat e_hat;
    Some (concat (map (\<lambda>t. byte_encode t 12) t_hat) @ rho, concat (map (\<lambda>s. byte_encode s 12) s_hat)) }"

text \<open>Slices: \<open>bs[from..to]\<close> panics when out of range.\<close>

definition slice_of :: "bytes \<Rightarrow> nat \<Rightarrow> nat \<Rightarrow> bytes option" where
  "slice_of bs i j = (if i \<le> j \<and> j \<le> length bs then Some (take (j - i) (drop i bs)) else None)"

definition decode_polys :: "bytes \<Rightarrow> nat \<Rightarrow> int list list option" where
  "decode_polys bs d = those (map (\<lambda>i. map_option (\<lambda>c. byte_decode c d) (slice_of bs (32 * d * i) (32 * d * (i + 1)))) [0..<3])"

definition encrypt_u :: "int list list list \<Rightarrow> int list list \<Rightarrow> int list list \<Rightarrow> int list list" where
  "encrypt_u at r_hat e1 = map (\<lambda>i. kem_poly_add (kem_intt (dot (at ! i) r_hat)) (e1 ! i)) [0..<3]"

definition encrypt_v :: "int list list \<Rightarrow> int list list \<Rightarrow> int list \<Rightarrow> bytes \<Rightarrow> int list" where
  "encrypt_v t_hat r_hat e2 m =
    (let mu = poly_decompress (byte_decode m 1) 1 in
     kem_poly_add (kem_poly_add (kem_intt (dot t_hat r_hat)) e2) mu)"

definition pke_encrypt :: "bytes \<Rightarrow> bytes \<Rightarrow> bytes \<Rightarrow> bytes option" where
  "pke_encrypt ek m rand = do {
    t_hat \<leftarrow> decode_polys ek 12;
    rho \<leftarrow> slice_of ek 1152 1184;
    at \<leftarrow> gen_matrix rho True;
    r \<leftarrow> sample_polys rand 0 3;
    e1 \<leftarrow> sample_polys rand 3 3;
    e2s \<leftarrow> sample_polys rand 6 1;
    let r_hat = map kem_ntt r;
    let u = encrypt_u at r_hat e1;
    let v = encrypt_v t_hat r_hat (e2s ! 0) m;
    Some (concat (map (\<lambda>ui. byte_encode (poly_compress ui 10) 10) u) @ byte_encode (poly_compress v 4) 4) }"

definition pke_decrypt :: "bytes \<Rightarrow> bytes \<Rightarrow> bytes option" where
  "pke_decrypt dk ct = do {
    cs \<leftarrow> decode_polys ct 10;
    let u = map (\<lambda>c. poly_decompress c 10) cs;
    c2 \<leftarrow> slice_of ct 960 1088;
    let v = poly_decompress (byte_decode c2 4) 4;
    s_hat \<leftarrow> decode_polys dk 12;
    let w = kem_poly_sub v (kem_intt (dot s_hat (map kem_ntt u)));
    Some (byte_encode (poly_compress w 1) 1) }"

section \<open>ML-KEM\<close>

record key_pair =
  kp_ek :: bytes
  kp_dk :: bytes

definition keygen_internal :: "bytes \<Rightarrow> bytes \<Rightarrow> key_pair option" where
  "keygen_internal d z = do {
    (ek, dk) \<leftarrow> pke_keygen d;
    hash \<leftarrow> kem_h ek;
    Some \<lparr>kp_ek = ek, kp_dk = dk @ ek @ hash @ z\<rparr> }"

definition encaps_internal :: "bytes \<Rightarrow> bytes \<Rightarrow> (bytes \<times> bytes) option" where
  "encaps_internal ek m = do {
    hash \<leftarrow> kem_h ek;
    (shared, r) \<leftarrow> kem_g (m @ hash);
    ct \<leftarrow> pke_encrypt ek m r;
    Some (ct, shared) }"

definition decapsulate :: "bytes \<Rightarrow> bytes \<Rightarrow> bytes option" where
  "decapsulate dk ct = do {
    dk_pke \<leftarrow> slice_of dk 0 1152;
    ek_pke \<leftarrow> slice_of dk 1152 2336;
    hash \<leftarrow> slice_of dk 2336 2368;
    z \<leftarrow> slice_of dk 2368 2400;
    m' \<leftarrow> pke_decrypt dk_pke ct;
    (shared, r) \<leftarrow> kem_g (m' @ hash);
    k_bar \<leftarrow> kem_j (z @ ct);
    ct' \<leftarrow> pke_encrypt ek_pke m' r;
    Some (if ct = ct' then shared else k_bar) }"

end
