(* ===== verification/Ml_Dsa.thy ===== *)
theory Ml_Dsa
  imports Dsa_Ring Ml_Kem
begin

text \<open>
  ML-DSA-65, \<open>crates/ciphra-crypto/src/ml_dsa.rs\<close> from the hashing on: sampling from the Keccak streams, bit
  packing, the encodings of keys and signatures, key generation, signing and verification. \<open>None\<close> is a panic (a
  slice or an index out of range) or a rejection loop that does not end. The nonce counter of \<open>sign\<close> is a
  \<open>u16\<close> that wraps, as in a release build.
\<close>

unbundle bit_operations_syntax

section \<open>Parameters\<close>

definition dsa_k :: nat where "dsa_k = 6"
definition dsa_l :: nat where "dsa_l = 5"
definition ETA :: int where "ETA = 4"
definition TAU :: nat where "TAU = 49"
definition BETA :: int where "BETA = int TAU * ETA"
definition OMEGA :: nat where "OMEGA = 55"
definition C_TILDE_LEN :: nat where "C_TILDE_LEN = 192 div 4"
definition DSA_PUBLIC_KEY_LEN :: nat where "DSA_PUBLIC_KEY_LEN = 32 + dsa_k * 256 * 10 div 8"
definition DSA_SECRET_KEY_LEN :: nat where
  "DSA_SECRET_KEY_LEN = 32 + 32 + 64 + (dsa_l + dsa_k) * 256 * 4 div 8 + dsa_k * 256 * dsa_d div 8"
definition SIGNATURE_LEN :: nat where "SIGNATURE_LEN = C_TILDE_LEN + dsa_l * 256 * 20 div 8 + OMEGA + dsa_k"

section \<open>Hashing\<close>

definition dsa_h :: "bytes list \<Rightarrow> nat \<Rightarrow> bytes option" where
  "dsa_h parts out_len = do {
    k \<leftarrow> absorb_all new_shake256 parts;
    (_, out) \<leftarrow> keccak_squeeze k out_len;
    Some out }"

section \<open>Bit packing\<close>

text \<open>The loops of \<open>pack_bits\<close>; the bytes are written one after the other.\<close>

fun pack_flush :: "u64 \<Rightarrow> nat \<Rightarrow> bytes \<times> u64 \<times> nat" where
  "pack_flush acc n =
    (if 8 \<le> n then let (out, acc', n') = pack_flush (drop_bit 8 acc) (n - 8) in (ucast acc # out, acc', n')
     else ([], acc, n))"

declare pack_flush.simps [simp del]

fun pack_loop :: "nat \<Rightarrow> u32 list \<Rightarrow> u64 \<Rightarrow> nat \<Rightarrow> bytes" where
  "pack_loop bits [] acc n = []"
| "pack_loop bits (v # vs) acc n =
    (let (out, acc', n') = pack_flush (acc OR push_bit n (ucast v)) (n + bits) in out @ pack_loop bits vs acc' n')"

definition pack_bits :: "u32 list \<Rightarrow> nat \<Rightarrow> bytes" where "pack_bits vals bits = pack_loop bits vals 0 0"

fun unpack_fill :: "nat \<Rightarrow> u64 \<Rightarrow> nat \<Rightarrow> bytes \<Rightarrow> (u64 \<times> nat \<times> bytes) option" where
  "unpack_fill bits acc n [] = (if n < bits then None else Some (acc, n, []))"
| "unpack_fill bits acc n (b # r) =
    (if n < bits then unpack_fill bits (acc OR push_bit n (ucast b)) (n + 8) r else Some (acc, n, b # r))"

fun unpack_loop :: "nat \<Rightarrow> nat \<Rightarrow> u64 \<Rightarrow> nat \<Rightarrow> bytes \<Rightarrow> u32 list option" where
  "unpack_loop bits 0 acc n data = Some []"
| "unpack_loop bits (Suc count) acc n data = do {
    (acc1, n1, rest) \<leftarrow> unpack_fill bits acc n data;
    vals \<leftarrow> unpack_loop bits count (drop_bit bits acc1) (n1 - bits) rest;
    Some (ucast (acc1 AND (if bits = 64 then - 1 else push_bit bits 1 - 1)) # vals) }"

definition unpack_bits :: "bytes \<Rightarrow> nat \<Rightarrow> nat \<Rightarrow> u32 list option" where
  "unpack_bits data bits count = unpack_loop bits count 0 0 data"

definition pack_t1 :: "int list \<Rightarrow> bytes" where "pack_t1 p = pack_bits (map word_of_int p) 10"

definition unpack_t1 :: "bytes \<Rightarrow> int list option" where
  "unpack_t1 data = map_option (map sint) (unpack_bits data 10 256)"

definition pack_eta :: "int list \<Rightarrow> bytes" where "pack_eta p = pack_bits (map (\<lambda>c. word_of_int (ETA - center c)) p) 4"

definition unpack_eta :: "bytes \<Rightarrow> int list option" where
  "unpack_eta data = map_option (map (\<lambda>v. (ETA - sint v) mod dsa_q)) (unpack_bits data 4 256)"

definition pack_t0 :: "int list \<Rightarrow> bytes" where
  "pack_t0 p = pack_bits (map (\<lambda>c. word_of_int (2 ^ (dsa_d - 1) - center c)) p) dsa_d"

definition unpack_t0 :: "bytes \<Rightarrow> int list option" where
  "unpack_t0 data = map_option (map (\<lambda>v. (2 ^ (dsa_d - 1) - sint v) mod dsa_q)) (unpack_bits data dsa_d 256)"

definition pack_z :: "int list \<Rightarrow> bytes" where "pack_z p = pack_bits (map (\<lambda>c. word_of_int (GAMMA1 - center c)) p) 20"

definition unpack_z :: "bytes \<Rightarrow> int list option" where
  "unpack_z data = map_option (map (\<lambda>v. (GAMMA1 - sint v) mod dsa_q)) (unpack_bits data 20 256)"

definition w1_encode :: "int list list \<Rightarrow> bytes" where
  "w1_encode w1 = pack_bits (map word_of_int (concat w1)) 4"

section \<open>Sampling\<close>

text \<open>The inner loop of \<open>sample_in_ball\<close>: bytes until one is at most \<open>i\<close>.\<close>

partial_function (option) ball_index :: "keccak \<Rightarrow> nat \<Rightarrow> (keccak \<times> nat) option" where
  "ball_index xof i = Option.bind (keccak_squeeze xof 1) (\<lambda>(xof1, b).
    if unat (b ! 0) \<le> i then Some (xof1, unat (b ! 0)) else ball_index xof1 i)"

declare ball_index.simps [code]

fun ball_loop :: "u64 \<Rightarrow> keccak \<Rightarrow> int list \<Rightarrow> nat list \<Rightarrow> int list option" where
  "ball_loop signs xof c [] = Some c"
| "ball_loop signs xof c (i # is) = do {
    (xof1, j) \<leftarrow> ball_index xof i;
    ball_loop signs xof1 (c[i := c ! j, j := if bit signs (i - (256 - TAU)) then dsa_q - 1 else 1]) is }"

definition sample_in_ball :: "bytes \<Rightarrow> int list option" where
  "sample_in_ball seed = do {
    s1 \<leftarrow> keccak_absorb new_shake256 seed;
    (s2, sign_bytes) \<leftarrow> keccak_squeeze s1 8;
    ball_loop (word_of_nat (le_nat sign_bytes)) s2 zero_poly [256 - TAU..<256] }"

definition rej_ntt_step :: "bytes \<Rightarrow> int list \<Rightarrow> int list" where
  "rej_ntt_step buf a =
    (let t = uint (buf ! 0) OR push_bit 8 (uint (buf ! 1)) OR push_bit 16 (uint (buf ! 2) AND 0x7f) in
     if t < dsa_q then a @ [t] else a)"

text \<open>The sampling loops; \<open>a\<close> is the coefficients found so far.\<close>

partial_function (option) rej_ntt_loop :: "keccak \<Rightarrow> int list \<Rightarrow> int list option" where
  "rej_ntt_loop xof a =
    (if length a < 256 then Option.bind (keccak_squeeze xof 3) (\<lambda>(xof1, buf). rej_ntt_loop xof1 (rej_ntt_step buf a))
     else Some a)"

declare rej_ntt_loop.simps [code]

definition rej_ntt_poly :: "bytes \<Rightarrow> nat \<Rightarrow> nat \<Rightarrow> int list option" where
  "rej_ntt_poly rho j i = do {
    s1 \<leftarrow> keccak_absorb new_shake128 rho;
    s2 \<leftarrow> keccak_absorb s1 [word_of_nat j, word_of_nat i];
    rej_ntt_loop s2 [] }"

definition rej_bounded_step :: "byte \<Rightarrow> int list \<Rightarrow> int list" where
  "rej_bounded_step b a =
    foldl (\<lambda>a nibble. if uint nibble < 9 \<and> length a < 256 then a @ [(ETA - uint nibble) mod dsa_q] else a)
      a [b AND 0x0f, drop_bit 4 b]"

partial_function (option) rej_bounded_loop :: "keccak \<Rightarrow> int list \<Rightarrow> int list option" where
  "rej_bounded_loop xof a =
    (if length a < 256 then Option.bind (keccak_squeeze xof 1) (\<lambda>(xof1, buf). rej_bounded_loop xof1 (rej_bounded_step (buf ! 0) a))
     else Some a)"

declare rej_bounded_loop.simps [code]

definition rej_bounded_poly :: "bytes \<Rightarrow> u16 \<Rightarrow> int list option" where
  "rej_bounded_poly rho_prime nonce = do {
    s1 \<leftarrow> keccak_absorb new_shake256 rho_prime;
    s2 \<leftarrow> keccak_absorb s1 (le_bytes 2 (unat nonce));
    rej_bounded_loop s2 [] }"

definition expand_mask_poly :: "bytes \<Rightarrow> u16 \<Rightarrow> int list option" where
  "expand_mask_poly rho_pp nonce = do {
    s1 \<leftarrow> keccak_absorb new_shake256 rho_pp;
    s2 \<leftarrow> keccak_absorb s1 (le_bytes 2 (unat nonce));
    (_, buf) \<leftarrow> keccak_squeeze s2 (256 * 20 div 8);
    vals \<leftarrow> unpack_bits buf 20 256;
    Some (map (\<lambda>i. sub_mod (GAMMA1 mod dsa_q) (sint (vals ! i) mod dsa_q)) [0..<256]) }"

definition expand_a :: "bytes \<Rightarrow> int list list list option" where
  "expand_a rho = those (map (\<lambda>i. those (map (\<lambda>j. rej_ntt_poly rho j i) [0..<dsa_l])) [0..<dsa_k])"

definition expand_s :: "bytes \<Rightarrow> (int list list \<times> int list list) option" where
  "expand_s rho_prime = do {
    s1 \<leftarrow> those (map (\<lambda>idx. rej_bounded_poly rho_prime (word_of_nat idx)) [0..<dsa_l]);
    s2 \<leftarrow> those (map (\<lambda>idx. rej_bounded_poly rho_prime (word_of_nat (dsa_l + idx))) [0..<dsa_k]);
    Some (s1, s2) }"

section \<open>Encodings\<close>

definition pk_encode :: "bytes \<Rightarrow> int list list \<Rightarrow> bytes" where
  "pk_encode rho t1 = rho @ concat (map pack_t1 t1)"

text \<open>\<open>count\<close> polynomials of \<open>stride\<close> bytes each from \<open>off\<close> on.\<close>

definition unpack_polys :: "(bytes \<Rightarrow> int list option) \<Rightarrow> bytes \<Rightarrow> nat \<Rightarrow> nat \<Rightarrow> nat \<Rightarrow> int list list option" where
  "unpack_polys unpack bs off stride count =
    those (map (\<lambda>i. Option.bind (slice_of bs (off + i * stride) (off + i * stride + stride)) unpack) [0..<count])"

definition pk_decode :: "bytes \<Rightarrow> (bytes \<times> int list list) option" where
  "pk_decode pk = do {
    rho \<leftarrow> slice_of pk 0 32;
    t1 \<leftarrow> unpack_polys unpack_t1 pk 32 (256 * 10 div 8) dsa_k;
    Some (rho, t1) }"

record dsa_secret =
  ds_rho :: bytes
  ds_k_seed :: bytes
  ds_tr :: bytes
  ds_s1 :: "int list list"
  ds_s2 :: "int list list"
  ds_t0 :: "int list list"

definition sk_decode :: "bytes \<Rightarrow> dsa_secret option" where
  "sk_decode sk = do {
    rho \<leftarrow> slice_of sk 0 32;
    k_seed \<leftarrow> slice_of sk 32 64;
    tr \<leftarrow> slice_of sk 64 128;
    let eta_stride = 256 * 4 div 8;
    s1 \<leftarrow> unpack_polys unpack_eta sk 128 eta_stride dsa_l;
    s2 \<leftarrow> unpack_polys unpack_eta sk (128 + dsa_l * eta_stride) eta_stride dsa_k;
    t0 \<leftarrow> unpack_polys unpack_t0 sk (128 + (dsa_l + dsa_k) * eta_stride) (256 * dsa_d div 8) dsa_k;
    Some \<lparr>ds_rho = rho, ds_k_seed = k_seed, ds_tr = tr, ds_s1 = s1, ds_s2 = s2, ds_t0 = t0\<rparr> }"

text \<open>
  The hint: positions of the set coefficients, then the running counts. \<open>sign\<close> encodes at most \<open>OMEGA\<close> of them, so
  that no index is out of range.
\<close>

definition put_hints :: "int list \<Rightarrow> bytes \<times> nat \<Rightarrow> bytes \<times> nat" where
  "put_hints p s = foldl (\<lambda>(hint, idx) j. if p ! j \<noteq> 0 then (hint[idx := word_of_nat j], idx + 1) else (hint, idx)) s [0..<256]"

definition encode_hint :: "int list list \<Rightarrow> bytes" where
  "encode_hint h = fst (foldl (\<lambda>s i. let (hint, idx) = put_hints (h ! i) s in (hint[OMEGA + i := word_of_nat idx], idx))
    (replicate (OMEGA + dsa_k) 0, 0) [0..<length h])"

definition sig_encode :: "bytes \<Rightarrow> int list list \<Rightarrow> int list list \<Rightarrow> bytes" where
  "sig_encode c_tilde z h = c_tilde @ concat (map pack_z z) @ encode_hint h"

text \<open>\<open>for j in k..end\<close>, then the loop over the polynomials; \<open>None\<close> is the early return.\<close>

fun hint_run :: "bytes \<Rightarrow> nat \<Rightarrow> int list \<Rightarrow> nat list \<Rightarrow> int list option" where
  "hint_run hint k p [] = Some p"
| "hint_run hint k p (j # js) =
    (if k < j \<and> hint ! j \<le> hint ! (j - 1) then None else hint_run hint k (p[unat (hint ! j) := 1]) js)"

fun hint_polys :: "bytes \<Rightarrow> nat \<Rightarrow> nat list \<Rightarrow> (int list list \<times> nat) option" where
  "hint_polys hint k [] = Some ([], k)"
| "hint_polys hint k (i # is) =
    (let e = unat (hint ! (OMEGA + i)) in
     if e < k \<or> OMEGA < e then None
     else do {
       p \<leftarrow> hint_run hint k zero_poly [k..<e];
       (ps, k') \<leftarrow> hint_polys hint e is;
       Some (p # ps, k') })"

definition decode_hint :: "bytes \<Rightarrow> int list list option" where
  "decode_hint hint = do {
    (h, k) \<leftarrow> hint_polys hint 0 [0..<dsa_k];
    if list_ex (\<lambda>b. b \<noteq> 0) (drop k (take OMEGA hint)) then None else Some h }"

definition sig_decode :: "bytes \<Rightarrow> (bytes \<times> int list list \<times> int list list) option option" where
  "sig_decode sig = do {
    c_tilde \<leftarrow> slice_of sig 0 C_TILDE_LEN;
    let z_stride = 256 * 20 div 8;
    z \<leftarrow> unpack_polys unpack_z sig C_TILDE_LEN z_stride dsa_l;
    let off = C_TILDE_LEN + dsa_l * z_stride;
    hint \<leftarrow> slice_of sig off (off + OMEGA + dsa_k);
    Some (map_option (\<lambda>h. (c_tilde, z, h)) (decode_hint hint)) }"

section \<open>Keys\<close>

text \<open>\<open>acc = poly_add(&acc, &poly_pointwise(&a[i][j], &v[j]))\<close> over \<open>j\<close>, and the vector of these, transformed back.\<close>

definition dsa_dot :: "int list list \<Rightarrow> int list list \<Rightarrow> int list" where
  "dsa_dot row v = foldl (\<lambda>acc j. dsa_add acc (dsa_pointwise (row ! j) (v ! j))) zero_poly [0..<dsa_l]"

definition dsa_matvec :: "int list list list \<Rightarrow> int list list \<Rightarrow> int list list" where
  "dsa_matvec a v = map (\<lambda>i. dsa_inv_ntt (dsa_dot (a ! i) v)) [0..<dsa_k]"

definition keypair_t :: "int list list list \<Rightarrow> int list list \<Rightarrow> int list list \<Rightarrow> int list list" where
  "keypair_t a s1 s2 = (let as1 = dsa_matvec a (map dsa_ntt s1) in map (\<lambda>i. dsa_add (as1 ! i) (s2 ! i)) [0..<dsa_k])"

definition keypair_from_seed :: "bytes \<Rightarrow> (bytes \<times> bytes) option" where
  "keypair_from_seed seed = do {
    expanded \<leftarrow> dsa_h [seed, [word_of_nat dsa_k], [word_of_nat dsa_l]] 128;
    let rho = take 32 expanded;
    let rho_prime = take 64 (drop 32 expanded);
    let k_seed = take 32 (drop 96 expanded);
    a \<leftarrow> expand_a rho;
    (s1, s2) \<leftarrow> expand_s rho_prime;
    let t = keypair_t a s1 s2;
    let t1 = map (map (\<lambda>r. fst (power2round r))) t;
    let t0 = map (map (\<lambda>r. snd (power2round r) mod dsa_q)) t;
    let pk = pk_encode rho t1;
    tr \<leftarrow> dsa_h [pk] 64;
    Some (pk, rho @ k_seed @ tr @ concat (map pack_eta s1) @ concat (map pack_eta s2) @ concat (map pack_t0 t0)) }"

section \<open>Signing\<close>

definition max_norm :: "(int list \<Rightarrow> int) \<Rightarrow> int list list \<Rightarrow> int" where
  "max_norm size_of ps = foldl max 0 (map size_of ps)"

definition infinity_low :: "int list \<Rightarrow> int" where
  "infinity_low p = foldl max 0 (map abs p)"

text \<open>\<open>poly_pointwise(&c_hat, &v)\<close>, transformed back.\<close>

definition dsa_scale :: "int list \<Rightarrow> int list \<Rightarrow> int list" where
  "dsa_scale c_hat v = dsa_inv_ntt (dsa_pointwise c_hat v)"

definition make_hints :: "int list list \<Rightarrow> int list list \<Rightarrow> int list list \<Rightarrow> int list list" where
  "make_hints w cs2 ct0 = map (\<lambda>i. map (\<lambda>j.
      let minus_ct0 = sub_mod 0 (ct0 ! i ! j); r = add_mod (sub_mod (w ! i ! j) (cs2 ! i ! j)) (ct0 ! i ! j)
      in if make_hint minus_ct0 r then 1 else 0) [0..<256]) [0..<dsa_k]"

definition count_ones :: "int list list \<Rightarrow> nat" where
  "count_ones hint = length (filter (\<lambda>c. c \<noteq> 0) (concat hint))"

text \<open>The two tests of the loop after \<open>c\<close> is known; \<open>None\<close> is \<open>continue\<close>.\<close>

definition sign_response :: "int list list \<Rightarrow> int list list \<Rightarrow> int list list \<Rightarrow> bytes \<Rightarrow> int list \<Rightarrow> int list list \<Rightarrow> int list list \<Rightarrow> bytes option" where
  "sign_response s1_hat s2_hat t0_hat c_tilde c y w =
    (let c_hat = dsa_ntt c;
         cs1 = map (dsa_scale c_hat) s1_hat;
         cs2 = map (dsa_scale c_hat) s2_hat;
         z = map (\<lambda>j. dsa_add (y ! j) (cs1 ! j)) [0..<dsa_l];
         r0 = map (\<lambda>i. map low_bits (dsa_sub (w ! i) (cs2 ! i))) [0..<dsa_k]
     in if GAMMA1 - BETA \<le> max_norm norm_inf z \<or> GAMMA2 - BETA \<le> max_norm infinity_low r0 then None
        else let ct0 = map (dsa_scale c_hat) t0_hat;
                 hint = make_hints w cs2 ct0
             in if GAMMA2 \<le> max_norm norm_inf ct0 \<or> OMEGA < count_ones hint then None
                else Some (sig_encode c_tilde z hint))"

text \<open>One turn of the loop of \<open>sign\<close>: the inner \<open>None\<close> is a rejected attempt.\<close>

definition sign_attempt :: "int list list list \<Rightarrow> int list list \<Rightarrow> int list list \<Rightarrow> int list list \<Rightarrow> bytes \<Rightarrow> bytes \<Rightarrow> u16 \<Rightarrow> bytes option option" where
  "sign_attempt a s1_hat s2_hat t0_hat mu rho_pp kappa = do {
    y \<leftarrow> those (map (\<lambda>r. expand_mask_poly rho_pp (kappa + word_of_nat r)) [0..<dsa_l]);
    let w = dsa_matvec a (map dsa_ntt y);
    let w1 = map (map high_bits) w;
    c_tilde \<leftarrow> dsa_h [mu, w1_encode w1] C_TILDE_LEN;
    c \<leftarrow> sample_in_ball c_tilde;
    Some (sign_response s1_hat s2_hat t0_hat c_tilde c y w) }"

partial_function (option) sign_loop :: "(u16 \<Rightarrow> bytes option option) \<Rightarrow> u16 \<Rightarrow> bytes option" where
  "sign_loop attempt kappa = Option.bind (attempt kappa) (\<lambda>r.
    case r of Some sig \<Rightarrow> Some sig | None \<Rightarrow> sign_loop attempt (kappa + word_of_nat dsa_l))"

declare sign_loop.simps [code]

definition message_digest :: "bytes \<Rightarrow> bytes \<Rightarrow> bytes option" where
  "message_digest tr message = dsa_h [tr, [0, 0] @ message] 64"

definition sign_setup :: "bytes \<Rightarrow> bytes \<Rightarrow> (u16 \<Rightarrow> bytes option option) option" where
  "sign_setup secret_key message = do {
    sk \<leftarrow> sk_decode secret_key;
    a \<leftarrow> expand_a (ds_rho sk);
    mu \<leftarrow> message_digest (ds_tr sk) message;
    rho_pp \<leftarrow> dsa_h [ds_k_seed sk, replicate 32 0, mu] 64;
    Some (sign_attempt a (map dsa_ntt (ds_s1 sk)) (map dsa_ntt (ds_s2 sk)) (map dsa_ntt (ds_t0 sk)) mu rho_pp) }"

definition dsa_sign :: "bytes \<Rightarrow> bytes \<Rightarrow> bytes option" where
  "dsa_sign secret_key message = Option.bind (sign_setup secret_key message) (\<lambda>attempt. sign_loop attempt 0)"

section \<open>Verification\<close>

definition recovered_w1 :: "int list list list \<Rightarrow> int list list \<Rightarrow> int list \<Rightarrow> int list list \<Rightarrow> int list list \<Rightarrow> int list list" where
  "recovered_w1 a t1 c z hint =
    (let c_hat = dsa_ntt c; z_hat = map dsa_ntt z;
         t1_hat = map (\<lambda>t. dsa_ntt (map (\<lambda>x. dsa_mul_mod x (2 ^ dsa_d)) t)) t1
     in map (\<lambda>i.
       let approx = dsa_inv_ntt (dsa_sub (dsa_dot (a ! i) z_hat) (dsa_pointwise c_hat (t1_hat ! i)))
       in map (\<lambda>j. use_hint (hint ! i ! j \<noteq> 0) (approx ! j)) [0..<256]) [0..<dsa_k])"

definition dsa_verify :: "bytes \<Rightarrow> bytes \<Rightarrow> bytes \<Rightarrow> bool option" where
  "dsa_verify public_key message signature =
    (if length public_key \<noteq> DSA_PUBLIC_KEY_LEN \<or> length signature \<noteq> SIGNATURE_LEN then Some False
     else do {
       (rho, t1) \<leftarrow> pk_decode public_key;
       decoded \<leftarrow> sig_decode signature;
       case decoded of
         None \<Rightarrow> Some False
       | Some (c_tilde, z, hint) \<Rightarrow>
           if GAMMA1 - BETA \<le> max_norm norm_inf z then Some False
           else do {
             a \<leftarrow> expand_a rho;
             tr \<leftarrow> dsa_h [public_key] 64;
             mu \<leftarrow> message_digest tr message;
             c \<leftarrow> sample_in_ball c_tilde;
             c_tilde' \<leftarrow> dsa_h [mu, w1_encode (recovered_w1 a t1 c z hint)] C_TILDE_LEN;
             Some (c_tilde' = c_tilde) } })"

end
