(* ===== verification/Sampling.thy ===== *)
theory Sampling
  imports Ml_Dsa
begin

text \<open>
  When rejection sampling returns. The polynomials of ML-KEM and ML-DSA are drawn from a Keccak stream by loops
  that may run forever: \<open>Ml_Kem.sample_ntt\<close>, \<open>Ml_Dsa.rej_ntt_poly\<close> and \<open>Ml_Dsa.rej_bounded_poly\<close>. Each reads the
  stream in pieces of one width and appends the acceptable candidates of a piece until there are 256 coefficients.
  The locale states what such a loop is, and its lemmas relate the loop to the list of all candidates of the stream.
\<close>

unbundle bit_operations_syntax

section \<open>The stream\<close>

text \<open>The sponge after \<open>pos\<close> bytes of output for the message \<open>m\<close>, and the \<open>t\<close>-th piece of \<open>width\<close> bytes.\<close>

definition xof_at :: "nat \<Rightarrow> bytes \<Rightarrow> nat \<Rightarrow> keccak" where
  "xof_at rate m pos = (if pos = 0 then absorbed rate 0x1f m else squeezed rate 0x1f (padded_state rate 0x1f m) pos)"

definition xof_piece :: "nat \<Rightarrow> bytes \<Rightarrow> nat \<Rightarrow> nat \<Rightarrow> bytes" where
  "xof_piece rate m width t = drop (t * width) (sponge rate 0x1f m (Suc t * width))"

lemma squeeze_xof_at:
  assumes "0 < rate" "rate \<le> 200" "0 < width"
  shows "keccak_squeeze (xof_at rate m (t * width)) width = Some (xof_at rate m (Suc t * width), xof_piece rate m width t)"
proof (cases "t = 0")
  case True
  then show ?thesis using squeeze_absorbed [OF assms(1,2), of "0x1f" m width] assms(3) by (simp add: xof_at_def xof_piece_def)
next
  case False
  have "drop (t * width) [0..<Suc t * width] = [t * width..<t * width + width]" by (simp add: add.commute)
  then have "xof_piece rate m width t = map (\<lambda>j. state_byte ((keccak_f ^^ (j div rate)) (padded_state rate 0x1f m)) (j mod rate)) [t * width..<t * width + width]"
    by (simp add: xof_piece_def sponge_def padded_state_def Let_def drop_map)
  then show ?thesis
    using squeeze_loop_squeezed [OF assms(1), of "0x1f" "padded_state rate 0x1f m" "t * width" width] False assms(3)
    by (simp add: xof_at_def keccak_squeeze_def squeezed_def add.commute)
qed

section \<open>Rejection loops\<close>

text \<open>The candidates of the pieces from \<open>t\<close> on, \<open>n\<close> of them; and what a sampler returns for them.\<close>

definition accepted :: "(nat \<Rightarrow> int list) \<Rightarrow> nat \<Rightarrow> nat \<Rightarrow> int list" where
  "accepted cands t n = concat (map cands [t..<t + n])"

definition first_256 :: "(nat \<Rightarrow> int list) \<Rightarrow> int list option \<Rightarrow> bool" where
  "first_256 cands r \<longleftrightarrow>
    (case r of
       None \<Rightarrow> \<forall>n. length (accepted cands 0 n) < 256
     | Some p \<Rightarrow> \<exists>n. 256 \<le> length (accepted cands 0 n) \<and> p = take 256 (accepted cands 0 n))"

lemma accepted_0 [simp]: "accepted cands t 0 = []"
  by (simp add: accepted_def)

lemma accepted_Suc: "accepted cands t (Suc n) = cands t @ accepted cands (Suc t) n"
  by (simp add: accepted_def upt_conv_Cons del: upt_Suc)

text \<open>Cutting the first piece early does not change the first 256 coefficients.\<close>

lemma take_take_append: "take n (take n xs @ ys) = take n (xs @ ys)"
  by (cases "n \<le> length xs") auto

locale rejection_loop =
  fixes loop :: "keccak \<Rightarrow> int list \<Rightarrow> int list option" and step :: "bytes \<Rightarrow> int list \<Rightarrow> int list"
    and width :: nat and candidates :: "bytes \<Rightarrow> int list"
  assumes unfold: "loop xof a =
      (if length a < 256 then Option.bind (keccak_squeeze xof width) (\<lambda>(xof1, buf). loop xof1 (step buf a)) else Some a)"
    and least: "(\<And>rec xof a r. (\<And>xof a r. rec xof a = Some r \<Longrightarrow> P xof a r) \<Longrightarrow>
        (if length a < 256 then Option.bind (keccak_squeeze xof width) (\<lambda>(xof1, buf). rec xof1 (step buf a)) else Some a) = Some r \<Longrightarrow> P xof a r)
      \<Longrightarrow> loop xof a = Some r \<Longrightarrow> P xof a r"
    and step: "length a < 256 \<Longrightarrow> step buf a = take 256 (a @ candidates buf)"
    and width: "0 < width"
begin

lemma loop_step:
  assumes "0 < rate" "rate \<le> 200" "length a < 256"
  shows "loop (xof_at rate m (t * width)) a = loop (xof_at rate m (Suc t * width)) (take 256 (a @ candidates (xof_piece rate m width t)))"
  using assms(3) by (subst unfold) (simp add: squeeze_xof_at [OF assms(1,2) width] step)

text \<open>Enough candidates make the loop return.\<close>

lemma loop_returns:
  assumes "0 < rate" "rate \<le> 200"
    and "256 \<le> length (a @ accepted (\<lambda>t. candidates (xof_piece rate m width t)) t n)" "length a \<le> 256"
  shows "loop (xof_at rate m (t * width)) a = Some (take 256 (a @ accepted (\<lambda>t. candidates (xof_piece rate m width t)) t n))"
  using assms(3,4)
proof (induction n arbitrary: a t)
  case 0
  then show ?case by (subst unfold) simp
next
  case (Suc n)
  let ?c = "\<lambda>t. candidates (xof_piece rate m width t)"
  show ?case
  proof (cases "length a < 256")
    case True
    have "take 256 (take 256 (a @ ?c t) @ accepted ?c (Suc t) n) = take 256 (a @ accepted ?c t (Suc n))"
      by (simp only: take_take_append accepted_Suc append_assoc [symmetric])
    moreover have "256 \<le> length (take 256 (a @ ?c t) @ accepted ?c (Suc t) n)" using Suc.prems(1) by (simp add: accepted_Suc)
    ultimately show ?thesis using Suc.IH [of "take 256 (a @ ?c t)" "Suc t"] loop_step [OF assms(1,2) True, of m t] by simp
  next
    case False
    then show ?thesis using Suc.prems(2) by (subst unfold) simp
  qed
qed

text \<open>The loop returns only then.\<close>

lemma loop_needs:
  assumes "0 < rate" "rate \<le> 200" "loop (xof_at rate m (t * width)) a = Some r"
  shows "\<exists>n. 256 \<le> length (a @ accepted (\<lambda>t. candidates (xof_piece rate m width t)) t n)"
proof -
  let ?c = "\<lambda>t. candidates (xof_piece rate m width t)"
  have "\<forall>t. xof = xof_at rate m (t * width) \<longrightarrow> (\<exists>n. 256 \<le> length (a @ accepted ?c t n))" if "loop xof a = Some r" for xof
    using _ that
  proof (rule least)
    fix rec xof a r
    assume IH: "\<And>xof a r. rec xof a = Some r \<Longrightarrow> \<forall>t. xof = xof_at rate m (t * width) \<longrightarrow> (\<exists>n. 256 \<le> length (a @ accepted ?c t n))"
      and body: "(if length a < 256 then Option.bind (keccak_squeeze xof width) (\<lambda>(xof1, buf). rec xof1 (step buf a)) else Some a) = Some r"
    show "\<forall>t. xof = xof_at rate m (t * width) \<longrightarrow> (\<exists>n. 256 \<le> length (a @ accepted ?c t n))"
    proof (intro allI impI)
      fix t assume x: "xof = xof_at rate m (t * width)"
      show "\<exists>n. 256 \<le> length (a @ accepted ?c t n)"
      proof (cases "length a < 256")
        case True
        then have "rec (xof_at rate m (Suc t * width)) (take 256 (a @ ?c t)) = Some r"
          using body by (simp add: x squeeze_xof_at [OF assms(1,2) width] step)
        from IH [OF this] obtain n where "256 \<le> length (take 256 (a @ ?c t) @ accepted ?c (Suc t) n)" by blast
        then have "256 \<le> length (a @ accepted ?c t (Suc n))" by (simp add: accepted_Suc)
        then show ?thesis ..
      qed (auto intro!: exI [of _ 0])
    qed
  qed
  then show ?thesis using assms(3) by blast
qed

lemma loop_first_256:
  assumes "0 < rate" "rate \<le> 200"
  shows "first_256 (\<lambda>t. candidates (xof_piece rate m width t)) (loop (absorbed rate 0x1f m) [])"
proof -
  have start: "absorbed rate 0x1f m = xof_at rate m (0 * width)" by (simp add: xof_at_def)
  show ?thesis
  proof (cases "loop (absorbed rate 0x1f m) []")
    case None
    then show ?thesis using loop_returns [OF assms, of "[]" m 0] by (auto simp: first_256_def start not_less [symmetric])
  next
    case (Some p)
    obtain n where "256 \<le> length (accepted (\<lambda>t. candidates (xof_piece rate m width t)) 0 n)"
      using loop_needs [OF assms Some [unfolded start]] by auto
    then show ?thesis using Some loop_returns [OF assms, of "[]" m 0 n] by (auto simp: first_256_def start)
  qed
qed

end

section \<open>The three samplers\<close>

definition ntt_candidates :: "bytes \<Rightarrow> int list" where
  "ntt_candidates buf = filter (\<lambda>t. t < dsa_q) [uint (buf ! 0) OR push_bit 8 (uint (buf ! 1)) OR push_bit 16 (uint (buf ! 2) AND 0x7f)]"

definition eta_candidates :: "bytes \<Rightarrow> int list" where
  "eta_candidates buf = map (\<lambda>z. (ETA - z) mod dsa_q) (filter (\<lambda>z. z < 9) [uint (buf ! 0 AND 0x0f), uint (drop_bit 4 (buf ! 0))])"

definition kem_candidates :: "bytes \<Rightarrow> int list" where
  "kem_candidates buf =
    filter (\<lambda>d. d < kem_q) [uint (buf ! 0) + 256 * (uint (buf ! 1) AND 0x0f), drop_bit 4 (uint (buf ! 1)) + 16 * uint (buf ! 2)]"

lemma take_last_place: "n < 256 \<Longrightarrow> \<not> n < 255 \<Longrightarrow> take (256 - n) (x # xs) = [x]" for n :: nat
  by (cases "n = 255") auto

interpretation rej_ntt: rejection_loop rej_ntt_loop rej_ntt_step 3 ntt_candidates
proof unfold_locales
  show "rej_ntt_loop xof a = (if length a < 256 then Option.bind (keccak_squeeze xof 3) (\<lambda>(xof1, buf). rej_ntt_loop xof1 (rej_ntt_step buf a)) else Some a)" for xof a
    by (rule rej_ntt_loop.simps)
qed (erule rej_ntt_loop.raw_induct, auto simp: rej_ntt_step_def ntt_candidates_def Let_def)

interpretation rej_bounded: rejection_loop rej_bounded_loop "\<lambda>buf. rej_bounded_step (buf ! 0)" 1 eta_candidates
proof unfold_locales
  show "rej_bounded_loop xof a = (if length a < 256 then Option.bind (keccak_squeeze xof 1) (\<lambda>(xof1, buf). rej_bounded_loop xof1 (rej_bounded_step (buf ! 0) a)) else Some a)" for xof a
    by (rule rej_bounded_loop.simps)
qed (erule rej_bounded_loop.raw_induct, auto simp: rej_bounded_step_def eta_candidates_def take_last_place)

interpretation kem_sample: rejection_loop sample_loop sample_step 3 kem_candidates
proof unfold_locales
  show "sample_loop xof a = (if length a < 256 then Option.bind (keccak_squeeze xof 3) (\<lambda>(xof1, buf). sample_loop xof1 (sample_step buf a)) else Some a)" for xof a
    by (rule sample_loop.simps)
qed (erule sample_loop.raw_induct, auto simp: sample_step_def kem_candidates_def Let_def take_last_place)

lemma sampler_streams:
  "rej_ntt_poly rho j i = rej_ntt_loop (absorbed 168 0x1f (rho @ [word_of_nat j, word_of_nat i])) []"
  "rej_bounded_poly rho nonce = rej_bounded_loop (absorbed 136 0x1f (rho @ le_bytes 2 (unat nonce))) []"
  "sample_ntt rho k l = sample_loop (absorbed 168 0x1f (rho @ [word_of_nat k, word_of_nat l])) []"
  using keccak_absorb_absorbed [of 168 "0x1f" "[]" rho] keccak_absorb_absorbed [of 136 "0x1f" "[]" rho]
  by (simp_all add: rej_ntt_poly_def rej_bounded_poly_def sample_ntt_def new_shake128_def new_shake256_def
      absorbed_Nil [symmetric] keccak_absorb_absorbed)

text \<open>
  C30: rejection sampling returns as soon as it can. Each of the three samplers returns if and only if the pieces of
  its SHAKE stream hold 256 acceptable candidates, and then it returns the first 256 of them in the order of the
  stream: three bytes give one candidate modulo 8380417 for the matrix of ML-DSA, one byte gives two candidates
  between -4 and 4 for its secret vectors, and three bytes give two candidates modulo 3329 for the matrix of ML-KEM.
  None of them panics.
\<close>

theorem samplers_return_first_256:
  "first_256 (\<lambda>t. ntt_candidates (xof_piece 168 (rho @ [word_of_nat j, word_of_nat i]) 3 t)) (rej_ntt_poly rho j i) \<and>
   first_256 (\<lambda>t. eta_candidates (xof_piece 136 (rho @ le_bytes 2 (unat nonce)) 1 t)) (rej_bounded_poly rho nonce) \<and>
   first_256 (\<lambda>t. kem_candidates (xof_piece 168 (rho @ [word_of_nat k, word_of_nat l]) 3 t)) (sample_ntt rho k l)"
  unfolding sampler_streams
  using rej_ntt.loop_first_256 rej_bounded.loop_first_256 kem_sample.loop_first_256 by simp

end
