(* ===== verification/Btree_Map.thy ===== *)
theory Btree_Map
  imports Prelude
begin

text \<open>
  The standard library's \<open>BTreeMap\<close>, as the code uses it: an ordered map whose iteration order
  is the key order. It is modelled by its list of bindings in ascending key order;
  \<open>bt_wf\<close> is the representation invariant, \<open>map_of\<close> the abstraction to partial functions.
  The locale \<open>ordered_map\<close> states the contract the storage engine and the transaction overlay
  rely on; it is interpreted on these operations.
\<close>

section \<open>Operations\<close>

type_synonym ('k, 'v) btree = "('k \<times> 'v) list"

abbreviation bt_get :: "('k, 'v) btree \<Rightarrow> 'k \<Rightarrow> 'v option" where
  "bt_get m k \<equiv> map_of m k"

fun bt_insert :: "'k::linorder \<Rightarrow> 'v \<Rightarrow> ('k, 'v) btree \<Rightarrow> ('k, 'v) btree" where
  "bt_insert k v [] = [(k, v)]"
| "bt_insert k v (e # m) =
    (if fst e < k then e # bt_insert k v m
     else if fst e = k then (k, v) # m
     else (k, v) # e # m)"

definition bt_remove :: "'k \<Rightarrow> ('k, 'v) btree \<Rightarrow> ('k, 'v) btree" where
  "bt_remove k m = filter (\<lambda>e. fst e \<noteq> k) m"

text \<open>\<open>range(k..)\<close>: the bindings whose key is at least \<open>k\<close>.\<close>

definition bt_range :: "'k::linorder \<Rightarrow> ('k, 'v) btree \<Rightarrow> ('k, 'v) btree" where
  "bt_range k m = dropWhile (\<lambda>e. fst e < k) m"

text \<open>\<open>into_iter().collect::<BTreeMap<_, _>>()\<close>: later bindings win.\<close>

definition bt_collect :: "('k::linorder \<times> 'v) list \<Rightarrow> ('k, 'v) btree" where
  "bt_collect es = foldl (\<lambda>m (k, v). bt_insert k v m) [] es"

definition bt_wf :: "('k::linorder, 'v) btree \<Rightarrow> bool" where
  "bt_wf m = sorted_wrt (<) (map fst m)"

section \<open>Laws\<close>

lemma bt_wf_Nil [simp]: "bt_wf []"
  by (simp add: bt_wf_def)

lemma bt_wf_Cons: "bt_wf (e # m) \<longleftrightarrow> (\<forall>x \<in> set m. fst e < fst x) \<and> bt_wf m"
  by (auto simp: bt_wf_def)

lemma bt_wf_distinct: "bt_wf m \<Longrightarrow> distinct (map fst m)"
  by (simp add: bt_wf_def strict_sorted_iff)

lemma set_bt_insert_fst: "fst ` set (bt_insert k v m) = insert k (fst ` set m)"
  by (induction m) auto

lemma set_bt_insert: "set (bt_insert k v m) \<subseteq> insert (k, v) (set m)"
  by (induction m) auto

lemma bt_insert_wf [wf_intros]: "bt_wf m \<Longrightarrow> bt_wf (bt_insert k v m)"
proof (induction m)
  case Nil
  then show ?case by (simp add: bt_wf_Cons)
next
  case (Cons e m)
  have "fst e < fst x" if "fst e < k" "x \<in> set (bt_insert k v m)" for x
  proof -
    have "fst x \<in> insert k (fst ` set m)"
      using that(2) set_bt_insert_fst by (metis imageI)
    with that(1) Cons.prems show ?thesis by (auto simp: bt_wf_Cons)
  qed
  with Cons show ?case by (auto simp: bt_wf_Cons)
qed

lemma bt_remove_wf [wf_intros]: "bt_wf m \<Longrightarrow> bt_wf (bt_remove k m)"
  by (induction m) (auto simp: bt_remove_def bt_wf_Cons)

lemma bt_wf_get_below: "bt_wf (e # m) \<Longrightarrow> k < fst e \<Longrightarrow> map_of m k = None"
  by (auto simp: bt_wf_Cons map_of_eq_None_iff)

lemma bt_get_insert [simp]: "map_of (bt_insert k v m) = (map_of m)(k \<mapsto> v)"
  by (induction m) (auto simp: fun_eq_iff)

lemma bt_get_remove [simp]: "map_of (bt_remove k m) = (map_of m)(k := None)"
  by (induction m) (auto simp: bt_remove_def fun_eq_iff)

lemma bt_wf_mem_iff: "bt_wf m \<Longrightarrow> (k, v) \<in> set m \<longleftrightarrow> map_of m k = Some v"
  by (simp add: bt_wf_distinct)

text \<open>The representation is canonical: a well-formed map is determined by its bindings.\<close>

lemma bt_wf_eqI:
  assumes "bt_wf m" "bt_wf m'" "map_of m = map_of m'"
  shows "m = m'"
proof -
  have "set m = set m'"
    using assms by (auto simp: bt_wf_mem_iff)
  moreover have keys: "map fst m = map fst m'"
    using assms(1,2) \<open>set m = set m'\<close>
    by (intro strict_sorted_equal) (simp_all add: bt_wf_def)
  moreover have "inj_on fst (set m)"
    using bt_wf_distinct [OF assms(1)] by (simp add: distinct_map)
  ultimately show ?thesis
    by (intro map_inj_on [OF keys]) simp
qed

lemma bt_insert_last:
  "\<forall>x \<in> set m. fst x < k \<Longrightarrow> bt_insert k v m = m @ [(k, v)]"
  by (induction m) auto

lemma foldl_bt_insert_wf: "bt_wf m \<Longrightarrow> bt_wf (foldl (\<lambda>m (k, v). bt_insert k v m) m es)"
  by (induction es arbitrary: m) (auto intro: wf_intros)

lemma bt_collect_wf [wf_intros]: "bt_wf (bt_collect es)"
  by (simp add: bt_collect_def foldl_bt_insert_wf)

lemma foldl_bt_insert_append:
  "bt_wf (m @ es) \<Longrightarrow> foldl (\<lambda>m (k, v). bt_insert k v m) m es = m @ es"
proof (induction es arbitrary: m)
  case Nil
  then show ?case by simp
next
  case (Cons e es)
  have "\<forall>x \<in> set m. fst x < fst e"
    using Cons.prems by (auto simp: bt_wf_def sorted_wrt_append)
  then have "bt_insert (fst e) (snd e) m = m @ [e]"
    by (simp add: bt_insert_last)
  with Cons.IH [of "m @ [e]"] Cons.prems show ?case
    by (simp add: case_prod_beta)
qed

lemma bt_collect_id: "bt_wf m \<Longrightarrow> bt_collect m = m"
  by (simp add: bt_collect_def foldl_bt_insert_append)

lemma map_of_foldl_insert:
  "map_of (foldl (\<lambda>m (k, v). bt_insert k v m) m es) = map_of m ++ map_of (rev es)"
  by (induction es arbitrary: m) (auto simp: fun_eq_iff map_add_def split: option.splits)

lemma bt_range_filter: "bt_wf m \<Longrightarrow> bt_range k m = filter (\<lambda>e. \<not> fst e < k) m"
proof (induction m)
  case Nil
  then show ?case by (simp add: bt_range_def)
next
  case (Cons e m)
  show ?case
  proof (cases "fst e < k")
    case True
    with Cons show ?thesis by (simp add: bt_range_def bt_wf_Cons)
  next
    case False
    have "\<not> fst x < k" if "x \<in> set m" for x
      using that False Cons.prems by (force simp: bt_wf_Cons)
    with False have "filter (\<lambda>e. \<not> fst e < k) (e # m) = e # m"
      by simp
    with False show ?thesis by (simp add: bt_range_def)
  qed
qed

section \<open>The contract\<close>

locale ordered_map =
  fixes get :: "'m \<Rightarrow> 'k::linorder \<Rightarrow> 'v option"
    and insert :: "'k \<Rightarrow> 'v \<Rightarrow> 'm \<Rightarrow> 'm"
    and remove :: "'k \<Rightarrow> 'm \<Rightarrow> 'm"
    and iter :: "'m \<Rightarrow> ('k \<times> 'v) list"
    and wf :: "'m \<Rightarrow> bool"
  assumes get_insert: "wf m \<Longrightarrow> get (insert k v m) = (get m)(k \<mapsto> v)"
    and get_remove: "wf m \<Longrightarrow> get (remove k m) = (get m)(k := None)"
    and wf_insert: "wf m \<Longrightarrow> wf (insert k v m)"
    and wf_remove: "wf m \<Longrightarrow> wf (remove k m)"
    and iter_sorted: "wf m \<Longrightarrow> sorted_wrt (<) (map fst (iter m))"
    and iter_get: "wf m \<Longrightarrow> map_of (iter m) = get m"
begin

lemma insert_insert_same: "wf m \<Longrightarrow> get (insert k v (insert k w m)) = get (insert k v m)"
  by (simp add: get_insert wf_insert)

lemma remove_insert_same: "wf m \<Longrightarrow> get (remove k (insert k v m)) = get (remove k m)"
  by (simp add: get_insert get_remove wf_insert)

lemma iter_mem: "wf m \<Longrightarrow> (k, v) \<in> set (iter m) \<longleftrightarrow> get m k = Some v"
  using iter_sorted [of m] iter_get [of m]
  by (metis map_of_eq_Some_iff strict_sorted_iff)

end

interpretation btree: ordered_map "\<lambda>m k. bt_get m k" bt_insert bt_remove "\<lambda>m. m" bt_wf
  by unfold_locales (auto simp: bt_wf_def intro: wf_intros [unfolded bt_wf_def])

end
