(* ===== verification/Kv_Contract.thy ===== *)
theory Kv_Contract
  imports Btree_Map
begin

text \<open>
  The contract between the engine's \<open>Store\<close> and the two backends it runs on, the local write-ahead
  log and the remote storage server: sealed bytes under byte-string keys, seen as a partial map.
  \<open>kok\<close> and \<open>bok\<close> are the keys and batches the backend's encodings can carry and \<open>sok\<close> the states
  whose content they can carry; \<open>sem\<close> is the effect of a batch on the map. The laws speak of
  operations whose environment lets them succeed.
\<close>

definition restrict_prefix :: "(bytes \<rightharpoonup> bytes) \<Rightarrow> bytes \<Rightarrow> (bytes \<rightharpoonup> bytes)" where
  "restrict_prefix m p = (\<lambda>k. if prefix p k then m k else None)"

lemma restrict_prefix_Nil [simp]: "restrict_prefix m [] = m"
  by (simp add: restrict_prefix_def)

locale kv_backend =
  fixes inv :: "'s \<Rightarrow> bool"
    and view :: "'s \<Rightarrow> (bytes \<rightharpoonup> bytes)"
    and kok :: "bytes \<Rightarrow> bool"
    and sok :: "'s \<Rightarrow> bool"
    and get :: "'s \<Rightarrow> bytes \<Rightarrow> ('e, bytes option) result"
    and scan :: "'s \<Rightarrow> bytes \<Rightarrow> ('e, (bytes \<times> bytes) list) result"
    and dump :: "'s \<Rightarrow> ('e, (bytes \<times> bytes) list) result"
    and commit :: "'s \<Rightarrow> 'b \<Rightarrow> 's \<times> ('e, unit) result"
    and bok :: "'b \<Rightarrow> bool"
    and sem :: "'b \<Rightarrow> (bytes \<rightharpoonup> bytes) \<Rightarrow> (bytes \<rightharpoonup> bytes)"
  assumes get_view: "inv s \<Longrightarrow> kok k \<Longrightarrow> sok s \<Longrightarrow> get s k = Ok (view s k)"
    and scan_view: "inv s \<Longrightarrow> kok p \<Longrightarrow> sok s \<Longrightarrow>
      \<exists>es. scan s p = Ok es \<and> bt_wf es \<and> map_of es = restrict_prefix (view s) p"
    and dump_view: "inv s \<Longrightarrow> sok s \<Longrightarrow> \<exists>es. dump s = Ok es \<and> bt_wf es \<and> map_of es = view s"
    and commit_view: "inv s \<Longrightarrow> bok b \<Longrightarrow>
      \<exists>s'. commit s b = (s', Ok ()) \<and> inv s' \<and> view s' = sem b (view s)"
begin

lemma get_after_commit:
  assumes "inv s" "bok b" "kok k" "commit s b = (s', r)" "sok s'"
  shows "get s' k = Ok (sem b (view s) k)"
  using commit_view [OF assms(1,2)] assms(3-5) get_view by auto

lemma scan_agrees_with_dump:
  assumes "inv s" "kok p" "sok s" "scan s p = Ok es" "dump s = Ok ds"
  shows "es = filter (\<lambda>(k, v). prefix p k) ds"
proof (rule bt_wf_eqI)
  show "bt_wf es"
    using scan_view [OF assms(1-3)] assms(4) by auto
  have ds: "bt_wf ds" "map_of ds = view s"
    using dump_view [OF assms(1,3)] assms(5) by auto
  then show wf: "bt_wf (filter (\<lambda>(k, v). prefix p k) ds)"
    by (simp add: bt_wf_def sorted_wrt_map sorted_wrt_filter)
  have "map_of (filter (\<lambda>(k, v). prefix p k) ds) k = restrict_prefix (map_of ds) p k" for k
    by (induction ds) (auto simp: restrict_prefix_def)
  then show "map_of es = map_of (filter (\<lambda>(k, v). prefix p k) ds)"
    using scan_view [OF assms(1-3)] assms(4) ds by auto
qed

end

end
