(* ===== verification/Storage.thy ===== *)
theory Storage
  imports Kv_Contract
begin

text \<open>
  The storage engine, \<open>crates/ciphra-storage/src/lib.rs\<close>: CRC-32, the write-ahead-log record
  format, replay with truncation of a torn tail, and the operations of \<open>Storage\<close> and \<open>Batch\<close>.

  State. A \<open>storage\<close> is the in-memory table, the bytes of the file at \<open>wal_path\<close>, and whether
  the open handle still refers to that file (it does not after a \<open>compact\<close> that renamed the
  new log into place but failed to reopen it). Every operation that writes takes the outcome
  of its I/O as an argument: \<open>Write_failed n\<close> is a \<open>write_all\<close> that failed after \<open>n\<close> bytes,
  \<open>Sync_failed\<close> an \<open>fsync\<close> error after a complete write. Memory is unbounded: the room that
  \<open>decode_record\<close> reserves for a batch's declared entry count (\<open>Vec::with_capacity(count)\<close>, up to
  \<open>2 ^ 32 - 1\<close> entries) is taken to be granted, although a crafted record can make it abort.
\<close>

section \<open>CRC-32\<close>

definition crc_shift :: "u32 \<Rightarrow> u32" where
  "crc_shift c = (if c AND 1 \<noteq> 0 then 0xEDB88320 XOR drop_bit 1 c else drop_bit 1 c)"

definition crc_table :: "u32 list" where
  "crc_table = map (\<lambda>i. (crc_shift ^^ 8) (word_of_nat i)) [0..<256]"

definition crc_update :: "u32 \<Rightarrow> byte \<Rightarrow> u32" where
  "crc_update c b = crc_table ! unat ((c XOR ucast b) AND 0xFF) XOR drop_bit 8 c"

definition crc32 :: "bytes \<Rightarrow> u32" where
  "crc32 data = foldl crc_update 0xFFFFFFFF data XOR 0xFFFFFFFF"

section \<open>Records\<close>

definition OP_PUT :: byte where "OP_PUT = 1"
definition OP_DELETE :: byte where "OP_DELETE = 2"
definition OP_BATCH :: byte where "OP_BATCH = 3"

type_synonym kvmap = "(bytes, bytes) btree"
type_synonym wal_entry = "byte \<times> bytes \<times> bytes"

datatype wal_record = Single byte bytes bytes | Batch "wal_entry list"

fun apply_op :: "kvmap \<Rightarrow> byte \<Rightarrow> bytes \<Rightarrow> bytes \<Rightarrow> kvmap \<times> bool" where
  "apply_op m op k v =
    (if op = OP_PUT then (bt_insert k v m, True)
     else if op = OP_DELETE then (bt_remove k m, True)
     else (m, False))"

definition apply_entries :: "kvmap \<Rightarrow> wal_entry list \<Rightarrow> kvmap" where
  "apply_entries m es = foldl (\<lambda>m (op, k, v). fst (apply_op m op k v)) m es"

definition encode_entry :: "wal_entry \<Rightarrow> bytes" where
  "encode_entry e = (case e of (op, k, v) \<Rightarrow>
     op # le_bytes 4 (length k) @ k @ le_bytes 4 (length v) @ v)"

definition frame_payload :: "bytes \<Rightarrow> bytes" where
  "frame_payload payload =
     le_bytes 4 (unat (crc32 payload)) @ le_bytes 4 (length payload) @ payload"

definition encode_record :: "byte \<Rightarrow> bytes \<Rightarrow> bytes \<Rightarrow> bytes" where
  "encode_record op k v = frame_payload (encode_entry (op, k, v))"

definition encode_batch_record :: "wal_entry list \<Rightarrow> bytes" where
  "encode_batch_record es =
     frame_payload (OP_BATCH # le_bytes 4 (length es) @ concat (map encode_entry es))"

definition decode_entry :: "bytes \<Rightarrow> (wal_entry \<times> nat) option" where
  "decode_entry buf =
    (if length buf < 9 then None
     else
       let op = buf ! 0;
           key_len = le_nat (take 4 (drop 1 buf));
           vstart = 5 + key_len
       in if length buf < vstart + 4 then None
          else
            let key = take key_len (drop 5 buf);
                value_len = le_nat (take 4 (drop vstart buf));
                fin = vstart + 4 + value_len
            in if length buf < fin then None
               else Some ((op, key, take value_len (drop (vstart + 4) buf)), fin))"

definition decode_payload :: "bytes \<Rightarrow> wal_record option" where
  "decode_payload payload =
    (if payload ! 0 = OP_BATCH then
       (case dec_times decode_entry (le_nat (take 4 (drop 1 payload))) (drop 5 payload) of
          None \<Rightarrow> None
        | Some (es, p) \<Rightarrow> if 5 + p \<noteq> length payload then None else Some (Batch es))
     else
       (case decode_entry payload of
          None \<Rightarrow> None
        | Some ((op, k, v), advanced) \<Rightarrow>
            if advanced \<noteq> length payload then None else Some (Single op k v)))"

definition decode_record :: "bytes \<Rightarrow> (nat \<times> wal_record) option" where
  "decode_record buf =
    (if length buf < 8 then None
     else
       let crc = word_of_nat (le_nat (take 4 buf));
           payload_len = le_nat (take 4 (drop 4 buf))
       in if length buf < 8 + payload_len \<or> payload_len < 5 then None
          else
            let payload = take payload_len (drop 8 buf);
                consumed = 8 + payload_len
            in if crc32 payload \<noteq> crc then None
               else map_option (\<lambda>r. (consumed, r)) (decode_payload payload))"

section \<open>Replay\<close>

declare apply_op.simps [simp del]

lemma decode_record_consumed:
  "decode_record buf = Some (n, r) \<Longrightarrow> 13 \<le> n \<and> n \<le> length buf"
  by (auto simp: decode_record_def Let_def split: if_splits option.splits prod.splits)

function replay :: "bytes \<Rightarrow> nat \<Rightarrow> kvmap \<Rightarrow> kvmap \<times> nat" where
  "replay buf pos m =
    (if pos < length buf then
       (case decode_record (drop pos buf) of
          None \<Rightarrow> (m, pos)
        | Some (consumed, Single op k v) \<Rightarrow>
            (case apply_op m op k v of (m', ok) \<Rightarrow>
               if ok then replay buf (pos + consumed) m' else (m', pos))
        | Some (consumed, Batch es) \<Rightarrow> replay buf (pos + consumed) (apply_entries m es))
     else (m, pos))"
  by pat_completeness auto
termination
  by (relation "measure (\<lambda>(buf, pos, m). length buf - pos)")
    (auto dest!: decode_record_consumed)

declare replay.simps [simp del]

section \<open>The store\<close>

datatype storage_error = Io | Corrupt string

datatype io_outcome = Io_ok | Write_failed nat | Sync_failed

record storage =
  st_map :: kvmap
  st_wal :: bytes
  st_live :: bool

text \<open>\<open>Storage::open\<close>: \<open>contents\<close> is the result of opening and reading the log.\<close>

definition storage_open :: "(storage_error, bytes) result \<Rightarrow> (storage_error, storage) result" where
  "storage_open contents = rbind contents (\<lambda>buf.
     let (m, pos) = replay buf 0 [] in
     Ok \<lparr>st_map = m, st_wal = (if pos < length buf then take pos buf else buf),
         st_live = True\<rparr>)"

definition write_wal :: "io_outcome \<Rightarrow> storage \<Rightarrow> bytes \<Rightarrow> storage \<times> (storage_error, unit) result" where
  "write_wal io s rec =
    (let written = (case io of Write_failed n \<Rightarrow> take n rec | _ \<Rightarrow> rec);
         s' = (if st_live s then s\<lparr>st_wal := st_wal s @ written\<rparr> else s)
     in (s', if io = Io_ok then Ok () else Err Io))"

definition storage_append ::
  "io_outcome \<Rightarrow> storage \<Rightarrow> byte \<Rightarrow> bytes \<Rightarrow> bytes \<Rightarrow> storage \<times> (storage_error, unit) result" where
  "storage_append io s op k v = write_wal io s (encode_record op k v)"

definition storage_put ::
  "io_outcome \<Rightarrow> storage \<Rightarrow> bytes \<Rightarrow> bytes \<Rightarrow> storage \<times> (storage_error, unit) result" where
  "storage_put io s k v =
    (case storage_append io s OP_PUT k v of
       (s', Err e) \<Rightarrow> (s', Err e)
     | (s', Ok _) \<Rightarrow> (s'\<lparr>st_map := bt_insert k v (st_map s')\<rparr>, Ok ()))"

definition storage_delete ::
  "io_outcome \<Rightarrow> storage \<Rightarrow> bytes \<Rightarrow> storage \<times> (storage_error, unit) result" where
  "storage_delete io s k =
    (case storage_append io s OP_DELETE k [] of
       (s', Err e) \<Rightarrow> (s', Err e)
     | (s', Ok _) \<Rightarrow> (s'\<lparr>st_map := bt_remove k (st_map s')\<rparr>, Ok ()))"

type_synonym batch = "wal_entry list"

definition batch_put :: "batch \<Rightarrow> bytes \<Rightarrow> bytes \<Rightarrow> batch" where
  "batch_put b k v = b @ [(OP_PUT, k, v)]"

definition batch_delete :: "batch \<Rightarrow> bytes \<Rightarrow> batch" where
  "batch_delete b k = b @ [(OP_DELETE, k, [])]"

definition batch_entries :: "batch \<Rightarrow> (bool \<times> bytes \<times> bytes) list" where
  "batch_entries b = map (\<lambda>(op, k, v). (op = OP_DELETE, k, v)) b"

definition storage_commit ::
  "io_outcome \<Rightarrow> storage \<Rightarrow> batch \<Rightarrow> storage \<times> (storage_error, unit) result" where
  "storage_commit io s b =
    (case b of
       [] \<Rightarrow> (s, Ok ())
     | [(op, k, v)] \<Rightarrow>
         (case storage_append io s op k v of
            (s', Err e) \<Rightarrow> (s', Err e)
          | (s', Ok _) \<Rightarrow> (s'\<lparr>st_map := fst (apply_op (st_map s') op k v)\<rparr>, Ok ()))
     | _ \<Rightarrow>
         (case write_wal io s (encode_batch_record b) of
            (s', Err e) \<Rightarrow> (s', Err e)
          | (s', Ok _) \<Rightarrow> (s'\<lparr>st_map := apply_entries (st_map s') b\<rparr>, Ok ())))"

definition storage_get :: "storage \<Rightarrow> bytes \<Rightarrow> bytes option" where
  "storage_get s k = bt_get (st_map s) k"

definition storage_scan_prefix :: "storage \<Rightarrow> bytes \<Rightarrow> (bytes \<times> bytes) list" where
  "storage_scan_prefix s p = takeWhile (\<lambda>(k, _). prefix p k) (bt_range p (st_map s))"

definition storage_len :: "storage \<Rightarrow> nat" where
  "storage_len s = length (st_map s)"

definition storage_is_empty :: "storage \<Rightarrow> bool" where
  "storage_is_empty s = (st_map s = [])"

definition storage_dump :: "storage \<Rightarrow> (bytes \<times> bytes) list" where
  "storage_dump s = st_map s"

text \<open>The contents of the file \<open>write_snapshot\<close>, \<open>snapshot_to\<close> and \<open>compact\<close> produce.\<close>

definition write_snapshot :: "(bytes \<times> bytes) list \<Rightarrow> bytes" where
  "write_snapshot pairs = concat (map (\<lambda>(k, v). encode_record OP_PUT k v) pairs)"

definition snapshot_to :: "storage \<Rightarrow> bytes" where
  "snapshot_to s = write_snapshot (st_map s)"

datatype compact_outcome = Compact_ok | Tmp_failed | Reopen_failed

definition storage_compact ::
  "compact_outcome \<Rightarrow> storage \<Rightarrow> storage \<times> (storage_error, unit) result" where
  "storage_compact io s =
    (case io of
       Tmp_failed \<Rightarrow> (s, Err Io)
     | Reopen_failed \<Rightarrow> (s\<lparr>st_wal := snapshot_to s, st_live := False\<rparr>, Err Io)
     | Compact_ok \<Rightarrow> (s\<lparr>st_wal := snapshot_to s, st_live := True\<rparr>, Ok ()))"

section \<open>CRC-32 against the bit-serial definition\<close>

text \<open>
  The textbook shift register of CRC-32 (reflected polynomial \<open>0xEDB88320\<close>): one message bit
  at a time, least significant bit of each byte first.
\<close>

definition crc_bit :: "u32 \<Rightarrow> bool \<Rightarrow> u32" where
  "crc_bit c x = (if bit c 0 \<noteq> x then drop_bit 1 c XOR 0xEDB88320 else drop_bit 1 c)"

definition byte_bits :: "byte \<Rightarrow> bool list" where
  "byte_bits b = map (bit b) [0..<8]"

definition crc32_serial :: "bytes \<Rightarrow> u32" where
  "crc32_serial data =
     foldl crc_bit 0xFFFFFFFF (concat (map byte_bits data)) XOR 0xFFFFFFFF"

lemma crc_shift_eq: "crc_shift c = drop_bit 1 c XOR (if bit c 0 then 0xEDB88320 else 0)"
proof -
  have "c AND 1 \<noteq> 0 \<longleftrightarrow> bit c 0"
    by (simp add: and_one_eq bit_0 mod_2_eq_odd)
  then show ?thesis
    by (simp add: crc_shift_def xor.commute)
qed

lemma crc_shift_xor: "crc_shift (a XOR b) = crc_shift a XOR crc_shift b"
  by (auto simp: crc_shift_eq bit_xor_iff xor.assoc xor.left_commute
      intro: bit_eqI)

lemma crc_shifts_xor: "(crc_shift ^^ n) (a XOR b) = (crc_shift ^^ n) a XOR (crc_shift ^^ n) b"
  by (induction n) (simp_all add: crc_shift_xor)

lemma crc_shifts_high: "(\<And>i. i < n \<Longrightarrow> \<not> bit a i) \<Longrightarrow> (crc_shift ^^ n) a = drop_bit n a"
proof (induction n arbitrary: a)
  case 0
  then show ?case by simp
next
  case (Suc n)
  have "crc_shift a = drop_bit 1 a"
    using Suc.prems [of 0] by (simp add: crc_shift_eq)
  moreover have "(crc_shift ^^ n) (drop_bit 1 a) = drop_bit n (drop_bit 1 a)"
    using Suc.prems by (intro Suc.IH) (simp add: bit_drop_bit_eq)
  ultimately show ?case
    by (simp add: funpow_Suc_right del: funpow.simps)
qed

lemma crc_bit_shift: "crc_bit c x = crc_shift (c XOR of_bool x)"
  by (cases x) (auto simp: crc_bit_def crc_shift_eq bit_xor_iff bit_0 even_xor_iff)

lemma crc_serial_byte:
  fixes x :: u32
  shows "(crc_shift ^^ n) (c XOR x) = foldl crc_bit c (map (bit x) [0..<n]) XOR drop_bit n x"
proof (induction n)
  case 0
  then show ?case by simp
next
  case (Suc n)
  let ?s = "foldl crc_bit c (map (bit x) [0..<n])"
  have "crc_shift (drop_bit n x) = crc_shift (of_bool (bit x n)) XOR drop_bit (Suc n) x"
    by (auto simp: crc_shift_eq bit_drop_bit_eq bit_0 xor.commute drop_bit_Suc
        simp flip: bit_iff_odd_drop_bit drop_bit_half)
  then have "(crc_shift ^^ Suc n) (c XOR x) = crc_bit ?s (bit x n) XOR drop_bit (Suc n) x"
    by (simp add: Suc crc_shift_xor crc_bit_shift [of ?s] xor.assoc)
  then show ?case by simp
qed

lemma byte_bits_ucast: "byte_bits b = map (bit (ucast b :: u32)) [0..<8]"
  by (simp add: byte_bits_def bit_ucast_iff)

lemma drop_byte_ucast: "drop_bit 8 (ucast (b :: byte) :: u32) = 0"
  by (rule bit_eqI) (auto simp: bit_simps dest: bit_imp_le_length)

lemma crc_table_nth: "crc_table ! unat (y AND 0xFF) = (crc_shift ^^ 8) (y AND 0xFF)"
proof -
  have "unat (y AND 0xFF) \<le> unat (0xFF :: u32)"
    using word_and_le1 word_le_nat_alt by blast
  then show ?thesis by (simp add: crc_table_def)
qed

lemma crc_update_shifts: "crc_update c b = (crc_shift ^^ 8) (c XOR ucast b)"
proof -
  let ?y = "c XOR ucast b :: u32"
  have split: "?y = (?y AND 0xFF) XOR (?y AND NOT 0xFF)"
    by (rule bit_eqI) (auto simp: bit_simps)
  have mask: "(0xFF :: u32) = mask 8"
    by (simp add: mask_eq_exp_minus_1)
  have low: "\<not> bit (?y AND NOT 0xFF) i" if "i < 8" for i
    unfolding mask using that by (simp add: bit_simps)
  have "(crc_shift ^^ 8) ?y = (crc_shift ^^ 8) (?y AND 0xFF) XOR drop_bit 8 (?y AND NOT 0xFF)"
    by (subst split) (simp only: crc_shifts_xor crc_shifts_high [OF low])
  also have "drop_bit 8 (?y AND NOT 0xFF) = drop_bit 8 ?y"
    unfolding mask by (rule bit_eqI) (auto simp: bit_simps dest: bit_imp_le_length)
  also have "\<dots> = drop_bit 8 c"
    by (simp add: drop_byte_ucast)
  finally show ?thesis by (simp add: crc_update_def crc_table_nth)
qed

lemma crc_update_serial: "crc_update c b = foldl crc_bit c (byte_bits b)"
  by (simp add: crc_update_shifts crc_serial_byte byte_bits_ucast drop_byte_ucast del: upt_Suc)

section \<open>The record format\<close>

definition entry_ok :: "wal_entry \<Rightarrow> bool" where
  "entry_ok e = (case e of (op, k, v) \<Rightarrow> length k < 2 ^ 32 \<and> length v < 2 ^ 32)"

lemma length_encode_entry [simp]:
  "length (encode_entry (op, k, v)) = 9 + length k + length v"
  by (simp add: encode_entry_def)

lemma decode_entry_encode:
  assumes "entry_ok e"
  shows "decode_entry (encode_entry e @ rest) = Some (e, length (encode_entry e))"
proof -
  obtain op k v where e: "e = (op, k, v)" by (cases e)
  have k: "le_nat (le_bytes 4 (length k)) = length k"
    and v: "le_nat (le_bytes 4 (length v)) = length v"
    using assms by (auto simp: entry_ok_def e intro!: le_nat_le_bytes_lt)
  have "drop (5 + length k) (encode_entry e @ rest) = le_bytes 4 (length v) @ v @ rest"
    by (simp add: encode_entry_def e drop_Cons')
  moreover have "drop (9 + length k) (encode_entry e @ rest) = v @ rest"
    by (simp add: encode_entry_def e drop_Cons')
  moreover have "drop 5 (encode_entry e @ rest) = k @ le_bytes 4 (length v) @ v @ rest"
    by (simp add: encode_entry_def e drop_Cons')
  moreover have "take 4 (drop 1 (encode_entry e @ rest)) = le_bytes 4 (length k)"
    by (simp add: encode_entry_def e)
  moreover have "(encode_entry e @ rest) ! 0 = op"
    by (simp add: encode_entry_def e)
  ultimately show ?thesis
    by (simp add: decode_entry_def Let_def e k v)
qed

lemma decode_entry_canonical:
  assumes "decode_entry buf = Some (e, n)"
  shows "entry_ok e \<and> n \<le> length buf \<and> take n buf = encode_entry e"
proof -
  define kl where "kl = le_nat (take 4 (drop 1 buf))"
  define vl where "vl = le_nat (take 4 (drop (5 + kl) buf))"
  from assms have len: "9 + kl + vl \<le> length buf" and n: "n = 9 + kl + vl"
    and e: "e = (buf ! 0, take kl (drop 5 buf), take vl (drop (9 + kl) buf))"
    by (auto simp: decode_entry_def Let_def kl_def vl_def split: if_splits)
  have k4: "le_bytes 4 kl = take 4 (drop 1 buf)" and kl: "kl < 2 ^ 32"
    using len le_nat_take_lt [of 4 "drop 1 buf"] by (simp_all add: kl_def le_bytes_field)
  have v4: "le_bytes 4 vl = take 4 (drop (5 + kl) buf)" and vl: "vl < 2 ^ 32"
    using len le_nat_take_lt [of 4 "drop (5 + kl) buf"] by (simp_all add: vl_def le_bytes_field)
  have "take n buf = take 1 buf @ take 4 (drop 1 buf) @ take kl (drop 5 buf)
      @ take 4 (drop (5 + kl) buf) @ take vl (drop (9 + kl) buf)"
  proof -
    have "n = 1 + (4 + (kl + (4 + vl)))" by (simp add: n)
    then show ?thesis by (simp only: take_add drop_drop) (simp add: add.commute)
  qed
  moreover have "take 1 buf = [buf ! 0]"
    using len by (cases buf) auto
  ultimately have "take n buf = encode_entry e"
    using len by (simp add: e encode_entry_def k4 v4 min_absorb2)
  then show ?thesis
    using len kl vl by (simp add: e n entry_ok_def)
qed

interpretation wal_entries: canonical_codec encode_entry decode_entry entry_ok
  by unfold_locales (use decode_entry_encode decode_entry_canonical in auto)

lemma length_frame_payload [simp]: "length (frame_payload p) = 8 + length p"
  by (simp add: frame_payload_def)

lemma crc_field: "(word_of_nat (le_nat (le_bytes 4 (unat c))) :: u32) = c"
  by (rule word_le_bytes_roundtrip) simp

lemma decode_record_frame:
  assumes "5 \<le> length p" "length p < 2 ^ 32"
  shows "decode_record (frame_payload p @ rest)
    = map_option (\<lambda>r. (length (frame_payload p), r)) (decode_payload p)"
proof -
  have "take 4 (frame_payload p @ rest) = le_bytes 4 (unat (crc32 p))"
    by (simp add: frame_payload_def)
  moreover have "take 4 (drop 4 (frame_payload p @ rest)) = le_bytes 4 (length p)"
    by (simp add: frame_payload_def)
  moreover have "drop 8 (frame_payload p @ rest) = p @ rest"
    by (simp add: frame_payload_def)
  moreover have "le_nat (le_bytes 4 (length p)) = length p"
    using assms(2) by (intro le_nat_le_bytes_lt) simp
  ultimately show ?thesis
    using assms(1) by (simp add: decode_record_def Let_def crc_field)
qed

lemma decode_record_torn:
  assumes "n < length (frame_payload p)" "length p < 2 ^ 32"
  shows "decode_record (take n (frame_payload p)) = None"
proof (cases "n < 8")
  case True
  then show ?thesis by (simp add: decode_record_def)
next
  case False
  then have "take 4 (drop 4 (take n (frame_payload p))) = le_bytes 4 (length p)"
    by (simp add: frame_payload_def drop_take)
  moreover have "le_nat (le_bytes 4 (length p)) = length p"
    using assms(2) by (intro le_nat_le_bytes_lt) simp
  ultimately show ?thesis
    using assms(1) False by (simp add: decode_record_def Let_def)
qed

lemma decode_record_overlap:
  assumes "8 \<le> n" "n < length (frame_payload p)" "length p < 2 ^ 32"
    and "n + length t < length (frame_payload p)
      \<or> crc32 (take (length p) (take (n - 8) p @ t)) \<noteq> crc32 p"
  shows "decode_record (take n (frame_payload p) @ t) = None"
proof -
  let ?b = "take n (frame_payload p) @ t"
  have "take 4 (drop 4 ?b) = le_bytes 4 (length p)"
    using assms(1) by (simp add: frame_payload_def drop_take)
  moreover have "le_nat (le_bytes 4 (length p)) = length p"
    using assms(3) by (intro le_nat_le_bytes_lt) simp
  moreover have "take 4 ?b = le_bytes 4 (unat (crc32 p))"
    using assms(1) by (simp add: frame_payload_def)
  moreover have "drop 8 ?b = take (n - 8) p @ t"
    using assms(1,2) by (simp add: frame_payload_def drop_take)
  ultimately show ?thesis
    using assms by (auto simp: decode_record_def Let_def crc_field)
qed

lemma decode_record_stable:
  assumes "decode_record buf = Some (n, r)"
  shows "decode_record (buf @ rest) = Some (n, r)"
proof -
  have "13 \<le> n" "n \<le> length buf"
    using decode_record_consumed [OF assms] by auto
  with assms show ?thesis
    by (auto simp: decode_record_def Let_def split: if_splits)
qed

lemma decode_record_take:
  assumes "decode_record buf = Some (n, r)" "n \<le> q"
  shows "decode_record (take q buf) = Some (n, r)"
proof -
  have "13 \<le> n" "n \<le> length buf"
    using decode_record_consumed [OF assms(1)] by auto
  with assms show ?thesis
    by (auto simp: decode_record_def Let_def drop_take min_def split: if_splits)
qed

lemma decode_record_Nil [simp]: "decode_record [] = None"
  by (simp add: decode_record_def)

definition shift_pos :: "nat \<Rightarrow> kvmap \<times> nat \<Rightarrow> kvmap \<times> nat" where
  "shift_pos n r = (fst r, n + snd r)"

lemma shift_pos_simps [simp]: "shift_pos n (m, p) = (m, n + p)"
  by (simp add: shift_pos_def)

section \<open>Replay over concatenated logs\<close>

text \<open>
  One iteration of the replay loop: the effect of a decoded record, \<open>None\<close> where the loop
  stops on an unknown opcode. \<open>replay_unfold\<close> and \<open>replay_induct\<close> are the loop's equation and
  induction rule in these terms.
\<close>

fun record_step :: "kvmap \<Rightarrow> wal_record \<Rightarrow> kvmap option" where
  "record_step m (Single op k v) = (if snd (apply_op m op k v) then Some (fst (apply_op m op k v)) else None)"
| "record_step m (Batch es) = Some (apply_entries m es)"

lemma replay_unfold:
  "replay buf pos m =
    (case decode_record (drop pos buf) of
       None \<Rightarrow> (m, pos)
     | Some (n, r) \<Rightarrow>
        (case record_step m r of None \<Rightarrow> (m, pos) | Some m' \<Rightarrow> replay buf (pos + n) m'))"
proof (cases "pos < length buf")
  case True
  then show ?thesis
    by (subst replay.simps)
      (auto simp: apply_op.simps split: option.splits wal_record.splits)
next
  case False
  then have "decode_record (drop pos buf) = None"
    by (simp add: decode_record_def)
  with False show ?thesis by (simp add: replay.simps)
qed

lemma replay_induct:
  assumes "\<And>buf pos m. (\<And>n r m'. pos < length buf \<Longrightarrow> decode_record (drop pos buf) = Some (n, r) \<Longrightarrow>
    record_step m r = Some m' \<Longrightarrow> P buf (pos + n) m') \<Longrightarrow> P buf pos m"
  shows "P buf pos m"
proof (induction "length buf - pos" arbitrary: pos m rule: less_induct)
  case less
  show ?case
  proof (rule assms)
    fix n r m'
    assume "pos < length buf" "decode_record (drop pos buf) = Some (n, r)"
    then show "P buf (pos + n) m'"
      using decode_record_consumed [of "drop pos buf" n r] by (intro less) auto
  qed
qed

lemma replay_Some:
  "decode_record (drop pos buf) = Some (n, r) \<Longrightarrow> record_step m r = Some m' \<Longrightarrow>
    replay buf pos m = replay buf (pos + n) m'"
  by (simp add: replay_unfold [of buf pos])

lemma replay_stop:
  "decode_record (drop pos buf) = None \<or> record_step m (snd (the (decode_record (drop pos buf)))) = None
    \<Longrightarrow> replay buf pos m = (m, pos)"
  by (auto simp: replay_unfold [of buf pos] split: option.splits)

lemma replay_Nil [simp]: "replay [] pos m = (m, pos)"
  by (simp add: replay.simps)

lemma replay_cases:
  obtains (stop) "replay buf pos m = (m, pos)"
  | (go) n r m' where "pos + n \<le> length buf" "13 \<le> n" "decode_record (drop pos buf) = Some (n, r)"
      "record_step m r = Some m'" "replay buf pos m = replay buf (pos + n) m'" "pos < length buf"
proof (cases "decode_record (drop pos buf)")
  case None
  then show ?thesis using stop by (simp add: replay_stop)
next
  case (Some x)
  then obtain n r where rec: "decode_record (drop pos buf) = Some (n, r)" by (cases x) auto
  show ?thesis
  proof (cases "record_step m r")
    case None
    then show ?thesis using stop rec by (simp add: replay_stop)
  next
    case (Some m')
    with rec go [OF _ _ rec Some replay_Some [OF rec Some]] decode_record_consumed [OF rec]
    show ?thesis by auto
  qed
qed

lemma replay_pos_mono: "pos \<le> snd (replay buf pos m)"
proof (induction buf pos m rule: replay_induct)
  case (1 buf pos m)
  show ?case
  proof (cases rule: replay_cases [of buf pos m])
    case (go n r m')
    with 1 [OF go(6,3,4)] show ?thesis by simp
  qed simp
qed

lemma replay_advances:
  assumes "replay buf pos m = (m', pos)"
  shows "decode_record (drop pos buf) = None \<or>
    record_step m (snd (the (decode_record (drop pos buf)))) = None"
proof (rule ccontr)
  assume "\<not> ?thesis"
  then obtain n r m1 where rec: "decode_record (drop pos buf) = Some (n, r)"
    "record_step m r = Some m1" by auto
  then have "13 \<le> n" "replay buf (pos + n) m1 = (m', pos)"
    using decode_record_consumed replay_Some [OF rec] assms by auto
  with replay_pos_mono [of "pos + n" buf m1] show False by simp
qed

lemma replay_pos_le: "pos \<le> length buf \<Longrightarrow> snd (replay buf pos m) \<le> length buf"
proof (induction buf pos m rule: replay_induct)
  case (1 buf pos m)
  then show ?case
    by (cases rule: replay_cases [of buf pos m]) auto
qed

lemma replay_skip: "replay (pre @ buf) (length pre + pos) m = shift_pos (length pre) (replay buf pos m)"
proof (induction buf pos m rule: replay_induct)
  case (1 buf pos m)
  have eq: "decode_record (drop (length pre + pos) (pre @ buf)) = decode_record (drop pos buf)"
    by simp
  show ?case
  proof (cases rule: replay_cases [of buf pos m])
    case stop
    then have "replay (pre @ buf) (length pre + pos) m = (m, length pre + pos)"
      using replay_advances [of buf pos m] by (intro replay_stop) (auto simp: eq)
    with stop show ?thesis by simp
  next
    case (go n r m')
    have "replay (pre @ buf) (length pre + pos) m = replay (pre @ buf) (length pre + pos + n) m'"
      by (rule replay_Some [OF _ go(4)]) (simp add: go(3))
    with 1 [OF go(6,3,4)] go show ?thesis by (simp add: add.assoc)
  qed
qed

lemma replay_append:
  "replay buf pos m = (m', length buf) \<Longrightarrow> pos \<le> length buf \<Longrightarrow>
    replay (buf @ tail) pos m = shift_pos (length buf) (replay tail 0 m')"
proof (induction buf pos m rule: replay_induct)
  case (1 buf pos m)
  show ?case
  proof (cases rule: replay_cases [of buf pos m])
    case stop
    with "1.prems" have "pos = length buf" "m = m'" by auto
    then show ?thesis using replay_skip [of buf tail 0 m] by simp
  next
    case (go n r m1)
    then have "decode_record (drop pos (buf @ tail)) = Some (n, r)"
      using decode_record_stable by simp
    with "1.IH" [OF go(6,3,4)] "1.prems" go show ?thesis by (simp add: replay_Some)
  qed
qed

lemma replay_take:
  "replay buf pos m = (m', p) \<Longrightarrow> pos \<le> length buf \<Longrightarrow> replay (take p buf) pos m = (m', p)"
proof (induction buf pos m rule: replay_induct)
  case (1 buf pos m)
  show ?case
  proof (cases rule: replay_cases [of buf pos m])
    case stop
    with "1.prems" show ?thesis by (simp add: replay_stop decode_record_def)
  next
    case (go n r m1)
    then have "pos + n \<le> p"
      using "1.prems"(1) replay_pos_mono [of "pos + n" buf m1] by (metis snd_conv)
    then have "decode_record (drop pos (take p buf)) = Some (n, r)"
      using decode_record_take [OF go(3), of "p - pos"] by (simp add: drop_take)
    with "1.IH" [OF go(6,3,4)] "1.prems" go show ?thesis by (simp add: replay_Some)
  qed
qed

section \<open>Records as values\<close>

fun encode_wal_record :: "wal_record \<Rightarrow> bytes" where
  "encode_wal_record (Single op k v) = encode_record op k v"
| "encode_wal_record (Batch es) = encode_batch_record es"

fun apply_record :: "kvmap \<Rightarrow> wal_record \<Rightarrow> kvmap" where
  "apply_record m (Single op k v) = fst (apply_op m op k v)"
| "apply_record m (Batch es) = apply_entries m es"

text \<open>A record the format can hold: a known opcode and a payload length that fits in a \<open>u32\<close>.\<close>

fun record_ok :: "wal_record \<Rightarrow> bool" where
  "record_ok (Single op k v) \<longleftrightarrow> op \<in> {OP_PUT, OP_DELETE} \<and> 9 + length k + length v < 2 ^ 32"
| "record_ok (Batch es) \<longleftrightarrow> 5 + length (concat (map encode_entry es)) < 2 ^ 32"

lemma entries_ok_of_size:
  "length (concat (map encode_entry es)) < 2 ^ 32 \<Longrightarrow> list_all entry_ok es"
  by (induction es) (auto simp: entry_ok_def split: prod.splits)

lemma length_entries: "9 * length es \<le> length (concat (map encode_entry es))"
  by (induction es) auto

lemma record_roundtrip:
  assumes "record_ok r"
  shows "decode_record (encode_wal_record r @ rest) = Some (length (encode_wal_record r), r)"
proof (cases r)
  case (Single op k v)
  then have "entry_ok (op, k, v)" "encode_entry (op, k, v) ! 0 \<noteq> OP_BATCH"
    using assms by (auto simp: entry_ok_def encode_entry_def OP_PUT_def OP_DELETE_def OP_BATCH_def)
  then have "decode_payload (encode_entry (op, k, v)) = Some (Single op k v)"
    using wal_entries.dec_enc [of "(op, k, v)" "[]"] by (simp add: decode_payload_def)
  with Single assms show ?thesis
    by (simp add: encode_record_def decode_record_frame)
next
  case (Batch es)
  let ?p = "OP_BATCH # le_bytes 4 (length es) @ concat (map encode_entry es)"
  have "le_nat (le_bytes 4 (length es)) = length es"
    using assms Batch length_entries [of es] by (intro le_nat_le_bytes_lt) simp
  moreover have "list_all entry_ok es"
    using assms Batch by (intro entries_ok_of_size) simp
  ultimately have "decode_payload ?p = Some (Batch es)"
    using wal_entries.dec_times_enc [of es "[]"]
    by (simp add: decode_payload_def drop_Cons')
  with Batch assms show ?thesis
    by (simp add: encode_batch_record_def decode_record_frame)
qed

lemma record_torn:
  assumes "record_ok r" "n < length (encode_wal_record r)"
  shows "decode_record (take n (encode_wal_record r)) = None"
  using assms
  by (cases r) (auto simp: encode_record_def encode_batch_record_def intro!: decode_record_torn)

lemma replay_record:
  assumes "record_ok r"
  shows "replay (encode_wal_record r @ rest) 0 m
    = shift_pos (length (encode_wal_record r)) (replay rest 0 (apply_record m r))"
proof -
  let ?e = "encode_wal_record r"
  have "replay (?e @ rest) 0 m = replay (?e @ rest) (length ?e) (apply_record m r)"
  proof -
    have "?e \<noteq> []"
      using record_roundtrip [OF assms, of "[]"] decode_record_consumed by fastforce
    then show ?thesis
      using record_roundtrip [OF assms, of rest] assms
      by (intro replay_Some [of 0 _ "length ?e" r, simplified]) (cases r; auto simp: apply_op.simps)+
  qed
  then show ?thesis
    using replay_skip [of ?e rest 0] by simp
qed

lemma decode_payload_canonical:
  assumes "decode_payload p = Some r" "5 \<le> length p" "length p < 2 ^ 32"
  shows "(\<exists>op k v. r = Single op k v \<and> op \<noteq> OP_BATCH \<and> p = encode_entry (op, k, v))
    \<or> (\<exists>es. r = Batch es \<and> p = OP_BATCH # le_bytes 4 (length es) @ concat (map encode_entry es))"
proof (cases "p ! 0 = OP_BATCH")
  case True
  with assms(1) obtain es n where es: "dec_times decode_entry (le_nat (take 4 (drop 1 p))) (drop 5 p) = Some (es, n)"
    "5 + n = length p" "r = Batch es"
    by (auto simp: decode_payload_def split: option.splits if_splits)
  from wal_entries.dec_times_canonical [OF es(1)] dec_times_length [OF es(1)] have
    "length es = le_nat (take 4 (drop 1 p))" "take n (drop 5 p) = concat (map encode_entry es)" by auto
  moreover have "take n (drop 5 p) = drop 5 p" using es(2) by simp
  moreover have "le_bytes 4 (le_nat (take 4 (drop 1 p))) = take 4 (drop 1 p)"
    using assms(2) by (simp add: le_bytes_field)
  moreover have "p = p ! 0 # take 4 (drop 1 p) @ drop 5 p"
    using assms(2) by (cases p) (auto simp: numeral_eq_Suc)
  ultimately show ?thesis using True es(3) by simp
next
  case False
  with assms(1) obtain op k v where e: "decode_entry p = Some ((op, k, v), length p)" "r = Single op k v"
    by (auto simp: decode_payload_def split: option.splits if_splits)
  from decode_entry_canonical [OF e(1)] have p: "p = encode_entry (op, k, v)" by simp
  then have "op \<noteq> OP_BATCH" using False by (simp add: encode_entry_def)
  with e(2) p show ?thesis by auto
qed

lemma decode_record_canonical:
  assumes "decode_record buf = Some (n, r)" "record_step m r \<noteq> None"
  shows "record_ok r \<and> n = length (encode_wal_record r) \<and> take n buf = encode_wal_record r"
proof -
  define pl where "pl = le_nat (take 4 (drop 4 buf))"
  define p where "p = take pl (drop 8 buf)"
  from assms(1) have len: "8 + pl \<le> length buf" "5 \<le> pl" and n: "n = 8 + pl"
    and crc: "crc32 p = word_of_nat (le_nat (take 4 buf))" and r: "decode_payload p = Some r"
    by (auto simp: decode_record_def Let_def pl_def p_def split: if_splits)
  have pl: "pl < 2 ^ 32" "le_bytes 4 pl = take 4 (drop 4 buf)"
    using len le_nat_take_lt [of 4 "drop 4 buf"] by (simp_all add: pl_def le_bytes_field)
  have c: "le_bytes 4 (unat (crc32 p)) = take 4 buf"
    using len le_nat_take_lt [of 4 buf] by (simp add: crc unat_of_nat le_bytes_field)
  have lp: "length p = pl" using len by (simp add: p_def)
  have "n = 4 + (4 + pl)" by (simp add: n)
  then have "take n buf = take 4 buf @ take 4 (drop 4 buf) @ take pl (drop 8 buf)"
    by (simp only: take_add drop_drop) simp
  then have "take n buf = frame_payload p"
    by (simp add: frame_payload_def c lp pl(2) p_def [symmetric])
  with decode_payload_canonical [OF r] assms(2) len pl lp n show ?thesis
    by (auto simp: encode_record_def encode_batch_record_def apply_op.simps split: if_splits)
qed

lemma record_step_apply: "record_step m r = Some m' \<Longrightarrow> m' = apply_record m r"
  by (cases r) (auto split: if_splits)

lemma record_ok_step: "record_ok r \<Longrightarrow> record_step m r = Some (apply_record m r)"
  by (cases r) (auto simp: apply_op.simps)

definition starts_with_record :: "bytes \<Rightarrow> bool" where
  "starts_with_record buf \<longleftrightarrow> (\<exists>r rest. record_ok r \<and> buf = encode_wal_record r @ rest)"

text \<open>
  What the loop consumes, in terms of the encoder alone: a run of encoded records, applied in
  order, up to the first place where no complete record begins.
\<close>

lemma replay_records:
  "\<exists>rs. list_all record_ok rs \<and> replay buf pos m = (foldl apply_record m rs, pos + length (concat (map encode_wal_record rs)))
     \<and> prefix (concat (map encode_wal_record rs)) (drop pos buf)
     \<and> \<not> starts_with_record (drop (pos + length (concat (map encode_wal_record rs))) buf)"
proof (induction buf pos m rule: replay_induct)
  case (1 buf pos m)
  show ?case
  proof (cases rule: replay_cases [of buf pos m])
    case stop
    have "\<not> starts_with_record (drop pos buf)"
    proof
      assume "starts_with_record (drop pos buf)"
      then obtain r rest where r: "record_ok r" "drop pos buf = encode_wal_record r @ rest"
        by (auto simp: starts_with_record_def)
      from replay_advances [OF stop] record_roundtrip [OF r(1), of rest] record_ok_step [OF r(1), of m] r(2)
      show False by simp
    qed
    with stop show ?thesis by (intro exI [of _ "[]"]) simp
  next
    case (go n r m')
    from decode_record_canonical [OF go(3), of m] go(4) have r: "record_ok r"
      "n = length (encode_wal_record r)" "take n (drop pos buf) = encode_wal_record r" by auto
    from 1 [OF go(6,3,4)] obtain rs where rs: "list_all record_ok rs"
      "replay buf (pos + n) m' = (foldl apply_record m' rs, pos + n + length (concat (map encode_wal_record rs)))"
      "prefix (concat (map encode_wal_record rs)) (drop (pos + n) buf)"
      "\<not> starts_with_record (drop (pos + n + length (concat (map encode_wal_record rs))) buf)" by auto
    have "drop pos buf = encode_wal_record r @ drop (pos + n) buf"
      using append_take_drop_id [of n "drop pos buf"] r(3) by (simp add: add.commute)
    with rs r go record_step_apply [OF go(4)] show ?thesis
      by (intro exI [of _ "r # rs"]) (auto simp: add.assoc add.commute)
  qed
qed

section \<open>The log invariant\<close>

text \<open>The log replays completely, to exactly the in-memory table.\<close>

definition storage_inv :: "storage \<Rightarrow> bool" where
  "storage_inv s \<longleftrightarrow> st_live s \<and> bt_wf (st_map s)
     \<and> replay (st_wal s) 0 [] = (st_map s, length (st_wal s))"

lemma apply_op_wf [wf_intros]: "bt_wf m \<Longrightarrow> bt_wf (fst (apply_op m op k v))"
  by (simp add: apply_op.simps wf_intros)

lemma apply_entries_wf [wf_intros]: "bt_wf m \<Longrightarrow> bt_wf (apply_entries m es)"
  unfolding apply_entries_def
  by (induction es arbitrary: m) (auto intro: wf_intros)

lemma record_step_wf: "bt_wf m \<Longrightarrow> record_step m r = Some m' \<Longrightarrow> bt_wf m'"
  by (cases r) (auto intro: wf_intros split: if_splits)

lemma replay_wf: "bt_wf m \<Longrightarrow> bt_wf (fst (replay buf pos m))"
proof (induction buf pos m rule: replay_induct)
  case (1 buf pos m)
  show ?case
  proof (cases rule: replay_cases [of buf pos m])
    case (go n r m')
    with "1.IH" [OF go(6,3,4)] "1.prems" record_step_wf show ?thesis by simp
  qed (simp add: "1.prems")
qed

lemma storage_open_Ok:
  "storage_open (Ok buf) = Ok \<lparr>st_map = fst (replay buf 0 []),
     st_wal = take (snd (replay buf 0 [])) buf, st_live = True\<rparr>"
  using replay_pos_le [of 0 buf "[]"]
  by (auto simp: storage_open_def split: prod.splits)

lemma storage_open_inv:
  assumes "storage_open contents = Ok s"
  shows "storage_inv s"
proof -
  obtain buf where "contents = Ok buf"
    using assms by (cases contents) (simp_all add: storage_open_def)
  moreover obtain m p where r: "replay buf 0 [] = (m, p)" by fastforce
  ultimately have s: "s = \<lparr>st_map = m, st_wal = take p buf, st_live = True\<rparr>"
    using assms by (simp add: storage_open_Ok)
  have "p \<le> length buf"
    using replay_pos_le [of 0 buf "[]"] r by simp
  then show ?thesis
    using replay_take [OF r] replay_wf [of "[]" buf 0] r by (simp add: storage_inv_def s)
qed

lemma storage_open_clean: "storage_inv s \<Longrightarrow> storage_open (Ok (st_wal s)) = Ok s"
  by (simp add: storage_open_Ok storage_inv_def)

lemma replay_log_append:
  assumes "storage_inv s" "record_ok r"
  shows "replay (st_wal s @ encode_wal_record r) 0 []
    = (apply_record (st_map s) r, length (st_wal s @ encode_wal_record r))"
  using assms replay_append [of "st_wal s" 0 "[]" "st_map s" "encode_wal_record r"]
    replay_record [of r "[]" "st_map s"]
  by (simp add: storage_inv_def)

lemma replay_log_torn:
  assumes "storage_inv s" "record_ok r" "n < length (encode_wal_record r)"
  shows "replay (st_wal s @ take n (encode_wal_record r)) 0 [] = (st_map s, length (st_wal s))"
  using assms replay_append [of "st_wal s" 0 "[]" "st_map s" "take n (encode_wal_record r)"]
    replay_stop [of 0 "take n (encode_wal_record r)" "st_map s"] record_torn [of r n]
  by (simp add: storage_inv_def)

text \<open>Every mutation of the store writes one log record and applies it to the table.\<close>

definition log_write ::
  "io_outcome \<Rightarrow> storage \<Rightarrow> wal_record \<Rightarrow> storage \<times> (storage_error, unit) result" where
  "log_write io s r =
    (case write_wal io s (encode_wal_record r) of
       (s', Err e) \<Rightarrow> (s', Err e)
     | (s', Ok _) \<Rightarrow> (s'\<lparr>st_map := apply_record (st_map s') r\<rparr>, Ok ()))"

definition batch_record :: "batch \<Rightarrow> wal_record" where
  "batch_record b = (case b of [(op, k, v)] \<Rightarrow> Single op k v | _ \<Rightarrow> Batch b)"

lemma storage_put_log: "storage_put io s k v = log_write io s (Single OP_PUT k v)"
  by (simp add: storage_put_def storage_append_def log_write_def apply_op.simps
      split: prod.splits result.splits)

lemma storage_delete_log: "storage_delete io s k = log_write io s (Single OP_DELETE k [])"
  by (simp add: storage_delete_def storage_append_def log_write_def apply_op.simps
      OP_PUT_def OP_DELETE_def split: prod.splits result.splits)

lemma storage_commit_log:
  "storage_commit io s b = (if b = [] then (s, Ok ()) else log_write io s (batch_record b))"
  by (auto simp: storage_commit_def storage_append_def log_write_def batch_record_def
      split: list.splits)

lemma apply_batch_record: "apply_record m (batch_record b) = apply_entries m b"
  by (auto simp: batch_record_def apply_entries_def split: list.splits)

definition batch_ok :: "batch \<Rightarrow> bool" where
  "batch_ok b \<longleftrightarrow> (\<forall>(op, k, v) \<in> set b. op \<in> {OP_PUT, OP_DELETE})
     \<and> 5 + length (concat (map encode_entry b)) < 2 ^ 32"

lemma batch_record_ok: "batch_ok b \<Longrightarrow> record_ok (batch_record b)"
  by (auto simp: batch_ok_def batch_record_def split: list.splits)

text \<open>
  What a write leaves behind: with every outcome of its I/O, the file recovers to the table
  before or after the record; after a successful write, the invariant holds for the new table.
\<close>

lemma log_write_ok:
  assumes "storage_inv s" "record_ok r"
  shows "log_write Io_ok s r =
      (s\<lparr>st_map := apply_record (st_map s) r, st_wal := st_wal s @ encode_wal_record r\<rparr>, Ok ())"
    and "storage_inv (fst (log_write Io_ok s r))"
proof -
  show eq: "log_write Io_ok s r =
      (s\<lparr>st_map := apply_record (st_map s) r, st_wal := st_wal s @ encode_wal_record r\<rparr>, Ok ())"
    using assms(1) by (simp add: log_write_def write_wal_def storage_inv_def)
  have "bt_wf (apply_record (st_map s) r)"
    using assms(1) by (cases r) (auto simp: storage_inv_def intro: wf_intros)
  then show "storage_inv (fst (log_write Io_ok s r))"
    using assms replay_log_append [OF assms] by (simp add: eq storage_inv_def)
qed

lemma log_write_recovery:
  assumes "storage_inv s" "record_ok r" "log_write io s r = (s', res)"
  shows "\<exists>t. storage_open (Ok (st_wal s')) = Ok t \<and> storage_inv t
    \<and> (st_map t = st_map s \<or> st_map t = apply_record (st_map s) r)
    \<and> (res = Ok () \<longrightarrow> st_map t = apply_record (st_map s) r \<and> st_map s' = st_map t)
    \<and> (res \<noteq> Ok () \<longrightarrow> st_map s' = st_map s)"
proof -
  let ?e = "encode_wal_record r"
  obtain n where n: "st_wal s' = st_wal s @ take n ?e" and full: "res = Ok () \<Longrightarrow> take n ?e = ?e"
    using assms(1,3)
    by (cases io) (auto simp: log_write_def write_wal_def storage_inv_def intro: that [of "length ?e"] that)
  have maps: "st_map s' = (if res = Ok () then apply_record (st_map s) r else st_map s)"
    using assms(1,3) by (cases io) (auto simp: log_write_def write_wal_def storage_inv_def)
  have "fst (replay (st_wal s') 0 []) =
      (if n < length ?e then st_map s else apply_record (st_map s) r)"
    using replay_log_torn [OF assms(1,2), of n] replay_log_append [OF assms(1,2)] by (simp add: n)
  moreover have "n < length ?e \<Longrightarrow> res \<noteq> Ok ()"
    using full by (auto dest: arg_cong [where f = length])
  ultimately show ?thesis
    using storage_open_inv [of "Ok (st_wal s')"] maps by (auto simp: storage_open_Ok)
qed

section \<open>Prefix scans\<close>

lemma prefix_between:
  fixes p :: "'a::linorder list"
  shows "p \<le> k \<Longrightarrow> k \<le> k' \<Longrightarrow> prefix p k' \<Longrightarrow> prefix p k"
proof (induction p arbitrary: k k')
  case Nil
  then show ?case by simp
next
  case (Cons a p)
  then obtain b l c l' where k: "k = b # l" "k' = c # l'"
    by (cases k; cases k') auto
  with Cons.prems have "a = c" "prefix p l'" "a < b \<or> a = b \<and> p \<le> l" "b < c \<or> b = c \<and> l \<le> l'"
    by auto
  with Cons.IH [of l l'] k show ?case by auto
qed

lemma prefix_imp_ge: "prefix p k \<Longrightarrow> (p :: 'a::linorder list) \<le> k"
  by (induction p arbitrary: k) (auto simp: prefix_def)

lemma takeWhile_prefix:
  fixes m :: "('a::linorder list \<times> 'b) list"
  assumes "bt_wf m" "\<And>e. e \<in> set m \<Longrightarrow> p \<le> fst e"
  shows "takeWhile (\<lambda>e. prefix p (fst e)) m = filter (\<lambda>e. prefix p (fst e)) m"
  using assms
proof (induction m)
  case Nil
  then show ?case by simp
next
  case (Cons e m)
  show ?case
  proof (cases "prefix p (fst e)")
    case True
    with Cons show ?thesis by (simp add: bt_wf_Cons)
  next
    case False
    have "\<not> prefix p (fst x)" if "x \<in> set m" for x
      using prefix_between [of p "fst e" "fst x"] that False Cons.prems(1) Cons.prems(2) [of e]
      by (auto simp: bt_wf_Cons intro: less_imp_le)
    with False show ?thesis by (simp add: filter_False)
  qed
qed

lemma scan_prefix_filter:
  assumes "bt_wf (st_map s)"
  shows "storage_scan_prefix s p = filter (\<lambda>(k, v). prefix p k) (st_map s)"
proof -
  let ?m = "bt_range p (st_map s)"
  have m: "?m = filter (\<lambda>e. \<not> fst e < p) (st_map s)"
    by (rule bt_range_filter [OF assms])
  have "bt_wf ?m"
    using assms unfolding m by (simp add: bt_wf_def sorted_wrt_map sorted_wrt_filter)
  then have "takeWhile (\<lambda>e. prefix p (fst e)) ?m = filter (\<lambda>e. prefix p (fst e)) ?m"
    by (rule takeWhile_prefix) (auto simp: m)
  also have "\<dots> = filter (\<lambda>e. prefix p (fst e)) (st_map s)"
    unfolding m filter_filter by (rule filter_cong) (auto dest: prefix_imp_ge)
  finally show ?thesis by (simp add: storage_scan_prefix_def case_prod_unfold)
qed

section \<open>Sizes and compaction\<close>

definition pairs_ok :: "(bytes \<times> bytes) list \<Rightarrow> bool" where
  "pairs_ok m \<longleftrightarrow> (\<forall>(k, v) \<in> set m. 9 + length k + length v < 2 ^ 32)"

lemma decode_payload_sizes:
  assumes "decode_payload p = Some r" "length p < 2 ^ 32"
  shows "case r of Single op k v \<Rightarrow> 9 + length k + length v < 2 ^ 32
    | Batch es \<Rightarrow> \<forall>(op, k, v) \<in> set es. 9 + length k + length v < 2 ^ 32"
proof (cases r)
  case (Single op k v)
  then have "decode_entry p = Some ((op, k, v), length p)"
    using assms(1) by (auto simp: decode_payload_def split: if_splits option.splits prod.splits)
  from wal_entries.dec_canonical [OF this] have "length p = 9 + length k + length v"
    by (metis length_encode_entry take_all order_refl)
  with Single assms(2) show ?thesis by simp
next
  case (Batch es)
  then obtain q where "dec_times decode_entry (le_nat (take 4 (drop 1 p))) (drop 5 p) = Some (es, q)"
    using assms(1) by (auto simp: decode_payload_def split: if_splits option.splits prod.splits)
  from wal_entries.dec_times_canonical [OF this]
  have "length (concat (map encode_entry es)) \<le> length p"
    by (metis diff_le_self dual_order.trans length_drop length_take min.cobounded1)
  moreover have "length (encode_entry e) \<le> length (concat (map encode_entry es))" if "e \<in> set es" for e
    using that by (induction es) auto
  ultimately show ?thesis
    using Batch assms(2) by fastforce
qed

lemma decode_record_sizes:
  assumes "decode_record buf = Some (n, r)" "pairs_ok m" "record_step m r = Some m'"
  shows "pairs_ok m'"
proof -
  have entries: "pairs_ok (apply_entries m es)"
    if "pairs_ok m" "\<forall>(op, k, v) \<in> set es. 9 + length k + length v < 2 ^ 32" for es m
    using that
  proof (induction es arbitrary: m)
    case Nil
    then show ?case by (simp add: apply_entries_def)
  next
    case (Cons e es)
    obtain op k v where e: "e = (op, k, v)" by (cases e)
    have "pairs_ok (fst (apply_op m op k v))"
      using Cons.prems e set_bt_insert [of k v m]
      by (auto simp: pairs_ok_def apply_op.simps bt_remove_def)
    with Cons.IH [of "fst (apply_op m op k v)"] Cons.prems e show ?case
      by (simp add: apply_entries_def)
  qed
  let ?p = "take (le_nat (take 4 (drop 4 buf))) (drop 8 buf)"
  have "decode_payload ?p = Some r"
    using assms(1) by (auto simp: decode_record_def Let_def split: if_splits)
  moreover have "length ?p < 2 ^ 32"
    using le_nat_take_lt [of 4 "drop 4 buf"] by (simp add: min_less_iff_disj)
  ultimately have "case r of Single op k v \<Rightarrow> 9 + length k + length v < 2 ^ 32
    | Batch es \<Rightarrow> \<forall>(op, k, v) \<in> set es. 9 + length k + length v < 2 ^ 32"
    by (rule decode_payload_sizes)
  then show ?thesis
    using assms(2,3) entries [of m "[(op, k, v)]" for op k v] entries
    by (cases r) (auto simp: apply_entries_def split: if_splits)
qed

lemma replay_pairs_ok: "pairs_ok m \<Longrightarrow> pairs_ok (fst (replay buf pos m))"
proof (induction buf pos m rule: replay_induct)
  case (1 buf pos m)
  show ?case
  proof (cases rule: replay_cases [of buf pos m])
    case (go n r m')
    with "1.IH" [OF go(6,3,4)] "1.prems" decode_record_sizes [OF go(3) _ go(4)] show ?thesis by simp
  qed (simp add: "1.prems")
qed

lemma storage_inv_pairs_ok: "storage_inv s \<Longrightarrow> pairs_ok (st_map s)"
  using replay_pairs_ok [of "[]" "st_wal s" 0] by (simp add: storage_inv_def pairs_ok_def)

lemma replay_snapshot:
  "pairs_ok ps \<Longrightarrow> replay (write_snapshot ps) 0 m
    = (foldl (\<lambda>m (k, v). bt_insert k v m) m ps, length (write_snapshot ps))"
proof (induction ps arbitrary: m)
  case Nil
  then show ?case by (simp add: write_snapshot_def)
next
  case (Cons e ps)
  obtain k v where e: "e = (k, v)" by (cases e)
  have "record_ok (Single OP_PUT k v)"
    using Cons.prems by (auto simp: pairs_ok_def e)
  from replay_record [OF this, of "write_snapshot ps" m] Cons e show ?case
    by (simp add: write_snapshot_def pairs_ok_def apply_op.simps)
qed

lemma snapshot_replays:
  assumes "pairs_ok m" "bt_wf m"
  shows "replay (write_snapshot m) 0 [] = (m, length (write_snapshot m))"
  using replay_snapshot [OF assms(1), of "[]"] bt_collect_id [OF assms(2)]
  by (simp add: bt_collect_def)

lemma storage_compact_ok:
  assumes "storage_inv s"
  shows "storage_inv (s\<lparr>st_wal := snapshot_to s, st_live := True\<rparr>)"
  using assms snapshot_replays [OF storage_inv_pairs_ok [OF assms]]
  by (simp add: storage_inv_def snapshot_to_def)

section \<open>Histories of a store\<close>

text \<open>
  The abstract specification of the store is a partial map. \<open>storage_history s m\<close> relates a
  store to the map its clients expect after any sequence of successful operations, reopenings,
  compactions and crashes: a crash writes the first \<open>n\<close> bytes of a batch record and reopens the
  file, and the expected map changes only when the whole record reached the file.
\<close>

fun spec_op :: "(bytes \<rightharpoonup> bytes) \<Rightarrow> wal_entry \<Rightarrow> (bytes \<rightharpoonup> bytes)" where
  "spec_op m (op, k, v) = (if op = OP_PUT then m(k \<mapsto> v) else if op = OP_DELETE then m(k := None) else m)"

definition spec_batch :: "(bytes \<rightharpoonup> bytes) \<Rightarrow> batch \<Rightarrow> (bytes \<rightharpoonup> bytes)" where
  "spec_batch m b = foldl spec_op m b"

inductive storage_history :: "storage \<Rightarrow> (bytes \<rightharpoonup> bytes) \<Rightarrow> bool" where
  created: "storage_open (Ok []) = Ok s \<Longrightarrow> storage_history s Map.empty"
| put: "storage_history s m \<Longrightarrow> record_ok (Single OP_PUT k v) \<Longrightarrow>
    storage_put Io_ok s k v = (s', Ok ()) \<Longrightarrow> storage_history s' (m(k \<mapsto> v))"
| delete: "storage_history s m \<Longrightarrow> record_ok (Single OP_DELETE k []) \<Longrightarrow>
    storage_delete Io_ok s k = (s', Ok ()) \<Longrightarrow> storage_history s' (m(k := None))"
| commit: "storage_history s m \<Longrightarrow> batch_ok b \<Longrightarrow>
    storage_commit Io_ok s b = (s', Ok ()) \<Longrightarrow> storage_history s' (spec_batch m b)"
| compact: "storage_history s m \<Longrightarrow>
    storage_compact Compact_ok s = (s', Ok ()) \<Longrightarrow> storage_history s' m"
| reopen: "storage_history s m \<Longrightarrow>
    storage_open (Ok (st_wal s)) = Ok s' \<Longrightarrow> storage_history s' m"
| crash: "storage_history s m \<Longrightarrow> batch_ok b \<Longrightarrow> b \<noteq> [] \<Longrightarrow>
    storage_open (Ok (st_wal s @ take n (encode_wal_record (batch_record b)))) = Ok s' \<Longrightarrow>
    storage_history s' (if n < length (encode_wal_record (batch_record b)) then m else spec_batch m b)"

lemma map_of_apply_op: "map_of (fst (apply_op m op k v)) = spec_op (map_of m) (op, k, v)"
  by (simp add: apply_op.simps)

lemma map_of_apply_entries: "map_of (apply_entries m b) = spec_batch (map_of m) b"
  unfolding apply_entries_def spec_batch_def
  by (induction b arbitrary: m) (auto simp: map_of_apply_op simp del: spec_op.simps)

lemma storage_history_inv:
  "storage_history s m \<Longrightarrow> storage_inv s \<and> map_of (st_map s) = m"
proof (induction rule: storage_history.induct)
  case (created s)
  then show ?case
    using storage_open_inv [OF created] by (auto simp: storage_open_Ok)
next
  case (put s m k v s')
  then show ?case
    using log_write_ok [of s "Single OP_PUT k v"]
    by (auto simp: storage_put_log map_of_apply_op OP_PUT_def simp del: record_ok.simps)
next
  case (delete s m k s')
  then show ?case
    using log_write_ok [of s "Single OP_DELETE k []"]
    by (auto simp: storage_delete_log map_of_apply_op OP_PUT_def OP_DELETE_def simp del: record_ok.simps)
next
  case (commit s m b s')
  then show ?case
    using log_write_ok [of s "batch_record b"] batch_record_ok [of b]
    by (auto simp: storage_commit_log apply_batch_record map_of_apply_entries spec_batch_def
        split: if_splits)
next
  case (compact s m s')
  then show ?case
    using storage_compact_ok [of s] by (auto simp: storage_compact_def)
next
  case (reopen s m s')
  then show ?case
    using storage_open_clean [of s] by auto
next
  case (crash s m b n s')
  let ?e = "encode_wal_record (batch_record b)"
  have ok: "storage_inv s" "record_ok (batch_record b)"
    using crash batch_record_ok by auto
  have "st_map s' = (if n < length ?e then st_map s else apply_entries (st_map s) b)"
    using crash.hyps(4) replay_log_torn [OF ok, of n] replay_log_append [OF ok]
    by (auto simp: storage_open_Ok apply_batch_record)
  then show ?case
    using crash storage_open_inv [OF crash.hyps(4)] by (simp add: map_of_apply_entries)
qed

section \<open>The store as a backend\<close>

lemma map_of_filter_prefix:
  "map_of (filter (\<lambda>(k, v). prefix p k) m) = restrict_prefix (map_of m) p"
  by (induction m) (auto simp: restrict_prefix_def fun_eq_iff)

lemma filter_prefix_wf: "bt_wf m \<Longrightarrow> bt_wf (filter (\<lambda>(k, v). prefix p k) m)"
  by (simp add: bt_wf_def sorted_wrt_map sorted_wrt_filter)

lemma storage_commit_view:
  assumes "storage_inv s" "batch_ok b"
  shows "\<exists>s'. storage_commit Io_ok s b = (s', Ok ()) \<and> storage_inv s'
    \<and> st_map s' = apply_entries (st_map s) b"
  using assms log_write_ok [OF assms(1) batch_record_ok [OF assms(2)]]
  by (auto simp: storage_commit_log apply_batch_record apply_entries_def)

interpretation local_backend: kv_backend storage_inv "\<lambda>s. map_of (st_map s)" "\<lambda>_. True" "\<lambda>_. True"
  "\<lambda>s k. Ok (storage_get s k)" "\<lambda>s p. Ok (storage_scan_prefix s p)" "\<lambda>s. Ok (storage_dump s)"
  "storage_commit Io_ok" batch_ok "\<lambda>b m. spec_batch m b"
proof unfold_locales
  fix s b
  assume "storage_inv s" "batch_ok b"
  from storage_commit_view [OF this]
  show "\<exists>s'. storage_commit Io_ok s b = (s', Ok ()) \<and> storage_inv s'
      \<and> map_of (st_map s') = spec_batch (map_of (st_map s)) b"
    by (auto simp: map_of_apply_entries)
qed (auto simp: storage_get_def storage_dump_def storage_inv_def scan_prefix_filter
    map_of_filter_prefix filter_prefix_wf)

lemma commit_recovery:
  assumes "storage_inv s" and "batch_ok b" and "storage_commit io s b = (s', res)"
  shows "\<exists>t. storage_open (Ok (st_wal s')) = Ok t \<and> storage_inv t
    \<and> (st_map t = st_map s \<or> st_map t = apply_entries (st_map s) b)
    \<and> (res = Ok () \<longrightarrow> st_map t = apply_entries (st_map s) b \<and> st_map s' = st_map t)
    \<and> (res \<noteq> Ok () \<longrightarrow> st_map s' = st_map s)"
proof (cases "b = []")
  case True
  with assms storage_open_clean [OF assms(1)] show ?thesis
    by (auto simp: storage_commit_log apply_entries_def)
next
  case False
  with assms(3) have "log_write io s (batch_record b) = (s', res)"
    by (simp add: storage_commit_log)
  from log_write_recovery [OF assms(1) batch_record_ok [OF assms(2)] this] show ?thesis
    by (simp add: apply_batch_record)
qed

section \<open>Properties of the storage engine\<close>

definition empty_store :: storage where
  "empty_store = \<lparr>st_map = [], st_wal = [], st_live = True\<rparr>"

lemma empty_store_inv: "storage_inv empty_store"
  by (simp add: storage_inv_def empty_store_def)

lemma history_witness:
  "storage_history (fst (storage_put Io_ok empty_store [1] [2])) [[1] \<mapsto> [2]]"
proof -
  have "storage_history empty_store Map.empty"
    by (rule storage_history.created) (simp add: storage_open_Ok empty_store_def)
  moreover have "storage_put Io_ok empty_store [1] [2] =
      (fst (storage_put Io_ok empty_store [1] [2]), Ok ())"
    by (simp add: storage_put_def storage_append_def write_wal_def)
  ultimately show ?thesis
    by (intro storage_history.put [where m = Map.empty]) (simp_all add: OP_PUT_def)
qed

text \<open>C1: durability and refinement of the abstract map. Whatever sequence of successful puts,
  deletes, batch commits, compactions, reopenings and crashes produced a store, its lookups are
  those of the expected map, and reopening its file yields the very same table.\<close>

theorem storage_durability:
  assumes "storage_history s m"
  shows "storage_get s = m
    \<and> storage_open (Ok (st_wal s)) = Ok s
    \<and> set (storage_dump s) = {(k, v). m k = Some v}"
proof -
  from storage_history_inv [OF assms] have inv: "storage_inv s" and m: "map_of (st_map s) = m"
    by auto
  have "storage_open (Ok (st_wal s)) = Ok s"
    by (rule storage_open_clean [OF inv])
  moreover have "set (storage_dump s) = {(k, v). m k = Some v}"
    using inv m by (auto simp: storage_inv_def storage_dump_def bt_wf_mem_iff)
  ultimately show ?thesis
    using m by (auto simp: storage_get_def fun_eq_iff)
qed

theorem storage_durability_witness:
  "storage_get (fst (storage_put Io_ok empty_store [1] [2])) [1] = Some [2]"
  using storage_durability [OF history_witness] by (simp add: fun_eq_iff)

text \<open>C5: all-or-nothing commit. For every outcome of the write and the fsync of a commit, the
  file recovers to exactly the table before the batch or the table after the whole batch; if the
  commit returned \<open>Ok\<close> it is the latter and memory agrees with it, and if it returned an error
  the table in memory is unchanged.\<close>

theorem commit_all_or_nothing:
  assumes "storage_inv s" and "batch_ok b" and "storage_commit io s b = (s', res)"
  shows "\<exists>t. storage_open (Ok (st_wal s')) = Ok t \<and> storage_inv t
    \<and> (st_map t = st_map s \<or> st_map t = apply_entries (st_map s) b)
    \<and> (res = Ok () \<longrightarrow> st_map t = apply_entries (st_map s) b \<and> st_map s' = st_map t)
    \<and> (res \<noteq> Ok () \<longrightarrow> st_map s' = st_map s)"
  using assms by (rule commit_recovery)

theorem commit_all_or_nothing_witness:
  "\<exists>s' res t. storage_commit (Write_failed 5) empty_store [(OP_PUT, [1], [2]), (OP_DELETE, [3], [])] = (s', res)
    \<and> storage_open (Ok (st_wal s')) = Ok t \<and> storage_inv t"
proof -
  let ?b = "[(OP_PUT, [1], [2]), (OP_DELETE, [3], [])]"
  obtain s' res where c: "storage_commit (Write_failed 5) empty_store ?b = (s', res)"
    by fastforce
  have "batch_ok ?b" by (simp add: batch_ok_def)
  from commit_all_or_nothing [OF empty_store_inv this c] c show ?thesis by blast
qed

text \<open>C19: recovery from arbitrary bytes. Opening any file keeps exactly the longest run of
  complete records at its start: the bytes are the encodings of records \<open>rs\<close> followed by a rest at
  which no encoded record begins (torn, malformed, wrong checksum or unknown opcode), the log is cut
  back to the encodings of \<open>rs\<close>, the table is \<open>rs\<close> applied in order to the empty table, and opening
  the cut file again changes nothing. The reservation that \<open>decode_record\<close> makes for a batch's
  declared entry count is taken to be granted by the allocator.\<close>

theorem open_recovers_prefix:
  "\<exists>s rs rest. storage_open (Ok buf) = Ok s \<and> storage_inv s
     \<and> list_all record_ok rs \<and> buf = concat (map encode_wal_record rs) @ rest
     \<and> \<not> (\<exists>r tail. record_ok r \<and> rest = encode_wal_record r @ tail)
     \<and> st_wal s = concat (map encode_wal_record rs) \<and> st_map s = foldl apply_record [] rs
     \<and> storage_open (Ok (st_wal s)) = Ok s"
proof -
  from replay_records [of buf 0 "[]"] obtain rs where rs: "list_all record_ok rs"
    "replay buf 0 [] = (foldl apply_record [] rs, length (concat (map encode_wal_record rs)))"
    "prefix (concat (map encode_wal_record rs)) buf"
    "\<not> starts_with_record (drop (length (concat (map encode_wal_record rs))) buf)" by auto
  from rs(3) obtain rest where buf: "buf = concat (map encode_wal_record rs) @ rest"
    by (auto simp: prefix_def)
  let ?s = "\<lparr>st_map = foldl apply_record [] rs, st_wal = concat (map encode_wal_record rs), st_live = True\<rparr>"
  have s: "storage_open (Ok buf) = Ok ?s"
    by (simp add: storage_open_Ok rs(2)) (simp add: buf)
  have "\<not> (\<exists>r tail. record_ok r \<and> rest = encode_wal_record r @ tail)"
    using rs(4) by (simp add: buf starts_with_record_def)
  with rs(1) buf s storage_open_inv [OF s] storage_open_clean [OF storage_open_inv [OF s]] show ?thesis
    by (intro exI [of _ ?s] exI [of _ rs] exI [of _ rest]) simp
qed

text \<open>Prefix scans are exact. The range-and-take-while scan returns precisely the live pairs
  whose key starts with the prefix, in strictly ascending key order.\<close>

theorem scan_prefix_exact:
  assumes "storage_inv s"
  shows "storage_scan_prefix s p = filter (\<lambda>(k, v). prefix p k) (storage_dump s)
    \<and> sorted_wrt (<) (map fst (storage_scan_prefix s p))
    \<and> (\<forall>k v. (k, v) \<in> set (storage_scan_prefix s p) \<longleftrightarrow> prefix p k \<and> storage_get s k = Some v)"
proof -
  from assms have wf: "bt_wf (st_map s)" by (simp add: storage_inv_def)
  note eq = scan_prefix_filter [OF wf, of p]
  have "sorted_wrt (<) (map fst (storage_scan_prefix s p))"
    using wf unfolding eq by (simp add: bt_wf_def sorted_wrt_map sorted_wrt_filter)
  with wf show ?thesis
    by (auto simp: eq storage_dump_def storage_get_def bt_wf_mem_iff)
qed

theorem scan_prefix_exact_witness:
  "storage_scan_prefix empty_store [1] = filter (\<lambda>(k, v). prefix [1] k) (storage_dump empty_store)"
  using scan_prefix_exact [OF empty_store_inv, of "[1]"] by simp

text \<open>C20: compaction. A successful \<open>compact\<close> keeps the table and leaves a log that replays to
  it; a compaction that fails before the rename changes nothing; and the file a snapshot writes
  opens to the same table.\<close>

theorem compact_preserves:
  assumes "storage_inv s"
  shows "(\<exists>s'. storage_compact Compact_ok s = (s', Ok ()) \<and> st_map s' = st_map s
      \<and> storage_inv s' \<and> storage_open (Ok (st_wal s')) = Ok s')
    \<and> storage_compact Tmp_failed s = (s, Err Io)
    \<and> (\<exists>t. storage_open (Ok (snapshot_to s)) = Ok t \<and> st_map t = st_map s)"
proof (intro conjI)
  let ?s = "s\<lparr>st_wal := snapshot_to s, st_live := True\<rparr>"
  note inv = storage_compact_ok [OF assms]
  show "\<exists>s'. storage_compact Compact_ok s = (s', Ok ()) \<and> st_map s' = st_map s
      \<and> storage_inv s' \<and> storage_open (Ok (st_wal s')) = Ok s'"
    using inv storage_open_clean [OF inv] by (simp add: storage_compact_def)
  show "storage_compact Tmp_failed s = (s, Err Io)"
    by (simp add: storage_compact_def)
  show "\<exists>t. storage_open (Ok (snapshot_to s)) = Ok t \<and> st_map t = st_map s"
    using storage_open_clean [OF inv] by force
qed

theorem compact_preserves_witness:
  "\<exists>s'. storage_compact Compact_ok empty_store = (s', Ok ()) \<and> storage_inv s'"
  using compact_preserves [OF empty_store_inv] by blast

text \<open>The record format round-trips. Decoding the encoding of a single operation or of a
  batch, followed by arbitrary bytes, returns that record and its exact length.\<close>

theorem wal_record_roundtrip:
  "(op \<in> {OP_PUT, OP_DELETE} \<and> 9 + length k + length v < 2 ^ 32 \<longrightarrow>
     decode_record (encode_record op k v @ rest) = Some (length (encode_record op k v), Single op k v))
   \<and> (5 + length (concat (map encode_entry es)) < 2 ^ 32 \<longrightarrow>
     decode_record (encode_batch_record es @ rest) = Some (length (encode_batch_record es), Batch es))"
  using record_roundtrip [of "Single op k v" rest] record_roundtrip [of "Batch es" rest] by auto

theorem wal_record_roundtrip_witness:
  "decode_record (encode_record OP_PUT [1] [2] @ [9]) = Some (19, Single OP_PUT [1] [2])"
  using wal_record_roundtrip [of OP_PUT "[1]" "[2]" "[9]" "[]"]
  by (simp add: encode_record_def)

text \<open>The table-driven checksum computes CRC-32. It equals the bit-serial shift register
  over the message bits, least significant bit first.\<close>

theorem crc32_table_driven: "crc32 data = crc32_serial data"
proof -
  have "foldl crc_update c data = foldl crc_bit c (concat (map byte_bits data))" for c
    by (induction data arbitrary: c) (simp_all add: crc_update_serial)
  then show ?thesis by (simp add: crc32_def crc32_serial_def)
qed

text \<open>C39: a failed write poisons the log. Let a \<open>put\<close> fail after at least the record's header, but
  not the whole record, has reached the file, and let a later \<open>put\<close> succeed. It returns \<open>Ok\<close> and is
  visible in memory, yet it is lost when the store is reopened: the torn bytes stay in the file, and
  replay reads the torn record's length and checksum against the torn payload continued by the later
  record. The one escape is that those mixed bytes are as long as the torn payload and happen to have
  its checksum.\<close>

theorem failed_write_loses_later_put:
  assumes "storage_inv s" and "9 + length k + length v < 2 ^ 32"
    and "storage_put (Write_failed n) s k v = (s1, r1)"
    and "8 \<le> n" and "n < length (encode_record OP_PUT k v)"
    and "storage_put Io_ok s1 k' v' = (s2, r2)"
    and "n + length (encode_record OP_PUT k' v') < length (encode_record OP_PUT k v)
      \<or> crc32 (take (9 + length k + length v)
            (take (n - 8) (encode_entry (OP_PUT, k, v)) @ encode_record OP_PUT k' v'))
          \<noteq> crc32 (encode_entry (OP_PUT, k, v))"
  shows "r1 = Err Io \<and> r2 = Ok () \<and> storage_get s2 k' = Some v'
    \<and> (\<exists>t. storage_open (Ok (st_wal s2)) = Ok t \<and> storage_get t = storage_get s)"
proof -
  let ?torn = "take n (encode_record OP_PUT k v) @ encode_record OP_PUT k' v'"
  have s1: "s1 = s\<lparr>st_wal := st_wal s @ take n (encode_record OP_PUT k v)\<rparr>" "r1 = Err Io"
    using assms(1,3) by (auto simp: storage_put_def storage_append_def write_wal_def storage_inv_def)
  then have s2: "s2 = s\<lparr>st_wal := st_wal s @ ?torn, st_map := bt_insert k' v' (st_map s)\<rparr>" "r2 = Ok ()"
    using assms(1,6) by (auto simp: storage_put_def storage_append_def write_wal_def storage_inv_def)
  have "decode_record ?torn = None"
    using assms(2,4,5,7) unfolding encode_record_def [of OP_PUT k v]
    by (intro decode_record_overlap) (simp_all add: encode_record_def)
  then have "replay (st_wal s @ ?torn) 0 [] = (st_map s, length (st_wal s))"
    using assms(1) replay_append [of "st_wal s" 0 "[]" "st_map s" ?torn] replay_stop [of 0 ?torn]
    by (simp add: storage_inv_def)
  with s1 s2 show ?thesis by (simp add: storage_open_Ok storage_get_def fun_eq_iff)
qed

theorem failed_write_loses_later_put_witness:
  "\<exists>s1 s2 t. storage_put (Write_failed 8) empty_store [1] (replicate 50 0) = (s1, Err Io)
    \<and> storage_put Io_ok s1 [2] [3] = (s2, Ok ())
    \<and> storage_open (Ok (st_wal s2)) = Ok t \<and> storage_get t [2] = None"
proof -
  obtain s1 r1 s2 r2 where c: "storage_put (Write_failed 8) empty_store [1] (replicate 50 0) = (s1, r1)"
    "storage_put Io_ok s1 [2] [3] = (s2, r2)" by fastforce
  have "r1 = Err Io \<and> r2 = Ok () \<and> storage_get s2 [2] = Some [3]
    \<and> (\<exists>t. storage_open (Ok (st_wal s2)) = Ok t \<and> storage_get t = storage_get empty_store)"
    by (rule failed_write_loses_later_put [OF empty_store_inv _ c(1) _ _ c(2)])
      (simp_all add: encode_record_def)
  moreover have "storage_get empty_store [2] = None"
    by (simp add: storage_get_def empty_store_def)
  ultimately show ?thesis
    using c by metis
qed

text \<open>A compaction whose reopening fails detaches the log. The in-memory store keeps
  accepting writes and returns \<open>Ok\<close>, but they go to the unlinked file: reopening the database
  sees none of them.\<close>

theorem compact_reopen_failure_loses_writes:
  assumes "storage_inv s" and "storage_compact Reopen_failed s = (s1, res)"
    and "storage_put Io_ok s1 k v = (s2, res')"
  shows "res' = Ok () \<and> storage_get s2 k = Some v
    \<and> (\<exists>t. storage_open (Ok (st_wal s2)) = Ok t \<and> storage_get t = storage_get s)"
proof -
  have s1: "s1 = s\<lparr>st_wal := snapshot_to s, st_live := False\<rparr>"
    using assms(2) by (simp add: storage_compact_def)
  then have s2: "s2 = s1\<lparr>st_map := bt_insert k v (st_map s)\<rparr>" "res' = Ok ()"
    using assms(3) by (auto simp: storage_put_def storage_append_def write_wal_def)
  have "storage_open (Ok (snapshot_to s)) = Ok (s\<lparr>st_wal := snapshot_to s, st_live := True\<rparr>)"
    using storage_open_clean [OF storage_compact_ok [OF assms(1)]] by simp
  with s1 s2 show ?thesis by (simp add: storage_get_def fun_eq_iff)
qed

theorem compact_reopen_failure_loses_writes_witness:
  "\<exists>s1 s2 t. storage_compact Reopen_failed empty_store = (s1, Err Io)
    \<and> storage_put Io_ok s1 [1] [2] = (s2, Ok ())
    \<and> storage_open (Ok (st_wal s2)) = Ok t \<and> storage_get t = storage_get empty_store"
proof -
  obtain s1 r1 s2 r2 where c: "storage_compact Reopen_failed empty_store = (s1, r1)"
    "storage_put Io_ok s1 [1] [2] = (s2, r2)" by fastforce
  from compact_reopen_failure_loses_writes [OF empty_store_inv c] c show ?thesis
    by (auto simp: storage_compact_def)
qed

end
