(* ===== verification/Net.thy ===== *)
theory Net
  imports Storage
begin

text \<open>
  The remote-storage protocol and replication, \<open>crates/ciphra-net/src/lib.rs\<close>: message codecs,
  the frame format and its size cap, the server's request handler with the replication fan-out,
  the client operations of \<open>RemoteStorage\<close>, and the follower's \<open>apply_record\<close>.

  The mutex-protected \<open>ServerState\<close> is passed explicitly; a subscriber is the receiving end of
  its channel: whether the receiver is still there and the messages sent to it so far. Errors are
  the code's message strings (the operating system's text of an I/O error is left out). A client
  round trip takes the outcome of the transport: delivered, request lost, or response lost after
  the server acted.
\<close>

section \<open>Codecs\<close>

definition MAX_FRAME :: nat where "MAX_FRAME = 256 * 1024 * 1024"

definition put_bytes :: "bytes \<Rightarrow> bytes" where
  "put_bytes b = le_bytes 4 (length b) @ b"

definition take_bytes :: "(string, bytes) parser" where
  "take_bytes buf =
    (if length buf < 4 then Err ''truncated length''
     else let len = le_nat (take 4 buf) in
       if length buf < 4 + len then Err ''truncated bytes''
       else Ok (take len (drop 4 buf), drop (4 + len) buf))"

definition take_u32 :: "(string, nat) parser" where
  "take_u32 buf =
    (if length buf < 4 then Err ''truncated u32'' else Ok (le_nat (take 4 buf), drop 4 buf))"

definition expect_empty :: "bytes \<Rightarrow> (string, unit) result" where
  "expect_empty rest = (if rest = [] then Ok () else Err ''trailing bytes in message'')"

definition protocol_error :: "string \<Rightarrow> storage_error" where
  "protocol_error message = Corrupt (''protocol error: '' @ message)"

fun map_err :: "('e \<Rightarrow> 'f) \<Rightarrow> ('e, 'a) result \<Rightarrow> ('f, 'a) result" where
  "map_err f (Ok x) = Ok x"
| "map_err f (Err e) = Err (f e)"

definition encode_pair :: "bytes \<times> bytes \<Rightarrow> bytes" where
  "encode_pair p = put_bytes (fst p) @ put_bytes (snd p)"

definition encode_pairs :: "(bytes \<times> bytes) list \<Rightarrow> bytes" where
  "encode_pairs pairs = le_bytes 4 (length pairs) @ concat (map encode_pair pairs)"

definition take_pair :: "(string, bytes \<times> bytes) parser" where
  "take_pair buf = rbind (take_bytes buf) (\<lambda>(key, after).
     rbind (take_bytes after) (\<lambda>(value, rest). Ok ((key, value), rest)))"

definition decode_pairs :: "bytes \<Rightarrow> (storage_error, (bytes \<times> bytes) list) result" where
  "decode_pairs body = map_err protocol_error
     (rbind (take_u32 body) (\<lambda>(count, rest).
      rbind (parse_times take_pair count rest) (\<lambda>(pairs, rest').
      rbind (expect_empty rest') (\<lambda>_. Ok pairs))))"

definition encode_batch_entry :: "bool \<times> bytes \<times> bytes \<Rightarrow> bytes" where
  "encode_batch_entry e = (case e of (is_delete, key, value) \<Rightarrow>
     of_bool is_delete # put_bytes key @ put_bytes value)"

definition encode_batch :: "batch \<Rightarrow> bytes" where
  "encode_batch b = le_bytes 4 (length b) @ concat (map encode_batch_entry (batch_entries b))"

definition take_batch_entry :: "(string, wal_entry) parser" where
  "take_batch_entry buf =
    (case buf of
       [] \<Rightarrow> Err ''truncated batch''
     | entry_op # after \<Rightarrow>
         rbind (take_pair after) (\<lambda>((key, value), rest).
           if entry_op = 0 then Ok ((OP_PUT, key, value), rest)
           else if entry_op = 1 then Ok ((OP_DELETE, key, []), rest)
           else Err ''bad batch entry''))"

definition decode_batch :: "bytes \<Rightarrow> (string, batch) result" where
  "decode_batch body =
     rbind (take_u32 body) (\<lambda>(count, rest).
     rbind (parse_times take_batch_entry count rest) (\<lambda>(b, rest').
     rbind (expect_empty rest') (\<lambda>_. Ok b)))"

definition write_frame :: "bytes \<Rightarrow> bytes" where
  "write_frame payload = le_bytes 4 (length payload) @ payload"

definition read_frame :: "bytes \<Rightarrow> (storage_error, bytes \<times> bytes) result" where
  "read_frame stream =
    (if length stream < 4 then Err Io
     else let len = le_nat (take 4 stream) in
       if len > MAX_FRAME then Err Io
       else if length stream < 4 + len then Err Io
       else Ok (take len (drop 4 stream), drop (4 + len) stream))"

section \<open>The server\<close>

record subscriber =
  sub_alive :: bool
  sub_queue :: "bytes list"

record server_state =
  sv_storage :: storage
  sv_read_only :: bool
  sv_seq :: u64
  sv_subscribers :: "subscriber list"

definition REC_SNAPSHOT :: byte where "REC_SNAPSHOT = 0"
definition REC_BATCH :: byte where "REC_BATCH = 1"

definition server_new :: "storage \<Rightarrow> bool \<Rightarrow> server_state" where
  "server_new s ro = \<lparr>sv_storage = s, sv_read_only = ro, sv_seq = 0, sv_subscribers = []\<rparr>"

definition repl_record :: "byte \<Rightarrow> u64 \<Rightarrow> bytes \<Rightarrow> bytes" where
  "repl_record kind seq body = kind # le_bytes 8 (unat seq) @ body"

text \<open>\<open>subscribers.retain(|tx| tx.send(msg.clone()).is_ok())\<close>\<close>

definition broadcast :: "bytes \<Rightarrow> subscriber list \<Rightarrow> subscriber list" where
  "broadcast msg subs =
     map (\<lambda>s. s\<lparr>sub_queue := sub_queue s @ [msg]\<rparr>) (filter sub_alive subs)"

definition replicate_batch :: "server_state \<Rightarrow> bytes \<Rightarrow> server_state" where
  "replicate_batch st entries =
    (let seq = sv_seq st + 1 in
     st\<lparr>sv_seq := seq,
        sv_subscribers := broadcast (repl_record REC_BATCH seq entries) (sv_subscribers st)\<rparr>)"

text \<open>Registering a follower: it receives the snapshot, then every later broadcast.\<close>

definition subscribe :: "server_state \<Rightarrow> server_state" where
  "subscribe st =
    (let snapshot = repl_record REC_SNAPSHOT (sv_seq st)
           (encode_pairs (storage_scan_prefix (sv_storage st) []))
     in st\<lparr>sv_subscribers := sv_subscribers st @ [\<lparr>sub_alive = True, sub_queue = [snapshot]\<rparr>]\<rparr>)"

definition OP_GET :: byte where "OP_GET = 1"
definition OP_SCAN :: byte where "OP_SCAN = 2"
definition OP_COMMIT :: byte where "OP_COMMIT = 3"
definition OP_DUMP :: byte where "OP_DUMP = 4"
definition OP_PUT_req :: byte where "OP_PUT_req = 5"
definition OP_DELETE_req :: byte where "OP_DELETE_req = 6"

fun storage_error_string :: "storage_error \<Rightarrow> string" where
  "storage_error_string Io = ''storage io error''"
| "storage_error_string (Corrupt msg) = ''storage corruption: '' @ msg"

text \<open>Apply a storage mutation and, when it succeeded, replicate its batch encoding.\<close>

definition mutate ::
  "server_state \<Rightarrow> storage \<times> (storage_error, unit) result \<Rightarrow> bytes \<Rightarrow> server_state \<times> (string, bytes) result"
where
  "mutate st res entries =
    (case res of
       (s', Err e) \<Rightarrow> (st\<lparr>sv_storage := s'\<rparr>, Err (storage_error_string e))
     | (s', Ok _) \<Rightarrow> (replicate_batch (st\<lparr>sv_storage := s'\<rparr>) entries, Ok []))"

definition handle_request ::
  "io_outcome \<Rightarrow> bytes \<Rightarrow> server_state \<Rightarrow> server_state \<times> (string, bytes) result" where
  "handle_request io request st =
    (case request of
       [] \<Rightarrow> (st, Err ''empty request'')
     | op # body \<Rightarrow>
        if op = OP_GET then
          (st, rbind (take_bytes body) (\<lambda>(key, rest). rbind (expect_empty rest) (\<lambda>_.
             case storage_get (sv_storage st) key of
               None \<Rightarrow> Ok [0]
             | Some value \<Rightarrow> Ok (1 # put_bytes value))))
        else if op = OP_SCAN then
          (st, rbind (take_bytes body) (\<lambda>(p, rest). rbind (expect_empty rest) (\<lambda>_.
             Ok (encode_pairs (storage_scan_prefix (sv_storage st) p)))))
        else if op = OP_DUMP then
          (st, rbind (expect_empty body) (\<lambda>_.
             Ok (encode_pairs (storage_scan_prefix (sv_storage st) []))))
        else if op = OP_PUT_req then
          (case rbind (take_pair body) (\<lambda>(kv, rest). rbind (expect_empty rest) (\<lambda>_. Ok kv)) of
             Err e \<Rightarrow> (st, Err e)
           | Ok (key, value) \<Rightarrow>
               if sv_read_only st then (st, Err ''server is a read-only replica'')
               else mutate st (storage_put io (sv_storage st) key value)
                      (encode_batch (batch_put [] key value)))
        else if op = OP_DELETE_req then
          (case rbind (take_bytes body) (\<lambda>(key, rest). rbind (expect_empty rest) (\<lambda>_. Ok key)) of
             Err e \<Rightarrow> (st, Err e)
           | Ok key \<Rightarrow>
               if sv_read_only st then (st, Err ''server is a read-only replica'')
               else mutate st (storage_delete io (sv_storage st) key)
                      (encode_batch (batch_delete [] key)))
        else if op = OP_COMMIT then
          (if sv_read_only st then (st, Err ''server is a read-only replica'')
           else case decode_batch body of
             Err e \<Rightarrow> (st, Err e)
           | Ok b \<Rightarrow> mutate st (storage_commit io (sv_storage st) b) (encode_batch b))
        else (st, Err (''unknown opcode '' @ show_nat (unat op))))"

section \<open>The client\<close>

definition STATUS_OK :: byte where "STATUS_OK = 0"
definition STATUS_ERR :: byte where "STATUS_ERR = 1"

definition serve_request :: "io_outcome \<Rightarrow> bytes \<Rightarrow> server_state \<Rightarrow> server_state \<times> bytes" where
  "serve_request io request st =
    (case handle_request io request st of
       (st', Ok ok) \<Rightarrow> (st', STATUS_OK # ok)
     | (st', Err message) \<Rightarrow> (st', STATUS_ERR # as_bytes message))"

text \<open>
  One request on a connection: a subscription registers the follower and turns the connection
  into a push stream (no response); anything else is answered.
\<close>

definition OP_SUBSCRIBE :: byte where "OP_SUBSCRIBE = 7"

definition connection_request :: "io_outcome \<Rightarrow> bytes \<Rightarrow> server_state \<Rightarrow> server_state \<times> bytes option" where
  "connection_request io request st =
    (case request of
       op # _ \<Rightarrow> if op = OP_SUBSCRIBE then (subscribe st, None)
                else map_prod id Some (serve_request io request st)
     | [] \<Rightarrow> map_prod id Some (serve_request io request st))"

datatype transport = Delivered | Request_lost | Response_lost

text \<open>What the environment does to one operation: the server's (or local) I/O and the transport.\<close>

record env =
  env_io :: io_outcome
  env_net :: transport

text \<open>
  A message goes out sealed, 16 bytes longer, and the receiving side's \<open>read_frame\<close> refuses a frame
  above the cap: the server then drops the connection before acting, the client fails after the
  server acted.
\<close>

definition frame_fits :: "bytes \<Rightarrow> bool" where
  "frame_fits msg \<longleftrightarrow> length msg + TAG_LEN \<le> MAX_FRAME"

definition roundtrip ::
  "env \<Rightarrow> server_state \<Rightarrow> bytes \<Rightarrow> server_state \<times> (storage_error, bytes) result" where
  "roundtrip env st request =
    (if env_net env = Request_lost \<or> \<not> frame_fits request then (st, Err Io)
     else case serve_request (env_io env) request st of (st', response) \<Rightarrow>
       (st', if env_net env = Response_lost \<or> \<not> frame_fits response then Err Io
             else case response of
               [] \<Rightarrow> Err (protocol_error ''empty response'')
             | status # body \<Rightarrow>
                 if status = STATUS_OK then Ok body
                 else Err (Corrupt (''server error: '' @ str_of_bytes body))))"

definition remote_get ::
  "env \<Rightarrow> server_state \<Rightarrow> bytes \<Rightarrow> server_state \<times> (storage_error, bytes option) result" where
  "remote_get env st key =
    (case roundtrip env st (OP_GET # put_bytes key) of (st', res) \<Rightarrow>
      (st', rbind res (\<lambda>response.
         case response of
           [] \<Rightarrow> Err (protocol_error ''short GET response'')
         | present # rest \<Rightarrow>
             if present = 0 then Ok None
             else rbind (map_err protocol_error (take_bytes rest)) (\<lambda>(value, rest').
                  rbind (map_err protocol_error (expect_empty rest')) (\<lambda>_. Ok (Some value))))))"

definition remote_scan_prefix ::
  "env \<Rightarrow> server_state \<Rightarrow> bytes \<Rightarrow> server_state \<times> (storage_error, (bytes \<times> bytes) list) result" where
  "remote_scan_prefix env st p =
    (case roundtrip env st (OP_SCAN # put_bytes p) of (st', res) \<Rightarrow> (st', rbind res decode_pairs))"

definition remote_dump ::
  "env \<Rightarrow> server_state \<Rightarrow> server_state \<times> (storage_error, (bytes \<times> bytes) list) result" where
  "remote_dump env st =
    (case roundtrip env st [OP_DUMP] of (st', res) \<Rightarrow> (st', rbind res decode_pairs))"

definition remote_put ::
  "env \<Rightarrow> server_state \<Rightarrow> bytes \<Rightarrow> bytes \<Rightarrow> server_state \<times> (storage_error, unit) result" where
  "remote_put env st key value =
    (case roundtrip env st (OP_PUT_req # put_bytes key @ put_bytes value) of (st', res) \<Rightarrow>
      (st', rbind res (\<lambda>_. Ok ())))"

definition remote_delete ::
  "env \<Rightarrow> server_state \<Rightarrow> bytes \<Rightarrow> server_state \<times> (storage_error, unit) result" where
  "remote_delete env st key =
    (case roundtrip env st (OP_DELETE_req # put_bytes key) of (st', res) \<Rightarrow>
      (st', rbind res (\<lambda>_. Ok ())))"

definition remote_commit ::
  "env \<Rightarrow> server_state \<Rightarrow> batch \<Rightarrow> server_state \<times> (storage_error, unit) result" where
  "remote_commit env st b =
    (case roundtrip env st (OP_COMMIT # encode_batch b) of (st', res) \<Rightarrow>
      (st', rbind res (\<lambda>_. Ok ())))"

section \<open>The follower\<close>

datatype follow_event = Snapshot u64 nat | Applied u64 nat

definition apply_repl_record ::
  "io_outcome \<Rightarrow> bytes \<Rightarrow> server_state \<Rightarrow> server_state \<times> (storage_error, follow_event) result" where
  "apply_repl_record io msg st =
    (case msg of
       [] \<Rightarrow> (st, Err Io)
     | kind # rest \<Rightarrow>
        if length rest < 8 then (st, Err Io)
        else
          let seq = word_of_nat (le_nat (take 8 rest)); body = drop 8 rest in
          if kind = REC_SNAPSHOT then
            (case decode_pairs body of
               Err e \<Rightarrow> (st, Err Io)
             | Ok pairs \<Rightarrow>
                 let incoming = map fst pairs;
                     stale = map fst (filter (\<lambda>(k, _). k \<notin> set incoming)
                               (storage_scan_prefix (sv_storage st) []));
                     b = foldl batch_delete [] stale;
                     b' = foldl (\<lambda>b (k, v). batch_put b k v) b pairs
                 in (case storage_commit io (sv_storage st) b' of
                       (s', Err e) \<Rightarrow> (st\<lparr>sv_storage := s'\<rparr>, Err Io)
                     | (s', Ok _) \<Rightarrow> (st\<lparr>sv_storage := s', sv_seq := seq\<rparr>,
                                       Ok (Snapshot seq (length pairs)))))
          else if kind = REC_BATCH then
            (case decode_batch body of
               Err e \<Rightarrow> (st, Err Io)
             | Ok b \<Rightarrow>
                 (case storage_commit io (sv_storage st) b of
                    (s', Err e) \<Rightarrow> (st\<lparr>sv_storage := s'\<rparr>, Err Io)
                  | (s', Ok _) \<Rightarrow>
                      (st\<lparr>sv_storage := s', sv_seq := seq,
                          sv_subscribers := broadcast (repl_record REC_BATCH seq body) (sv_subscribers st)\<rparr>,
                       Ok (Applied seq (length b)))))
          else (st, Err Io))"

section \<open>Codec laws\<close>

lemma take_bytes_put: "length b < 2 ^ 32 \<Longrightarrow> take_bytes (put_bytes b @ r) = Ok (b, r)"
  by (simp add: take_bytes_def put_bytes_def Let_def le_nat_le_bytes_lt)

lemma take_bytes_exact:
  assumes "take_bytes buf = Ok (b, r)"
  shows "length b < 2 ^ 32 \<and> buf = put_bytes b @ r"
proof -
  let ?n = "le_nat (take 4 buf)"
  from assms have len: "4 + ?n \<le> length buf" and b: "b = take ?n (drop 4 buf)" "r = drop (4 + ?n) buf"
    by (auto simp: take_bytes_def Let_def split: if_splits)
  have "buf = take 4 buf @ take ?n (drop 4 buf) @ drop ?n (drop 4 buf)"
    by (simp only: append_take_drop_id)
  moreover have "le_bytes 4 ?n = take 4 buf"
    using len by (intro le_bytes_field) simp
  ultimately show ?thesis
    using len le_nat_take_lt [of 4 buf] by (simp add: b put_bytes_def min_absorb2 add.commute)
qed

definition pair_ok :: "bytes \<times> bytes \<Rightarrow> bool" where
  "pair_ok p \<longleftrightarrow> length (fst p) < 2 ^ 32 \<and> length (snd p) < 2 ^ 32"

interpretation wire_pairs: exact_parser encode_pair take_pair pair_ok
proof unfold_locales
  fix x rest
  assume "pair_ok x"
  then show "take_pair (encode_pair x @ rest) = Ok (x, rest)"
    by (simp add: take_pair_def encode_pair_def take_bytes_put pair_ok_def)
next
  fix buf x r
  assume "take_pair buf = Ok (x, r)"
  then show "pair_ok x \<and> buf = encode_pair x @ r"
    by (auto simp: take_pair_def encode_pair_def pair_ok_def dest!: take_bytes_exact)
qed

lemma decode_pairs_encode:
  assumes "list_all pair_ok ps" "length ps < 2 ^ 32"
  shows "decode_pairs (encode_pairs ps) = Ok ps"
  using assms wire_pairs.parse_times_enc [OF assms(1), of "[]"]
  by (simp add: decode_pairs_def encode_pairs_def take_u32_def le_nat_le_bytes_lt expect_empty_def)

text \<open>Batches as \<open>Batch::put\<close> and \<open>Batch::delete\<close> build them: known opcodes, no value on a delete.\<close>

definition entry_built :: "wal_entry \<Rightarrow> bool" where
  "entry_built e \<longleftrightarrow> (case e of (op, k, v) \<Rightarrow> op = OP_PUT \<or> op = OP_DELETE \<and> v = [])"

definition wire_entry_ok :: "wal_entry \<Rightarrow> bool" where
  "wire_entry_ok e \<longleftrightarrow> entry_built e \<and> pair_ok (snd e)"

lemma batch_entries_map:
  "concat (map encode_batch_entry (batch_entries b))
    = concat (map (\<lambda>e. encode_batch_entry (fst e = OP_DELETE, snd e)) b)"
  by (simp add: batch_entries_def case_prod_unfold comp_def)

interpretation wire_entries:
  parser_codec "\<lambda>e. encode_batch_entry (fst e = OP_DELETE, snd e)" take_batch_entry wire_entry_ok
proof unfold_locales
  fix x rest
  assume x: "wire_entry_ok x"
  obtain op k v where e: "x = (op, k, v)" by (cases x)
  have "take_pair (put_bytes k @ put_bytes v @ rest) = Ok ((k, v), rest)"
    using wire_pairs.parse_enc [of "(k, v)" rest] x
    by (simp add: encode_pair_def wire_entry_ok_def e)
  then show "take_batch_entry (encode_batch_entry (fst x = OP_DELETE, snd x) @ rest) = Ok (x, rest)"
    using x by (auto simp: take_batch_entry_def encode_batch_entry_def e wire_entry_ok_def
        entry_built_def OP_PUT_def OP_DELETE_def)
qed

lemma decode_batch_encode:
  assumes "list_all wire_entry_ok b" "length b < 2 ^ 32"
  shows "decode_batch (encode_batch b) = Ok b"
  using assms wire_entries.parse_times_enc [OF assms(1), of "[]"]
  by (simp add: decode_batch_def encode_batch_def batch_entries_map take_u32_def
      le_nat_le_bytes_lt expect_empty_def)

lemma take_batch_entry_Ok:
  assumes "take_batch_entry buf = Ok (e, r)"
  shows "wire_entry_ok e \<and> length (encode_entry e) + length r \<le> length buf"
proof -
  obtain op after where buf: "buf = op # after"
    using assms by (cases buf) (auto simp: take_batch_entry_def)
  then obtain k v where kv: "take_pair after = Ok ((k, v), r)"
    and e: "e = (OP_PUT, k, v) \<or> e = (OP_DELETE, k, [])"
    using assms by (auto simp: take_batch_entry_def split: if_splits)
  from wire_pairs.parse_exact [OF kv]
  have "pair_ok (k, v)" "length after = 8 + length k + length v + length r"
    by (auto simp: encode_pair_def put_bytes_def)
  with e buf show ?thesis by (auto simp: wire_entry_ok_def entry_built_def pair_ok_def)
qed

lemma decode_batch_Ok:
  assumes "decode_batch body = Ok b"
  shows "list_all wire_entry_ok b \<and> 4 + length (concat (map encode_entry b)) \<le> length body
    \<and> length b < 2 ^ 32"
proof -
  have entries: "list_all wire_entry_ok b \<and> length (concat (map encode_entry b)) + length r \<le> length buf"
    if "parse_times take_batch_entry n buf = Ok (b, r)" for n buf b r
    using that
  proof (induction n arbitrary: buf b)
    case 0
    then show ?case by simp
  next
    case (Suc n)
    then obtain x r' b' where x: "take_batch_entry buf = Ok (x, r')"
      and b': "parse_times take_batch_entry n r' = Ok (b', r)" "b = x # b'" by auto
    from take_batch_entry_Ok [OF x] Suc.IH [OF b'(1)] b'(2) show ?case by auto
  qed
  from assms have "4 \<le> length body"
    and p: "parse_times take_batch_entry (le_nat (take 4 body)) (drop 4 body) = Ok (b, [])"
    by (auto simp: decode_batch_def take_u32_def expect_empty_def split: if_splits)
  then show ?thesis
    using entries [OF p] parse_times_length [OF p] le_nat_take_lt [of 4 body] by auto
qed

lemma wire_batch_ok:
  assumes "list_all wire_entry_ok b" "5 + length (concat (map encode_entry b)) < 2 ^ 32"
  shows "batch_ok b"
  using assms by (auto simp: batch_ok_def list_all_iff wire_entry_ok_def entry_built_def)

section \<open>The remote store as a backend\<close>

definition ok_env :: env where
  "ok_env = \<lparr>env_io = Io_ok, env_net = Delivered\<rparr>"

definition leader_inv :: "server_state \<Rightarrow> bool" where
  "leader_inv st \<longleftrightarrow> storage_inv (sv_storage st) \<and> \<not> sv_read_only st"

definition wire_batch :: "batch \<Rightarrow> bool" where
  "wire_batch b \<longleftrightarrow> list_all wire_entry_ok b \<and> 5 + length (concat (map encode_entry b)) < 2 ^ 32"

lemma wire_batch_length: "wire_batch b \<Longrightarrow> length b < 2 ^ 32"
  using length_entries [of b] by (simp add: wire_batch_def)

lemma roundtrip_ok:
  assumes "handle_request Io_ok request st = (st', Ok body)"
    and "frame_fits request" "frame_fits (STATUS_OK # body)"
  shows "roundtrip ok_env st request = (st', Ok body)"
  using assms by (simp add: roundtrip_def serve_request_def ok_env_def)

lemma frame_fits_smaller: "frame_fits b \<Longrightarrow> length a \<le> length b \<Longrightarrow> frame_fits a"
  by (simp add: frame_fits_def)

text \<open>States whose whole listing still fits a response frame.\<close>

definition listing_fits :: "server_state \<Rightarrow> bool" where
  "listing_fits st \<longleftrightarrow> frame_fits (STATUS_OK # encode_pairs (st_map (sv_storage st)))"

definition remote_key :: "bytes \<Rightarrow> bool" where
  "remote_key k \<longleftrightarrow> frame_fits (OP_GET # put_bytes k)"

definition remote_batch :: "batch \<Rightarrow> bool" where
  "remote_batch b \<longleftrightarrow> list_all wire_entry_ok b \<and> frame_fits (OP_COMMIT # encode_batch b)"

lemma encode_pairs_filter_le:
  "length (encode_pairs (filter P ps)) \<le> length (encode_pairs ps)"
  by (simp add: encode_pairs_def) (induction ps; auto)

lemma encode_pairs_member_le:
  "(k, v) \<in> set ps \<Longrightarrow> length (put_bytes v) + 8 \<le> length (encode_pairs ps)"
  by (simp add: encode_pairs_def) (induction ps; auto simp: encode_pair_def put_bytes_def)

lemma encode_pairs_count_le: "length ps \<le> length (encode_pairs ps)"
  by (simp add: encode_pairs_def) (induction ps; auto simp: encode_pair_def put_bytes_def)

lemma listing_fits_count: "listing_fits st \<Longrightarrow> length (st_map (sv_storage st)) < 2 ^ 32"
  using encode_pairs_count_le [of "st_map (sv_storage st)"]
  by (simp add: listing_fits_def frame_fits_def MAX_FRAME_def)

lemma remote_key_length: "remote_key k \<Longrightarrow> length k < 2 ^ 32"
  by (simp add: remote_key_def frame_fits_def MAX_FRAME_def put_bytes_def)

lemma remote_batch_wire: "remote_batch b \<Longrightarrow> wire_batch b"
proof -
  have "length (concat (map encode_entry b)) = length (concat (map encode_batch_entry (batch_entries b)))"
    unfolding batch_entries_map
    by (induction b) (auto simp: encode_batch_entry_def put_bytes_def encode_entry_def Let_def)
  then show "remote_batch b \<Longrightarrow> wire_batch b"
    by (simp add: remote_batch_def wire_batch_def encode_batch_def frame_fits_def MAX_FRAME_def)
qed

lemma pairs_ok_wire: "pairs_ok m \<Longrightarrow> list_all pair_ok m"
  by (auto simp: pairs_ok_def list_all_iff pair_ok_def)

lemma scan_pairs_wire:
  "storage_inv s \<Longrightarrow> list_all pair_ok (storage_scan_prefix s p)"
  using pairs_ok_wire [OF storage_inv_pairs_ok]
  by (auto simp: scan_prefix_filter storage_inv_def list_all_iff)

lemma scan_length_le: "storage_inv s \<Longrightarrow> length (storage_scan_prefix s p) \<le> length (st_map s)"
  by (simp add: scan_prefix_filter storage_inv_def)

lemma remote_get_ok:
  assumes "storage_inv (sv_storage st)" "remote_key k" "listing_fits st"
  shows "remote_get ok_env st k = (st, Ok (storage_get (sv_storage st) k))"
proof (cases "storage_get (sv_storage st) k")
  case None
  then have "handle_request Io_ok (OP_GET # put_bytes k) st = (st, Ok [0])"
    using take_bytes_put [OF remote_key_length [OF assms(2)], of "[]"]
    by (simp add: handle_request_def expect_empty_def)
  then have "roundtrip ok_env st (OP_GET # put_bytes k) = (st, Ok [0])"
    using assms(2) by (intro roundtrip_ok) (simp_all add: remote_key_def frame_fits_def MAX_FRAME_def TAG_LEN_def)
  with None show ?thesis by (simp add: remote_get_def)
next
  case (Some v)
  then have mem: "(k, v) \<in> set (st_map (sv_storage st))"
    by (auto simp: storage_get_def dest!: map_of_SomeD)
  then have v: "length v < 2 ^ 32"
    using storage_inv_pairs_ok [OF assms(1)] by (auto simp: pairs_ok_def)
  have "handle_request Io_ok (OP_GET # put_bytes k) st = (st, Ok (1 # put_bytes v))"
    using take_bytes_put [OF remote_key_length [OF assms(2)], of "[]"] Some
    by (simp add: handle_request_def expect_empty_def)
  then have "roundtrip ok_env st (OP_GET # put_bytes k) = (st, Ok (1 # put_bytes v))"
    using assms(2) encode_pairs_member_le [OF mem] assms(3)
    by (intro roundtrip_ok) (simp_all add: remote_key_def listing_fits_def frame_fits_def)
  then show ?thesis
    using Some take_bytes_put [OF v, of "[]"] by (simp add: remote_get_def expect_empty_def)
qed

lemma remote_scan_ok:
  assumes "storage_inv (sv_storage st)" "remote_key p" "listing_fits st"
  shows "remote_scan_prefix ok_env st p = (st, Ok (storage_scan_prefix (sv_storage st) p))"
proof -
  let ?es = "storage_scan_prefix (sv_storage st) p"
  have "handle_request Io_ok (OP_SCAN # put_bytes p) st = (st, Ok (encode_pairs ?es))"
    using take_bytes_put [OF remote_key_length [OF assms(2)], of "[]"]
    by (simp add: handle_request_def expect_empty_def OP_GET_def OP_SCAN_def)
  moreover have "length (encode_pairs ?es) \<le> length (encode_pairs (st_map (sv_storage st)))"
    using assms(1) encode_pairs_filter_le by (simp add: scan_prefix_filter storage_inv_def)
  ultimately have "roundtrip ok_env st (OP_SCAN # put_bytes p) = (st, Ok (encode_pairs ?es))"
    using assms(2,3) by (intro roundtrip_ok) (simp_all add: remote_key_def listing_fits_def frame_fits_def)
  then show ?thesis
    using decode_pairs_encode [OF scan_pairs_wire [OF assms(1)], of p]
      scan_length_le [OF assms(1), of p] listing_fits_count [OF assms(3)]
    by (simp add: remote_scan_prefix_def)
qed

lemma remote_dump_ok:
  assumes "storage_inv (sv_storage st)" "listing_fits st"
  shows "remote_dump ok_env st = (st, Ok (storage_dump (sv_storage st)))"
proof -
  have "storage_scan_prefix (sv_storage st) [] = st_map (sv_storage st)"
    using assms(1) by (simp add: scan_prefix_filter storage_inv_def case_prod_unfold)
  then have "handle_request Io_ok [OP_DUMP] st = (st, Ok (encode_pairs (st_map (sv_storage st))))"
    by (simp add: handle_request_def expect_empty_def OP_GET_def OP_SCAN_def OP_DUMP_def)
  then have "roundtrip ok_env st [OP_DUMP] = (st, Ok (encode_pairs (st_map (sv_storage st))))"
    using assms(2) by (intro roundtrip_ok) (simp_all add: listing_fits_def frame_fits_def)
  then show ?thesis
    using decode_pairs_encode [OF pairs_ok_wire [OF storage_inv_pairs_ok [OF assms(1)]]]
      listing_fits_count [OF assms(2)]
    by (simp add: remote_dump_def storage_dump_def)
qed

lemma remote_commit_ok:
  assumes "leader_inv st" "remote_batch b"
  shows "\<exists>s'. storage_commit Io_ok (sv_storage st) b = (s', Ok ()) \<and> storage_inv s'
    \<and> st_map s' = apply_entries (st_map (sv_storage st)) b
    \<and> remote_commit ok_env st b
      = (replicate_batch (st\<lparr>sv_storage := s'\<rparr>) (encode_batch b), Ok ())"
proof -
  have b: "wire_batch b" using assms(2) by (rule remote_batch_wire)
  obtain s' where s': "storage_commit Io_ok (sv_storage st) b = (s', Ok ())" "storage_inv s'"
    "st_map s' = apply_entries (st_map (sv_storage st)) b"
    using storage_commit_view [of "sv_storage st" b] assms(1) b wire_batch_ok [of b]
    by (auto simp: leader_inv_def wire_batch_def)
  have "handle_request Io_ok (OP_COMMIT # encode_batch b) st
      = (replicate_batch (st\<lparr>sv_storage := s'\<rparr>) (encode_batch b), Ok [])"
    using assms(1) b s'(1) decode_batch_encode [of b] wire_batch_length [of b]
    by (simp add: handle_request_def mutate_def leader_inv_def wire_batch_def OP_GET_def OP_SCAN_def
        OP_DUMP_def OP_PUT_req_def OP_DELETE_req_def OP_COMMIT_def)
  then have "roundtrip ok_env st (OP_COMMIT # encode_batch b)
      = (replicate_batch (st\<lparr>sv_storage := s'\<rparr>) (encode_batch b), Ok [])"
    using assms(2) by (intro roundtrip_ok) (simp_all add: remote_batch_def frame_fits_def)
  with s' show ?thesis by (simp add: remote_commit_def)
qed

lemma replicate_batch_storage [simp]:
  "sv_storage (replicate_batch st e) = sv_storage st"
  "sv_read_only (replicate_batch st e) = sv_read_only st"
  by (simp_all add: replicate_batch_def Let_def)

interpretation remote_backend: kv_backend leader_inv "\<lambda>st. map_of (st_map (sv_storage st))"
  remote_key listing_fits
  "\<lambda>st k. snd (remote_get ok_env st k)" "\<lambda>st p. snd (remote_scan_prefix ok_env st p)"
  "\<lambda>st. snd (remote_dump ok_env st)" "remote_commit ok_env" remote_batch "\<lambda>b m. spec_batch m b"
proof unfold_locales
  fix st b
  assume "leader_inv st" "remote_batch b"
  from remote_commit_ok [OF this] \<open>leader_inv st\<close>
  show "\<exists>s'. remote_commit ok_env st b = (s', Ok ()) \<and> leader_inv s'
      \<and> map_of (st_map (sv_storage s')) = spec_batch (map_of (st_map (sv_storage st))) b"
    by (auto simp: map_of_apply_entries leader_inv_def)
qed (auto simp: leader_inv_def remote_get_ok remote_scan_ok remote_dump_ok storage_get_def
    storage_dump_def storage_inv_def scan_prefix_filter map_of_filter_prefix filter_prefix_wf)

section \<open>Replication\<close>

text \<open>What a request does to a leader: nothing, or one batch, applied and broadcast.\<close>

definition replicated :: "server_state \<Rightarrow> server_state \<Rightarrow> bool" where
  "replicated st st' \<longleftrightarrow> st' = st \<or> (\<exists>b s'. wire_batch b \<and> storage_inv s'
    \<and> st_map s' = apply_entries (st_map (sv_storage st)) b
    \<and> st' = replicate_batch (st\<lparr>sv_storage := s'\<rparr>) (encode_batch b))"

lemma replicated_refl [simp]: "replicated st st"
  by (simp add: replicated_def)

lemma replicated_mutate:
  assumes "res = (s', Ok ())" "storage_inv s'" "wire_batch b"
    "st_map s' = apply_entries (st_map (sv_storage st)) b"
  shows "replicated st (fst (mutate st res (encode_batch b)))"
  using assms by (auto simp: replicated_def mutate_def)

lemma replicated_single:
  assumes "leader_inv st" "op = OP_PUT \<or> op = OP_DELETE \<and> v = []" "length k + length v \<le> MAX_FRAME"
  shows "replicated st (fst (mutate st (log_write Io_ok (sv_storage st) (Single op k v)) (encode_batch [(op, k, v)])))"
proof (rule replicated_mutate)
  have inv: "storage_inv (sv_storage st)" and ok: "record_ok (Single op k v)"
    using assms by (auto simp: leader_inv_def MAX_FRAME_def)
  show "log_write Io_ok (sv_storage st) (Single op k v)
      = (fst (log_write Io_ok (sv_storage st) (Single op k v)), Ok ())"
    and "storage_inv (fst (log_write Io_ok (sv_storage st) (Single op k v)))"
    and "st_map (fst (log_write Io_ok (sv_storage st) (Single op k v)))
      = apply_entries (st_map (sv_storage st)) [(op, k, v)]"
    using log_write_ok [OF inv ok] by (simp_all add: apply_entries_def)
  show "wire_batch [(op, k, v)]"
    using assms(2,3) by (auto simp: MAX_FRAME_def wire_batch_def wire_entry_ok_def entry_built_def pair_ok_def)
qed

lemma replicated_put:
  assumes "leader_inv st" "take_pair body = Ok ((k, v), rest)" "length body \<le> MAX_FRAME"
  shows "replicated st (fst (mutate st (storage_put Io_ok (sv_storage st) k v) (encode_batch (batch_put [] k v))))"
  using replicated_single [OF assms(1), of OP_PUT v k] wire_pairs.parse_exact [OF assms(2)] assms(3)
  by (simp add: storage_put_log batch_put_def encode_pair_def put_bytes_def)

lemma replicated_delete:
  assumes "leader_inv st" "take_bytes body = Ok (k, rest)" "length body \<le> MAX_FRAME"
  shows "replicated st (fst (mutate st (storage_delete Io_ok (sv_storage st) k) (encode_batch (batch_delete [] k))))"
  using replicated_single [OF assms(1), of OP_DELETE "[]" k] take_bytes_exact [OF assms(2)] assms(3)
  by (simp add: storage_delete_log batch_delete_def put_bytes_def)

lemma replicated_commit:
  assumes "leader_inv st" "decode_batch body = Ok b" "length body \<le> MAX_FRAME"
  shows "replicated st (fst (mutate st (storage_commit Io_ok (sv_storage st) b) (encode_batch b)))"
proof -
  have b: "wire_batch b"
    using decode_batch_Ok [OF assms(2)] assms(3) by (auto simp: wire_batch_def MAX_FRAME_def)
  then obtain s' where "storage_commit Io_ok (sv_storage st) b = (s', Ok ())" "storage_inv s'"
    "st_map s' = apply_entries (st_map (sv_storage st)) b"
    using storage_commit_view [of "sv_storage st" b] assms(1) wire_batch_ok [of b]
    by (auto simp: leader_inv_def wire_batch_def)
  with b show ?thesis by (intro replicated_mutate) simp_all
qed

lemma handle_request_replicated:
  assumes "leader_inv st" "length request \<le> MAX_FRAME"
  shows "replicated st (fst (handle_request Io_ok request st))"
proof (cases request)
  case Nil
  then show ?thesis by (simp add: handle_request_def)
next
  case (Cons op body)
  with assms(2) have "length body \<le> MAX_FRAME" by simp
  with assms(1) Cons show ?thesis
    by (auto simp: handle_request_def expect_empty_def rbind_eq_Err
        split: result.splits if_splits prod.splits
        intro: replicated_put replicated_delete replicated_commit)
qed

lemma replicated_leader_inv: "replicated st st' \<Longrightarrow> leader_inv st \<Longrightarrow> leader_inv st'"
  by (auto simp: replicated_def leader_inv_def)

lemma le8_seq: "(word_of_nat (le_nat (le_bytes 8 (unat w))) :: u64) = w"
  by (rule word_le_bytes_roundtrip) simp

text \<open>The follower mirrors one broadcast batch.\<close>

lemma follow_batch:
  assumes "storage_inv (sv_storage F)" "wire_batch b"
  shows "\<exists>s'. storage_inv s' \<and> st_map s' = apply_entries (st_map (sv_storage F)) b
    \<and> sv_storage (fst (apply_repl_record Io_ok (repl_record REC_BATCH seq (encode_batch b)) F)) = s'
    \<and> sv_seq (fst (apply_repl_record Io_ok (repl_record REC_BATCH seq (encode_batch b)) F)) = seq"
proof -
  have "batch_ok b" "decode_batch (encode_batch b) = Ok b"
    using assms(2) wire_batch_ok [of b] decode_batch_encode [of b] wire_batch_length [of b]
    by (auto simp: wire_batch_def)
  with storage_commit_view [OF assms(1), of b] show ?thesis
    by (auto simp: apply_repl_record_def repl_record_def Let_def le8_seq REC_BATCH_def REC_SNAPSHOT_def)
qed

text \<open>Applying a snapshot replaces the follower's state.\<close>

lemma foldl_batch_delete: "foldl batch_delete b ks = b @ map (\<lambda>k. (OP_DELETE, k, [])) ks"
  by (induction ks arbitrary: b) (simp_all add: batch_delete_def)

lemma foldl_batch_put: "foldl (\<lambda>b (k, v). batch_put b k v) b ps = b @ map (\<lambda>(k, v). (OP_PUT, k, v)) ps"
  by (induction ps arbitrary: b) (auto simp: batch_put_def)

lemma spec_batch_deletes:
  "spec_batch m (map (\<lambda>k. (OP_DELETE, k, [])) ks) = (\<lambda>k. if k \<in> set ks then None else m k)"
  by (induction ks arbitrary: m) (auto simp: spec_batch_def OP_PUT_def OP_DELETE_def fun_eq_iff)

lemma spec_batch_puts:
  "distinct (map fst ps) \<Longrightarrow> spec_batch m (map (\<lambda>(k, v). (OP_PUT, k, v)) ps) = m ++ map_of ps"
proof (induction ps arbitrary: m)
  case Nil
  then show ?case by (simp add: spec_batch_def)
next
  case (Cons p ps)
  then have "spec_batch (m(fst p \<mapsto> snd p)) (map (\<lambda>(k, v). (OP_PUT, k, v)) ps)
      = m(fst p \<mapsto> snd p) ++ map_of ps"
    by (intro Cons.IH) simp
  also have "\<dots> = m ++ map_of (p # ps)"
    using Cons.prems map_add_upd_left [of "fst p" "map_of ps" m "snd p"]
    by (cases p) (simp add: dom_map_of_conv_image_fst)
  finally show ?case by (cases p) (simp add: spec_batch_def fun_eq_iff map_add_def)
qed

lemma spec_batch_append: "spec_batch m (a @ b) = spec_batch (spec_batch m a) b"
  by (simp add: spec_batch_def)

lemma snapshot_batch_spec:
  assumes "bt_wf mL"
  shows "spec_batch (map_of mF) (map (\<lambda>k. (OP_DELETE, k, []))
      (map fst (filter (\<lambda>(k, v). k \<notin> set (map fst mL)) mF)) @ map (\<lambda>(k, v). (OP_PUT, k, v)) mL)
    = map_of mL"
proof
  fix k
  let ?stale = "map fst (filter (\<lambda>(k, v). k \<notin> set (map fst mL)) mF)"
  have L: "map_of mL k = None \<longleftrightarrow> k \<notin> set (map fst mL)" by (simp add: map_of_eq_None_iff)
  have F: "map_of mF k = None" if "k \<notin> set (map fst mL)" "k \<notin> set ?stale"
    using that by (force simp: map_of_eq_None_iff)
  have "(if k \<in> set ?stale then None else map_of mF k) = None" if "map_of mL k = None"
    using F L that by auto
  then show "spec_batch (map_of mF) (map (\<lambda>k. (OP_DELETE, k, [])) ?stale
      @ map (\<lambda>(k, v). (OP_PUT, k, v)) mL) k = map_of mL k"
    unfolding spec_batch_append spec_batch_deletes spec_batch_puts [OF bt_wf_distinct [OF assms]]
    by (cases "map_of mL k") (simp_all only: map_add_def option.case)
qed

text \<open>The batch \<open>apply_record\<close> builds from a snapshot.\<close>

definition snapshot_batch :: "kvmap \<Rightarrow> kvmap \<Rightarrow> batch" where
  "snapshot_batch mF mL = map (\<lambda>k. (OP_DELETE, k, []))
      (map fst (filter (\<lambda>(k, v). k \<notin> set (map fst mL)) mF)) @ map (\<lambda>(k, v). (OP_PUT, k, v)) mL"

definition snapshot_fits :: "kvmap \<Rightarrow> kvmap \<Rightarrow> bool" where
  "snapshot_fits mF mL \<longleftrightarrow> 2 * (length (encode_pairs mF) + length (encode_pairs mL)) < 2 ^ 32"

lemma deletes_length:
  "length (concat (map encode_entry (map (\<lambda>k. (OP_DELETE, k, [])) (map fst (filter P m)))))
    \<le> length (concat (map encode_pair m)) + length m"
  by (induction m) (auto simp: encode_pair_def put_bytes_def)

lemma puts_length:
  "length (concat (map encode_entry (map (\<lambda>(k, v). (OP_PUT, k, v)) m)))
    = length (concat (map encode_pair m)) + length m"
  by (induction m) (auto simp: encode_pair_def put_bytes_def)

lemma snapshot_batch_wire:
  assumes "pairs_ok mF" "pairs_ok mL" "snapshot_fits mF mL"
  shows "wire_batch (snapshot_batch mF mL)"
proof -
  have "list_all wire_entry_ok (snapshot_batch mF mL)"
    using assms(1,2) by (fastforce simp: snapshot_batch_def list_all_iff wire_entry_ok_def
        entry_built_def pair_ok_def pairs_ok_def)
  moreover have "length (concat (map encode_entry (snapshot_batch mF mL)))
      \<le> length (concat (map encode_pair mF)) + length mF + (length (concat (map encode_pair mL)) + length mL)"
    unfolding snapshot_batch_def map_append concat_append length_append
    by (intro add_mono deletes_length order_refl puts_length [THEN eq_imp_le])
  ultimately show ?thesis
    using assms(3) encode_pairs_count_le [of mF] encode_pairs_count_le [of mL]
    by (simp add: wire_batch_def snapshot_fits_def encode_pairs_def)
qed

lemma apply_snapshot_batch:
  assumes "bt_wf mF" "bt_wf mL"
  shows "apply_entries mF (snapshot_batch mF mL) = mL"
  using assms snapshot_batch_spec [OF assms(2), of mF]
  by (intro bt_wf_eqI) (auto simp: map_of_apply_entries snapshot_batch_def intro: apply_entries_wf)

definition in_sync :: "server_state \<Rightarrow> server_state \<Rightarrow> bool" where
  "in_sync F L \<longleftrightarrow> storage_inv (sv_storage F)
    \<and> st_map (sv_storage F) = st_map (sv_storage L) \<and> sv_seq F = sv_seq L"

lemma follow_snapshot:
  assumes "storage_inv (sv_storage F)" "storage_inv (sv_storage L)"
    and "snapshot_fits (st_map (sv_storage F)) (st_map (sv_storage L))"
  shows "in_sync (fst (apply_repl_record Io_ok (repl_record REC_SNAPSHOT (sv_seq L)
      (encode_pairs (storage_scan_prefix (sv_storage L) []))) F)) L"
proof -
  let ?F = "st_map (sv_storage F)" and ?L = "st_map (sv_storage L)"
  have wf: "bt_wf ?F" "bt_wf ?L" using assms by (simp_all add: storage_inv_def)
  then have scans: "storage_scan_prefix (sv_storage F) [] = ?F" "storage_scan_prefix (sv_storage L) [] = ?L"
    by (simp_all add: scan_prefix_filter case_prod_unfold)
  note ok = storage_inv_pairs_ok [OF assms(1)] storage_inv_pairs_ok [OF assms(2)]
  have wb: "wire_batch (snapshot_batch ?F ?L)" by (rule snapshot_batch_wire [OF ok assms(3)])
  have dec: "decode_pairs (encode_pairs ?L) = Ok ?L"
    using assms(3) encode_pairs_count_le [of ?L]
    by (intro decode_pairs_encode pairs_ok_wire ok) (simp add: snapshot_fits_def)
  obtain s' where "storage_commit Io_ok (sv_storage F) (snapshot_batch ?F ?L) = (s', Ok ())"
    "storage_inv s'" "st_map s' = ?L"
    using storage_commit_view [OF assms(1), of "snapshot_batch ?F ?L"] wb wire_batch_ok
    by (auto simp: wire_batch_def apply_snapshot_batch [OF wf])
  then show ?thesis
    by (simp add: in_sync_def apply_repl_record_def repl_record_def Let_def le8_seq scans dec
        foldl_batch_delete foldl_batch_put snapshot_batch_def)
qed

text \<open>
  What happens to a leader: a request arrives on some connection, or the receiver of a subscriber
  goes away. The follower consumes the queue of its subscription.
\<close>

datatype leader_event = Request bytes | Hangup nat

definition hangup :: "nat \<Rightarrow> server_state \<Rightarrow> server_state" where
  "hangup i st = (if i < length (sv_subscribers st)
    then st\<lparr>sv_subscribers := (sv_subscribers st)[i := (sv_subscribers st ! i)\<lparr>sub_alive := False\<rparr>]\<rparr>
    else st)"

fun leader_step :: "server_state \<Rightarrow> leader_event \<Rightarrow> server_state" where
  "leader_step st (Request r) = fst (connection_request Io_ok r st)"
| "leader_step st (Hangup i) = hangup i st"

definition leader_run :: "server_state \<Rightarrow> leader_event list \<Rightarrow> server_state" where
  "leader_run = foldl leader_step"

definition follow_all :: "server_state \<Rightarrow> bytes list \<Rightarrow> server_state" where
  "follow_all = foldl (\<lambda>st msg. fst (apply_repl_record Io_ok msg st))"

text \<open>The invariant: what any subscriber was sent brings the follower to the leader's state.\<close>

definition replica_inv :: "server_state \<Rightarrow> server_state \<Rightarrow> bool" where
  "replica_inv F L \<longleftrightarrow> leader_inv L
    \<and> (\<forall>sub\<in>set (sv_subscribers L). in_sync (follow_all F (sub_queue sub)) L)"

lemma serve_request_state: "fst (serve_request io request st) = fst (handle_request io request st)"
  by (simp add: serve_request_def split: prod.splits result.splits)

lemma connection_request_cases:
  "fst (connection_request io request st) = subscribe st
    \<or> fst (connection_request io request st) = fst (handle_request io request st)"
  by (auto simp: connection_request_def serve_request_state split: list.splits)

lemma replica_inv_subscribe:
  assumes "replica_inv F L" "storage_inv (sv_storage F)"
    and "snapshot_fits (st_map (sv_storage F)) (st_map (sv_storage L))"
  shows "replica_inv F (subscribe L)"
  using follow_snapshot [OF assms(2) _ assms(3)] assms(1)
  by (auto simp: replica_inv_def subscribe_def Let_def follow_all_def leader_inv_def in_sync_def)

lemma replica_inv_hangup: "replica_inv F L \<Longrightarrow> replica_inv F (hangup i L)"
  by (auto simp: replica_inv_def hangup_def leader_inv_def in_sync_def dest!: subsetD [OF set_update_subset_insert])

lemma replica_inv_step:
  assumes "replica_inv F L" "replicated L L'"
  shows "replica_inv F L'"
proof (cases "L' = L")
  case True
  with assms show ?thesis by simp
next
  case False
  then obtain b s' where b: "wire_batch b" "storage_inv s'"
    "st_map s' = apply_entries (st_map (sv_storage L)) b"
    "L' = replicate_batch (L\<lparr>sv_storage := s'\<rparr>) (encode_batch b)"
    using assms(2) by (auto simp: replicated_def)
  let ?msg = "repl_record REC_BATCH (sv_seq L + 1) (encode_batch b)"
  have "in_sync (fst (apply_repl_record Io_ok ?msg G)) L'" if "in_sync G L" for G
    using follow_batch [OF _ b(1), of G "sv_seq L + 1"] that b(3,4)
    by (auto simp: in_sync_def replicate_batch_def Let_def)
  then show ?thesis
    using assms(1) b(2,4)
    by (auto simp: replica_inv_def follow_all_def replicate_batch_def broadcast_def Let_def leader_inv_def)
qed

definition request_sized :: "leader_event \<Rightarrow> bool" where
  "request_sized e \<longleftrightarrow> (case e of Request r \<Rightarrow> length r \<le> MAX_FRAME | Hangup i \<Rightarrow> True)"

lemma replica_inv_leader_step:
  assumes "replica_inv F L" "storage_inv (sv_storage F)"
    and "snapshot_fits (st_map (sv_storage F)) (st_map (sv_storage L))" "request_sized e"
  shows "replica_inv F (leader_step L e)"
proof (cases e)
  case (Request r)
  then show ?thesis
    using connection_request_cases [of Io_ok r L] replica_inv_subscribe [OF assms(1-3)] assms(1,4)
      replica_inv_step [OF assms(1) handle_request_replicated]
    by (auto simp: request_sized_def replica_inv_def [of F L])
next
  case (Hangup i)
  with replica_inv_hangup [OF assms(1)] show ?thesis by simp
qed

lemma replica_inv_run:
  assumes "replica_inv F L" "storage_inv (sv_storage F)" "list_all request_sized events"
    and "\<And>n. snapshot_fits (st_map (sv_storage F)) (st_map (sv_storage (leader_run L (take n events))))"
  shows "replica_inv F (leader_run L events)"
  using assms
proof (induction events arbitrary: L)
  case Nil
  then show ?case by (simp add: leader_run_def)
next
  case (Cons e events)
  have step: "replica_inv F (leader_step L e)"
    using Cons.prems Cons.prems(4) [of 0] by (intro replica_inv_leader_step) (simp_all add: leader_run_def)
  have "replica_inv F (leader_run (leader_step L e) events)"
    using Cons.IH [OF step Cons.prems(2)] Cons.prems(3,4) Cons.prems(4) [of "Suc n" for n]
    by (simp add: leader_run_def)
  then show ?case by (simp add: leader_run_def)
qed

text \<open>No living subscription is lost: broadcasts keep it and only a hang-up ends it.\<close>

definition subscribes :: "leader_event \<Rightarrow> bool" where
  "subscribes e \<longleftrightarrow> (\<exists>rest. e = Request (OP_SUBSCRIBE # rest))"

lemma handle_request_subscribers:
  assumes "list_all sub_alive (sv_subscribers st)"
  shows "list_all sub_alive (sv_subscribers (fst (handle_request io r st)))
    \<and> length (sv_subscribers (fst (handle_request io r st))) = length (sv_subscribers st)"
proof -
  have "filter sub_alive (sv_subscribers st) = sv_subscribers st"
    using assms by (simp add: list_all_iff filter_id_conv)
  then have "list_all sub_alive (sv_subscribers (fst (mutate st p e)))
      \<and> length (sv_subscribers (fst (mutate st p e))) = length (sv_subscribers st)" for p e
    using assms by (simp add: mutate_def replicate_batch_def broadcast_def Let_def list_all_iff
        split: prod.splits result.splits)
  then show ?thesis
    using assms by (simp add: handle_request_def split: list.splits result.splits)
qed

lemma leader_run_subscribers:
  assumes "list_all sub_alive (sv_subscribers L)" "\<And>i. Hangup i \<notin> set events"
  shows "length (sv_subscribers (leader_run L events))
    = length (sv_subscribers L) + length (filter subscribes events)"
  using assms
proof (induction events arbitrary: L)
  case Nil
  then show ?case by (simp add: leader_run_def)
next
  case (Cons e events)
  then obtain r where e: "e = Request r" by (cases e) auto
  have "list_all sub_alive (sv_subscribers (leader_step L e))
    \<and> length (sv_subscribers (leader_step L e)) = length (sv_subscribers L) + of_bool (subscribes e)"
    using handle_request_subscribers [OF Cons.prems(1), of Io_ok r] Cons.prems(1)
    by (auto simp: e subscribes_def connection_request_def serve_request_state subscribe_def Let_def
        split: list.splits)
  with Cons.IH [of "leader_step L e"] Cons.prems(2) show ?case
    by (auto simp: leader_run_def)
qed

lemma mutate_states:
  "fst (mutate st (s', res) entries) = st\<lparr>sv_storage := s'\<rparr>
    \<or> res = Ok () \<and> fst (mutate st (s', res) entries) = replicate_batch (st\<lparr>sv_storage := s'\<rparr>) entries"
  by (cases res) (auto simp: mutate_def)

text \<open>A commit request on a leader is \<open>storage_commit\<close>, whatever its I/O does.\<close>

lemma serve_commit:
  assumes "leader_inv st" "wire_batch b"
  shows "serve_request io (OP_COMMIT # encode_batch b) st
    = (fst (mutate st (storage_commit io (sv_storage st) b) (encode_batch b)),
       case snd (storage_commit io (sv_storage st) b) of
         Ok _ \<Rightarrow> [STATUS_OK] | Err e \<Rightarrow> STATUS_ERR # as_bytes (storage_error_string e))"
proof -
  have "handle_request io (OP_COMMIT # encode_batch b) st
      = mutate st (storage_commit io (sv_storage st) b) (encode_batch b)"
    using assms decode_batch_encode [of b] wire_batch_length [of b]
    by (simp add: handle_request_def leader_inv_def wire_batch_def OP_GET_def OP_SCAN_def
        OP_DUMP_def OP_PUT_req_def OP_DELETE_req_def OP_COMMIT_def)
  then show ?thesis
    by (simp add: serve_request_def mutate_def split: prod.splits result.splits)
qed

lemma remote_commit_recovery:
  assumes "leader_inv st" and "remote_batch b" and "remote_commit env st b = (st', r)"
  shows "st_map (sv_storage st') \<in> {st_map (sv_storage st), apply_entries (st_map (sv_storage st)) b}
    \<and> (r = Ok () \<longrightarrow> st_map (sv_storage st') = apply_entries (st_map (sv_storage st)) b)
    \<and> (env_net env = Request_lost \<longrightarrow> st' = st \<and> r = Err Io)
    \<and> (env = \<lparr>env_io = Io_ok, env_net = Response_lost\<rparr> \<longrightarrow>
         st_map (sv_storage st') = apply_entries (st_map (sv_storage st)) b \<and> r = Err Io)"
proof (cases "env_net env = Request_lost")
  case True
  with assms(3) show ?thesis by (auto simp: remote_commit_def roundtrip_def)
next
  case False
  obtain s' res where c: "storage_commit (env_io env) (sv_storage st) b = (s', res)" by fastforce
  have b: "batch_ok b" using remote_batch_wire [OF assms(2)] wire_batch_ok by (simp add: wire_batch_def)
  have inv: "storage_inv (sv_storage st)" using assms(1) by (simp add: leader_inv_def)
  have ok: "res = Ok () \<longrightarrow> st_map s' = apply_entries (st_map (sv_storage st)) b"
    and err: "res \<noteq> Ok () \<longrightarrow> st_map s' = st_map (sv_storage st)"
    using commit_recovery [OF inv b c] by auto
  have io: "res = Ok ()" if "env_io env = Io_ok"
    using storage_commit_view [OF inv b] c that by simp
  have st': "st' = fst (mutate st (s', res) (encode_batch b))"
    using assms(3) False serve_commit [OF assms(1) remote_batch_wire [OF assms(2)], of "env_io env"] c assms(2)
    by (auto simp: remote_commit_def roundtrip_def remote_batch_def split: prod.splits result.splits)
  have r: "r = Ok () \<longrightarrow> res = Ok ()" "env_net env = Response_lost \<longrightarrow> r = Err Io"
    using assms(3) False serve_commit [OF assms(1) remote_batch_wire [OF assms(2)], of "env_io env"] c assms(2)
    by (auto simp: remote_commit_def roundtrip_def remote_batch_def STATUS_OK_def STATUS_ERR_def
        split: prod.splits result.splits if_splits)
  show ?thesis
    using mutate_states [of st s' res "encode_batch b"] ok err io r False by (auto simp: st')
qed

section \<open>Properties of the protocol\<close>

definition demo_leader :: server_state where
  "demo_leader = server_new empty_store False"

lemma demo_leader_ok:
  "leader_inv demo_leader" "storage_inv (sv_storage demo_leader)" "listing_fits demo_leader"
  using empty_store_inv
  by (simp_all add: demo_leader_def leader_inv_def server_new_def listing_fits_def
      frame_fits_def encode_pairs_def empty_store_def MAX_FRAME_def TAG_LEN_def)

text \<open>C3: replication converges. Starting from a leader without subscribers, let it serve any
  requests, subscriptions among them, while receivers may go away at any time. Then the records
  queued for any subscriber, snapshot first, bring a follower in any state to the leader's exact
  table and sequence number, with a log that replays to that table; and while nobody hangs up,
  no subscription is lost.\<close>

theorem replication_converges:
  assumes "leader_inv L" and "sv_subscribers L = []" and "storage_inv (sv_storage F)"
    and "list_all request_sized events"
    and "\<And>n. snapshot_fits (st_map (sv_storage F)) (st_map (sv_storage (leader_run L (take n events))))"
    and "L' = leader_run L events"
  shows "(\<forall>sub\<in>set (sv_subscribers L'). let F' = follow_all F (sub_queue sub) in
        st_map (sv_storage F') = st_map (sv_storage L') \<and> sv_seq F' = sv_seq L'
        \<and> storage_open (Ok (st_wal (sv_storage F'))) = Ok (sv_storage F'))
    \<and> ((\<forall>i. Hangup i \<notin> set events) \<longrightarrow> length (sv_subscribers L') = length (filter subscribes events))"
proof -
  have "replica_inv F L" using assms(1,2) by (simp add: replica_inv_def)
  from replica_inv_run [OF this assms(3-5)] leader_run_subscribers [of L events] storage_open_clean
  show ?thesis by (auto simp: assms(2,6) replica_inv_def in_sync_def Let_def)
qed

definition demo_events :: "leader_event list" where
  "demo_events = [Request [9], Request [OP_SUBSCRIBE]]"

theorem replication_converges_witness:
  "\<exists>sub. sv_subscribers (leader_run demo_leader demo_events) = [sub]
    \<and> st_map (sv_storage (follow_all (server_new empty_store True) (sub_queue sub)))
      = st_map (sv_storage (leader_run demo_leader demo_events))
    \<and> sv_seq (follow_all (server_new empty_store True) (sub_queue sub)) = sv_seq (leader_run demo_leader demo_events)"
proof -
  have ev: "demo_events = Request [9] # Request [OP_SUBSCRIBE] # []"
    by (simp add: demo_events_def)
  have run: "sv_storage (leader_run demo_leader (take n demo_events)) = empty_store" for n
    by (cases n; cases "n - 1"; cases "n - 2")
      (auto simp: leader_run_def ev demo_leader_def server_new_def connection_request_def OP_SUBSCRIBE_def
        serve_request_def handle_request_def OP_GET_def OP_SCAN_def OP_DUMP_def OP_PUT_req_def OP_DELETE_req_def
        OP_COMMIT_def subscribe_def hangup_def Let_def)
  have inv: "storage_inv (sv_storage (server_new empty_store True))" "sv_subscribers demo_leader = []"
    using empty_store_inv by (simp_all add: server_new_def demo_leader_def)
  have sizes: "list_all request_sized demo_events"
    by (simp add: demo_events_def request_sized_def MAX_FRAME_def)
  have fits: "snapshot_fits (st_map (sv_storage (server_new empty_store True)))
      (st_map (sv_storage (leader_run demo_leader (take n demo_events))))" for n
    by (simp add: run) (simp add: snapshot_fits_def server_new_def empty_store_def encode_pairs_def)
  have one: "length (filter subscribes demo_events) = Suc 0"
    by (simp add: demo_events_def subscribes_def OP_SUBSCRIBE_def)
  from replication_converges [OF demo_leader_ok(1) inv(2,1) sizes fits refl] one show ?thesis
    by (auto simp: Let_def demo_events_def length_Suc_conv)
qed

text \<open>C17: the remote store is the local store, where nothing fails and everything fits. Between a
  client and a leader, with no disk or network failure (\<open>ok_env\<close>), when the leader's whole listing, the
  key and the batch each fit in a frame, every read through the wire returns what the storage below
  returns, and a commit through the wire leaves the storage in exactly the state a local commit does.
  The other cases are properties of their own: failures in \<open>remote_commit_outcomes\<close>, what does not
  fit in \<open>frame_cap\<close>.\<close>

theorem remote_refines_local:
  assumes "leader_inv st" and "listing_fits st" and "remote_key k" and "remote_batch b"
  shows "remote_get ok_env st k = (st, Ok (storage_get (sv_storage st) k))
    \<and> remote_scan_prefix ok_env st k = (st, Ok (storage_scan_prefix (sv_storage st) k))
    \<and> remote_dump ok_env st = (st, Ok (storage_dump (sv_storage st)))
    \<and> (case remote_commit ok_env st b of (st', r) \<Rightarrow>
         storage_commit Io_ok (sv_storage st) b = (sv_storage st', r) \<and> r = Ok ())"
  using assms remote_commit_ok [OF assms(1,4)]
  by (auto simp: leader_inv_def remote_get_ok remote_scan_ok remote_dump_ok)

text \<open>A leader that holds one pair.\<close>

definition demo_data :: storage where
  "demo_data = fst (storage_put Io_ok empty_store [1] [2])"

lemma demo_data_ok: "storage_inv demo_data" "st_map demo_data = [([1], [2])]"
proof -
  have ok: "record_ok (Single OP_PUT [1] [2])" by simp
  show "storage_inv demo_data"
    using log_write_ok(2) [OF empty_store_inv ok] by (simp add: demo_data_def storage_put_log)
  show "st_map demo_data = [([1], [2])]"
    using log_write_ok(1) [OF empty_store_inv ok]
    by (simp add: demo_data_def storage_put_log apply_op.simps) (simp add: empty_store_def)
qed

definition demo_data_leader :: server_state where
  "demo_data_leader = server_new demo_data False"

lemma demo_data_leader_ok: "leader_inv demo_data_leader" "listing_fits demo_data_leader"
  using demo_data_ok
  by (simp_all add: demo_data_leader_def leader_inv_def server_new_def listing_fits_def
      frame_fits_def encode_pairs_def encode_pair_def put_bytes_def MAX_FRAME_def TAG_LEN_def)

theorem remote_refines_local_witness:
  "remote_get ok_env demo_data_leader [1] = (demo_data_leader, Ok (Some [2]))
    \<and> remote_dump ok_env demo_data_leader = (demo_data_leader, Ok [([1], [2])])
    \<and> storage_commit Io_ok demo_data [(OP_DELETE, [1], [])]
      = (sv_storage (fst (remote_commit ok_env demo_data_leader [(OP_DELETE, [1], [])])), Ok ())"
proof -
  have "remote_key [1]" "remote_batch [(OP_DELETE, [1], [])]"
    by (simp_all add: remote_key_def remote_batch_def frame_fits_def put_bytes_def MAX_FRAME_def
        TAG_LEN_def wire_entry_ok_def entry_built_def pair_ok_def encode_batch_def batch_entries_def
        encode_batch_entry_def)
  from remote_refines_local [OF demo_data_leader_ok this] demo_data_ok(2) show ?thesis
    by (auto simp: storage_get_def storage_dump_def demo_data_leader_def server_new_def split: prod.splits)
qed

text \<open>C18: the outcomes of a remote commit. Whatever the server's disk and the network do, the
  server holds either the old table or the table with the whole batch, an \<open>Ok\<close> at the client
  means the batch was applied, and a commit that never reached the server changed nothing. (An
  error leaves the client unsure: with a lost response the batch is applied.)\<close>

theorem remote_commit_outcomes:
  assumes "leader_inv st" and "remote_batch b" and "remote_commit env st b = (st', r)"
  shows "st_map (sv_storage st') \<in> {st_map (sv_storage st), apply_entries (st_map (sv_storage st)) b}
    \<and> (r = Ok () \<longrightarrow> st_map (sv_storage st') = apply_entries (st_map (sv_storage st)) b)
    \<and> (env_net env = Request_lost \<longrightarrow> st' = st \<and> r = Err Io)
    \<and> (env = \<lparr>env_io = Io_ok, env_net = Response_lost\<rparr> \<longrightarrow>
         st_map (sv_storage st') = apply_entries (st_map (sv_storage st)) b \<and> r = Err Io)"
  using assms by (rule remote_commit_recovery)

theorem remote_commit_outcomes_witness:
  "snd (remote_commit \<lparr>env_io = Io_ok, env_net = Response_lost\<rparr> demo_leader [(OP_PUT, [1], [2])]) = Err Io"
proof -
  let ?e = "\<lparr>env_io = Io_ok, env_net = Response_lost\<rparr>"
  have "remote_batch [(OP_PUT, [1], [2])]"
    by (simp add: remote_batch_def frame_fits_def put_bytes_def MAX_FRAME_def
        TAG_LEN_def wire_entry_ok_def entry_built_def pair_ok_def encode_batch_def batch_entries_def
        encode_batch_entry_def)
  from remote_commit_outcomes [OF demo_leader_ok(1) this, of ?e
      "fst (remote_commit ?e demo_leader [(OP_PUT, [1], [2])])"
      "snd (remote_commit ?e demo_leader [(OP_PUT, [1], [2])])"]
  show ?thesis by simp
qed

text \<open>A read-only replica stays what replication made it. No request whatsoever, well formed or
  not, changes any part of its state, and every well-formed put, delete or commit is refused.\<close>

theorem replica_refuses_writes:
  assumes "sv_read_only st"
  shows "fst (handle_request io request st) = st
    \<and> snd (handle_request io (OP_COMMIT # body) st) = Err ''server is a read-only replica''
    \<and> (length k < 2 ^ 32 \<and> length v < 2 ^ 32 \<longrightarrow>
        snd (handle_request io (OP_PUT_req # put_bytes k @ put_bytes v) st) = Err ''server is a read-only replica''
      \<and> snd (handle_request io (OP_DELETE_req # put_bytes k) st) = Err ''server is a read-only replica'')"
proof (intro conjI impI)
  show "fst (handle_request io request st) = st"
    using assms by (simp add: handle_request_def split: list.splits result.splits prod.splits)
  show "snd (handle_request io (OP_COMMIT # body) st) = Err ''server is a read-only replica''"
    using assms by (simp add: handle_request_def OP_GET_def OP_SCAN_def OP_DUMP_def OP_PUT_req_def
        OP_DELETE_req_def OP_COMMIT_def)
  assume kv: "length k < 2 ^ 32 \<and> length v < 2 ^ 32"
  then show "snd (handle_request io (OP_PUT_req # put_bytes k @ put_bytes v) st)
      = Err ''server is a read-only replica''"
    using assms wire_pairs.parse_enc [of "(k, v)" "[]"]
    by (simp add: handle_request_def encode_pair_def pair_ok_def expect_empty_def OP_GET_def OP_SCAN_def
        OP_DUMP_def OP_PUT_req_def)
  from kv show "snd (handle_request io (OP_DELETE_req # put_bytes k) st)
      = Err ''server is a read-only replica''"
    using assms take_bytes_put [of k "[]"]
    by (simp add: handle_request_def expect_empty_def OP_GET_def OP_SCAN_def
        OP_DUMP_def OP_PUT_req_def OP_DELETE_req_def)
qed

theorem replica_refuses_writes_witness:
  "fst (handle_request Io_ok [3, 0] (server_new empty_store True)) = server_new empty_store True"
  using replica_refuses_writes [of "server_new empty_store True" Io_ok "[3, 0]"]
  by (simp add: server_new_def)

text \<open>C37: frames and the size cap. A written frame is read back exactly when its payload is within
  the cap; hence a dump of a store whose listing exceeds the cap always fails at the client,
  although the server accepted every write that made it that large.\<close>

theorem frame_cap:
  assumes "length payload < 2 ^ 32" and "storage_inv (sv_storage st)"
  shows "read_frame (write_frame payload @ rest)
      = (if length payload \<le> MAX_FRAME then Ok (payload, rest) else Err Io)
    \<and> remote_dump ok_env st = (st, if listing_fits st then Ok (storage_dump (sv_storage st)) else Err Io)"
proof -
  have "handle_request Io_ok [OP_DUMP] st = (st, Ok (encode_pairs (storage_scan_prefix (sv_storage st) [])))"
    by (simp add: handle_request_def expect_empty_def OP_GET_def OP_SCAN_def OP_DUMP_def)
  moreover have "storage_scan_prefix (sv_storage st) [] = st_map (sv_storage st)"
    using assms(2) by (simp add: scan_prefix_filter storage_inv_def case_prod_unfold)
  ultimately have "\<not> listing_fits st \<Longrightarrow> remote_dump ok_env st = (st, Err Io)"
    by (simp add: remote_dump_def roundtrip_def serve_request_def ok_env_def listing_fits_def)
  then show ?thesis
    using assms remote_dump_ok [OF assms(2)]
    by (auto simp: read_frame_def write_frame_def le_nat_le_bytes_lt Let_def)
qed

theorem frame_cap_witness:
  "read_frame (write_frame [1, 2] @ [3]) = Ok ([1, 2], [3])"
  using frame_cap [of "[1, 2]" demo_leader "[3]"] demo_leader_ok(2) by (simp add: MAX_FRAME_def)

end
