(* ===== verification/Ast.thy ===== *)
theory Ast
  imports Prelude
begin

text \<open>
  The SQL syntax tree, \<open>crates/ciphra-sql/src/lib.rs\<close>: statements, column definitions, literals,
  predicates and \<open>HAVING\<close> predicates, and the \<open>Display\<close> of predicates. Floating-point numbers are
  their IEEE-754 bit patterns; the decimal rendering of a float is the standard library's and is a
  parameter of the \<open>Display\<close> functions.
\<close>

datatype data_type = DInt | DReal | DText | DVector u16

record column_def =
  cd_name :: string
  cd_ty :: data_type
  cd_encrypted :: bool
  cd_primary_key :: bool
  cd_indexed :: bool
  cd_range_indexed :: bool

datatype literal = LNull | LInt i64 | LReal f64 | LText string | LVector "f32 list"

datatype cmp_op = Eq | Ne | Lt | Gt | Le | Ge

datatype expr =
    Compare string cmp_op literal
  | IsNull string bool
  | ENot expr
  | EAnd expr expr
  | EOr expr expr

datatype agg_func = Count | Sum | Avg | Min_agg | Max_agg

datatype agg_arg = Star | Col string

datatype select_item = Item_column string | Item_aggregate agg_func agg_arg

datatype projection = All_columns | Columns "string list" | Items "select_item list"

datatype having_term = Having_column string | Having_aggregate agg_func agg_arg

datatype having_expr =
    HCompare having_term cmp_op literal
  | HNot having_expr
  | HAnd having_expr having_expr
  | HOr having_expr having_expr

record assignment =
  as_column :: string
  as_value :: literal

record order_by =
  ob_column :: string
  ob_descending :: bool
  ob_nearest_to :: "f32 list option"

record limit =
  lim_count :: u64
  lim_offset :: u64

datatype statement =
    Create_table string "column_def list"
  | Drop_table string
  | Create_index string string bool
  | Drop_index string string bool
  | Insert string "string list option" "literal list list"
  | Select projection string "expr option" "string list" "having_expr option" "order_by option" "limit option"
  | Update string "assignment list" "expr option"
  | Delete string "expr option"
  | Explain statement
  | Begin
  | Commit
  | Rollback

type_synonym parse_error = string

fun agg_name :: "agg_func \<Rightarrow> string" where
  "agg_name Count = ''COUNT''"
| "agg_name Sum = ''SUM''"
| "agg_name Avg = ''AVG''"
| "agg_name Min_agg = ''MIN''"
| "agg_name Max_agg = ''MAX''"

section \<open>Display\<close>

fun show_cmp_op :: "cmp_op \<Rightarrow> string" where
  "show_cmp_op Eq = ''=''"
| "show_cmp_op Ne = ''!=''"
| "show_cmp_op Lt = ''<''"
| "show_cmp_op Gt = ''>''"
| "show_cmp_op Le = ''<=''"
| "show_cmp_op Ge = ''>=''"

text \<open>\<open>s.replace('\'', "''")\<close>: every quote doubled.\<close>

definition double_quotes :: "string \<Rightarrow> string" where
  "double_quotes s = concat (map (\<lambda>c. if c = CHR 0x27 then [CHR 0x27, CHR 0x27] else [c]) s)"

fun intersperse :: "string \<Rightarrow> string list \<Rightarrow> string" where
  "intersperse sep [] = []"
| "intersperse sep [x] = x"
| "intersperse sep (x # y # xs) = x @ sep @ intersperse sep (y # xs)"

fun show_literal :: "(f64 \<Rightarrow> string) \<Rightarrow> (f32 \<Rightarrow> string) \<Rightarrow> literal \<Rightarrow> string" where
  "show_literal fmt64 fmt32 LNull = ''NULL''"
| "show_literal fmt64 fmt32 (LInt n) = show_int (sint n)"
| "show_literal fmt64 fmt32 (LReal x) = fmt64 x"
| "show_literal fmt64 fmt32 (LText s) = CHR 0x27 # double_quotes s @ [CHR 0x27]"
| "show_literal fmt64 fmt32 (LVector v) = ''['' @ intersperse '', '' (map fmt32 v) @ '']''"

fun show_expr :: "(f64 \<Rightarrow> string) \<Rightarrow> (f32 \<Rightarrow> string) \<Rightarrow> expr \<Rightarrow> string" where
  "show_expr fmt64 fmt32 (Compare c op v) = c @ '' '' @ show_cmp_op op @ '' '' @ show_literal fmt64 fmt32 v"
| "show_expr fmt64 fmt32 (IsNull c negated) = c @ '' IS '' @ (if negated then ''NOT '' else '''') @ ''NULL''"
| "show_expr fmt64 fmt32 (ENot e) = ''NOT ('' @ show_expr fmt64 fmt32 e @ '')''"
| "show_expr fmt64 fmt32 (EAnd a b) = ''('' @ show_expr fmt64 fmt32 a @ '' AND '' @ show_expr fmt64 fmt32 b @ '')''"
| "show_expr fmt64 fmt32 (EOr a b) = ''('' @ show_expr fmt64 fmt32 a @ '' OR '' @ show_expr fmt64 fmt32 b @ '')''"

end
