(* ===== verification/Engine_Types.thy ===== *)
theory Engine_Types
  imports Storage Ast
begin

text \<open>
  The engine's data, \<open>crates/ciphra-engine/src/lib.rs\<close>: row values, the error type with its
  conversions, statement results, and the table schema of \<open>codec.rs\<close>. \<open>Panicked\<close> is not an error value
  of the code: it stands for a panic (an index out of bounds).

  The \<open>Debug\<close> form of a name in an error message is the name in double quotes with quotes,
  backslashes and line breaks escaped. Where a message shows a value or literal (which may be a
  float), that part of the text is left out.
\<close>

definition debug_str :: "string \<Rightarrow> string" where
  "debug_str s = CHR 0x22 # concat (map (\<lambda>c.
     if c = CHR 0x22 \<or> c = CHR 0x5C then [CHR 0x5C, c]
     else if c = CHR 0x0A then [CHR 0x5C, CHR ''n'']
     else if c = CHR 0x0D then [CHR 0x5C, CHR ''r'']
     else if c = CHR 0x09 then [CHR 0x5C, CHR ''t'']
     else [c]) s) @ [CHR 0x22]"

fun debug_type :: "data_type \<Rightarrow> string" where
  "debug_type DInt = ''Int''"
| "debug_type DReal = ''Real''"
| "debug_type DText = ''Text''"
| "debug_type (DVector d) = ''Vector('' @ show_nat (unat d) @ '')''"

datatype val = VNull | VInt i64 | VReal f64 | VText string | VVector "f32 list"

datatype crypto_error = Open

datatype engine_error =
    Parse_error parse_error
  | Storage_error storage_error
  | Crypto_error crypto_error
  | Bad_passphrase
  | Schema_error string
  | Constraint_error string
  | Audit_error string
  | Type_error string
  | Corrupt_error string
  | Io_error
  | Panicked

type_synonym 'a res = "(engine_error, 'a) result"

datatype kdf_params =
    Pbkdf2 u32
  | Argon2id u32 u32 u32

datatype query_result =
    Created string
  | Dropped string
  | Index_created string string bool
  | Index_dropped string string bool
  | Inserted nat
  | Updated nat
  | Deleted nat
  | Rows "string list" "val list list"
  | Begun
  | Committed
  | Rolled_back

record table_schema =
  ts_name :: string
  ts_columns :: "column_def list"

definition column_index :: "table_schema \<Rightarrow> string \<Rightarrow> nat option" where
  "column_index schema name = position (\<lambda>c. cd_name c = name) (ts_columns schema)"

lemma column_index_Some:
  assumes "column_index schema name = Some i"
  shows "i < length (ts_columns schema) \<and> cd_name (ts_columns schema ! i) = name"
  using position_Some [OF assms [unfolded column_index_def]] by auto

end
