(* ===== verification/Store.thy ===== *)
theory Store
  imports Net Engine_Types
begin

text \<open>
  The engine's sealed-byte store, \<open>Backend\<close> and \<open>Store\<close> of \<open>crates/ciphra-engine/src/lib.rs\<close>: a
  local log or a remote server, with an optional transaction overlay of pending puts
  (\<open>Some\<close> bytes) and deletes (\<open>None\<close>) layered over it. Operations take the environment's outcome
  (\<open>env\<close>): what the disk, local or the server's, and the network do to them.
\<close>

section \<open>Backend and store\<close>

datatype backend = Local storage | Remote server_state

type_synonym overlay = "(bytes, bytes option) btree"

record store =
  sto_backend :: backend
  sto_overlay :: "overlay option"

definition store_local :: "storage \<Rightarrow> store" where
  "store_local s = \<lparr>sto_backend = Local s, sto_overlay = None\<rparr>"

definition store_remote :: "server_state \<Rightarrow> store" where
  "store_remote r = \<lparr>sto_backend = Remote r, sto_overlay = None\<rparr>"

definition in_transaction :: "store \<Rightarrow> bool" where
  "in_transaction s = (sto_overlay s \<noteq> None)"

text \<open>Backend passthroughs; reads do not change the server (\<open>remote_reads_pure\<close>).\<close>

definition storage_res :: "(storage_error, 'a) result \<Rightarrow> 'a res" where
  "storage_res r = map_err Storage_error r"

fun backend_get :: "env \<Rightarrow> backend \<Rightarrow> bytes \<Rightarrow> bytes option res" where
  "backend_get env (Local s) key = Ok (storage_get s key)"
| "backend_get env (Remote r) key = storage_res (snd (remote_get env r key))"

fun backend_scan :: "env \<Rightarrow> backend \<Rightarrow> bytes \<Rightarrow> (bytes \<times> bytes) list res" where
  "backend_scan env (Local s) p = Ok (storage_scan_prefix s p)"
| "backend_scan env (Remote r) p = storage_res (snd (remote_scan_prefix env r p))"

fun backend_put :: "env \<Rightarrow> backend \<Rightarrow> bytes \<Rightarrow> bytes \<Rightarrow> backend \<times> unit res" where
  "backend_put env (Local s) k v = map_prod Local storage_res (storage_put (env_io env) s k v)"
| "backend_put env (Remote r) k v = map_prod Remote storage_res (remote_put env r k v)"

fun backend_commit :: "env \<Rightarrow> backend \<Rightarrow> batch \<Rightarrow> backend \<times> unit res" where
  "backend_commit env (Local s) b = map_prod Local storage_res (storage_commit (env_io env) s b)"
| "backend_commit env (Remote r) b = map_prod Remote storage_res (remote_commit env r b)"

fun backend_dump :: "env \<Rightarrow> backend \<Rightarrow> (bytes \<times> bytes) list res" where
  "backend_dump env (Local s) = Ok (storage_dump s)"
| "backend_dump env (Remote r) = storage_res (snd (remote_dump env r))"

section \<open>Store operations\<close>

definition store_begin :: "store \<Rightarrow> store" where
  "store_begin s = s\<lparr>sto_overlay := Some []\<rparr>"

definition overlay_batch :: "overlay \<Rightarrow> batch" where
  "overlay_batch ov = foldl (\<lambda>b (k, v). case v of Some x \<Rightarrow> batch_put b k x | None \<Rightarrow> batch_delete b k) [] ov"

definition commit_transaction :: "env \<Rightarrow> store \<Rightarrow> store \<times> unit res" where
  "commit_transaction env s =
    (case sto_overlay s of
       None \<Rightarrow> (s, Ok ())
     | Some ov \<Rightarrow>
         let b = overlay_batch ov; s' = s\<lparr>sto_overlay := None\<rparr> in
         if b = [] then (s', Ok ())
         else (case backend_commit env (sto_backend s') b of
                 (be, r) \<Rightarrow> (s'\<lparr>sto_backend := be\<rparr>, r)))"

definition rollback_transaction :: "store \<Rightarrow> store" where
  "rollback_transaction s = s\<lparr>sto_overlay := None\<rparr>"

definition store_get :: "env \<Rightarrow> store \<Rightarrow> bytes \<Rightarrow> bytes option res" where
  "store_get env s key =
    (case sto_overlay s of
       Some ov \<Rightarrow> (case bt_get ov key of
                    Some v \<Rightarrow> Ok v
                  | None \<Rightarrow> backend_get env (sto_backend s) key)
     | None \<Rightarrow> backend_get env (sto_backend s) key)"

definition merge_entry :: "(bytes, bytes) btree \<Rightarrow> bytes \<times> bytes option \<Rightarrow> (bytes, bytes) btree" where
  "merge_entry m e = (case e of (k, Some v) \<Rightarrow> bt_insert k v m | (k, None) \<Rightarrow> bt_remove k m)"

definition store_scan_prefix :: "env \<Rightarrow> store \<Rightarrow> bytes \<Rightarrow> (bytes \<times> bytes) list res" where
  "store_scan_prefix env s p =
    rbind (backend_scan env (sto_backend s) p) (\<lambda>es.
      let merged = bt_collect es in
      Ok (case sto_overlay s of
            None \<Rightarrow> merged
          | Some ov \<Rightarrow> foldl (\<lambda>m e. if prefix p (fst e) then merge_entry m e else m) merged ov))"

definition store_put :: "env \<Rightarrow> store \<Rightarrow> bytes \<Rightarrow> bytes \<Rightarrow> store \<times> unit res" where
  "store_put env s k v =
    (case sto_overlay s of
       Some ov \<Rightarrow> (s\<lparr>sto_overlay := Some (bt_insert k (Some v) ov)\<rparr>, Ok ())
     | None \<Rightarrow> (case backend_put env (sto_backend s) k v of (be, r) \<Rightarrow> (s\<lparr>sto_backend := be\<rparr>, r)))"

definition overlay_insert :: "overlay \<Rightarrow> bool \<times> bytes \<times> bytes \<Rightarrow> overlay" where
  "overlay_insert ov e = (case e of (is_delete, k, v) \<Rightarrow> bt_insert k (if is_delete then None else Some v) ov)"

definition store_commit :: "env \<Rightarrow> store \<Rightarrow> batch \<Rightarrow> store \<times> unit res" where
  "store_commit env s b =
    (case sto_overlay s of
       Some ov \<Rightarrow> (s\<lparr>sto_overlay := Some (foldl overlay_insert ov (batch_entries b))\<rparr>, Ok ())
     | None \<Rightarrow> (case backend_commit env (sto_backend s) b of (be, r) \<Rightarrow> (s\<lparr>sto_backend := be\<rparr>, r)))"

definition store_dump :: "env \<Rightarrow> store \<Rightarrow> (bytes \<times> bytes) list res" where
  "store_dump env s =
    rbind (backend_dump env (sto_backend s)) (\<lambda>es.
      let merged = bt_collect es in
      Ok (case sto_overlay s of None \<Rightarrow> merged | Some ov \<Rightarrow> foldl merge_entry merged ov))"

section \<open>The backend contract for either backend\<close>

lemma map_err_Ok_iff [simp]: "map_err f r = Ok x \<longleftrightarrow> r = Ok x"
  by (cases r) auto

lemma storage_res_Ok [simp]: "storage_res (Ok x) = Ok x" "storage_res r = Ok x \<longleftrightarrow> r = Ok x"
  by (simp_all add: storage_res_def)

lemma roundtrip_pure:
  assumes "\<And>io. fst (handle_request io request st) = st"
  shows "fst (roundtrip env st request) = st"
  using assms [of "env_io env"] serve_request_state [of "env_io env" request st]
  by (auto simp: roundtrip_def split: prod.splits)

lemma remote_reads_pure:
  "fst (remote_get env st k) = st" "fst (remote_scan_prefix env st k) = st" "fst (remote_dump env st) = st"
proof -
  have "fst (handle_request io (OP_GET # r) st) = st" "fst (handle_request io (OP_SCAN # r) st) = st"
    "fst (handle_request io (OP_DUMP # r) st) = st" for io r
    by (simp_all add: handle_request_def OP_GET_def OP_SCAN_def OP_DUMP_def)
  from this [THEN roundtrip_pure]
  show "fst (remote_get env st k) = st" "fst (remote_scan_prefix env st k) = st" "fst (remote_dump env st) = st"
    by (simp_all add: remote_get_def remote_scan_prefix_def remote_dump_def split: prod.splits)
      (metis fst_conv)+
qed

fun backend_inv :: "backend \<Rightarrow> bool" where
  "backend_inv (Local s) = storage_inv s"
| "backend_inv (Remote r) = leader_inv r"

fun backend_storage :: "backend \<Rightarrow> storage" where
  "backend_storage (Local s) = s"
| "backend_storage (Remote r) = sv_storage r"

definition backend_view :: "backend \<Rightarrow> (bytes \<rightharpoonup> bytes)" where
  "backend_view be = map_of (st_map (backend_storage be))"

fun backend_listable :: "backend \<Rightarrow> bool" where
  "backend_listable (Local s) = True"
| "backend_listable (Remote r) = listing_fits r"

lemma remote_batch_ok: "remote_batch b \<Longrightarrow> batch_ok b"
  using remote_batch_wire [of b] wire_batch_ok [of b] by (simp add: wire_batch_def)

interpretation any_backend: kv_backend backend_inv backend_view remote_key backend_listable
  "backend_get ok_env" "backend_scan ok_env" "backend_dump ok_env" "backend_commit ok_env" remote_batch
  "\<lambda>b m. spec_batch m b"
proof unfold_locales
  fix be k p b
  assume inv: "backend_inv be"
  show "backend_get ok_env be k = Ok (backend_view be k)" if "remote_key k" "backend_listable be"
    using inv that local_backend.get_view remote_backend.get_view by (cases be) (auto simp: backend_view_def)
  show "\<exists>es. backend_scan ok_env be p = Ok es \<and> bt_wf es \<and> map_of es = restrict_prefix (backend_view be) p"
    if "remote_key p" "backend_listable be"
    using inv that local_backend.scan_view remote_backend.scan_view by (cases be) (auto simp: backend_view_def)
  show "\<exists>es. backend_dump ok_env be = Ok es \<and> bt_wf es \<and> map_of es = backend_view be" if "backend_listable be"
    using inv that local_backend.dump_view remote_backend.dump_view by (cases be) (auto simp: backend_view_def)
  show "\<exists>be'. backend_commit ok_env be b = (be', Ok ()) \<and> backend_inv be'
      \<and> backend_view be' = spec_batch (backend_view be) b" if "remote_batch b"
    using inv that local_backend.commit_view [of _ b] remote_backend.commit_view [of _ b] remote_batch_ok [of b]
    by (cases be) (fastforce simp: backend_view_def ok_env_def)+
qed

lemma backend_commit_recovery:
  assumes "backend_inv be" "remote_batch b" "backend_commit env be b = (be', r)"
  shows "backend_view be' \<in> {backend_view be, spec_batch (backend_view be) b}
    \<and> (r = Ok () \<longrightarrow> backend_view be' = spec_batch (backend_view be) b)"
proof (cases be)
  case (Local s)
  with assms(3) obtain s' r' where c: "storage_commit (env_io env) s b = (s', r')"
    and "be' = Local s'" "r = storage_res r'" by (cases "storage_commit (env_io env) s b") auto
  with Local commit_recovery [OF _ remote_batch_ok [OF assms(2)] c] assms(1) show ?thesis
    by (auto simp: backend_view_def simp flip: map_of_apply_entries)
next
  case (Remote st)
  with assms(3) obtain st' r' where c: "remote_commit env st b = (st', r')"
    and "be' = Remote st'" "r = storage_res r'" by (cases "remote_commit env st b") auto
  with Remote remote_commit_recovery [OF _ assms(2) c] assms(1) show ?thesis
    by (auto simp: backend_view_def simp flip: map_of_apply_entries)
qed

section \<open>The overlay\<close>

definition layer :: "(bytes \<rightharpoonup> bytes) \<Rightarrow> overlay \<Rightarrow> (bytes \<rightharpoonup> bytes)" where
  "layer m ov = (\<lambda>k. case map_of ov k of None \<Rightarrow> m k | Some x \<Rightarrow> x)"

lemma layer_Nil [simp]: "layer m [] = m"
  by (simp add: layer_def)

lemma layer_insert [simp]: "layer m (bt_insert k x ov) = (layer m ov)(k := x)"
  by (auto simp: layer_def fun_eq_iff)

lemma layer_Cons: "map_of ov k = None \<Longrightarrow> layer m ((k, x) # ov) = layer (m(k := x)) ov"
  by (auto simp: layer_def fun_eq_iff split: option.splits)

lemma overlay_head:
  assumes "bt_wf (e # ov)"
  shows "map_of ov (fst e) = None" "bt_wf ov"
  using assms by (auto simp: bt_wf_Cons map_of_eq_None_iff)

lemma layer_foldl_insert:
  assumes "list_all entry_built b"
  shows "layer m (foldl overlay_insert ov (batch_entries b)) = spec_batch (layer m ov) b"
  using assms
proof (induction b arbitrary: ov)
  case Nil
  then show ?case by (simp add: batch_entries_def spec_batch_def)
next
  case (Cons e b)
  obtain op k v where e: "e = (op, k, v)" by (cases e)
  have "layer m (overlay_insert ov (op = OP_DELETE, k, v)) = spec_op (layer m ov) e"
    using Cons.prems by (auto simp: e overlay_insert_def entry_built_def OP_PUT_def OP_DELETE_def)
  then have "layer m (foldl overlay_insert (overlay_insert ov (op = OP_DELETE, k, v)) (batch_entries b))
      = spec_batch (spec_op (layer m ov) e) b"
    using Cons by simp
  then show ?case by (simp add: batch_entries_def spec_batch_def e)
qed

lemma overlay_insert_wf: "bt_wf ov \<Longrightarrow> bt_wf (foldl overlay_insert ov es)"
  by (induction es arbitrary: ov) (auto simp: overlay_insert_def intro: wf_intros split: prod.splits)

lemma merge_overlay:
  assumes "bt_wf ov" "bt_wf m"
  shows "bt_wf (foldl merge_entry m ov) \<and> map_of (foldl merge_entry m ov) = layer (map_of m) ov"
  using assms
proof (induction ov arbitrary: m)
  case Nil
  then show ?case by simp
next
  case (Cons e ov)
  obtain k x where e: "e = (k, x)" by (cases e)
  have step: "bt_wf (merge_entry m e) \<and> map_of (merge_entry m e) = (map_of m)(k := x)"
    using Cons.prems(2) by (auto simp: merge_entry_def e split: option.splits intro: wf_intros)
  then show ?case
    using Cons.IH [of "merge_entry m e"] overlay_head [OF Cons.prems(1)] by (simp add: e layer_Cons fun_upd_def)
qed

lemma foldl_filter: "foldl (\<lambda>m e. if P e then f m e else m) m xs = foldl f m (filter P xs)"
  by (induction xs arbitrary: m) auto

lemma layer_restrict:
  "layer (restrict_prefix m p) (filter (\<lambda>e. prefix p (fst e)) ov) = restrict_prefix (layer m ov) p"
proof
  fix k
  have "map_of (filter (\<lambda>e. prefix p (fst e)) ov) k = (if prefix p k then map_of ov k else None)"
    by (induction ov) auto
  then show "layer (restrict_prefix m p) (filter (\<lambda>e. prefix p (fst e)) ov) k = restrict_prefix (layer m ov) p k"
    by (simp add: layer_def restrict_prefix_def)
qed

lemma overlay_batch_map:
  "overlay_batch ov = map (\<lambda>(k, v). case v of Some x \<Rightarrow> (OP_PUT, k, x) | None \<Rightarrow> (OP_DELETE, k, [])) ov"
proof -
  have "foldl (\<lambda>b (k, v). case v of Some x \<Rightarrow> batch_put b k x | None \<Rightarrow> batch_delete b k) b ov
      = b @ map (\<lambda>(k, v). case v of Some x \<Rightarrow> (OP_PUT, k, x) | None \<Rightarrow> (OP_DELETE, k, [])) ov" for b
    by (induction ov arbitrary: b) (auto simp: batch_put_def batch_delete_def split: option.splits)
  then show ?thesis by (simp add: overlay_batch_def)
qed

lemma overlay_batch_spec:
  assumes "bt_wf ov"
  shows "spec_batch m (overlay_batch ov) = layer m ov"
  using assms
proof (induction ov arbitrary: m)
  case Nil
  then show ?case by (simp add: overlay_batch_map spec_batch_def)
next
  case (Cons e ov)
  obtain k x where e: "e = (k, x)" by (cases e)
  have "spec_batch (m(k := x)) (overlay_batch ov) = layer (m(k := x)) ov"
    using Cons overlay_head(2) by blast
  then show ?case
    using overlay_head(1) [OF Cons.prems]
    by (auto simp: e overlay_batch_map spec_batch_def layer_Cons OP_PUT_def OP_DELETE_def split: option.splits)
qed

section \<open>The store fulfils the same contract\<close>

definition store_inv :: "store \<Rightarrow> bool" where
  "store_inv s \<longleftrightarrow> backend_inv (sto_backend s) \<and> (case sto_overlay s of None \<Rightarrow> True | Some ov \<Rightarrow> bt_wf ov)"

definition store_view :: "store \<Rightarrow> (bytes \<rightharpoonup> bytes)" where
  "store_view s = layer (backend_view (sto_backend s)) (case sto_overlay s of None \<Rightarrow> [] | Some ov \<Rightarrow> ov)"

definition store_listable :: "store \<Rightarrow> bool" where
  "store_listable s = backend_listable (sto_backend s)"

lemma remote_batch_built: "remote_batch b \<Longrightarrow> list_all entry_built b"
  by (auto simp: remote_batch_def list_all_iff wire_entry_ok_def)

lemma store_get_view:
  assumes "store_inv s" "remote_key k" "store_listable s"
  shows "store_get ok_env s k = Ok (store_view s k)"
  using assms any_backend.get_view
  by (auto simp: store_get_def store_view_def store_inv_def store_listable_def layer_def split: option.splits)

lemma store_scan_view:
  assumes "store_inv s" "remote_key p" "store_listable s"
  shows "\<exists>es. store_scan_prefix ok_env s p = Ok es \<and> bt_wf es \<and> map_of es = restrict_prefix (store_view s) p"
proof -
  obtain es where es: "backend_scan ok_env (sto_backend s) p = Ok es" "bt_wf es"
    "map_of es = restrict_prefix (backend_view (sto_backend s)) p"
    using any_backend.scan_view assms by (auto simp: store_inv_def store_listable_def)
  show ?thesis
  proof (cases "sto_overlay s")
    case None
    with es show ?thesis by (simp add: store_scan_prefix_def bt_collect_id store_view_def)
  next
    case (Some ov)
    let ?ov = "filter (\<lambda>e. prefix p (fst e)) ov"
    have "bt_wf ?ov" using assms(1) Some by (simp add: store_inv_def bt_wf_def sorted_wrt_map sorted_wrt_filter)
    from merge_overlay [OF this es(2)] es Some show ?thesis
      by (simp add: store_scan_prefix_def bt_collect_id store_view_def foldl_filter layer_restrict)
  qed
qed

lemma store_dump_view:
  assumes "store_inv s" "store_listable s"
  shows "\<exists>es. store_dump ok_env s = Ok es \<and> bt_wf es \<and> map_of es = store_view s"
proof -
  obtain es where es: "backend_dump ok_env (sto_backend s) = Ok es" "bt_wf es"
    "map_of es = backend_view (sto_backend s)"
    using any_backend.dump_view assms by (auto simp: store_inv_def store_listable_def)
  with merge_overlay [OF _ es(2)] assms(1) show ?thesis
    by (auto simp: store_dump_def bt_collect_id store_view_def store_inv_def split: option.splits)
qed

lemma store_commit_view:
  assumes "store_inv s" "remote_batch b"
  shows "\<exists>s'. store_commit ok_env s b = (s', Ok ()) \<and> store_inv s' \<and> store_view s' = spec_batch (store_view s) b"
proof (cases "sto_overlay s")
  case None
  with any_backend.commit_view [of "sto_backend s" b] assms show ?thesis
    by (auto simp: store_commit_def store_inv_def store_view_def)
next
  case (Some ov)
  with assms layer_foldl_insert [OF remote_batch_built [OF assms(2)]] overlay_insert_wf show ?thesis
    by (auto simp: store_commit_def store_inv_def store_view_def)
qed

interpretation overlay_store: kv_backend store_inv store_view remote_key store_listable
  "store_get ok_env" "store_scan_prefix ok_env" "store_dump ok_env" "store_commit ok_env" remote_batch
  "\<lambda>b m. spec_batch m b"
  by unfold_locales (fact store_get_view store_scan_view store_dump_view store_commit_view)+

section \<open>Transactions\<close>

text \<open>Statements executed inside a transaction: each commits a batch into the overlay.\<close>

definition txn_run :: "(env \<times> batch) list \<Rightarrow> store \<Rightarrow> store" where
  "txn_run bs s = foldl (\<lambda>s (env, b). fst (store_commit env s b)) s bs"

lemma txn_run_overlay:
  assumes "list_all (\<lambda>(env, b). list_all entry_built b) bs" "sto_overlay s = Some ov" "bt_wf ov"
  shows "\<exists>ov'. txn_run bs s = s\<lparr>sto_overlay := Some ov'\<rparr> \<and> bt_wf ov'
    \<and> layer m ov' = foldl spec_batch (layer m ov) (map snd bs)"
  using assms
proof (induction bs arbitrary: s ov)
  case Nil
  then have "s = s\<lparr>sto_overlay := Some ov\<rparr>" by simp
  with Nil show ?case by (intro exI [of _ ov]) (simp add: txn_run_def)
next
  case (Cons eb bs)
  obtain env b where eb: "eb = (env, b)" by (cases eb)
  let ?ov = "foldl overlay_insert ov (batch_entries b)"
  have "fst (store_commit env s b) = s\<lparr>sto_overlay := Some ?ov\<rparr>"
    using Cons.prems by (simp add: store_commit_def)
  moreover have "layer m ?ov = spec_batch (layer m ov) b"
    using Cons.prems by (intro layer_foldl_insert) (simp add: eb)
  ultimately show ?case
    using Cons.IH [of "s\<lparr>sto_overlay := Some ?ov\<rparr>" ?ov] Cons.prems overlay_insert_wf [OF Cons.prems(3)]
    by (auto simp: txn_run_def eb)
qed

lemma commit_transaction_outcomes:
  assumes "store_inv s" "sto_overlay s = Some ov" "remote_batch (overlay_batch ov)"
    and "commit_transaction env s = (s', r)"
  shows "sto_overlay s' = None \<and> store_view s' \<in> {backend_view (sto_backend s), store_view s}
    \<and> (r = Ok () \<longrightarrow> store_view s' = store_view s)"
proof -
  have spec: "spec_batch m (overlay_batch ov) = layer m ov" for m
    using assms(1,2) by (intro overlay_batch_spec) (simp add: store_inv_def)
  show ?thesis
  proof (cases "overlay_batch ov = []")
    case True
    with assms spec show ?thesis
      by (auto simp: commit_transaction_def store_view_def Let_def spec_batch_def)
  next
    case False
    obtain be' r' where c: "backend_commit env (sto_backend s) (overlay_batch ov) = (be', r')" by fastforce
    with assms(2,4) False have "s' = s\<lparr>sto_overlay := None, sto_backend := be'\<rparr>" "r' = r"
      by (auto simp: commit_transaction_def Let_def)
    with backend_commit_recovery [OF _ assms(3) c] assms(1,2) show ?thesis
      by (auto simp: store_inv_def store_view_def spec)
  qed
qed

section \<open>Properties of the store\<close>

definition demo_store :: store where
  "demo_store = store_local empty_store"

lemma demo_store_ok: "store_inv demo_store" "\<not> in_transaction demo_store" "store_listable demo_store"
  by (simp_all add: demo_store_def store_local_def store_inv_def in_transaction_def empty_store_inv
      store_listable_def)

text \<open>C21: the store is an ordered map on either backend, inside and outside a transaction, where
  nothing fails and everything fits: with no disk or network failure (\<open>ok_env\<close>), a remote backend's
  listing within a frame (\<open>store_listable\<close>), and a key and a batch that fit in a request. Reads then
  return the layered view (read your writes), a prefix scan is the sorted listing of the view under
  the prefix, a dump is the sorted listing of all of it, and a commit turns the view into the one
  the batch describes.\<close>

theorem store_refines_map:
  assumes "store_inv s" and "store_listable s" and "remote_key k" and "remote_batch b"
  shows "store_get ok_env s k = Ok (store_view s k)
    \<and> (\<exists>es ds. store_dump ok_env s = Ok ds \<and> sorted_wrt (<) (map fst ds) \<and> map_of ds = store_view s
        \<and> store_scan_prefix ok_env s k = Ok es \<and> es = filter (\<lambda>(key, v). prefix k key) ds)
    \<and> (\<exists>s'. store_commit ok_env s b = (s', Ok ()) \<and> store_inv s'
        \<and> store_view s' = spec_batch (store_view s) b)"
proof -
  obtain ds where ds: "store_dump ok_env s = Ok ds" "bt_wf ds" "map_of ds = store_view s"
    using overlay_store.dump_view [OF assms(1,2)] by blast
  obtain es where es: "store_scan_prefix ok_env s k = Ok es"
    using overlay_store.scan_view [OF assms(1,3,2)] by blast
  from overlay_store.scan_agrees_with_dump [OF assms(1,3,2) es ds(1)] es ds
    overlay_store.get_view [OF assms(1,3,2)] overlay_store.commit_view [OF assms(1,4)]
  show ?thesis by (auto simp: bt_wf_def)
qed

text \<open>The instance: a remote leader holding one pair, and a transaction that has written another.\<close>

definition demo_remote_txn :: store where
  "demo_remote_txn = \<lparr>sto_backend = Remote demo_data_leader, sto_overlay = Some [([3], Some [4])]\<rparr>"

lemma demo_remote_txn_ok:
  "store_inv demo_remote_txn" "store_listable demo_remote_txn" "store_view demo_remote_txn = [[1] \<mapsto> [2], [3] \<mapsto> [4]]"
  using demo_data_leader_ok demo_data_ok(2)
  by (auto simp: demo_remote_txn_def store_inv_def store_listable_def store_view_def backend_view_def layer_def
      bt_wf_def demo_data_leader_def server_new_def fun_eq_iff)

theorem store_refines_map_witness:
  "store_get ok_env demo_remote_txn [1] = Ok (Some [2])
    \<and> (\<exists>ds. store_dump ok_env demo_remote_txn = Ok ds \<and> map_of ds = [[1] \<mapsto> [2], [3] \<mapsto> [4]])
    \<and> (\<exists>s'. store_commit ok_env demo_remote_txn [(OP_DELETE, [1], [])] = (s', Ok ()) \<and> store_view s' = [[3] \<mapsto> [4]])"
proof -
  have "remote_key [1]" "remote_batch [(OP_DELETE, [1], [])]"
    by (simp_all add: remote_key_def remote_batch_def frame_fits_def put_bytes_def MAX_FRAME_def
        TAG_LEN_def wire_entry_ok_def entry_built_def pair_ok_def encode_batch_def batch_entries_def
        encode_batch_entry_def)
  note th = store_refines_map [OF demo_remote_txn_ok(1,2) this, unfolded demo_remote_txn_ok(3)]
  have "spec_batch [[1] \<mapsto> [2], [3] \<mapsto> [4]] [(OP_DELETE, [1], [])] = [[3] \<mapsto> [4]]"
    by (auto simp: spec_batch_def OP_DELETE_def OP_PUT_def)
  with th show ?thesis by auto
qed

text \<open>C4: transactions are isolated and atomic. Batches committed inside a transaction leave the
  backend untouched whatever the environment does and are visible to the transaction's own reads;
  a rollback restores the store from before \<open>BEGIN\<close> exactly; and committing the transaction, under
  every outcome of disk and network, ends it with either none or all of the writes, all of them
  when it reports success.\<close>

theorem transaction_atomic:
  assumes "store_inv s" and "\<not> in_transaction s"
    and "list_all (\<lambda>(env, b). list_all entry_built b) bs"
    and "t = txn_run bs (store_begin s)"
    and "view = foldl spec_batch (store_view s) (map snd bs)"
  shows "sto_backend t = sto_backend s \<and> store_view t = view
    \<and> (remote_key k \<and> store_listable s \<longrightarrow> store_get ok_env t k = Ok (view k))
    \<and> rollback_transaction t = s
    \<and> (\<forall>env s' r. remote_batch (overlay_batch (the (sto_overlay t))) \<and> commit_transaction env t = (s', r) \<longrightarrow>
         \<not> in_transaction s' \<and> store_view s' \<in> {store_view s, view}
         \<and> (r = Ok () \<longrightarrow> store_view s' = view))"
proof -
  have none: "sto_overlay s = None" using assms(2) by (simp add: in_transaction_def)
  obtain ov where ov: "t = s\<lparr>sto_overlay := Some ov\<rparr>" "bt_wf ov"
    "layer (backend_view (sto_backend s)) ov
      = foldl spec_batch (backend_view (sto_backend s)) (map snd bs)"
    using txn_run_overlay [OF assms(3), of "store_begin s" "[]" "backend_view (sto_backend s)"]
    by (auto simp: assms(4) store_begin_def)
  have view: "store_view s = backend_view (sto_backend s)" "store_view t = view"
    using ov none by (auto simp: store_view_def assms(5))
  have inv: "store_inv t" using assms(1) ov by (simp add: store_inv_def)
  have listable: "store_listable t = store_listable s" by (simp add: store_listable_def ov)
  have "\<not> in_transaction s' \<and> store_view s' \<in> {store_view s, view} \<and> (r = Ok () \<longrightarrow> store_view s' = view)"
    if "remote_batch (overlay_batch (the (sto_overlay t)))" "commit_transaction env t = (s', r)" for env s' r
    using commit_transaction_outcomes [OF inv, of ov env s' r] that
    by (simp add: ov(1) in_transaction_def view [unfolded ov(1)])
  moreover have "rollback_transaction t = s"
    using none by (simp add: rollback_transaction_def ov)
  ultimately show ?thesis
    using ov view store_get_view [OF inv, of k] listable by auto
qed

theorem transaction_atomic_witness:
  "rollback_transaction (txn_run [(ok_env, [(OP_PUT, [1], [2])])] (store_begin demo_store)) = demo_store"
  using transaction_atomic [OF demo_store_ok(1,2), of "[(ok_env, [(OP_PUT, [1], [2])])]", OF _ refl refl]
  by (simp add: entry_built_def)

end
