(* ===== verification/Codec.thy ===== *)
theory Codec
  imports Engine_Types
begin

text \<open>
  The binary codecs of \<open>crates/ciphra-engine/src/codec.rs\<close>: sealed schemas, rows and range-index
  blobs. The cursor \<open>pos\<close> of the code is the remaining input here; \<open>buf.get(pos..pos + n)\<close> is
  \<open>take_field n\<close>.
\<close>

section \<open>Codecs\<close>

definition SCHEMA_VERSION :: byte where "SCHEMA_VERSION = 2"
definition TAG_NULL :: byte where "TAG_NULL = 0"
definition TAG_INT :: byte where "TAG_INT = 1"
definition TAG_TEXT :: byte where "TAG_TEXT = 2"
definition TAG_VECTOR :: byte where "TAG_VECTOR = 3"
definition TAG_REAL :: byte where "TAG_REAL = 4"

definition FLAG_ENCRYPTED :: byte where "FLAG_ENCRYPTED = push_bit 0 1"
definition FLAG_PRIMARY_KEY :: byte where "FLAG_PRIMARY_KEY = push_bit 1 1"
definition FLAG_INDEXED :: byte where "FLAG_INDEXED = push_bit 2 1"
definition FLAG_RANGE_INDEXED :: byte where "FLAG_RANGE_INDEXED = push_bit 3 1"

lemmas tag_defs = TAG_NULL_def TAG_INT_def TAG_TEXT_def TAG_VECTOR_def TAG_REAL_def

definition encode_flags :: "column_def \<Rightarrow> byte" where
  "encode_flags c =
     (if cd_encrypted c then FLAG_ENCRYPTED else 0)
     OR (if cd_primary_key c then FLAG_PRIMARY_KEY else 0)
     OR (if cd_indexed c then FLAG_INDEXED else 0)
     OR (if cd_range_indexed c then FLAG_RANGE_INDEXED else 0)"

fun encode_type :: "data_type \<Rightarrow> bytes" where
  "encode_type DInt = [TAG_INT]"
| "encode_type DReal = [TAG_REAL]"
| "encode_type DText = [TAG_TEXT]"
| "encode_type (DVector dim) = TAG_VECTOR # le_bytes 2 (unat dim)"

definition encode_column :: "column_def \<Rightarrow> bytes" where
  "encode_column c = encode_flags c # encode_type (cd_ty c)
     @ le_bytes 2 (length (cd_name c)) @ as_bytes (cd_name c)"

definition encode_schema :: "table_schema \<Rightarrow> bytes" where
  "encode_schema schema = SCHEMA_VERSION # le_bytes 2 (length (ts_name schema)) @ as_bytes (ts_name schema)
     @ le_bytes 2 (length (ts_columns schema)) @ concat (map encode_column (ts_columns schema))"

definition bad_schema :: engine_error where
  "bad_schema = Corrupt_error ''bad schema record in catalog''"

definition take_field :: "'e \<Rightarrow> nat \<Rightarrow> ('e, bytes) parser" where
  "take_field e n buf = (if length buf < n then Err e else Ok (take n buf, drop n buf))"

definition take_column :: "(engine_error, column_def) parser" where
  "take_column buf =
    (if length buf < 4 then Err bad_schema
     else
       let flags = buf ! 0; tag = buf ! 1 in
       rbind (if tag = TAG_INT then Ok (DInt, 0)
              else if tag = TAG_REAL then Ok (DReal, 0)
              else if tag = TAG_TEXT then Ok (DText, 0)
              else if tag = TAG_VECTOR then
                if length buf < 6 then Err bad_schema
                else Ok (DVector (word_of_nat (le_nat (take 2 (drop 2 buf)))), 2)
              else Err bad_schema) (\<lambda>(ty, extra).
       let col_name_len = le_nat (take 2 (drop (2 + extra) buf)) in
       rbind (take_field bad_schema col_name_len (drop (4 + extra) buf)) (\<lambda>(raw, rest).
       rbind (ok_or bad_schema (from_utf8 raw)) (\<lambda>col_name.
       Ok (\<lparr>cd_name = col_name, cd_ty = ty,
            cd_encrypted = (flags AND FLAG_ENCRYPTED \<noteq> 0),
            cd_primary_key = (flags AND FLAG_PRIMARY_KEY \<noteq> 0),
            cd_indexed = (flags AND FLAG_INDEXED \<noteq> 0),
            cd_range_indexed = (flags AND FLAG_RANGE_INDEXED \<noteq> 0)\<rparr>, rest)))))"

definition decode_schema :: "bytes \<Rightarrow> table_schema res" where
  "decode_schema buf =
    (if length buf < 5 \<or> buf ! 0 \<noteq> SCHEMA_VERSION then Err bad_schema
     else
       let name_len = le_nat (take 2 (drop 1 buf)) in
       if length buf < 3 + name_len + 2 then Err bad_schema
       else
         rbind (ok_or bad_schema (from_utf8 (take name_len (drop 3 buf)))) (\<lambda>name.
         let ncols = le_nat (take 2 (drop (3 + name_len) buf)) in
         rbind (parse_times take_column ncols (drop (5 + name_len) buf)) (\<lambda>(columns, rest).
         if rest \<noteq> [] then Err bad_schema
         else Ok \<lparr>ts_name = name, ts_columns = columns\<rparr>)))"

fun encode_value :: "val \<Rightarrow> bytes" where
  "encode_value VNull = [TAG_NULL]"
| "encode_value (VInt n) = TAG_INT # le_bytes 8 (unat n)"
| "encode_value (VReal x) = TAG_REAL # le_bytes 8 (unat x)"
| "encode_value (VText s) = TAG_TEXT # le_bytes 4 (length s) @ as_bytes s"
| "encode_value (VVector v) = TAG_VECTOR # le_bytes 4 (length v) @ concat (map (\<lambda>x. le_bytes 4 (unat x)) v)"

definition encode_row :: "val list \<Rightarrow> bytes" where
  "encode_row values = le_bytes 2 (length values) @ concat (map encode_value values)"

definition bad_row :: engine_error where "bad_row = Corrupt_error ''bad row record''"

definition take_f32 :: "(engine_error, f32) parser" where
  "take_f32 buf = rbind (take_field bad_row 4 buf) (\<lambda>(bits, rest). Ok (word_of_nat (le_nat bits), rest))"

definition take_value :: "(engine_error, val) parser" where
  "take_value buf =
    (case buf of
       [] \<Rightarrow> Err bad_row
     | tag # r \<Rightarrow>
        if tag = TAG_NULL then Ok (VNull, r)
        else if tag = TAG_INT then
          rbind (take_field bad_row 8 r) (\<lambda>(bs, rest). Ok (VInt (word_of_nat (le_nat bs)), rest))
        else if tag = TAG_REAL then
          rbind (take_field bad_row 8 r) (\<lambda>(bs, rest). Ok (VReal (word_of_nat (le_nat bs)), rest))
        else if tag = TAG_TEXT then
          rbind (take_field bad_row 4 r) (\<lambda>(len_bytes, r').
          rbind (take_field bad_row (le_nat len_bytes) r') (\<lambda>(raw, rest).
          rbind (ok_or bad_row (from_utf8 raw)) (\<lambda>text. Ok (VText text, rest))))
        else if tag = TAG_VECTOR then
          rbind (take_field bad_row 4 r) (\<lambda>(len_bytes, r').
          rbind (parse_times take_f32 (le_nat len_bytes) r') (\<lambda>(v, rest). Ok (VVector v, rest)))
        else Err bad_row)"

definition decode_row :: "bytes \<Rightarrow> val list res" where
  "decode_row buf =
    rbind (take_field bad_row 2 buf) (\<lambda>(ncols, r).
    rbind (parse_times take_value (le_nat ncols) r) (\<lambda>(values, rest).
    if rest \<noteq> [] then Err bad_row else Ok values))"

definition encode_range_entry :: "val \<times> u64 \<Rightarrow> bytes" where
  "encode_range_entry e = (case e of (v, rowid) \<Rightarrow>
     let encoded = encode_row [v] in
     le_bytes 4 (length encoded) @ encoded @ le_bytes 8 (unat rowid))"

definition encode_range_blob :: "(val \<times> u64) list \<Rightarrow> bytes" where
  "encode_range_blob entries = le_bytes 8 (length entries) @ concat (map encode_range_entry entries)"

definition bad_blob :: engine_error where "bad_blob = Corrupt_error ''bad range-index blob''"

definition take_range_entry :: "(engine_error, val \<times> u64) parser" where
  "take_range_entry buf =
    rbind (take_field bad_blob 4 buf) (\<lambda>(len_bytes, r).
    rbind (take_field bad_blob (le_nat len_bytes) r) (\<lambda>(raw, r').
    rbind (decode_row raw) (\<lambda>row.
    case row of
      [v] \<Rightarrow> rbind (take_field bad_blob 8 r') (\<lambda>(id_bytes, rest). Ok ((v, word_of_nat (le_nat id_bytes)), rest))
    | _ \<Rightarrow> Err bad_blob)))"

definition decode_range_blob :: "bytes \<Rightarrow> (val \<times> u64) list res" where
  "decode_range_blob buf =
    rbind (take_field bad_blob 8 buf) (\<lambda>(count, r).
    rbind (parse_times take_range_entry (le_nat count) r) (\<lambda>(entries, rest).
    if rest \<noteq> [] then Err bad_blob else Ok entries))"

section \<open>Laws of the codecs\<close>

lemma take_field_append [codec_simps]: "length xs = n \<Longrightarrow> take_field e n (xs @ r) = Ok (xs, r)"
  by (simp add: take_field_def)

lemma take_field_Ok [simp]:
  "take_field e n buf = Ok (xs, r) \<longleftrightarrow> length xs = n \<and> buf = xs @ r"
  by (auto simp: take_field_def min_def)

lemma word_bytes_field:
  assumes "256 ^ n = (2::nat) ^ LENGTH('a::len)" "length bs = n"
  shows "le_bytes n (unat (word_of_nat (le_nat bs) :: 'a word)) = bs"
proof -
  have "le_nat bs < 2 ^ LENGTH('a)" using le_nat_lt [of bs] by (simp only: assms)
  then have "unat (word_of_nat (le_nat bs) :: 'a word) = le_nat bs"
    by (simp add: unsigned_of_nat take_bit_nat_eq_self)
  then show ?thesis using le_bytes_le_nat [of bs] assms(2) by simp
qed

fun val_ok :: "val \<Rightarrow> bool" where
  "val_ok (VText s) = (utf8_valid (as_bytes s) \<and> length s < 2 ^ 32)"
| "val_ok (VVector v) = (length v < 2 ^ 32)"
| "val_ok v = True"

definition row_ok :: "val list \<Rightarrow> bool" where
  "row_ok vs \<longleftrightarrow> list_all val_ok vs \<and> length vs < 2 ^ 16"

interpretation f32_words: exact_parser "\<lambda>x :: f32. le_bytes 4 (unat x)" take_f32 "\<lambda>_. True"
  by unfold_locales
    (auto simp: take_f32_def take_field_append word_le_bytes_roundtrip word_bytes_field)

lemma take_value_encode:
  assumes "val_ok v"
  shows "take_value (encode_value v @ r) = Ok (v, r)"
proof (cases v)
  case (VVector fs)
  have "list_all (\<lambda>_. True) fs" by (simp add: list_all_iff)
  with VVector assms f32_words.parse_times_enc [of fs r] show ?thesis
    by (simp add: take_value_def tag_defs take_field_append le_nat_le_bytes_lt)
qed (use assms in \<open>simp_all add: take_value_def tag_defs take_field_append word_le_bytes_roundtrip
    le_nat_le_bytes_lt\<close>)

lemma take_value_exact:
  assumes "take_value buf = Ok (v, r)"
  shows "val_ok v \<and> buf = encode_value v @ r"
proof -
  obtain tag b where buf: "buf = tag # b"
    using assms by (cases buf) (auto simp: take_value_def)
  have len: "le_bytes 4 (le_nat xs) = xs \<and> le_nat xs < 2 ^ 32" if "length xs = 4" for xs
    using le_bytes_le_nat [of xs] le_nat_lt [of xs] that by simp
  consider "tag = TAG_NULL" | "tag = TAG_INT" | "tag = TAG_REAL" | "tag = TAG_TEXT" | "tag = TAG_VECTOR"
    using assms by (auto simp: take_value_def buf split: if_splits)
  then show ?thesis
  proof cases
    case 5
    then obtain lb r' fs where b: "b = lb @ r'" "length lb = 4"
      and fs: "parse_times take_f32 (le_nat lb) r' = Ok (fs, r)" and v: "v = VVector fs"
      using assms by (auto simp: take_value_def buf tag_defs)
    from f32_words.parse_times_exact [OF fs] parse_times_length [OF fs] len [OF b(2)] show ?thesis
      by (simp add: buf b v 5)
  qed (use assms len in \<open>auto simp: take_value_def buf tag_defs word_bytes_field\<close>)
qed

interpretation row_values: exact_parser encode_value take_value val_ok
  by unfold_locales (fact take_value_encode, fact take_value_exact)

lemma decode_row_encode: "row_ok vs \<Longrightarrow> decode_row (encode_row vs) = Ok vs"
  using row_values.parse_times_enc [of vs "[]"]
  by (simp add: decode_row_def encode_row_def row_ok_def take_field_append le_nat_le_bytes_lt)

lemma decode_row_exact:
  assumes "decode_row buf = Ok vs"
  shows "row_ok vs \<and> buf = encode_row vs"
proof -
  obtain nc r where buf: "buf = nc @ r" "length nc = 2"
    and vs: "parse_times take_value (le_nat nc) r = Ok (vs, [])"
    using assms by (auto simp: decode_row_def split: if_splits)
  from row_values.parse_times_exact [OF vs] parse_times_length [OF vs] buf(2)
    le_bytes_le_nat [of nc] le_nat_lt [of nc]
  show ?thesis by (simp add: row_ok_def encode_row_def buf(1))
qed

definition range_entry_ok :: "val \<times> u64 \<Rightarrow> bool" where
  "range_entry_ok e \<longleftrightarrow> val_ok (fst e) \<and> length (encode_row [fst e]) < 2 ^ 32"

lemma take_range_entry_exact:
  assumes "take_range_entry buf = Ok (e, r)"
  shows "range_entry_ok e \<and> buf = encode_range_entry e @ r"
proof -
  obtain lb raw v ib where buf: "buf = lb @ raw @ ib @ r" "length lb = 4" "length raw = le_nat lb" "length ib = 8"
    and row: "decode_row raw = Ok [v]" and e: "e = (v, word_of_nat (le_nat ib))"
    using assms by (auto simp: take_range_entry_def split: list.splits) (metis list.exhaust)
  from decode_row_exact [OF row] buf le_bytes_le_nat [of lb] le_nat_lt [of lb]
  show ?thesis
    by (auto simp: e range_entry_ok_def row_ok_def encode_range_entry_def word_bytes_field Let_def)
qed

interpretation range_entries: exact_parser encode_range_entry take_range_entry range_entry_ok
proof unfold_locales
  fix x :: "val \<times> u64" and rest
  assume "range_entry_ok x"
  then show "take_range_entry (encode_range_entry x @ rest) = Ok (x, rest)"
    by (cases x) (simp add: take_range_entry_def encode_range_entry_def Let_def take_field_append
        range_entry_ok_def le_nat_le_bytes_lt decode_row_encode row_ok_def word_le_bytes_roundtrip)
qed (fact take_range_entry_exact)

lemma decode_range_blob_encode:
  assumes "list_all range_entry_ok es" "length es < 2 ^ 64"
  shows "decode_range_blob (encode_range_blob es) = Ok es"
  using range_entries.parse_times_enc [OF assms(1), of "[]"] assms(2)
  by (simp add: decode_range_blob_def encode_range_blob_def take_field_append le_nat_le_bytes_lt)

lemma decode_range_blob_exact:
  assumes "decode_range_blob buf = Ok es"
  shows "list_all range_entry_ok es \<and> buf = encode_range_blob es"
proof -
  obtain nb r where buf: "buf = nb @ r" "length nb = 8"
    and es: "parse_times take_range_entry (le_nat nb) r = Ok (es, [])"
    using assms by (auto simp: decode_range_blob_def split: if_splits)
  from range_entries.parse_times_exact [OF es] parse_times_length [OF es] le_bytes_le_nat [of nb] buf
  show ?thesis by (simp add: encode_range_blob_def)
qed

section \<open>Schemas\<close>

definition column_ok :: "column_def \<Rightarrow> bool" where
  "column_ok c \<longleftrightarrow> utf8_valid (as_bytes (cd_name c)) \<and> length (cd_name c) < 2 ^ 16"

definition schema_ok :: "table_schema \<Rightarrow> bool" where
  "schema_ok s \<longleftrightarrow> utf8_valid (as_bytes (ts_name s)) \<and> length (ts_name s) < 2 ^ 16
    \<and> list_all column_ok (ts_columns s) \<and> length (ts_columns s) < 2 ^ 16"

lemma encode_flags_bits:
  "encode_flags c AND FLAG_ENCRYPTED \<noteq> 0 \<longleftrightarrow> cd_encrypted c"
  "encode_flags c AND FLAG_PRIMARY_KEY \<noteq> 0 \<longleftrightarrow> cd_primary_key c"
  "encode_flags c AND FLAG_INDEXED \<noteq> 0 \<longleftrightarrow> cd_indexed c"
  "encode_flags c AND FLAG_RANGE_INDEXED \<noteq> 0 \<longleftrightarrow> cd_range_indexed c"
  by (cases "cd_encrypted c"; cases "cd_primary_key c"; cases "cd_indexed c"; cases "cd_range_indexed c";
      simp add: encode_flags_def FLAG_ENCRYPTED_def FLAG_PRIMARY_KEY_def FLAG_INDEXED_def
        FLAG_RANGE_INDEXED_def)+

lemma take_column_encode:
  assumes "column_ok c"
  shows "take_column (encode_column c @ r) = Ok (c, r)"
proof -
  have "length (cd_name c) < 256 ^ 2" "utf8_valid (as_bytes (cd_name c))"
    using assms by (simp_all add: column_ok_def)
  note facts = le_nat_le_bytes_lt [OF this(1)] from_utf8_as_bytes [OF this(2)]
  show ?thesis
  proof (cases "cd_ty c")
    case (DVector dim)
    have dim: "(word_of_nat (le_nat (le_bytes 2 (unat dim))) :: u16) = dim"
      by (rule word_le_bytes_roundtrip) simp
    have d6: "drop 6 ([a, b] @ le_bytes 2 x @ le_bytes 2 y @ z) = z"
      "take 2 (drop 4 ([a, b] @ le_bytes 2 x @ le_bytes 2 y @ z)) = le_bytes 2 y"
      "take 2 (drop 2 ([a, b] @ le_bytes 2 x @ le_bytes 2 y @ z)) = le_bytes 2 x" for a b :: byte and x y z
      by (simp_all add: numeral_eq_Suc)
    show ?thesis
      using DVector facts dim d6 [of "encode_flags c" TAG_VECTOR "unat dim" "length (cd_name c)" "as_bytes (cd_name c) @ r"]
      by (simp add: take_column_def encode_column_def tag_defs Let_def encode_flags_bits take_field_append
          del: take_field_Ok)
  qed (use facts in \<open>simp_all add: take_column_def encode_column_def tag_defs Let_def encode_flags_bits
      take_field_append del: take_field_Ok\<close>)
qed

interpretation schema_columns: parser_codec encode_column take_column column_ok
  by unfold_locales (fact take_column_encode)

lemma decode_schema_prefix:
  assumes "utf8_valid (as_bytes name)" "length name < 2 ^ 16"
  shows "decode_schema (SCHEMA_VERSION # le_bytes 2 (length name) @ as_bytes name @ le_bytes 2 n @ body)
    = rbind (parse_times take_column (n mod 2 ^ 16) body) (\<lambda>(columns, rest).
        if rest \<noteq> [] then Err bad_schema else Ok \<lparr>ts_name = name, ts_columns = columns\<rparr>)"
proof -
  let ?b = "SCHEMA_VERSION # le_bytes 2 (length name) @ as_bytes name @ le_bytes 2 n @ body"
  have d: "drop 3 ?b = as_bytes name @ le_bytes 2 n @ body" "take 2 (drop 1 ?b) = le_bytes 2 (length name)"
    by (simp_all add: numeral_3_eq_3)
  have "drop (3 + length name) ?b = drop (length name) (drop 3 ?b)"
    "drop (5 + length name) ?b = drop 2 (drop (length name) (drop 3 ?b))"
    unfolding drop_drop by (simp_all add: add.commute)
  then have d': "take 2 (drop (3 + length name) ?b) = le_bytes 2 n" "drop (5 + length name) ?b = body"
    "take (length name) (drop 3 ?b) = as_bytes name"
    unfolding d by simp_all
  have len: "le_nat (le_bytes 2 (length name)) = length name" "le_nat (le_bytes 2 n) = n mod 2 ^ 16"
    using assms(2) by (simp_all add: le_nat_le_bytes)
  show ?thesis
    unfolding decode_schema_def Let_def d(2) len d' from_utf8_as_bytes [OF assms(1)] by simp
qed

section \<open>Properties of the codecs\<close>

text \<open>C22: rows and range-index blobs are a bijection with their encodings. Every well-formed row or
  blob decodes to itself, and conversely a byte string is accepted only if it is exactly the
  encoding of what it decodes to, so no two byte strings mean the same row.\<close>

theorem row_codec_bijective:
  "(decode_row buf = Ok vs \<longleftrightarrow> row_ok vs \<and> buf = encode_row vs)
    \<and> (length es < 2 ^ 64 \<longrightarrow>
        (decode_range_blob buf = Ok es \<longleftrightarrow> list_all range_entry_ok es \<and> buf = encode_range_blob es))"
  using decode_row_encode decode_row_exact decode_range_blob_encode decode_range_blob_exact by blast

theorem row_codec_bijective_witness:
  "decode_range_blob (encode_range_blob [(VInt 7, 1)]) = Ok [(VInt 7, 1)]"
  using row_codec_bijective [of "encode_range_blob [(VInt 7, 1)]" "[]" "[(VInt 7, 1)]"]
  by (simp add: range_entry_ok_def encode_row_def)

text \<open>C34: schemas. Let the table's and the columns' names be valid UTF-8 below 65536 bytes. With fewer
  than 65536 columns the schema decodes to itself; but the column count is truncated to 16 bits, so the
  catalog record of any wider table is unreadable. (Name lengths are truncated the same way: a longer
  name is outside this property.)\<close>

theorem schema_roundtrip_or_unreadable:
  assumes "utf8_valid (as_bytes (ts_name s))" and "length (ts_name s) < 2 ^ 16"
    and "list_all column_ok (ts_columns s)"
  shows "decode_schema (encode_schema s) = (if length (ts_columns s) < 2 ^ 16 then Ok s else Err bad_schema)"
proof -
  let ?cs = "ts_columns s" and ?k = "length (ts_columns s) mod 2 ^ 16"
  have "list_all column_ok (take ?k ?cs)" using assms(3) by (auto simp: list_all_iff dest: in_set_takeD)
  moreover have "concat (map encode_column ?cs)
      = concat (map encode_column (take ?k ?cs)) @ concat (map encode_column (drop ?k ?cs))"
    by (simp flip: concat_append map_append)
  ultimately have "parse_times take_column ?k (concat (map encode_column ?cs))
      = Ok (take ?k ?cs, concat (map encode_column (drop ?k ?cs)))"
    using schema_columns.parse_times_enc [of "take ?k ?cs" "concat (map encode_column (drop ?k ?cs))"]
    by (simp add: min_absorb2)
  moreover have "concat (map encode_column (drop ?k ?cs)) = [] \<longleftrightarrow> length ?cs < 2 ^ 16"
    by (auto simp: encode_column_def not_less dest: mod_less)
  ultimately show ?thesis
    unfolding encode_schema_def decode_schema_prefix [OF assms(1,2)] by simp
qed

text \<open>The instances: a table with an encrypted key column and a vector column, and one of 65536 columns.\<close>

definition sample_column :: "string \<Rightarrow> data_type \<Rightarrow> bool \<Rightarrow> column_def" where
  "sample_column n ty key = \<lparr>cd_name = n, cd_ty = ty, cd_encrypted = key, cd_primary_key = key,
     cd_indexed = False, cd_range_indexed = False\<rparr>"

theorem schema_roundtrip_witness:
  "decode_schema (encode_schema \<lparr>ts_name = ''t'', ts_columns = [sample_column ''id'' DInt True, sample_column ''v'' (DVector 3) False]\<rparr>)
      = Ok \<lparr>ts_name = ''t'', ts_columns = [sample_column ''id'' DInt True, sample_column ''v'' (DVector 3) False]\<rparr>
    \<and> decode_schema (encode_schema \<lparr>ts_name = ''t'', ts_columns = replicate (2 ^ 16) (sample_column ''c'' DInt False)\<rparr>)
      = Err bad_schema"
proof -
  let ?a = "\<lparr>ts_name = ''t'', ts_columns = [sample_column ''id'' DInt True, sample_column ''v'' (DVector 3) False]\<rparr>"
  let ?b = "\<lparr>ts_name = ''t'', ts_columns = replicate (2 ^ 16) (sample_column ''c'' DInt False)\<rparr>"
  have ok: "column_ok (sample_column n ty k)" if "n \<in> {''id'', ''v'', ''c''}" for n ty k
    using that by (auto simp: column_ok_def sample_column_def as_bytes_def)
  have name: "utf8_valid (as_bytes ''t'')" by (simp add: as_bytes_def)
  show ?thesis
    using schema_roundtrip_or_unreadable [of ?a] schema_roundtrip_or_unreadable [of ?b] ok name
    by (simp add: list_all_iff del: replicate.simps)
qed

end
