(* ===== verification/Float64.thy ===== *)
theory Float64
  imports Prelude
begin

text \<open>
  The floating-point operations of the language the engine uses, on IEEE-754 bit patterns: exact
  rational arithmetic followed by rounding to nearest, ties to even. Covered: \<open>i64 as f64\<close>, addition,
  subtraction, multiplication, division, square root, the conversions between \<open>f32\<close> and \<open>f64\<close>,
  decimal literals, \<open>==\<close> and \<open>total_cmp\<close>. A NaN result is the quiet NaN \<open>0x7FF8000000000000\<close>.
\<close>

datatype ordering = Less | Equal | Greater

definition cmp :: "'a::linorder \<Rightarrow> 'a \<Rightarrow> ordering" where
  "cmp a b = (if a < b then Less else if a = b then Equal else Greater)"

lemma cmp_simps [simp]:
  "cmp a b = Equal \<longleftrightarrow> a = b" "cmp a b = Less \<longleftrightarrow> a < b" "cmp a b = Greater \<longleftrightarrow> b < a"
  by (auto simp: cmp_def)

section \<open>Rounding\<close>

definition round_div :: "nat \<Rightarrow> nat \<Rightarrow> nat" where
  "round_div n d =
    (let q = n div d; r = n mod d in
     if 2 * r < d then q else if d < 2 * r then q + 1 else if even q then q else q + 1)"

fun bitlen :: "nat \<Rightarrow> nat" where
  "bitlen n = (if n = 0 then 0 else Suc (bitlen (n div 2)))"

declare bitlen.simps [simp del]

text \<open>\<open>\<lfloor>log2 (n / d)\<rfloor>\<close> for positive \<open>n\<close>, \<open>d\<close>.\<close>

definition shl :: "nat \<Rightarrow> int \<Rightarrow> nat" where
  "shl n k = (if 0 \<le> k then n * 2 ^ nat k else n)"

definition log2_ratio :: "nat \<Rightarrow> nat \<Rightarrow> int" where
  "log2_ratio n d = (let k = int (bitlen n) - int (bitlen d) in
     if shl d k \<le> shl n (- k) then k else k - 1)"

text \<open>
  The magnitude bits of the float nearest to \<open>n / d\<close>, for a format with \<open>mb\<close> stored mantissa bits
  and exponent bias \<open>bias\<close>; an overflow is the infinity pattern.
\<close>

definition round_ratio :: "nat \<Rightarrow> nat \<Rightarrow> nat \<Rightarrow> nat \<Rightarrow> nat" where
  "round_ratio mb bias n d =
    (if n = 0 then 0
     else
       let e = max (log2_ratio n d) (1 - int bias);
           s = int mb - e;
           m = round_div (shl n s) (shl d (- s));
           inf = (2 * bias + 1) * 2 ^ mb
       in min inf (nat (e + int bias - 1) * 2 ^ mb + m))"

section \<open>Double precision\<close>

datatype fval = NaN | Inf bool | Fin bool nat nat
  \<comment> \<open>\<open>Fin s n d\<close>: sign and magnitude \<open>n / d\<close>\<close>

definition exp_bits :: "nat \<Rightarrow> nat" where "exp_bits b = (b div 2 ^ 52) mod 2 ^ 11"
definition mant_bits :: "nat \<Rightarrow> nat" where "mant_bits b = b mod 2 ^ 52"

definition f64_value :: "f64 \<Rightarrow> fval" where
  "f64_value x =
    (let b = unat x; s = bit x 63; e = exp_bits b; m = mant_bits b in
     if e = 2047 then (if m = 0 then Inf s else NaN)
     else if e = 0 then Fin s m (2 ^ 1074)
     else if e \<ge> 1075 then Fin s ((2 ^ 52 + m) * 2 ^ (e - 1075)) 1
     else Fin s (2 ^ 52 + m) (2 ^ (1075 - e)))"

definition f64_bits :: "bool \<Rightarrow> nat \<Rightarrow> f64" where
  "f64_bits s mag = word_of_nat (mag + (if s then 2 ^ 63 else 0))"

definition f64_nan :: f64 where "f64_nan = 0x7FF8000000000000"

definition f64_of_ratio :: "bool \<Rightarrow> nat \<Rightarrow> nat \<Rightarrow> f64" where
  "f64_of_ratio s n d = f64_bits s (round_ratio 52 1023 n d)"

fun f64_of_fval :: "fval \<Rightarrow> f64" where
  "f64_of_fval NaN = f64_nan"
| "f64_of_fval (Inf s) = f64_bits s (2047 * 2 ^ 52)"
| "f64_of_fval (Fin s n d) = f64_of_ratio s n d"

text \<open>\<open>n as f64\<close> for an \<open>i64\<close>.\<close>

definition f64_of_int :: "int \<Rightarrow> f64" where
  "f64_of_int k = f64_of_ratio (k < 0) (nat \<bar>k\<bar>) 1"

definition f64_of_i64 :: "i64 \<Rightarrow> f64" where
  "f64_of_i64 n = f64_of_int (sint n)"

text \<open>Exact signed sum and product of finite values; a zero sum is negative only if both are.\<close>

fun fval_add :: "fval \<Rightarrow> fval \<Rightarrow> fval" where
  "fval_add (Fin s n d) (Fin t m e) =
    (let a = n * e; b = m * d in
     if s = t then Fin s (a + b) (d * e)
     else if a = b then Fin False 0 1
     else if a > b then Fin s (a - b) (d * e)
     else Fin t (b - a) (d * e))"
| "fval_add (Inf s) (Fin _ _ _) = Inf s"
| "fval_add (Fin _ _ _) (Inf s) = Inf s"
| "fval_add (Inf s) (Inf t) = (if s = t then Inf s else NaN)"
| "fval_add _ _ = NaN"

fun fval_mul :: "fval \<Rightarrow> fval \<Rightarrow> fval" where
  "fval_mul (Fin s n d) (Fin t m e) = Fin (s \<noteq> t) (n * m) (d * e)"
| "fval_mul (Inf s) (Fin t m _) = (if m = 0 then NaN else Inf (s \<noteq> t))"
| "fval_mul (Fin s n _) (Inf t) = (if n = 0 then NaN else Inf (s \<noteq> t))"
| "fval_mul (Inf s) (Inf t) = Inf (s \<noteq> t)"
| "fval_mul _ _ = NaN"

fun fval_div :: "fval \<Rightarrow> fval \<Rightarrow> fval" where
  "fval_div (Fin s n d) (Fin t m e) =
    (if m = 0 then (if n = 0 then NaN else Inf (s \<noteq> t)) else Fin (s \<noteq> t) (n * e) (d * m))"
| "fval_div (Inf s) (Fin t _ _) = Inf (s \<noteq> t)"
| "fval_div (Fin s _ _) (Inf t) = Fin (s \<noteq> t) 0 1"
| "fval_div _ _ = NaN"

fun fval_neg :: "fval \<Rightarrow> fval" where
  "fval_neg (Fin s n d) = Fin (\<not> s) n d"
| "fval_neg (Inf s) = Inf (\<not> s)"
| "fval_neg NaN = NaN"

definition f64_add :: "f64 \<Rightarrow> f64 \<Rightarrow> f64" where
  "f64_add x y = f64_of_fval (fval_add (f64_value x) (f64_value y))"

definition f64_sub :: "f64 \<Rightarrow> f64 \<Rightarrow> f64" where
  "f64_sub x y = f64_of_fval (fval_add (f64_value x) (fval_neg (f64_value y)))"

definition f64_mul :: "f64 \<Rightarrow> f64 \<Rightarrow> f64" where
  "f64_mul x y = f64_of_fval (fval_mul (f64_value x) (f64_value y))"

definition f64_div :: "f64 \<Rightarrow> f64 \<Rightarrow> f64" where
  "f64_div x y = f64_of_fval (fval_div (f64_value x) (f64_value y))"

text \<open>
  Square root: the integer root of the scaled square with a sticky bit, which rounds like the
  exact root.
\<close>

fun isqrt :: "nat \<Rightarrow> nat" where
  "isqrt n = (if n = 0 then 0
    else let r = 2 * isqrt (n div 4) in if (r + 1) * (r + 1) \<le> n then r + 1 else r)"

declare isqrt.simps [simp del]

fun fval_sqrt :: "fval \<Rightarrow> fval" where
  "fval_sqrt (Fin s n d) =
    (if n = 0 then Fin s 0 1
     else if s then NaN
     else let k = n * d * 2 ^ 128; r = isqrt k in
       Fin False (2 * r + (if r * r = k then 0 else 1)) (2 * d * 2 ^ 64))"
| "fval_sqrt (Inf s) = (if s then NaN else Inf s)"
| "fval_sqrt NaN = NaN"

definition f64_sqrt :: "f64 \<Rightarrow> f64" where
  "f64_sqrt x = f64_of_fval (fval_sqrt (f64_value x))"

section \<open>Single precision\<close>

definition f32_value :: "f32 \<Rightarrow> fval" where
  "f32_value x =
    (let b = unat x; s = bit x 31; e = (b div 2 ^ 23) mod 2 ^ 8; m = b mod 2 ^ 23 in
     if e = 255 then (if m = 0 then Inf s else NaN)
     else if e = 0 then Fin s m (2 ^ 149)
     else if e \<ge> 150 then Fin s ((2 ^ 23 + m) * 2 ^ (e - 150)) 1
     else Fin s (2 ^ 23 + m) (2 ^ (150 - e)))"

definition f32_bits :: "bool \<Rightarrow> nat \<Rightarrow> f32" where
  "f32_bits s mag = word_of_nat (mag + (if s then 2 ^ 31 else 0))"

fun f32_of_fval :: "fval \<Rightarrow> f32" where
  "f32_of_fval NaN = 0x7FC00000"
| "f32_of_fval (Inf s) = f32_bits s (255 * 2 ^ 23)"
| "f32_of_fval (Fin s n d) = f32_bits s (round_ratio 23 127 n d)"

definition f64_of_f32 :: "f32 \<Rightarrow> f64" where
  "f64_of_f32 x = f64_of_fval (f32_value x)"

definition f32_of_f64 :: "f64 \<Rightarrow> f32" where
  "f32_of_f64 x = f32_of_fval (f64_value x)"

section \<open>Comparisons\<close>

text \<open>IEEE \<open>==\<close>: false on NaN, and the two zeros are equal.\<close>

definition f64_eq :: "f64 \<Rightarrow> f64 \<Rightarrow> bool" where
  "f64_eq x y = (f64_value x \<noteq> NaN \<and> f64_value y \<noteq> NaN
    \<and> (x = y \<or> x AND 0x7FFFFFFFFFFFFFFF = 0 \<and> y AND 0x7FFFFFFFFFFFFFFF = 0))"

text \<open>\<open>f64::total_cmp\<close>: negative patterns have their magnitude bits flipped, then compare as \<open>i64\<close>.\<close>

definition total_key :: "f64 \<Rightarrow> int" where
  "total_key x = sint (if bit x 63 then x XOR 0x7FFFFFFFFFFFFFFF else x)"

definition total_cmp :: "f64 \<Rightarrow> f64 \<Rightarrow> ordering" where
  "total_cmp x y = cmp (total_key x) (total_key y)"

lemma xor_cancel: "(x :: 'a::len word) XOR m = y XOR m \<longleftrightarrow> x = y"
  by (auto simp: bit_eq_iff bit_xor_iff)

lemma bit_xor_mask63: "bit (x XOR 0x7FFFFFFFFFFFFFFF :: f64) 63 = bit x 63"
  by (simp add: bit_xor_iff)

lemma total_key_inj: "total_key x = total_key y \<longleftrightarrow> x = y"
proof
  assume "total_key x = total_key y"
  then have eq: "(if bit x 63 then x XOR 0x7FFFFFFFFFFFFFFF else x)
      = (if bit y 63 then y XOR 0x7FFFFFFFFFFFFFFF else y)"
    unfolding total_key_def by (rule signed_word_eqI)
  then have "bit x 63 = bit y 63"
    by (metis bit_xor_mask63)
  with eq show "x = y" by (simp add: xor_cancel split: if_splits)
qed simp

lemma total_cmp_Equal [simp]: "total_cmp x y = Equal \<longleftrightarrow> x = y"
  by (simp add: total_cmp_def total_key_inj)

end
