(* ===== verification/Query.thy ===== *)
theory Query
  imports Codec Float64 "HOL-Library.Product_Lexorder"
begin

text \<open>
  Predicates and planning of \<open>crates/ciphra-engine/src/lib.rs\<close>: value comparison, compiled \<open>WHERE\<close>
  expressions with three-valued logic, type coercion, and the two index planners. A row access out
  of bounds is \<open>Err Panicked\<close>.
\<close>

section \<open>Values\<close>

definition cell :: "val list \<Rightarrow> nat \<Rightarrow> val res" where
  "cell row i = (if i < length row then Ok (row ! i) else Err Panicked)"

fun literal_to_value :: "literal \<Rightarrow> val" where
  "literal_to_value LNull = VNull"
| "literal_to_value (LInt n) = VInt n"
| "literal_to_value (LReal x) = VReal x"
| "literal_to_value (LText s) = VText s"
| "literal_to_value (LVector v) = VVector v"

definition f32_le_bytes :: "f32 list \<Rightarrow> bytes" where
  "f32_le_bytes v = concat (map (\<lambda>x. le_bytes 4 (unat x)) v)"

fun compare_values :: "val \<Rightarrow> val \<Rightarrow> ordering" where
  "compare_values VNull VNull = Equal"
| "compare_values VNull _ = Less"
| "compare_values _ VNull = Greater"
| "compare_values (VInt x) (VInt y) = cmp (sint x) (sint y)"
| "compare_values (VReal x) (VReal y) = total_cmp x y"
| "compare_values (VInt x) (VReal y) = total_cmp (f64_of_i64 x) y"
| "compare_values (VReal x) (VInt y) = total_cmp x (f64_of_i64 y)"
| "compare_values (VText x) (VText y) = cmp (as_bytes x) (as_bytes y)"
| "compare_values (VVector x) (VVector y) = cmp (f32_le_bytes x) (f32_le_bytes y)"
| "compare_values (VInt _) _ = Less"
| "compare_values (VReal _) _ = Less"
| "compare_values _ (VInt _) = Greater"
| "compare_values _ (VReal _) = Greater"
| "compare_values (VText _) _ = Less"
| "compare_values _ (VText _) = Greater"

fun holds :: "cmp_op \<Rightarrow> ordering \<Rightarrow> bool" where
  "holds Eq ord = (ord = Equal)"
| "holds Ne ord = (ord \<noteq> Equal)"
| "holds Lt ord = (ord = Less)"
| "holds Gt ord = (ord = Greater)"
| "holds Le ord = (ord \<noteq> Greater)"
| "holds Ge ord = (ord \<noteq> Less)"

fun coerce :: "literal \<Rightarrow> column_def \<Rightarrow> val res" where
  "coerce lit column =
    (case (lit, cd_ty column) of
       (LNull, _) \<Rightarrow> Ok VNull
     | (LInt n, DInt) \<Rightarrow> Ok (VInt n)
     | (LReal x, DReal) \<Rightarrow> Ok (VReal x)
     | (LInt n, DReal) \<Rightarrow> Ok (VReal (f64_of_i64 n))
     | (LText s, DText) \<Rightarrow> Ok (VText s)
     | (LVector v, DVector dim) \<Rightarrow>
         if length v \<noteq> unat dim then
           Err (Type_error (''column '' @ debug_str (cd_name column) @ '' is VECTOR('' @ show_nat (unat dim)
             @ ''), got a '' @ show_nat (length v) @ ''-dimensional vector''))
         else Ok (VVector v)
     | (_, want) \<Rightarrow> Err (Type_error (''column '' @ debug_str (cd_name column) @ '' is '' @ debug_type want)))"

declare coerce.simps [simp del]

section \<open>Compiled predicates\<close>

datatype compiled_expr =
    CCompare nat string cmp_op val
  | CIsNull nat bool
  | CNot compiled_expr
  | CAnd compiled_expr compiled_expr
  | COr compiled_expr compiled_expr

definition resolve_column :: "table_schema \<Rightarrow> string \<Rightarrow> nat res" where
  "resolve_column schema column = ok_or (Schema_error (''unknown column '' @ debug_str column @ '' in table ''
     @ debug_str (ts_name schema))) (column_index schema column)"

fun compile_expr :: "table_schema \<Rightarrow> expr \<Rightarrow> compiled_expr res" where
  "compile_expr schema (Compare column op v) =
    rbind (resolve_column schema column) (\<lambda>i. Ok (CCompare i column op (literal_to_value v)))"
| "compile_expr schema (IsNull column negated) =
    rbind (resolve_column schema column) (\<lambda>i. Ok (CIsNull i negated))"
| "compile_expr schema (ENot inner) = rbind (compile_expr schema inner) (\<lambda>e. Ok (CNot e))"
| "compile_expr schema (EAnd a b) =
    rbind (compile_expr schema a) (\<lambda>a'. rbind (compile_expr schema b) (\<lambda>b'. Ok (CAnd a' b')))"
| "compile_expr schema (EOr a b) =
    rbind (compile_expr schema a) (\<lambda>a'. rbind (compile_expr schema b) (\<lambda>b'. Ok (COr a' b')))"

text \<open>The ordering of a cell against a literal: \<open>Ok None\<close> is \<^emph>\<open>unknown\<close>.\<close>

fun compare_cell :: "string \<Rightarrow> val \<Rightarrow> val \<Rightarrow> ordering option res" where
  "compare_cell name cl v =
    (case (cl, v) of
       (VNull, _) \<Rightarrow> Ok None
     | (_, VNull) \<Rightarrow> Ok None
     | (VInt a, VInt b) \<Rightarrow> Ok (Some (cmp (sint a) (sint b)))
     | (VReal a, VReal b) \<Rightarrow> Ok (Some (total_cmp a b))
     | (VInt a, VReal b) \<Rightarrow> Ok (Some (total_cmp (f64_of_i64 a) b))
     | (VReal a, VInt b) \<Rightarrow> Ok (Some (total_cmp a (f64_of_i64 b)))
     | (VText a, VText b) \<Rightarrow> Ok (Some (cmp (as_bytes a) (as_bytes b)))
     | (VVector _, _) \<Rightarrow> Err (Type_error (''vector column '' @ debug_str name
         @ '' does not support comparisons; use ORDER BY '' @ name @ '' NEAREST TO [..]''))
     | (_, VVector _) \<Rightarrow> Err (Type_error (''vector column '' @ debug_str name
         @ '' does not support comparisons; use ORDER BY '' @ name @ '' NEAREST TO [..]''))
     | _ \<Rightarrow> Err (Type_error (''cannot compare column '' @ debug_str name @ '' with a value of a different type'')))"

declare compare_cell.simps [simp del]

fun and3 :: "bool option \<Rightarrow> bool option \<Rightarrow> bool option" where
  "and3 (Some False) _ = Some False"
| "and3 _ (Some False) = Some False"
| "and3 (Some True) (Some True) = Some True"
| "and3 _ _ = None"

fun or3 :: "bool option \<Rightarrow> bool option \<Rightarrow> bool option" where
  "or3 (Some True) _ = Some True"
| "or3 _ (Some True) = Some True"
| "or3 (Some False) (Some False) = Some False"
| "or3 _ _ = None"

fun eval :: "compiled_expr \<Rightarrow> val list \<Rightarrow> bool option res" where
  "eval (CCompare i name op v) row =
    rbind (cell row i) (\<lambda>c. rbind (compare_cell name c v) (\<lambda>ord. Ok (map_option (holds op) ord)))"
| "eval (CIsNull i negated) row = rbind (cell row i) (\<lambda>c. Ok (Some ((c = VNull) \<noteq> negated)))"
| "eval (CNot inner) row = rbind (eval inner row) (\<lambda>b. Ok (map_option Not b))"
| "eval (CAnd a b) row = rbind (eval a row) (\<lambda>x. rbind (eval b row) (\<lambda>y. Ok (and3 x y)))"
| "eval (COr a b) row = rbind (eval a row) (\<lambda>x. rbind (eval b row) (\<lambda>y. Ok (or3 x y)))"

definition expr_matches :: "compiled_expr \<Rightarrow> val list \<Rightarrow> bool res" where
  "expr_matches e row = rbind (eval e row) (\<lambda>b. Ok (b = Some True))"

section \<open>Index planning\<close>

fun find_map :: "('a \<Rightarrow> 'b option) \<Rightarrow> 'a list \<Rightarrow> 'b option" where
  "find_map f [] = None"
| "find_map f (x # xs) = (case f x of Some y \<Rightarrow> Some y | None \<Rightarrow> find_map f xs)"

definition columns_where :: "(column_def \<Rightarrow> bool) \<Rightarrow> table_schema \<Rightarrow> nat list" where
  "columns_where P schema = map fst (filter (\<lambda>(i, c). P c) (enumerate 0 (ts_columns schema)))"

definition pk_column :: "table_schema \<Rightarrow> nat option" where
  "pk_column schema = position cd_primary_key (ts_columns schema)"

definition range_indexed_columns :: "table_schema \<Rightarrow> nat list" where
  "range_indexed_columns schema = columns_where cd_range_indexed schema"

definition maintained_columns :: "table_schema \<Rightarrow> nat list" where
  "maintained_columns schema = columns_where (\<lambda>c. cd_primary_key c \<or> cd_indexed c) schema"

fun range_pred_value :: "compiled_expr \<Rightarrow> nat \<Rightarrow> (cmp_op \<times> val) option" where
  "range_pred_value (CCompare i name op v) col =
    (if i = col \<and> v \<noteq> VNull \<and> op \<in> {Lt, Le, Gt, Ge, Eq} then Some (op, v) else None)"
| "range_pred_value (CAnd a b) col =
    (case range_pred_value a col of Some r \<Rightarrow> Some r | None \<Rightarrow> range_pred_value b col)"
| "range_pred_value _ col = None"

definition range_indexed_pred :: "compiled_expr \<Rightarrow> table_schema \<Rightarrow> (nat \<times> cmp_op \<times> val) option" where
  "range_indexed_pred e schema =
    find_map (\<lambda>col. map_option (\<lambda>(op, v). (col, op, v)) (range_pred_value e col)) (range_indexed_columns schema)"

fun eq_value_for :: "compiled_expr \<Rightarrow> nat \<Rightarrow> val option" where
  "eq_value_for (CCompare i name op v) col = (if op = Eq \<and> i = col \<and> v \<noteq> VNull then Some v else None)"
| "eq_value_for (CAnd a b) col = (case eq_value_for a col of Some v \<Rightarrow> Some v | None \<Rightarrow> eq_value_for b col)"
| "eq_value_for _ col = None"

definition indexed_eq_value :: "compiled_expr \<Rightarrow> table_schema \<Rightarrow> (nat \<times> val) option" where
  "indexed_eq_value e schema =
    (case (case pk_column schema of None \<Rightarrow> None | Some pk \<Rightarrow> map_option (Pair pk) (eq_value_for e pk)) of
       Some r \<Rightarrow> Some r
     | None \<Rightarrow> find_map (\<lambda>col. map_option (Pair col) (eq_value_for e col)) (columns_where cd_indexed schema))"

text \<open>The columns a predicate compares by equality and by range, for the advisor.\<close>

fun collect_predicates :: "compiled_expr \<Rightarrow> string set \<times> string set \<Rightarrow> string set \<times> string set" where
  "collect_predicates (CCompare i name op v) (eqs, ranges) =
    (case op of
       Eq \<Rightarrow> (insert name eqs, ranges)
     | Ne \<Rightarrow> (eqs, ranges)
     | _ \<Rightarrow> (eqs, insert name ranges))"
| "collect_predicates (CIsNull i negated) s = s"
| "collect_predicates (CNot inner) s = collect_predicates inner s"
| "collect_predicates (CAnd a b) s = collect_predicates b (collect_predicates a s)"
| "collect_predicates (COr a b) s = collect_predicates b (collect_predicates a s)"

section \<open>Laws\<close>

lemma compare_cell_values:
  "compare_cell name c v = Ok (Some ord) \<Longrightarrow> ord = compare_values c v"
  by (cases c; cases v) (auto simp: compare_cell.simps)

lemma find_map_Some: "find_map f xs = Some y \<Longrightarrow> \<exists>x \<in> set xs. f x = Some y"
  by (induction xs) (auto split: option.splits)

lemma columns_where_mem:
  "i \<in> set (columns_where P schema) \<longleftrightarrow> i < length (ts_columns schema) \<and> P (ts_columns schema ! i)"
  by (force simp: columns_where_def in_set_enumerate_eq)

lemma and3_True [simp]: "and3 x y = Some True \<longleftrightarrow> x = Some True \<and> y = Some True"
  by (cases "(x, y)" rule: and3.cases) auto

lemma eval_CAnd_True:
  "eval (CAnd a b) row = Ok (Some True) \<longleftrightarrow> eval a row = Ok (Some True) \<and> eval b row = Ok (Some True)"
  by auto

lemma eval_compare_True:
  assumes "eval (CCompare i name op v) row = Ok (Some True)"
  shows "i < length row \<and> holds op (compare_values (row ! i) v)"
  using assms by (auto simp: cell_def dest!: compare_cell_values split: if_splits)

lemma range_pred_sound:
  assumes "range_pred_value e col = Some (op, v)" "eval e row = Ok (Some True)"
  shows "col < length row \<and> holds op (compare_values (row ! col) v) \<and> op \<noteq> Ne \<and> v \<noteq> VNull"
  using assms
proof (induction e col rule: range_pred_value.induct)
  case (1 i name op' v' col)
  then show ?case using eval_compare_True [OF 1(2)] by (auto split: if_splits)
next
  case (2 a b col)
  then show ?case by (auto simp only: eval_CAnd_True range_pred_value.simps split: option.splits)
qed auto

lemma eq_value_sound:
  assumes "eq_value_for e col = Some v" "eval e row = Ok (Some True)"
  shows "col < length row \<and> compare_values (row ! col) v = Equal \<and> v \<noteq> VNull"
  using assms
proof (induction e col rule: eq_value_for.induct)
  case (1 i name op' v' col)
  then show ?case using eval_compare_True [OF 1(2)] by (auto split: if_splits)
next
  case (2 a b col)
  then show ?case by (auto simp only: eval_CAnd_True eq_value_for.simps split: option.splits)
qed auto

lemma indexed_eq_value_cases:
  assumes "indexed_eq_value e schema = Some (col, v)"
  shows "eq_value_for e col = Some v \<and> col < length (ts_columns schema)
    \<and> (cd_primary_key (ts_columns schema ! col) \<or> cd_indexed (ts_columns schema ! col))"
  using assms position_Some [of cd_primary_key "ts_columns schema" col]
  by (fastforce simp: indexed_eq_value_def pk_column_def columns_where_mem
      split: option.splits dest!: find_map_Some)

section \<open>Typed values\<close>

fun typed :: "data_type \<Rightarrow> val \<Rightarrow> bool" where
  "typed _ VNull = True"
| "typed DInt (VInt _) = True"
| "typed DReal (VReal _) = True"
| "typed DText (VText _) = True"
| "typed (DVector d) (VVector v) = (length v = unat d)"
| "typed _ _ = False"

definition typed_row :: "table_schema \<Rightarrow> val list \<Rightarrow> bool" where
  "typed_row schema row \<longleftrightarrow> list_all2 (\<lambda>c v. typed (cd_ty c) v) (ts_columns schema) row"

lemma typed_row_nth:
  "typed_row schema row \<Longrightarrow> i < length row \<Longrightarrow> i < length (ts_columns schema) \<and> typed (cd_ty (ts_columns schema ! i)) (row ! i)"
  by (simp add: typed_row_def list_all2_conv_all_nth)

lemma typed_row_length: "typed_row schema row \<Longrightarrow> length row = length (ts_columns schema)"
  by (simp add: typed_row_def list_all2_lengthD)

lemma coerce_typed: "coerce lit c = Ok v \<Longrightarrow> typed (cd_ty c) v"
  by (auto simp: coerce.simps split: literal.splits data_type.splits if_splits)

text \<open>On the values of one column the comparison is the linear order of a key.\<close>

fun val_key :: "val \<Rightarrow> nat \<times> int \<times> bytes" where
  "val_key VNull = (0, 0, [])"
| "val_key (VInt n) = (1, sint n, [])"
| "val_key (VReal x) = (1, total_key x, [])"
| "val_key (VText s) = (1, 0, as_bytes s)"
| "val_key (VVector v) = (1, 0, f32_le_bytes v)"

lemma compare_values_key:
  assumes "typed ty a" "typed ty b"
  shows "compare_values a b = cmp (val_key a) (val_key b)"
  using assms by (cases a; cases b; cases ty) (auto simp: cmp_def total_cmp_def)

lemma f32_le_bytes_inj:
  "f32_le_bytes v = f32_le_bytes w \<Longrightarrow> length v = length w \<Longrightarrow> v = w"
proof (induction v arbitrary: w)
  case Nil
  then show ?case by simp
next
  case (Cons x v)
  then obtain y w' where w: "w = y # w'" by (cases w) auto
  have field: "(word_of_nat (le_nat (le_bytes 4 (unat z))) :: f32) = z" for z
    by (rule word_le_bytes_roundtrip) simp
  from Cons.prems w have "le_bytes 4 (unat x) = le_bytes 4 (unat y)" and r: "f32_le_bytes v = f32_le_bytes w'"
    by (simp_all add: f32_le_bytes_def)
  then have "x = y" by (metis field)
  with Cons.IH [OF r] Cons.prems w show ?case by simp
qed

lemma val_key_inj:
  assumes "typed ty a" "typed ty b"
  shows "val_key a = val_key b \<longleftrightarrow> a = b"
proof -
  have "sint x = sint y \<longleftrightarrow> x = y" for x y :: i64 by (auto intro: signed_word_eqI)
  then show ?thesis
    using assms f32_le_bytes_inj by (cases a; cases b; cases ty) (auto simp: total_key_inj)
qed

lemma compare_values_Equal:
  "typed ty a \<Longrightarrow> typed ty b \<Longrightarrow> compare_values a b = Equal \<longleftrightarrow> a = b"
  by (simp add: compare_values_key val_key_inj)

section \<open>Well-typed predicates\<close>

fun comparable :: "data_type \<Rightarrow> val \<Rightarrow> bool" where
  "comparable _ VNull = True"
| "comparable DInt v = (case v of VInt _ \<Rightarrow> True | VReal _ \<Rightarrow> True | _ \<Rightarrow> False)"
| "comparable DReal v = (case v of VInt _ \<Rightarrow> True | VReal _ \<Rightarrow> True | _ \<Rightarrow> False)"
| "comparable DText v = (case v of VText _ \<Rightarrow> True | _ \<Rightarrow> False)"
| "comparable (DVector _) v = False"

fun well_typed :: "table_schema \<Rightarrow> compiled_expr \<Rightarrow> bool" where
  "well_typed schema (CCompare i name op v) \<longleftrightarrow>
    i < length (ts_columns schema) \<and> comparable (cd_ty (ts_columns schema ! i)) v"
| "well_typed schema (CIsNull i negated) \<longleftrightarrow> i < length (ts_columns schema)"
| "well_typed schema (CNot e) \<longleftrightarrow> well_typed schema e"
| "well_typed schema (CAnd a b) \<longleftrightarrow> well_typed schema a \<and> well_typed schema b"
| "well_typed schema (COr a b) \<longleftrightarrow> well_typed schema a \<and> well_typed schema b"

lemma compare_cell_comparable:
  assumes "typed ty c" "comparable ty v"
  shows "\<exists>ord. compare_cell name c v = Ok ord"
  using assms by (cases c; cases v; cases ty) (auto simp: compare_cell.simps)

lemma compare_cell_incomparable:
  assumes "typed ty c" "\<not> comparable ty v" "c \<noteq> VNull"
  shows "\<exists>msg. compare_cell name c v = Err (Type_error msg)"
  using assms by (cases c; cases v; cases ty) (auto simp: compare_cell.simps)

section \<open>Properties of predicates and planning\<close>

text \<open>C36: predicate evaluation is type safe. A predicate compiled against a schema only refers to
  columns of the schema, so evaluating it on a row of the table never goes out of bounds: it yields
  a truth value whenever its comparisons are between comparable types, and a comparison of a
  non-NULL cell with an incomparable literal is a type error.\<close>

theorem eval_type_safe:
  assumes "typed_row schema row"
  shows "(compile_expr schema e = Ok ce \<longrightarrow> eval ce row \<noteq> Err Panicked)
    \<and> (compile_expr schema e = Ok ce \<and> well_typed schema ce \<longrightarrow> (\<exists>b. eval ce row = Ok b))
    \<and> (i < length row \<and> row ! i \<noteq> VNull \<and> \<not> comparable (cd_ty (ts_columns schema ! i)) v \<longrightarrow>
        (\<exists>msg. eval (CCompare i name op v) row = Err (Type_error msg)))"
proof (intro conjI impI)
  have len: "length row = length (ts_columns schema)" by (rule typed_row_length [OF assms])
  have no_panic: "compare_cell n c v \<noteq> Err Panicked" for n c v
    by (cases c; cases v) (auto simp: compare_cell.simps)
  have bound: "resolve_column schema c = Ok i \<Longrightarrow> i < length row" for c i
    using column_index_Some by (auto simp: resolve_column_def len)
  show "eval ce row \<noteq> Err Panicked" if "compile_expr schema e = Ok ce"
    using that bound no_panic by (induction e arbitrary: ce) (fastforce simp: cell_def rbind_eq_Err)+
  show "\<exists>b. eval ce row = Ok b" if "compile_expr schema e = Ok ce \<and> well_typed schema ce"
  proof -
    have "well_typed schema ce" using that by simp
    then show ?thesis
    proof (induction ce)
      case (CCompare i n op v)
      then show ?case
        using compare_cell_comparable [of "cd_ty (ts_columns schema ! i)" "row ! i" v n]
          typed_row_nth [OF assms, of i] len by (auto simp: cell_def)
    qed (auto simp: cell_def len)
  qed
  show "\<exists>msg. eval (CCompare i name op v) row = Err (Type_error msg)"
    if "i < length row \<and> row ! i \<noteq> VNull \<and> \<not> comparable (cd_ty (ts_columns schema ! i)) v"
    using that compare_cell_incomparable [of "cd_ty (ts_columns schema ! i)" "row ! i" v name]
      typed_row_nth [OF assms, of i] by (auto simp: cell_def)
qed

definition demo_schema :: table_schema where
  "demo_schema = \<lparr>ts_name = ''t'', ts_columns =
    [\<lparr>cd_name = ''x'', cd_ty = DReal, cd_encrypted = False, cd_primary_key = False, cd_indexed = True,
      cd_range_indexed = True\<rparr>]\<rparr>"

theorem eval_type_safe_witness:
  "\<exists>b. eval (CCompare 0 ''x'' Lt (VInt 3)) [VReal 0] = Ok b"
proof -
  have "typed_row demo_schema [VReal 0]" "compile_expr demo_schema (Compare ''x'' Lt (LInt 3)) = Ok (CCompare 0 ''x'' Lt (VInt 3))"
    "well_typed demo_schema (CCompare 0 ''x'' Lt (VInt 3))"
    by (simp_all add: typed_row_def demo_schema_def resolve_column_def column_index_def)
  with eval_type_safe [of demo_schema "[VReal 0]" "Compare ''x'' Lt (LInt 3)" "CCompare 0 ''x'' Lt (VInt 3)"]
  show ?thesis by simp
qed

text \<open>C28: index plans lose no row. If a row satisfies a predicate for which the planner chose an
  index on a column, then under a range plan the row's cell passes the plan's comparison, and under
  an equality plan whose value has the column's type the row's cell is that very value, so its
  index entry is under the tag that is looked up.\<close>

theorem index_plans_complete:
  assumes "typed_row schema row" and "expr_matches e row = Ok True"
  shows "(range_indexed_pred e schema = Some (col, op, v) \<longrightarrow>
        col \<in> set (range_indexed_columns schema) \<and> holds op (compare_values (row ! col) v))
    \<and> (indexed_eq_value e schema = Some (col, v) \<and> typed (cd_ty (ts_columns schema ! col)) v \<longrightarrow>
        col \<in> set (maintained_columns schema) \<and> row ! col = v \<and> encode_row [row ! col] = encode_row [v])"
proof (intro conjI impI)
  have ev: "eval e row = Ok (Some True)"
    using assms(2) by (auto simp: expr_matches_def)
  assume "range_indexed_pred e schema = Some (col, op, v)"
  then have "col \<in> set (range_indexed_columns schema)" "range_pred_value e col = Some (op, v)"
    by (auto simp: range_indexed_pred_def dest!: find_map_Some)
  with range_pred_sound [OF _ ev] show "col \<in> set (range_indexed_columns schema)"
    "holds op (compare_values (row ! col) v)" by auto
next
  have ev: "eval e row = Ok (Some True)"
    using assms(2) by (auto simp: expr_matches_def)
  assume plan: "indexed_eq_value e schema = Some (col, v) \<and> typed (cd_ty (ts_columns schema ! col)) v"
  then have col: "eq_value_for e col = Some v" "col < length (ts_columns schema)"
    "cd_primary_key (ts_columns schema ! col) \<or> cd_indexed (ts_columns schema ! col)"
    using indexed_eq_value_cases by blast+
  then show "col \<in> set (maintained_columns schema)"
    by (simp add: maintained_columns_def columns_where_mem)
  show "row ! col = v"
    using eq_value_sound [OF col(1) ev] plan typed_row_nth [OF assms(1)] compare_values_Equal by blast
  then show "encode_row [row ! col] = encode_row [v]" by simp
qed

theorem index_plans_complete_witness:
  "typed_row demo_schema [VReal 5] \<and> expr_matches (CCompare 0 ''x'' Eq (VReal 5)) [VReal 5] = Ok True
    \<and> range_indexed_pred (CCompare 0 ''x'' Eq (VReal 5)) demo_schema = Some (0, Eq, VReal 5)
    \<and> 0 \<in> set (range_indexed_columns demo_schema) \<and> holds Eq (compare_values ([VReal 5] ! 0) (VReal 5))
    \<and> indexed_eq_value (CCompare 0 ''x'' Eq (VReal 5)) demo_schema = Some (0, VReal 5)
    \<and> 0 \<in> set (maintained_columns demo_schema) \<and> [VReal 5] ! 0 = VReal 5"
proof -
  have h: "typed_row demo_schema [VReal 5]" "expr_matches (CCompare 0 ''x'' Eq (VReal 5)) [VReal 5] = Ok True"
    "indexed_eq_value (CCompare 0 ''x'' Eq (VReal 5)) demo_schema = Some (0, VReal 5)"
    "range_indexed_pred (CCompare 0 ''x'' Eq (VReal 5)) demo_schema = Some (0, Eq, VReal 5)"
    "typed (cd_ty (ts_columns demo_schema ! 0)) (VReal 5)"
    by (simp_all add: typed_row_def demo_schema_def expr_matches_def cell_def indexed_eq_value_def
        compare_cell.simps pk_column_def columns_where_def range_indexed_pred_def range_indexed_columns_def)
  from index_plans_complete [OF h(1,2), of 0 Eq "VReal 5"] h show ?thesis by simp
qed

end
