(* ===== verification/Aggregate.thy ===== *)
theory Aggregate
  imports Query
begin

text \<open>
  Aggregate queries of \<open>crates/ciphra-engine/src/lib.rs\<close>: planning of the projected items and of
  \<open>HAVING\<close>, grouping by encoded key, the running accumulators, the deterministic group order and
  the final values. The \<open>i128\<close> accumulator of an integer sum is an \<open>int\<close>: fewer than \<open>2 ^ 64\<close> rows
  cannot overflow it. The \<open>unreachable!\<close> branches are \<open>Err Panicked\<close>.
\<close>

section \<open>Sorting and folding\<close>

text \<open>\<open>slice::sort_by\<close>, a stable sort, and a loop that stops at the first error.\<close>

fun insert_by :: "('a \<Rightarrow> 'a \<Rightarrow> ordering) \<Rightarrow> 'a \<Rightarrow> 'a list \<Rightarrow> 'a list" where
  "insert_by f x [] = [x]"
| "insert_by f x (y # ys) = (if f x y = Greater then y # insert_by f x ys else x # y # ys)"

definition sort_by :: "('a \<Rightarrow> 'a \<Rightarrow> ordering) \<Rightarrow> 'a list \<Rightarrow> 'a list" where
  "sort_by f xs = foldr (insert_by f) xs []"

fun fold_res :: "('s \<Rightarrow> 'a \<Rightarrow> ('e, 's) result) \<Rightarrow> 's \<Rightarrow> 'a list \<Rightarrow> ('e, 's) result" where
  "fold_res f s [] = Ok s"
| "fold_res f s (x # xs) = rbind (f s x) (\<lambda>s'. fold_res f s' xs)"

fun then_cmp :: "ordering \<Rightarrow> ordering \<Rightarrow> ordering" where
  "then_cmp Equal o2 = o2"
| "then_cmp o1 _ = o1"

definition sort_range_entries :: "(val \<times> u64) list \<Rightarrow> (val \<times> u64) list" where
  "sort_range_entries = sort_by (\<lambda>a b. then_cmp (compare_values (fst a) (fst b)) (cmp (snd a) (snd b)))"

section \<open>Plans and accumulators\<close>

datatype agg_plan =
    Group_col nat
  | Plan_count "nat option"
  | Sum_int nat
  | Sum_real nat
  | Plan_avg nat
  | Plan_min nat
  | Plan_max nat

datatype agg_acc =
    Acc_group
  | Acc_count i64
  | Acc_sum_int int bool
  | Acc_sum_real f64 bool
  | Acc_avg f64 i64
  | Acc_extreme "val option"

definition update_extreme :: "val option \<Rightarrow> val \<Rightarrow> bool \<Rightarrow> val option" where
  "update_extreme current v want_min =
    (if v = VNull then current
     else case current of
       None \<Rightarrow> Some v
     | Some existing \<Rightarrow>
         if compare_values v existing = (if want_min then Less else Greater) then Some v else current)"

definition group_col_pos :: "string list \<Rightarrow> string \<Rightarrow> nat res" where
  "group_col_pos group_by name = ok_or (Schema_error (''column '' @ debug_str name
     @ '' must appear in GROUP BY or inside an aggregate'')) (position (\<lambda>g. g = name) group_by)"

definition aggregate_name :: "agg_func \<Rightarrow> agg_arg \<Rightarrow> string" where
  "aggregate_name func arg = agg_name func @ ''('' @ (case arg of Star \<Rightarrow> ''*'' | Col c \<Rightarrow> c) @ '')''"

definition resolve_aggregate :: "table_schema \<Rightarrow> string \<Rightarrow> agg_func \<Rightarrow> agg_arg \<Rightarrow> agg_plan res" where
  "resolve_aggregate schema table func arg =
    (case arg of
       Star \<Rightarrow> Ok (Plan_count None)
     | Col col \<Rightarrow>
        rbind (ok_or (Schema_error (''unknown column '' @ debug_str col @ '' in table '' @ debug_str table))
                 (column_index schema col)) (\<lambda>idx.
        let ty = cd_ty (ts_columns schema ! idx) in
        case func of
          Count \<Rightarrow> Ok (Plan_count (Some idx))
        | Sum \<Rightarrow>
            (case ty of
               DInt \<Rightarrow> Ok (Sum_int idx)
             | DReal \<Rightarrow> Ok (Sum_real idx)
             | _ \<Rightarrow> Err (Type_error (''SUM('' @ col @ '') requires an INT or REAL column'')))
        | Avg \<Rightarrow>
            (if ty = DInt \<or> ty = DReal then Ok (Plan_avg idx)
             else Err (Type_error (''AVG('' @ col @ '') requires an INT or REAL column'')))
        | _ \<Rightarrow>
            (case ty of
               DVector _ \<Rightarrow> Err (Type_error (agg_name func @ ''('' @ col @ '') is not defined on a VECTOR column''))
             | _ \<Rightarrow> if func = Min_agg then Ok (Plan_min idx) else Ok (Plan_max idx))))"

fun init_acc :: "agg_plan \<Rightarrow> agg_acc" where
  "init_acc (Group_col _) = Acc_group"
| "init_acc (Plan_count _) = Acc_count 0"
| "init_acc (Sum_int _) = Acc_sum_int 0 False"
| "init_acc (Sum_real _) = Acc_sum_real 0 False"
| "init_acc (Plan_avg _) = Acc_avg 0 0"
| "init_acc (Plan_min _) = Acc_extreme None"
| "init_acc (Plan_max _) = Acc_extreme None"

fun step_acc :: "val list \<Rightarrow> agg_plan \<Rightarrow> agg_acc \<Rightarrow> agg_acc res" where
  "step_acc row (Group_col _) Acc_group = Ok Acc_group"
| "step_acc row (Plan_count None) (Acc_count c) = Ok (Acc_count (c + 1))"
| "step_acc row (Plan_count (Some idx)) (Acc_count c) =
    rbind (cell row idx) (\<lambda>v. Ok (Acc_count (if v \<noteq> VNull then c + 1 else c)))"
| "step_acc row (Sum_int idx) (Acc_sum_int tot any) =
    rbind (cell row idx) (\<lambda>v.
      case v of
        VNull \<Rightarrow> Ok (Acc_sum_int tot any)
      | VInt n \<Rightarrow> Ok (Acc_sum_int (tot + sint n) True)
      | _ \<Rightarrow> Err (Type_error ''SUM encountered a non-integer value''))"
| "step_acc row (Sum_real idx) (Acc_sum_real tot any) =
    rbind (cell row idx) (\<lambda>v.
      case v of
        VNull \<Rightarrow> Ok (Acc_sum_real tot any)
      | VReal x \<Rightarrow> Ok (Acc_sum_real (f64_add tot x) True)
      | VInt n \<Rightarrow> Ok (Acc_sum_real (f64_add tot (f64_of_i64 n)) True)
      | _ \<Rightarrow> Err (Type_error ''SUM encountered a non-numeric value''))"
| "step_acc row (Plan_avg idx) (Acc_avg tot count) =
    rbind (cell row idx) (\<lambda>v.
      case v of
        VNull \<Rightarrow> Ok (Acc_avg tot count)
      | VReal x \<Rightarrow> Ok (Acc_avg (f64_add tot x) (count + 1))
      | VInt n \<Rightarrow> Ok (Acc_avg (f64_add tot (f64_of_i64 n)) (count + 1))
      | _ \<Rightarrow> Err (Type_error ''AVG encountered a non-numeric value''))"
| "step_acc row (Plan_min idx) (Acc_extreme cur) =
    rbind (cell row idx) (\<lambda>v. Ok (Acc_extreme (update_extreme cur v True)))"
| "step_acc row (Plan_max idx) (Acc_extreme cur) =
    rbind (cell row idx) (\<lambda>v. Ok (Acc_extreme (update_extreme cur v False)))"
| "step_acc row _ _ = Err Panicked"

definition step_accs :: "agg_plan list \<Rightarrow> agg_acc list \<Rightarrow> val list \<Rightarrow> agg_acc list res" where
  "step_accs plans accs row = collect_res (map (\<lambda>(plan, acc). step_acc row plan acc) (zip plans accs))"

fun finalize_plan :: "agg_plan \<Rightarrow> agg_acc \<Rightarrow> val list \<Rightarrow> val res" where
  "finalize_plan (Group_col pos) _ keyvals = cell keyvals pos"
| "finalize_plan _ (Acc_count c) keyvals = Ok (VInt c)"
| "finalize_plan _ (Acc_sum_int tot any) keyvals =
    (if any then
       (if - (2 ^ 63) \<le> tot \<and> tot < 2 ^ 63 then Ok (VInt (word_of_int tot))
        else Err (Type_error ''SUM overflowed a 64-bit integer''))
     else Ok VNull)"
| "finalize_plan _ (Acc_sum_real tot any) keyvals = Ok (if any then VReal tot else VNull)"
| "finalize_plan _ (Acc_avg tot count) keyvals =
    Ok (if 0 < sint count then VReal (f64_div tot (f64_of_i64 count)) else VNull)"
| "finalize_plan _ (Acc_extreme v) keyvals = Ok (case v of None \<Rightarrow> VNull | Some x \<Rightarrow> x)"
| "finalize_plan _ Acc_group keyvals = Err Panicked"

section \<open>HAVING\<close>

datatype having_ref = Group_key nat | Plan_ref nat

datatype compiled_having =
    CH_compare having_ref cmp_op val
  | CH_not compiled_having
  | CH_and compiled_having compiled_having
  | CH_or compiled_having compiled_having

fun compile_having ::
  "having_expr \<Rightarrow> table_schema \<Rightarrow> string \<Rightarrow> string list \<Rightarrow> agg_plan list \<Rightarrow> (compiled_having \<times> agg_plan list) res"
where
  "compile_having (HCompare term op v) schema table group_by plans =
    rbind (case term of
        Having_column name \<Rightarrow> rbind (group_col_pos group_by name) (\<lambda>pos. Ok (Group_key pos, plans))
      | Having_aggregate func arg \<Rightarrow>
          rbind (resolve_aggregate schema table func arg) (\<lambda>plan.
            Ok (Plan_ref (length plans), plans @ [plan]))) (\<lambda>(left, plans').
    Ok (CH_compare left op (literal_to_value v), plans'))"
| "compile_having (HNot inner) schema table group_by plans =
    rbind (compile_having inner schema table group_by plans) (\<lambda>(h, plans'). Ok (CH_not h, plans'))"
| "compile_having (HAnd a b) schema table group_by plans =
    rbind (compile_having a schema table group_by plans) (\<lambda>(ha, plans').
    rbind (compile_having b schema table group_by plans') (\<lambda>(hb, plans''). Ok (CH_and ha hb, plans'')))"
| "compile_having (HOr a b) schema table group_by plans =
    rbind (compile_having a schema table group_by plans) (\<lambda>(ha, plans').
    rbind (compile_having b schema table group_by plans') (\<lambda>(hb, plans''). Ok (CH_or ha hb, plans'')))"

fun having_operand :: "having_ref \<Rightarrow> val list \<Rightarrow> val list \<Rightarrow> val res" where
  "having_operand (Group_key pos) computed keyvals = cell keyvals pos"
| "having_operand (Plan_ref idx) computed keyvals = cell computed idx"

fun eval_having :: "compiled_having \<Rightarrow> val list \<Rightarrow> val list \<Rightarrow> bool option res" where
  "eval_having (CH_compare left op v) computed keyvals =
    rbind (having_operand left computed keyvals) (\<lambda>lhs.
      Ok (if lhs = VNull \<or> v = VNull then None else Some (holds op (compare_values lhs v))))"
| "eval_having (CH_not inner) computed keyvals =
    rbind (eval_having inner computed keyvals) (\<lambda>b. Ok (map_option Not b))"
| "eval_having (CH_and a b) computed keyvals =
    rbind (eval_having a computed keyvals) (\<lambda>x. rbind (eval_having b computed keyvals) (\<lambda>y. Ok (and3 x y)))"
| "eval_having (CH_or a b) computed keyvals =
    rbind (eval_having a computed keyvals) (\<lambda>x. rbind (eval_having b computed keyvals) (\<lambda>y. Ok (or3 x y)))"

section \<open>The aggregate query\<close>

definition plan_item ::
  "table_schema \<Rightarrow> string \<Rightarrow> string list \<Rightarrow> select_item \<Rightarrow> (agg_plan \<times> string) res" where
  "plan_item schema table group_by item =
    (case item of
       Item_column name \<Rightarrow> rbind (group_col_pos group_by name) (\<lambda>pos. Ok (Group_col pos, name))
     | Item_aggregate func arg \<Rightarrow>
         rbind (resolve_aggregate schema table func arg) (\<lambda>plan. Ok (plan, aggregate_name func arg)))"

type_synonym groups = "(val list \<times> agg_acc list) list"

definition group_row ::
  "nat list \<Rightarrow> agg_plan list \<Rightarrow> groups \<times> (bytes \<rightharpoonup> nat) \<Rightarrow> val list \<Rightarrow> (groups \<times> (bytes \<rightharpoonup> nat)) res" where
  "group_row group_idx plans st row =
    (case st of (groups, index) \<Rightarrow>
      rbind (collect_res (map (cell row) group_idx)) (\<lambda>keyvals.
      let key = encode_row keyvals;
          (groups', index', gi) =
            (case index key of
               Some gi \<Rightarrow> (groups, index, gi)
             | None \<Rightarrow> (groups @ [(keyvals, map init_acc plans)], index(key \<mapsto> length groups), length groups))
      in rbind (step_accs plans (snd (groups' ! gi)) row) (\<lambda>accs.
         Ok (groups'[gi := (fst (groups' ! gi), accs)], index'))))"

fun compare_keys :: "val list \<Rightarrow> val list \<Rightarrow> ordering" where
  "compare_keys (x # xs) (y # ys) =
    (let ord = compare_values x y in if ord \<noteq> Equal then ord else compare_keys xs ys)"
| "compare_keys _ _ = Equal"

definition group_result ::
  "agg_plan list \<Rightarrow> compiled_having option \<Rightarrow> nat \<Rightarrow> val list \<times> agg_acc list \<Rightarrow> val list option res" where
  "group_result plans having output_len g =
    (case g of (keyvals, accs) \<Rightarrow>
      rbind (collect_res (map (\<lambda>(plan, acc). finalize_plan plan acc keyvals) (zip plans accs))) (\<lambda>computed.
      case having of
        None \<Rightarrow> Ok (Some (take output_len computed))
      | Some h \<Rightarrow> rbind (eval_having h computed keyvals) (\<lambda>b.
          Ok (if b = Some True then Some (take output_len computed) else None))))"

definition apply_limit :: "limit option \<Rightarrow> 'a list \<Rightarrow> 'a list" where
  "apply_limit lim xs = (case lim of
     None \<Rightarrow> xs
   | Some l \<Rightarrow> take (unat (lim_count l)) (drop (unat (lim_offset l)) xs))"

definition aggregate ::
  "table_schema \<Rightarrow> string \<Rightarrow> select_item list \<Rightarrow> string list \<Rightarrow> having_expr option \<Rightarrow> val list list \<Rightarrow>
    limit option \<Rightarrow> query_result res" where
  "aggregate schema table items group_by having rows lim =
    rbind (collect_res (map (\<lambda>n. ok_or (Schema_error (''unknown column '' @ debug_str n
             @ '' in GROUP BY of table '' @ debug_str table)) (column_index schema n)) group_by)) (\<lambda>group_idx.
    rbind (collect_res (map (plan_item schema table group_by) items)) (\<lambda>planned.
    let plans0 = map fst planned; names = map snd planned; output_len = length plans0 in
    rbind (case having of
             None \<Rightarrow> Ok (None, plans0)
           | Some h \<Rightarrow> rbind (compile_having h schema table group_by plans0) (\<lambda>(ch, ps). Ok (Some ch, ps)))
      (\<lambda>(compiled_having, plans).
    let start = (if group_by = [] then ([([], map init_acc plans)], [encode_row [] \<mapsto> 0]) else ([], Map.empty)) in
    rbind (fold_res (group_row group_idx plans) start rows) (\<lambda>(groups, index).
    let sorted_groups = sort_by (\<lambda>a b. compare_keys (fst a) (fst b)) groups in
    rbind (collect_res (map (group_result plans compiled_having output_len) sorted_groups)) (\<lambda>outs.
    Ok (Rows names (apply_limit lim (List.map_filter id outs))))))))"

section \<open>Laws of sorting and folding\<close>

lemma insert_by_key:
  "\<forall>y \<in> set ys. f x y = cmp (k x) (k y) \<Longrightarrow> insert_by f x ys = insort_key k x ys"
  by (induction ys) (auto simp: not_le not_less)

lemma sort_by_key:
  assumes "\<And>a b. a \<in> set xs \<Longrightarrow> b \<in> set xs \<Longrightarrow> f a b = cmp (k a) (k b)"
  shows "sort_by f xs = sort_key k xs"
  using assms
proof (induction xs)
  case Nil
  then show ?case by (simp add: sort_by_def)
next
  case (Cons x xs)
  have "sort_by f xs = sort_key k xs" using Cons by simp
  then show ?case
    using insert_by_key [of "sort_key k xs" f x k] Cons.prems by (simp add: sort_by_def)
qed

lemma rbind_Ok_right [simp]: "rbind r Ok = r"
  by (cases r) simp_all

lemma fold_res_append:
  "fold_res f s (xs @ ys) = rbind (fold_res f s xs) (\<lambda>s'. fold_res f s' ys)"
  by (induction xs arbitrary: s) (auto simp: rbind_assoc)

lemma collect_cells:
  "collect_res (map (cell row) is) = Ok ks \<longleftrightarrow> (\<forall>i \<in> set is. i < length row) \<and> ks = map ((!) row) is"
  by (induction "is" arbitrary: ks) (auto simp: cell_def)

section \<open>Grouping\<close>

definition row_key_of :: "nat list \<Rightarrow> val list \<Rightarrow> val list" where
  "row_key_of group_idx row = map ((!) row) group_idx"

text \<open>Distinct elements in the order of their first occurrence.\<close>

definition firsts :: "'a list \<Rightarrow> 'a list" where
  "firsts xs = rev (remdups (rev xs))"

lemma firsts_snoc [simp]: "firsts (xs @ [x]) = (if x \<in> set xs then firsts xs else firsts xs @ [x])"
  by (simp add: firsts_def)

lemma firsts_simps [simp]: "firsts [] = []" "firsts [x] = [x]" "set (firsts xs) = set xs" "distinct (firsts xs)"
  by (simp_all add: firsts_def)

definition group_inv ::
  "nat list \<Rightarrow> agg_plan list \<Rightarrow> val list list \<Rightarrow> val list list \<Rightarrow> groups \<times> (bytes \<rightharpoonup> nat) \<Rightarrow> bool" where
  "group_inv group_idx plans seed rows st \<longleftrightarrow> (case st of (groups, index) \<Rightarrow>
     map fst groups = firsts (seed @ map (row_key_of group_idx) rows)
     \<and> (\<forall>b. index b = position (\<lambda>g. encode_row (fst g) = b) groups)
     \<and> (\<forall>(k, accs) \<in> set groups. fold_res (step_accs plans) (map init_acc plans)
          (filter (\<lambda>r. row_key_of group_idx r = k) rows) = Ok accs))"

definition keys_ok :: "nat list \<Rightarrow> val list list \<Rightarrow> bool" where
  "keys_ok group_idx rows \<longleftrightarrow> length group_idx < 2 ^ 16
     \<and> (\<forall>r \<in> set rows. \<forall>i \<in> set group_idx. i < length r \<and> val_ok (r ! i))"

lemma encode_row_inj: "row_ok a \<Longrightarrow> row_ok b \<Longrightarrow> encode_row a = encode_row b \<longleftrightarrow> a = b"
  using decode_row_encode by (metis result.inject(1))

lemma position_append:
  "position P (xs @ [x]) = (case position P xs of Some i \<Rightarrow> Some i | None \<Rightarrow> if P x then Some (length xs) else None)"
  by (induction xs) (auto split: option.splits)

lemma position_update:
  assumes "i < length xs" "P y = P (xs ! i)"
  shows "position P (xs[i := y]) = position P xs"
  using assms by (induction xs arbitrary: i) (auto split: nat.splits)

text \<open>One row: its group exists already, or is opened at the end.\<close>

lemma group_row_inv:
  assumes inv: "group_inv group_idx plans seed rows st"
    and ok: "keys_ok group_idx (rows @ [row])" "list_all row_ok seed"
    and step: "group_row group_idx plans st row = Ok st'"
  shows "group_inv group_idx plans seed (rows @ [row]) st'"
proof -
  obtain groups index where st: "st = (groups, index)" by (cases st)
  let ?k = "row_key_of group_idx row"
  let ?keys = "seed @ map (row_key_of group_idx) rows"
  have keys: "map fst groups = firsts ?keys"
    and index: "index b = position (\<lambda>g. encode_row (fst g) = b) groups"
    and accs: "\<And>k a. (k, a) \<in> set groups \<Longrightarrow> fold_res (step_accs plans) (map init_acc plans)
          (filter (\<lambda>r. row_key_of group_idx r = k) rows) = Ok a" for b
    using inv by (auto simp: group_inv_def st)
  have fold_k: "fold_res (step_accs plans) (map init_acc plans)
      (filter (\<lambda>r. row_key_of group_idx r = k) (rows @ [row]))
      = (if k = ?k then rbind (fold_res (step_accs plans) (map init_acc plans)
           (filter (\<lambda>r. row_key_of group_idx r = k) rows)) (\<lambda>a. step_accs plans a row)
         else fold_res (step_accs plans) (map init_acc plans) (filter (\<lambda>r. row_key_of group_idx r = k) rows))" for k
    by (auto simp: fold_res_append)
  have key_ok: "row_ok (row_key_of group_idx r)" if "r \<in> set (rows @ [row])" for r
    using ok(1) that by (auto simp: keys_ok_def row_key_of_def row_ok_def list_all_iff)
  have keys_ok': "row_ok k" if "k \<in> set ?keys" for k
    using that key_ok ok(2) by (auto simp: list_all_iff)
  have fst_keys: "fst g \<in> set ?keys" if "g \<in> set groups" for g
    using that keys by (metis firsts_simps(3) image_eqI list.set_map)
  have same: "encode_row (fst g) = encode_row ?k \<longleftrightarrow> fst g = ?k" if "g \<in> set groups" for g
    using encode_row_inj [OF keys_ok' [OF fst_keys [OF that]] key_ok [of row]] by simp
  have dist: "distinct (map fst groups)" by (simp add: keys)
  obtain groups' index' gi as where
    sel: "(groups', index', gi) = (case index (encode_row ?k) of
        Some gi \<Rightarrow> (groups, index, gi)
      | None \<Rightarrow> (groups @ [(?k, map init_acc plans)], index(encode_row ?k \<mapsto> length groups), length groups))"
    and as: "step_accs plans (snd (groups' ! gi)) row = Ok as"
    and st': "st' = (groups'[gi := (fst (groups' ! gi), as)], index')"
    using step by (auto simp: group_row_def st collect_cells row_key_of_def Let_def split: option.splits)
  show ?thesis
  proof (cases "index (encode_row ?k)")
    case (Some i)
    then have "position (\<lambda>g. encode_row (fst g) = encode_row ?k) groups = Some i" by (simp add: index)
    from position_Some [OF this] have i: "i < length groups" "encode_row (fst (groups ! i)) = encode_row ?k"
      by auto
    then have i: "i < length groups" "fst (groups ! i) = ?k" using same [OF nth_mem] by auto
    then have g: "groups' = groups" "index' = index" "gi = i" using sel Some by auto
    have "?k \<in> set ?keys" using fst_keys [OF nth_mem [OF i(1)]] i(2) by simp
    moreover have "map fst (groups[i := (?k, as)]) = map fst groups"
      using i by (simp add: map_update list_update_same_conv)
    moreover have "position (\<lambda>g. encode_row (fst g) = b) (groups[i := (?k, as)]) = index b" for b
      using i index by (simp add: position_update)
    moreover have "fold_res (step_accs plans) (map init_acc plans)
        (filter (\<lambda>r. row_key_of group_idx r = k) (rows @ [row])) = Ok a"
      if mem: "(k, a) \<in> set (groups[i := (?k, as)])" for k a
    proof -
      obtain j where j: "j < length groups" "groups[i := (?k, as)] ! j = (k, a)"
        using mem by (auto simp: in_set_conv_nth)
      show ?thesis
      proof (cases "j = i")
        case True
        with j have "k = ?k" "a = as" by auto
        moreover have "fold_res (step_accs plans) (map init_acc plans)
            (filter (\<lambda>r. row_key_of group_idx r = ?k) rows) = Ok (snd (groups ! i))"
          using accs [of ?k "snd (groups ! i)"] nth_mem [OF i(1)] i(2) by (metis prod.collapse)
        ultimately show ?thesis using as g by (simp only: fold_k) simp
      next
        case False
        with j have "groups ! j = (k, a)" by simp
        moreover from this have "k \<noteq> ?k"
          using dist i j(1) False by (auto simp: distinct_conv_nth) (metis fst_conv)
        ultimately show ?thesis using accs nth_mem [OF j(1)] by (simp only: fold_k) simp
      qed
    qed
    ultimately show ?thesis
      using keys i by (simp add: group_inv_def st' g append_assoc [symmetric] del: append_assoc) auto
  next
    case None
    then have new: "\<forall>g \<in> set groups. fst g \<noteq> ?k"
      using index same by (simp add: position_None)
    then have nk: "?k \<notin> set ?keys" by (metis firsts_simps(3) image_iff keys list.set_map)
    have g: "groups' = groups @ [(?k, map init_acc plans)]" "index' = index(encode_row ?k \<mapsto> length groups)"
      "gi = length groups" using sel None by auto
    have none: "filter (\<lambda>r. row_key_of group_idx r = ?k) rows = []"
      using nk by (simp add: filter_empty_conv) (metis image_eqI)
    have one: "fold_res (step_accs plans) (map init_acc plans)
        (filter (\<lambda>r. row_key_of group_idx r = k) (rows @ [row])) = Ok a"
      if "(k, a) \<in> set groups \<or> (k, a) = (?k, as)" for k a
      using that accs new as none by (simp only: fold_k) (auto simp: g)
    have pos: "position (\<lambda>g. encode_row (fst g) = b) (groups @ [(?k, as)]) = index' b" for b
      using index None by (auto simp: position_append g split: option.splits)
    have st'': "st' = (groups @ [(?k, as)], index')" by (simp add: st' g)
    show ?thesis
      unfolding group_inv_def st'' prod.case
    proof (intro conjI)
      show "map fst (groups @ [(?k, as)]) = firsts (seed @ map (row_key_of group_idx) (rows @ [row]))"
        using keys nk by (simp add: append_assoc [symmetric] del: append_assoc)
      show "\<forall>b. index' b = position (\<lambda>g. encode_row (fst g) = b) (groups @ [(?k, as)])"
        using pos by simp
      show "\<forall>(k, a) \<in> set (groups @ [(?k, as)]). fold_res (step_accs plans) (map init_acc plans)
          (filter (\<lambda>r. row_key_of group_idx r = k) (rows @ [row])) = Ok a"
      proof (intro ballI case_prodI2)
        fix e k a
        assume "e \<in> set (groups @ [(?k, as)])" "e = (k, a)"
        then have "(k, a) \<in> set groups \<or> (k, a) = (?k, as)" by auto
        then show "fold_res (step_accs plans) (map init_acc plans)
            (filter (\<lambda>r. row_key_of group_idx r = k) (rows @ [row])) = Ok a" by (rule one)
      qed
    qed
  qed
qed

lemma group_rows_inv:
  assumes "group_inv group_idx plans seed rows st" "keys_ok group_idx (rows @ later)" "list_all row_ok seed"
    and "fold_res (group_row group_idx plans) st later = Ok st'"
  shows "group_inv group_idx plans seed (rows @ later) st'"
  using assms
proof (induction later arbitrary: rows st)
  case Nil
  then show ?case by simp
next
  case (Cons r later)
  from Cons.prems(4) obtain st1 where s1: "group_row group_idx plans st r = Ok st1"
    and s2: "fold_res (group_row group_idx plans) st1 later = Ok st'" by auto
  have "keys_ok group_idx (rows @ [r])" using Cons.prems(2) by (auto simp: keys_ok_def)
  from Cons.IH [OF group_row_inv [OF Cons.prems(1) this Cons.prems(3) s1] _ Cons.prems(3) s2] Cons.prems(2)
  show ?case by simp
qed

section \<open>The values of a group\<close>

definition nonnull :: "nat \<Rightarrow> val list list \<Rightarrow> val list" where
  "nonnull i rows = filter (\<lambda>v. v \<noteq> VNull) (map (\<lambda>r. r ! i) rows)"

lemma nonnull_simps [simp]:
  "nonnull i [] = []"
  "nonnull i (r # rows) = (if r ! i = VNull then nonnull i rows else r ! i # nonnull i rows)"
  by (simp_all add: nonnull_def)

fun int_of :: "val \<Rightarrow> int" where
  "int_of (VInt n) = sint n"
| "int_of _ = 0"

fun real_of_val :: "val \<Rightarrow> f64" where
  "real_of_val (VReal x) = x"
| "real_of_val (VInt n) = f64_of_i64 n"
| "real_of_val _ = 0"

text \<open>The specification: each aggregate as a function of the rows of its group.\<close>

fun agg_spec :: "agg_plan \<Rightarrow> val list \<Rightarrow> val list list \<Rightarrow> val res" where
  "agg_spec (Group_col pos) key rows = cell key pos"
| "agg_spec (Plan_count None) key rows = Ok (VInt (of_nat (length rows)))"
| "agg_spec (Plan_count (Some i)) key rows = Ok (VInt (of_nat (length (nonnull i rows))))"
| "agg_spec (Sum_int i) key rows =
    (let s = sum_list (map int_of (nonnull i rows)) in
     if nonnull i rows = [] then Ok VNull
     else if - (2 ^ 63) \<le> s \<and> s < 2 ^ 63 then Ok (VInt (word_of_int s))
     else Err (Type_error ''SUM overflowed a 64-bit integer''))"
| "agg_spec (Sum_real i) key rows =
    Ok (if nonnull i rows = [] then VNull else VReal (foldl f64_add 0 (map real_of_val (nonnull i rows))))"
| "agg_spec (Plan_avg i) key rows =
    Ok (if nonnull i rows = [] then VNull
        else VReal (f64_div (foldl f64_add 0 (map real_of_val (nonnull i rows)))
                            (f64_of_i64 (of_nat (length (nonnull i rows))))))"
| "agg_spec (Plan_min i) key rows =
    Ok (if nonnull i rows = [] then VNull else hd (sort_key val_key (nonnull i rows)))"
| "agg_spec (Plan_max i) key rows =
    Ok (if nonnull i rows = [] then VNull else last (sort_key val_key (nonnull i rows)))"

lemma step_accs_nth:
  assumes "fold_res (step_accs plans) accs0 rows = Ok accs" "length accs0 = length plans" "j < length plans"
  shows "length accs = length plans
    \<and> fold_res (\<lambda>a r. step_acc r (plans ! j) a) (accs0 ! j) rows = Ok (accs ! j)"
  using assms
proof (induction rows arbitrary: accs0)
  case Nil
  then show ?case by simp
next
  case (Cons r rows)
  from Cons.prems(1) obtain accs1 where a1: "step_accs plans accs0 r = Ok accs1"
    and rest: "fold_res (step_accs plans) accs1 rows = Ok accs" by auto
  from a1 have m: "map (\<lambda>(plan, acc). step_acc r plan acc) (zip plans accs0) = map Ok accs1"
    by (simp add: step_accs_def collect_res_eq_Ok)
  from arg_cong [OF m, of length] Cons.prems(2) have len: "length accs1 = length plans" by simp
  from arg_cong [OF m, of "\<lambda>xs. xs ! j"] have nth: "step_acc r (plans ! j) (accs0 ! j) = Ok (accs1 ! j)"
    using Cons.prems(2,3) len by simp
  from Cons.IH [OF rest len Cons.prems(3)] nth show ?case by simp
qed

lemma fold_count_all:
  "fold_res (\<lambda>a r. step_acc r (Plan_count None) a) (Acc_count c) rows = Ok (Acc_count (c + of_nat (length rows)))"
  by (induction rows arbitrary: c) (simp_all add: ac_simps)

lemma fold_count:
  "fold_res (\<lambda>a r. step_acc r (Plan_count (Some i)) a) (Acc_count c) rows = Ok acc \<Longrightarrow>
    acc = Acc_count (c + of_nat (length (nonnull i rows)))"
proof (induction rows arbitrary: c)
  case Nil
  then show ?case by simp
next
  case (Cons r rows)
  then show ?case
    by (cases "r ! i = VNull") (fastforce simp: cell_def add.assoc split: if_splits)+
qed

lemma fold_sum_int:
  "fold_res (\<lambda>a r. step_acc r (Sum_int i) a) (Acc_sum_int s any) rows = Ok acc \<Longrightarrow>
    acc = Acc_sum_int (s + sum_list (map int_of (nonnull i rows))) (any \<or> nonnull i rows \<noteq> [])"
  by (induction rows arbitrary: s any) (fastforce simp: cell_def split: if_splits val.splits)+

lemma fold_sum_real:
  "fold_res (\<lambda>a r. step_acc r (Sum_real i) a) (Acc_sum_real s any) rows = Ok acc \<Longrightarrow>
    acc = Acc_sum_real (foldl f64_add s (map real_of_val (nonnull i rows))) (any \<or> nonnull i rows \<noteq> [])"
  by (induction rows arbitrary: s any) (fastforce simp: cell_def split: if_splits val.splits)+

lemma fold_avg:
  "fold_res (\<lambda>a r. step_acc r (Plan_avg i) a) (Acc_avg s c) rows = Ok acc \<Longrightarrow>
    acc = Acc_avg (foldl f64_add s (map real_of_val (nonnull i rows))) (c + of_nat (length (nonnull i rows)))"
  by (induction rows arbitrary: s c) (fastforce simp: cell_def ac_simps split: if_splits val.splits)+

text \<open>The running extreme of typed values is the first or last element of the sorted list.\<close>

definition extreme :: "bool \<Rightarrow> val list \<Rightarrow> val option" where
  "extreme want_min vs = foldl (\<lambda>cur v. update_extreme cur v want_min) None vs"

lemma fold_extreme:
  assumes "plan = (if want_min then Plan_min i else Plan_max i)"
    and "fold_res (\<lambda>a r. step_acc r plan a) (Acc_extreme cur) rows = Ok acc"
  shows "acc = Acc_extreme (foldl (\<lambda>cur v. update_extreme cur v want_min) cur (nonnull i rows))"
  using assms(2)
proof (induction rows arbitrary: cur)
  case Nil
  then show ?case by simp
next
  case (Cons r rows)
  have "update_extreme cur VNull want_min = cur" by (simp add: update_extreme_def)
  with Cons show ?case using assms(1) by (cases want_min) (auto simp: cell_def split: if_splits)
qed

lemma extreme_invariant:
  assumes "\<forall>v \<in> set vs. typed ty v \<and> v \<noteq> VNull" "typed ty x" "x \<noteq> VNull"
  shows "\<exists>y. foldl (\<lambda>cur v. update_extreme cur v want_min) (Some x) vs = Some y \<and> y \<in> insert x (set vs)
    \<and> (\<forall>v \<in> insert x (set vs). if want_min then val_key y \<le> val_key v else val_key v \<le> val_key y)"
  using assms
proof (induction vs arbitrary: x)
  case Nil
  then show ?case by simp
next
  case (Cons v vs)
  let ?x = "if compare_values v x = (if want_min then Less else Greater) then v else x"
  have key: "compare_values v x = cmp (val_key v) (val_key x)"
    using Cons.prems by (intro compare_values_key) auto
  have x: "typed ty ?x" "?x \<noteq> VNull" using Cons.prems by auto
  have "update_extreme (Some x) v want_min = Some ?x"
    using Cons.prems by (simp add: update_extreme_def)
  moreover obtain y where "foldl (\<lambda>cur v. update_extreme cur v want_min) (Some ?x) vs = Some y"
    "y \<in> insert ?x (set vs)"
    "\<forall>v \<in> insert ?x (set vs). if want_min then val_key y \<le> val_key v else val_key v \<le> val_key y"
    using Cons.IH [OF _ x] Cons.prems by (auto simp del: if_split_asm)
  ultimately show ?case
    by (intro exI [of _ y]) (auto simp: key not_less split: if_splits intro: order_trans)
qed

lemma extreme_sorted:
  assumes "\<forall>v \<in> set vs. typed ty v \<and> v \<noteq> VNull" "vs \<noteq> []"
  shows "extreme True vs = Some (hd (sort_key val_key vs))"
    and "extreme False vs = Some (last (sort_key val_key vs))"
proof -
  obtain x xs where vs: "vs = x # xs" using assms(2) by (cases vs) auto
  have start: "extreme w vs = foldl (\<lambda>cur v. update_extreme cur v w) (Some x) xs" for w
    using assms(1) by (simp add: extreme_def vs update_extreme_def)
  let ?s = "sort_key val_key vs"
  have s: "?s \<noteq> []" "set ?s = set vs" "sorted (map val_key ?s)"
    using assms(2) length_sort [of val_key vs] by (auto simp del: length_sort)
  have hd: "\<forall>v \<in> set vs. val_key (hd ?s) \<le> val_key v"
    using s by (cases ?s) (auto simp flip: s(2))
  have last: "\<forall>v \<in> set vs. val_key v \<le> val_key (last ?s)"
    using s by (cases ?s rule: rev_cases) (auto simp: sorted_append simp flip: s(2))
  have uniq: "y = z" if "y \<in> set vs" "z \<in> set vs" "val_key y = val_key z" for y z
    using that val_key_inj assms(1) by blast
  have mem: "hd ?s \<in> set vs" "last ?s \<in> set vs"
    using s by (metis hd_in_set, metis last_in_set)
  show "extreme True vs = Some (hd ?s)"
  proof -
    obtain y where "extreme True vs = Some y" "y \<in> set vs" "\<forall>v \<in> set vs. val_key y \<le> val_key v"
      using extreme_invariant [of xs ty x True] assms(1) start by (auto simp: vs)
    with hd mem uniq show ?thesis by (metis order_antisym)
  qed
  show "extreme False vs = Some (last ?s)"
  proof -
    obtain y where "extreme False vs = Some y" "y \<in> set vs" "\<forall>v \<in> set vs. val_key v \<le> val_key y"
      using extreme_invariant [of xs ty x False] assms(1) start by (auto simp: vs)
    with last mem uniq show ?thesis by (metis order_antisym)
  qed
qed

lemma agg_value:
  assumes "fold_res (\<lambda>a r. step_acc r plan a) (init_acc plan) rows = Ok acc" "length rows < 2 ^ 63"
    and "\<forall>i. plan = Plan_min i \<or> plan = Plan_max i \<longrightarrow> (\<exists>ty. \<forall>r \<in> set rows. typed ty (r ! i))"
  shows "finalize_plan plan acc key = agg_spec plan key rows"
proof (cases plan)
  case (Group_col pos)
  then show ?thesis by simp
next
  case (Plan_count x)
  then show ?thesis 
    using assms(1) fold_count_all [of 0 rows] fold_count [of "the x" 0 rows acc] by (cases x) auto
next
  case (Sum_int i)
  then show ?thesis using fold_sum_int [of i 0 False rows acc] assms(1) by (simp add: Let_def)
next
  case (Sum_real i)
  then show ?thesis using fold_sum_real [of i 0 False rows acc] assms(1) by simp
next
  case (Plan_avg i)
  have "length (nonnull i rows) < 2 ^ 63"
    using le_less_trans [OF length_filter_le assms(2)] by (simp add: nonnull_def filter_map)
  then have "sint (of_nat (length (nonnull i rows)) :: i64) = int (length (nonnull i rows))"
    by (simp add: signed_of_nat signed_take_bit_int_eq_self)
  with Plan_avg show ?thesis using fold_avg [of i 0 0 rows acc] assms(1) by simp
next
  case (Plan_min i)
  have acc: "acc = Acc_extreme (extreme True (nonnull i rows))"
    using fold_extreme [of plan True i None rows acc] assms(1) Plan_min by (simp add: extreme_def)
  obtain ty where "\<forall>r \<in> set rows. typed ty (r ! i)" using assms(3) Plan_min by blast
  then have "\<forall>v \<in> set (nonnull i rows). typed ty v \<and> v \<noteq> VNull" by (auto simp: nonnull_def)
  from extreme_sorted(1) [OF this] show ?thesis
    by (cases "nonnull i rows = []") (auto simp: Plan_min acc extreme_def)
next
  case (Plan_max i)
  have acc: "acc = Acc_extreme (extreme False (nonnull i rows))"
    using fold_extreme [of plan False i None rows acc] assms(1) Plan_max by (simp add: extreme_def)
  obtain ty where "\<forall>r \<in> set rows. typed ty (r ! i)" using assms(3) Plan_max by blast
  then have "\<forall>v \<in> set (nonnull i rows). typed ty v \<and> v \<noteq> VNull" by (auto simp: nonnull_def)
  from extreme_sorted(2) [OF this] show ?thesis
    by (cases "nonnull i rows = []") (auto simp: Plan_max acc extreme_def)
qed

section \<open>Properties of aggregation\<close>

definition group_start :: "string list \<Rightarrow> agg_plan list \<Rightarrow> groups \<times> (bytes \<rightharpoonup> nat)" where
  "group_start group_by plans =
    (if group_by = [] then ([([], map init_acc plans)], [encode_row [] \<mapsto> 0]) else ([], Map.empty))"

lemma group_start_inv:
  "group_inv group_idx plans (if group_by = [] then [[]] else []) [] (group_start group_by plans)"
  by (auto simp: group_inv_def group_start_def)

lemma rows_agg_values:
  assumes "fold_res (step_accs plans) (map init_acc plans) rows = Ok accs" "j < length plans"
    and "length rows < 2 ^ 63"
    and "\<And>i. Plan_min i \<in> set plans \<or> Plan_max i \<in> set plans \<Longrightarrow> \<exists>ty. \<forall>r \<in> set rows. typed ty (r ! i)"
  shows "finalize_plan (plans ! j) (accs ! j) key = agg_spec (plans ! j) key rows"
proof (rule agg_value [OF _ assms(3)])
  show "fold_res (\<lambda>a r. step_acc r (plans ! j) a) (init_acc (plans ! j)) rows = Ok (accs ! j)"
    using step_accs_nth [OF assms(1) _ assms(2)] assms(2) by simp
  show "\<forall>i. plans ! j = Plan_min i \<or> plans ! j = Plan_max i \<longrightarrow> (\<exists>ty. \<forall>r \<in> set rows. typed ty (r ! i))"
    using assms(4) nth_mem [OF assms(2)] by metis
qed

text \<open>C29: grouping and aggregate values. The loop over the rows (starting from the seeded group of a
  query without \<open>GROUP BY\<close>) opens exactly one group per distinct key, in order of first appearance,
  and the final value of every aggregate of a group is the mathematical aggregate of the rows with
  that key: the row count, the number of non-NULL cells, the exact integer sum or an overflow error,
  the least and greatest non-NULL cell.\<close>

theorem aggregate_groups_correct:
  assumes "fold_res (group_row group_idx plans) (group_start group_by plans) rows = Ok (groups, index)"
    and "keys_ok group_idx rows" and "length group_idx = length group_by" and "length rows < 2 ^ 63"
    and "\<And>i. Plan_min i \<in> set plans \<or> Plan_max i \<in> set plans \<Longrightarrow> \<exists>ty. \<forall>r \<in> set rows. typed ty (r ! i)"
  shows "map fst groups = (if group_by = [] then [[]] else firsts (map (row_key_of group_idx) rows))
    \<and> (\<forall>(key, accs) \<in> set groups. \<forall>j < length plans.
        finalize_plan (plans ! j) (accs ! j) key
          = agg_spec (plans ! j) key (filter (\<lambda>r. row_key_of group_idx r = key) rows))"
proof -
  let ?seed = "if group_by = [] then [[]] else []"
  have seed: "list_all row_ok ?seed" by (simp add: row_ok_def)
  have inv: "group_inv group_idx plans ?seed rows (groups, index)"
    using group_rows_inv [OF group_start_inv _ seed assms(1)] assms(2) by simp
  have "firsts ([[]] @ map (row_key_of []) rows) = [[]]"
    by (induction rows rule: rev_induct)
      (simp_all add: row_key_of_def append_assoc [symmetric] del: append_assoc append_Cons)
  then have nil: "firsts ([[]] @ map (row_key_of group_idx) rows) = [[]]" if "group_by = []"
    using that assms(3) by simp
  have vals: "finalize_plan (plans ! j) (accs ! j) key
      = agg_spec (plans ! j) key (filter (\<lambda>r. row_key_of group_idx r = key) rows)"
    if "(key, accs) \<in> set groups" "j < length plans" for key accs j
  proof (rule rows_agg_values)
    show "fold_res (step_accs plans) (map init_acc plans) (filter (\<lambda>r. row_key_of group_idx r = key) rows) = Ok accs"
      using inv that(1) by (auto simp: group_inv_def)
    show "length (filter (\<lambda>r. row_key_of group_idx r = key) rows) < 2 ^ 63"
      using assms(4) length_filter_le [of _ rows] by (meson le_less_trans)
    show "\<exists>ty. \<forall>r \<in> set (filter (\<lambda>r. row_key_of group_idx r = key) rows). typed ty (r ! i)"
      if "Plan_min i \<in> set plans \<or> Plan_max i \<in> set plans" for i
      using assms(5) [OF that] by auto
  qed (rule that(2))
  show ?thesis using inv nil vals by (auto simp: group_inv_def)
qed

theorem aggregate_groups_correct_witness:
  "fold_res (group_row [0] [Sum_int 1]) (group_start [''g''] [Sum_int 1]) [[VInt 1, VInt 5], [VInt 1, VInt 6]]
    = Ok ([([VInt 1], [Acc_sum_int 11 True])], [encode_row [VInt 1] \<mapsto> 0])
    \<and> finalize_plan (Sum_int 1) (Acc_sum_int 11 True) [VInt 1]
      = agg_spec (Sum_int 1) [VInt 1] [[VInt 1, VInt 5], [VInt 1, VInt 6]]"
proof -
  have run: "fold_res (group_row [0] [Sum_int 1]) (group_start [''g''] [Sum_int 1]) [[VInt 1, VInt 5], [VInt 1, VInt 6]]
    = Ok ([([VInt 1], [Acc_sum_int 11 True])], [encode_row [VInt 1] \<mapsto> 0])"
    by (simp add: group_row_def group_start_def cell_def step_accs_def)
  from aggregate_groups_correct [OF run] run show ?thesis
    by (simp add: keys_ok_def row_key_of_def)
qed

end
