(* ===== verification/Poly1305.thy ===== *)
theory Poly1305
  imports Prelude
begin

text \<open>
  The Poly1305 authenticator of \<open>crates/ciphra-crypto/src/poly1305.rs\<close>, seventeen 8-bit limbs in
  \<open>u32\<close> words, first with wrapping arithmetic (release builds, and what the authenticated
  encryption calls) and then with the overflow checks and the assertion of a debug build
  (\<open>poly1305_ck\<close>). Its correctness: the checks never fire, and the tag is the polynomial of RFC 8439 evaluated modulo \<open>2 ^ 130 - 5\<close>, plus \<open>s\<close>, modulo \<open>2 ^ 128\<close>.
\<close>

section \<open>The code\<close>

text \<open>The carry loop \<open>carry += x; x = carry & 255; carry >>= 8\<close> over some limbs.\<close>

fun carry_limbs :: "u32 \<Rightarrow> u32 list \<Rightarrow> u32 list \<times> u32" where
  "carry_limbs carry [] = ([], carry)"
| "carry_limbs carry (x # xs) =
    (let c = carry + x; (ys, c') = carry_limbs (drop_bit 8 c) xs in ((c AND 255) # ys, c'))"

definition limb_add :: "u32 list \<Rightarrow> u32 list \<Rightarrow> u32 list" where
  "limb_add h c = fst (carry_limbs 0 (map2 (+) h c))"

definition mul_limb :: "u32 list \<Rightarrow> u32 list \<Rightarrow> nat \<Rightarrow> u32" where
  "mul_limb h r i = foldl (\<lambda>acc j. acc + h ! j * (if j \<le> i then r ! (i - j) else 320 * r ! (i + 17 - j))) 0 [0..<17]"

definition reduce_pass :: "u32 list \<Rightarrow> u32 list" where
  "reduce_pass x =
    (let (ys, c) = carry_limbs 0 (take 16 x);
         carry = c + x ! 16;
         zs = ys @ [carry AND 3]
     in zs[0 := zs ! 0 + 5 * drop_bit 2 carry])"

definition mul_mod :: "u32 list \<Rightarrow> u32 list \<Rightarrow> u32 list" where
  "mul_mod h r = fst (carry_limbs 0 (reduce_pass (reduce_pass (map (mul_limb h r) [0..<17]))))"

definition clamp :: "u32 list \<Rightarrow> u32 list" where
  "clamp r = r[3 := r ! 3 AND 15, 4 := r ! 4 AND 252, 7 := r ! 7 AND 15, 8 := r ! 8 AND 252,
     11 := r ! 11 AND 15, 12 := r ! 12 AND 252, 15 := r ! 15 AND 15]"

definition block_limbs :: "bytes \<Rightarrow> u32 list" where
  "block_limbs b = map ucast b @ [1] @ replicate (16 - length b) 0"

function poly_loop :: "u32 list \<Rightarrow> u32 list \<Rightarrow> bytes \<Rightarrow> u32 list" where
  "poly_loop r h rest =
    (if rest = [] then h
     else poly_loop r (mul_mod (limb_add h (block_limbs (take 16 rest))) r) (drop 16 rest))"
  by pat_completeness auto

termination by (relation "measure (\<lambda>(r, h, rest). length rest)") auto

declare poly_loop.simps [simp del]

definition MINUS_P :: "u32 list" where
  "MINUS_P = [5, 0, 0, 0, 0, 0, 0, 0, 0, 0, 0, 0, 0, 0, 0, 0, 252]"

definition freeze :: "u32 list \<Rightarrow> u32 list" where
  "freeze g =
    (let h = limb_add g MINUS_P; mask = - drop_bit 7 (h ! 16) in
     map2 (\<lambda>x y. x XOR (mask AND (y XOR x))) h g)"

definition poly1305 :: "bytes \<Rightarrow> bytes \<Rightarrow> bytes" where
  "poly1305 msg key =
    (let r = clamp (map ucast (take 16 key) @ [0]);
         h = freeze (poly_loop r (replicate 17 0) msg);
         s = map ucast (take 16 (drop 16 key)) @ [0]
     in map ucast (take 16 (limb_add h s)))"

text \<open>
  The same code with the checks of a debug build: every \<open>+\<close>, \<open>+=\<close> and \<open>*\<close> on \<open>u32\<close> panics on
  overflow (\<open>None\<close>), and so does the \<open>debug_assert_eq!(carry, 0)\<close> at the end of \<open>mul_mod\<close>. The
  shifts and masks cannot overflow, and the negation of the final selection is a \<open>wrapping_neg\<close>.
\<close>

definition add32 :: "u32 \<Rightarrow> u32 \<Rightarrow> u32 option" where
  "add32 a b = (if unat a + unat b < 2 ^ 32 then Some (a + b) else None)"

definition mul32 :: "u32 \<Rightarrow> u32 \<Rightarrow> u32 option" where
  "mul32 a b = (if unat a * unat b < 2 ^ 32 then Some (a * b) else None)"

fun carry_limbs_ck :: "u32 \<Rightarrow> u32 list \<Rightarrow> (u32 list \<times> u32) option" where
  "carry_limbs_ck carry [] = Some ([], carry)"
| "carry_limbs_ck carry (x # xs) =
    Option.bind (add32 carry x) (\<lambda>c. Option.bind (carry_limbs_ck (drop_bit 8 c) xs) (\<lambda>(ys, c').
      Some ((c AND 255) # ys, c')))"

definition limb_add_ck :: "u32 list \<Rightarrow> u32 list \<Rightarrow> u32 list option" where
  "limb_add_ck h c =
    Option.bind (those (map2 add32 h c)) (\<lambda>xs. map_option fst (carry_limbs_ck 0 xs))"

definition mul_term_ck :: "u32 list \<Rightarrow> u32 list \<Rightarrow> nat \<Rightarrow> nat \<Rightarrow> u32 option" where
  "mul_term_ck h r i j =
    Option.bind (if j \<le> i then Some (r ! (i - j)) else mul32 320 (r ! (i + 17 - j))) (mul32 (h ! j))"

definition mul_limb_ck :: "u32 list \<Rightarrow> u32 list \<Rightarrow> nat \<Rightarrow> u32 option" where
  "mul_limb_ck h r i =
    foldl (\<lambda>acc j. Option.bind acc (\<lambda>sum. Option.bind (mul_term_ck h r i j) (add32 sum))) (Some 0) [0..<17]"

definition reduce_pass_ck :: "u32 list \<Rightarrow> u32 list option" where
  "reduce_pass_ck x =
    Option.bind (carry_limbs_ck 0 (take 16 x)) (\<lambda>(ys, c).
    Option.bind (add32 c (x ! 16)) (\<lambda>carry.
    Option.bind (mul32 5 (drop_bit 2 carry)) (\<lambda>d.
      let zs = ys @ [carry AND 3] in map_option (\<lambda>w. zs[0 := w]) (add32 (zs ! 0) d))))"

definition mul_mod_ck :: "u32 list \<Rightarrow> u32 list \<Rightarrow> u32 list option" where
  "mul_mod_ck h r =
    Option.bind (those (map (mul_limb_ck h r) [0..<17])) (\<lambda>x.
    Option.bind (reduce_pass_ck x) (\<lambda>y.
    Option.bind (reduce_pass_ck y) (\<lambda>z.
    Option.bind (carry_limbs_ck 0 z) (\<lambda>(out, carry). if carry = 0 then Some out else None))))"

function poly_loop_ck :: "u32 list \<Rightarrow> u32 list \<Rightarrow> bytes \<Rightarrow> u32 list option" where
  "poly_loop_ck r h rest =
    (if rest = [] then Some h
     else case Option.bind (limb_add_ck h (block_limbs (take 16 rest))) (\<lambda>s. mul_mod_ck s r) of
            None \<Rightarrow> None
          | Some h' \<Rightarrow> poly_loop_ck r h' (drop 16 rest))"
  by pat_completeness auto

termination by (relation "measure (\<lambda>(r, h, rest). length rest)") auto

declare poly_loop_ck.simps [simp del]

definition freeze_ck :: "u32 list \<Rightarrow> u32 list option" where
  "freeze_ck g = Option.bind (limb_add_ck g MINUS_P) (\<lambda>h.
     let mask = - drop_bit 7 (h ! 16) in Some (map2 (\<lambda>x y. x XOR (mask AND (y XOR x))) h g))"

definition poly1305_ck :: "bytes \<Rightarrow> bytes \<Rightarrow> bytes option" where
  "poly1305_ck msg key =
    Option.bind (poly_loop_ck (clamp (map ucast (take 16 key) @ [0])) (replicate 17 0) msg) (\<lambda>h0.
    Option.bind (freeze_ck h0) (\<lambda>h.
    Option.bind (limb_add_ck h (map ucast (take 16 (drop 16 key)) @ [0])) (\<lambda>t.
      Some (map ucast (take 16 t)))))"

definition tags_equal :: "bytes \<Rightarrow> bytes \<Rightarrow> bool" where
  "tags_equal a b = (foldl (OR) 0 (map2 (XOR) a b) = 0)"

section \<open>Specification\<close>

definition poly_p :: nat where "poly_p = 2 ^ 130 - 5"

definition clamp_mask :: nat where "clamp_mask = 0x0ffffffc0ffffffc0ffffffc0fffffff"

function poly_eval :: "nat \<Rightarrow> nat \<Rightarrow> bytes \<Rightarrow> nat" where
  "poly_eval r acc m =
    (if m = [] then acc
     else poly_eval r (((acc + le_nat (take 16 m) + 256 ^ length (take 16 m)) * r) mod poly_p) (drop 16 m))"
  by pat_completeness auto

termination by (relation "measure (\<lambda>(r, acc, m). length m)") auto

declare poly_eval.simps [simp del]

definition rfc_poly1305 :: "bytes \<Rightarrow> bytes \<Rightarrow> bytes" where
  "rfc_poly1305 msg key = le_bytes 16
    (poly_eval (le_nat (take 16 key) AND clamp_mask) 0 msg + le_nat (take 16 (drop 16 key)))"

section \<open>Limbs as numbers\<close>

fun lval :: "u32 list \<Rightarrow> nat" where
  "lval [] = 0"
| "lval (x # xs) = unat x + 256 * lval xs"

lemma lval_append: "lval (xs @ ys) = lval xs + 256 ^ length xs * lval ys"
  by (induction xs) (simp_all add: algebra_simps)

lemma lval_sum: "lval xs = (\<Sum>i<length xs. unat (xs ! i) * 256 ^ i)"
  by (induction xs) (simp_all add: sum.lessThan_Suc_shift sum_distrib_left ac_simps del: sum.lessThan_Suc)

lemma lval_bound: "\<forall>x \<in> set xs. unat x < 256 \<Longrightarrow> lval xs < 256 ^ length xs"
  by (induction xs) auto

lemma lval_replicate [simp]: "lval (replicate n 0) = 0"
  by (induction n) simp_all

lemma unat_add: "unat a + unat b < 2 ^ 32 \<Longrightarrow> unat (a + b :: u32) = unat a + unat b"
  using unat_add_lem [of a b] by simp

lemma unat_mult: "unat a * unat b < 2 ^ 32 \<Longrightarrow> unat (a * b :: u32) = unat a * unat b"
  using unat_mult_lem [of a b] by simp

lemma unat_and_255: "unat (a AND 255 :: u32) = unat a mod 256"
proof -
  have "a AND 255 = take_bit 8 a" by (simp add: take_bit_eq_mask mask_eq_exp_minus_1)
  then have "unat (a AND 255) = take_bit 8 (unat a)" by (simp only: unsigned_take_bit_eq)
  then show ?thesis by (simp add: take_bit_eq_mod)
qed

lemma unat_and_3: "unat (a AND 3 :: u32) = unat a mod 4"
proof -
  have "a AND 3 = take_bit 2 a" by (simp add: take_bit_eq_mask mask_eq_exp_minus_1)
  then have "unat (a AND 3) = take_bit 2 (unat a)" by (simp only: unsigned_take_bit_eq)
  then show ?thesis by (simp add: take_bit_eq_mod)
qed

lemma unat_shift: "unat (drop_bit n a :: u32) = unat a div 2 ^ n"
  by (subst unat_drop_bit_eq) (rule drop_bit_eq_div)

lemma carry_limbs_val:
  assumes "\<forall>x \<in> set xs. unat x \<le> M" "unat c \<le> M" "M < 2 ^ 31" "carry_limbs c xs = (ys, c')"
  shows "length ys = length xs \<and> (\<forall>y \<in> set ys. unat y < 256) \<and> unat c' \<le> M
    \<and> lval ys + 256 ^ length xs * unat c' = unat c + lval xs"
  using assms
proof (induction xs arbitrary: c ys)
  case Nil
  then show ?case by simp
next
  case (Cons x xs)
  have sum: "unat (c + x) = unat c + unat x"
    using Cons.prems by (intro unat_add) auto
  obtain zs where zs: "carry_limbs (drop_bit 8 (c + x)) xs = (zs, c')" and ys: "ys = ((c + x) AND 255) # zs"
    using Cons.prems(4) by (auto simp: Let_def split: prod.splits)
  have le: "unat (drop_bit 8 (c + x)) \<le> M"
    using Cons.prems by (auto simp: unat_shift sum)
  from Cons.IH [OF _ le Cons.prems(3) zs] Cons.prems(1)
  have IH: "length zs = length xs" "\<forall>y \<in> set zs. unat y < 256" "unat c' \<le> M"
    "lval zs + 256 ^ length xs * unat c' = (unat c + unat x) div 256 + lval xs"
    by (auto simp: unat_shift sum)
  have "lval ys + 256 ^ length (x # xs) * unat c'
      = (unat c + unat x) mod 256 + 256 * (lval zs + 256 ^ length xs * unat c')"
    by (simp add: ys unat_and_255 sum algebra_simps)
  also have "\<dots> = (unat c + unat x) mod 256 + 256 * ((unat c + unat x) div 256) + 256 * lval xs"
    by (simp only: IH(4)) simp
  also have "\<dots> = unat c + lval (x # xs)" by simp
  finally show ?case using IH by (simp add: ys unat_and_255)
qed

text \<open>Without a carry out the value is unchanged; in general it is reduced modulo \<open>256 ^ n\<close>.\<close>

lemma carry_limbs_mod:
  assumes "\<forall>x \<in> set xs. unat x \<le> M" "M < 2 ^ 31"
  shows "length (fst (carry_limbs 0 xs)) = length xs
    \<and> (\<forall>y \<in> set (fst (carry_limbs 0 xs)). unat y < 256)
    \<and> lval (fst (carry_limbs 0 xs)) = lval xs mod 256 ^ length xs"
proof -
  obtain ys c' where c: "carry_limbs 0 xs = (ys, c')" by fastforce
  from carry_limbs_val [OF assms(1) _ assms(2) c]
  have ys: "length ys = length xs" "\<forall>y \<in> set ys. unat y < 256"
    "lval ys + 256 ^ length xs * unat c' = lval xs" by auto
  have "lval xs mod 256 ^ length xs = lval ys mod 256 ^ length xs"
    by (simp flip: ys(3))
  also have "\<dots> = lval ys" using lval_bound [OF ys(2)] ys(1) by simp
  finally show ?thesis using ys by (simp add: c)
qed

definition limbs :: "u32 list \<Rightarrow> bool" where
  "limbs h \<longleftrightarrow> length h = 17 \<and> (\<forall>x \<in> set h. unat x < 256)"

lemma lval_map2_add:
  "length h = length c \<Longrightarrow> \<forall>x \<in> set h. unat x < 256 \<Longrightarrow> \<forall>x \<in> set c. unat x < 256 \<Longrightarrow>
    lval (map2 (+) h c) = lval h + lval c \<and> (\<forall>x \<in> set (map2 (+) h c). unat x \<le> 510)"
proof (induction h c rule: list_induct2)
  case Nil
  then show ?case by simp
next
  case (Cons x h y c)
  then have "unat (x + y) = unat x + unat y" by (intro unat_add) auto
  with Cons show ?case by auto
qed

lemma limb_add_val:
  assumes "limbs h" "limbs c"
  shows "limbs (limb_add h c) \<and> lval (limb_add h c) = (lval h + lval c) mod 256 ^ 17"
proof -
  have l: "lval (map2 (+) h c) = lval h + lval c" "\<forall>x \<in> set (map2 (+) h c). unat x \<le> 510"
    using lval_map2_add [of h c] assms by (auto simp: limbs_def)
  from carry_limbs_mod [OF l(2)] l(1) assms show ?thesis
    by (simp add: limb_add_def limbs_def)
qed

section \<open>Multiplication\<close>

lemma pow17_mod: "256 ^ 17 mod poly_p = 320 mod poly_p"
  by (simp add: poly_p_def)

text \<open>The convolution with wrap-around by 320, on numbers.\<close>

definition conv :: "(nat \<Rightarrow> nat) \<Rightarrow> (nat \<Rightarrow> nat) \<Rightarrow> nat \<Rightarrow> nat" where
  "conv h r i = (\<Sum>j<17. h j * (if j \<le> i then r (i - j) else 320 * r (i + 17 - j)))"

lemma mod_sum_cong:
  "(\<And>i. f i mod p = g i mod p) \<Longrightarrow> sum f A mod p = sum g A mod (p :: nat)"
  by (metis (no_types, lifting) mod_sum_eq sum.cong)

lemma shift_row:
  assumes "j < 17"
  shows "(\<Sum>i<17. (if j \<le> i then r (i - j) else 320 * r (i + 17 - j)) * 256 ^ i) mod poly_p
    = (\<Sum>k<17. r k * 256 ^ (j + k)) mod poly_p"
proof -
  have split: "(\<Sum>i<17. f i) = (\<Sum>i<j. f i) + (\<Sum>i\<in>{j..<17}. f i)" for f :: "nat \<Rightarrow> nat"
    using sum.atLeastLessThan_concat [of 0 j 17 f] assms by (simp add: lessThan_atLeast0)
  have split': "(\<Sum>k<17. f k) = (\<Sum>k<17 - j. f k) + (\<Sum>k\<in>{17 - j..<17}. f k)" for f :: "nat \<Rightarrow> nat"
    using sum.atLeastLessThan_concat [of 0 "17 - j" 17 f] by (simp add: lessThan_atLeast0)
  have high: "(\<Sum>i\<in>{j..<17}. r (i - j) * 256 ^ i) = (\<Sum>k<17 - j. r k * 256 ^ (j + k))"
    by (rule sum.reindex_bij_witness [of _ "\<lambda>k. j + k" "\<lambda>i. i - j"]) auto
  have low: "(\<Sum>k\<in>{17 - j..<17}. r k * 256 ^ (j + k)) = (\<Sum>i<j. r (i + 17 - j) * 256 ^ (i + 17))"
    by (rule sum.reindex_bij_witness [of _ "\<lambda>i. i + 17 - j" "\<lambda>k. k + j - 17"]) (use assms in \<open>auto simp: ac_simps\<close>)
  have "(\<Sum>i<j. 320 * r (i + 17 - j) * 256 ^ i) mod poly_p = (\<Sum>i<j. r (i + 17 - j) * 256 ^ (i + 17)) mod poly_p"
  proof -
    have "(320 * r (i + 17 - j) * 256 ^ i) mod poly_p = (r (i + 17 - j) * 256 ^ (i + 17)) mod poly_p" for i
    proof -
      have "r (i + 17 - j) * 256 ^ (i + 17) = 256 ^ 17 * (r (i + 17 - j) * 256 ^ i)"
        by (simp add: power_add)
      also have "\<dots> mod poly_p = (320 * (r (i + 17 - j) * 256 ^ i)) mod poly_p"
        by (metis mod_mult_left_eq pow17_mod)
      finally show ?thesis by (simp add: mult.assoc)
    qed
    then show ?thesis by (rule mod_sum_cong)
  qed
  then have "((\<Sum>i<j. 320 * r (i + 17 - j) * 256 ^ i) + (\<Sum>k<17 - j. r k * 256 ^ (j + k))) mod poly_p
      = ((\<Sum>i<j. r (i + 17 - j) * 256 ^ (i + 17)) + (\<Sum>k<17 - j. r k * 256 ^ (j + k))) mod poly_p"
    by (rule mod_add_cong) simp
  moreover have "(\<Sum>i<17. (if j \<le> i then r (i - j) else 320 * r (i + 17 - j)) * 256 ^ i)
      = (\<Sum>i<j. 320 * r (i + 17 - j) * 256 ^ i) + (\<Sum>k<17 - j. r k * 256 ^ (j + k))"
    unfolding split [of "\<lambda>i. (if j \<le> i then r (i - j) else 320 * r (i + 17 - j)) * 256 ^ i"] high [symmetric]
    by (intro arg_cong2 [of _ _ _ _ "(+)"] sum.cong) auto
  moreover have "(\<Sum>k<17. r k * 256 ^ (j + k))
      = (\<Sum>i<j. r (i + 17 - j) * 256 ^ (i + 17)) + (\<Sum>k<17 - j. r k * 256 ^ (j + k))"
    unfolding split' [of "\<lambda>k. r k * 256 ^ (j + k)"] low by (rule add.commute)
  ultimately show ?thesis by (simp only:)
qed

lemma sum_pow_shift: "(\<Sum>k<n. r k * 256 ^ (j + k)) = 256 ^ j * (\<Sum>k<n. r k * (256 :: nat) ^ k)"
  by (simp add: sum_distrib_left power_add ac_simps)

lemma sum_rows_mod:
  fixes h T :: "nat \<Rightarrow> nat" and R :: "nat \<Rightarrow> nat \<Rightarrow> nat"
  assumes "\<And>j. j < n \<Longrightarrow> (\<Sum>i<n. R j i) mod p = T j mod p"
  shows "(\<Sum>i<n. \<Sum>j<n. h j * R j i) mod p = (\<Sum>j<n. h j * T j) mod p"
proof -
  have "(\<Sum>i<n. \<Sum>j<n. h j * R j i) = (\<Sum>j<n. h j * (\<Sum>i<n. R j i))"
    by (subst sum.swap) (simp add: sum_distrib_left)
  moreover have "(\<Sum>j<n. h j * (\<Sum>i<n. R j i) mod p) = (\<Sum>j<n. h j * T j mod p)"
    by (rule sum.cong [OF refl], rule mod_mult_cong [OF refl]) (simp add: assms)
  ultimately show ?thesis
    using mod_sum_eq [of "\<lambda>j. h j * (\<Sum>i<n. R j i)" p "{..<n}"] mod_sum_eq [of "\<lambda>j. h j * T j" p "{..<n}"]
    by presburger
qed

lemma conv_val:
  "(\<Sum>i<17. conv h r i * 256 ^ i) mod poly_p = ((\<Sum>j<17. h j * 256 ^ j) * (\<Sum>k<17. r k * 256 ^ k)) mod poly_p"
proof -
  let ?row = "\<lambda>j i. (if j \<le> i then r (i - j) else 320 * r (i + 17 - j)) * 256 ^ i"
  let ?r = "\<Sum>k<17. r k * 256 ^ k"
  have "conv h r i * 256 ^ i = (\<Sum>j<17. h j * ?row j i)" for i
    by (simp only: conv_def sum_distrib_right mult.assoc)
  then have "(\<Sum>i<17. conv h r i * 256 ^ i) mod poly_p = (\<Sum>i<17. \<Sum>j<17. h j * ?row j i) mod poly_p"
    by (simp only:)
  also have "\<dots> = (\<Sum>j<17. h j * (256 ^ j * ?r)) mod poly_p"
  proof (rule sum_rows_mod)
    fix j :: nat
    assume "j < 17"
    from shift_row [OF this, of r] show "(\<Sum>i<17. ?row j i) mod poly_p = (256 ^ j * ?r) mod poly_p"
      by (simp only: sum_pow_shift)
  qed
  also have "(\<Sum>j<17. h j * (256 ^ j * ?r)) = (\<Sum>j<17. h j * 256 ^ j) * ?r"
    by (simp only: sum_distrib_right [symmetric] mult.assoc [symmetric])
  finally show ?thesis .
qed

text \<open>A sum of words that does not overflow.\<close>

lemma unat_foldl_add:
  assumes "\<And>j. j \<in> set js \<Longrightarrow> unat (f j) = g j" "unat a + sum_list (map g js) < 2 ^ 32"
  shows "unat (foldl (\<lambda>acc j. acc + f j :: u32) a js) = unat a + sum_list (map g js)"
  using assms
proof (induction js arbitrary: a)
  case Nil
  then show ?case by simp
next
  case (Cons j js)
  have "unat (a + f j) = unat a + g j" using Cons.prems by (subst unat_add) auto
  with Cons.IH [of "a + f j"] Cons.prems show ?case by simp
qed

definition MUL_BOUND :: nat where "MUL_BOUND = 17 * (255 * (320 * 255))"

lemma mul_limb_val:
  assumes "limbs h" "limbs r" "i < 17"
  shows "unat (mul_limb h r i) = conv (\<lambda>j. unat (h ! j)) (\<lambda>k. unat (r ! k)) i
    \<and> unat (mul_limb h r i) \<le> MUL_BOUND"
proof -
  let ?f = "\<lambda>j. h ! j * (if j \<le> i then r ! (i - j) else 320 * r ! (i + 17 - j))"
  let ?g = "\<lambda>j. unat (h ! j) * (if j \<le> i then unat (r ! (i - j)) else 320 * unat (r ! (i + 17 - j)))"
  have b: "unat (h ! j) \<le> 255" "unat (r ! j) \<le> 255" if "j < 17" for j
    using assms that by (auto simp: limbs_def less_Suc_eq_le [symmetric])
  have fac: "unat (if j \<le> i then r ! (i - j) else 320 * r ! (i + 17 - j))
      = (if j \<le> i then unat (r ! (i - j)) else 320 * unat (r ! (i + 17 - j)))
    \<and> unat (if j \<le> i then r ! (i - j) else 320 * r ! (i + 17 - j)) \<le> 320 * 255" if "j < 17" for j
  proof (cases "j \<le> i")
    case True
    have "unat (r ! (i - j)) \<le> 255" by (rule b(2)) (use assms(3) in simp)
    then have "unat (r ! (i - j)) \<le> 320 * 255" by linarith
    with True show ?thesis by simp
  next
    case False
    then have "unat (r ! (i + 17 - j)) \<le> 255" using b(2) [of "i + 17 - j"] that assms(3) by simp
    moreover have "unat (320 * r ! (i + 17 - j)) = 320 * unat (r ! (i + 17 - j))"
      using calculation by (subst unat_mult) auto
    ultimately show ?thesis using False by simp
  qed
  have g: "unat (?f j) = ?g j" "?g j \<le> 255 * (320 * 255)" if "j < 17" for j
  proof -
    have le: "unat (h ! j) * unat (if j \<le> i then r ! (i - j) else 320 * r ! (i + 17 - j)) \<le> 255 * (320 * 255)"
      using b(1) [OF that] fac [OF that] by (intro mult_le_mono) auto
    then show "unat (?f j) = ?g j" using fac [OF that] by (subst unat_mult) auto
    show "?g j \<le> 255 * (320 * 255)" using le fac [OF that] by simp
  qed
  have "(\<Sum>j<17. ?g j) \<le> (\<Sum>j<(17::nat). 255 * (320 * 255))" by (rule sum_mono) (use g(2) in auto)
  then have bound: "(\<Sum>j<17. ?g j) \<le> MUL_BOUND" by (simp add: MUL_BOUND_def)
  have sum: "sum_list (map ?g [0..<17]) = (\<Sum>j<17. ?g j)"
    by (simp only: interv_sum_list_conv_sum_set_nat lessThan_atLeast0 set_upt)
  have "unat (mul_limb h r i) = (\<Sum>j<17. ?g j)"
    unfolding mul_limb_def using unat_foldl_add [of "[0..<17]" ?f ?g 0] g(1) bound sum
    by (simp add: MUL_BOUND_def)
  then show ?thesis using bound by (simp add: conv_def)
qed

lemma mul_limbs_val:
  assumes "limbs h" "limbs r"
  shows "lval (map (mul_limb h r) [0..<17]) mod poly_p = (lval h * lval r) mod poly_p"
proof -
  have l: "length h = 17" "length r = 17" using assms by (auto simp: limbs_def)
  have "lval (map (mul_limb h r) [0..<17])
      = (\<Sum>i<17. conv (\<lambda>j. unat (h ! j)) (\<lambda>k. unat (r ! k)) i * 256 ^ i)"
    unfolding lval_sum by (rule sum.cong) (use mul_limb_val [OF assms] in auto)
  then show ?thesis by (simp only: conv_val lval_sum l)
qed

section \<open>Reduction\<close>

lemma lval_head_update:
  assumes "ys \<noteq> []" "unat w = unat (ys ! 0) + d"
  shows "lval (ys[0 := w]) = lval ys + d"
  using assms by (cases ys) simp_all

lemma reduce_pass_cases:
  assumes "length x = 17" "\<forall>v \<in> set x. unat v \<le> M" "M < 2 ^ 31"
    and "M + unat (x ! 16) < 2 ^ 32" "5 * ((M + unat (x ! 16)) div 4) + 255 < 2 ^ 32"
  obtains ys c where "length ys = 16" "\<forall>y \<in> set ys. unat y < 256" "unat c \<le> M"
    and "lval ys + 256 ^ 16 * unat c = lval (take 16 x)"
    and "reduce_pass x = (ys[0 := ys ! 0 + 5 * drop_bit 2 (c + x ! 16)]) @ [(c + x ! 16) AND 3]"
    and "unat (c + x ! 16) = unat c + unat (x ! 16)"
    and "unat (ys ! 0 + 5 * drop_bit 2 (c + x ! 16)) = unat (ys ! 0) + 5 * ((unat c + unat (x ! 16)) div 4)"
proof -
  obtain ys c where c: "carry_limbs 0 (take 16 x) = (ys, c)" by fastforce
  have "\<forall>v \<in> set (take 16 x). unat v \<le> M" using assms(2) by (meson in_set_takeD)
  from carry_limbs_val [OF this _ assms(3) c] assms(1)
  have ys: "length ys = 16" "\<forall>y \<in> set ys. unat y < 256" "unat c \<le> M"
    "lval ys + 256 ^ 16 * unat c = lval (take 16 x)" by auto
  let ?t = "c + x ! 16"
  have t: "unat ?t = unat c + unat (x ! 16)" using ys(3) assms(4) by (intro unat_add) linarith
  have le: "5 * (unat ?t div 4) \<le> 5 * ((M + unat (x ! 16)) div 4)"
    unfolding t using ys(3) by (intro mult_le_mono2 div_le_mono) simp
  have five: "unat (5 * drop_bit 2 ?t) = 5 * (unat ?t div 4)"
    using le assms(5) by (subst unat_mult) (simp_all add: unat_shift)
  have "unat (ys ! 0) < 256" using ys(1,2) by simp
  then have w: "unat (ys ! 0 + 5 * drop_bit 2 ?t) = unat (ys ! 0) + 5 * (unat ?t div 4)"
    using le assms(5) by (subst unat_add) (simp_all add: five)
  have "ys \<noteq> []" using ys(1) by auto
  then have "reduce_pass x = (ys[0 := ys ! 0 + 5 * drop_bit 2 ?t]) @ [?t AND 3]"
    using ys(1) by (simp add: reduce_pass_def c Let_def list_update_append nth_append)
  then show ?thesis by (rule that [OF ys _ t]) (use w t in simp)
qed

lemma lval_split16: "length x = 17 \<Longrightarrow> lval x = lval (take 16 x) + 256 ^ 16 * unat (x ! 16)"
proof -
  assume "length x = 17"
  then have "x = take 16 x @ [x ! 16]" by (simp add: take_Suc_conv_app_nth [symmetric])
  then have "lval x = lval (take 16 x @ [x ! 16])" by simp
  then show ?thesis using \<open>length x = 17\<close> by (simp add: lval_append)
qed

lemma poly_p_fold: "a + 256 ^ 16 * t = (a + 5 * (t div 4) + 256 ^ 16 * (t mod 4)) + poly_p * (t div 4)"
proof -
  have "256 ^ 16 * t = 256 ^ 16 * (t mod 4) + (256 ^ 16 * 4) * (t div 4)"
    using mult_div_mod_eq [of 4 t] by (metis add.commute distrib_left mult.assoc)
  also have "256 ^ 16 * 4 = poly_p + 5" by (simp add: poly_p_def)
  finally show ?thesis by (simp only: distrib_right ac_simps)
qed

text \<open>One pass keeps the residue; the second brings the number below \<open>2 ^ 130\<close>.\<close>

lemma reduce_first:
  assumes "length x = 17" "\<forall>v \<in> set x. unat v \<le> MUL_BOUND"
  shows "length (reduce_pass x) = 17 \<and> lval (reduce_pass x) mod poly_p = lval x mod poly_p
    \<and> (\<forall>v \<in> set (reduce_pass x). unat v \<le> 2 ^ 30) \<and> unat (reduce_pass x ! 16) \<le> 3
    \<and> lval (take 16 (reduce_pass x)) < 256 ^ 16 + 2 ^ 31"
proof -
  have x16: "unat (x ! 16) \<le> MUL_BOUND" using assms by simp
  have M: "MUL_BOUND < 2 ^ 31" "MUL_BOUND + unat (x ! 16) < 2 ^ 32"
    "5 * ((MUL_BOUND + unat (x ! 16)) div 4) + 255 < 2 ^ 32" using x16 by (auto simp: MUL_BOUND_def)
  obtain ys c where ys: "length ys = 16" "\<forall>y \<in> set ys. unat y < 256" "unat c \<le> MUL_BOUND"
    and val: "lval ys + 256 ^ 16 * unat c = lval (take 16 x)"
    and eq: "reduce_pass x = (ys[0 := ys ! 0 + 5 * drop_bit 2 (c + x ! 16)]) @ [(c + x ! 16) AND 3]"
    and t: "unat (c + x ! 16) = unat c + unat (x ! 16)"
    and w: "unat (ys ! 0 + 5 * drop_bit 2 (c + x ! 16)) = unat (ys ! 0) + 5 * ((unat c + unat (x ! 16)) div 4)"
    using reduce_pass_cases [OF assms M] by metis
  let ?t = "unat c + unat (x ! 16)"
  have head: "lval (ys[0 := ys ! 0 + 5 * drop_bit 2 (c + x ! 16)]) = lval ys + 5 * (?t div 4)"
    using ys(1) w by (intro lval_head_update) auto
  have small: "5 * (?t div 4) + 255 < 2 ^ 30" using ys(3) x16 by (simp add: MUL_BOUND_def)
  have "lval x = lval (reduce_pass x) + poly_p * (?t div 4)"
  proof -
    have "lval x = lval ys + 256 ^ 16 * ?t"
      using lval_split16 [OF assms(1)] val by (simp add: distrib_left)
    also have "\<dots> = lval (reduce_pass x) + poly_p * (?t div 4)"
      using poly_p_fold [of "lval ys" ?t] head ys(1) by (simp add: eq lval_append unat_and_3 t)
    finally show ?thesis .
  qed
  moreover have "\<forall>v \<in> set (reduce_pass x). unat v \<le> 2 ^ 30"
  proof -
    have w30: "unat (ys ! 0 + 5 * drop_bit 2 (c + x ! 16)) \<le> 2 ^ 30"
      using w small nth_mem [of 0 ys] ys(1,2) by fastforce
    have "\<forall>v \<in> set (ys[0 := ys ! 0 + 5 * drop_bit 2 (c + x ! 16)]). unat v \<le> 2 ^ 30"
      using w30 ys(2) by (auto dest!: subsetD [OF set_update_subset_insert])
    then show ?thesis by (auto simp: eq unat_and_3)
  qed
  moreover have "unat (reduce_pass x ! 16) \<le> 3" using ys(1) by (simp add: eq nth_append unat_and_3)
  moreover have "lval (take 16 (reduce_pass x)) < 256 ^ 16 + 2 ^ 31"
    using head small lval_bound [OF ys(2)] ys(1) by (simp add: eq)
  ultimately show ?thesis using ys(1) by (simp add: eq)
qed

lemma reduce_second:
  assumes "length y = 17" "\<forall>v \<in> set y. unat v \<le> 2 ^ 30" "unat (y ! 16) \<le> 3"
    and "lval (take 16 y) < 256 ^ 16 + 2 ^ 31"
  shows "length (reduce_pass y) = 17 \<and> lval (reduce_pass y) mod poly_p = lval y mod poly_p
    \<and> (\<forall>v \<in> set (reduce_pass y). unat v \<le> 260) \<and> lval (reduce_pass y) < 2 ^ 130"
proof -
  have M: "(2 :: nat) ^ 30 < 2 ^ 31" "2 ^ 30 + unat (y ! 16) < 2 ^ 32"
    "5 * ((2 ^ 30 + unat (y ! 16)) div 4) + 255 < 2 ^ 32" using assms(3) by auto
  obtain ys c where ys: "length ys = 16" "\<forall>v \<in> set ys. unat v < 256"
    and val: "lval ys + 256 ^ 16 * unat c = lval (take 16 y)"
    and eq: "reduce_pass y = (ys[0 := ys ! 0 + 5 * drop_bit 2 (c + y ! 16)]) @ [(c + y ! 16) AND 3]"
    and t: "unat (c + y ! 16) = unat c + unat (y ! 16)"
    and w: "unat (ys ! 0 + 5 * drop_bit 2 (c + y ! 16)) = unat (ys ! 0) + 5 * ((unat c + unat (y ! 16)) div 4)"
    using reduce_pass_cases [OF assms(1,2) M] by metis
  let ?t = "unat c + unat (y ! 16)"
  have c1: "unat c \<le> 1"
  proof (rule ccontr)
    assume "\<not> unat c \<le> 1"
    then have "256 ^ 16 * 2 \<le> 256 ^ 16 * unat c" by (intro mult_le_mono2) simp
    with val assms(4) show False by simp
  qed
  then have t4: "?t \<le> 4" using assms(3) by simp
  have head: "lval (ys[0 := ys ! 0 + 5 * drop_bit 2 (c + y ! 16)]) = lval ys + 5 * (?t div 4)"
    using ys(1) w by (intro lval_head_update) auto
  have res: "lval (reduce_pass y) = lval ys + 5 * (?t div 4) + 256 ^ 16 * (?t mod 4)"
    using head ys(1) by (simp add: eq lval_append unat_and_3 t)
  have "lval y = lval (reduce_pass y) + poly_p * (?t div 4)"
    using lval_split16 [OF assms(1)] val poly_p_fold [of "lval ys" ?t] by (simp add: distrib_left res)
  moreover have "\<forall>v \<in> set (reduce_pass y). unat v \<le> 260"
  proof -
    have "?t div 4 \<le> 1" using t4 by simp
    then have w260: "unat (ys ! 0 + 5 * drop_bit 2 (c + y ! 16)) \<le> 260"
      using w nth_mem [of 0 ys] ys(1,2) by fastforce
    have "\<forall>v \<in> set (ys[0 := ys ! 0 + 5 * drop_bit 2 (c + y ! 16)]). unat v \<le> 260"
      using w260 ys(2) by (auto dest!: subsetD [OF set_update_subset_insert] intro: less_imp_le order_trans)
    then show ?thesis by (auto simp: eq unat_and_3)
  qed
  moreover have "lval (reduce_pass y) < 2 ^ 130"
  proof (cases "?t = 4")
    case True
    then have "unat c = 1" using c1 assms(3) by simp
    then have "lval ys < 2 ^ 31" using val assms(4) by simp
    then show ?thesis using True by (simp add: res)
  next
    case False
    then have t3: "?t \<le> 3" using t4 by simp
    then have "256 ^ 16 * ?t \<le> 256 ^ 16 * 3" by (rule mult_le_mono2)
    moreover have "lval ys < 256 ^ 16" using lval_bound [OF ys(2)] ys(1) by simp
    ultimately show ?thesis using t3 by (simp add: res)
  qed
  ultimately show ?thesis using ys(1) by (simp add: eq)
qed

lemma mul_mod_val:
  assumes "limbs h" "limbs r"
  shows "limbs (mul_mod h r) \<and> lval (mul_mod h r) < 2 ^ 130
    \<and> lval (mul_mod h r) mod poly_p = (lval h * lval r) mod poly_p"
proof -
  let ?x = "map (mul_limb h r) [0..<17]"
  have x: "length ?x = 17" "\<forall>v \<in> set ?x. unat v \<le> MUL_BOUND"
    using mul_limb_val [OF assms, THEN conjunct2] by auto
  note first = reduce_first [OF x]
  note second = reduce_second [of "reduce_pass ?x"]
  let ?z = "reduce_pass (reduce_pass ?x)"
  have z: "length ?z = 17" "lval ?z mod poly_p = lval ?x mod poly_p" "\<forall>v \<in> set ?z. unat v \<le> 260" "lval ?z < 2 ^ 130"
    using first second by auto
  have "lval ?z mod 256 ^ 17 = lval ?z" using z(4) by simp
  then show ?thesis
    using carry_limbs_mod [OF z(3)] z mul_limbs_val [OF assms] by (simp add: mul_mod_def limbs_def)
qed

section \<open>The message loop\<close>

lemma unat_ucast_byte [simp]: "unat (ucast (b :: byte) :: u32) = unat b"
proof -
  have "unat b < 2 ^ 8" using unsigned_less [of b] by simp
  then show ?thesis by (simp add: unsigned_ucast_eq take_bit_eq_mod)
qed

lemma lval_ucast: "lval (map ucast (bs :: bytes)) = le_nat bs"
  by (induction bs) simp_all

lemma ucast_byte_lt: "x \<in> set (map ucast (bs :: bytes) :: u32 list) \<Longrightarrow> unat x < 256"
  using unsigned_less [where ?'b = 8 and ?'a = nat] by auto

lemma block_limbs_val:
  assumes "length b \<le> 16"
  shows "limbs (block_limbs b) \<and> lval (block_limbs b) = le_nat b + 256 ^ length b"
  using assms ucast_byte_lt [of _ b]
  by (auto simp: block_limbs_def limbs_def lval_append lval_ucast)

lemma pow_le_16: "n \<le> 16 \<Longrightarrow> (256 :: nat) ^ n \<le> 256 ^ 16"
  by (rule power_increasing) simp_all

lemma poly_step:
  assumes "limbs r" "limbs h" "lval h < 2 ^ 130" "length b \<le> 16"
  shows "limbs (mul_mod (limb_add h (block_limbs b)) r) \<and> lval (mul_mod (limb_add h (block_limbs b)) r) < 2 ^ 130
    \<and> lval (mul_mod (limb_add h (block_limbs b)) r) mod poly_p
      = ((lval h mod poly_p + le_nat b + 256 ^ length b) * lval r) mod poly_p"
proof -
  note blk = block_limbs_val [OF assms(4)]
  have "le_nat b < 256 ^ 16" using le_nat_lt [of b] pow_le_16 [OF assms(4)] by linarith
  then have "lval h + lval (block_limbs b) < 256 ^ 17"
    using blk assms(3) pow_le_16 [OF assms(4)] by simp
  then have add: "limbs (limb_add h (block_limbs b))"
      "lval (limb_add h (block_limbs b)) = lval h + (le_nat b + 256 ^ length b)"
    using limb_add_val [OF assms(2) conjunct1 [OF blk]] blk by auto
  have "((lval h + (le_nat b + 256 ^ length b)) * lval r) mod poly_p
      = ((lval h mod poly_p + le_nat b + 256 ^ length b) * lval r) mod poly_p"
    by (rule mod_mult_cong) (simp_all add: mod_simps add.assoc)
  then show ?thesis using mul_mod_val [OF add(1) assms(1)] add(2) by simp
qed

lemma poly_loop_val:
  assumes "limbs r" "limbs h" "lval h < 2 ^ 130"
  shows "limbs (poly_loop r h m) \<and> lval (poly_loop r h m) < 2 ^ 130
    \<and> lval (poly_loop r h m) mod poly_p = poly_eval (lval r) (lval h mod poly_p) m"
  using assms
proof (induction r h m rule: poly_loop.induct)
  case (1 r h m)
  show ?case
  proof (cases "m = []")
    case True
    then show ?thesis using 1 by (simp add: poly_loop.simps poly_eval.simps)
  next
    case False
    let ?h = "mul_mod (limb_add h (block_limbs (take 16 m))) r"
    have "length (take 16 m) \<le> 16" by simp
    note st = poly_step [OF "1.prems" this]
    from "1.IH" [OF False] st "1.prems"
    have "limbs (poly_loop r ?h (drop 16 m)) \<and> lval (poly_loop r ?h (drop 16 m)) < 2 ^ 130
      \<and> lval (poly_loop r ?h (drop 16 m)) mod poly_p = poly_eval (lval r) (lval ?h mod poly_p) (drop 16 m)"
      by blast
    then show ?thesis using False st
      by (subst poly_loop.simps, subst poly_loop.simps, subst poly_loop.simps, subst poly_eval.simps) simp
  qed
qed

section \<open>Clamping\<close>

lemma and_nat_digit:
  assumes "a < 256" "b < 256"
  shows "(a + 256 * x) AND (b + 256 * y) = (a AND b) + 256 * (x AND y :: nat)"
proof -
  have "a AND b = take_bit 8 (a AND b)" using assms by (simp add: take_bit_and take_bit_nat_eq_self)
  then have ab: "a AND b < 256" using take_bit_nat_less_exp [of 8 "a AND b"] by simp
  have t: "take_bit 8 ((a + 256 * x) AND (b + 256 * y)) = take_bit 8 ((a AND b) + 256 * (x AND y))"
    using assms ab by (simp add: take_bit_and) (simp add: take_bit_eq_mod)
  have d: "drop_bit 8 ((a + 256 * x) AND (b + 256 * y)) = drop_bit 8 ((a AND b) + 256 * (x AND y))"
    using assms ab by (simp add: drop_bit_and) (simp add: drop_bit_eq_div)
  show ?thesis using t d by (metis bits_ident)
qed

lemma le_nat_map2_and: "length xs = length ys \<Longrightarrow> le_nat (map2 (AND) xs ys) = le_nat xs AND le_nat ys"
proof (induction xs ys rule: list_induct2)
  case Nil
  then show ?case by simp
next
  case (Cons x xs y ys)
  have "unat x < 256" "unat y < 256" using unsigned_less [of x] unsigned_less [of y] by simp_all
  then show ?case using Cons by (simp add: unsigned_and_eq and_nat_digit)
qed

definition clamp_bytes :: bytes where
  "clamp_bytes = [255, 255, 255, 15, 252, 255, 255, 15, 252, 255, 255, 15, 252, 255, 255, 15]"

lemma and_255_byte: "(x :: byte) AND 255 = x"
proof -
  have "(255 :: byte) = - 1" by simp
  then show ?thesis by (simp only: and.right_neutral)
qed

lemma ucast_and_byte: "(ucast (x AND y :: byte) :: u32) = ucast x AND ucast y"
  by (simp add: unsigned_and_eq)

lemma clamp_val:
  assumes "length k = 16"
  shows "limbs (clamp (map ucast k @ [0])) \<and> lval (clamp (map ucast k @ [0])) = le_nat k AND clamp_mask"
proof -
  obtain a0 a1 a2 a3 a4 a5 a6 a7 a8 a9 a10 a11 a12 a13 a14 a15
    where k: "k = [a0, a1, a2, a3, a4, a5, a6, a7, a8, a9, a10, a11, a12, a13, a14, a15]"
    using assms by (auto simp: eval_nat_numeral length_Suc_conv)
  have c: "clamp (map ucast k @ [0]) = map ucast (map2 (AND) k clamp_bytes) @ [0]"
    by (simp add: k clamp_def clamp_bytes_def ucast_and_byte and_255_byte)
  have m: "le_nat clamp_bytes = clamp_mask" by (simp add: clamp_bytes_def clamp_mask_def)
  have l: "length k = length clamp_bytes" using assms by (simp add: clamp_bytes_def)
  have "lval (clamp (map ucast k @ [0])) = le_nat k AND clamp_mask"
    using le_nat_map2_and [OF l] unfolding c lval_append lval_ucast m by simp
  moreover have "limbs (clamp (map ucast k @ [0]))"
    unfolding c limbs_def using l assms ucast_byte_lt [of _ "map2 (AND) k clamp_bytes"] by auto
  ultimately show ?thesis by simp
qed

section \<open>The final reduction and the tag\<close>

lemma lval_MINUS_P: "limbs MINUS_P \<and> lval MINUS_P = 2 ^ 136 - poly_p"
  by (simp add: MINUS_P_def limbs_def poly_p_def)

lemma limbs_top: "limbs h \<Longrightarrow> lval h = lval (take 16 h) + 256 ^ 16 * unat (h ! 16) \<and> lval (take 16 h) < 256 ^ 16
    \<and> unat (h ! 16) < 256"
  using lval_split16 [of h] lval_bound [of "take 16 h"] by (auto simp: limbs_def dest: in_set_takeD)

lemma select_all: "length h = length g \<Longrightarrow> map2 (\<lambda>x y. x XOR ((- 1 :: u32) AND (y XOR x))) h g = g"
  by (induction h g rule: list_induct2) (auto intro!: bit_eqI simp: bit_xor_iff)

lemma select_none: "length h = length g \<Longrightarrow> map2 (\<lambda>x y. x XOR ((0 :: u32) AND (y XOR x))) h g = h"
  by (induction h g rule: list_induct2) simp_all

lemma freeze_val:
  assumes "limbs g" "lval g < 2 ^ 130"
  shows "limbs (freeze g) \<and> lval (freeze g) = lval g mod poly_p"
proof -
  define h where "h = limb_add g MINUS_P"
  have h: "limbs h" "lval h = (lval g + (2 ^ 136 - poly_p)) mod 256 ^ 17"
    using limb_add_val [OF assms(1), of MINUS_P] lval_MINUS_P by (auto simp: h_def)
  have len: "length h = length g" using h(1) assms(1) by (simp add: limbs_def)
  note top = limbs_top [OF h(1)]
  have bit7: "unat (drop_bit 7 (h ! 16)) = unat (h ! 16) div 128" by (simp add: unat_shift)
  have fz: "freeze g = map2 (\<lambda>x y. x XOR (- drop_bit 7 (h ! 16) AND (y XOR x))) h g"
    by (simp add: freeze_def h_def Let_def)
  show ?thesis
  proof (cases "lval g < poly_p")
    case True
    then have "lval h = lval g + (2 ^ 136 - poly_p)" using h(2) by (simp add: poly_p_def)
    then have "unat (h ! 16) \<ge> 252" using top by (simp add: poly_p_def)
    then have "unat (drop_bit 7 (h ! 16)) = 1" using top bit7 by linarith
    then have "drop_bit 7 (h ! 16) = 1" by (metis unsigned_1 unsigned_word_eqI)
    then show ?thesis using True assms(1) select_all [OF len] by (simp add: fz)
  next
    case False
    then have g: "lval g mod poly_p = lval g - poly_p" using assms(2) by (simp add: poly_p_def mod_if)
    have "lval g + (2 ^ 136 - poly_p) = (lval g - poly_p) + 256 ^ 17" using False by (simp add: poly_p_def)
    then have "lval h = (lval g - poly_p) mod 256 ^ 17" using h(2) by (simp only: mod_add_self2)
    then have lh: "lval h = lval g - poly_p" using assms(2) by (simp only: mod_less) simp
    then have "lval h < 5" using assms(2) by (simp add: poly_p_def)
    then have "unat (h ! 16) = 0" using top by simp
    then have "unat (drop_bit 7 (h ! 16)) = 0" using bit7 by simp
    then have "drop_bit 7 (h ! 16) = 0" by (metis unsigned_0 unsigned_word_eqI)
    then show ?thesis using h(1) select_none [OF len] lh g by (simp add: fz)
  qed
qed

lemma limbs_to_bytes:
  "\<forall>x \<in> set l. unat x < 256 \<Longrightarrow> n \<le> length l \<Longrightarrow> map ucast (take n l) = le_bytes n (lval l)"
proof (induction l arbitrary: n)
  case Nil
  then show ?case by (simp add: le_bytes.simps(1))
next
  case (Cons x l)
  show ?case
  proof (cases n)
    case (Suc m)
    have d: "(unat x + 256 * lval l) div 256 = lval l" using Cons.prems by simp
    have "(word_of_nat (unat x + 256 * lval l) :: byte) = ucast x"
      by (rule unsigned_word_eqI [where ?'a = nat])
        (use Cons.prems in \<open>simp only: unat_byte_of_nat unsigned_ucast_eq take_bit_eq_mod\<close>, simp)
    then show ?thesis using Cons.IH [of m] Cons.prems
      by (simp only: Suc le_bytes.simps take_Suc_Cons list.map lval.simps d) simp
  qed (simp add: le_bytes.simps(1))
qed

lemma le_bytes_mod: "le_bytes n (k mod 256 ^ n) = le_bytes n k"
  by (metis le_bytes_le_nat le_nat_le_bytes length_le_bytes)

lemma foldl_or_zero: "foldl (OR) (a :: byte) xs = 0 \<longleftrightarrow> a = 0 \<and> (\<forall>x \<in> set xs. x = 0)"
proof -
  have or0: "x OR y = 0 \<longleftrightarrow> x = 0 \<and> y = 0" for x y :: byte by (auto simp: bit_eq_iff bit_or_iff)
  show ?thesis by (induction xs arbitrary: a) (auto simp: or0)
qed

lemma tags_equal_iff: "length a = length b \<Longrightarrow> tags_equal a b \<longleftrightarrow> a = b"
proof -
  have xor0: "x XOR y = 0 \<longleftrightarrow> x = y" for x y :: byte by (auto simp: bit_eq_iff bit_xor_iff)
  assume "length a = length b"
  then show ?thesis unfolding tags_equal_def foldl_or_zero
    by (induction a b rule: list_induct2) (auto simp: xor0)
qed

lemma rfc_poly1305_eq: "length key = 32 \<Longrightarrow> poly1305 msg key = rfc_poly1305 msg key"
proof -
  assume key: "length key = 32"
  define r where "r = clamp (map ucast (take 16 key) @ [0])"
  define s where "s = (map ucast (take 16 (drop 16 key)) @ [0 :: u32])"
  define h where "h = poly_loop r (replicate 17 0) msg"
  have r: "limbs r" "lval r = le_nat (take 16 key) AND clamp_mask"
    using clamp_val [of "take 16 key"] key by (auto simp: r_def)
  have h: "limbs h" "lval h < 2 ^ 130" "lval h mod poly_p = poly_eval (lval r) 0 msg"
    using poly_loop_val [OF r(1), of "replicate 17 0" msg] by (auto simp: h_def limbs_def)
  have s: "limbs s" "lval s = le_nat (take 16 (drop 16 key))"
    using key ucast_byte_lt [of _ "take 16 (drop 16 key)"] by (auto simp: s_def limbs_def lval_append lval_ucast)
  note fz = freeze_val [OF h(1,2)]
  have sum: "lval (freeze h) + lval s < 256 ^ 17"
    using fz h(3) le_nat_take_lt [of 16 "drop 16 key"] mod_less_divisor [of poly_p "lval h"]
    by (simp add: s(2) poly_p_def)
  have add: "limbs (limb_add (freeze h) s)" "lval (limb_add (freeze h) s) = lval (freeze h) + lval s"
    using limb_add_val [OF conjunct1 [OF fz] s(1)] sum by auto
  have "poly1305 msg key = map ucast (take 16 (limb_add (freeze h) s))"
    by (simp add: poly1305_def Let_def r_def h_def s_def)
  also have "\<dots> = le_bytes 16 (lval (freeze h) + lval s)"
    using limbs_to_bytes [of "limb_add (freeze h) s" 16] add by (simp add: limbs_def)
  also have "\<dots> = rfc_poly1305 msg key"
    using fz h(3) by (simp add: rfc_poly1305_def r(2) s(2))
  finally show ?thesis .
qed

section \<open>The checks never fire\<close>

lemma those_Some: "(\<And>x. x \<in> set xs \<Longrightarrow> f x = Some (g x)) \<Longrightarrow> those (map f xs) = Some (map g xs)"
  by (induction xs) simp_all

lemma carry_limbs_ck_eq:
  "\<forall>x \<in> set xs. unat x \<le> M \<Longrightarrow> unat c \<le> M \<Longrightarrow> M < 2 ^ 31 \<Longrightarrow>
    carry_limbs_ck c xs = Some (carry_limbs c xs)"
proof (induction xs arbitrary: c)
  case (Cons x xs)
  then have lt: "unat c + unat x < 2 ^ 32" by auto
  then have "unat (drop_bit 8 (c + x)) \<le> M"
    using Cons.prems by (auto simp: unat_shift unat_add)
  with Cons lt show ?case by (simp add: add32_def Let_def split_beta)
qed simp

lemma limb_add_ck_eq:
  assumes "limbs h" "limbs c"
  shows "limb_add_ck h c = Some (limb_add h c)"
proof -
  have "add32 x y = Some (x + y)" if "(x, y) \<in> set (zip h c)" for x y
  proof -
    have "unat x < 256" "unat y < 256"
      using assms set_zip_leftD [OF that] set_zip_rightD [OF that] by (auto simp: limbs_def)
    then show ?thesis by (simp add: add32_def)
  qed
  then have th: "those (map2 add32 h c) = Some (map2 (+) h c)"
    by (intro those_Some) auto
  have "\<forall>x \<in> set (map2 (+) h c). unat x \<le> 510"
    using lval_map2_add [of h c] assms by (simp add: limbs_def)
  from carry_limbs_ck_eq [OF this] show ?thesis by (simp add: limb_add_ck_def limb_add_def th)
qed

lemma foldl_add_ck:
  assumes "\<And>j. j \<in> set js \<Longrightarrow> t j = Some (f j)" "unat a + sum_list (map (\<lambda>j. unat (f j)) js) < 2 ^ 32"
  shows "foldl (\<lambda>acc j. Option.bind acc (\<lambda>s. Option.bind (t j) (add32 s))) (Some a) js
    = Some (foldl (\<lambda>acc j. acc + f j) a js)"
  using assms
proof (induction js arbitrary: a)
  case (Cons j js)
  have lt: "unat a + unat (f j) < 2 ^ 32" using Cons.prems(2) by simp
  then have "unat (a + f j) = unat a + unat (f j)" by (rule unat_add)
  with Cons.IH [of "a + f j"] Cons.prems lt show ?case by (simp add: add32_def)
qed simp

lemma mul_term_ck_eq:
  assumes "limbs h" "limbs r" "i < 17" "j < 17"
  shows "mul_term_ck h r i j = Some (h ! j * (if j \<le> i then r ! (i - j) else 320 * r ! (i + 17 - j)))
    \<and> unat (h ! j * (if j \<le> i then r ! (i - j) else 320 * r ! (i + 17 - j))) \<le> 255 * (320 * 255)"
proof -
  have b: "unat (h ! j) \<le> 255" "unat (r ! k) \<le> 255" if "k < 17" for k
    using assms that by (auto simp: limbs_def less_Suc_eq_le [symmetric])
  define f where "f = (if j \<le> i then r ! (i - j) else 320 * r ! (i + 17 - j))"
  have f: "(if j \<le> i then Some (r ! (i - j)) else mul32 320 (r ! (i + 17 - j))) = Some f"
    and fb: "unat f \<le> 320 * 255"
  proof -
    have "unat (r ! (i + 17 - j)) \<le> 255" if "\<not> j \<le> i"
      using b(2) [of "i + 17 - j"] that assms(3,4) by simp
    moreover have "unat (r ! (i - j)) \<le> 255" using b(2) [of "i - j"] assms(3) by simp
    ultimately show "(if j \<le> i then Some (r ! (i - j)) else mul32 320 (r ! (i + 17 - j))) = Some f"
      "unat f \<le> 320 * 255" by (cases "j \<le> i"; simp add: f_def mul32_def unat_mult)+
  qed
  have le: "unat (h ! j) * unat f \<le> 255 * (320 * 255)"
    using b(1) [of 0] fb by (intro mult_le_mono) auto
  then have "mul32 (h ! j) f = Some (h ! j * f)" "unat (h ! j * f) \<le> 255 * (320 * 255)"
    by (auto simp: mul32_def unat_mult)
  then show ?thesis by (simp only: mul_term_ck_def f bind.bind_lunit f_def [symmetric])
qed

lemma mul_limb_ck_eq:
  assumes "limbs h" "limbs r" "i < 17"
  shows "mul_limb_ck h r i = Some (mul_limb h r i)"
proof -
  let ?f = "\<lambda>j. h ! j * (if j \<le> i then r ! (i - j) else 320 * r ! (i + 17 - j))"
  note tm = mul_term_ck_eq [OF assms]
  have "sum_list (map (\<lambda>j. unat (?f j)) [0..<17]) \<le> sum_list (map (\<lambda>j. 255 * (320 * 255)) [0..<17])"
    by (rule sum_list_mono) (use tm in auto)
  then have "sum_list (map (\<lambda>j. unat (?f j)) [0..<17]) < 2 ^ 32"
    by (simp add: sum_list_triv)
  then show ?thesis
    unfolding mul_limb_ck_def mul_limb_def using tm by (intro foldl_add_ck) auto
qed

lemma reduce_pass_ck_eq:
  assumes "length x = 17" "\<forall>v \<in> set x. unat v \<le> M" "M < 2 ^ 31"
    and "M + unat (x ! 16) < 2 ^ 32" "5 * ((M + unat (x ! 16)) div 4) + 255 < 2 ^ 32"
  shows "reduce_pass_ck x = Some (reduce_pass x)"
proof -
  obtain ys c where c: "carry_limbs 0 (take 16 x) = (ys, c)" by fastforce
  have tk: "\<forall>v \<in> set (take 16 x). unat v \<le> M" using assms(2) by (meson in_set_takeD)
  from carry_limbs_val [OF tk _ assms(3) c] assms(1)
  have ys: "length ys = 16" "\<forall>y \<in> set ys. unat y < 256" "unat c \<le> M" by auto
  have ck: "carry_limbs_ck 0 (take 16 x) = Some (ys, c)"
    using carry_limbs_ck_eq [OF tk _ assms(3), of 0] by (simp add: c)
  let ?t = "c + x ! 16"
  have lt: "unat c + unat (x ! 16) < 2 ^ 32" using ys(3) assms(4) by linarith
  then have t: "unat ?t = unat c + unat (x ! 16)" by (rule unat_add)
  have "5 * (unat ?t div 4) \<le> 5 * ((M + unat (x ! 16)) div 4)"
    unfolding t using ys(3) by (intro mult_le_mono2 div_le_mono) simp
  then have le: "5 * (unat ?t div 4) + 255 < 2 ^ 32" using assms(5) by linarith
  then have five: "unat (5 * drop_bit 2 ?t) = 5 * (unat ?t div 4)"
    by (subst unat_mult) (simp_all add: unat_shift)
  have m: "mul32 5 (drop_bit 2 ?t) = Some (5 * drop_bit 2 ?t)"
    using le by (simp add: mul32_def unat_shift)
  have y0: "unat (ys ! 0) < 256" "ys \<noteq> []" using ys(1,2) by auto
  have "add32 (ys ! 0) (5 * drop_bit 2 ?t) = Some (ys ! 0 + 5 * drop_bit 2 ?t)"
    using y0 le by (simp add: add32_def five)
  moreover have "(ys @ [?t AND 3]) ! 0 = ys ! 0" using y0 by (simp add: nth_append)
  ultimately show ?thesis
    using lt by (simp add: reduce_pass_ck_def reduce_pass_def c ck add32_def [of c] m Let_def)
qed

lemma mul_mod_ck_eq:
  assumes "limbs h" "limbs r"
  shows "mul_mod_ck h r = Some (mul_mod h r)"
proof -
  let ?x = "map (mul_limb h r) [0..<17]"
  have those: "those (map (mul_limb_ck h r) [0..<17]) = Some ?x"
    using mul_limb_ck_eq [OF assms] by (intro those_Some) simp
  have x: "length ?x = 17" "\<forall>v \<in> set ?x. unat v \<le> MUL_BOUND"
    using mul_limb_val [OF assms, THEN conjunct2] by auto
  have "unat (?x ! 16) \<le> MUL_BOUND" using x(2) by simp
  then have M: "MUL_BOUND < 2 ^ 31" "MUL_BOUND + unat (?x ! 16) < 2 ^ 32"
    "5 * ((MUL_BOUND + unat (?x ! 16)) div 4) + 255 < 2 ^ 32" by (auto simp: MUL_BOUND_def)
  note p1 = reduce_pass_ck_eq [OF x M]
  let ?y = "reduce_pass ?x"
  note first = reduce_first [OF x]
  have y: "length ?y = 17" "\<forall>v \<in> set ?y. unat v \<le> 2 ^ 30" "unat (?y ! 16) \<le> 3" using first by auto
  have p2: "reduce_pass_ck ?y = Some (reduce_pass ?y)"
    by (rule reduce_pass_ck_eq [OF y(1,2)]) (use y(3) in auto)
  let ?z = "reduce_pass ?y"
  have z: "length ?z = 17" "\<forall>v \<in> set ?z. unat v \<le> 260" "lval ?z < 2 ^ 130"
    using first reduce_second [of ?y] by auto
  obtain out c where c: "carry_limbs 0 ?z = (out, c)" by fastforce
  have ck: "carry_limbs_ck 0 ?z = Some (out, c)"
    using carry_limbs_ck_eq [OF z(2), of 0] by (simp add: c)
  have "256 ^ 17 * unat c \<le> lval ?z"
    using carry_limbs_val [OF z(2) _ _ c] z(1) by simp
  then have "unat c = 0" using z(3) by (cases "unat c") auto
  then have "c = 0" by (metis unsigned_0 unsigned_word_eqI)
  then show ?thesis by (simp add: mul_mod_ck_def mul_mod_def those p1 p2 ck c)
qed

lemma poly_loop_ck_eq:
  "limbs r \<Longrightarrow> limbs h \<Longrightarrow> lval h < 2 ^ 130 \<Longrightarrow> poly_loop_ck r h m = Some (poly_loop r h m)"
proof (induction r h m rule: poly_loop.induct)
  case (1 r h m)
  show ?case
  proof (cases "m = []")
    case True
    then show ?thesis by (simp add: poly_loop.simps poly_loop_ck.simps)
  next
    case False
    let ?b = "block_limbs (take 16 m)"
    have b: "limbs ?b" using block_limbs_val [of "take 16 m"] by simp
    have st: "Option.bind (limb_add_ck h ?b) (\<lambda>s. mul_mod_ck s r) = Some (mul_mod (limb_add h ?b) r)"
      using mul_mod_ck_eq [OF conjunct1 [OF limb_add_val [OF "1.prems"(2) b]] "1.prems"(1)]
      by (simp add: limb_add_ck_eq [OF "1.prems"(2) b])
    have "length (take 16 m) \<le> 16" by simp
    note inv = poly_step [OF "1.prems" this]
    have "poly_loop_ck r (mul_mod (limb_add h ?b) r) (drop 16 m)
        = Some (poly_loop r (mul_mod (limb_add h ?b) r) (drop 16 m))"
      using "1.IH" [OF False "1.prems"(1)] inv by blast
    then show ?thesis
      using False st by (subst poly_loop_ck.simps, subst poly_loop.simps) simp
  qed
qed

lemma poly1305_ck_eq:
  assumes "length key = 32"
  shows "poly1305_ck msg key = Some (poly1305 msg key)"
proof -
  define r where "r = clamp (map ucast (take 16 key) @ [0])"
  define s where "s = (map ucast (take 16 (drop 16 key)) @ [0 :: u32])"
  have r: "limbs r" using clamp_val [of "take 16 key"] assms by (auto simp: r_def)
  have s: "limbs s"
    using assms ucast_byte_lt [of _ "take 16 (drop 16 key)"] by (auto simp: s_def limbs_def)
  have z: "limbs (replicate 17 0)" "lval (replicate 17 0) < 2 ^ 130" by (auto simp: limbs_def)
  define h where "h = poly_loop r (replicate 17 0) msg"
  have h: "limbs h" "lval h < 2 ^ 130" using poly_loop_val [OF r z, of msg] by (auto simp: h_def)
  have loop: "poly_loop_ck r (replicate 17 0) msg = Some h"
    using poly_loop_ck_eq [OF r z] by (simp add: h_def)
  have fz: "freeze_ck h = Some (freeze h)"
    using limb_add_ck_eq [OF h(1), of MINUS_P] lval_MINUS_P by (simp add: freeze_ck_def freeze_def Let_def)
  have ad: "limb_add_ck (freeze h) s = Some (limb_add (freeze h) s)"
    by (rule limb_add_ck_eq [OF _ s]) (use freeze_val [OF h] in simp)
  show ?thesis
    unfolding poly1305_ck_def poly1305_def Let_def
    by (simp only: r_def [symmetric] s_def [symmetric] loop h_def [symmetric] fz ad bind.bind_lunit)
qed

text \<open>
  C15: for every message and every 32-byte key the seventeen-limb code, with its carries, its
  wrap-around by 320 and its constant-time final subtraction, computes the tag of RFC 8439: the clamped
  \<open>r\<close>-polynomial of the message blocks modulo \<open>2 ^ 130 - 5\<close>, plus \<open>s\<close>, modulo \<open>2 ^ 128\<close>. The
  debug build computes it too: no addition or multiplication overflows 32 bits and the
  \<open>debug_assert_eq!\<close> on the last carry holds, so no check fires. The constant-time comparison accepts
  exactly equal tags.
\<close>

theorem poly1305_correct:
  assumes "length key = 32"
  shows "poly1305 msg key = rfc_poly1305 msg key
    \<and> poly1305_ck msg key = Some (rfc_poly1305 msg key)
    \<and> (\<forall>t. length t = 16 \<longrightarrow> tags_equal (poly1305 msg key) t = (t = rfc_poly1305 msg key))"
  using rfc_poly1305_eq [OF assms, of msg] poly1305_ck_eq [OF assms, of msg]
  by (auto simp: tags_equal_iff rfc_poly1305_def)

theorem poly1305_correct_witness:
  "poly1305 [1, 2, 3] (replicate 32 7) = rfc_poly1305 [1, 2, 3] (replicate 32 7)
    \<and> poly1305_ck [1, 2, 3] (replicate 32 7) = Some (rfc_poly1305 [1, 2, 3] (replicate 32 7))
    \<and> tags_equal (poly1305 [1, 2, 3] (replicate 32 7)) (replicate 16 0)
      = (replicate 16 0 = rfc_poly1305 [1, 2, 3] (replicate 32 7))"
  using poly1305_correct [of "replicate 32 7" "[1, 2, 3]"] by (metis length_replicate)

end
