(* ===== verification/Aead.thy ===== *)
theory Aead
  imports Poly1305
begin

text \<open>
  The ChaCha20 stream cipher of \<open>crates/ciphra-crypto/src/chacha20.rs\<close> and the ChaCha20-Poly1305 AEAD
  of \<open>aead.rs\<close>. An array argument of the code is a byte list of that length.
\<close>

section \<open>ChaCha20\<close>

definition BLOCK_LEN :: nat where "BLOCK_LEN = 64"

definition chacha_SIGMA :: "u32 list" where
  "chacha_SIGMA = [0x61707865, 0x3320646e, 0x79622d32, 0x6b206574]"

definition quarter_round :: "nat \<Rightarrow> nat \<Rightarrow> nat \<Rightarrow> nat \<Rightarrow> u32 list \<Rightarrow> u32 list" where
  "quarter_round a b c d s0 =
    (let s1 = s0[a := s0 ! a + s0 ! b];
         s2 = s1[d := word_rotl 16 (s1 ! d XOR s1 ! a)];
         s3 = s2[c := s2 ! c + s2 ! d];
         s4 = s3[b := word_rotl 12 (s3 ! b XOR s3 ! c)];
         s5 = s4[a := s4 ! a + s4 ! b];
         s6 = s5[d := word_rotl 8 (s5 ! d XOR s5 ! a)];
         s7 = s6[c := s6 ! c + s6 ! d]
     in s7[b := word_rotl 7 (s7 ! b XOR s7 ! c)])"

definition load_le_words :: "nat \<Rightarrow> bytes \<Rightarrow> u32 list" where
  "load_le_words n bs = map (\<lambda>i. word_of_nat (le_nat (take 4 (drop (4 * i) bs)))) [0..<n]"

definition chacha_state :: "bytes \<Rightarrow> u32 \<Rightarrow> bytes \<Rightarrow> u32 list" where
  "chacha_state key counter nonce = chacha_SIGMA @ load_le_words 8 key @ [counter] @ load_le_words 3 nonce"

definition double_round :: "u32 list \<Rightarrow> u32 list" where
  "double_round w =
    (quarter_round 3 4 9 14 (quarter_round 2 7 8 13 (quarter_round 1 6 11 12 (quarter_round 0 5 10 15
      (quarter_round 3 7 11 15 (quarter_round 2 6 10 14 (quarter_round 1 5 9 13 (quarter_round 0 4 8 12 w))))))))"

definition block :: "bytes \<Rightarrow> u32 \<Rightarrow> bytes \<Rightarrow> bytes" where
  "block key counter nonce =
    (let state = chacha_state key counter nonce;
         working = (double_round ^^ 10) state
     in concat (map (\<lambda>i. le_bytes 4 (unat (working ! i + state ! i))) [0..<16]))"

text \<open>The chunks of \<open>data\<close>, numbered from \<open>i\<close>, each XORed with its own block.\<close>

function xor_chunks :: "bytes \<Rightarrow> bytes \<Rightarrow> u32 \<Rightarrow> nat \<Rightarrow> bytes \<Rightarrow> bytes" where
  "xor_chunks key nonce counter i data =
    (if data = [] then []
     else
       map2 (XOR) (take BLOCK_LEN data) (block key (counter + word_of_nat i) nonce)
       @ xor_chunks key nonce counter (i + 1) (drop BLOCK_LEN data))"
  by pat_completeness auto

termination
  by (relation "measure (\<lambda>(key, nonce, counter, i, data). length data)") (auto simp: BLOCK_LEN_def)

declare xor_chunks.simps [simp del]

definition xor_stream :: "bytes \<Rightarrow> bytes \<Rightarrow> u32 \<Rightarrow> bytes \<Rightarrow> bytes" where
  "xor_stream key nonce counter data = xor_chunks key nonce counter 0 data"

section \<open>The AEAD\<close>

definition next_multiple_of :: "nat \<Rightarrow> nat \<Rightarrow> nat" where
  "next_multiple_of n m = (if n mod m = 0 then n else n + (m - n mod m))"

definition pad16 :: "bytes \<Rightarrow> bytes" where
  "pad16 v = v @ replicate (next_multiple_of (length v) 16 - length v) 0"

definition mac_data :: "bytes \<Rightarrow> bytes \<Rightarrow> bytes" where
  "mac_data ciphertext aad =
    pad16 (pad16 aad @ ciphertext) @ le_bytes 8 (length aad) @ le_bytes 8 (length ciphertext)"

definition compute_tag :: "bytes \<Rightarrow> bytes \<Rightarrow> bytes \<Rightarrow> bytes \<Rightarrow> bytes" where
  "compute_tag key nonce ciphertext aad =
    (let otk = take 32 (block key 0 nonce) in poly1305 (mac_data ciphertext aad) otk)"

definition aead_seal :: "bytes \<Rightarrow> bytes \<Rightarrow> bytes \<Rightarrow> bytes \<Rightarrow> bytes" where
  "aead_seal key nonce plaintext aad =
    (let out = xor_stream key nonce 1 plaintext in out @ compute_tag key nonce out aad)"

definition aead_open :: "bytes \<Rightarrow> bytes \<Rightarrow> bytes \<Rightarrow> bytes \<Rightarrow> bytes option" where
  "aead_open key nonce sealed aad =
    (if length sealed < TAG_LEN then None
     else
       let ciphertext = take (length sealed - TAG_LEN) sealed;
           expected = drop (length sealed - TAG_LEN) sealed;
           actual = compute_tag key nonce ciphertext aad
       in if \<not> tags_equal actual expected then None else Some (xor_stream key nonce 1 ciphertext))"

section \<open>The keystream\<close>

lemma length_quarter_round [simp]: "length (quarter_round a b c d s) = length s"
  by (simp add: quarter_round_def Let_def)

lemma length_double_round [simp]: "length (double_round s) = length s"
  by (simp add: double_round_def)

lemma length_chacha_state [simp]: "length (chacha_state key c nonce) = 16"
  by (simp add: chacha_state_def chacha_SIGMA_def load_le_words_def)

lemma length_block [simp]: "length (block key c nonce) = BLOCK_LEN"
  by (simp add: block_def Let_def length_concat BLOCK_LEN_def comp_def sum_list_replicate map_replicate_const
      del: upt_rec_numeral)

text \<open>The byte at position \<open>i\<close> of the keystream that starts at block \<open>counter\<close>.\<close>

definition keystream :: "bytes \<Rightarrow> bytes \<Rightarrow> u32 \<Rightarrow> nat \<Rightarrow> byte" where
  "keystream key nonce counter i = block key (counter + word_of_nat (i div 64)) nonce ! (i mod 64)"

lemma xor_chunks_nth:
  "length (xor_chunks key nonce c i data) = length data
    \<and> (\<forall>j < length data. xor_chunks key nonce c i data ! j = data ! j XOR keystream key nonce c (64 * i + j))"
proof (induction key nonce c i data rule: xor_chunks.induct)
  case (1 key nonce c i data)
  show ?case
  proof (cases "data = []")
    case False
    note IH = "1.IH" [OF False]
    have eq: "xor_chunks key nonce c i data
        = map2 (XOR) (take 64 data) (block key (c + word_of_nat i) nonce) @ xor_chunks key nonce c (i + 1) (drop 64 data)"
      using False by (simp add: xor_chunks.simps [of key nonce c i data] BLOCK_LEN_def)
    have len: "length (xor_chunks key nonce c i data) = length data"
      using IH by (simp add: eq BLOCK_LEN_def)
    have "xor_chunks key nonce c i data ! j = data ! j XOR keystream key nonce c (64 * i + j)"
      if "j < length data" for j
    proof (cases "j < 64")
      case True
      then have "(64 * i + j) div 64 = i" "(64 * i + j) mod 64 = j" by simp_all
      with True that show ?thesis by (simp add: eq nth_append BLOCK_LEN_def keystream_def)
    next
      case False
      then obtain k where k: "j = 64 + k" using le_Suc_ex not_less by blast
      have "keystream key nonce c (64 * (i + 1) + k) = keystream key nonce c (64 * i + j)"
        by (simp add: k algebra_simps)
      with IH that show ?thesis by (simp add: eq nth_append BLOCK_LEN_def k)
    qed
    with len show ?thesis by blast
  qed (simp add: xor_chunks.simps)
qed

lemma length_xor_stream [simp]: "length (xor_stream key nonce c data) = length data"
  using xor_chunks_nth by (simp add: xor_stream_def)

lemma xor_stream_nth:
  "j < length data \<Longrightarrow> xor_stream key nonce c data ! j = data ! j XOR keystream key nonce c j"
  using xor_chunks_nth [of key nonce c 0 data] by (simp add: xor_stream_def)

lemma xor_stream_involution [simp]: "xor_stream key nonce c (xor_stream key nonce c data) = data"
  by (rule nth_equalityI) (simp_all add: xor_stream_nth xor.assoc)

section \<open>Sealing and opening\<close>

lemma otk_length: "length (take 32 (block key 0 nonce)) = 32"
  by (simp add: BLOCK_LEN_def)

lemma compute_tag_rfc:
  "compute_tag key nonce ct aad = rfc_poly1305 (mac_data ct aad) (take 32 (block key 0 nonce))"
  using rfc_poly1305_eq [OF otk_length] by (simp add: compute_tag_def)

lemma length_compute_tag [simp]: "length (compute_tag key nonce ct aad) = TAG_LEN"
  by (simp add: compute_tag_rfc rfc_poly1305_def TAG_LEN_def)

lemma aead_open_iff: "aead_open key nonce sealed aad = Some p \<longleftrightarrow> sealed = aead_seal key nonce p aad"
proof
  assume "aead_open key nonce sealed aad = Some p"
  then have len: "TAG_LEN \<le> length sealed"
    and tag: "tags_equal (compute_tag key nonce (take (length sealed - TAG_LEN) sealed) aad)
      (drop (length sealed - TAG_LEN) sealed)"
    and p: "p = xor_stream key nonce 1 (take (length sealed - TAG_LEN) sealed)"
    by (auto simp: aead_open_def Let_def split: if_splits)
  from tag len have "compute_tag key nonce (take (length sealed - TAG_LEN) sealed) aad
      = drop (length sealed - TAG_LEN) sealed"
    by (subst (asm) tags_equal_iff) auto
  then show "sealed = aead_seal key nonce p aad" by (simp add: aead_seal_def p)
next
  assume "sealed = aead_seal key nonce p aad"
  then show "aead_open key nonce sealed aad = Some p"
    by (simp add: aead_open_def aead_seal_def Let_def tags_equal_iff)
qed

text \<open>
  C16: under RFC 8439 the ciphertext is the plaintext XORed with the ChaCha20 keystream that starts at
  block 1, followed by the Poly1305 tag of the padded associated data, ciphertext and lengths under
  the key of block 0; and \<open>open\<close> returns a plaintext exactly when the input is, bit for bit, what
  \<open>seal\<close> makes of that plaintext under the same key, nonce and associated data. In particular every
  sealed message opens, and nothing else does.
\<close>

theorem aead_open_exact:
  "aead_seal key nonce p aad = xor_stream key nonce 1 p
      @ rfc_poly1305 (mac_data (xor_stream key nonce 1 p) aad) (take 32 (block key 0 nonce))
    \<and> map (\<lambda>j. xor_stream key nonce 1 p ! j) [0..<length p] = map (\<lambda>j. p ! j XOR keystream key nonce 1 j) [0..<length p]
    \<and> (aead_open key nonce sealed aad = Some p \<longleftrightarrow> sealed = aead_seal key nonce p aad)"
proof (intro conjI)
  show "aead_seal key nonce p aad = xor_stream key nonce 1 p
      @ rfc_poly1305 (mac_data (xor_stream key nonce 1 p) aad) (take 32 (block key 0 nonce))"
    by (simp add: aead_seal_def compute_tag_rfc Let_def)
qed (simp_all add: aead_open_iff xor_stream_nth)

section \<open>The authenticated data\<close>

lemma length_pad16: "length (pad16 v) = next_multiple_of (length v) 16"
  by (simp add: pad16_def next_multiple_of_def)

text \<open>
  The bytes the tag is computed over determine the associated data and the ciphertext (both below
  \<open>2 ^ 64\<close> bytes): moving bytes between the two, or padding either, changes what is authenticated.
\<close>

lemma mac_data_inj:
  assumes "length aad < 2 ^ 64" "length aad' < 2 ^ 64" "length ct < 2 ^ 64" "length ct' < 2 ^ 64"
    and "mac_data ct aad = mac_data ct' aad'"
  shows "ct = ct' \<and> aad = aad'"
proof -
  have suffix: "le_bytes 8 (length aad) @ le_bytes 8 (length ct) = le_bytes 8 (length aad') @ le_bytes 8 (length ct')"
    and prefix: "pad16 (pad16 aad @ ct) = pad16 (pad16 aad' @ ct')"
    using assms(5) by (simp_all add: mac_data_def append_eq_append_conv)
  from suffix have "le_bytes 8 (length aad) = le_bytes 8 (length aad')" "le_bytes 8 (length ct) = le_bytes 8 (length ct')"
    by simp_all
  then have len: "length aad = length aad'" "length ct = length ct'"
    using assms(1-4) by (auto dest!: le_bytes_inj)
  from prefix have "pad16 aad @ ct = pad16 aad' @ ct'"
    by (simp add: pad16_def [of "pad16 aad @ ct"] pad16_def [of "pad16 aad' @ ct'"] length_pad16 len)
  then show ?thesis using len by (simp add: length_pad16) (simp add: pad16_def)
qed

end
