(* ===== verification/Sha256.thy ===== *)
theory Sha256
  imports Prelude
begin

text \<open>
  SHA-256 of \<open>crates/ciphra-crypto/src/sha256.rs\<close>: the streaming hasher with its 64-byte buffer, and
  its equivalence with the one-shot definition of FIPS 180-4 (pad the message, fold the compression
  function over its blocks). HMAC, HKDF and PBKDF2 of \<open>hmac.rs\<close> follow in \<open>Hmac\<close>.
\<close>

section \<open>The hasher\<close>

text \<open>The table \<open>K\<close>, by the rows of the source.\<close>

definition sha_K :: "u32 list" where
  "sha_K = concat [
    [0x428a2f98, 0x71374491, 0xb5c0fbcf, 0xe9b5dba5, 0x3956c25b, 0x59f111f1, 0x923f82a4, 0xab1c5ed5],
    [0xd807aa98, 0x12835b01, 0x243185be, 0x550c7dc3, 0x72be5d74, 0x80deb1fe, 0x9bdc06a7, 0xc19bf174],
    [0xe49b69c1, 0xefbe4786, 0x0fc19dc6, 0x240ca1cc, 0x2de92c6f, 0x4a7484aa, 0x5cb0a9dc, 0x76f988da],
    [0x983e5152, 0xa831c66d, 0xb00327c8, 0xbf597fc7, 0xc6e00bf3, 0xd5a79147, 0x06ca6351, 0x14292967],
    [0x27b70a85, 0x2e1b2138, 0x4d2c6dfc, 0x53380d13, 0x650a7354, 0x766a0abb, 0x81c2c92e, 0x92722c85],
    [0xa2bfe8a1, 0xa81a664b, 0xc24b8b70, 0xc76c51a3, 0xd192e819, 0xd6990624, 0xf40e3585, 0x106aa070],
    [0x19a4c116, 0x1e376c08, 0x2748774c, 0x34b0bcb5, 0x391c0cb3, 0x4ed8aa4a, 0x5b9cca4f, 0x682e6ff3],
    [0x748f82ee, 0x78a5636f, 0x84c87814, 0x8cc70208, 0x90befffa, 0xa4506ceb, 0xbef9a3f7, 0xc67178f2]]"

definition sha_H0 :: "u32 list" where
  "sha_H0 = [0x6a09e667, 0xbb67ae85, 0x3c6ef372, 0xa54ff53a, 0x510e527f, 0x9b05688c, 0x1f83d9ab, 0x5be0cd19]"

record sha256_state =
  sh_state :: "u32 list"
  sh_buffer :: bytes
  sh_buffered :: nat
  sh_total_len :: u64

definition sha256_new :: sha256_state where
  "sha256_new = \<lparr>sh_state = sha_H0, sh_buffer = replicate 64 0, sh_buffered = 0, sh_total_len = 0\<rparr>"

definition load_be_words :: "bytes \<Rightarrow> u32 list" where
  "load_be_words block = map (\<lambda>i. word_of_nat (be_nat (take 4 (drop (4 * i) block)))) [0..<16]"

definition schedule_word :: "u32 list \<Rightarrow> nat \<Rightarrow> u32" where
  "schedule_word w i =
    (let s0 = word_rotr 7 (w ! (i - 15)) XOR word_rotr 18 (w ! (i - 15)) XOR drop_bit 3 (w ! (i - 15));
         s1 = word_rotr 17 (w ! (i - 2)) XOR word_rotr 19 (w ! (i - 2)) XOR drop_bit 10 (w ! (i - 2))
     in w ! (i - 16) + s0 + w ! (i - 7) + s1)"

definition message_schedule :: "bytes \<Rightarrow> u32 list" where
  "message_schedule block = foldl (\<lambda>w i. w @ [schedule_word w i]) (load_be_words block) [16..<64]"

type_synonym working = "u32 \<times> u32 \<times> u32 \<times> u32 \<times> u32 \<times> u32 \<times> u32 \<times> u32"

definition sha_round :: "u32 list \<Rightarrow> working \<Rightarrow> nat \<Rightarrow> working" where
  "sha_round w v i =
    (case v of (a, b, c, d, e, f, g, h) \<Rightarrow>
      let s1 = word_rotr 6 e XOR word_rotr 11 e XOR word_rotr 25 e;
          ch = (e AND f) XOR (NOT e AND g);
          temp1 = h + s1 + ch + sha_K ! i + w ! i;
          s0 = word_rotr 2 a XOR word_rotr 13 a XOR word_rotr 22 a;
          maj = (a AND b) XOR (a AND c) XOR (b AND c);
          temp2 = s0 + maj
      in (temp1 + temp2, a, b, c, d + temp1, e, f, g))"

definition compress :: "u32 list \<Rightarrow> bytes \<Rightarrow> u32 list" where
  "compress st block =
    (let w = message_schedule block in
     case foldl (sha_round w) (st ! 0, st ! 1, st ! 2, st ! 3, st ! 4, st ! 5, st ! 6, st ! 7) [0..<64] of
       (a, b, c, d, e, f, g, h) \<Rightarrow>
         map2 (+) st [a, b, c, d, e, f, g, h])"

text \<open>\<open>dst[i..i + src.len()].copy_from_slice(src)\<close>\<close>

definition copy_at :: "'a list \<Rightarrow> nat \<Rightarrow> 'a list \<Rightarrow> 'a list" where
  "copy_at dst i src = take i dst @ src @ drop (i + length src) dst"

function absorb_blocks :: "u32 list \<Rightarrow> bytes \<Rightarrow> u32 list \<times> bytes" where
  "absorb_blocks st data =
    (if 64 \<le> length data then absorb_blocks (compress st (take 64 data)) (drop 64 data) else (st, data))"
  by pat_completeness auto

termination by (relation "measure (\<lambda>(st, data). length data)") auto

declare absorb_blocks.simps [simp del]

definition sha256_update :: "sha256_state \<Rightarrow> bytes \<Rightarrow> sha256_state" where
  "sha256_update s data =
    (let s1 = s\<lparr>sh_total_len := sh_total_len s + word_of_nat (length data)\<rparr>;
         (s2, data2) =
           (if 0 < sh_buffered s1 then
              let n = min (length data) (64 - sh_buffered s1);
                  t = s1\<lparr>sh_buffer := copy_at (sh_buffer s1) (sh_buffered s1) (take n data),
                         sh_buffered := sh_buffered s1 + n\<rparr>;
                  t' = (if sh_buffered t = 64
                        then t\<lparr>sh_state := compress (sh_state t) (sh_buffer t), sh_buffered := 0\<rparr> else t)
              in (t', drop n data)
            else (s1, data));
         (st3, data3) = absorb_blocks (sh_state s2) data2;
         s3 = s2\<lparr>sh_state := st3\<rparr>
     in if data3 \<noteq> []
        then s3\<lparr>sh_buffer := copy_at (sh_buffer s3) 0 data3, sh_buffered := length data3\<rparr>
        else s3)"

text \<open>The zero-padding loop; the buffer is never full between steps.\<close>

function pad_zeros :: "sha256_state \<Rightarrow> sha256_state" where
  "pad_zeros s =
    (if sh_buffered s = 56 \<or> 64 \<le> sh_buffered s then s
     else
       let t = s\<lparr>sh_buffer := (sh_buffer s)[sh_buffered s := 0], sh_buffered := sh_buffered s + 1\<rparr> in
       pad_zeros (if sh_buffered t = 64
                  then t\<lparr>sh_state := compress (sh_state t) (sh_buffer t), sh_buffered := 0\<rparr> else t))"
  by pat_completeness auto

termination
  by (relation "measure (\<lambda>s. if sh_buffered s \<le> 56 then 56 - sh_buffered s else 120 - sh_buffered s)")
    (auto simp: Let_def)

declare pad_zeros.simps [simp del]

definition sha256_finalize :: "sha256_state \<Rightarrow> bytes" where
  "sha256_finalize s =
    (let bit_len = sh_total_len s * 8;
         s1 = pad_zeros (sha256_update s [0x80]);
         st = compress (sh_state s1) (copy_at (sh_buffer s1) 56 (be_bytes 8 (unat bit_len)))
     in concat (map (\<lambda>w. be_bytes 4 (unat w)) st))"

definition sha256 :: "bytes \<Rightarrow> bytes" where
  "sha256 data = sha256_finalize (sha256_update sha256_new data)"

section \<open>The one-shot definition\<close>

fun chunks :: "nat \<Rightarrow> 'a list \<Rightarrow> nat \<Rightarrow> 'a list list" where
  "chunks n xs 0 = []"
| "chunks n xs (Suc k) = take n xs # chunks n (drop n xs) k"

definition fips_pad :: "bytes \<Rightarrow> bytes" where
  "fips_pad m = m @ [0x80] @ replicate ((119 - length m mod 64) mod 64) 0
     @ be_bytes 8 (unat (word_of_nat (length m) * 8 :: u64))"

definition fips_sha256 :: "bytes \<Rightarrow> bytes" where
  "fips_sha256 m = concat (map (\<lambda>w. be_bytes 4 (unat w))
     (foldl compress sha_H0 (chunks 64 (fips_pad m) (length (fips_pad m) div 64))))"

section \<open>Correctness of the buffering\<close>

lemma length_copy_at [simp]: "i + length src \<le> length dst \<Longrightarrow> length (copy_at dst i src) = length dst"
  by (simp add: copy_at_def)

lemma take_copy_at: "i + length src \<le> length dst \<Longrightarrow> take (i + length src) (copy_at dst i src) = take i dst @ src"
  by (simp add: copy_at_def)

definition full_blocks :: "bytes \<Rightarrow> u32 list" where
  "full_blocks m = foldl compress sha_H0 (chunks 64 m (length m div 64))"

definition remainder :: "bytes \<Rightarrow> bytes" where
  "remainder m = drop (64 * (length m div 64)) m"

lemma length_remainder [simp]: "length (remainder m) = length m mod 64"
  by (simp add: remainder_def minus_mult_div_eq_mod)

lemma chunks_append:
  "n * k \<le> length xs \<Longrightarrow> chunks n (xs @ ys) (k + j) = chunks n xs k @ chunks n (drop (n * k) xs @ ys) j"
proof (induction k arbitrary: xs)
  case 0
  then show ?case by simp
next
  case (Suc k)
  then have "n * k \<le> length (drop n xs)" "n \<le> length xs" by auto
  with Suc.IH [of "drop n xs"] show ?case by (simp add: add.commute)
qed

lemma full_blocks_append:
  "full_blocks (m @ d) = foldl compress (full_blocks m) (chunks 64 (remainder m @ d) ((length m mod 64 + length d) div 64))"
proof -
  have "length (m @ d) div 64 = length m div 64 + (length m mod 64 + length d) div 64"
    by (metis add.assoc div_mult_mod_eq div_mult_self3 length_append mult.commute zero_neq_numeral)
  then show ?thesis
    using chunks_append [of 64 "length m div 64" m d] by (simp add: full_blocks_def remainder_def)
qed

lemma absorb_blocks_chunks:
  "absorb_blocks st d = (foldl compress st (chunks 64 d (length d div 64)), remainder d)"
proof (induction st d rule: absorb_blocks.induct)
  case (1 st d)
  show ?case
  proof (cases "64 \<le> length d")
    case True
    then have "length d div 64 = Suc ((length d - 64) div 64)" by (simp add: le_div_geq)
    with 1 [OF True] True show ?thesis
      by (simp add: absorb_blocks.simps [of st d] remainder_def add.commute)
  next
    case False
    then show ?thesis by (simp add: absorb_blocks.simps [of st d] remainder_def)
  qed
qed

text \<open>The hasher has absorbed the message \<open>m\<close>.\<close>

definition absorbed :: "sha256_state \<Rightarrow> bytes \<Rightarrow> bool" where
  "absorbed s m \<longleftrightarrow> sh_state s = full_blocks m \<and> length (sh_buffer s) = 64
    \<and> sh_buffered s = length m mod 64 \<and> take (sh_buffered s) (sh_buffer s) = remainder m
    \<and> sh_total_len s = word_of_nat (length m)"

lemma absorbed_new: "absorbed sha256_new []"
  by (simp add: absorbed_def sha256_new_def full_blocks_def remainder_def)

lemma remainder_aligned: "length pre = 64 * k \<Longrightarrow> remainder (pre @ x) = remainder x"
  by (simp add: remainder_def add.commute)

lemma remainder_append: "remainder (m @ d) = remainder (remainder m @ d)"
proof -
  let ?k = "length m div 64"
  have "m @ d = take (64 * ?k) m @ (remainder m @ d)" by (simp add: remainder_def)
  moreover have "length (take (64 * ?k) m) = 64 * ?k" by simp
  ultimately show ?thesis using remainder_aligned by metis
qed

lemma remainder_short: "length d < 64 \<Longrightarrow> remainder d = d"
  by (simp add: remainder_def)

lemma remainder_empty [simp]: "length m mod 64 = 0 \<Longrightarrow> remainder m = []"
  by (metis length_remainder length_0_conv)

text \<open>The second half of \<open>update\<close>, on an empty buffer.\<close>

lemma absorb_aligned:
  assumes "sh_state s = full_blocks m" "length m mod 64 = 0" "length (sh_buffer s) = 64" "sh_buffered s = 0"
    and "absorb_blocks (sh_state s) d = (st3, d3)"
    and "s' = (if d3 \<noteq> [] then s\<lparr>sh_state := st3, sh_buffer := copy_at (sh_buffer s) 0 d3, sh_buffered := length d3\<rparr>
               else s\<lparr>sh_state := st3\<rparr>)"
    and "sh_total_len s = word_of_nat (length (m @ d))"
  shows "absorbed s' (m @ d)"
proof -
  have d3: "d3 = remainder d" "st3 = full_blocks (m @ d)"
    using assms(1,2,5) by (simp_all add: absorb_blocks_chunks full_blocks_append)
  have r: "remainder (m @ d) = remainder d"
    using remainder_append [of m d] assms(2) by simp
  have "length (m @ d) mod 64 = length d mod 64" using assms(2) by (simp add: mod_add_eq [symmetric])
  moreover have "length (remainder d) \<le> 64" by (simp add: less_imp_le)
  moreover have "take (length (remainder d)) (copy_at (sh_buffer s) 0 (remainder d)) = remainder d"
    using take_copy_at [of 0 "remainder d" "sh_buffer s"] assms(3) \<open>length (remainder d) \<le> 64\<close> by simp
  ultimately show ?thesis
    using assms(3,4,7) by (auto simp: absorbed_def assms(6) d3 r simp del: length_append)
      (metis length_0_conv length_remainder)+
qed

lemma absorbed_update:
  assumes "absorbed s m"
  shows "absorbed (sha256_update s d) (m @ d)"
proof -
  let ?b = "length m mod 64"
  have s: "sh_state s = full_blocks m" "length (sh_buffer s) = 64" "sh_buffered s = ?b"
    "take ?b (sh_buffer s) = remainder m" "sh_total_len s = word_of_nat (length m)"
    using assms by (auto simp: absorbed_def)
  let ?s1 = "s\<lparr>sh_total_len := sh_total_len s + word_of_nat (length d)\<rparr>"
  have tot: "sh_total_len s + word_of_nat (length d) = word_of_nat (length (m @ d))" by (simp add: s)
  consider (aligned) "?b = 0" | (short) "0 < ?b" "?b + length d < 64" | (fill) "0 < ?b" "64 \<le> ?b + length d"
    by linarith
  then show ?thesis
  proof cases
    case aligned
    obtain st3 d3 where a: "absorb_blocks (full_blocks m) d = (st3, d3)" by fastforce
    show ?thesis
      by (rule absorb_aligned [of ?s1 m d st3 d3])
        (use aligned s a tot in \<open>simp_all add: sha256_update_def Let_def\<close>)
  next
    case short
    let ?buf = "copy_at (sh_buffer s) ?b d"
    have "sha256_update s d = ?s1\<lparr>sh_buffer := ?buf, sh_buffered := ?b + length d\<rparr>"
      using short by (simp add: sha256_update_def Let_def s absorb_blocks.simps min_absorb1)
    moreover have "full_blocks (m @ d) = full_blocks m"
      using short(2) by (simp add: full_blocks_append)
    moreover have "remainder (m @ d) = remainder m @ d"
      using short(2) by (simp add: remainder_append [of m d] remainder_short)
    moreover have "length (m @ d) mod 64 = ?b + length d"
      using short(2) by (metis length_append mod_add_left_eq mod_less)
    moreover have "take (?b + length d) ?buf = remainder m @ d"
      using short(2) s by (simp add: take_copy_at)
    ultimately show ?thesis using short(2) s tot by (simp add: absorbed_def)
  next
    case fill
    let ?n = "64 - ?b"
    let ?buf = "copy_at (sh_buffer s) ?b (take ?n d)"
    let ?m = "m @ take ?n d"
    have b: "?b < 64" by simp
    have n: "min (length d) ?n = ?n" "length (take ?n d) = ?n" "?b + ?n = 64" using fill b by auto
    have buf: "?buf = remainder m @ take ?n d"
      using take_copy_at [of ?b "take ?n d" "sh_buffer s"] s n by simp
    have len: "length ?m mod 64 = 0" using n
      by (metis length_append mod_add_left_eq mod_self)
    have state: "compress (full_blocks m) ?buf = full_blocks ?m"
      using n by (simp add: full_blocks_append buf)
    define s2 where "s2 = ?s1\<lparr>sh_buffer := ?buf, sh_buffered := 0, sh_state := full_blocks ?m\<rparr>"
    have s2: "sh_state s2 = full_blocks ?m" "length (sh_buffer s2) = 64" "sh_buffered s2 = 0"
      "sh_total_len s2 = word_of_nat (length (?m @ drop ?n d))" "sh_buffer s2 = ?buf"
      using s(2) n tot by (simp_all add: s2_def)
    obtain st3 d3 where a: "absorb_blocks (full_blocks ?m) (drop ?n d) = (st3, d3)" by fastforce
    have upd: "sha256_update s d = (if d3 \<noteq> []
        then s2\<lparr>sh_state := st3, sh_buffer := copy_at (sh_buffer s2) 0 d3, sh_buffered := length d3\<rparr> else s2\<lparr>sh_state := st3\<rparr>)"
      using fill(1) n a state by (simp add: sha256_update_def Let_def s s2_def)
    from absorb_aligned [OF s2(1) len s2(2,3) _ upd s2(4)] a s2(1)
    show ?thesis by (simp only: append_assoc append_take_drop_id)
  qed
qed

section \<open>Correctness of the padding\<close>

definition holds_msg :: "sha256_state \<Rightarrow> bytes \<Rightarrow> bool" where
  "holds_msg s m \<longleftrightarrow> sh_state s = full_blocks m \<and> length (sh_buffer s) = 64
    \<and> sh_buffered s = length m mod 64 \<and> take (sh_buffered s) (sh_buffer s) = remainder m"

lemma holds_msg_fill:
  assumes "holds_msg s m" "length m mod 64 + length d = 64"
  shows "compress (sh_state s) (copy_at (sh_buffer s) (length m mod 64) d) = full_blocks (m @ d)"
proof -
  have s: "length (sh_buffer s) = 64" "take (length m mod 64) (sh_buffer s) = remainder m"
    "sh_state s = full_blocks m"
    using assms(1) unfolding holds_msg_def by metis+
  have "copy_at (sh_buffer s) (length m mod 64) d = remainder m @ d"
    using take_copy_at [of "length m mod 64" d "sh_buffer s"] s(1,2) assms(2) by simp
  with assms(2) s(3) show ?thesis by (simp add: full_blocks_append)
qed

text \<open>One step of the padding loop appends a byte.\<close>

lemma holds_msg_push:
  assumes "holds_msg s m"
    and "t = s\<lparr>sh_buffer := (sh_buffer s)[sh_buffered s := x], sh_buffered := sh_buffered s + 1\<rparr>"
    and "t' = (if sh_buffered t = 64 then t\<lparr>sh_state := compress (sh_state t) (sh_buffer t), sh_buffered := 0\<rparr> else t)"
  shows "holds_msg t' (m @ [x])"
proof -
  define b where "b = length m mod 64"
  have b: "b < 64" by (simp add: b_def)
  have s: "sh_state s = full_blocks m" "length (sh_buffer s) = 64" "sh_buffered s = b"
    "take b (sh_buffer s) = remainder m" using assms(1) unfolding holds_msg_def b_def by metis+
  have cp: "(sh_buffer s)[b := x] = copy_at (sh_buffer s) b [x]"
    using s(2) b by (simp add: copy_at_def upd_conv_take_nth_drop)
  show ?thesis
  proof (cases "b = 63")
    case True
    then have len: "length (m @ [x]) mod 64 = 0" by (simp add: b_def mod_Suc)
    have "compress (sh_state s) (copy_at (sh_buffer s) b [x]) = full_blocks (m @ [x])"
      using holds_msg_fill [OF assms(1), of "[x]"] True by (simp add: b_def)
    moreover have "t' = t\<lparr>sh_state := compress (sh_state s) (copy_at (sh_buffer s) b [x]), sh_buffered := 0\<rparr>"
      using True s(3) cp by (simp add: assms(2,3))
    ultimately show ?thesis
      using len s(2) remainder_empty [OF len] by (simp add: holds_msg_def assms(2) del: length_append)
  next
    case False
    then have len: "length (m @ [x]) mod 64 = Suc b" using b by (simp add: b_def mod_Suc)
    have "take (Suc b) ((sh_buffer s)[b := x]) = remainder m @ [x]"
      using take_copy_at [of b "[x]" "sh_buffer s"] s b by (simp add: cp)
    moreover have "remainder (m @ [x]) = remainder m @ [x]"
      using False b by (simp add: remainder_append [of m] remainder_short b_def)
    moreover have "full_blocks (m @ [x]) = full_blocks m"
      using False b by (simp add: full_blocks_append b_def)
    moreover have "t' = t" using False b s(3) by (simp add: assms(2,3))
    ultimately show ?thesis
      using len s by (simp add: holds_msg_def assms(2) del: length_append)
  qed
qed

definition pad_count :: "bytes \<Rightarrow> nat" where
  "pad_count m = (if length m mod 64 \<le> 56 then 56 - length m mod 64 else 120 - length m mod 64)"

lemma pad_zeros_appends:
  "holds_msg s m \<Longrightarrow>
    holds_msg (pad_zeros s) (m @ replicate (pad_count m) 0) \<and> length (m @ replicate (pad_count m) 0) mod 64 = 56"
proof (induction s arbitrary: m rule: pad_zeros.induct)
  case (1 s)
  have b: "sh_buffered s = length m mod 64" "length m mod 64 < 64"
    using "1.prems" by (auto simp: holds_msg_def)
  show ?case
  proof (cases "length m mod 64 = 56")
    case True
    with "1.prems" b show ?thesis by (simp add: pad_zeros.simps [of s] pad_count_def)
  next
    case False
    define t where "t = s\<lparr>sh_buffer := (sh_buffer s)[sh_buffered s := 0], sh_buffered := sh_buffered s + 1\<rparr>"
    define t' where "t' = (if sh_buffered t = 64
      then t\<lparr>sh_state := compress (sh_state t) (sh_buffer t), sh_buffered := 0\<rparr> else t)"
    have rec: "pad_zeros s = pad_zeros t'"
      using False b by (simp add: pad_zeros.simps [of s] Let_def t_def t'_def)
    have step: "holds_msg t' (m @ [0])" by (rule holds_msg_push [OF "1.prems" t_def t'_def])
    have "pad_count m = Suc (pad_count (m @ [0]))"
      using False b(2) by (auto simp: pad_count_def mod_Suc)
    moreover have "holds_msg (pad_zeros t') ((m @ [0]) @ replicate (pad_count (m @ [0])) 0)
        \<and> length ((m @ [0]) @ replicate (pad_count (m @ [0])) 0) mod 64 = 56"
      using "1.IH" [OF _ t_def, of "m @ [0]"] step False b unfolding t'_def by simp
    ultimately show ?thesis unfolding rec by simp
  qed
qed

lemma finalize_absorbed:
  assumes "absorbed s m"
  shows "sha256_finalize s = fips_sha256 m"
proof -
  let ?m1 = "m @ [0x80]" and ?len = "be_bytes 8 (unat (sh_total_len s * 8))"
  let ?m2 = "?m1 @ replicate (pad_count ?m1) 0" and ?s1 = "pad_zeros (sha256_update s [0x80])"
  have tot: "sh_total_len s = word_of_nat (length m)" using assms by (simp add: absorbed_def)
  have "holds_msg (sha256_update s [0x80]) ?m1"
    using absorbed_update [OF assms, of "[0x80]"] unfolding absorbed_def holds_msg_def by blast
  then have m2: "holds_msg ?s1 ?m2" "length ?m2 mod 64 = 56" using pad_zeros_appends by blast+
  have pad: "fips_pad m = ?m2 @ ?len"
  proof -
    have "length m mod 64 < 64" by simp
    then have "pad_count ?m1 = (119 - length m mod 64) mod 64"
      by (auto simp: pad_count_def mod_Suc le_mod_geq)
    then show ?thesis by (simp add: fips_pad_def tot)
  qed
  have "compress (sh_state ?s1) (copy_at (sh_buffer ?s1) 56 ?len) = full_blocks (fips_pad m)"
    using holds_msg_fill [OF m2(1), of ?len] m2(2) pad by (simp del: length_append)
  then show ?thesis by (simp add: sha256_finalize_def Let_def fips_sha256_def full_blocks_def)
qed

lemma sha256_fips: "sha256 m = fips_sha256 m"
  using finalize_absorbed [OF absorbed_update [OF absorbed_new, of m]] by (simp add: sha256_def)

lemma absorbed_updates: "absorbed s m \<Longrightarrow> absorbed (foldl sha256_update s ds) (m @ concat ds)"
proof (induction ds arbitrary: s m)
  case Nil
  then show ?case by simp
next
  case (Cons d ds)
  from Cons.IH [OF absorbed_update [OF Cons.prems, of d]] show ?case by simp
qed

lemma sha256_stream: "sha256_finalize (foldl sha256_update sha256_new ds) = sha256 (concat ds)"
  using finalize_absorbed [OF absorbed_updates [OF absorbed_new, of ds]] by (simp add: sha256_fips)

lemma length_compress: "length st = 8 \<Longrightarrow> length (compress st b) = 8"
  by (simp add: compress_def Let_def split: prod.splits)

lemma length_foldl_compress: "length st = 8 \<Longrightarrow> length (foldl compress st bs) = 8"
  by (induction bs arbitrary: st) (simp_all add: length_compress)

lemma length_sha256 [simp]: "length (sha256 m) = 32"
proof -
  have "length (concat (map (\<lambda>w. be_bytes 4 (unat w)) ws)) = 4 * length ws" for ws :: "u32 list"
    by (induction ws) simp_all
  then show ?thesis
    by (simp add: sha256_fips fips_sha256_def length_foldl_compress sha_H0_def)
qed

section \<open>Properties of the hasher\<close>

text \<open>C31: the streaming hasher computes SHA-256. However a message is cut into \<open>update\<close> calls, the
  digest is the one-shot FIPS 180-4 hash of the whole message: the message padded with \<open>0x80\<close>,
  zeros and its bit length to a multiple of 64 bytes, and the compression function folded over its
  blocks; it has 32 bytes.\<close>

theorem sha256_streaming_correct:
  "sha256_finalize (foldl sha256_update sha256_new parts) = fips_sha256 (concat parts)
    \<and> length (fips_pad m) mod 64 = 0 \<and> length (sha256 m) = 32"
proof (intro conjI)
  show "sha256_finalize (foldl sha256_update sha256_new parts) = fips_sha256 (concat parts)"
    by (simp add: sha256_stream sha256_fips)
  define q b where "q = length m div 64" and "b = length m mod 64"
  have m: "length m = 64 * q + b" and b: "b < 64" by (simp_all add: q_def b_def)
  have "(119 - b) mod 64 = (if b \<le> 55 then 55 - b else 119 - b)" using b by (auto simp: le_mod_geq)
  then have "length (fips_pad m) = 64 * (if b \<le> 55 then q + 1 else q + 2)"
    using m b by (simp add: fips_pad_def flip: b_def)
  then show "length (fips_pad m) mod 64 = 0" by simp
qed simp

end
