(* ===== verification/Hmac.thy ===== *)
theory Hmac
  imports Sha256
begin

text \<open>
  HMAC-SHA256 with cached pad states, HKDF-SHA256 and PBKDF2-HMAC-SHA256 of
  \<open>crates/ciphra-crypto/src/hmac.rs\<close>, against RFC 2104, RFC 5869 and RFC 8018. A failed \<open>assert!\<close>
  is \<open>None\<close>.
\<close>

section \<open>The code\<close>

definition HMAC_BLOCK_LEN :: nat where "HMAC_BLOCK_LEN = 64"
definition MAC_LEN :: nat where "MAC_LEN = 32"

definition xor_bytes :: "bytes \<Rightarrow> bytes \<Rightarrow> bytes" where
  "xor_bytes a b = map2 (XOR) a b"

record hmac_state =
  hm_inner :: sha256_state
  hm_outer :: sha256_state

definition hmac_key_block :: "bytes \<Rightarrow> bytes" where
  "hmac_key_block key =
    (if HMAC_BLOCK_LEN < length key then copy_at (replicate HMAC_BLOCK_LEN 0) 0 (sha256 key)
     else copy_at (replicate HMAC_BLOCK_LEN 0) 0 key)"

definition hmac_new :: "bytes \<Rightarrow> hmac_state" where
  "hmac_new key =
    (let key_block = hmac_key_block key;
         ipad = xor_bytes (replicate HMAC_BLOCK_LEN 0x36) key_block;
         opad = xor_bytes (replicate HMAC_BLOCK_LEN 0x5c) key_block
     in \<lparr>hm_inner = sha256_update sha256_new ipad, hm_outer = sha256_update sha256_new opad\<rparr>)"

definition hmac_mac :: "hmac_state \<Rightarrow> bytes \<Rightarrow> bytes" where
  "hmac_mac h msg =
    sha256_finalize (sha256_update (hm_outer h) (sha256_finalize (sha256_update (hm_inner h) msg)))"

definition hmac_sha256 :: "bytes \<Rightarrow> bytes \<Rightarrow> bytes" where
  "hmac_sha256 key msg = hmac_mac (hmac_new key) msg"

definition hkdf_extract :: "bytes \<Rightarrow> bytes \<Rightarrow> bytes" where
  "hkdf_extract salt ikm = hmac_sha256 salt ikm"

text \<open>The output loop, \<open>remaining\<close> bytes still to be written.\<close>

function hkdf_loop :: "hmac_state \<Rightarrow> bytes \<Rightarrow> bytes \<Rightarrow> byte \<Rightarrow> nat \<Rightarrow> bytes" where
  "hkdf_loop h info t counter remaining =
    (if remaining = 0 then []
     else
       let block = hmac_mac h (t @ info @ [counter]);
           n = min remaining MAC_LEN
       in take n block @ hkdf_loop h info block (counter + 1) (remaining - n))"
  by pat_completeness auto

termination by (relation "measure (\<lambda>(h, info, t, counter, remaining). remaining)") (auto simp: MAC_LEN_def)

declare hkdf_loop.simps [simp del]

definition hkdf_expand :: "bytes \<Rightarrow> bytes \<Rightarrow> nat \<Rightarrow> bytes option" where
  "hkdf_expand prk info out_len =
    (if 255 * MAC_LEN < out_len then None else Some (hkdf_loop (hmac_new prk) info [] 1 out_len))"

text \<open>One output block of PBKDF2: the iterated MAC, accumulated by XOR.\<close>

fun pbkdf2_iterate :: "hmac_state \<Rightarrow> nat \<Rightarrow> bytes \<times> bytes \<Rightarrow> bytes" where
  "pbkdf2_iterate h 0 (u, acc) = acc"
| "pbkdf2_iterate h (Suc k) (u, acc) =
    (let u' = hmac_mac h u in pbkdf2_iterate h k (u', xor_bytes acc u'))"

definition pbkdf2_block :: "hmac_state \<Rightarrow> bytes \<Rightarrow> nat \<Rightarrow> u32 \<Rightarrow> bytes" where
  "pbkdf2_block h salt iterations block_index =
    (let u = hmac_mac h (salt @ be_bytes 4 (unat block_index)) in pbkdf2_iterate h (iterations - 1) (u, u))"

function pbkdf2_loop :: "hmac_state \<Rightarrow> bytes \<Rightarrow> nat \<Rightarrow> u32 \<Rightarrow> nat \<Rightarrow> bytes" where
  "pbkdf2_loop h salt iterations block_index remaining =
    (if remaining = 0 then []
     else
       let n = min remaining MAC_LEN in
       take n (pbkdf2_block h salt iterations block_index)
       @ pbkdf2_loop h salt iterations (block_index + 1) (remaining - n))"
  by pat_completeness auto

termination by (relation "measure (\<lambda>(h, salt, c, i, remaining). remaining)") (auto simp: MAC_LEN_def)

declare pbkdf2_loop.simps [simp del]

definition pbkdf2_sha256 :: "bytes \<Rightarrow> bytes \<Rightarrow> nat \<Rightarrow> nat \<Rightarrow> bytes option" where
  "pbkdf2_sha256 password salt iterations out_len =
    (if iterations = 0 then None else Some (pbkdf2_loop (hmac_new password) salt iterations 1 out_len))"

section \<open>The RFCs\<close>

text \<open>RFC 2104: \<open>H(K xor opad, H(K xor ipad, text))\<close> with \<open>K\<close> the zero-padded (hashed if long) key.\<close>

definition rfc_hmac :: "bytes \<Rightarrow> bytes \<Rightarrow> bytes" where
  "rfc_hmac key text =
    (let k0 = (if 64 < length key then sha256 key else key); k = k0 @ replicate (64 - length k0) 0 in
     sha256 (map (\<lambda>b. b XOR 0x5c) k @ sha256 (map (\<lambda>b. b XOR 0x36) k @ text)))"

text \<open>RFC 5869: \<open>T(0)\<close> is empty and \<open>T(i) = HMAC(PRK, T(i-1) | info | i)\<close>.\<close>

fun rfc_hkdf_T :: "bytes \<Rightarrow> bytes \<Rightarrow> nat \<Rightarrow> bytes" where
  "rfc_hkdf_T prk info 0 = []"
| "rfc_hkdf_T prk info (Suc i) = rfc_hmac prk (rfc_hkdf_T prk info i @ info @ [word_of_nat (Suc i)])"

text \<open>RFC 8018: \<open>F(P, S, c, i)\<close> is the XOR of \<open>U_1 .. U_c\<close>.\<close>

fun rfc_pbkdf2_U :: "bytes \<Rightarrow> bytes \<Rightarrow> nat \<Rightarrow> nat \<Rightarrow> bytes" where
  "rfc_pbkdf2_U p s i 0 = rfc_hmac p (s @ be_bytes 4 i)"
| "rfc_pbkdf2_U p s i (Suc j) = rfc_hmac p (rfc_pbkdf2_U p s i j)"

definition rfc_pbkdf2_F :: "bytes \<Rightarrow> bytes \<Rightarrow> nat \<Rightarrow> nat \<Rightarrow> bytes" where
  "rfc_pbkdf2_F p s c i = foldl xor_bytes (rfc_pbkdf2_U p s i 0) (map (rfc_pbkdf2_U p s i) [1..<c])"

section \<open>Correctness\<close>

lemma finalize_two: "sha256_finalize (sha256_update (sha256_update sha256_new a) b) = sha256 (a @ b)"
  using sha256_stream [of "[a, b]"] by simp

lemma xor_replicate: "xor_bytes (replicate (length k) c) k = map (\<lambda>b. b XOR c) k"
  by (induction k) (simp_all add: xor_bytes_def xor.commute)

lemma hmac_key_block_eq:
  "hmac_key_block key = (let k0 = (if 64 < length key then sha256 key else key) in k0 @ replicate (64 - length k0) 0)"
  by (simp add: hmac_key_block_def copy_at_def HMAC_BLOCK_LEN_def Let_def)

lemma length_hmac_key_block: "length (hmac_key_block key) = 64"
  by (simp add: hmac_key_block_eq Let_def)

lemma hmac_rfc: "hmac_mac (hmac_new key) msg = rfc_hmac key msg"
proof -
  let ?k = "hmac_key_block key"
  have "xor_bytes (replicate HMAC_BLOCK_LEN c) ?k = map (\<lambda>b. b XOR c) ?k" for c
    using xor_replicate [of ?k c] by (simp add: length_hmac_key_block HMAC_BLOCK_LEN_def)
  then show ?thesis
    by (simp add: hmac_mac_def hmac_new_def Let_def finalize_two rfc_hmac_def)
      (simp add: hmac_key_block_eq Let_def)
qed

lemma length_rfc_hmac [simp]: "length (rfc_hmac k m) = 32"
  by (simp add: rfc_hmac_def Let_def)

text \<open>Output loops that emit 32-byte blocks: the truncated concatenation.\<close>

definition block_stream :: "(nat \<Rightarrow> bytes) \<Rightarrow> nat \<Rightarrow> nat \<Rightarrow> bytes" where
  "block_stream B i n = take n (concat (map B [i..<i + (n + 31) div 32]))"

lemma block_count: "0 < n \<Longrightarrow> (n + 31) div 32 = Suc ((n - min n 32 + 31) div 32)"
  by (cases "n \<le> 32") (auto simp: le_div_geq min_def)

lemma block_stream_unfold:
  assumes "\<And>j. length (B j) = 32" "0 < n"
  shows "block_stream B i n = take (min n 32) (B i) @ block_stream B (Suc i) (n - min n 32)"
proof (cases "n \<le> 32")
  case True
  then have "(n + 31) div 32 = 1" using block_count [OF assms(2)] by simp
  with True show ?thesis by (simp add: block_stream_def)
next
  case False
  then have "(n + 31) div 32 = Suc ((n - 32 + 31) div 32)" by (simp add: le_div_geq)
  then have "[i..<i + (n + 31) div 32] = i # [Suc i..<Suc i + (n - 32 + 31) div 32]"
    by (simp add: upt_conv_Cons)
  with False assms(1) [of i] show ?thesis by (simp add: block_stream_def)
qed

lemma block_stream_0 [simp]: "block_stream B i 0 = []"
  by (simp add: block_stream_def)

lemma hkdf_loop_rfc:
  "hkdf_loop (hmac_new prk) info (rfc_hkdf_T prk info i) (word_of_nat (Suc i)) n
    = block_stream (rfc_hkdf_T prk info) (Suc i) n"
proof (induction n arbitrary: i rule: less_induct)
  case (less n)
  let ?T = "\<lambda>i. rfc_hkdf_T prk info (Suc i)"
  have shift: "block_stream (rfc_hkdf_T prk info) (Suc i) m = block_stream ?T i m" for i m
    by (simp only: block_stream_def add_Suc map_Suc_upt [symmetric] map_map comp_def)
  show ?case
  proof (cases "n = 0")
    case True
    then show ?thesis by (simp add: hkdf_loop.simps)
  next
    case False
    let ?n = "n - min n 32"
    have IH: "hkdf_loop (hmac_new prk) info (?T i) (word_of_nat (Suc (Suc i))) ?n
        = block_stream (rfc_hkdf_T prk info) (Suc (Suc i)) ?n"
      using less.IH [of ?n "Suc i"] False by simp
    have "(word_of_nat (Suc i) + 1 :: byte) = word_of_nat (Suc (Suc i))" by simp
    then have "hkdf_loop (hmac_new prk) info (rfc_hkdf_T prk info i) (word_of_nat (Suc i)) n
        = take (min n 32) (?T i) @ block_stream (rfc_hkdf_T prk info) (Suc (Suc i)) ?n"
      using False IH
      by (simp only: hkdf_loop.simps [of _ _ _ _ n] Let_def hmac_rfc rfc_hkdf_T.simps MAC_LEN_def if_False)
    also have "\<dots> = block_stream ?T i n"
      using block_stream_unfold [of ?T n i] False by (simp add: shift)
    finally show ?thesis by (simp add: shift del: rfc_hkdf_T.simps)
  qed
qed

lemma pbkdf2_iterate_rfc:
  "pbkdf2_iterate (hmac_new p) k (rfc_pbkdf2_U p s i j, acc)
    = foldl xor_bytes acc (map (rfc_pbkdf2_U p s i) [Suc j..<Suc j + k])"
proof (induction k arbitrary: j acc)
  case 0
  then show ?case by simp
next
  case (Suc k)
  have "[Suc j..<Suc j + Suc k] = Suc j # [Suc (Suc j)..<Suc (Suc j) + k]"
    by (simp add: upt_conv_Cons)
  with Suc.IH [of "Suc j" "xor_bytes acc (rfc_pbkdf2_U p s i (Suc j))"] show ?case
    by (simp add: Let_def hmac_rfc)
qed

lemma length_xor_bytes [simp]: "length (xor_bytes a b) = min (length a) (length b)"
  by (simp add: xor_bytes_def)

lemma length_rfc_pbkdf2_U [simp]: "length (rfc_pbkdf2_U p s i j) = 32"
  by (cases j) simp_all

lemma length_rfc_pbkdf2_F [simp]: "length (rfc_pbkdf2_F p s c i) = 32"
proof -
  have "length acc = 32 \<Longrightarrow> \<forall>x \<in> set xs. length x = 32 \<Longrightarrow> length (foldl xor_bytes acc xs) = 32" for acc xs
    by (induction xs arbitrary: acc) simp_all
  then show ?thesis by (simp add: rfc_pbkdf2_F_def)
qed

lemma pbkdf2_block_rfc:
  assumes "0 < c" "i < 2 ^ 32"
  shows "pbkdf2_block (hmac_new p) s c (word_of_nat i) = rfc_pbkdf2_F p s c i"
proof -
  have "unat (word_of_nat i :: u32) = i" using assms(2) by (simp add: unsigned_of_nat take_bit_nat_eq_self)
  then show ?thesis
    using pbkdf2_iterate_rfc [of p "c - 1" s i 0] assms(1)
    by (simp add: pbkdf2_block_def rfc_pbkdf2_F_def hmac_rfc Let_def)
qed

lemma pbkdf2_loop_rfc:
  assumes "0 < c" "i + (n + 31) div 32 \<le> 2 ^ 32"
  shows "pbkdf2_loop (hmac_new p) s c (word_of_nat i) n = block_stream (rfc_pbkdf2_F p s c) i n"
  using assms(2)
proof (induction n arbitrary: i rule: less_induct)
  case (less n)
  show ?case
  proof (cases "n = 0")
    case True
    then show ?thesis by (simp add: pbkdf2_loop.simps)
  next
    case False
    let ?n = "n - min n 32"
    have "Suc i + (?n + 31) div 32 \<le> i + (n + 31) div 32" using False block_count [of n] by simp
    with less.prems have b: "Suc i + (?n + 31) div 32 \<le> 2 ^ 32" "i < 2 ^ 32" by linarith+
    have "pbkdf2_loop (hmac_new p) s c (word_of_nat i) n
        = take (min n 32) (rfc_pbkdf2_F p s c i) @ pbkdf2_loop (hmac_new p) s c (word_of_nat (Suc i)) ?n"
      using False by (simp add: pbkdf2_loop.simps [of _ _ _ _ n] Let_def MAC_LEN_def
          pbkdf2_block_rfc [OF assms(1) b(2)] add.commute)
    also have "pbkdf2_loop (hmac_new p) s c (word_of_nat (Suc i)) ?n = block_stream (rfc_pbkdf2_F p s c) (Suc i) ?n"
      using less.IH [OF _ b(1)] False by simp
    finally show ?thesis using block_stream_unfold [of "rfc_pbkdf2_F p s c" n i] False by simp
  qed
qed

section \<open>Properties of the key-derivation functions\<close>

text \<open>C32: the MAC and the key-derivation functions are those of the RFCs. The cached-pad HMAC is
  RFC 2104's; HKDF-Expand is RFC 5869's truncated concatenation of \<open>T(1), T(2), ...\<close> for every
  permitted length; PBKDF2 is RFC 8018's truncated concatenation of the blocks \<open>F(P, S, c, i)\<close>.\<close>

theorem kdf_matches_rfc:
  "hmac_sha256 key msg = rfc_hmac key msg
    \<and> hkdf_expand prk info n = (if n \<le> 255 * 32
        then Some (take n (concat (map (rfc_hkdf_T prk info) [1..<1 + (n + 31) div 32]))) else None)
    \<and> (n < 2 ^ 32 \<longrightarrow> pbkdf2_sha256 pw salt c n = (if 0 < c
        then Some (take n (concat (map (rfc_pbkdf2_F pw salt c) [1..<1 + (n + 31) div 32]))) else None))"
proof (intro conjI impI)
  show "hmac_sha256 key msg = rfc_hmac key msg" by (simp add: hmac_sha256_def hmac_rfc)
  show "hkdf_expand prk info n = (if n \<le> 255 * 32
      then Some (take n (concat (map (rfc_hkdf_T prk info) [1..<1 + (n + 31) div 32]))) else None)"
    using hkdf_loop_rfc [of prk info 0 n] by (simp add: hkdf_expand_def MAC_LEN_def block_stream_def not_less)
  assume n: "n < 2 ^ 32"
  then have "1 + (n + 31) div 32 \<le> 2 ^ 32" by simp
  from pbkdf2_loop_rfc [OF _ this, of c pw salt] show "pbkdf2_sha256 pw salt c n = (if 0 < c
      then Some (take n (concat (map (rfc_pbkdf2_F pw salt c) [1..<1 + (n + 31) div 32]))) else None)"
    by (simp add: pbkdf2_sha256_def block_stream_def)
qed

theorem kdf_matches_rfc_witness:
  "pbkdf2_sha256 [1] [2] 1 20 = Some (take 20 (rfc_pbkdf2_F [1] [2] 1 1))"
  using kdf_matches_rfc [of "[]" "[]" "[]" "[]" 20 "[1]" "[2]" 1] by simp

end
