(* ===== verification/Keys.thy ===== *)
theory Keys
  imports Aead Hmac Engine_Types
begin

text \<open>
  The key hierarchy of \<open>crates/ciphra-crypto/src/lib.rs\<close>: purpose keys, seeds and opaque tags derived
  from the 32-byte master key, and the sealed envelope \<open>nonce | ciphertext | tag\<close>. The random nonce
  that \<open>CipherKey::seal\<close> draws from the operating system is an argument. \<open>hkdf_expand\<close> asserts a limit
  on its output length that 32 bytes never reach.
\<close>

definition SALT_LEN :: nat where "SALT_LEN = 16"

definition derive_key :: "bytes \<Rightarrow> string \<Rightarrow> bytes" where
  "derive_key master context =
    (let prk = hkdf_extract (as_bytes ''ciphra/v0/subkey'') master in
     the (hkdf_expand prk (as_bytes context) KEY_LEN))"

definition derive_seed :: "bytes \<Rightarrow> string \<Rightarrow> bytes" where
  "derive_seed master context =
    (let prk = hkdf_extract (as_bytes ''ciphra/v0/seed'') master in
     the (hkdf_expand prk (as_bytes context) 32))"

definition keyed_tag :: "bytes \<Rightarrow> string \<Rightarrow> bytes \<Rightarrow> bytes" where
  "keyed_tag master purpose d =
    (let tag_key = derive_key master (''tag:'' @ purpose) in hmac_sha256 tag_key d)"

definition cipher_seal :: "bytes \<Rightarrow> bytes \<Rightarrow> bytes \<Rightarrow> bytes \<Rightarrow> bytes" where
  "cipher_seal key nonce plaintext aad = nonce @ aead_seal key nonce plaintext aad"

definition cipher_open :: "bytes \<Rightarrow> bytes \<Rightarrow> bytes \<Rightarrow> (crypto_error, bytes) result" where
  "cipher_open key sealed aad =
    (if length sealed < NONCE_LEN + TAG_LEN then Err Open
     else ok_or Open (aead_open key (take NONCE_LEN sealed) (drop NONCE_LEN sealed) aad))"

lemma hkdf_expand_total: "\<exists>k. hkdf_expand prk info 32 = Some k"
  by (simp add: hkdf_expand_def MAC_LEN_def)

lemma length_keyed_tag [simp]: "length (keyed_tag m p d) = 32"
  by (simp add: keyed_tag_def hmac_sha256_def hmac_rfc Let_def)

text \<open>An envelope opens to a plaintext exactly when it is that plaintext sealed under some nonce.\<close>

lemma cipher_open_iff:
  "cipher_open key sealed aad = Ok p
    \<longleftrightarrow> (\<exists>nonce. length nonce = NONCE_LEN \<and> sealed = cipher_seal key nonce p aad)"
proof
  assume "cipher_open key sealed aad = Ok p"
  then have len: "NONCE_LEN + TAG_LEN \<le> length sealed"
    and op: "aead_open key (take NONCE_LEN sealed) (drop NONCE_LEN sealed) aad = Some p"
    by (auto simp: cipher_open_def split: if_splits)
  have "drop NONCE_LEN sealed = aead_seal key (take NONCE_LEN sealed) p aad"
    using op by (simp only: aead_open_iff)
  then have "sealed = cipher_seal key (take NONCE_LEN sealed) p aad"
    by (metis append_take_drop_id cipher_seal_def)
  moreover have "length (take NONCE_LEN sealed) = NONCE_LEN" using len by simp
  ultimately show "\<exists>nonce. length nonce = NONCE_LEN \<and> sealed = cipher_seal key nonce p aad" by blast
next
  assume "\<exists>nonce. length nonce = NONCE_LEN \<and> sealed = cipher_seal key nonce p aad"
  then obtain nonce where n: "length nonce = NONCE_LEN" and s: "sealed = cipher_seal key nonce p aad" by blast
  have "TAG_LEN \<le> length (aead_seal key nonce p aad)" by (simp add: aead_seal_def Let_def)
  then show "cipher_open key sealed aad = Ok p"
    using n aead_open_iff [of key nonce "aead_seal key nonce p aad" aad p] by (simp add: cipher_open_def s cipher_seal_def)
qed

lemma cipher_open_seal [simp]:
  "length nonce = NONCE_LEN \<Longrightarrow> cipher_open key (cipher_seal key nonce p aad) aad = Ok p"
  by (auto simp: cipher_open_iff)

end
