(* ===== verification/Audit_Chain.thy ===== *)
theory Audit_Chain
  imports Keys
begin

text \<open>
  The audit chain of \<open>crates/ciphra-engine/src/lib.rs\<close>: the 97-byte entries, the batch digest that
  binds an entry to the sealed writes, the chain walk of \<open>audit_verify\<close>, and the Merkle tree over the
  entries with its inclusion proofs. Two statements are about forgery; they exhibit the two inputs on
  which SHA-256 would have to collide, so they assume nothing of it.
\<close>

section \<open>Entries\<close>

definition AUDIT_PREFIX :: bytes where "AUDIT_PREFIX = as_bytes [CHR ''a'', CHR 0x00]"
definition AUDIT_HEAD_KEY :: bytes where "AUDIT_HEAD_KEY = as_bytes (CHR 0x00 # ''audit'')"
definition AUDIT_ENTRY_LEN :: nat where "AUDIT_ENTRY_LEN = 8 + 8 + 1 + 16 + 32 + 32"

definition CREATE_TABLE :: byte where "CREATE_TABLE = 1"
definition DROP_TABLE :: byte where "DROP_TABLE = 2"
definition CREATE_INDEX :: byte where "CREATE_INDEX = 3"
definition DROP_INDEX :: byte where "DROP_INDEX = 4"
definition INSERT :: byte where "INSERT = 5"
definition UPDATE :: byte where "UPDATE = 6"
definition DELETE :: byte where "DELETE = 7"
definition ROTATE :: byte where "ROTATE = 8"

record audit_entry =
  ae_seq :: u64
  ae_time :: u64
  ae_kind :: byte
  ae_table_tag :: bytes
  ae_writes_digest :: bytes
  ae_prev_root :: bytes

text \<open>The lengths the array types of the fields fix.\<close>

definition audit_entry_ok :: "audit_entry \<Rightarrow> bool" where
  "audit_entry_ok e \<longleftrightarrow>
    length (ae_table_tag e) = 16 \<and> length (ae_writes_digest e) = 32 \<and> length (ae_prev_root e) = 32"

definition encode_audit :: "audit_entry \<Rightarrow> bytes" where
  "encode_audit e =
    le_bytes 8 (unat (ae_seq e)) @ le_bytes 8 (unat (ae_time e)) @ [ae_kind e]
    @ ae_table_tag e @ ae_writes_digest e @ ae_prev_root e"

definition decode_audit :: "bytes \<Rightarrow> audit_entry res" where
  "decode_audit bs =
    (if length bs \<noteq> AUDIT_ENTRY_LEN then Err (Corrupt_error ''bad audit entry'')
     else Ok \<lparr>ae_seq = word_of_nat (le_nat (take 8 bs)),
              ae_time = word_of_nat (le_nat (take 8 (drop 8 bs))),
              ae_kind = bs ! 16,
              ae_table_tag = take 16 (drop 17 bs),
              ae_writes_digest = take 32 (drop 33 bs),
              ae_prev_root = take 32 (drop 65 bs)\<rparr>)"

definition audit_root_of :: "audit_entry \<Rightarrow> bytes" where
  "audit_root_of e = sha256 (encode_audit e)"

definition digest_batch :: "batch \<Rightarrow> bytes" where
  "digest_batch b = sha256_finalize (foldl (\<lambda>hasher (is_delete, key, value).
      sha256_update (sha256_update (sha256_update (sha256_update (sha256_update hasher
        [if is_delete then 1 else 0]) (le_bytes 8 (length key))) key) (le_bytes 8 (length value))) value)
    sha256_new (batch_entries b))"

section \<open>The chain walk\<close>

definition GENESIS_ROOT :: bytes where "GENESIS_ROOT = replicate 32 0"

text \<open>The loop of \<open>audit_verify\<close>: \<open>entries\<close> collected so far, current \<open>root\<close>, remaining scan.\<close>

fun audit_walk ::
  "bytes \<Rightarrow> audit_entry list \<Rightarrow> bytes \<Rightarrow> (bytes \<times> bytes) list \<Rightarrow> (audit_entry list \<times> bytes) res" where
  "audit_walk audit_key entries root [] = Ok (entries, root)"
| "audit_walk audit_key entries root ((key, sealed) # rest) =
    (case cipher_open audit_key sealed key of
       Err _ \<Rightarrow> Err (Audit_error ''audit entry failed authentication'')
     | Ok plain \<Rightarrow>
         rbind (decode_audit plain) (\<lambda>entry.
           if ae_seq entry \<noteq> word_of_nat (length entries) then
             Err (Audit_error (''audit chain has a gap: expected seq '' @ show_nat (length entries)
               @ '', found '' @ show_nat (unat (ae_seq entry))))
           else if ae_prev_root entry \<noteq> root then
             Err (Audit_error (''audit entry '' @ show_nat (unat (ae_seq entry))
               @ '' does not extend the previous root''))
           else audit_walk audit_key (entries @ [entry]) (audit_root_of entry) rest))"

definition audit_check ::
  "bytes \<Rightarrow> u64 \<times> bytes \<Rightarrow> (bytes \<times> bytes) list \<Rightarrow> audit_entry list res" where
  "audit_check audit_key head pairs =
    rbind (audit_walk audit_key [] GENESIS_ROOT pairs) (\<lambda>(entries, root).
      if (word_of_nat (length entries), root) \<noteq> head then
        Err (Audit_error ''audit head does not match the recomputed chain'')
      else Ok entries)"

section \<open>The Merkle tree\<close>

record merkle_proof =
  mp_index :: u64
  mp_total :: u64
  mp_siblings :: "bytes list"

definition leaf_input :: "bytes \<Rightarrow> bytes" where
  "leaf_input entry_bytes = 0 # entry_bytes"

definition merkle_leaf :: "bytes \<Rightarrow> bytes" where
  "merkle_leaf entry_bytes = sha256 (leaf_input entry_bytes)"

definition node_input :: "bytes \<Rightarrow> bytes \<Rightarrow> bytes" where
  "node_input left right = 1 # left @ right"

definition merkle_node :: "bytes \<Rightarrow> bytes \<Rightarrow> bytes" where
  "merkle_node left right = sha256 (node_input left right)"

text \<open>One pass of the inner loop of \<open>merkle_levels\<close>: pairs are hashed, a lone node is promoted.\<close>

fun next_level :: "bytes list \<Rightarrow> bytes list" where
  "next_level (a # b # rest) = merkle_node a b # next_level rest"
| "next_level [a] = [a]"
| "next_level [] = []"

lemma length_next_level [simp]: "length (next_level xs) = (length xs + 1) div 2"
  by (induction xs rule: next_level.induct) auto

function merkle_levels :: "bytes list \<Rightarrow> bytes list list" where
  "merkle_levels cur = cur # (if 1 < length cur then merkle_levels (next_level cur) else [])"
  by pat_completeness auto

termination by (relation "measure length") auto

declare merkle_levels.simps [simp del]

definition EMPTY_TREE :: bytes where "EMPTY_TREE = as_bytes ''ciphra/merkle/empty/v1''"

definition merkle_root_of :: "bytes list \<Rightarrow> bytes" where
  "merkle_root_of leaves =
    (if length leaves = 0 then sha256 EMPTY_TREE else hd (last (merkle_levels leaves)))"

fun collect_siblings :: "nat \<Rightarrow> bytes list list \<Rightarrow> bytes list" where
  "collect_siblings pos [] = []"
| "collect_siblings pos (level # levels) =
    (if pos mod 2 = 1 then [level ! (pos - 1)]
     else if pos + 1 < length level then [level ! (pos + 1)] else [])
    @ collect_siblings (pos div 2) levels"

text \<open>The body of \<open>audit_inclusion_proof\<close> after the chain has been verified.\<close>

definition inclusion_proof :: "audit_entry list \<Rightarrow> u64 \<Rightarrow> (audit_entry \<times> merkle_proof \<times> bytes) res" where
  "inclusion_proof entries index =
    (let idx = unat index in
     if length entries \<le> idx then
       Err (Audit_error (''no audit entry at index '' @ show_nat idx @ '' (chain has ''
         @ show_nat (length entries) @ '' entries)''))
     else
       let leaves = map (\<lambda>e. merkle_leaf (encode_audit e)) entries;
           levels = merkle_levels leaves;
           siblings = collect_siblings idx (butlast levels)
       in Ok (entries ! idx,
              \<lparr>mp_index = index, mp_total = word_of_nat (length entries), mp_siblings = siblings\<rparr>,
              hd (last levels)))"

definition div_ceil2 :: "u64 \<Rightarrow> u64" where
  "div_ceil2 sz = (if 0 < sz mod 2 then sz div 2 + 1 else sz div 2)"

lemma unat_div_ceil2: "unat (div_ceil2 sz) = (unat sz + 1) div 2"
proof -
  have lt: "unat sz < 2 ^ 64" using unsigned_less [of sz] by simp
  have d: "unat (sz div 2) = unat sz div 2" and m: "unat (sz mod 2) = unat sz mod 2"
    by (simp_all add: unat_div unat_mod)
  have pos: "0 < sz mod 2 \<longleftrightarrow> unat sz mod 2 = 1"
    using m by (metis not_mod_2_eq_1_eq_0 unsigned_0 unsigned_word_eqI word_gt_0 zero_neq_one)
  have "2 * (unat sz div 2) \<le> unat sz" by simp
  then have "unat sz div 2 + 1 < 2 ^ 64" using lt by simp
  then have "unat (sz div 2 + 1) = unat sz div 2 + 1"
    using unat_add_lem [of "sz div 2" 1] by (simp add: d)
  then show ?thesis by (simp add: div_ceil2_def d pos) presburger
qed

lemma div_ceil2_less: "1 < sz \<Longrightarrow> unat (div_ceil2 sz) < unat sz"
  by (auto simp: unat_div_ceil2 word_less_nat_alt)

function verify_path :: "bytes \<Rightarrow> bytes \<Rightarrow> u64 \<Rightarrow> u64 \<Rightarrow> bytes list \<Rightarrow> bool" where
  "verify_path root hash pos sz siblings =
    (if 1 < sz then
       if pos mod 2 = 1 then
         (case siblings of
            [] \<Rightarrow> False
          | sib # rest \<Rightarrow> verify_path root (merkle_node sib hash) (pos div 2) (div_ceil2 sz) rest)
       else if pos + 1 < sz then
         (case siblings of
            [] \<Rightarrow> False
          | sib # rest \<Rightarrow> verify_path root (merkle_node hash sib) (pos div 2) (div_ceil2 sz) rest)
       else verify_path root hash (pos div 2) (div_ceil2 sz) siblings
     else siblings = [] \<and> hash = root)"
  by pat_completeness auto

termination
  by (relation "measure (\<lambda>(root, hash, pos, sz, siblings). unat sz)") (auto intro: div_ceil2_less)

declare verify_path.simps [simp del]

definition verify_inclusion :: "audit_entry \<Rightarrow> merkle_proof \<Rightarrow> bytes \<Rightarrow> bool" where
  "verify_inclusion entry proof root =
    (if mp_index proof \<noteq> ae_seq entry \<or> mp_total proof \<le> mp_index proof then False
     else verify_path root (merkle_leaf (encode_audit entry)) (mp_index proof) (mp_total proof) (mp_siblings proof))"

section \<open>Entries and digests\<close>

lemma length_encode_audit: "audit_entry_ok e \<Longrightarrow> length (encode_audit e) = AUDIT_ENTRY_LEN"
  by (simp add: encode_audit_def audit_entry_ok_def AUDIT_ENTRY_LEN_def)

lemma decode_encode_audit: "audit_entry_ok e \<Longrightarrow> decode_audit (encode_audit e) = Ok e"
  by (simp add: decode_audit_def length_encode_audit)
    (simp add: encode_audit_def audit_entry_ok_def word_le_bytes_roundtrip nth_append)

lemma u64_field: "length bs = 8 \<Longrightarrow> le_bytes 8 (unat (word_of_nat (le_nat bs) :: u64)) = bs"
proof -
  assume len: "length bs = 8"
  then have "le_nat bs < 2 ^ 64" using le_nat_lt [of bs] by simp
  then have "unat (word_of_nat (le_nat bs) :: u64) = le_nat bs" by (simp add: unat_of_nat)
  then show ?thesis using le_bytes_le_nat [of bs] len by simp
qed

lemma split_field: "take n (drop m bs) @ drop (m + n) bs = drop m bs"
  by (metis add.commute append_take_drop_id drop_drop)

lemma decode_audit_exact:
  "decode_audit bs = Ok e \<longleftrightarrow> audit_entry_ok e \<and> encode_audit e = bs"
proof
  assume d: "decode_audit bs = Ok e"
  then have len: "length bs = 97" by (auto simp: decode_audit_def AUDIT_ENTRY_LEN_def split: if_splits)
  have parts: "take 8 bs @ take 8 (drop 8 bs) @ [bs ! 16] @ take 16 (drop 17 bs) @ take 32 (drop 33 bs)
      @ take 32 (drop 65 bs) = bs"
    using split_field [where m = 0 and n = 8 and bs = bs] split_field [where m = 8 and n = 8 and bs = bs]
      split_field [where m = 16 and n = 1 and bs = bs] split_field [where m = 17 and n = 16 and bs = bs]
      split_field [where m = 33 and n = 32 and bs = bs] len
    by (simp add: take_Suc hd_drop_conv_nth)
  have "e = \<lparr>ae_seq = word_of_nat (le_nat (take 8 bs)), ae_time = word_of_nat (le_nat (take 8 (drop 8 bs))),
      ae_kind = bs ! 16, ae_table_tag = take 16 (drop 17 bs), ae_writes_digest = take 32 (drop 33 bs),
      ae_prev_root = take 32 (drop 65 bs)\<rparr>"
    using d len by (simp add: decode_audit_def AUDIT_ENTRY_LEN_def)
  then show "audit_entry_ok e \<and> encode_audit e = bs"
    using len parts by (simp add: audit_entry_ok_def encode_audit_def u64_field)
next
  assume "audit_entry_ok e \<and> encode_audit e = bs"
  then show "decode_audit bs = Ok e" using decode_encode_audit by auto
qed

lemma encode_audit_inj:
  "audit_entry_ok e \<Longrightarrow> audit_entry_ok f \<Longrightarrow> encode_audit e = encode_audit f \<longleftrightarrow> e = f"
  by (metis decode_encode_audit result.inject(1))

definition digest_input :: "batch \<Rightarrow> bytes" where
  "digest_input b = concat (map (\<lambda>(is_delete, key, value).
     [if is_delete then 1 else 0] @ le_bytes 8 (length key) @ key @ le_bytes 8 (length value) @ value) (batch_entries b))"

lemma foldl_updates:
  "foldl (\<lambda>h (d, k, v). sha256_update (sha256_update (sha256_update (sha256_update (sha256_update h
        [if d then 1 else 0]) (le_bytes 8 (length k))) k) (le_bytes 8 (length v))) v) s es
    = foldl sha256_update s (concat (map (\<lambda>(d, k, v).
        [[if d then 1 else 0], le_bytes 8 (length k), k, le_bytes 8 (length v), v]) es))"
  by (induction es arbitrary: s) auto

lemma digest_batch_eq: "digest_batch b = sha256 (digest_input b)"
proof -
  have "concat (concat (map (\<lambda>(d, k, v).
        [[if d then 1 else 0 :: byte], le_bytes 8 (length k), k, le_bytes 8 (length v), v]) es))
      = concat (map (\<lambda>(d, k, v). [if d then 1 else 0] @ le_bytes 8 (length k) @ k @ le_bytes 8 (length v) @ v) es)" for es
    by (induction es) auto
  then show ?thesis by (simp only: digest_batch_def foldl_updates sha256_stream digest_input_def)
qed

section \<open>What the chain walk accepts\<close>

fun chained :: "bytes \<Rightarrow> nat \<Rightarrow> audit_entry list \<Rightarrow> bytes \<Rightarrow> bool" where
  "chained root n [] r \<longleftrightarrow> r = root"
| "chained root n (e # es) r \<longleftrightarrow> audit_entry_ok e \<and> ae_seq e = word_of_nat n \<and> ae_prev_root e = root
    \<and> chained (audit_root_of e) (Suc n) es r"

definition sealed_entry :: "bytes \<Rightarrow> bytes \<times> bytes \<Rightarrow> audit_entry \<Rightarrow> bool" where
  "sealed_entry k kv e \<longleftrightarrow> cipher_open k (snd kv) (fst kv) = Ok (encode_audit e)"

lemma audit_walk_exact:
  "audit_walk k ents root pairs = Ok (ents', r) \<longleftrightarrow>
    (\<exists>es. ents' = ents @ es \<and> chained root (length ents) es r \<and> list_all2 (sealed_entry k) pairs es)"
proof (induction pairs arbitrary: ents root)
  case Nil
  then show ?case by auto
next
  case (Cons kv pairs)
  obtain key sealed where kv: "kv = (key, sealed)" by fastforce
  show ?case
  proof
    assume a: "audit_walk k ents root (kv # pairs) = Ok (ents', r)"
    then obtain plain e where p: "cipher_open k sealed key = Ok plain" and e: "decode_audit plain = Ok e"
      and seq: "ae_seq e = word_of_nat (length ents)" and prev: "ae_prev_root e = root"
      and rest: "audit_walk k (ents @ [e]) (audit_root_of e) pairs = Ok (ents', r)"
      by (auto simp: kv split: result.splits if_splits)
    from rest obtain es where "ents' = ents @ e # es" "chained (audit_root_of e) (Suc (length ents)) es r"
      "list_all2 (sealed_entry k) pairs es" unfolding Cons.IH by auto
    moreover have "sealed_entry k kv e" "audit_entry_ok e"
      using p e by (auto simp: sealed_entry_def kv decode_audit_exact)
    ultimately show "\<exists>es. ents' = ents @ es \<and> chained root (length ents) es r \<and> list_all2 (sealed_entry k) (kv # pairs) es"
      using seq prev by (intro exI [of _ "e # es"]) simp
  next
    assume "\<exists>es. ents' = ents @ es \<and> chained root (length ents) es r \<and> list_all2 (sealed_entry k) (kv # pairs) es"
    then obtain e es where es: "ents' = ents @ e # es" "chained root (length ents) (e # es) r"
      "sealed_entry k kv e" "list_all2 (sealed_entry k) pairs es"
      by (auto simp: list_all2_Cons1)
    have "audit_walk k (ents @ [e]) (audit_root_of e) pairs = Ok (ents', r)"
      unfolding Cons.IH using es by (intro exI [of _ es]) simp
    then show "audit_walk k ents root (kv # pairs) = Ok (ents', r)"
      using es(2,3) by (simp add: kv sealed_entry_def decode_encode_audit)
  qed
qed

lemma audit_check_exact:
  "audit_check k head pairs = Ok es \<longleftrightarrow>
    chained GENESIS_ROOT 0 es (snd head) \<and> fst head = word_of_nat (length es) \<and> list_all2 (sealed_entry k) pairs es"
proof -
  have "audit_check k head pairs = Ok es \<longleftrightarrow>
      audit_walk k [] GENESIS_ROOT pairs = Ok (es, snd head) \<and> fst head = word_of_nat (length es)"
    by (cases head) (auto simp: audit_check_def split: prod.splits if_splits)
  then show ?thesis using audit_walk_exact [of k "[]"] by auto
qed

lemma chained_snoc:
  "chained root n (es @ [e]) r \<longleftrightarrow> (\<exists>r'. chained root n es r' \<and> audit_entry_ok e
    \<and> ae_seq e = word_of_nat (n + length es) \<and> ae_prev_root e = r' \<and> r = audit_root_of e)"
  by (induction es arbitrary: root n) auto

lemma chained_nth:
  "chained root n es r \<Longrightarrow> i < length es \<Longrightarrow> audit_entry_ok (es ! i) \<and> ae_seq (es ! i) = word_of_nat (n + i)"
  by (induction es arbitrary: root n i) (auto simp: nth_Cons split: nat.split)

lemma chained_all_ok: "chained root n es r \<Longrightarrow> list_all audit_entry_ok es"
  by (auto simp: list_all_length dest: chained_nth)

lemma chained_unique:
  assumes "length es = length es'" "chained root n es r" "chained root n es' r"
  shows "es = es' \<or> (\<exists>i < length es. encode_audit (es ! i) \<noteq> encode_audit (es' ! i)
    \<and> sha256 (encode_audit (es ! i)) = sha256 (encode_audit (es' ! i)))"
  using assms
proof (induction es arbitrary: es' r rule: rev_induct)
  case Nil
  then show ?case by simp
next
  case (snoc e es)
  then obtain e' fs where f: "es' = fs @ [e']" by (cases es' rule: rev_cases) auto
  have len: "length es = length fs" using snoc.prems(1) by (simp add: f)
  from snoc.prems obtain r1 r2 where c: "chained root n es r1" "chained root n fs r2" "audit_entry_ok e" "audit_entry_ok e'"
    "ae_prev_root e = r1" "ae_prev_root e' = r2" "audit_root_of e = audit_root_of e'"
    by (auto simp: f chained_snoc)
  show ?case
  proof (cases "encode_audit e = encode_audit e'")
    case True
    then have ee: "e = e'" using c by (simp add: encode_audit_inj)
    then have "r1 = r2" using c by simp
    with snoc.IH [OF len c(1)] c(2) have "es = fs \<or> (\<exists>i < length es. encode_audit (es ! i) \<noteq> encode_audit (fs ! i)
      \<and> sha256 (encode_audit (es ! i)) = sha256 (encode_audit (fs ! i)))" by simp
    then show ?thesis using ee len by (auto simp: f nth_append intro: less_SucI)
  next
    case False
    then show ?thesis using c(7) len
      by (intro disjI2 exI [of _ "length es"]) (simp add: f nth_append audit_root_of_def)
  qed
qed

text \<open>A two-entry log, for concrete instances.\<close>

definition ex_entry0 :: audit_entry where
  "ex_entry0 = \<lparr>ae_seq = 0, ae_time = 5, ae_kind = CREATE_TABLE, ae_table_tag = replicate 16 1,
     ae_writes_digest = replicate 32 2, ae_prev_root = GENESIS_ROOT\<rparr>"

definition ex_entry1 :: audit_entry where
  "ex_entry1 = \<lparr>ae_seq = 1, ae_time = 6, ae_kind = INSERT, ae_table_tag = replicate 16 1,
     ae_writes_digest = replicate 32 3, ae_prev_root = audit_root_of ex_entry0\<rparr>"

definition ex_pairs :: "byte \<Rightarrow> (bytes \<times> bytes) list" where
  "ex_pairs n = map (\<lambda>e. ([7], cipher_seal [] (replicate 12 n) (encode_audit e) [7])) [ex_entry0, ex_entry1]"

lemma ex_check: "audit_check [] (2, audit_root_of ex_entry1) (ex_pairs n) = Ok [ex_entry0, ex_entry1]"
  by (simp add: audit_check_exact ex_pairs_def sealed_entry_def NONCE_LEN_def audit_entry_ok_def)
    (simp add: ex_entry0_def ex_entry1_def audit_root_of_def GENESIS_ROOT_def)

text \<open>
  C7: two audit logs (below \<open>2 ^ 64\<close> entries) that both verify against the same published head, sequence
  number and root, contain the same entries, or else SHA-256 collides on the encodings of the two
  entries at some position: rewriting, dropping or reordering history under an unchanged root takes a
  collision. The logs may come from different scans and different keys.
\<close>

theorem audit_log_tamper_evident:
  assumes "audit_check k head pairs = Ok es" "audit_check k' head pairs' = Ok es'"
    and "length es < 2 ^ 64" "length es' < 2 ^ 64"
  shows "es = es' \<or> (\<exists>i < length es. encode_audit (es ! i) \<noteq> encode_audit (es' ! i)
    \<and> sha256 (encode_audit (es ! i)) = sha256 (encode_audit (es' ! i)))"
proof -
  have c: "chained GENESIS_ROOT 0 es (snd head)" "chained GENESIS_ROOT 0 es' (snd head)"
    "(word_of_nat (length es) :: u64) = word_of_nat (length es')"
    using assms(1,2) by (auto simp: audit_check_exact)
  from c(3) assms(3,4) have "length es = length es'"
    by (simp add: word_of_nat_eq_iff take_bit_eq_mod)
  then show ?thesis using chained_unique [OF _ c(1,2)] by blast
qed

theorem audit_log_tamper_evident_witness:
  "audit_check [] (2, audit_root_of ex_entry1) (ex_pairs 0) = Ok [ex_entry0, ex_entry1]
    \<and> audit_check [] (2, audit_root_of ex_entry1) (ex_pairs 1) = Ok [ex_entry0, ex_entry1]
    \<and> ([ex_entry0, ex_entry1] = [ex_entry0, ex_entry1] \<or> (\<exists>i < length [ex_entry0, ex_entry1].
      encode_audit ([ex_entry0, ex_entry1] ! i) \<noteq> encode_audit ([ex_entry0, ex_entry1] ! i)
      \<and> sha256 (encode_audit ([ex_entry0, ex_entry1] ! i)) = sha256 (encode_audit ([ex_entry0, ex_entry1] ! i))))"
  using audit_log_tamper_evident [OF ex_check [of 0] ex_check [of 1]] ex_check by simp

section \<open>Merkle proofs: completeness\<close>

lemma next_level_nth:
  "pos < length xs \<Longrightarrow> next_level xs ! (pos div 2) =
    (if pos mod 2 = 1 then merkle_node (xs ! (pos - 1)) (xs ! pos)
     else if pos + 1 < length xs then merkle_node (xs ! pos) (xs ! (pos + 1))
     else xs ! pos)"
proof (induction xs arbitrary: pos rule: next_level.induct)
  case (1 a b rest)
  consider "pos = 0" | "pos = 1" | k where "pos = Suc (Suc k)" by (metis One_nat_def not0_implies_Suc)
  then show ?case
  proof cases
    case (3 k)
    then show ?thesis using "1.IH" [of k] "1.prems" by (cases k) auto
  qed simp_all
qed simp_all

lemma merkle_levels_not_Nil [simp]: "merkle_levels xs \<noteq> []"
  by (simp add: merkle_levels.simps)

lemma merkle_levels_more:
  "1 < length xs \<Longrightarrow> merkle_levels xs = xs # merkle_levels (next_level xs)"
  by (simp add: merkle_levels.simps [of xs])

lemma merkle_levels_one: "\<not> 1 < length xs \<Longrightarrow> merkle_levels xs = [xs]"
  by (simp add: merkle_levels.simps [of xs])

lemma u64_step:
  fixes pos sz :: u64
  assumes "unat pos < unat sz"
  shows "pos mod 2 = 1 \<longleftrightarrow> unat pos mod 2 = 1" "pos + 1 < sz \<longleftrightarrow> unat pos + 1 < unat sz"
    "unat (pos div 2) = unat pos div 2" "unat (pos div 2) < unat (div_ceil2 sz)"
proof -
  have m: "unat (pos mod 2) = unat pos mod 2" by (simp add: unat_mod)
  show "pos mod 2 = 1 \<longleftrightarrow> unat pos mod 2 = 1"
    using m by (metis unsigned_1 unsigned_word_eqI)
  show d: "unat (pos div 2) = unat pos div 2" by (simp add: unat_div)
  have "unat sz < 2 ^ 64" using unsigned_less [of sz] by simp
  then have "unat (pos + 1) = unat pos + 1" using unat_add_lem [of pos 1] assms by simp
  then show "pos + 1 < sz \<longleftrightarrow> unat pos + 1 < unat sz" by (simp add: word_less_nat_alt)
  show "unat (pos div 2) < unat (div_ceil2 sz)" using assms by (simp add: d unat_div_ceil2)
qed

lemma verify_path_complete:
  assumes "unat sz = length lv" "unat pos < length lv"
  shows "verify_path (hd (last (merkle_levels lv))) (lv ! unat pos) pos sz
    (collect_siblings (unat pos) (butlast (merkle_levels lv)))"
  using assms
proof (induction lv arbitrary: pos sz rule: merkle_levels.induct)
  case (1 lv)
  show ?case
  proof (cases "1 < length lv")
    case True
    have p: "unat pos < unat sz" using "1.prems" by simp
    note st = u64_step [OF p]
    have big: "1 < sz" using True "1.prems"(1) by (simp add: word_less_nat_alt)
    have nx: "unat (div_ceil2 sz) = length (next_level lv)" using "1.prems"(1) by (simp add: unat_div_ceil2)
    have IH: "verify_path (hd (last (merkle_levels (next_level lv)))) (next_level lv ! (unat pos div 2)) (pos div 2)
        (div_ceil2 sz) (collect_siblings (unat pos div 2) (butlast (merkle_levels (next_level lv))))"
      using "1.IH" [OF True nx, of "pos div 2"] st(4) nx by (simp only: st(3))
    show ?thesis
      using IH "1.prems"(1) unfolding next_level_nth [OF "1.prems"(2)]
      by (subst verify_path.simps) (auto simp: merkle_levels_more [OF True] big st(1,2) split: if_splits)
  next
    case False
    then have len: "length lv = 1" using "1.prems"(2) by simp
    then have "\<not> 1 < sz" "unat pos = 0" using "1.prems" by (simp_all add: word_less_nat_alt)
    moreover have "lv \<noteq> []" using len by auto
    ultimately show ?thesis using False
      by (subst verify_path.simps) (simp add: merkle_levels_one hd_conv_nth)
  qed
qed

lemma inclusion_proof_verifies:
  assumes "audit_check k head pairs = Ok es" "length es < 2 ^ 64"
  shows "if unat index < length es
    then \<exists>p. inclusion_proof es index = Ok (es ! unat index, p, merkle_root_of (map (\<lambda>e. merkle_leaf (encode_audit e)) es))
      \<and> verify_inclusion (es ! unat index) p (merkle_root_of (map (\<lambda>e. merkle_leaf (encode_audit e)) es))
    else \<exists>msg. inclusion_proof es index = Err (Audit_error msg)"
proof (cases "unat index < length es")
  case True
  let ?lv = "map (\<lambda>e. merkle_leaf (encode_audit e)) es"
  let ?total = "word_of_nat (length es) :: u64"
  have tot: "unat ?total = length es" using assms(2) by (simp add: unat_of_nat)
  have c: "chained GENESIS_ROOT 0 es (snd head)" using assms(1) by (simp add: audit_check_exact)
  have seq: "ae_seq (es ! unat index) = index"
    using chained_nth [OF c True] by simp
  have root: "hd (last (merkle_levels ?lv)) = merkle_root_of ?lv" using True by (auto simp: merkle_root_of_def)
  have "verify_path (merkle_root_of ?lv) (?lv ! unat index) index ?total
      (collect_siblings (unat index) (butlast (merkle_levels ?lv)))"
    using verify_path_complete [of ?total ?lv index] tot True root by simp
  moreover have "index < ?total" using tot True by (simp add: word_less_nat_alt)
  ultimately show ?thesis
    using True root seq by (simp add: inclusion_proof_def Let_def verify_inclusion_def not_le)
qed (simp add: inclusion_proof_def)

definition ex_root :: bytes where
  "ex_root = merkle_root_of (map (\<lambda>e. merkle_leaf (encode_audit e)) [ex_entry0, ex_entry1])"

text \<open>
  For a verified chain (below \<open>2 ^ 64\<close> entries) every index in range yields a proof for the entry at
  that index, leading to the Merkle root of the whole chain, and the verifier accepts it; an index out
  of range yields an error.
\<close>

theorem inclusion_proof_complete:
  assumes "audit_check k head pairs = Ok es" "length es < 2 ^ 64"
  shows "if unat index < length es
    then \<exists>p. inclusion_proof es index = Ok (es ! unat index, p, merkle_root_of (map (\<lambda>e. merkle_leaf (encode_audit e)) es))
      \<and> verify_inclusion (es ! unat index) p (merkle_root_of (map (\<lambda>e. merkle_leaf (encode_audit e)) es))
    else \<exists>msg. inclusion_proof es index = Err (Audit_error msg)"
  using inclusion_proof_verifies [OF assms] .

theorem inclusion_proof_complete_witness:
  "\<exists>p. inclusion_proof [ex_entry0, ex_entry1] 1 = Ok (ex_entry1, p, ex_root) \<and> verify_inclusion ex_entry1 p ex_root"
  using inclusion_proof_complete [OF ex_check, of 1] by (simp add: ex_root_def)

section \<open>Merkle proofs: soundness\<close>

text \<open>The strings the tree's construction hashes, and those the verifier hashes.\<close>

fun level_inputs :: "bytes list \<Rightarrow> bytes list" where
  "level_inputs (a # b # rest) = node_input a b # level_inputs rest"
| "level_inputs _ = []"

definition tree_inputs :: "audit_entry list \<Rightarrow> bytes list" where
  "tree_inputs es =
    (if es = [] then [EMPTY_TREE]
     else map (\<lambda>e. leaf_input (encode_audit e)) es
       @ concat (map level_inputs (merkle_levels (map (\<lambda>e. merkle_leaf (encode_audit e)) es))))"

function path_inputs :: "bytes \<Rightarrow> u64 \<Rightarrow> u64 \<Rightarrow> bytes list \<Rightarrow> bytes list" where
  "path_inputs hash pos sz siblings =
    (if 1 < sz then
       if pos mod 2 = 1 then
         (case siblings of [] \<Rightarrow> []
          | sib # rest \<Rightarrow> node_input sib hash # path_inputs (merkle_node sib hash) (pos div 2) (div_ceil2 sz) rest)
       else if pos + 1 < sz then
         (case siblings of [] \<Rightarrow> []
          | sib # rest \<Rightarrow> node_input hash sib # path_inputs (merkle_node hash sib) (pos div 2) (div_ceil2 sz) rest)
       else path_inputs hash (pos div 2) (div_ceil2 sz) siblings
     else [])"
  by pat_completeness auto

termination
  by (relation "measure (\<lambda>(hash, pos, sz, siblings). unat sz)") (auto intro: div_ceil2_less)

declare path_inputs.simps [simp del]

definition verifier_inputs :: "audit_entry \<Rightarrow> merkle_proof \<Rightarrow> bytes list" where
  "verifier_inputs e p = leaf_input (encode_audit e)
    # path_inputs (merkle_leaf (encode_audit e)) (mp_index p) (mp_total p) (mp_siblings p)"

definition collide :: "bytes set \<Rightarrow> bytes set \<Rightarrow> bool" where
  "collide A B \<longleftrightarrow> (\<exists>a\<in>A. \<exists>b\<in>B. a \<noteq> b \<and> sha256 a = sha256 b)"

text \<open>A set of hash inputs in which the children of every node are hashes of inputs of the set.\<close>

definition closed_inputs :: "bytes set \<Rightarrow> bool" where
  "closed_inputs I \<longleftrightarrow> (\<forall>x\<in>I. (\<exists>y. x = leaf_input y) \<or> x = EMPTY_TREE
    \<or> (\<exists>l r. x = node_input l r \<and> length l = 32 \<and> length r = 32 \<and> l \<in> sha256 ` I \<and> r \<in> sha256 ` I))"

lemma input_kinds [simp]:
  "leaf_input x \<noteq> node_input l r" "node_input l r \<noteq> leaf_input x" "node_input l r \<noteq> EMPTY_TREE"
  "EMPTY_TREE \<noteq> node_input l r" "EMPTY_TREE \<noteq> leaf_input x" "leaf_input x \<noteq> EMPTY_TREE"
  by (auto simp: leaf_input_def node_input_def EMPTY_TREE_def as_bytes_def)

lemma node_known:
  assumes "closed_inputs I" "merkle_node a b \<in> sha256 ` I" "length a = 32 \<or> length b = 32"
  shows "(a \<in> sha256 ` I \<and> b \<in> sha256 ` I) \<or> collide {node_input a b} I"
proof -
  obtain x where x: "x \<in> I" "sha256 (node_input a b) = sha256 x"
    using assms(2) by (auto simp: merkle_node_def)
  show ?thesis
  proof (cases "x = node_input a b")
    case True
    with x(1) assms(1) obtain l r where "node_input a b = node_input l r" "length l = 32" "length r = 32"
      "l \<in> sha256 ` I" "r \<in> sha256 ` I" by (auto simp: closed_inputs_def)
    then show ?thesis using assms(3) by (auto simp: node_input_def append_eq_append_conv)
  next
    case False
    then show ?thesis using x by (auto simp: collide_def)
  qed
qed

lemma collide_mono: "collide A B \<Longrightarrow> A \<subseteq> A' \<Longrightarrow> collide A' B"
  by (auto simp: collide_def)

lemma length_merkle_node [simp]: "length (merkle_node a b) = 32"
  by (simp add: merkle_node_def)

lemma verify_path_descends:
  assumes "closed_inputs I" "root \<in> sha256 ` I" "verify_path root hash pos sz siblings" "length hash = 32"
  shows "hash \<in> sha256 ` I \<or> collide (set (path_inputs hash pos sz siblings)) I"
  using assms
proof (induction root hash pos sz siblings rule: verify_path.induct)
  case (1 root hash pos sz siblings)
  note vp = "1.prems"(3) [unfolded verify_path.simps [of root hash pos sz siblings]]
  show ?case
  proof (cases "1 < sz")
    case False
    then show ?thesis using vp "1.prems"(2) by simp
  next
    case big: True
    consider (odd) "pos mod 2 = 1" | (even) "pos mod 2 \<noteq> 1" "pos + 1 < sz" | (lone) "pos mod 2 \<noteq> 1" "\<not> pos + 1 < sz"
      by blast
    then show ?thesis
    proof cases
      case odd
      with big vp obtain sib rest where s: "siblings = sib # rest"
        and v: "verify_path root (merkle_node sib hash) (pos div 2) (div_ceil2 sz) rest"
        by (auto split: list.splits)
      from "1.IH"(1) [OF big odd s "1.prems"(1,2) v] node_known [OF "1.prems"(1), of sib hash] "1.prems"(4)
      show ?thesis using big odd s
        by (subst path_inputs.simps) (auto intro: collide_mono)
    next
      case even
      with big vp obtain sib rest where s: "siblings = sib # rest"
        and v: "verify_path root (merkle_node hash sib) (pos div 2) (div_ceil2 sz) rest"
        by (auto split: list.splits)
      from "1.IH"(2) [OF big even s "1.prems"(1,2) v] node_known [OF "1.prems"(1), of hash sib] "1.prems"(4)
      show ?thesis using big even s
        by (subst path_inputs.simps) (auto intro: collide_mono)
    next
      case lone
      with big vp have v: "verify_path root hash (pos div 2) (div_ceil2 sz) siblings" by simp
      from "1.IH"(3) [OF big lone "1.prems"(1,2) v "1.prems"(4)] show ?thesis
        using big lone by (subst path_inputs.simps) simp
    qed
  qed
qed

lemma level_inputs_children:
  "x \<in> set (level_inputs lv) \<Longrightarrow> \<exists>l r. x = node_input l r \<and> l \<in> set lv \<and> r \<in> set lv"
  by (induction lv rule: level_inputs.induct) auto

lemma next_level_hashes: "set (next_level lv) \<subseteq> set lv \<union> sha256 ` set (level_inputs lv)"
  by (induction lv rule: next_level.induct) (auto simp: merkle_node_def)

lemma levels_hashes:
  "set lv \<subseteq> sha256 ` A \<Longrightarrow> x \<in> set (merkle_levels lv) \<Longrightarrow>
    set x \<subseteq> sha256 ` (A \<union> set (concat (map level_inputs (merkle_levels lv))))"
proof (induction lv arbitrary: A rule: merkle_levels.induct)
  case (1 lv)
  show ?case
  proof (cases "1 < length lv")
    case True
    have sub: "set (next_level lv) \<subseteq> sha256 ` (A \<union> set (level_inputs lv))"
      using next_level_hashes [of lv] "1.prems"(1) by blast
    show ?thesis
    proof (cases "x \<in> set (merkle_levels (next_level lv))")
      case True
      from "1.IH" [OF \<open>1 < length lv\<close> sub True] show ?thesis
        by (simp add: merkle_levels_more [OF \<open>1 < length lv\<close>] Un_assoc)
    next
      case False
      then have "x = lv" using "1.prems"(2) by (simp add: merkle_levels_more [OF \<open>1 < length lv\<close>])
      then show ?thesis using "1.prems"(1) by blast
    qed
  next
    case False
    then show ?thesis using 1 by (auto simp: merkle_levels_one)
  qed
qed

lemma tree_inputs_closed: "closed_inputs (set (tree_inputs es))"
proof (cases "es = []")
  case False
  let ?lv = "map (\<lambda>e. merkle_leaf (encode_audit e)) es"
  let ?L = "set (map (\<lambda>e. leaf_input (encode_audit e)) es)"
  have I: "set (tree_inputs es) = ?L \<union> set (concat (map level_inputs (merkle_levels ?lv)))"
    using False by (simp add: tree_inputs_def)
  have "set ?lv \<subseteq> sha256 ` ?L" by (auto simp: merkle_leaf_def)
  note hashes = levels_hashes [OF this, folded I]
  show ?thesis unfolding closed_inputs_def
  proof
    fix x
    assume "x \<in> set (tree_inputs es)"
    then consider "x \<in> ?L" | lv where "lv \<in> set (merkle_levels ?lv)" "x \<in> set (level_inputs lv)"
      unfolding I by auto
    then show "(\<exists>y. x = leaf_input y) \<or> x = EMPTY_TREE \<or> (\<exists>l r. x = node_input l r \<and> length l = 32 \<and> length r = 32
      \<and> l \<in> sha256 ` set (tree_inputs es) \<and> r \<in> sha256 ` set (tree_inputs es))"
    proof cases
      case 1
      then show ?thesis by auto
    next
      case (2 lv)
      from level_inputs_children [OF 2(2)] obtain l r where lr: "x = node_input l r" "l \<in> set lv" "r \<in> set lv" by blast
      with hashes [OF 2(1)] have "l \<in> sha256 ` set (tree_inputs es)" "r \<in> sha256 ` set (tree_inputs es)" by auto
      moreover from this have "length l = 32" "length r = 32" by auto
      ultimately show ?thesis using lr(1) by blast
    qed
  qed
qed (simp add: tree_inputs_def closed_inputs_def)

lemma last_level: "lv \<noteq> [] \<Longrightarrow> last (merkle_levels lv) \<noteq> [] \<and> last (merkle_levels lv) \<in> set (merkle_levels lv)"
proof (induction lv rule: merkle_levels.induct)
  case (1 lv)
  show ?case
  proof (cases "1 < length lv")
    case True
    then have "next_level lv \<noteq> []" by (cases lv rule: next_level.cases) auto
    from "1.IH" [OF True this] show ?thesis by (simp add: merkle_levels_more [OF True])
  qed (use 1 in \<open>simp add: merkle_levels_one\<close>)
qed

lemma root_known:
  "merkle_root_of (map (\<lambda>e. merkle_leaf (encode_audit e)) es) \<in> sha256 ` set (tree_inputs es)"
proof (cases "es = []")
  case False
  let ?lv = "map (\<lambda>e. merkle_leaf (encode_audit e)) es"
  have "set ?lv \<subseteq> sha256 ` set (map (\<lambda>e. leaf_input (encode_audit e)) es)" by (auto simp: merkle_leaf_def)
  from levels_hashes [OF this] last_level [of ?lv] False
  have "set (last (merkle_levels ?lv)) \<subseteq> sha256 ` set (tree_inputs es)" by (simp add: tree_inputs_def)
  moreover have "hd (last (merkle_levels ?lv)) \<in> set (last (merkle_levels ?lv))"
    using last_level [of ?lv] False by simp
  ultimately show ?thesis using False by (auto simp: merkle_root_of_def)
qed (simp add: tree_inputs_def merkle_root_of_def)

lemma leaf_of_tree:
  "leaf_input y \<in> set (tree_inputs es) \<Longrightarrow> \<exists>e \<in> set es. y = encode_audit e"
proof -
  have inj: "leaf_input y = leaf_input z \<longleftrightarrow> y = z" for z by (simp add: leaf_input_def)
  assume "leaf_input y \<in> set (tree_inputs es)"
  then show ?thesis by (auto simp: tree_inputs_def inj split: if_splits dest!: level_inputs_children)
qed

lemma accepted_entry_in_tree:
  assumes "list_all audit_entry_ok es" "audit_entry_ok e"
    and "verify_inclusion e p (merkle_root_of (map (\<lambda>e. merkle_leaf (encode_audit e)) es))"
  shows "e \<in> set es \<or> collide (set (verifier_inputs e p)) (set (tree_inputs es))"
proof -
  let ?I = "set (tree_inputs es)"
  let ?h = "merkle_leaf (encode_audit e)"
  have v: "verify_path (merkle_root_of (map (\<lambda>e. merkle_leaf (encode_audit e)) es)) ?h (mp_index p) (mp_total p) (mp_siblings p)"
    using assms(3) by (auto simp: verify_inclusion_def split: if_splits)
  have "length ?h = 32" by (simp add: merkle_leaf_def)
  from verify_path_descends [OF tree_inputs_closed root_known v this]
  show ?thesis
  proof
    assume "?h \<in> sha256 ` ?I"
    then obtain x where x: "x \<in> ?I" "sha256 (leaf_input (encode_audit e)) = sha256 x"
      by (auto simp: merkle_leaf_def)
    show ?thesis
    proof (cases "x = leaf_input (encode_audit e)")
      case True
      with x(1) leaf_of_tree obtain f where "f \<in> set es" "encode_audit e = encode_audit f" by blast
      moreover have "audit_entry_ok f" using assms(1) \<open>f \<in> set es\<close> by (simp add: list_all_iff)
      ultimately show ?thesis using assms(2) by (simp add: encode_audit_inj)
    next
      case False
      then have "collide {leaf_input (encode_audit e)} ?I" using x unfolding collide_def by (intro bexI [of _ "leaf_input (encode_audit e)"] bexI [of _ x]) simp_all
      then show ?thesis by (intro disjI2, rule collide_mono) (simp add: verifier_inputs_def)
    qed
  next
    assume "collide (set (path_inputs ?h (mp_index p) (mp_total p) (mp_siblings p))) ?I"
    then show ?thesis by (intro disjI2, rule collide_mono) (auto simp: verifier_inputs_def)
  qed
qed

text \<open>
  C8: if the verifier accepts an entry and a proof (of any index, total and siblings) against the
  Merkle root of a log that passed \<open>audit_check\<close>, the proof's index lies below its total and the entry
  is the log's entry at exactly that index, or SHA-256 collides between a string the verifier hashed and
  one the tree's construction hashed. Leaves cannot be passed off as nodes, nor nodes as leaves, nor an
  entry as one of another position. The total the proof claims is not tied to the log's length.
\<close>

theorem inclusion_proof_sound:
  assumes "audit_check k head pairs = Ok es" "length es < 2 ^ 64" "audit_entry_ok e"
    and "verify_inclusion e p (merkle_root_of (map (\<lambda>e. merkle_leaf (encode_audit e)) es))"
  shows "mp_index p < mp_total p
    \<and> (unat (mp_index p) < length es \<and> es ! unat (mp_index p) = e
      \<or> collide (set (verifier_inputs e p)) (set (tree_inputs es)))"
proof -
  have c: "chained GENESIS_ROOT 0 es (snd head)" using assms(1) by (simp add: audit_check_exact)
  from accepted_entry_in_tree [OF chained_all_ok [OF c] assms(3,4)]
  have "unat (mp_index p) < length es \<and> es ! unat (mp_index p) = e
      \<or> collide (set (verifier_inputs e p)) (set (tree_inputs es))"
  proof
    assume "e \<in> set es"
    then obtain i where i: "i < length es" "es ! i = e" by (auto simp: in_set_conv_nth)
    have "mp_index p = word_of_nat i"
      using chained_nth [OF c i(1)] i(2) assms(4) by (simp add: verify_inclusion_def split: if_splits)
    then have "unat (mp_index p) = i"
      using i(1) assms(2) by (simp add: unat_of_nat)
    with i show ?thesis by simp
  qed simp
  then show ?thesis
    using assms(4) by (auto simp: verify_inclusion_def not_le split: if_splits)
qed

theorem inclusion_proof_sound_witness:
  "\<exists>p. verify_inclusion ex_entry1 p ex_root \<and> mp_index p < mp_total p \<and>
    (unat (mp_index p) < 2 \<and> [ex_entry0, ex_entry1] ! unat (mp_index p) = ex_entry1
      \<or> collide (set (verifier_inputs ex_entry1 p)) (set (tree_inputs [ex_entry0, ex_entry1])))"
proof -
  obtain p where p: "verify_inclusion ex_entry1 p ex_root"
    using inclusion_proof_verifies [OF ex_check, of 1] by (auto simp: ex_root_def)
  have "audit_entry_ok ex_entry1"
    using chained_all_ok [of GENESIS_ROOT 0 "[ex_entry0, ex_entry1]" "audit_root_of ex_entry1"] ex_check [of 0]
    by (auto simp: audit_check_exact)
  from inclusion_proof_sound [OF ex_check _ this p [unfolded ex_root_def]] p show ?thesis by auto
qed

end
