(* ===== verification/Blake2b.thy ===== *)
theory Blake2b
  imports Sha256
begin

text \<open>
  BLAKE2b of \<open>crates/ciphra-crypto/src/blake2b.rs\<close>: unkeyed, with a digest of 1 to 64 bytes. The streaming
  hasher keeps a full buffer until more input arrives, since the last block is compressed differently;
  it is proved equal to RFC 7693's loop over the padded message blocks.
\<close>

section \<open>The hasher\<close>

definition blake_IV :: "u64 list" where
  "blake_IV = [0x6a09e667f3bcc908, 0xbb67ae8584caa73b, 0x3c6ef372fe94f82b, 0xa54ff53a5f1d36f1,
    0x510e527fade682d1, 0x9b05688c2b3e6c1f, 0x1f83d9abfb41bd6b, 0x5be0cd19137e2179]"

definition blake_SIGMA :: "nat list list" where
  "blake_SIGMA = [
    [0, 1, 2, 3, 4, 5, 6, 7, 8, 9, 10, 11, 12, 13, 14, 15],
    [14, 10, 4, 8, 9, 15, 13, 6, 1, 12, 0, 2, 11, 7, 5, 3],
    [11, 8, 12, 0, 5, 2, 15, 13, 10, 14, 3, 6, 7, 1, 9, 4],
    [7, 9, 3, 1, 13, 12, 11, 14, 2, 6, 5, 10, 4, 0, 15, 8],
    [9, 0, 5, 7, 2, 4, 10, 15, 14, 1, 11, 12, 6, 8, 3, 13],
    [2, 12, 6, 10, 0, 11, 8, 3, 4, 13, 7, 5, 15, 14, 1, 9],
    [12, 5, 1, 15, 14, 13, 4, 10, 0, 7, 6, 3, 9, 2, 8, 11],
    [13, 11, 7, 14, 12, 1, 3, 9, 5, 0, 15, 4, 8, 6, 2, 10],
    [6, 15, 14, 9, 11, 3, 0, 8, 12, 2, 13, 7, 1, 4, 10, 5],
    [10, 2, 8, 4, 7, 6, 1, 5, 15, 11, 9, 14, 3, 12, 13, 0]]"

record blake2b_state =
  bl_h :: "u64 list"
  bl_t :: "128 word"
  bl_buffer :: bytes
  bl_buffered :: nat
  bl_out_len :: nat

text \<open>\<open>new\<close> asserts the digest length; \<open>None\<close> is the failed assertion.\<close>

definition blake2b_new :: "nat \<Rightarrow> blake2b_state option" where
  "blake2b_new out_len =
    (if \<not> (1 \<le> out_len \<and> out_len \<le> 64) then None
     else Some \<lparr>bl_h = blake_IV[0 := blake_IV ! 0 XOR (0x01010000 XOR word_of_nat out_len)],
       bl_t = 0, bl_buffer = replicate 128 0, bl_buffered = 0, bl_out_len = out_len\<rparr>)"

definition blake_g :: "nat \<Rightarrow> nat \<Rightarrow> nat \<Rightarrow> nat \<Rightarrow> u64 \<Rightarrow> u64 \<Rightarrow> u64 list \<Rightarrow> u64 list" where
  "blake_g a b c d x y v0 =
    (let v1 = v0[a := v0 ! a + v0 ! b + x];
         v2 = v1[d := word_rotr 32 (v1 ! d XOR v1 ! a)];
         v3 = v2[c := v2 ! c + v2 ! d];
         v4 = v3[b := word_rotr 24 (v3 ! b XOR v3 ! c)];
         v5 = v4[a := v4 ! a + v4 ! b + y];
         v6 = v5[d := word_rotr 16 (v5 ! d XOR v5 ! a)];
         v7 = v6[c := v6 ! c + v6 ! d]
     in v7[b := word_rotr 63 (v7 ! b XOR v7 ! c)])"

definition blake_round :: "u64 list \<Rightarrow> u64 list \<Rightarrow> nat \<Rightarrow> u64 list" where
  "blake_round m v r =
    (let s = blake_SIGMA ! (r mod 10) in
     blake_g 3 4 9 14 (m ! (s ! 14)) (m ! (s ! 15)) (blake_g 2 7 8 13 (m ! (s ! 12)) (m ! (s ! 13))
      (blake_g 1 6 11 12 (m ! (s ! 10)) (m ! (s ! 11)) (blake_g 0 5 10 15 (m ! (s ! 8)) (m ! (s ! 9))
       (blake_g 3 7 11 15 (m ! (s ! 6)) (m ! (s ! 7)) (blake_g 2 6 10 14 (m ! (s ! 4)) (m ! (s ! 5))
        (blake_g 1 5 9 13 (m ! (s ! 2)) (m ! (s ! 3)) (blake_g 0 4 8 12 (m ! (s ! 0)) (m ! (s ! 1)) v))))))))"

definition load_u64s :: "nat \<Rightarrow> bytes \<Rightarrow> u64 list" where
  "load_u64s n bs = map (\<lambda>i. word_of_nat (le_nat (take 8 (drop (8 * i) bs)))) [0..<n]"

definition blake_compress :: "u64 list \<Rightarrow> 128 word \<Rightarrow> bytes \<Rightarrow> bool \<Rightarrow> u64 list" where
  "blake_compress h t block final =
    (let m = load_u64s 16 block;
         v0 = h @ blake_IV;
         v1 = v0[12 := v0 ! 12 XOR ucast t];
         v2 = v1[13 := v1 ! 13 XOR ucast (drop_bit 64 t)];
         v3 = (if final then v2[14 := NOT (v2 ! 14)] else v2);
         v = foldl (blake_round m) v3 [0..<12]
     in map (\<lambda>i. h ! i XOR (v ! i XOR v ! (i + 8))) [0..<8])"

text \<open>
  The loop of \<open>update\<close>. The test \<open>n = 0\<close> only fires for a buffer fill above 128, which no hasher state
  has (\<open>128 - self.buffered\<close> would underflow).
\<close>

function blake2b_update :: "blake2b_state \<Rightarrow> bytes \<Rightarrow> blake2b_state" where
  "blake2b_update s data =
    (if data = [] then s
     else
       let s1 = (if bl_buffered s = 128
                 then s\<lparr>bl_t := bl_t s + 128, bl_h := blake_compress (bl_h s) (bl_t s + 128) (bl_buffer s) False,
                        bl_buffered := 0\<rparr>
                 else s);
           n = min (128 - bl_buffered s1) (length data)
       in if n = 0 then s1
          else blake2b_update (s1\<lparr>bl_buffer := copy_at (bl_buffer s1) (bl_buffered s1) (take n data),
                 bl_buffered := bl_buffered s1 + n\<rparr>) (drop n data))"
  by pat_completeness auto

termination by (relation "measure (\<lambda>(s, data). length data)") auto

declare blake2b_update.simps [simp del]

definition blake2b_finalize :: "blake2b_state \<Rightarrow> bytes" where
  "blake2b_finalize s =
    (let t = bl_t s + word_of_nat (bl_buffered s);
         block = take (bl_buffered s) (bl_buffer s) @ replicate (length (bl_buffer s) - bl_buffered s) 0;
         h = blake_compress (bl_h s) t block True
     in take (bl_out_len s) (concat (map (\<lambda>w. le_bytes 8 (unat w)) h)))"

definition blake2b :: "nat \<Rightarrow> bytes \<Rightarrow> bytes option" where
  "blake2b out_len data = map_option (\<lambda>hasher. blake2b_finalize (blake2b_update hasher data)) (blake2b_new out_len)"

section \<open>RFC 7693\<close>

text \<open>All blocks but the last, with the byte counter of each; then the zero-padded last block.\<close>

fun rfc_blake_blocks :: "u64 list \<Rightarrow> nat \<Rightarrow> bytes \<Rightarrow> nat \<Rightarrow> u64 list" where
  "rfc_blake_blocks h t m 0 = h"
| "rfc_blake_blocks h t m (Suc k) =
    rfc_blake_blocks (blake_compress h (word_of_nat (t + 128)) (take 128 m) False) (t + 128) (drop 128 m) k"

definition last_block :: "bytes \<Rightarrow> nat" where
  "last_block m = (length m - 1) div 128"

definition blake_h0 :: "nat \<Rightarrow> u64 list" where
  "blake_h0 out_len = blake_IV[0 := blake_IV ! 0 XOR (0x01010000 XOR word_of_nat out_len)]"

definition rfc_blake2b :: "nat \<Rightarrow> bytes \<Rightarrow> bytes" where
  "rfc_blake2b out_len m =
    (let k = last_block m;
         h = rfc_blake_blocks (blake_h0 out_len) 0 m k;
         rest = drop (128 * k) m;
         h' = blake_compress h (word_of_nat (length m)) (rest @ replicate (128 - length rest) 0) True
     in take out_len (concat (map (\<lambda>w. le_bytes 8 (unat w)) h')))"

section \<open>Streaming equals the RFC\<close>

lemma rfc_blake_blocks_snoc:
  "rfc_blake_blocks h t m (Suc k) =
    blake_compress (rfc_blake_blocks h t m k) (word_of_nat (t + 128 * Suc k)) (take 128 (drop (128 * k) m)) False"
proof (induction k arbitrary: h t m)
  case (Suc k)
  have "rfc_blake_blocks h t m (Suc (Suc k))
      = rfc_blake_blocks (blake_compress h (word_of_nat (t + 128)) (take 128 m) False) (t + 128) (drop 128 m) (Suc k)"
    by simp
  also have "\<dots> = blake_compress (rfc_blake_blocks h t m (Suc k)) (word_of_nat (t + 128 * Suc (Suc k)))
      (take 128 (drop (128 * Suc k) m)) False"
    by (subst Suc.IH) (simp add: add.assoc add.commute)
  finally show ?case .
qed simp

lemma rfc_blake_blocks_append:
  "128 * k \<le> length m \<Longrightarrow> rfc_blake_blocks h t (m @ d) k = rfc_blake_blocks h t m k"
  by (induction k arbitrary: h t m) auto

text \<open>The hasher has absorbed \<open>m\<close>.\<close>

definition blake_absorbed :: "nat \<Rightarrow> blake2b_state \<Rightarrow> bytes \<Rightarrow> bool" where
  "blake_absorbed n s m \<longleftrightarrow> bl_out_len s = n \<and> length (bl_buffer s) = 128 \<and> bl_buffered s \<le> 128
    \<and> (\<exists>k. length m = 128 * k + bl_buffered s \<and> (bl_buffered s = 0 \<longrightarrow> m = [])
        \<and> bl_h s = rfc_blake_blocks (blake_h0 n) 0 m k \<and> bl_t s = word_of_nat (128 * k)
        \<and> take (bl_buffered s) (bl_buffer s) = drop (128 * k) m)"

lemma blake_absorbed_new: "blake2b_new n = Some s \<Longrightarrow> blake_absorbed n s []"
  by (auto simp: blake2b_new_def blake_absorbed_def blake_h0_def split: if_splits)

text \<open>Filling a buffer that has room, and flushing a full one.\<close>

lemma blake_absorbed_fill:
  assumes "length (bl_buffer s) = 128" "length m = 128 * k + bl_buffered s"
    and "bl_h s = rfc_blake_blocks (blake_h0 n) 0 m k" "bl_t s = word_of_nat (128 * k)"
    and "take (bl_buffered s) (bl_buffer s) = drop (128 * k) m" "bl_out_len s = n"
    and "bl_buffered s + length d \<le> 128" "d \<noteq> []"
  shows "blake_absorbed n (s\<lparr>bl_buffer := copy_at (bl_buffer s) (bl_buffered s) d,
    bl_buffered := bl_buffered s + length d\<rparr>) (m @ d)"
proof -
  have "take (bl_buffered s + length d) (copy_at (bl_buffer s) (bl_buffered s) d) = drop (128 * k) (m @ d)"
    using assms by (simp add: take_copy_at)
  moreover have "rfc_blake_blocks (blake_h0 n) 0 (m @ d) k = rfc_blake_blocks (blake_h0 n) 0 m k"
    using assms(2) by (intro rfc_blake_blocks_append) simp
  ultimately show ?thesis using assms by (auto simp: blake_absorbed_def intro!: exI [of _ k])
qed

lemma blake_absorbed_update: "blake_absorbed n s m \<Longrightarrow> blake_absorbed n (blake2b_update s d) (m @ d)"
proof (induction s d arbitrary: m rule: blake2b_update.induct)
  case (1 s data)
  show ?case
  proof (cases "data = []")
    case True
    then show ?thesis using "1.prems" by (simp add: blake2b_update.simps)
  next
    case ne: False
    from "1.prems" obtain k where st: "bl_out_len s = n" "length (bl_buffer s) = 128" "bl_buffered s \<le> 128"
      "length m = 128 * k + bl_buffered s" "bl_h s = rfc_blake_blocks (blake_h0 n) 0 m k"
      "bl_t s = word_of_nat (128 * k)" "take (bl_buffered s) (bl_buffer s) = drop (128 * k) m"
      unfolding blake_absorbed_def by blast
    define s1 where "s1 = (if bl_buffered s = 128
      then s\<lparr>bl_t := bl_t s + 128, bl_h := blake_compress (bl_h s) (bl_t s + 128) (bl_buffer s) False, bl_buffered := 0\<rparr>
      else s)"
    define c where "c = min (128 - bl_buffered s1) (length data)"
    obtain k' where s1: "bl_out_len s1 = n" "length (bl_buffer s1) = 128" "bl_buffered s1 < 128"
      "length m = 128 * k' + bl_buffered s1" "bl_h s1 = rfc_blake_blocks (blake_h0 n) 0 m k'"
      "bl_t s1 = word_of_nat (128 * k')" "take (bl_buffered s1) (bl_buffer s1) = drop (128 * k') m"
    proof (cases "bl_buffered s = 128")
      case True
      have "bl_buffer s = take 128 (drop (128 * k) m)" using st True by simp
      then have "blake_compress (bl_h s) (bl_t s + 128) (bl_buffer s) False = rfc_blake_blocks (blake_h0 n) 0 m (Suc k)"
        using st by (simp only: rfc_blake_blocks_snoc) (simp add: algebra_simps)
      moreover have "bl_t s + 128 = word_of_nat (128 * Suc k)" using st by simp
      ultimately show ?thesis using st True by (intro that [of "Suc k"]) (simp_all add: s1_def)
    next
      case False
      then show ?thesis using st by (intro that [of k]) (simp_all add: s1_def)
    qed
    have c: "0 < c" "c \<le> length data" "bl_buffered s1 + c \<le> 128" using s1(3) ne by (auto simp: c_def)
    define s2 where "s2 = s1\<lparr>bl_buffer := copy_at (bl_buffer s1) (bl_buffered s1) (take c data),
      bl_buffered := bl_buffered s1 + c\<rparr>"
    have upd: "blake2b_update s data = blake2b_update s2 (drop c data)"
      using ne c by (subst blake2b_update.simps) (simp add: Let_def s2_def flip: s1_def c_def)
    have "length (take c data) = c" "take c data \<noteq> []" using c ne by auto
    then have "blake_absorbed n s2 (m @ take c data)"
      using blake_absorbed_fill [OF s1(2,4,5,6,7,1), of "take c data"] c by (simp add: s2_def)
    from "1.IH" [OF ne s1_def c_def _ this [unfolded s2_def]] c
    show ?thesis by (simp add: upd s2_def)
  qed
qed

lemma blake_absorbed_updates: "blake_absorbed n s m \<Longrightarrow> blake_absorbed n (foldl blake2b_update s ds) (m @ concat ds)"
proof (induction ds arbitrary: s m)
  case (Cons d ds)
  from Cons.IH [OF blake_absorbed_update [OF Cons.prems, of d]] show ?case by simp
qed simp

lemma blake_finalize_absorbed:
  assumes "blake_absorbed n s m"
  shows "blake2b_finalize s = rfc_blake2b n m"
proof -
  from assms obtain k where st: "bl_out_len s = n" "length (bl_buffer s) = 128" "bl_buffered s \<le> 128"
    "length m = 128 * k + bl_buffered s" "bl_buffered s = 0 \<longrightarrow> m = []" "bl_h s = rfc_blake_blocks (blake_h0 n) 0 m k"
    "bl_t s = word_of_nat (128 * k)" "take (bl_buffered s) (bl_buffer s) = drop (128 * k) m"
    unfolding blake_absorbed_def by (elim conjE exE)
  have k: "last_block m = k"
  proof (cases "bl_buffered s = 0")
    case True
    then have "m = []" "k = 0" using st(4,5) by simp_all
    then show ?thesis by (simp add: last_block_def)
  next
    case False
    then obtain b where "bl_buffered s = Suc b" by (cases "bl_buffered s") auto
    then have "length m - 1 = 128 * k + b" "b < 128" using st(3,4) by simp_all
    then show ?thesis by (simp add: last_block_def)
  qed
  have "bl_t s + word_of_nat (bl_buffered s) = word_of_nat (length m)" unfolding st(4,7) of_nat_add ..
  moreover have "length (drop (128 * k) m) = bl_buffered s" using st(4) by simp
  ultimately show ?thesis
    unfolding blake2b_finalize_def rfc_blake2b_def k Let_def by (simp only: st(1,2,6,8))
qed

lemma blake2b_rfc: "1 \<le> n \<Longrightarrow> n \<le> 64 \<Longrightarrow> blake2b n m = Some (rfc_blake2b n m)"
proof -
  assume "1 \<le> n" "n \<le> 64"
  then obtain s where s: "blake2b_new n = Some s" by (simp add: blake2b_new_def)
  from blake_absorbed_update [OF blake_absorbed_new [OF s], of m] have "blake_absorbed n (blake2b_update s m) m" by simp
  from blake_finalize_absorbed [OF this] s show ?thesis by (simp add: blake2b_def)
qed

lemma length_blake_digest: "n \<le> 64 \<Longrightarrow> length (rfc_blake2b n m) = n"
  by (simp add: rfc_blake2b_def Let_def blake_compress_def length_concat comp_def sum_list_replicate
      map_replicate_const del: upt_rec_numeral)

text \<open>
  However a message is split over calls of \<open>update\<close>, the digest (1 to 64 bytes) is that of RFC 7693
  for the whole message: full blocks with their byte counters, the last block zero-padded and marked
  final, also when the message is empty or ends on a block boundary.
\<close>

theorem blake2b_streaming_correct:
  assumes "blake2b_new n = Some s"
  shows "blake2b_finalize (foldl blake2b_update s ds) = rfc_blake2b n (concat ds)
    \<and> blake2b n (concat ds) = Some (rfc_blake2b n (concat ds)) \<and> length (rfc_blake2b n (concat ds)) = n"
proof -
  have "1 \<le> n" "n \<le> 64" using assms by (auto simp: blake2b_new_def split: if_splits)
  moreover have "blake_absorbed n (foldl blake2b_update s ds) (concat ds)"
    using blake_absorbed_updates [OF blake_absorbed_new [OF assms]] by simp
  ultimately show ?thesis
    using blake_finalize_absorbed blake2b_rfc length_blake_digest by blast
qed

theorem blake2b_streaming_correct_witness:
  "blake2b_finalize (foldl blake2b_update (the (blake2b_new 64)) [[97], [98, 99]]) = rfc_blake2b 64 [97, 98, 99]"
  using blake2b_streaming_correct [of 64 "the (blake2b_new 64)" "[[97], [98, 99]]"] by (simp add: blake2b_new_def)

end
