(* ===== verification/Argon2.thy ===== *)
theory Argon2
  imports Blake2b "HOL-Library.Monad_Syntax"
begin

text \<open>
  Argon2id of \<open>crates/ciphra-crypto/src/argon2.rs\<close>. Everything that can panic in the code is \<open>None\<close>
  here: a failed assertion, a subtraction below zero on \<open>usize\<close>, an index beyond the memory, a block
  or a digest of the wrong length. The theorem at the end says that none of it happens.
\<close>

section \<open>Checked operations\<close>

definition sub_checked :: "nat \<Rightarrow> nat \<Rightarrow> nat option" where
  "sub_checked a b = (if b \<le> a then Some (a - b) else None)"

definition get_checked :: "'a list \<Rightarrow> nat \<Rightarrow> 'a option" where
  "get_checked xs i = (if i < length xs then Some (xs ! i) else None)"

definition set_checked :: "'a list \<Rightarrow> nat \<Rightarrow> 'a \<Rightarrow> 'a list option" where
  "set_checked xs i x = (if i < length xs then Some (xs[i := x]) else None)"

fun fold_opt :: "('a \<Rightarrow> 's \<Rightarrow> 's option) \<Rightarrow> 'a list \<Rightarrow> 's \<Rightarrow> 's option" where
  "fold_opt f [] s = Some s"
| "fold_opt f (x # xs) s = Option.bind (f x s) (fold_opt f xs)"

section \<open>The code\<close>

type_synonym arblock = "u64 list"

definition ARGON_VERSION :: u32 where "ARGON_VERSION = 0x13"
definition ARGON2ID :: u32 where "ARGON2ID = 2"
definition BLOCK_WORDS :: nat where "BLOCK_WORDS = 128"
definition SYNC_POINTS :: nat where "SYNC_POINTS = 4"
definition ADDRESSES_PER_BLOCK :: nat where "ADDRESSES_PER_BLOCK = 128"

definition ZERO_BLOCK :: arblock where "ZERO_BLOCK = replicate BLOCK_WORDS 0"

definition blamka_mix :: "u64 \<Rightarrow> u64 \<Rightarrow> u64" where
  "blamka_mix x y = (let lo = (x AND mask 32) * (y AND mask 32) in x + y + lo * 2)"

definition blamka :: "nat \<Rightarrow> nat \<Rightarrow> nat \<Rightarrow> nat \<Rightarrow> u64 list \<Rightarrow> u64 list" where
  "blamka a b c d v0 =
    (let v1 = v0[a := blamka_mix (v0 ! a) (v0 ! b)];
         v2 = v1[d := word_rotr 32 (v1 ! d XOR v1 ! a)];
         v3 = v2[c := blamka_mix (v2 ! c) (v2 ! d)];
         v4 = v3[b := word_rotr 24 (v3 ! b XOR v3 ! c)];
         v5 = v4[a := blamka_mix (v4 ! a) (v4 ! b)];
         v6 = v5[d := word_rotr 16 (v5 ! d XOR v5 ! a)];
         v7 = v6[c := blamka_mix (v6 ! c) (v6 ! d)]
     in v7[b := word_rotr 63 (v7 ! b XOR v7 ! c)])"

definition permute :: "u64 list \<Rightarrow> u64 list" where
  "permute v = blamka 3 4 9 14 (blamka 2 7 8 13 (blamka 1 6 11 12 (blamka 0 5 10 15
    (blamka 3 7 11 15 (blamka 2 6 10 14 (blamka 1 5 9 13 (blamka 0 4 8 12 v)))))))"

definition permute_row :: "arblock \<Rightarrow> nat \<Rightarrow> arblock" where
  "permute_row q row = copy_at q (row * 16) (permute (take 16 (drop (row * 16) q)))"

definition permute_col :: "arblock \<Rightarrow> nat \<Rightarrow> arblock" where
  "permute_col q col =
    (let ws = permute (concat (map (\<lambda>i. [q ! (16 * i + 2 * col), q ! (16 * i + 2 * col + 1)]) [0..<8])) in
     foldl (\<lambda>q i. q[16 * i + 2 * col := ws ! (2 * i), 16 * i + 2 * col + 1 := ws ! (2 * i + 1)]) q [0..<8])"

definition argon_compress :: "arblock \<Rightarrow> arblock \<Rightarrow> arblock" where
  "argon_compress x y =
    (let r = map2 (XOR) x y;
         q = foldl permute_col (foldl permute_row r [0..<8]) [0..<8]
     in map2 (XOR) q r)"

definition next_addresses :: "arblock \<Rightarrow> arblock \<times> arblock" where
  "next_addresses input_block =
    (let input' = input_block[6 := input_block ! 6 + 1];
         inner = argon_compress ZERO_BLOCK input'
     in (argon_compress ZERO_BLOCK inner, input'))"

text \<open>The reference area of RFC 9106, with the code's subtractions.\<close>

definition reference_area :: "nat \<Rightarrow> nat \<Rightarrow> nat \<Rightarrow> nat \<Rightarrow> nat \<Rightarrow> bool \<Rightarrow> nat option" where
  "reference_area pass slc index lane_length segment_length same_lane =
    (let column = slc * segment_length + index in
     if pass = 0 then
       if same_lane then sub_checked column 1
       else sub_checked (slc * segment_length) (if index = 0 then 1 else 0)
     else if same_lane then
       do { a \<leftarrow> sub_checked lane_length segment_length; sub_checked (a + index) 1 }
     else
       do { a \<leftarrow> sub_checked lane_length segment_length; sub_checked a (if index = 0 then 1 else 0) })"

definition reference_column :: "nat \<Rightarrow> nat \<Rightarrow> nat \<Rightarrow> nat \<Rightarrow> nat \<Rightarrow> u64 \<Rightarrow> nat option" where
  "reference_column pass slc lane_length segment_length area j1 =
    (let x = drop_bit 32 (j1 * j1);
         y = drop_bit 32 (word_of_nat area * x)
     in do {
       a \<leftarrow> sub_checked area 1;
       zz \<leftarrow> sub_checked a (unat y);
       let start = (if pass = 0 then 0 else (slc + 1) * segment_length mod lane_length);
       Some ((start + zz) mod lane_length)
     })"

text \<open>One iteration of the loop of \<open>fill_segment\<close>; the state is memory, address block and input block.\<close>

type_synonym fill_state = "arblock list \<times> arblock \<times> arblock"

definition fill_index ::
  "nat \<Rightarrow> nat \<Rightarrow> nat \<Rightarrow> nat \<Rightarrow> nat \<Rightarrow> nat \<Rightarrow> nat \<Rightarrow> fill_state \<Rightarrow> fill_state option" where
  "fill_index pass lane slc lanes lane_length segment_length index st =
    (case st of (memory, address_block, input_block) \<Rightarrow>
     let independent = (pass = 0 \<and> slc < 2);
         column = slc * segment_length + index in
     do {
       prev_column \<leftarrow> (if column = 0 then sub_checked lane_length 1 else Some (column - 1));
       prev \<leftarrow> get_checked memory (lane * lane_length + prev_column);
       let (address_block', input_block') =
         (if independent \<and> index mod ADDRESSES_PER_BLOCK = 0 then next_addresses input_block
          else (address_block, input_block));
       pseudo_rand \<leftarrow> (if independent then get_checked address_block' (index mod ADDRESSES_PER_BLOCK)
                        else get_checked prev 0);
       let j1 = pseudo_rand AND mask 32;
       let j2 = unat (drop_bit 32 pseudo_rand);
       let ref_lane = (if pass = 0 \<and> slc = 0 then lane else j2 mod lanes);
       area \<leftarrow> reference_area pass slc index lane_length segment_length (ref_lane = lane);
       ref_column \<leftarrow> reference_column pass slc lane_length segment_length area j1;
       reference \<leftarrow> get_checked memory (ref_lane * lane_length + ref_column);
       let target = lane * lane_length + column;
       let mixed = argon_compress prev reference;
       old \<leftarrow> get_checked memory target;
       memory' \<leftarrow> set_checked memory target (if pass = 0 then mixed else map2 (XOR) old mixed);
       Some (memory', address_block', input_block')
     })"

definition fill_segment ::
  "nat \<Rightarrow> nat \<Rightarrow> nat \<Rightarrow> nat \<Rightarrow> nat \<Rightarrow> nat \<Rightarrow> u32 \<Rightarrow> arblock list \<Rightarrow> arblock list option" where
  "fill_segment pass lane slc lanes lane_length segment_length passes memory =
    (let independent = (pass = 0 \<and> slc < 2);
         input_block =
           (if independent
            then ZERO_BLOCK[0 := word_of_nat pass, 1 := word_of_nat lane, 2 := word_of_nat slc,
              3 := word_of_nat (length memory), 4 := ucast passes, 5 := ucast ARGON2ID]
            else ZERO_BLOCK);
         (starting_index, address_block, input_block') =
           (if pass = 0 \<and> slc = 0 then
              if independent then (2, next_addresses input_block) else (2, ZERO_BLOCK, input_block)
            else (0, ZERO_BLOCK, input_block))
     in map_option fst
       (fold_opt (fill_index pass lane slc lanes lane_length segment_length) [starting_index..<segment_length]
         (memory, address_block, input_block')))"

text \<open>\<open>H'\<close>: the loop is entered with \<open>written\<close> bytes done and the current digest \<open>v\<close>.\<close>

function h_prime_loop :: "nat \<Rightarrow> nat \<Rightarrow> bytes \<Rightarrow> bytes option" where
  "h_prime_loop t written v =
    (if 64 < t - written then
       do { v' \<leftarrow> blake2b 64 v; rest \<leftarrow> h_prime_loop t (written + 32) v'; Some (take 32 v' @ rest) }
     else blake2b (t - written) v)"
  by pat_completeness auto

termination by (relation "measure (\<lambda>(t, written, v). t - written)") auto

declare h_prime_loop.simps [simp del]

definition h_prime :: "nat \<Rightarrow> bytes \<Rightarrow> bytes option" where
  "h_prime t input =
    (let prefixed = le_bytes 4 t @ input in
     if t \<le> 64 then blake2b t prefixed
     else do { v \<leftarrow> blake2b 64 prefixed; rest \<leftarrow> h_prime_loop t 32 v; Some (take 32 v @ rest) })"

definition block_from_bytes :: "bytes \<Rightarrow> arblock" where
  "block_from_bytes bs = load_u64s BLOCK_WORDS bs"

definition argon_h0 ::
  "bytes \<Rightarrow> bytes \<Rightarrow> bytes \<Rightarrow> bytes \<Rightarrow> u32 \<Rightarrow> u32 \<Rightarrow> u32 \<Rightarrow> nat \<Rightarrow> bytes option" where
  "argon_h0 password salt secret associated memory_kib passes lanes out_len =
    blake2b 64
      (concat (map (\<lambda>w. le_bytes 4 (unat w)) [lanes, word_of_nat out_len, memory_kib, passes, ARGON_VERSION, ARGON2ID])
       @ concat (map (\<lambda>d. le_bytes 4 (length d) @ d) [password, salt, secret, associated]))"

definition seed_memory :: "bytes \<Rightarrow> nat \<Rightarrow> nat \<Rightarrow> arblock list \<Rightarrow> arblock list option" where
  "seed_memory h0 lanes lane_length memory =
    fold_opt (\<lambda>(lane, col) m.
        do { bs \<leftarrow> h_prime 1024 (h0 @ le_bytes 4 col @ le_bytes 4 lane);
             set_checked m (lane * lane_length + col) (block_from_bytes bs) })
      (concat (map (\<lambda>lane. [(lane, 0), (lane, 1)]) [0..<lanes])) memory"

definition fill_memory :: "nat \<Rightarrow> nat \<Rightarrow> nat \<Rightarrow> u32 \<Rightarrow> arblock list \<Rightarrow> arblock list option" where
  "fill_memory lanes lane_length segment_length passes memory =
    fold_opt (\<lambda>(pass, slc, lane). fill_segment pass lane slc lanes lane_length segment_length passes)
      (concat (map (\<lambda>pass. concat (map (\<lambda>slc. map (\<lambda>lane. (pass, slc, lane)) [0..<lanes]) [0..<SYNC_POINTS]))
        [0..<unat passes])) memory"

definition argon2id_full ::
  "bytes \<Rightarrow> bytes \<Rightarrow> bytes \<Rightarrow> bytes \<Rightarrow> u32 \<Rightarrow> u32 \<Rightarrow> u32 \<Rightarrow> nat \<Rightarrow> bytes option" where
  "argon2id_full password salt secret associated memory_kib passes lanes32 out_len =
    (if lanes32 < 1 \<or> passes < 1 \<or> out_len = 0 then None
     else
       let lanes = unat lanes32;
           blocks = max (unat memory_kib) (8 * lanes);
           memory_blocks = (blocks div (SYNC_POINTS * lanes)) * (SYNC_POINTS * lanes);
           lane_length = memory_blocks div lanes;
           segment_length = lane_length div SYNC_POINTS
       in do {
         h0 \<leftarrow> argon_h0 password salt secret associated memory_kib passes lanes32 out_len;
         memory0 \<leftarrow> seed_memory h0 lanes lane_length (replicate memory_blocks ZERO_BLOCK);
         memory \<leftarrow> fill_memory lanes lane_length segment_length passes memory0;
         last_column \<leftarrow> sub_checked lane_length 1;
         first_final \<leftarrow> get_checked memory last_column;
         final_block \<leftarrow> fold_opt (\<lambda>lane acc.
             do { b \<leftarrow> get_checked memory (lane * lane_length + lane_length - 1); Some (map2 (XOR) acc b) })
           [1..<lanes] first_final;
         h_prime out_len (concat (map (\<lambda>w. le_bytes 8 (unat w)) final_block))
       })"

definition argon2id :: "bytes \<Rightarrow> bytes \<Rightarrow> u32 \<Rightarrow> u32 \<Rightarrow> u32 \<Rightarrow> nat \<Rightarrow> bytes option" where
  "argon2id password salt memory_kib passes lanes out_len =
    argon2id_full password salt [] [] memory_kib passes lanes out_len"

section \<open>Nothing panics\<close>

lemma bind_ex: "\<exists>x. m = Some x \<and> P x \<Longrightarrow> (\<And>x. P x \<Longrightarrow> \<exists>y. f x = Some y \<and> Q y) \<Longrightarrow> \<exists>y. Option.bind m f = Some y \<and> Q y"
  by auto

lemma fold_opt_inv:
  assumes "\<And>x s. x \<in> set xs \<Longrightarrow> I s \<Longrightarrow> \<exists>s'. f x s = Some s' \<and> I s'" "I s"
  shows "\<exists>s'. fold_opt f xs s = Some s' \<and> I s'"
  using assms by (induction xs arbitrary: s) (auto intro!: bind_ex [where P = I])

definition is_block :: "arblock \<Rightarrow> bool" where
  "is_block b \<longleftrightarrow> length b = 128"

definition is_memory :: "nat \<Rightarrow> arblock list \<Rightarrow> bool" where
  "is_memory n m \<longleftrightarrow> length m = n \<and> (\<forall>b \<in> set m. is_block b)"

lemma length_blamka [simp]: "length (blamka a b c d v) = length v"
  by (simp add: blamka_def Let_def)

lemma length_permute [simp]: "length (permute v) = length v"
  by (simp add: permute_def)

lemma permute_row_block: "is_block q \<Longrightarrow> row < 8 \<Longrightarrow> is_block (permute_row q row)"
  unfolding is_block_def permute_row_def by (subst length_copy_at) auto

lemma length_foldl_const: "(\<And>q i. length (f q i) = length q) \<Longrightarrow> length (foldl f q xs) = length q"
  by (induction xs arbitrary: q) auto

lemma permute_col_block: "is_block q \<Longrightarrow> is_block (permute_col q col)"
  by (simp add: is_block_def permute_col_def Let_def length_foldl_const del: upt_rec_numeral)

lemma foldl_inv: "(\<And>q i. I q \<Longrightarrow> i \<in> set xs \<Longrightarrow> I (f q i)) \<Longrightarrow> I q \<Longrightarrow> I (foldl f q xs)"
  by (induction xs arbitrary: q) auto

lemma argon_compress_block: "is_block x \<Longrightarrow> is_block y \<Longrightarrow> is_block (argon_compress x y)"
proof -
  assume xy: "is_block x" "is_block y"
  define r where "r = map2 (XOR) x y"
  have r: "is_block r" using xy by (simp add: r_def is_block_def)
  have rows: "is_block (foldl permute_row r [0..<8])"
    by (rule foldl_inv [where I = is_block]) (use r permute_row_block in auto)
  have "is_block (foldl permute_col (foldl permute_row r [0..<8]) [0..<8])"
    by (rule foldl_inv [where I = is_block]) (use rows permute_col_block in auto)
  then show ?thesis using r by (simp add: argon_compress_def is_block_def Let_def flip: r_def del: upt_rec_numeral)
qed

lemma zero_block: "is_block ZERO_BLOCK"
  by (simp add: is_block_def ZERO_BLOCK_def BLOCK_WORDS_def)

lemma next_addresses_blocks:
  "is_block b \<Longrightarrow> is_block (fst (next_addresses b)) \<and> is_block (snd (next_addresses b))"
  by (simp add: next_addresses_def Let_def) (metis argon_compress_block is_block_def length_list_update zero_block)

text \<open>The shape of a fill: \<open>lanes\<close> lanes of four segments of \<open>sl\<close> blocks.\<close>

definition geometry :: "nat \<Rightarrow> nat \<Rightarrow> nat \<Rightarrow> bool" where
  "geometry lanes ll sl \<longleftrightarrow> 0 < lanes \<and> 2 \<le> sl \<and> ll = 4 * sl \<and> ll < 2 ^ 32"

lemma reference_area_ok:
  assumes "geometry lanes ll sl" "slc < 4" "index < sl" "pass = 0 \<and> slc = 0 \<longrightarrow> same \<and> 2 \<le> index"
  shows "\<exists>a. reference_area pass slc index ll sl same = Some a \<and> 0 < a \<and> a < 2 ^ 32"
proof -
  define p where "p = slc * sl"
  have p: "p \<le> 3 * sl" "slc \<noteq> 0 \<Longrightarrow> sl \<le> p"
    unfolding p_def using assms(2) by (intro mult_le_mono1, simp) (cases slc, simp_all)
  then show ?thesis
    using assms by (cases "slc = 0") (auto simp: reference_area_def geometry_def sub_checked_def Let_def simp flip: p_def)
qed

lemma reference_column_ok:
  assumes "0 < area" "area < 2 ^ 32" "unat j1 < 2 ^ 32" "0 < ll"
  shows "\<exists>c. reference_column pass slc ll sl area j1 = Some c \<and> c < ll"
proof -
  have lt: "unat j1 * unat j1 < 2 ^ 32 * 2 ^ 32" using assms(3) by (intro mult_strict_mono) auto
  then have sq: "unat (j1 * j1) = unat j1 * unat j1" using unat_mult_lem [of j1 j1] by simp
  define x where "x = drop_bit 32 (j1 * j1)"
  have "unat x = unat j1 * unat j1 div 2 ^ 32" unfolding x_def by (subst unat_drop_bit_eq) (simp add: sq drop_bit_eq_div)
  then have x: "unat x < 2 ^ 32" using lt by (simp add: less_mult_imp_div_less)
  have ua: "unat (word_of_nat area :: u64) = area" using assms(2) by (simp add: unat_of_nat)
  have "area * unat x < 2 ^ 32 * 2 ^ 32" using assms(2) x by (intro mult_strict_mono) auto
  then have pr: "unat (word_of_nat area * x) = area * unat x"
    using unat_mult_lem [of "word_of_nat area" x] ua by simp
  have "unat (drop_bit 32 (word_of_nat area * x)) = area * unat x div 2 ^ 32"
    by (subst unat_drop_bit_eq) (simp add: pr drop_bit_eq_div)
  moreover have "area * unat x < area * 2 ^ 32" using assms(1) x by (intro mult_strict_left_mono)
  ultimately have "unat (drop_bit 32 (word_of_nat area * x)) < area" by (simp add: less_mult_imp_div_less)
  then show ?thesis using assms(1,4) by (simp add: reference_column_def sub_checked_def Let_def flip: x_def)
qed

lemma low_half: "unat (w AND mask 32 :: u64) < 2 ^ 32"
proof -
  have "unat (w AND mask 32) = take_bit 32 (unat w)" by (simp only: take_bit_eq_mask [symmetric] unsigned_take_bit_eq)
  then show ?thesis using take_bit_nat_less_exp [of 32 "unat w"] by simp
qed

lemma cell_lt: "lane < lanes \<Longrightarrow> c < ll \<Longrightarrow> lane * ll + c < lanes * (ll :: nat)"
proof -
  assume "lane < lanes" "c < ll"
  then have "lane * ll + c < Suc lane * ll" by simp
  also have "\<dots> \<le> lanes * ll" using \<open>lane < lanes\<close> by (intro mult_le_mono1) simp
  finally show ?thesis .
qed

lemma get_cell: "is_memory n m \<Longrightarrow> i < n \<Longrightarrow> \<exists>b. get_checked m i = Some b \<and> is_block b"
  by (auto simp: is_memory_def get_checked_def)

lemma set_cell: "is_memory n m \<Longrightarrow> i < n \<Longrightarrow> is_block b \<Longrightarrow> \<exists>m'. set_checked m i b = Some m' \<and> is_memory n m'"
  by (auto simp: is_memory_def set_checked_def dest!: subsetD [OF set_update_subset_insert])

definition fill_inv :: "nat \<Rightarrow> fill_state \<Rightarrow> bool" where
  "fill_inv n st \<longleftrightarrow> (case st of (m, a, i) \<Rightarrow> is_memory n m \<and> is_block a \<and> is_block i)"

lemma fill_index_ok:
  assumes "geometry lanes ll sl" "lane < lanes" "slc < 4" "index < sl" "pass = 0 \<and> slc = 0 \<longrightarrow> 2 \<le> index"
    and "fill_inv (lanes * ll) st"
  shows "\<exists>st'. fill_index pass lane slc lanes ll sl index st = Some st' \<and> fill_inv (lanes * ll) st'"
proof -
  obtain m a i where st: "st = (m, a, i)" and m: "is_memory (lanes * ll) m" and a: "is_block a" and i: "is_block i"
    using assms(6) by (cases st) (auto simp: fill_inv_def)
  define col where "col = slc * sl + index"
  have "slc * sl \<le> 3 * sl" using assms(3) by (intro mult_le_mono1) simp
  then have col: "col < ll" using assms(1,4) unfolding geometry_def col_def by linarith
  have ll: "0 < ll" "0 < lanes" using assms(1) by (auto simp: geometry_def)
  define pc where "pc = (if col = 0 then ll - 1 else col - 1)"
  have pcs: "(if col = 0 then sub_checked ll 1 else Some (col - 1)) = Some pc"
    using ll by (auto simp: pc_def sub_checked_def)
  obtain prev where prev: "get_checked m (lane * ll + pc) = Some prev" "is_block prev"
    using get_cell [OF m cell_lt [OF assms(2)]] col ll by (metis diff_less less_imp_diff_less less_numeral_extra(1) pc_def)
  define ai where "ai = (if (pass = 0 \<and> slc < 2) \<and> index mod ADDRESSES_PER_BLOCK = 0 then next_addresses i else (a, i))"
  obtain a' i' where ai': "ai = (a', i')" by fastforce
  have ab: "is_block a'" "is_block i'"
    using next_addresses_blocks [OF i] a i ai' by (auto simp: ai_def split: if_splits)
  have "prev \<noteq> []" using prev(2) by (auto simp: is_block_def)
  obtain pr where pr: "(if pass = 0 \<and> slc < 2 then get_checked a' (index mod ADDRESSES_PER_BLOCK) else get_checked prev 0) = Some pr"
    using ab prev(2) \<open>prev \<noteq> []\<close>
    by (cases "pass = 0 \<and> slc < 2") (auto simp: get_checked_def is_block_def ADDRESSES_PER_BLOCK_def)
  define rl where "rl = (if pass = 0 \<and> slc = 0 then lane else unat (drop_bit 32 pr) mod lanes)"
  have rl: "rl < lanes" using assms(2) ll by (simp add: rl_def)
  obtain area where area: "reference_area pass slc index ll sl (rl = lane) = Some area" "0 < area" "area < 2 ^ 32"
    using reference_area_ok [OF assms(1,3,4), of pass "rl = lane"] assms(5) by (auto simp: rl_def)
  obtain rc where rc: "reference_column pass slc ll sl area (pr AND mask 32) = Some rc" "rc < ll"
    using reference_column_ok [OF area(2,3) low_half ll(1)] by blast
  obtain rb where rb: "get_checked m (rl * ll + rc) = Some rb" "is_block rb"
    using get_cell [OF m cell_lt [OF rl rc(2)]] by blast
  obtain old where old: "get_checked m (lane * ll + col) = Some old" "is_block old"
    using get_cell [OF m cell_lt [OF assms(2) col]] by blast
  have "is_block (if pass = 0 then argon_compress prev rb else map2 (XOR) old (argon_compress prev rb))"
    using argon_compress_block [OF prev(2) rb(2)] old(2) by (auto simp: is_block_def)
  from set_cell [OF m cell_lt [OF assms(2) col] this] obtain m' where
    m': "set_checked m (lane * ll + col) (if pass = 0 then argon_compress prev rb else map2 (XOR) old (argon_compress prev rb)) = Some m'"
      "is_memory (lanes * ll) m'" by blast
  have "fill_index pass lane slc lanes ll sl index st = Some (m', a', i')"
    using pcs prev(1) pr area(1) rc(1) rb(1) old(1) m'(1)
    by (simp only: fill_index_def st prod.case Let_def col_def [symmetric] ai_def [symmetric] ai' rl_def [symmetric]
        Option.bind_lunit)
  then show ?thesis using m'(2) ab by (simp add: fill_inv_def)
qed

lemma fill_segment_ok:
  assumes "geometry lanes ll sl" "lane < lanes" "slc < 4" "is_memory (lanes * ll) m"
  shows "\<exists>m'. fill_segment pass lane slc lanes ll sl passes m = Some m' \<and> is_memory (lanes * ll) m'"
proof -
  define ib where "ib = (if pass = 0 \<and> slc < 2
    then ZERO_BLOCK[0 := word_of_nat pass, 1 := word_of_nat lane, 2 := word_of_nat slc,
      3 := word_of_nat (length m), 4 := ucast passes, 5 := ucast ARGON2ID] else ZERO_BLOCK)"
  have ib: "is_block ib" using zero_block by (simp add: ib_def is_block_def)
  define st where "st = (if pass = 0 \<and> slc = 0
    then if pass = 0 \<and> slc < 2 then (2, next_addresses ib) else (2, ZERO_BLOCK, ib) else (0 :: nat, ZERO_BLOCK, ib))"
  obtain i a b where s: "st = (i, a, b)" by (cases st)
  have blocks: "is_block a" "is_block b" and i: "pass = 0 \<and> slc = 0 \<longrightarrow> 2 \<le> i"
    using s next_addresses_blocks [OF ib] zero_block ib by (auto simp: st_def split: if_splits)
  have "\<exists>s'. fold_opt (fill_index pass lane slc lanes ll sl) [i..<sl] (m, a, b) = Some s' \<and> fill_inv (lanes * ll) s'"
    by (rule fold_opt_inv, rule fill_index_ok [OF assms(1-3)]) (use blocks i assms(4) in \<open>auto simp: fill_inv_def\<close>)
  then show ?thesis
    unfolding fill_segment_def Let_def ib_def [symmetric] st_def [symmetric] s
    by (auto simp: fill_inv_def)
qed

lemma fill_memory_ok:
  assumes "geometry lanes ll sl" "is_memory (lanes * ll) m"
  shows "\<exists>m'. fill_memory lanes ll sl passes m = Some m' \<and> is_memory (lanes * ll) m'"
  unfolding fill_memory_def
  by (rule fold_opt_inv) (use assms fill_segment_ok [OF assms(1)] in \<open>auto simp: SYNC_POINTS_def simp del: upt_rec_numeral\<close>)

lemma blake2b_some: "1 \<le> n \<Longrightarrow> n \<le> 64 \<Longrightarrow> \<exists>d. blake2b n m = Some d \<and> length d = n"
  by (simp add: blake2b_rfc length_blake_digest)

lemma blake2b_64: "\<exists>d. blake2b 64 m = Some d"
  using blake2b_some [of 64 m] by auto

lemma h_prime_loop_ok: "written < t \<Longrightarrow> \<exists>d. h_prime_loop t written v = Some d \<and> length d = t - written"
proof (induction t written v rule: h_prime_loop.induct)
  case (1 t written v)
  show ?case
  proof (cases "64 < t - written")
    case True
    obtain v' where v': "blake2b 64 v = Some v'" "length v' = 64" using blake2b_some by fastforce
    have "written + 32 < t" using True by linarith
    from "1.IH" [OF True v'(1) this] obtain d where "h_prime_loop t (written + 32) v' = Some d" "length d = t - (written + 32)"
      by auto
    with True v' show ?thesis by (subst h_prime_loop.simps) auto
  next
    case False
    then show ?thesis using blake2b_some [of "t - written" v] "1.prems" by (subst h_prime_loop.simps) auto
  qed
qed

lemma h_prime_ok: "0 < t \<Longrightarrow> \<exists>d. h_prime t input = Some d \<and> length d = t"
proof (cases "t \<le> 64")
  case True
  assume "0 < t"
  then show ?thesis using True blake2b_some [of t] by (auto simp: h_prime_def)
next
  case False
  obtain v where v: "blake2b 64 (le_bytes 4 t @ input) = Some v" "length v = 64" using blake2b_some by fastforce
  obtain d where "h_prime_loop t 32 v = Some d" "length d = t - 32" using h_prime_loop_ok [of 32 t v] False by auto
  then show ?thesis using False v by (auto simp: h_prime_def)
qed

lemma seed_memory_ok:
  assumes "geometry lanes ll sl" "is_memory (lanes * ll) m"
  shows "\<exists>m'. seed_memory h0 lanes ll m = Some m' \<and> is_memory (lanes * ll) m'"
  unfolding seed_memory_def
proof (rule fold_opt_inv)
  fix x m
  assume x: "x \<in> set (concat (map (\<lambda>lane. [(lane, 0), (lane, 1 :: nat)]) [0..<lanes]))" and m: "is_memory (lanes * ll) m"
  obtain lane col where lc: "x = (lane, col)" by fastforce
  with x have "lane < lanes" "col \<le> 1" by auto
  moreover from this have "col < ll" using assms(1) by (simp add: geometry_def)
  ultimately have "lane < lanes" "col < ll" by simp_all
  note cell = cell_lt [OF this]
  obtain bs where bs: "h_prime 1024 (h0 @ le_bytes 4 col @ le_bytes 4 lane) = Some bs"
    using h_prime_ok [OF zero_less_numeral] by blast
  have "is_block (block_from_bytes bs)"
    by (simp add: is_block_def block_from_bytes_def load_u64s_def BLOCK_WORDS_def del: upt_rec_numeral)
  from set_cell [OF m cell this] bs
  show "\<exists>s'. (case x of (lane, col) \<Rightarrow> \<lambda>m. do { bs \<leftarrow> h_prime 1024 (h0 @ le_bytes 4 col @ le_bytes 4 lane);
      set_checked m (lane * ll + col) (block_from_bytes bs) }) m = Some s' \<and> is_memory (lanes * ll) s'"
    by (simp add: lc)
qed (rule assms(2))

lemma argon_geometry:
  assumes "0 < lanes" "lanes < 2 ^ 32" "kib < 2 ^ 32"
  defines "mb \<equiv> (max kib (8 * lanes) div (4 * lanes)) * (4 * lanes)"
  shows "geometry lanes (mb div lanes) (mb div lanes div 4) \<and> lanes * (mb div lanes) = mb"
proof -
  define q where "q = max kib (8 * lanes) div (4 * lanes)"
  have mb: "mb = (4 * q) * lanes" by (simp add: mb_def q_def)
  then have ll: "mb div lanes = 4 * q" using assms(1) by simp
  have "2 \<le> q"
  proof -
    have "2 * (4 * lanes) \<le> max kib (8 * lanes)" by simp
    then show ?thesis using assms(1) unfolding q_def by (subst less_eq_div_iff_mult_less_eq) auto
  qed
  moreover have "4 * q < 2 ^ 32"
  proof (cases "kib \<le> 8 * lanes")
    case True
    then have "q = 2" using assms(1) by (simp add: q_def max_def)
    then show ?thesis by simp
  next
    case False
    then have "q * (4 * lanes) \<le> kib" by (simp add: q_def max_def)
    moreover have "4 * q \<le> q * (4 * lanes)" using assms(1) by (cases lanes) simp_all
    ultimately show ?thesis using assms(3) by linarith
  qed
  ultimately show ?thesis using assms(1) ll mb by (simp add: geometry_def)
qed

lemma argon2id_result:
  "case argon2id_full password salt secret associated memory_kib passes lanes out_len of
     None \<Rightarrow> lanes = 0 \<or> passes = 0 \<or> out_len = 0
   | Some key \<Rightarrow> lanes \<noteq> 0 \<and> passes \<noteq> 0 \<and> out_len \<noteq> 0 \<and> length key = out_len"
proof (cases "lanes = 0 \<or> passes = 0 \<or> out_len = 0")
  case True
  have "lanes < 1 \<or> passes < 1 \<or> out_len = 0" using True by (auto simp: word_less_nat_alt)
  then show ?thesis using True by (simp add: argon2id_full_def)
next
  case False
  then have nz: "0 < unat lanes" "\<not> (lanes < 1 \<or> passes < 1 \<or> out_len = 0)"
    by (auto simp: word_less_nat_alt unat_gt_0)
  define mb where "mb = (max (unat memory_kib) (8 * unat lanes) div (SYNC_POINTS * unat lanes)) * (SYNC_POINTS * unat lanes)"
  define ll where "ll = mb div unat lanes"
  define sl where "sl = ll div SYNC_POINTS"
  have "unat lanes < 2 ^ 32" "unat memory_kib < 2 ^ 32" using unsigned_less [of lanes] unsigned_less [of memory_kib] by simp_all
  from argon_geometry [OF nz(1) this] have geo: "geometry (unat lanes) ll sl" and mbl: "unat lanes * ll = mb"
    by (auto simp: mb_def ll_def sl_def SYNC_POINTS_def)
  obtain h0 where h0: "argon_h0 password salt secret associated memory_kib passes lanes out_len = Some h0"
    unfolding argon_h0_def using blake2b_64 by blast
  have "is_memory (unat lanes * ll) (replicate mb ZERO_BLOCK)" using zero_block mbl by (auto simp: is_memory_def)
  from seed_memory_ok [OF geo this] obtain m0 where m0: "seed_memory h0 (unat lanes) ll (replicate mb ZERO_BLOCK) = Some m0"
    "is_memory (unat lanes * ll) m0" by blast
  from fill_memory_ok [OF geo m0(2)] obtain m where m: "fill_memory (unat lanes) ll sl passes m0 = Some m"
    "is_memory (unat lanes * ll) m" by blast
  have ll: "0 < ll" using geo by (auto simp: geometry_def)
  obtain b0 where b0: "get_checked m (ll - 1) = Some b0" "is_block b0"
    using get_cell [OF m(2)] cell_lt [OF nz(1), of "ll - 1" ll] ll by auto
  have "\<exists>fb. fold_opt (\<lambda>lane acc. do { b \<leftarrow> get_checked m (lane * ll + ll - 1); Some (map2 (XOR) acc b) }) [1..<unat lanes] b0
      = Some fb \<and> is_block fb"
  proof (rule fold_opt_inv)
    fix lane acc
    assume "lane \<in> set [1..<unat lanes]" and acc: "is_block acc"
    then have "lane * ll + (ll - 1) < unat lanes * ll" using ll by (intro cell_lt) auto
    from get_cell [OF m(2) this] ll acc
    show "\<exists>s'. (do { b \<leftarrow> get_checked m (lane * ll + ll - 1); Some (map2 (XOR) acc b) }) = Some s' \<and> is_block s'"
      by (auto simp: is_block_def)
  qed (rule b0(2))
  then obtain fb where fb: "fold_opt (\<lambda>lane acc. do { b \<leftarrow> get_checked m (lane * ll + ll - 1); Some (map2 (XOR) acc b) })
      [1..<unat lanes] b0 = Some fb" by blast
  obtain key where key: "h_prime out_len (concat (map (\<lambda>w. le_bytes 8 (unat w)) fb)) = Some key" "length key = out_len"
    using h_prime_ok [of out_len] False by blast
  have "sub_checked ll 1 = Some (ll - 1)" using ll by (simp add: sub_checked_def)
  then have "argon2id_full password salt secret associated memory_kib passes lanes out_len = Some key"
    unfolding argon2id_full_def Let_def mb_def [symmetric] ll_def [symmetric] sl_def [symmetric] if_not_P [OF nz(2)]
    by (simp only: h0 m0(1) m(1) b0(1) fb key(1) Option.bind_lunit)
  then show ?thesis using False key(2) by simp
qed

text \<open>
  C33: for every password, salt, secret and associated data and every setting of the parameters, Argon2id
  returns a key of exactly the length asked for, unless the lane count, the pass count or the output
  length is zero, the cases its assertions refuse. So the clamped memory size, the segment arithmetic,
  the reference area and the pseudo-random reference column (for every value of the pseudo-random
  words) never underflow and never leave the memory.
\<close>

theorem argon2id_total:
  "case argon2id_full password salt secret associated memory_kib passes lanes out_len of
     None \<Rightarrow> lanes = 0 \<or> passes = 0 \<or> out_len = 0
   | Some key \<Rightarrow> lanes \<noteq> 0 \<and> passes \<noteq> 0 \<and> out_len \<noteq> 0 \<and> length key = out_len"
  by (rule argon2id_result)

end
