(* ===== verification/Kdf.thy ===== *)
theory Kdf
  imports Keys Argon2
begin

text \<open>
  Passphrase to master key: \<open>KdfParams::derive\<close> and the keyparams record of
  \<open>crates/ciphra-engine/src/lib.rs\<close>. A panic (a failed assertion of the KDF) is \<open>None\<close>.
\<close>

definition DEFAULT_ARGON2_MEMORY_KIB :: u32 where "DEFAULT_ARGON2_MEMORY_KIB = 19456"
definition DEFAULT_ARGON2_PASSES :: u32 where "DEFAULT_ARGON2_PASSES = 2"
definition DEFAULT_ARGON2_LANES :: u32 where "DEFAULT_ARGON2_LANES = 1"

definition recommended :: kdf_params where
  "recommended = Argon2id DEFAULT_ARGON2_MEMORY_KIB DEFAULT_ARGON2_PASSES DEFAULT_ARGON2_LANES"

definition derive_from_passphrase :: "string \<Rightarrow> bytes \<Rightarrow> u32 \<Rightarrow> bytes option" where
  "derive_from_passphrase passphrase salt iterations =
    pbkdf2_sha256 (as_bytes passphrase) salt (unat iterations) KEY_LEN"

definition derive_argon2id :: "string \<Rightarrow> bytes \<Rightarrow> u32 \<Rightarrow> u32 \<Rightarrow> u32 \<Rightarrow> bytes option" where
  "derive_argon2id passphrase salt memory_kib passes lanes =
    argon2id (as_bytes passphrase) salt memory_kib passes lanes KEY_LEN"

fun kdf_derive :: "kdf_params \<Rightarrow> string \<Rightarrow> bytes \<Rightarrow> bytes option" where
  "kdf_derive (Pbkdf2 iterations) passphrase salt = derive_from_passphrase passphrase salt iterations"
| "kdf_derive (Argon2id memory_kib passes lanes) passphrase salt =
    derive_argon2id passphrase salt memory_kib passes lanes"

section \<open>The keyparams record\<close>

definition KEYPARAMS_MAGIC_V1 :: bytes where "KEYPARAMS_MAGIC_V1 = as_bytes (''CIPHRA'' @ [CHR 0x00, CHR 0x01])"
definition KEYPARAMS_MAGIC_V2 :: bytes where "KEYPARAMS_MAGIC_V2 = as_bytes (''CIPHRA'' @ [CHR 0x00, CHR 0x02])"
definition KDF_PBKDF2 :: byte where "KDF_PBKDF2 = 1"
definition KDF_ARGON2ID :: byte where "KDF_ARGON2ID = 2"

fun encode_keyparams :: "kdf_params \<Rightarrow> bytes \<Rightarrow> bytes" where
  "encode_keyparams (Pbkdf2 iterations) salt =
    KEYPARAMS_MAGIC_V2 @ [KDF_PBKDF2] @ le_bytes 4 (unat iterations) @ salt"
| "encode_keyparams (Argon2id memory_kib passes lanes) salt =
    KEYPARAMS_MAGIC_V2 @ [KDF_ARGON2ID] @ le_bytes 4 (unat memory_kib) @ le_bytes 4 (unat passes)
    @ le_bytes 4 (unat lanes) @ salt"

definition bad_keyparams :: engine_error where
  "bad_keyparams = Corrupt_error ''bad ciphra.keyparams file''"

definition u32_at :: "bytes \<Rightarrow> nat \<Rightarrow> u32" where
  "u32_at bs i = word_of_nat (le_nat (take 4 (drop i bs)))"

definition read_pbkdf2 :: "bytes \<Rightarrow> (kdf_params \<times> bytes) res" where
  "read_pbkdf2 rest =
    (if length rest < 4 + SALT_LEN then Err bad_keyparams
     else if u32_at rest 0 = 0 then Err bad_keyparams
     else Ok (Pbkdf2 (u32_at rest 0), drop 4 rest))"

definition read_argon2id :: "bytes \<Rightarrow> (kdf_params \<times> bytes) res" where
  "read_argon2id rest =
    (if length rest < 12 + SALT_LEN then Err bad_keyparams
     else
       let memory_kib = u32_at rest 0; passes = u32_at rest 4; lanes = u32_at rest 8 in
       if passes = 0 \<or> lanes = 0 then Err bad_keyparams
       else Ok (Argon2id memory_kib passes lanes, drop 12 rest))"

definition read_keyparams :: "bytes \<Rightarrow> (kdf_params \<times> bytes) res" where
  "read_keyparams contents =
    (if length contents < 8 then Err bad_keyparams
     else
       let magic = take 8 contents; rest = drop 8 contents in
       if magic = KEYPARAMS_MAGIC_V1 then read_pbkdf2 rest
       else if magic \<noteq> KEYPARAMS_MAGIC_V2 \<or> rest = [] then Err bad_keyparams
       else if hd rest = KDF_PBKDF2 then read_pbkdf2 (drop 1 rest)
       else if hd rest = KDF_ARGON2ID then read_argon2id (drop 1 rest)
       else Err bad_keyparams)"

lemmas keyparams_defs = KEYPARAMS_MAGIC_V1_def KEYPARAMS_MAGIC_V2_def KDF_PBKDF2_def KDF_ARGON2ID_def

text \<open>The parameters a key can be derived with.\<close>

fun kdf_ok :: "kdf_params \<Rightarrow> bool" where
  "kdf_ok (Pbkdf2 iterations) \<longleftrightarrow> iterations \<noteq> 0"
| "kdf_ok (Argon2id memory_kib passes lanes) \<longleftrightarrow> passes \<noteq> 0 \<and> lanes \<noteq> 0"

lemma magics: "length KEYPARAMS_MAGIC_V2 = 8" "KEYPARAMS_MAGIC_V2 \<noteq> KEYPARAMS_MAGIC_V1"
  by (simp_all add: keyparams_defs as_bytes_def)

lemma u32_field: "u32_at (le_bytes 4 (unat w) @ r) 0 = w"
  by (simp add: u32_at_def word_le_bytes_roundtrip)

lemma read_v2: "read_keyparams (KEYPARAMS_MAGIC_V2 @ [t] @ rest) =
    (if t = KDF_PBKDF2 then read_pbkdf2 rest else if t = KDF_ARGON2ID then read_argon2id rest else Err bad_keyparams)"
  by (simp add: read_keyparams_def magics Let_def)

lemma read_pbkdf2_encoded: "SALT_LEN \<le> length salt \<Longrightarrow> read_pbkdf2 (le_bytes 4 (unat i) @ salt)
    = (if i = 0 then Err bad_keyparams else Ok (Pbkdf2 i, salt))"
  by (simp add: read_pbkdf2_def u32_field)

lemma read_argon2id_encoded:
  "SALT_LEN \<le> length salt \<Longrightarrow> read_argon2id (le_bytes 4 (unat m) @ le_bytes 4 (unat p) @ le_bytes 4 (unat l) @ salt)
    = (if p = 0 \<or> l = 0 then Err bad_keyparams else Ok (Argon2id m p l, salt))"
  by (simp add: read_argon2id_def u32_at_def word_le_bytes_roundtrip Let_def)

lemma kdf_ids: "KDF_PBKDF2 \<noteq> KDF_ARGON2ID"
  by (simp add: KDF_PBKDF2_def KDF_ARGON2ID_def)

lemma read_encode_keyparams:
  "SALT_LEN \<le> length salt \<Longrightarrow>
    read_keyparams (encode_keyparams kdf salt) = (if kdf_ok kdf then Ok (kdf, salt) else Err bad_keyparams)"
  using kdf_ids by (cases kdf; simp only: encode_keyparams.simps read_v2) (simp_all add: read_pbkdf2_encoded read_argon2id_encoded)

lemma read_pbkdf2_result:
  "case read_pbkdf2 rest of Ok (kdf, salt) \<Rightarrow> kdf_ok kdf \<and> SALT_LEN \<le> length salt | Err e \<Rightarrow> e = bad_keyparams"
  by (auto simp: read_pbkdf2_def)

lemma read_argon2id_result:
  "case read_argon2id rest of Ok (kdf, salt) \<Rightarrow> kdf_ok kdf \<and> SALT_LEN \<le> length salt | Err e \<Rightarrow> e = bad_keyparams"
  by (auto simp: read_argon2id_def Let_def)

lemma read_keyparams_result:
  "case read_keyparams contents of Ok (kdf, salt) \<Rightarrow> kdf_ok kdf \<and> SALT_LEN \<le> length salt | Err e \<Rightarrow> e = bad_keyparams"
  unfolding read_keyparams_def Let_def
  using read_pbkdf2_result [of "drop 8 contents"] read_pbkdf2_result [of "drop 1 (drop 8 contents)"]
    read_argon2id_result [of "drop 1 (drop 8 contents)"]
  by (simp only: result.case simp_thms split: if_split)

lemma derive_pbkdf2_key: "0 < c \<Longrightarrow> \<exists>k. pbkdf2_sha256 p s c 32 = Some k \<and> length k = 32"
  using pbkdf2_loop_rfc [of c 1 32 p s] by (simp add: pbkdf2_sha256_def block_stream_def)

lemma kdf_derive_key:
  "(case kdf_derive kdf passphrase salt of None \<Rightarrow> \<not> kdf_ok kdf | Some k \<Rightarrow> kdf_ok kdf \<and> length k = KEY_LEN)"
proof (cases kdf)
  case (Pbkdf2 i)
  show ?thesis
  proof (cases "i = 0")
    case True
    then show ?thesis using Pbkdf2 by (simp add: derive_from_passphrase_def pbkdf2_sha256_def)
  next
    case False
    then have "0 < unat i" by (simp add: unat_gt_0)
    from derive_pbkdf2_key [OF this, where p = "as_bytes passphrase" and s = salt] show ?thesis using Pbkdf2 False
      by (auto simp: derive_from_passphrase_def KEY_LEN_def split: option.splits)
  qed
next
  case (Argon2id m p l)
  show ?thesis
    using argon2id_result [where password = "as_bytes passphrase" and salt = salt and secret = "[]" and associated = "[]"
        and memory_kib = m and passes = p and lanes = l and out_len = KEY_LEN] Argon2id
    by (auto simp: derive_argon2id_def argon2id_def KEY_LEN_def split: option.splits)
qed

text \<open>
  The recorded key-derivation parameters. With a salt of at least 16 bytes, a record written for parameters a key can be derived with
  reads back as those parameters and salt; every record that reads back, of either version, derives a
  32-byte key without a panic; and parameters that would make the derivation panic (zero iterations,
  passes or lanes) are refused on reading.
\<close>

theorem keyparams_usable:
  assumes "SALT_LEN \<le> length salt"
  shows "read_keyparams (encode_keyparams kdf salt) =
      (if kdf_derive kdf passphrase salt = None then Err bad_keyparams else Ok (kdf, salt))
    \<and> (case read_keyparams contents of
         Err e \<Rightarrow> e = bad_keyparams
       | Ok (kdf', salt') \<Rightarrow> \<exists>key. kdf_derive kdf' passphrase salt' = Some key \<and> length key = 32)"
proof (intro conjI)
  show "read_keyparams (encode_keyparams kdf salt) =
      (if kdf_derive kdf passphrase salt = None then Err bad_keyparams else Ok (kdf, salt))"
    using kdf_derive_key [of kdf passphrase salt] read_encode_keyparams [OF assms]
    by (auto split: option.splits)
  show "case read_keyparams contents of
       Err e \<Rightarrow> e = bad_keyparams
     | Ok (kdf', salt') \<Rightarrow> \<exists>key. kdf_derive kdf' passphrase salt' = Some key \<and> length key = 32"
  proof (cases "read_keyparams contents")
    case (Ok r)
    then obtain kdf' salt' where r: "r = (kdf', salt')" by fastforce
    with Ok read_keyparams_result [of contents] have "kdf_ok kdf'" by simp
    then show ?thesis using kdf_derive_key [of kdf' passphrase salt'] Ok r
      by (simp add: KEY_LEN_def split: option.splits)
  qed (use read_keyparams_result [of contents] in simp)
qed

theorem keyparams_usable_witness:
  "SALT_LEN \<le> length (replicate 16 9 :: bytes) \<and> read_keyparams (encode_keyparams (Pbkdf2 3) (replicate 16 9)) =
      (if kdf_derive (Pbkdf2 3) ''pw'' (replicate 16 9) = None then Err bad_keyparams else Ok (Pbkdf2 3, replicate 16 9))"
  using keyparams_usable [of "replicate 16 9" "Pbkdf2 3" "''pw''"] by (simp add: SALT_LEN_def)

end
