(* ===== verification/Engine.thy ===== *)
theory Engine
  imports Store Aggregate Audit_Chain Kdf "HOL-Library.Char_ord"
begin

text \<open>
  The state of an open database and the helpers its statements are built from,
  \<open>Engine\<close> of \<open>crates/ciphra-engine/src/lib.rs\<close>: storage keys, sealed records, index entries, candidate
  rows, the advisor's telemetry, audited commits, transactions, opening, backup and restore. The
  statements are in \<open>Statements\<close>.

  What a statement takes from outside is its \<open>world\<close>: the outcome of each read (by key or prefix), of
  each single write and of the commit, the random nonces, the salt, the clock, and the standard
  library's rendering of floats. A batch draws the nonce at its own position, so that every sealed
  entry of a statement has a nonce of its own.
\<close>

section \<open>State\<close>

record world =
  w_read :: "bytes \<Rightarrow> env"
  w_write :: "bytes \<Rightarrow> env"
  w_commit :: env
  w_nonce :: "nat \<Rightarrow> bytes"
  w_salt :: bytes
  w_time :: u64
  w_fmt64 :: "f64 \<Rightarrow> string"
  w_fmt32 :: "f32 \<Rightarrow> string"

record col_stat =
  cs_eq :: u64
  cs_range :: u64
  cs_scan_rows :: u64

record advisor =
  adv_queries :: u64
  adv_stats :: "(string \<times> string, col_stat) btree"

definition advisor_default :: advisor where
  "advisor_default = \<lparr>adv_queries = 0, adv_stats = []\<rparr>"

record engine =
  eng_store :: store
  eng_master :: bytes
  eng_local :: bool
  eng_audit_head :: "u64 \<times> bytes"
  eng_txn_audit_head :: "(u64 \<times> bytes) option"
  eng_advisor :: advisor

text \<open>The \<open>?\<close> operator in a method on \<open>&mut self\<close>: an error returns at once.\<close>

definition try_res :: "'s \<Rightarrow> ('e, 'a) result \<Rightarrow> ('a \<Rightarrow> 's \<times> ('e, 'b) result) \<Rightarrow> 's \<times> ('e, 'b) result" where
  "try_res s r f = (case r of Err e \<Rightarrow> (s, Err e) | Ok x \<Rightarrow> f x)"

definition crypto_res :: "(crypto_error, 'a) result \<Rightarrow> 'a res" where
  "crypto_res r = map_err Crypto_error r"

text \<open>Rust's \<open>==\<close> on values: floats compare as IEEE-754 does.\<close>

definition f32_eq :: "f32 \<Rightarrow> f32 \<Rightarrow> bool" where
  "f32_eq x y = f64_eq (f64_of_f32 x) (f64_of_f32 y)"

fun val_eq :: "val \<Rightarrow> val \<Rightarrow> bool" where
  "val_eq VNull VNull = True"
| "val_eq (VInt a) (VInt b) = (a = b)"
| "val_eq (VReal a) (VReal b) = f64_eq a b"
| "val_eq (VText a) (VText b) = (a = b)"
| "val_eq (VVector a) (VVector b) = (length a = length b \<and> list_all2 f32_eq a b)"
| "val_eq _ _ = False"

section \<open>Keys\<close>

definition KEYPARAMS_KEY :: bytes where "KEYPARAMS_KEY = as_bytes (CHR 0x00 # ''keyparams'')"
definition CANARY_KEY :: bytes where "CANARY_KEY = as_bytes (CHR 0x00 # ''canary'')"
definition CANARY_PLAINTEXT :: bytes where "CANARY_PLAINTEXT = as_bytes ''ciphra-canary-v1''"
definition CATALOG_PREFIX :: bytes where "CATALOG_PREFIX = as_bytes (CHR 0x00 # ''catalog'' @ [CHR 0x00])"
definition RANGE_PREFIX :: bytes where "RANGE_PREFIX = as_bytes [CHR ''z'', CHR 0x00]"
definition TABLE_TAG_LEN :: nat where "TABLE_TAG_LEN = 16"

definition table_key :: "bytes \<Rightarrow> string \<Rightarrow> bytes" where
  "table_key master table = derive_key master (''table:'' @ table)"

definition table_tag :: "bytes \<Rightarrow> string \<Rightarrow> bytes" where
  "table_tag master table = take TABLE_TAG_LEN (keyed_tag master ''table-name'' (as_bytes table))"

definition catalog_key :: "bytes \<Rightarrow> string \<Rightarrow> bytes" where
  "catalog_key master table = CATALOG_PREFIX @ table_tag master table"

definition seq_key :: "bytes \<Rightarrow> string \<Rightarrow> bytes" where
  "seq_key master table = as_bytes (CHR 0x00 # ''seq'' @ [CHR 0x00]) @ table_tag master table"

definition row_prefix :: "bytes \<Rightarrow> string \<Rightarrow> bytes" where
  "row_prefix master table = as_bytes [CHR ''r'', CHR 0x00] @ table_tag master table"

definition index_prefix :: "bytes \<Rightarrow> string \<Rightarrow> bytes" where
  "index_prefix master table = as_bytes [CHR ''x'', CHR 0x00] @ table_tag master table"

definition index_column_prefix :: "bytes \<Rightarrow> string \<Rightarrow> nat \<Rightarrow> bytes" where
  "index_column_prefix master table col = index_prefix master table @ be_bytes 2 col"

definition index_value_prefix :: "bytes \<Rightarrow> string \<Rightarrow> nat \<Rightarrow> val \<Rightarrow> bytes" where
  "index_value_prefix master table col v =
    index_column_prefix master table col
    @ take TABLE_TAG_LEN (keyed_tag master (''index:'' @ table @ '':'' @ show_nat col) (encode_row [v]))"

definition range_prefix :: "bytes \<Rightarrow> string \<Rightarrow> bytes" where
  "range_prefix master table = RANGE_PREFIX @ table_tag master table"

definition range_index_key :: "bytes \<Rightarrow> string \<Rightarrow> nat \<Rightarrow> bytes" where
  "range_index_key master table col = range_prefix master table @ be_bytes 2 col"

definition row_key :: "bytes \<Rightarrow> string \<Rightarrow> u64 \<Rightarrow> bytes" where
  "row_key master table rowid = row_prefix master table @ be_bytes 8 (unat rowid)"

definition rowid_from_key :: "bytes \<Rightarrow> u64" where
  "rowid_from_key key = word_of_nat (be_nat (drop (length key - 8) key))"

definition index_entry_key :: "bytes \<Rightarrow> string \<Rightarrow> nat \<Rightarrow> val \<Rightarrow> u64 \<Rightarrow> bytes" where
  "index_entry_key master table col v rowid = index_value_prefix master table col v @ be_bytes 8 (unat rowid)"

section \<open>Reading\<close>

definition open_row :: "bytes \<Rightarrow> bytes \<Rightarrow> bytes \<Rightarrow> val list res" where
  "open_row tkey key sealed = rbind (crypto_res (cipher_open tkey sealed key)) decode_row"

definition schema :: "world \<Rightarrow> engine \<Rightarrow> string \<Rightarrow> table_schema option res" where
  "schema w e table =
    (let key = catalog_key (eng_master e) table in
     rbind (store_get (w_read w key) (eng_store e) key) (\<lambda>found.
       case found of
         None \<Rightarrow> Ok None
       | Some sealed \<Rightarrow>
           rbind (crypto_res (cipher_open (derive_key (eng_master e) ''catalog'') sealed key)) (\<lambda>plain.
           rbind (decode_schema plain) (\<lambda>s. Ok (Some s)))))"

definition expect_schema :: "world \<Rightarrow> engine \<Rightarrow> string \<Rightarrow> table_schema res" where
  "expect_schema w e table =
    rbind (schema w e table) (ok_or (Schema_error (''no such table: '' @ debug_str table)))"

definition tables :: "world \<Rightarrow> engine \<Rightarrow> string list res" where
  "tables w e =
    rbind (store_scan_prefix (w_read w CATALOG_PREFIX) (eng_store e) CATALOG_PREFIX) (\<lambda>pairs.
    rbind (collect_res (map (\<lambda>(key, sealed).
        rbind (crypto_res (cipher_open (derive_key (eng_master e) ''catalog'') sealed key)) (\<lambda>plain.
        rbind (decode_schema plain) (\<lambda>s. Ok (ts_name s)))) pairs)) (\<lambda>names.
    Ok (sort_by (\<lambda>a b. cmp (as_bytes a) (as_bytes b)) names)))"

definition load_seq :: "world \<Rightarrow> engine \<Rightarrow> string \<Rightarrow> bytes \<Rightarrow> u64 res" where
  "load_seq w e table tkey =
    (let key = seq_key (eng_master e) table in
     rbind (store_get (w_read w key) (eng_store e) key) (\<lambda>found.
       case found of
         None \<Rightarrow> Ok 0
       | Some sealed \<Rightarrow>
           rbind (crypto_res (cipher_open tkey sealed key)) (\<lambda>plain.
             if length plain = 8 then Ok (word_of_nat (le_nat plain))
             else Err (Corrupt_error (''bad sequence for '' @ debug_str table)))))"

definition index_rowids :: "world \<Rightarrow> engine \<Rightarrow> string \<Rightarrow> bytes \<Rightarrow> nat \<Rightarrow> val \<Rightarrow> u64 list res" where
  "index_rowids w e table tkey col v =
    (let p = index_value_prefix (eng_master e) table col v in
     rbind (store_scan_prefix (w_read w p) (eng_store e) p) (\<lambda>pairs.
       collect_res (map (\<lambda>(key, sealed).
         rbind (crypto_res (cipher_open tkey sealed key)) (\<lambda>_. Ok (rowid_from_key key))) pairs)))"

definition load_range_index :: "world \<Rightarrow> engine \<Rightarrow> string \<Rightarrow> bytes \<Rightarrow> nat \<Rightarrow> (val \<times> u64) list res" where
  "load_range_index w e table tkey col =
    (let key = range_index_key (eng_master e) table col in
     rbind (store_get (w_read w key) (eng_store e) key) (\<lambda>found.
       case found of
         None \<Rightarrow> Ok []
       | Some sealed \<Rightarrow> rbind (crypto_res (cipher_open tkey sealed key)) decode_range_blob))"

text \<open>All rows of a table, in row-id order.\<close>

definition scan_rows :: "world \<Rightarrow> engine \<Rightarrow> string \<Rightarrow> bytes \<Rightarrow> (bytes \<times> val list) list res" where
  "scan_rows w e table tkey =
    (let p = row_prefix (eng_master e) table in
     rbind (store_scan_prefix (w_read w p) (eng_store e) p) (\<lambda>pairs.
       collect_res (map (\<lambda>(key, sealed). map_res (Pair key) (open_row tkey key sealed)) pairs)))"

text \<open>The rows with the given ids; an id without a row is skipped.\<close>

definition fetch_rows :: "world \<Rightarrow> engine \<Rightarrow> string \<Rightarrow> bytes \<Rightarrow> u64 list \<Rightarrow> (bytes \<times> val list) list res" where
  "fetch_rows w e table tkey ids =
    map_res (List.map_filter id)
      (collect_res (map (\<lambda>rowid.
        let key = row_key (eng_master e) table rowid in
        rbind (store_get (w_read w key) (eng_store e) key) (\<lambda>found.
          case found of
            None \<Rightarrow> Ok None
          | Some sealed \<Rightarrow> map_res (\<lambda>row. Some (key, row)) (open_row tkey key sealed))) ids))"

section \<open>The advisor\<close>

definition bump_stat :: "(col_stat \<Rightarrow> col_stat) \<Rightarrow> string \<Rightarrow> u64 \<Rightarrow> string \<Rightarrow>
    (string \<times> string, col_stat) btree \<Rightarrow> (string \<times> string, col_stat) btree" where
  "bump_stat count table scanned col stats =
    (let stat = (case bt_get stats (table, col) of
                   Some s \<Rightarrow> s | None \<Rightarrow> \<lparr>cs_eq = 0, cs_range = 0, cs_scan_rows = 0\<rparr>)
     in bt_insert (table, col) ((count stat)\<lparr>cs_scan_rows := cs_scan_rows stat + scanned\<rparr>) stats)"

definition record_query :: "string \<Rightarrow> compiled_expr \<Rightarrow> u64 \<Rightarrow> advisor \<Rightarrow> advisor" where
  "record_query table flt scanned adv =
    (case collect_predicates flt ({}, {}) of (eqs, ranges) \<Rightarrow>
       if eqs = {} \<and> ranges = {} then adv
       else
         let stats1 = fold (bump_stat (\<lambda>s. s\<lparr>cs_eq := cs_eq s + 1\<rparr>) table scanned) (sorted_list_of_set eqs) (adv_stats adv);
             stats2 = fold (bump_stat (\<lambda>s. s\<lparr>cs_range := cs_range s + 1\<rparr>) table scanned) (sorted_list_of_set ranges) stats1
         in \<lparr>adv_queries = adv_queries adv + 1, adv_stats = stats2\<rparr>)"

record index_advice =
  ia_table :: string
  ia_column :: string
  ia_range :: bool
  ia_predicates :: u64
  ia_scan_rows :: u64
  ia_statement :: string

definition advice_of :: "table_schema \<Rightarrow> string \<Rightarrow> string \<Rightarrow> col_stat \<Rightarrow> index_advice list" where
  "advice_of sch table column stat =
    (case column_index sch column of
       None \<Rightarrow> []
     | Some ci \<Rightarrow>
         let col = ts_columns sch ! ci in
         (if 0 < cs_eq stat \<and> \<not> cd_indexed col \<and> \<not> cd_primary_key col
          then [\<lparr>ia_table = table, ia_column = column, ia_range = False, ia_predicates = cs_eq stat,
                 ia_scan_rows = cs_scan_rows stat,
                 ia_statement = ''CREATE INDEX ON '' @ table @ '' ('' @ column @ '')''\<rparr>] else [])
         @ (if 0 < cs_range stat \<and> \<not> cd_range_indexed col
            then [\<lparr>ia_table = table, ia_column = column, ia_range = True, ia_predicates = cs_range stat,
                   ia_scan_rows = cs_scan_rows stat,
                   ia_statement = ''CREATE RANGE INDEX ON '' @ table @ '' ('' @ column @ '')''\<rparr>] else []))"

definition compare_advice :: "index_advice \<Rightarrow> index_advice \<Rightarrow> ordering" where
  "compare_advice a b =
    then_cmp (cmp (ia_scan_rows b) (ia_scan_rows a))
      (then_cmp (cmp (ia_predicates b) (ia_predicates a))
        (then_cmp (cmp (as_bytes (ia_table a)) (as_bytes (ia_table b)))
          (cmp (as_bytes (ia_column a)) (as_bytes (ia_column b)))))"

definition advise :: "world \<Rightarrow> engine \<Rightarrow> index_advice list res" where
  "advise w e =
    rbind (collect_res (map (\<lambda>((table, column), stat).
        map_res (\<lambda>found. case found of None \<Rightarrow> [] | Some sch \<Rightarrow> advice_of sch table column stat) (schema w e table))
      (adv_stats (eng_advisor e)))) (\<lambda>advice.
    Ok (sort_by compare_advice (concat advice)))"

definition advisor_query_count :: "engine \<Rightarrow> u64" where
  "advisor_query_count e = adv_queries (eng_advisor e)"

definition advisor_reset :: "engine \<Rightarrow> engine" where
  "advisor_reset e = e\<lparr>eng_advisor := advisor_default\<rparr>"

section \<open>Candidate rows\<close>

definition range_hits :: "cmp_op \<Rightarrow> val \<Rightarrow> (val \<times> u64) list \<Rightarrow> u64 list res" where
  "range_hits op v entries =
    map_res (List.map_filter id)
      (collect_res (map (\<lambda>(entry_value, rowid).
        if op = Ne then Err Panicked
        else Ok (if holds op (compare_values entry_value v) then Some rowid else None)) entries))"

definition candidate_rows ::
  "world \<Rightarrow> engine \<Rightarrow> string \<Rightarrow> table_schema \<Rightarrow> compiled_expr option \<Rightarrow> bytes \<Rightarrow> engine \<times> (bytes \<times> val list) list res" where
  "candidate_rows w e table sch flt tkey =
    (let note = (\<lambda>f scanned. e\<lparr>eng_advisor := record_query table f scanned (eng_advisor e)\<rparr>) in
     case (case flt of None \<Rightarrow> None | Some f \<Rightarrow> map_option (Pair f) (indexed_eq_value f sch)) of
       Some (f, col, v) \<Rightarrow>
         try_res e (rbind (index_rowids w e table tkey col v) (fetch_rows w e table tkey)) (\<lambda>rows. (note f 0, Ok rows))
     | None \<Rightarrow>
         (case (case flt of None \<Rightarrow> None | Some f \<Rightarrow> map_option (Pair f) (range_indexed_pred f sch)) of
            Some (f, col, op, v) \<Rightarrow>
              try_res e (rbind (load_range_index w e table tkey col) (\<lambda>entries.
                  rbind (range_hits op v entries) (fetch_rows w e table tkey))) (\<lambda>rows. (note f 0, Ok rows))
          | None \<Rightarrow>
              try_res e (scan_rows w e table tkey) (\<lambda>rows.
                (case flt of None \<Rightarrow> e | Some f \<Rightarrow> note f (word_of_nat (length rows)), Ok rows))))"

section \<open>Building a batch\<close>

text \<open>\<open>table_key.seal(plain, key)\<close> put under \<open>key\<close>.\<close>

definition seal_put :: "world \<Rightarrow> bytes \<Rightarrow> bytes \<Rightarrow> bytes \<Rightarrow> batch \<Rightarrow> batch" where
  "seal_put w ckey key plain b = batch_put b key (cipher_seal ckey (w_nonce w (length b)) plain key)"

definition add_schema :: "world \<Rightarrow> bytes \<Rightarrow> table_schema \<Rightarrow> batch \<Rightarrow> batch" where
  "add_schema w master sch b =
    seal_put w (derive_key master ''catalog'') (catalog_key master (ts_name sch)) (encode_schema sch) b"

definition add_seq :: "world \<Rightarrow> bytes \<Rightarrow> string \<Rightarrow> bytes \<Rightarrow> u64 \<Rightarrow> batch \<Rightarrow> batch" where
  "add_seq w master table tkey next_id b = seal_put w tkey (seq_key master table) (le_bytes 8 (unat next_id)) b"

definition add_range_blob :: "world \<Rightarrow> bytes \<Rightarrow> string \<Rightarrow> bytes \<Rightarrow> nat \<Rightarrow> (val \<times> u64) list \<Rightarrow> batch \<Rightarrow> batch" where
  "add_range_blob w master table tkey col entries b =
    seal_put w tkey (range_index_key master table col) (encode_range_blob entries) b"

definition add_index_entry :: "world \<Rightarrow> bytes \<Rightarrow> string \<Rightarrow> bytes \<Rightarrow> nat \<Rightarrow> val \<Rightarrow> u64 \<Rightarrow> batch \<Rightarrow> batch" where
  "add_index_entry w master table tkey col v rowid b =
    seal_put w tkey (index_entry_key master table col v rowid) [] b"

definition remove_index_entry :: "bytes \<Rightarrow> string \<Rightarrow> nat \<Rightarrow> val \<Rightarrow> u64 \<Rightarrow> batch \<Rightarrow> batch" where
  "remove_index_entry master table col v rowid b = batch_delete b (index_entry_key master table col v rowid)"

section \<open>Audited commits\<close>

definition audit_key_of :: "u64 \<Rightarrow> bytes" where
  "audit_key_of seq = AUDIT_PREFIX @ be_bytes 8 (unat seq)"

definition commit_with_audit ::
  "world \<Rightarrow> byte \<Rightarrow> bytes \<Rightarrow> bytes \<Rightarrow> batch \<Rightarrow> engine \<Rightarrow> engine \<times> unit res" where
  "commit_with_audit w kind tag writes_digest b e =
    (case eng_audit_head e of (seq, prev_root) \<Rightarrow>
     let entry = \<lparr>ae_seq = seq, ae_time = w_time w, ae_kind = kind, ae_table_tag = tag,
           ae_writes_digest = writes_digest, ae_prev_root = prev_root\<rparr>;
         root = audit_root_of entry;
         akey = derive_key (eng_master e) ''audit'';
         b1 = seal_put w akey (audit_key_of seq) (encode_audit entry) b;
         b2 = seal_put w akey AUDIT_HEAD_KEY (le_bytes 8 (unat (seq + 1)) @ root) b1
     in case store_commit (w_commit w) (eng_store e) b2 of
          (s, Err err) \<Rightarrow> (e\<lparr>eng_store := s\<rparr>, Err err)
        | (s, Ok _) \<Rightarrow> (e\<lparr>eng_store := s, eng_audit_head := (seq + 1, root)\<rparr>, Ok ()))"

definition commit_audited :: "world \<Rightarrow> byte \<Rightarrow> bytes \<Rightarrow> batch \<Rightarrow> engine \<Rightarrow> engine \<times> unit res" where
  "commit_audited w kind tag b e =
    (if b = [] then (e, Ok ()) else commit_with_audit w kind tag (digest_batch b) b e)"

text \<open>A commit followed by the statement's result.\<close>

definition finish :: "query_result \<Rightarrow> engine \<times> unit res \<Rightarrow> engine \<times> query_result res" where
  "finish q r = (fst r, map_res (\<lambda>_. q) (snd r))"

section \<open>Transactions\<close>

definition begin_transaction :: "engine \<Rightarrow> engine \<times> query_result res" where
  "begin_transaction e =
    (if in_transaction (eng_store e) then (e, Err (Schema_error ''a transaction is already open''))
     else (e\<lparr>eng_txn_audit_head := Some (eng_audit_head e), eng_store := store_begin (eng_store e)\<rparr>, Ok Begun))"

definition engine_commit_transaction :: "world \<Rightarrow> engine \<Rightarrow> engine \<times> query_result res" where
  "engine_commit_transaction w e =
    (if \<not> in_transaction (eng_store e) then (e, Err (Schema_error ''no transaction is open''))
     else
       case commit_transaction (w_commit w) (eng_store e) of
         (s, Err err) \<Rightarrow> (e\<lparr>eng_store := s\<rparr>, Err err)
       | (s, Ok _) \<Rightarrow> (e\<lparr>eng_store := s, eng_txn_audit_head := None\<rparr>, Ok Committed))"

definition engine_rollback_transaction :: "engine \<Rightarrow> engine \<times> query_result res" where
  "engine_rollback_transaction e =
    (if \<not> in_transaction (eng_store e) then (e, Err (Schema_error ''no transaction is open''))
     else
       let e1 = e\<lparr>eng_store := rollback_transaction (eng_store e)\<rparr>;
           e2 = (case eng_txn_audit_head e1 of
                   Some head \<Rightarrow> e1\<lparr>eng_txn_audit_head := None, eng_audit_head := head\<rparr>
                 | None \<Rightarrow> e1)
       in (e2, Ok Rolled_back))"

section \<open>Auditing\<close>

definition AUDIT_SIGNING_CONTEXT :: string where "AUDIT_SIGNING_CONTEXT = ''audit-signing''"
definition AUDIT_ROOT_MESSAGE_TAG :: bytes where "AUDIT_ROOT_MESSAGE_TAG = as_bytes ''ciphra/audit-root/v1''"

definition audit_root_message :: "u64 \<Rightarrow> bytes \<Rightarrow> bytes \<Rightarrow> bytes" where
  "audit_root_message seq root merkle_root = AUDIT_ROOT_MESSAGE_TAG @ le_bytes 8 (unat seq) @ root @ merkle_root"

definition audit_root :: "engine \<Rightarrow> u64 \<times> bytes" where
  "audit_root e = eng_audit_head e"

definition audit_verify :: "world \<Rightarrow> engine \<Rightarrow> audit_entry list res" where
  "audit_verify w e =
    rbind (store_scan_prefix (w_read w AUDIT_PREFIX) (eng_store e) AUDIT_PREFIX)
      (audit_check (derive_key (eng_master e) ''audit'') (eng_audit_head e))"

definition audit_leaves :: "world \<Rightarrow> engine \<Rightarrow> bytes list res" where
  "audit_leaves w e = map_res (map (\<lambda>entry. merkle_leaf (encode_audit entry))) (audit_verify w e)"

definition audit_merkle_root :: "world \<Rightarrow> engine \<Rightarrow> bytes res" where
  "audit_merkle_root w e = map_res merkle_root_of (audit_leaves w e)"

definition audit_inclusion_proof :: "world \<Rightarrow> engine \<Rightarrow> u64 \<Rightarrow> (audit_entry \<times> merkle_proof \<times> bytes) res" where
  "audit_inclusion_proof w e index = rbind (audit_verify w e) (\<lambda>entries. inclusion_proof entries index)"

section \<open>Opening\<close>

text \<open>\<open>open_store\<close>: parameters, master key, canary, audit head. A KDF panic is \<open>Panicked\<close>.\<close>

definition open_params :: "world \<Rightarrow> store \<Rightarrow> kdf_params \<Rightarrow> store \<times> (kdf_params \<times> bytes) res" where
  "open_params w s kdf =
    try_res s (store_get (w_read w KEYPARAMS_KEY) s KEYPARAMS_KEY) (\<lambda>found.
      case found of
        Some rec \<Rightarrow> (s, read_keyparams rec)
      | None \<Rightarrow>
          (case store_put (w_write w KEYPARAMS_KEY) s KEYPARAMS_KEY (encode_keyparams kdf (w_salt w)) of
             (s', r) \<Rightarrow> (s', map_res (\<lambda>_. (kdf, w_salt w)) r)))"

definition open_canary :: "world \<Rightarrow> store \<Rightarrow> bytes \<Rightarrow> store \<times> unit res" where
  "open_canary w s master =
    (let ckey = derive_key master ''canary'' in
     try_res s (store_get (w_read w CANARY_KEY) s CANARY_KEY) (\<lambda>found.
       case found of
         Some sealed \<Rightarrow>
           (s, case cipher_open ckey sealed CANARY_KEY of Ok _ \<Rightarrow> Ok () | Err _ \<Rightarrow> Err Bad_passphrase)
       | None \<Rightarrow> store_put (w_write w CANARY_KEY) s CANARY_KEY (cipher_seal ckey (w_nonce w 0) CANARY_PLAINTEXT CANARY_KEY)))"

definition open_audit_head :: "world \<Rightarrow> store \<Rightarrow> bytes \<Rightarrow> (u64 \<times> bytes) res" where
  "open_audit_head w s master =
    rbind (store_get (w_read w AUDIT_HEAD_KEY) s AUDIT_HEAD_KEY) (\<lambda>found.
      case found of
        None \<Rightarrow> Ok (0, GENESIS_ROOT)
      | Some sealed \<Rightarrow>
          rbind (crypto_res (cipher_open (derive_key master ''audit'') sealed AUDIT_HEAD_KEY)) (\<lambda>plain.
            if length plain \<noteq> 8 + 32 then Err (Corrupt_error ''bad audit head'')
            else Ok (word_of_nat (le_nat (take 8 plain)), drop 8 plain)))"

definition open_store :: "world \<Rightarrow> store \<Rightarrow> bool \<Rightarrow> string \<Rightarrow> kdf_params \<Rightarrow> store \<times> engine res" where
  "open_store w s0 is_local passphrase kdf0 =
    (case open_params w s0 kdf0 of
       (s1, Err err) \<Rightarrow> (s1, Err err)
     | (s1, Ok (kdf, salt)) \<Rightarrow>
         (case kdf_derive kdf passphrase salt of
            None \<Rightarrow> (s1, Err Panicked)
          | Some master \<Rightarrow>
              (case open_canary w s1 master of
                 (s2, Err err) \<Rightarrow> (s2, Err err)
               | (s2, Ok _) \<Rightarrow>
                   (s2, map_res (\<lambda>head. \<lparr>eng_store = s2, eng_master = master, eng_local = is_local,
                        eng_audit_head = head, eng_txn_audit_head = None, eng_advisor = advisor_default\<rparr>)
                      (open_audit_head w s2 master)))))"

text \<open>
  \<open>open_with_kdf\<close> on a data directory: the write-ahead log's contents (or the failure to read them)
  and the legacy sidecar file. A leftover rotation directory is deleted unread.
\<close>

definition open_with_kdf ::
  "world \<Rightarrow> (storage_error, bytes) result \<Rightarrow> bytes option \<Rightarrow> string \<Rightarrow> kdf_params \<Rightarrow> engine res" where
  "open_with_kdf w wal sidecar passphrase kdf =
    rbind (storage_res (storage_open wal)) (\<lambda>st.
      let s0 = store_local st in
      rbind (store_get (w_read w KEYPARAMS_KEY) s0 KEYPARAMS_KEY) (\<lambda>found.
        case (found, sidecar) of
          (None, Some contents) \<Rightarrow>
            rbind (read_keyparams contents) (\<lambda>(kdf1, salt).
              case store_put (w_write w KEYPARAMS_KEY) s0 KEYPARAMS_KEY (encode_keyparams kdf1 salt) of
                (s1, Err err) \<Rightarrow> Err err
              | (s1, Ok _) \<Rightarrow> snd (open_store w s1 True passphrase kdf))
        | _ \<Rightarrow> snd (open_store w s0 True passphrase kdf)))"

definition engine_open :: "world \<Rightarrow> (storage_error, bytes) result \<Rightarrow> bytes option \<Rightarrow> string \<Rightarrow> engine res" where
  "engine_open w wal sidecar passphrase = open_with_kdf w wal sidecar passphrase recommended"

definition open_with_iterations ::
  "world \<Rightarrow> (storage_error, bytes) result \<Rightarrow> bytes option \<Rightarrow> string \<Rightarrow> u32 \<Rightarrow> engine res" where
  "open_with_iterations w wal sidecar passphrase iterations =
    open_with_kdf w wal sidecar passphrase (Pbkdf2 iterations)"

definition open_remote_with_kdf :: "world \<Rightarrow> server_state \<Rightarrow> string \<Rightarrow> kdf_params \<Rightarrow> engine res" where
  "open_remote_with_kdf w server passphrase kdf = snd (open_store w (store_remote server) False passphrase kdf)"

definition open_remote :: "world \<Rightarrow> server_state \<Rightarrow> string \<Rightarrow> engine res" where
  "open_remote w server passphrase = open_remote_with_kdf w server passphrase recommended"

definition backup_to :: "world \<Rightarrow> engine \<Rightarrow> bytes res" where
  "backup_to w e = map_res write_snapshot (store_dump (w_read w []) (eng_store e))"

text \<open>
  \<open>restore_from\<close>: \<open>wal\<close> is the log already in the directory, if any; \<open>snapshot\<close> is \<open>None\<close> when it cannot
  be copied there.
\<close>

definition restore_from :: "world \<Rightarrow> bytes option \<Rightarrow> bytes option \<Rightarrow> bytes option \<Rightarrow> string \<Rightarrow> engine res" where
  "restore_from w snapshot wal sidecar passphrase =
    (if wal \<noteq> None then Err Io_error
     else
       rbind (ok_or Io_error snapshot) (\<lambda>copy.
       rbind (engine_open w (Ok copy) sidecar passphrase) (\<lambda>e.
       rbind (audit_verify w e) (\<lambda>_. Ok e))))"

end
