(* ===== verification/Statements.thy ===== *)
theory Statements
  imports Engine
begin

text \<open>
  The statements of \<open>crates/ciphra-engine/src/lib.rs\<close>, each as a function of the world and the engine
  to the engine after it and its result: DDL, \<open>INSERT\<close>, \<open>SELECT\<close>, \<open>UPDATE\<close>, \<open>DELETE\<close>, \<open>EXPLAIN\<close>, the
  dispatch of \<open>execute_statement\<close>, and the re-encryption of \<open>rotate_to\<close>. A row access out of bounds
  is \<open>Err Panicked\<close>.
\<close>

section \<open>Shared steps\<close>

definition unknown_column :: "string \<Rightarrow> string \<Rightarrow> engine_error" where
  "unknown_column column table =
    Schema_error (''unknown column '' @ debug_str column @ '' in table '' @ debug_str table)"

definition column_or_error :: "table_schema \<Rightarrow> string \<Rightarrow> string \<Rightarrow> nat res" where
  "column_or_error sch column table = ok_or (unknown_column column table) (column_index sch column)"

definition is_vector :: "data_type \<Rightarrow> bool" where
  "is_vector t = (case t of DVector _ \<Rightarrow> True | _ \<Rightarrow> False)"

definition update_column :: "table_schema \<Rightarrow> nat \<Rightarrow> (column_def \<Rightarrow> column_def) \<Rightarrow> table_schema" where
  "update_column sch col f = sch\<lparr>ts_columns := (ts_columns sch)[col := f (ts_columns sch ! col)]\<rparr>"

definition compile_filter :: "table_schema \<Rightarrow> expr option \<Rightarrow> compiled_expr option res" where
  "compile_filter sch p = (case p of None \<Rightarrow> Ok None | Some q \<Rightarrow> map_res Some (compile_expr sch q))"

definition row_matches :: "compiled_expr option \<Rightarrow> val list \<Rightarrow> bool res" where
  "row_matches flt row = (case flt of None \<Rightarrow> Ok True | Some f \<Rightarrow> expr_matches f row)"

text \<open>The rows of a list that match, in order; the first evaluation error wins.\<close>

definition matching :: "compiled_expr option \<Rightarrow> (bytes \<times> val list) list \<Rightarrow> (bytes \<times> val list) list res" where
  "matching flt rows =
    map_res (List.map_filter id)
      (collect_res (map (\<lambda>kr. map_res (\<lambda>m. if m then Some kr else None) (row_matches flt (snd kr))) rows))"

definition set_cell_res :: "val list \<Rightarrow> nat \<Rightarrow> val \<Rightarrow> val list res" where
  "set_cell_res row i v = (if i < length row then Ok (row[i := v]) else Err Panicked)"

definition delete_all :: "bytes list \<Rightarrow> batch \<Rightarrow> batch" where
  "delete_all keys b = foldl batch_delete b keys"

text \<open>The index entries of one row, for the maintained columns that are not null.\<close>

definition add_row_entries ::
  "world \<Rightarrow> bytes \<Rightarrow> string \<Rightarrow> bytes \<Rightarrow> nat list \<Rightarrow> val list \<Rightarrow> u64 \<Rightarrow> batch \<Rightarrow> batch res" where
  "add_row_entries w master table tkey maintained row rowid b =
    fold_res (\<lambda>b col. rbind (cell row col) (\<lambda>v.
      Ok (if v \<noteq> VNull then add_index_entry w master table tkey col v rowid b else b))) b maintained"

definition remove_row_entries :: "bytes \<Rightarrow> string \<Rightarrow> nat list \<Rightarrow> val list \<Rightarrow> u64 \<Rightarrow> batch \<Rightarrow> batch res" where
  "remove_row_entries master table maintained row rowid b =
    fold_res (\<lambda>b col. rbind (cell row col) (\<lambda>v.
      Ok (if v \<noteq> VNull then remove_index_entry master table col v rowid b else b))) b maintained"

section \<open>Data definition\<close>

fun first_duplicate :: "string list \<Rightarrow> string list \<Rightarrow> string option" where
  "first_duplicate seen [] = None"
| "first_duplicate seen (x # xs) = (if x \<in> set seen then Some x else first_duplicate (x # seen) xs)"

definition create_table_check :: "string \<Rightarrow> column_def list \<Rightarrow> unit res" where
  "create_table_check name columns =
    (case first_duplicate [] (map cd_name columns) of
       Some c \<Rightarrow> Err (Schema_error (''duplicate column '' @ debug_str c @ '' in table '' @ debug_str name))
     | None \<Rightarrow>
         if 1 < length (filter cd_primary_key columns) then
           Err (Schema_error (''table '' @ debug_str name @ '' declares more than one PRIMARY KEY column''))
         else
           (case find (\<lambda>c. cd_primary_key c \<and> is_vector (cd_ty c)) columns of
              Some c \<Rightarrow> Err (Schema_error (''vector column '' @ debug_str (cd_name c) @ '' cannot be a PRIMARY KEY''))
            | None \<Rightarrow> Ok ()))"

definition create_table :: "world \<Rightarrow> string \<Rightarrow> column_def list \<Rightarrow> engine \<Rightarrow> engine \<times> query_result res" where
  "create_table w name columns e =
    try_res e (schema w e name) (\<lambda>existing.
      if existing \<noteq> None then (e, Err (Schema_error (''table '' @ debug_str name @ '' already exists'')))
      else try_res e (create_table_check name columns) (\<lambda>_.
        let sch = \<lparr>ts_name = name, ts_columns = columns\<rparr>;
            b = add_schema w (eng_master e) sch []
        in finish (Created name) (commit_audited w CREATE_TABLE (table_tag (eng_master e) name) b e)))"

definition create_index :: "world \<Rightarrow> string \<Rightarrow> string \<Rightarrow> engine \<Rightarrow> engine \<times> query_result res" where
  "create_index w table column e =
    try_res e (expect_schema w e table) (\<lambda>sch.
    try_res e (column_or_error sch column table) (\<lambda>col.
      let c = ts_columns sch ! col in
      if cd_primary_key c then
        (e, Err (Schema_error (''column '' @ debug_str column @ '' is already indexed by PRIMARY KEY'')))
      else if cd_indexed c then
        (e, Err (Schema_error (''column '' @ debug_str column @ '' of table '' @ debug_str table @ '' is already indexed'')))
      else if is_vector (cd_ty c) then
        (e, Err (Schema_error (''vector column '' @ debug_str column @ '' cannot carry an equality index'')))
      else
        let m = eng_master e; tkey = table_key m table in
        try_res e (scan_rows w e table tkey) (\<lambda>rows.
        try_res e (fold_res (\<lambda>b (key, row).
            add_row_entries w m table tkey [col] row (rowid_from_key key) b) [] rows) (\<lambda>b.
          let b' = add_schema w m (update_column sch col (\<lambda>c. c\<lparr>cd_indexed := True\<rparr>)) b in
          finish (Index_created table column False) (commit_audited w CREATE_INDEX (table_tag m table) b' e)))))"

definition drop_index :: "world \<Rightarrow> string \<Rightarrow> string \<Rightarrow> engine \<Rightarrow> engine \<times> query_result res" where
  "drop_index w table column e =
    try_res e (expect_schema w e table) (\<lambda>sch.
    try_res e (column_or_error sch column table) (\<lambda>col.
      if \<not> cd_indexed (ts_columns sch ! col) then
        (e, Err (Schema_error (''column '' @ debug_str column @ '' of table '' @ debug_str table
          @ '' is not indexed (a PRIMARY KEY index cannot be dropped)'')))
      else
        let m = eng_master e; p = index_column_prefix m table col in
        try_res e (store_scan_prefix (w_read w p) (eng_store e) p) (\<lambda>pairs.
          let b = add_schema w m (update_column sch col (\<lambda>c. c\<lparr>cd_indexed := False\<rparr>)) (delete_all (map fst pairs) []) in
          finish (Index_dropped table column False) (commit_audited w DROP_INDEX (table_tag m table) b e))))"

definition range_entries_of :: "nat \<Rightarrow> (u64 \<times> val list) list \<Rightarrow> (val \<times> u64) list res" where
  "range_entries_of col rows =
    map_res (\<lambda>vs. map (\<lambda>(v, rowid). (v, rowid)) (filter (\<lambda>(v, rowid). v \<noteq> VNull) (zip vs (map fst rows))))
      (collect_res (map (\<lambda>(rowid, row). cell row col) rows))"

definition create_range_index :: "world \<Rightarrow> string \<Rightarrow> string \<Rightarrow> engine \<Rightarrow> engine \<times> query_result res" where
  "create_range_index w table column e =
    try_res e (expect_schema w e table) (\<lambda>sch.
    try_res e (column_or_error sch column table) (\<lambda>col.
      let c = ts_columns sch ! col in
      if cd_range_indexed c then
        (e, Err (Schema_error (''column '' @ debug_str column @ '' of table '' @ debug_str table
          @ '' already has a range index'')))
      else if is_vector (cd_ty c) then
        (e, Err (Schema_error (''vector column '' @ debug_str column
          @ '' has no order; a range index cannot serve it'')))
      else
        let m = eng_master e; tkey = table_key m table in
        try_res e (scan_rows w e table tkey) (\<lambda>rows.
        try_res e (range_entries_of col (map (\<lambda>(key, row). (rowid_from_key key, row)) rows)) (\<lambda>entries.
          let b = add_range_blob w m table tkey col (sort_range_entries entries) [];
              b' = add_schema w m (update_column sch col (\<lambda>c. c\<lparr>cd_range_indexed := True\<rparr>)) b
          in finish (Index_created table column True) (commit_audited w CREATE_INDEX (table_tag m table) b' e)))))"

definition drop_range_index :: "world \<Rightarrow> string \<Rightarrow> string \<Rightarrow> engine \<Rightarrow> engine \<times> query_result res" where
  "drop_range_index w table column e =
    try_res e (expect_schema w e table) (\<lambda>sch.
    try_res e (column_or_error sch column table) (\<lambda>col.
      if \<not> cd_range_indexed (ts_columns sch ! col) then
        (e, Err (Schema_error (''column '' @ debug_str column @ '' of table '' @ debug_str table @ '' has no range index'')))
      else
        let m = eng_master e;
            b = batch_delete [] (range_index_key m table col);
            b' = add_schema w m (update_column sch col (\<lambda>c. c\<lparr>cd_range_indexed := False\<rparr>)) b
        in finish (Index_dropped table column True) (commit_audited w DROP_INDEX (table_tag m table) b' e)))"

definition scan_keys :: "world \<Rightarrow> engine \<Rightarrow> bytes \<Rightarrow> bytes list res" where
  "scan_keys w e p = map_res (map fst) (store_scan_prefix (w_read w p) (eng_store e) p)"

definition drop_table :: "world \<Rightarrow> string \<Rightarrow> engine \<Rightarrow> engine \<times> query_result res" where
  "drop_table w name e =
    try_res e (expect_schema w e name) (\<lambda>_.
      let m = eng_master e in
      try_res e (collect_res (map (scan_keys w e) [row_prefix m name, index_prefix m name, range_prefix m name])) (\<lambda>keys.
        let b = batch_delete (batch_delete (delete_all (concat keys) []) (seq_key m name)) (catalog_key m name) in
        finish (Dropped name) (commit_audited w DROP_TABLE (table_tag m name) b e)))"

section \<open>Insert\<close>

definition insert_positions :: "table_schema \<Rightarrow> string \<Rightarrow> string list option \<Rightarrow> nat list res" where
  "insert_positions sch table columns =
    (case columns of
       None \<Rightarrow> Ok [0..<length (ts_columns sch)]
     | Some names \<Rightarrow> collect_res (map (\<lambda>n. column_or_error sch n table) names))"

definition build_row :: "table_schema \<Rightarrow> nat list \<Rightarrow> literal list \<Rightarrow> val list res" where
  "build_row sch positions literals =
    fold_res (\<lambda>row (pos, lit). map_res (\<lambda>v. row[pos := v]) (coerce lit (ts_columns sch ! pos)))
      (replicate (length (ts_columns sch)) VNull) (zip positions literals)"

definition check_primary_key ::
  "world \<Rightarrow> engine \<Rightarrow> string \<Rightarrow> table_schema \<Rightarrow> bytes \<Rightarrow> bytes list \<Rightarrow> val list \<Rightarrow> bytes list res" where
  "check_primary_key w e table sch tkey seen row =
    (case pk_column sch of
       None \<Rightarrow> Ok seen
     | Some pk \<Rightarrow>
         let v = row ! pk; name = cd_name (ts_columns sch ! pk); p = index_value_prefix (eng_master e) table pk v in
         if v = VNull then Err (Constraint_error (''primary key '' @ debug_str name @ '' cannot be NULL''))
         else if p \<in> set seen then Err (Constraint_error (''duplicate value for primary key '' @ debug_str name))
         else rbind (index_rowids w e table tkey pk v) (\<lambda>ids.
           if ids \<noteq> [] then Err (Constraint_error (''duplicate value for primary key '' @ debug_str name))
           else Ok (p # seen)))"

definition insert_row ::
  "world \<Rightarrow> engine \<Rightarrow> string \<Rightarrow> table_schema \<Rightarrow> bytes \<Rightarrow> nat list \<Rightarrow> val list list \<times> bytes list \<Rightarrow> literal list
    \<Rightarrow> (val list list \<times> bytes list) res" where
  "insert_row w e table sch tkey positions st literals =
    (case st of (rows, seen) \<Rightarrow>
      if length literals \<noteq> length positions then
        Err (Type_error (''expected '' @ show_nat (length positions) @ '' values, got '' @ show_nat (length literals)))
      else
        rbind (build_row sch positions literals) (\<lambda>row.
        rbind (check_primary_key w e table sch tkey seen row) (\<lambda>seen'. Ok (rows @ [row], seen'))))"

definition write_row ::
  "world \<Rightarrow> bytes \<Rightarrow> string \<Rightarrow> bytes \<Rightarrow> nat list \<Rightarrow> batch \<times> u64 \<Rightarrow> val list \<Rightarrow> (batch \<times> u64) res" where
  "write_row w master table tkey maintained st row =
    (case st of (b, next_id) \<Rightarrow>
      rbind (add_row_entries w master table tkey maintained row next_id
          (seal_put w tkey (row_key master table next_id) (encode_row row) b)) (\<lambda>b'. Ok (b', next_id + 1)))"

definition extend_range ::
  "world \<Rightarrow> engine \<Rightarrow> string \<Rightarrow> bytes \<Rightarrow> u64 \<Rightarrow> val list list \<Rightarrow> batch \<Rightarrow> nat \<Rightarrow> batch res" where
  "extend_range w e table tkey first_id rows b col =
    rbind (load_range_index w e table tkey col) (\<lambda>entries.
    rbind (range_entries_of col (zip (map (\<lambda>i. first_id + word_of_nat i) [0..<length rows]) rows)) (\<lambda>new.
      Ok (add_range_blob w (eng_master e) table tkey col (sort_range_entries (entries @ new)) b)))"

definition insert_stmt ::
  "world \<Rightarrow> string \<Rightarrow> string list option \<Rightarrow> literal list list \<Rightarrow> engine \<Rightarrow> engine \<times> query_result res" where
  "insert_stmt w table columns rows e =
    try_res e (expect_schema w e table) (\<lambda>sch.
    try_res e (insert_positions sch table columns) (\<lambda>positions.
      let m = eng_master e; tkey = table_key m table in
      try_res e (fold_res (insert_row w e table sch tkey positions) ([], []) rows) (\<lambda>(new_rows, _).
      try_res e (load_seq w e table tkey) (\<lambda>first_id.
      try_res e (fold_res (write_row w m table tkey (maintained_columns sch)) ([], first_id) new_rows) (\<lambda>(b, next_id).
        let b1 = add_seq w m table tkey next_id b in
        try_res e (fold_res (extend_range w e table tkey (next_id - word_of_nat (length new_rows)) new_rows) b1
            (range_indexed_columns sch)) (\<lambda>b2.
          finish (Inserted (length new_rows)) (commit_audited w INSERT (table_tag m table) b2 e)))))))"

section \<open>Select\<close>

definition cosine_distance :: "f32 list \<Rightarrow> f32 list \<Rightarrow> f32" where
  "cosine_distance a b =
    (case foldl (\<lambda>(dot, na, nb) (x, y).
        (f64_add dot (f64_mul (f64_of_f32 x) (f64_of_f32 y)),
         f64_add na (f64_mul (f64_of_f32 x) (f64_of_f32 x)),
         f64_add nb (f64_mul (f64_of_f32 y) (f64_of_f32 y)))) (0, 0, 0) (zip a b) of
      (dot, na, nb) \<Rightarrow>
        if f64_eq na 0 \<or> f64_eq nb 0 then 0x3F800000
        else f32_of_f64 (f64_sub 0x3FF0000000000000 (f64_div dot (f64_mul (f64_sqrt na) (f64_sqrt nb)))))"

definition total_key32 :: "f32 \<Rightarrow> int" where
  "total_key32 x = sint (if bit x 31 then x XOR 0x7FFFFFFF else x)"

fun rev_ordering :: "ordering \<Rightarrow> ordering" where
  "rev_ordering Less = Greater"
| "rev_ordering Equal = Equal"
| "rev_ordering Greater = Less"

definition sort_nearest :: "nat \<Rightarrow> f32 list \<Rightarrow> val list list \<Rightarrow> val list list res" where
  "sort_nearest index query rows =
    map_res (\<lambda>vs. map snd (sort_by (\<lambda>a b. cmp (total_key32 (fst a)) (total_key32 (fst b)))
        (zip (map (\<lambda>v. case v of VVector x \<Rightarrow> cosine_distance x query | _ \<Rightarrow> 0x7F800000) vs) rows)))
      (collect_res (map (\<lambda>row. cell row index) rows))"

definition sort_rows :: "table_schema \<Rightarrow> nat \<Rightarrow> order_by \<Rightarrow> val list list \<Rightarrow> val list list res" where
  "sort_rows sch index ob rows =
    (let vec = is_vector (cd_ty (ts_columns sch ! index)) in
     case ob_nearest_to ob of
       Some query \<Rightarrow>
         if \<not> vec then Err (Type_error (''NEAREST TO requires a VECTOR column; '' @ debug_str (ob_column ob) @ '' is not one''))
         else sort_nearest index query rows
     | None \<Rightarrow>
         if vec then Err (Type_error (''vector column '' @ debug_str (ob_column ob) @ '' has no order; use ORDER BY ''
           @ ob_column ob @ '' NEAREST TO [..]''))
         else if 1 < length rows \<and> \<not> list_all (\<lambda>row. index < length row) rows then Err Panicked
         else Ok (sort_by (\<lambda>a b. let ord = compare_values (a ! index) (b ! index) in
                if ob_descending ob then rev_ordering ord else ord) rows))"

definition project_row :: "nat list \<Rightarrow> val list \<Rightarrow> val list res" where
  "project_row output row = collect_res (map (cell row) output)"

definition select_output :: "table_schema \<Rightarrow> string \<Rightarrow> projection \<Rightarrow> nat list res" where
  "select_output sch table proj =
    (case proj of
       All_columns \<Rightarrow> Ok [0..<length (ts_columns sch)]
     | Columns names \<Rightarrow> collect_res (map (\<lambda>n. column_or_error sch n table) names)
     | Items _ \<Rightarrow> Err Panicked)"

definition sort_index_of :: "table_schema \<Rightarrow> string \<Rightarrow> order_by option \<Rightarrow> (nat \<times> order_by) option res" where
  "sort_index_of sch table ob =
    (case ob of
       None \<Rightarrow> Ok None
     | Some o' \<Rightarrow> map_res (\<lambda>i. Some (i, o')) (column_or_error sch (ob_column o') table))"

definition select_stmt ::
  "world \<Rightarrow> string \<Rightarrow> projection \<Rightarrow> expr option \<Rightarrow> string list \<Rightarrow> having_expr option \<Rightarrow> order_by option \<Rightarrow>
    limit option \<Rightarrow> engine \<Rightarrow> engine \<times> query_result res" where
  "select_stmt w table proj predicate group_by having ob lim e =
    try_res e (expect_schema w e table) (\<lambda>sch.
    try_res e (compile_filter sch predicate) (\<lambda>flt.
      let tkey = table_key (eng_master e) table in
      case proj of
        Items items \<Rightarrow>
          if ob \<noteq> None then
            (e, Err (Schema_error ''ORDER BY is not yet supported with aggregates or GROUP BY''))
          else
            (case candidate_rows w e table sch flt tkey of
               (e1, r) \<Rightarrow>
                 try_res e1 (rbind r (matching flt)) (\<lambda>rows.
                   (e1, aggregate sch table items group_by having (map snd rows) lim)))
      | _ \<Rightarrow>
          try_res e (select_output sch table proj) (\<lambda>output.
          try_res e (sort_index_of sch table ob) (\<lambda>srt.
            (case candidate_rows w e table sch flt tkey of
               (e1, r) \<Rightarrow>
                 try_res e1 (rbind r (matching flt)) (\<lambda>rows.
                   (e1, rbind (case srt of None \<Rightarrow> Ok (map snd rows) | Some (i, o') \<Rightarrow> sort_rows sch i o' (map snd rows)) (\<lambda>sorted_rows.
                        rbind (collect_res (map (project_row output) (apply_limit lim sorted_rows))) (\<lambda>out.
                        Ok (Rows (map (\<lambda>i. cd_name (ts_columns sch ! i)) output) out))))))))))"

section \<open>Update\<close>

definition resolve_assignment ::
  "table_schema \<Rightarrow> string \<Rightarrow> (nat \<times> val) list \<Rightarrow> assignment \<Rightarrow> (nat \<times> val) list res" where
  "resolve_assignment sch table resolved a =
    rbind (column_or_error sch (as_column a) table) (\<lambda>index.
      if index \<in> set (map fst resolved) then
        Err (Schema_error (''column '' @ debug_str (as_column a) @ '' assigned twice''))
      else map_res (\<lambda>v. resolved @ [(index, v)]) (coerce (as_value a) (ts_columns sch ! index)))"

definition apply_assignments :: "(nat \<times> val) list \<Rightarrow> val list \<Rightarrow> val list res" where
  "apply_assignments resolved row = fold_res (\<lambda>r (i, v). set_cell_res r i v) row resolved"

type_synonym change = "bytes \<times> val list \<times> val list"

definition changed_rows ::
  "compiled_expr option \<Rightarrow> (nat \<times> val) list \<Rightarrow> (bytes \<times> val list) list \<Rightarrow> change list res" where
  "changed_rows flt resolved rows =
    map_res (List.map_filter id)
      (collect_res (map (\<lambda>(key, row). rbind (row_matches flt row) (\<lambda>m.
         if m then map_res (\<lambda>new. Some (key, row, new)) (apply_assignments resolved row) else Ok None)) rows))"

definition check_new_pk ::
  "world \<Rightarrow> engine \<Rightarrow> string \<Rightarrow> table_schema \<Rightarrow> bytes \<Rightarrow> (nat \<times> val) list \<Rightarrow> change list \<Rightarrow> unit res" where
  "check_new_pk w e table sch tkey resolved changed =
    (case pk_column sch of
       None \<Rightarrow> Ok ()
     | Some pk \<Rightarrow>
         (case map_of resolved pk of
            None \<Rightarrow> Ok ()
          | Some new_pk \<Rightarrow>
              let name = debug_str (cd_name (ts_columns sch ! pk)) in
              if new_pk = VNull then Err (Constraint_error (''primary key '' @ name @ '' cannot be NULL''))
              else if 1 < length changed then
                Err (Constraint_error (''UPDATE would assign the same primary key to ''
                  @ show_nat (length changed) @ '' rows''))
              else
                (case changed of
                   [] \<Rightarrow> Ok ()
                 | (key, _, _) # _ \<Rightarrow>
                     rbind (index_rowids w e table tkey pk new_pk) (\<lambda>holders.
                       if \<exists>h \<in> set holders. h \<noteq> rowid_from_key key
                       then Err (Constraint_error (''duplicate value for primary key '' @ name))
                       else Ok ()))))"

definition reindex_cell ::
  "world \<Rightarrow> bytes \<Rightarrow> string \<Rightarrow> bytes \<Rightarrow> val list \<Rightarrow> val list \<Rightarrow> u64 \<Rightarrow> batch \<Rightarrow> nat \<Rightarrow> batch res" where
  "reindex_cell w master table tkey old new rowid b col =
    rbind (cell old col) (\<lambda>v. rbind (cell new col) (\<lambda>v'.
      Ok (if val_eq v v' then b
          else
            let b1 = (if v \<noteq> VNull then remove_index_entry master table col v rowid b else b) in
            if v' \<noteq> VNull then add_index_entry w master table tkey col v' rowid b1 else b1)))"

definition write_change ::
  "world \<Rightarrow> bytes \<Rightarrow> string \<Rightarrow> bytes \<Rightarrow> nat list \<Rightarrow> batch \<Rightarrow> change \<Rightarrow> batch res" where
  "write_change w master table tkey maintained b ch =
    (case ch of (key, old, new) \<Rightarrow>
      rbind (fold_res (reindex_cell w master table tkey old new (rowid_from_key key)) b maintained) (\<lambda>b1.
        Ok (seal_put w tkey key (encode_row new) b1)))"

text \<open>\<open>entries.retain(|(v, id)| !(id == rowid && v == old))\<close>\<close>

definition retain_other :: "u64 \<Rightarrow> val \<Rightarrow> (val \<times> u64) list \<Rightarrow> (val \<times> u64) list" where
  "retain_other rowid old entries = filter (\<lambda>(v, i). \<not> (i = rowid \<and> val_eq v old)) entries"

definition move_entry :: "nat \<Rightarrow> (val \<times> u64) list \<Rightarrow> change \<Rightarrow> (val \<times> u64) list res" where
  "move_entry col entries ch =
    (case ch of (key, old, new) \<Rightarrow>
      rbind (cell old col) (\<lambda>v. rbind (cell new col) (\<lambda>v'.
        Ok (if val_eq v v' then entries
            else retain_other (rowid_from_key key) v entries @ (if v' \<noteq> VNull then [(v', rowid_from_key key)] else [])))))"

definition rewrite_range ::
  "world \<Rightarrow> engine \<Rightarrow> string \<Rightarrow> bytes \<Rightarrow> change list \<Rightarrow> batch \<Rightarrow> nat \<Rightarrow> batch res" where
  "rewrite_range w e table tkey changed b col =
    rbind (collect_res (map (\<lambda>(key, old, new). rbind (cell old col) (\<lambda>v. map_res (val_eq v) (cell new col))) changed)) (\<lambda>same.
      if list_all id same then Ok b
      else
        rbind (load_range_index w e table tkey col) (\<lambda>entries.
        rbind (fold_res (move_entry col) entries changed) (\<lambda>entries'.
          Ok (add_range_blob w (eng_master e) table tkey col (sort_range_entries entries') b))))"

definition update_stmt ::
  "world \<Rightarrow> string \<Rightarrow> assignment list \<Rightarrow> expr option \<Rightarrow> engine \<Rightarrow> engine \<times> query_result res" where
  "update_stmt w table assignments predicate e =
    try_res e (expect_schema w e table) (\<lambda>sch.
    try_res e (compile_filter sch predicate) (\<lambda>flt.
    try_res e (fold_res (resolve_assignment sch table) [] assignments) (\<lambda>resolved.
      let m = eng_master e; tkey = table_key m table in
      case candidate_rows w e table sch flt tkey of
        (e1, r) \<Rightarrow>
          try_res e1 (rbind r (changed_rows flt resolved)) (\<lambda>changed.
          try_res e1 (check_new_pk w e1 table sch tkey resolved changed) (\<lambda>_.
          try_res e1 (fold_res (write_change w m table tkey (maintained_columns sch)) [] changed) (\<lambda>b.
          try_res e1 (fold_res (rewrite_range w e1 table tkey changed) b (range_indexed_columns sch)) (\<lambda>b1.
            finish (Updated (length changed)) (commit_audited w UPDATE (table_tag m table) b1 e1))))))))"

section \<open>Delete\<close>

definition delete_row :: "bytes \<Rightarrow> string \<Rightarrow> nat list \<Rightarrow> batch \<Rightarrow> bytes \<times> val list \<Rightarrow> batch res" where
  "delete_row master table maintained b kr =
    (case kr of (key, row) \<Rightarrow>
      map_res (\<lambda>b1. batch_delete b1 key) (remove_row_entries master table maintained row (rowid_from_key key) b))"

definition shrink_range ::
  "world \<Rightarrow> engine \<Rightarrow> string \<Rightarrow> bytes \<Rightarrow> (bytes \<times> val list) list \<Rightarrow> batch \<Rightarrow> nat \<Rightarrow> batch res" where
  "shrink_range w e table tkey doomed b col =
    rbind (collect_res (map (\<lambda>(key, row). cell row col) doomed)) (\<lambda>vs.
      if list_all (\<lambda>v. v = VNull) vs then Ok b
      else
        rbind (load_range_index w e table tkey col) (\<lambda>entries.
          Ok (add_range_blob w (eng_master e) table tkey col
            (foldl (\<lambda>es (key, v). retain_other (rowid_from_key key) v es) entries (zip (map fst doomed) vs)) b)))"

definition delete_stmt :: "world \<Rightarrow> string \<Rightarrow> expr option \<Rightarrow> engine \<Rightarrow> engine \<times> query_result res" where
  "delete_stmt w table predicate e =
    try_res e (expect_schema w e table) (\<lambda>sch.
    try_res e (compile_filter sch predicate) (\<lambda>flt.
      let m = eng_master e; tkey = table_key m table in
      case candidate_rows w e table sch flt tkey of
        (e1, r) \<Rightarrow>
          try_res e1 (rbind r (matching flt)) (\<lambda>doomed.
          try_res e1 (fold_res (delete_row m table (maintained_columns sch)) [] doomed) (\<lambda>b.
          try_res e1 (fold_res (shrink_range w e1 table tkey doomed) b (range_indexed_columns sch)) (\<lambda>b1.
            finish (Deleted (length doomed)) (commit_audited w DELETE (table_tag m table) b1 e1))))))"

section \<open>Explain\<close>

definition plan_step :: "string \<Rightarrow> table_schema \<Rightarrow> compiled_expr option \<Rightarrow> string" where
  "plan_step action sch flt =
    (let name = (\<lambda>col. ts_name sch @ ''.'' @ cd_name (ts_columns sch ! col)) in
     case (case flt of None \<Rightarrow> None | Some f \<Rightarrow> indexed_eq_value f sch) of
       Some (col, _) \<Rightarrow>
         action @ '': '' @ (if cd_primary_key (ts_columns sch ! col) then ''primary key'' else ''secondary index'')
         @ '' lookup on '' @ name col
     | None \<Rightarrow>
         (case (case flt of None \<Rightarrow> None | Some f \<Rightarrow> range_indexed_pred f sch) of
            Some (col, op, _) \<Rightarrow>
              action @ '': sealed range-index scan on '' @ name col @ '' ('' @ show_cmp_op op @ '')''
          | None \<Rightarrow> action @ '': full scan of '' @ ts_name sch))"

definition order_step :: "order_by \<Rightarrow> string" where
  "order_step ob =
    (case ob_nearest_to ob of
       Some _ \<Rightarrow> ''brute-force cosine scan: nearest to query vector on '' @ ob_column ob
     | None \<Rightarrow> ''sort by '' @ ob_column ob @ (if ob_descending ob then '' DESC'' else []))"

definition limit_step :: "limit \<Rightarrow> string" where
  "limit_step l = ''limit '' @ show_nat (unat (lim_count l)) @ '' offset '' @ show_nat (unat (lim_offset l))"

definition explain_parts ::
  "statement \<Rightarrow> (string \<times> string \<times> expr option \<times> order_by option \<times> limit option) option" where
  "explain_parts st =
    (case st of
       Select _ table predicate _ _ ob lim \<Rightarrow> Some (''SELECT'', table, predicate, ob, lim)
     | Update table _ predicate \<Rightarrow> Some (''UPDATE'', table, predicate, None, None)
     | Delete table predicate \<Rightarrow> Some (''DELETE'', table, predicate, None, None)
     | _ \<Rightarrow> None)"

definition explain_stmt :: "world \<Rightarrow> statement \<Rightarrow> engine \<Rightarrow> query_result res" where
  "explain_stmt w inner e =
    (case explain_parts inner of
       None \<Rightarrow> Err (Schema_error ''EXPLAIN supports SELECT, UPDATE and DELETE'')
     | Some (action, table, predicate, ob, lim) \<Rightarrow>
         rbind (expect_schema w e table) (\<lambda>sch.
         rbind (compile_filter sch predicate) (\<lambda>flt.
           let steps = [plan_step action sch flt]
             @ (case predicate of None \<Rightarrow> [] | Some p \<Rightarrow> [''filter: '' @ show_expr (w_fmt64 w) (w_fmt32 w) p])
             @ (case ob of None \<Rightarrow> [] | Some o' \<Rightarrow> [order_step o'])
             @ (case lim of None \<Rightarrow> [] | Some l \<Rightarrow> [limit_step l])
           in Ok (Rows [''plan''] (map (\<lambda>s. [VText s]) steps)))))"

section \<open>Dispatch\<close>

definition execute_statement :: "world \<Rightarrow> statement \<Rightarrow> engine \<Rightarrow> engine \<times> query_result res" where
  "execute_statement w st e =
    (case st of
       Create_table name columns \<Rightarrow> create_table w name columns e
     | Drop_table name \<Rightarrow> drop_table w name e
     | Create_index table column is_range \<Rightarrow>
         if is_range then create_range_index w table column e else create_index w table column e
     | Drop_index table column is_range \<Rightarrow>
         if is_range then drop_range_index w table column e else drop_index w table column e
     | Insert table columns rows \<Rightarrow> insert_stmt w table columns rows e
     | Select proj table predicate group_by having ob lim \<Rightarrow> select_stmt w table proj predicate group_by having ob lim e
     | Update table assignments predicate \<Rightarrow> update_stmt w table assignments predicate e
     | Delete table predicate \<Rightarrow> delete_stmt w table predicate e
     | Explain inner \<Rightarrow> (e, explain_stmt w inner e)
     | Begin \<Rightarrow> begin_transaction e
     | Commit \<Rightarrow> engine_commit_transaction w e
     | Rollback \<Rightarrow> engine_rollback_transaction e)"

text \<open>\<open>execute\<close>, after parsing: each statement in its own world, up to the first error.\<close>

fun execute_statements :: "(world \<times> statement) list \<Rightarrow> engine \<Rightarrow> engine \<times> query_result list res" where
  "execute_statements [] e = (e, Ok [])"
| "execute_statements ((w, st) # rest) e =
    (case execute_statement w st e of
       (e1, Err err) \<Rightarrow> (e1, Err err)
     | (e1, Ok r) \<Rightarrow> (case execute_statements rest e1 of (e2, rs) \<Rightarrow> (e2, map_res (Cons r) rs)))"

section \<open>Key rotation\<close>

text \<open>
  \<open>rotate_to\<close>: everything is read through the current master key, written into a scratch database
  under the new one, one batch per table, and the scratch log replaces the live log. The scratch
  database's own worlds provide its salt, nonces and outcomes; \<open>w_old\<close> serves the reads.
\<close>

type_synonym table_snapshot = "table_schema \<times> u64 \<times> (u64 \<times> val list) list"

definition snapshot_table :: "world \<Rightarrow> engine \<Rightarrow> string \<Rightarrow> table_snapshot res" where
  "snapshot_table w e name =
    rbind (expect_schema w e name) (\<lambda>sch.
      let tkey = table_key (eng_master e) name in
      rbind (load_seq w e name tkey) (\<lambda>seq.
      rbind (scan_rows w e name tkey) (\<lambda>rows.
      Ok (sch, seq, map (\<lambda>(key, row). (rowid_from_key key, row)) rows))))"

definition rotate_batch :: "world \<Rightarrow> bytes \<Rightarrow> table_snapshot \<Rightarrow> batch res" where
  "rotate_batch w master snap =
    (case snap of (sch, seq, rows) \<Rightarrow>
     let name = ts_name sch; tkey = table_key master name;
         b0 = add_seq w master name tkey seq (add_schema w master sch []) in
     rbind (fold_res (\<lambda>b (rowid, row).
         add_row_entries w master name tkey (maintained_columns sch) row rowid
           (seal_put w tkey (row_key master name rowid) (encode_row row) b)) b0 rows) (\<lambda>b1.
     fold_res (\<lambda>b col. map_res (\<lambda>entries. add_range_blob w master name tkey col (sort_range_entries entries) b)
         (range_entries_of col rows)) b1 (range_indexed_columns sch)))"

definition commit_snapshot :: "(nat \<Rightarrow> world) \<Rightarrow> engine \<Rightarrow> nat \<times> table_snapshot \<Rightarrow> engine res" where
  "commit_snapshot ws fresh isnap =
    (case isnap of (i, snap) \<Rightarrow>
     rbind (rotate_batch (ws i) (eng_master fresh) snap) (\<lambda>b.
       case store_commit (w_commit (ws i)) (eng_store fresh) b of
         (s, r) \<Rightarrow> map_res (\<lambda>_. fresh\<lparr>eng_store := s\<rparr>) r))"

definition reseal_audit :: "world \<Rightarrow> bytes \<Rightarrow> bytes \<Rightarrow> (bytes \<times> bytes) list \<Rightarrow> batch res" where
  "reseal_audit w old_key new_key pairs =
    fold_res (\<lambda>b (key, sealed). rbind (crypto_res (cipher_open old_key sealed key)) (\<lambda>plain.
      Ok (seal_put w new_key key plain b))) [] pairs"

definition rotate_fresh ::
  "world \<Rightarrow> world \<Rightarrow> (nat \<Rightarrow> world) \<Rightarrow> world \<Rightarrow> world \<Rightarrow> string \<Rightarrow> kdf_params \<Rightarrow> engine \<Rightarrow> engine res" where
  "rotate_fresh w_old w_open w_tables w_audit w_final new_passphrase kdf e =
    rbind (tables w_old e) (\<lambda>names.
    rbind (collect_res (map (snapshot_table w_old e) names)) (\<lambda>snaps.
    rbind (open_with_kdf w_open (Ok []) None new_passphrase kdf) (\<lambda>fresh0.
    rbind (fold_res (commit_snapshot w_tables) fresh0 (enumerate 0 snaps)) (\<lambda>fresh1.
    rbind (store_scan_prefix (w_read w_old AUDIT_PREFIX) (eng_store e) AUDIT_PREFIX) (\<lambda>pairs.
    rbind (reseal_audit w_audit (derive_key (eng_master e) ''audit'') (derive_key (eng_master fresh1) ''audit'') pairs) (\<lambda>b.
      case store_commit (w_commit w_audit) (eng_store fresh1) b of
        (s, Err err) \<Rightarrow> Err err
      | (s, Ok _) \<Rightarrow>
          (case commit_with_audit w_final ROTATE (replicate 16 0) (replicate 32 0) []
                  (fresh1\<lparr>eng_store := s, eng_audit_head := eng_audit_head e\<rparr>) of
             (fresh2, r) \<Rightarrow> map_res (\<lambda>_. fresh2) r)))))))"

text \<open>
  The switch: the scratch log becomes the live log and is reopened. A failed rename leaves the engine
  as it was; after the rename the old engine's file handle is the unlinked old log, which an error
  on reopening leaves in use.
\<close>

definition wal_of :: "engine \<Rightarrow> bytes" where
  "wal_of e = st_wal (backend_storage (sto_backend (eng_store e)))"

fun unlink_log :: "backend \<Rightarrow> backend" where
  "unlink_log (Local s) = Local (s\<lparr>st_live := False\<rparr>)"
| "unlink_log (Remote r) = Remote r"

definition unlinked :: "engine \<Rightarrow> engine" where
  "unlinked e = e\<lparr>eng_store := (eng_store e)\<lparr>sto_backend := unlink_log (sto_backend (eng_store e))\<rparr>\<rparr>"

definition rotate_to ::
  "world \<Rightarrow> world \<Rightarrow> (nat \<Rightarrow> world) \<Rightarrow> world \<Rightarrow> world \<Rightarrow> bool \<Rightarrow> world \<Rightarrow> string \<Rightarrow> kdf_params \<Rightarrow> engine \<Rightarrow> engine \<times> unit res" where
  "rotate_to w_old w_open w_tables w_audit w_final rename_ok w_reopen new_passphrase kdf e =
    (if \<not> eng_local e then
       (e, Err (Schema_error (''key rotation runs on the host that owns the database file; ''
          @ ''open the data directory locally to rotate'')))
     else
       try_res e (rotate_fresh w_old w_open w_tables w_audit w_final new_passphrase kdf e) (\<lambda>fresh.
         if \<not> rename_ok then (e, Err Io_error)
         else try_res (unlinked e) (engine_open w_reopen (Ok (wal_of fresh)) None new_passphrase) (\<lambda>e'. (e', Ok ()))))"

end
