(* ===== verification/Lexer.thy ===== *)
theory Lexer
  imports Ast Float64
begin

text \<open>
  The tokenizer, \<open>crates/ciphra-sql/src/lexer.rs\<close>. The code walks an index through the UTF-8 bytes of its
  input; here each step works on the bytes that remain. Error messages render floats and one
  unexpected character through the standard library, whose three renderings are a parameter.
\<close>

section \<open>Tokens\<close>

record display =
  d_f64 :: "f64 \<Rightarrow> string"
  d_f32 :: "f32 \<Rightarrow> string"
  d_char :: "string \<Rightarrow> string"

datatype token =
    TIdent string | TInt i64 | TFloat f64 | TStr string
  | TComma | TLBracket | TRBracket | TLParen | TRParen | TStar | TSemi | TMinus
  | TEq | TNe | TLt | TGt | TLe | TGe

text \<open>A \<open>ParseError\<close> of the code, or a panic (an \<open>unreachable!\<close>).\<close>

datatype perr = ParseError parse_error | Parser_panic

definition quote :: char where "quote = CHR 0x27"

fun show_token :: "display \<Rightarrow> token \<Rightarrow> string" where
  "show_token d (TIdent s) = s"
| "show_token d (TInt n) = show_int (sint n)"
| "show_token d (TFloat x) = d_f64 d x"
| "show_token d (TStr s) = [quote] @ s @ [quote]"
| "show_token d TComma = '',''"
| "show_token d TLBracket = ''[''"
| "show_token d TRBracket = '']''"
| "show_token d TLParen = ''(''"
| "show_token d TRParen = '')''"
| "show_token d TStar = ''*''"
| "show_token d TSemi = '';''"
| "show_token d TMinus = ''-''"
| "show_token d TEq = ''=''"
| "show_token d TNe = ''!=''"
| "show_token d TLt = ''<''"
| "show_token d TGt = ''>''"
| "show_token d TLe = ''<=''"
| "show_token d TGe = ''>=''"

section \<open>Characters and numbers\<close>

definition code :: "char \<Rightarrow> nat" where "code c = of_char c"

definition is_digit :: "char \<Rightarrow> bool" where "is_digit c \<longleftrightarrow> 48 \<le> code c \<and> code c \<le> 57"
definition is_upper :: "char \<Rightarrow> bool" where "is_upper c \<longleftrightarrow> 65 \<le> code c \<and> code c \<le> 90"
definition is_lower :: "char \<Rightarrow> bool" where "is_lower c \<longleftrightarrow> 97 \<le> code c \<and> code c \<le> 122"
definition is_space :: "char \<Rightarrow> bool" where "is_space c \<longleftrightarrow> code c = 32 \<or> code c = 9 \<or> code c = 13 \<or> code c = 10"

definition ident_start :: "char \<Rightarrow> bool" where "ident_start c \<longleftrightarrow> is_lower c \<or> is_upper c \<or> c = CHR ''_''"
definition ident_char :: "char \<Rightarrow> bool" where "ident_char c \<longleftrightarrow> ident_start c \<or> is_digit c"

definition to_lower :: "char \<Rightarrow> char" where "to_lower c = (if is_upper c then char_of (code c + 32) else c)"

text \<open>Decimal digits as a number, and \<open>parse::<f64>\<close> of \<open>digits.digits\<close> (rounded to nearest, ties to even).\<close>

definition text_nat :: "string \<Rightarrow> nat" where
  "text_nat s = foldl (\<lambda>n c. 10 * n + (code c - 48)) 0 s"

definition f64_of_decimal :: "string \<Rightarrow> string \<Rightarrow> f64" where
  "f64_of_decimal ip fp = f64_of_ratio False (text_nat (ip @ fp)) (10 ^ length fp)"

text \<open>The first character of a UTF-8 string.\<close>

definition first_char :: "string \<Rightarrow> string" where
  "first_char s = take (let n = code (hd s) in if n < 0x80 then 1 else if n < 0xE0 then 2 else if n < 0xF0 then 3 else 4) s"

section \<open>String literals\<close>

lemma dropWhile_Cons_shorter: "dropWhile p s = x # r \<Longrightarrow> length r < length s"
  using length_dropWhile_le [of p s] by simp

text \<open>The loop of \<open>lex_string\<close>: \<open>s\<close> is what follows the opening quote; the result is the content and the rest.\<close>

function lex_string :: "string \<Rightarrow> string \<Rightarrow> (perr, string \<times> string) result" where
  "lex_string acc s =
    (case dropWhile (\<lambda>c. c \<noteq> quote) s of
       [] \<Rightarrow> Err (ParseError ''unterminated string literal'')
     | _ # r \<Rightarrow>
         let acc' = acc @ takeWhile (\<lambda>c. c \<noteq> quote) s in
         (case r of
            c # r' \<Rightarrow> if c = quote then lex_string (acc' @ [quote]) r' else Ok (acc', r)
          | [] \<Rightarrow> Ok (acc', r)))"
  by pat_completeness auto

termination
  by (relation "measure (\<lambda>(acc, s). length s)") (simp, drule dropWhile_Cons_shorter, simp)

declare lex_string.simps [simp del]

lemma lex_string_shorter: "lex_string acc s = Ok (t, r) \<Longrightarrow> length r < length s"
proof (induction acc s rule: lex_string.induct)
  case (1 acc s)
  from "1.prems" obtain q u where dw: "dropWhile (\<lambda>c. c \<noteq> quote) s = q # u"
    by (subst (asm) lex_string.simps) (auto split: list.splits)
  note lt = dropWhile_Cons_shorter [OF dw]
  show ?case
  proof (cases "\<exists>r'. u = quote # r'")
    case True
    then obtain r' where u: "u = quote # r'" by blast
    from "1.prems" dw u have "lex_string ((acc @ takeWhile (\<lambda>c. c \<noteq> quote) s) @ [quote]) r' = Ok (t, r)"
      by (subst (asm) lex_string.simps) (simp add: Let_def)
    from "1.IH" [OF dw refl u refl this] lt u show ?thesis by simp
  next
    case False
    with "1.prems" dw have "r = u" by (subst (asm) lex_string.simps) (auto simp: Let_def split: list.splits if_splits)
    with lt show ?thesis by simp
  qed
qed

section \<open>The tokenizer\<close>

text \<open>
  A number: the digits, then a fraction if a dot and another digit follow. Result: the token and the
  rest.
\<close>

definition lex_number :: "string \<Rightarrow> (perr, token \<times> string) result" where
  "lex_number s =
    (let ip = takeWhile is_digit s; r = dropWhile is_digit s in
     if 1 < length r \<and> r ! 0 = CHR ''.'' \<and> is_digit (r ! 1) then
       Ok (TFloat (f64_of_decimal ip (takeWhile is_digit (tl r))), dropWhile is_digit (tl r))
     else if text_nat ip < 2 ^ 63 then Ok (TInt (word_of_nat (text_nat ip)), r)
     else Err (ParseError (''integer literal out of range: '' @ ip)))"

text \<open>The tokens of one byte.\<close>

fun single :: "char \<Rightarrow> token option" where
  "single c =
    (if c = CHR '','' then Some TComma
     else if c = CHR ''['' then Some TLBracket
     else if c = CHR '']'' then Some TRBracket
     else if c = CHR ''('' then Some TLParen
     else if c = CHR '')'' then Some TRParen
     else if c = CHR ''*'' then Some TStar
     else if c = CHR '';'' then Some TSemi
     else if c = CHR ''-'' then Some TMinus
     else if c = CHR ''='' then Some TEq
     else None)"

text \<open>
  The next token and what follows it, or \<open>None\<close> for white space and comments; \<open>s\<close> is not empty.
\<close>

definition lex_step :: "display \<Rightarrow> string \<Rightarrow> (perr, token option \<times> string) result" where
  "lex_step d s =
    (let c = hd s; r = tl s; next_is = (\<lambda>x. r \<noteq> [] \<and> hd r = x) in
     if is_space c then Ok (None, r)
     else if c = CHR ''-'' \<and> next_is (CHR ''-'') then Ok (None, dropWhile (\<lambda>x. code x \<noteq> 10) s)
     else if single c \<noteq> None then Ok (single c, r)
     else if c = CHR ''!'' then
       if next_is (CHR ''='') then Ok (Some TNe, tl r) else Err (ParseError (''expected '' @ [quote] @ ''='' @ [quote] @ '' after '' @ [quote] @ ''!'' @ [quote]))
     else if c = CHR ''<'' then
       if next_is (CHR ''='') then Ok (Some TLe, tl r) else if next_is (CHR ''>'') then Ok (Some TNe, tl r) else Ok (Some TLt, r)
     else if c = CHR ''>'' then
       if next_is (CHR ''='') then Ok (Some TGe, tl r) else Ok (Some TGt, r)
     else if c = quote then map_res (\<lambda>(t, r'). (Some (TStr t), r')) (lex_string [] r)
     else if is_digit c then map_res (\<lambda>(t, r'). (Some t, r')) (lex_number s)
     else if ident_start c then Ok (Some (TIdent (map to_lower (takeWhile ident_char s))), dropWhile ident_char s)
     else Err (ParseError (''unexpected character: '' @ d_char d (first_char s))))"

lemma lex_number_shorter:
  assumes "lex_number (c # s) = Ok (t, r)" "is_digit c"
  shows "length r < Suc (length s)"
proof -
  have dw: "length (dropWhile is_digit s) \<le> length s" by (rule length_dropWhile_le)
  have "length (dropWhile is_digit (tl (dropWhile is_digit s))) \<le> length s"
    using length_dropWhile_le [of is_digit "tl (dropWhile is_digit s)"] dw by simp
  with dw assms show ?thesis by (auto simp: lex_number_def Let_def split: if_splits)
qed

lemma lex_step_shorter:
  assumes "lex_step d (c # s) = Ok (t, r)"
  shows "length r < Suc (length s)"
proof -
  have dw: "length (dropWhile p u) < Suc (length u)" for p and u :: string
    by (simp add: length_dropWhile_le less_Suc_eq_le)
  have lf: "code (CHR ''-'') \<noteq> 10" by (simp add: code_def)
  show ?thesis
  proof (cases "is_digit c")
    case True
    with assms show ?thesis unfolding lex_step_def
      by (auto simp: Let_def dw lf simp del: single.simps split: if_splits dest!: lex_string_shorter lex_number_shorter)
  next
    case False
    with assms show ?thesis unfolding lex_step_def
      by (auto simp: Let_def dw lf ident_char_def simp del: single.simps split: if_splits dest!: lex_string_shorter)
  qed
qed

function tokenize :: "display \<Rightarrow> string \<Rightarrow> (perr, token list) result" where
  "tokenize d s =
    (if s = [] then Ok []
     else rbind (lex_step d s) (\<lambda>(t, r). map_res (\<lambda>ts. (case t of None \<Rightarrow> ts | Some x \<Rightarrow> x # ts)) (tokenize d r)))"
  by pat_completeness auto

termination
  by (relation "measure (\<lambda>(d, s). length s)") (auto simp: neq_Nil_conv dest!: lex_step_shorter)

declare tokenize.simps [simp del]

end
