(* ===== verification/Parser.thy ===== *)
theory Parser
  imports Lexer Engine_Types
begin

text \<open>
  The recursive-descent parser, \<open>crates/ciphra-sql/src/parser.rs\<close>. The parser state (\<open>tokens\<close>, \<open>pos\<close>) is
  the list of tokens from \<open>pos\<close> on; a parsing method returns its result and the tokens left.

  The loops and the recursion of the code end because every round consumes a token. The model says so
  with \<open>consumed\<close>, which turns a result that consumed nothing into \<open>Parser_panic\<close>; the lemmas at the end
  show that this never happens, so that the guards are not there.
\<close>

section \<open>Token helpers\<close>

type_synonym 'a tparser = "token list \<Rightarrow> (perr, 'a \<times> token list) result"

definition quoted :: "string \<Rightarrow> string" where "quoted s = [quote] @ s @ [quote]"

definition unexpected :: "display \<Rightarrow> string \<Rightarrow> token list \<Rightarrow> perr" where
  "unexpected d expected ts = ParseError (''expected '' @ expected @ '', found ''
    @ (case ts of t # _ \<Rightarrow> show_token d t | [] \<Rightarrow> ''end of input''))"

definition next_token :: "string \<Rightarrow> token tparser" where
  "next_token expected ts =
    (case ts of t # r \<Rightarrow> Ok (t, r) | [] \<Rightarrow> Err (ParseError (''expected '' @ expected @ '', found end of input'')))"

text \<open>\<open>eat\<close>: the tokens after \<open>t\<close> when it comes next.\<close>

definition eat :: "token \<Rightarrow> token list \<Rightarrow> token list option" where
  "eat t ts = (case ts of u # r \<Rightarrow> if u = t then Some r else None | [] \<Rightarrow> None)"

definition expect :: "display \<Rightarrow> token \<Rightarrow> unit tparser" where
  "expect d t ts =
    (case eat t ts of Some r \<Rightarrow> Ok ((), r) | None \<Rightarrow> Err (unexpected d (quoted (show_token d t)) ts))"

definition keyword :: "display \<Rightarrow> string \<Rightarrow> string tparser" where
  "keyword d expected ts =
    rbind (next_token expected ts) (\<lambda>(t, r).
      case t of TIdent s \<Rightarrow> Ok (s, r)
      | _ \<Rightarrow> Err (ParseError (''expected '' @ expected @ '', found '' @ show_token d t)))"

definition upper :: "string \<Rightarrow> string" where
  "upper s = map (\<lambda>c. if is_lower c then char_of (code c - 32) else c) s"

definition expect_keyword :: "display \<Rightarrow> string \<Rightarrow> unit tparser" where
  "expect_keyword d kw ts =
    rbind (keyword d (''keyword '' @ upper kw) ts) (\<lambda>(found, r).
      if found = kw then Ok ((), r)
      else Err (ParseError (''expected keyword '' @ upper kw @ '', found '' @ debug_str found)))"

definition eat_keyword :: "string \<Rightarrow> token list \<Rightarrow> token list option" where
  "eat_keyword kw ts = eat (TIdent kw) ts"

definition parse_identifier :: "display \<Rightarrow> string \<Rightarrow> string tparser" where
  "parse_identifier d expected ts = keyword d expected ts"

definition parse_unsigned :: "display \<Rightarrow> string \<Rightarrow> u64 tparser" where
  "parse_unsigned d expected ts =
    rbind (next_token expected ts) (\<lambda>(t, r).
      case t of
        TInt n \<Rightarrow> if 0 \<le> sint n then Ok (n, r)
          else Err (ParseError (''expected a non-negative integer ('' @ expected @ ''), found '' @ show_token d t))
      | _ \<Rightarrow> Err (ParseError (''expected a non-negative integer ('' @ expected @ ''), found '' @ show_token d t)))"

section \<open>Loops\<close>

definition consumed :: "token list \<Rightarrow> (perr, 'a \<times> token list) result \<Rightarrow> (perr, 'a \<times> token list) result" where
  "consumed ts res = rbind res (\<lambda>(x, r). if length r < length ts then Ok (x, r) else Err Parser_panic)"

lemma consumed_Ok [simp]: "consumed ts res = Ok (x, r) \<longleftrightarrow> res = Ok (x, r) \<and> length r < length ts"
  by (auto simp: consumed_def)

lemma eat_Some: "eat t ts = Some r \<longleftrightarrow> ts = t # r"
  by (auto simp: eat_def split: list.splits)

text \<open>\<open>vec![p()?]\<close>, then \<open>while self.eat(Comma) { push(p()?) }\<close>.\<close>

function comma_list :: "'a tparser \<Rightarrow> 'a list tparser" where
  "comma_list p ts =
    rbind (consumed ts (p ts)) (\<lambda>(x, r).
      case eat TComma r of
        None \<Rightarrow> Ok ([x], r)
      | Some r' \<Rightarrow> map_res (\<lambda>(xs, r''). (x # xs, r'')) (comma_list p r'))"
  by pat_completeness auto

termination by (relation "measure (\<lambda>(p, ts). length ts)") (auto simp: eat_Some)

declare comma_list.simps [simp del]

section \<open>Literals\<close>

definition f64_neg :: "f64 \<Rightarrow> f64" where "f64_neg x = x XOR 0x8000000000000000"
definition f32_neg :: "f32 \<Rightarrow> f32" where "f32_neg x = x XOR 0x80000000"

text \<open>\<open>n as f32\<close> for an \<open>i64\<close>.\<close>

definition f32_of_i64 :: "i64 \<Rightarrow> f32" where
  "f32_of_i64 n = f32_of_fval (Fin (sint n < 0) (nat \<bar>sint n\<bar>) 1)"

fun component_value :: "display \<Rightarrow> token \<Rightarrow> (perr, f32) result" where
  "component_value d (TInt n) = Ok (f32_of_i64 n)"
| "component_value d (TFloat x) = Ok (f32_of_f64 x)"
| "component_value d t = Err (ParseError (''expected a number in a vector literal, found '' @ show_token d t))"

definition vector_component :: "display \<Rightarrow> f32 tparser" where
  "vector_component d ts =
    (let (negative, ts1) = (case eat TMinus ts of Some r \<Rightarrow> (True, r) | None \<Rightarrow> (False, ts)) in
     rbind (next_token ''a number'' ts1) (\<lambda>(t, r).
     rbind (component_value d t) (\<lambda>magnitude.
     Ok (if negative then f32_neg magnitude else magnitude, r))))"

definition vector_rest :: "display \<Rightarrow> literal tparser" where
  "vector_rest d ts =
    rbind (comma_list (vector_component d) ts) (\<lambda>(components, r).
    rbind (expect d TRBracket r) (\<lambda>(_, r1). Ok (LVector components, r1)))"

fun negated_number :: "display \<Rightarrow> token \<Rightarrow> (perr, literal) result" where
  "negated_number d (TInt n) = Ok (LInt (- n))"
| "negated_number d (TFloat x) = Ok (LReal (f64_neg x))"
| "negated_number d t = Err (ParseError (''expected a number after '' @ quoted ''-'' @ '', found '' @ show_token d t))"

definition negative_rest :: "display \<Rightarrow> literal tparser" where
  "negative_rest d ts = rbind (next_token ''a number'' ts) (\<lambda>(t, r). map_res (\<lambda>v. (v, r)) (negated_number d t))"

text \<open>The literal that starts with token \<open>t\<close>.\<close>

fun literal_from :: "display \<Rightarrow> token \<Rightarrow> literal tparser" where
  "literal_from d (TInt n) r = Ok (LInt n, r)"
| "literal_from d (TStr s) r = Ok (LText s, r)"
| "literal_from d TLBracket r = vector_rest d r"
| "literal_from d (TFloat x) r = Ok (LReal x, r)"
| "literal_from d TMinus r = negative_rest d r"
| "literal_from d (TIdent kw) r =
    (if kw = ''null'' then Ok (LNull, r) else Err (ParseError (''expected a literal, found '' @ show_token d (TIdent kw))))"
| "literal_from d t r = Err (ParseError (''expected a literal, found '' @ show_token d t))"

definition parse_literal :: "display \<Rightarrow> literal tparser" where
  "parse_literal d ts = rbind (next_token ''a literal'' ts) (\<lambda>(t, r). literal_from d t r)"

fun op_of_token :: "token \<Rightarrow> cmp_op option" where
  "op_of_token TEq = Some Eq"
| "op_of_token TNe = Some Ne"
| "op_of_token TLt = Some Lt"
| "op_of_token TGt = Some Gt"
| "op_of_token TLe = Some Le"
| "op_of_token TGe = Some Ge"
| "op_of_token _ = None"

text \<open>\<open>match self.next("a comparison operator")?\<close>; \<open>place\<close> is a part of the message.\<close>

definition comparison :: "display \<Rightarrow> string \<Rightarrow> cmp_op tparser" where
  "comparison d place ts =
    rbind (next_token ''a comparison operator'' ts) (\<lambda>(t, r).
      case op_of_token t of
        Some op \<Rightarrow> Ok (op, r)
      | None \<Rightarrow> Err (ParseError (''expected a comparison operator'' @ place @ '', found '' @ show_token d t)))"

section \<open>Boolean expressions\<close>

text \<open>
  \<open>expr\<close>, \<open>and_expr\<close>, \<open>not_expr\<close>, \<open>primary_expr\<close> for \<open>WHERE\<close> and the same four methods for \<open>HAVING\<close> differ in
  the tree they build and in their comparisons, which are the fields of \<open>syn\<close>.
\<close>

record 'e bool_syntax =
  bs_or :: "'e \<Rightarrow> 'e \<Rightarrow> 'e"
  bs_and :: "'e \<Rightarrow> 'e \<Rightarrow> 'e"
  bs_not :: "'e \<Rightarrow> 'e"
  bs_compare :: "'e tparser"

function bool_or :: "display \<Rightarrow> 'e bool_syntax \<Rightarrow> 'e tparser"
  and or_rest :: "display \<Rightarrow> 'e bool_syntax \<Rightarrow> 'e \<Rightarrow> 'e tparser"
  and bool_and :: "display \<Rightarrow> 'e bool_syntax \<Rightarrow> 'e tparser"
  and and_rest :: "display \<Rightarrow> 'e bool_syntax \<Rightarrow> 'e \<Rightarrow> 'e tparser"
  and bool_not :: "display \<Rightarrow> 'e bool_syntax \<Rightarrow> 'e tparser"
  and bool_primary :: "display \<Rightarrow> 'e bool_syntax \<Rightarrow> 'e tparser" where
  "bool_or d syn ts = rbind (consumed ts (bool_and d syn ts)) (\<lambda>(left, r). or_rest d syn left r)"
| "or_rest d syn left ts =
    (case eat_keyword ''or'' ts of
       None \<Rightarrow> Ok (left, ts)
     | Some r \<Rightarrow> rbind (consumed r (bool_and d syn r)) (\<lambda>(right, r'). or_rest d syn (bs_or syn left right) r'))"
| "bool_and d syn ts = rbind (consumed ts (bool_not d syn ts)) (\<lambda>(left, r). and_rest d syn left r)"
| "and_rest d syn left ts =
    (case eat_keyword ''and'' ts of
       None \<Rightarrow> Ok (left, ts)
     | Some r \<Rightarrow> rbind (consumed r (bool_not d syn r)) (\<lambda>(right, r'). and_rest d syn (bs_and syn left right) r'))"
| "bool_not d syn ts =
    (case eat_keyword ''not'' ts of
       Some r \<Rightarrow> map_res (\<lambda>(e, r'). (bs_not syn e, r')) (bool_not d syn r)
     | None \<Rightarrow> bool_primary d syn ts)"
| "bool_primary d syn ts =
    (case eat TLParen ts of
       Some r \<Rightarrow> rbind (bool_or d syn r) (\<lambda>(inner, r1). rbind (expect d TRParen r1) (\<lambda>(_, r2). Ok (inner, r2)))
     | None \<Rightarrow> bs_compare syn ts)"
  by pat_completeness auto

termination
  by (relation "inv_image (less_than <*lex*> less_than) (\<lambda>x. case x of
      Inl (Inl (d, syn, ts)) \<Rightarrow> (length ts, 5)
    | Inl (Inr (Inl (d, syn, l, ts))) \<Rightarrow> (length ts, 4)
    | Inl (Inr (Inr (d, syn, ts))) \<Rightarrow> (length ts, 3)
    | Inr (Inl (d, syn, l, ts)) \<Rightarrow> (length ts, 2)
    | Inr (Inr (Inl (d, syn, ts))) \<Rightarrow> (length ts, 1)
    | Inr (Inr (Inr (d, syn, ts))) \<Rightarrow> (length ts, 0 :: nat))")
    (auto simp: eat_keyword_def eat_Some)

declare bool_or.simps [simp del] or_rest.simps [simp del] bool_and.simps [simp del]
  and_rest.simps [simp del] bool_not.simps [simp del] bool_primary.simps [simp del]

definition where_compare :: "display \<Rightarrow> expr tparser" where
  "where_compare d ts =
    rbind (parse_identifier d ''a column name'' ts) (\<lambda>(column, r).
      case eat_keyword ''is'' r of
        Some r1 \<Rightarrow>
          let (negated, r2) = (case eat_keyword ''not'' r1 of Some r2 \<Rightarrow> (True, r2) | None \<Rightarrow> (False, r1)) in
          rbind (expect_keyword d ''null'' r2) (\<lambda>(_, r3). Ok (IsNull column negated, r3))
      | None \<Rightarrow>
          rbind (comparison d [] r) (\<lambda>(op, r1).
          rbind (parse_literal d r1) (\<lambda>(v, r2). Ok (Compare column op v, r2))))"

definition where_syntax :: "display \<Rightarrow> expr bool_syntax" where
  "where_syntax d = \<lparr>bs_or = EOr, bs_and = EAnd, bs_not = ENot, bs_compare = where_compare d\<rparr>"

definition parse_expr :: "display \<Rightarrow> expr tparser" where
  "parse_expr d = bool_or d (where_syntax d)"

definition optional_where :: "display \<Rightarrow> expr option tparser" where
  "optional_where d ts =
    (case eat_keyword ''where'' ts of
       None \<Rightarrow> Ok (None, ts)
     | Some r \<Rightarrow> map_res (\<lambda>(e, r'). (Some e, r')) (parse_expr d r))"

section \<open>Aggregates and \<open>HAVING\<close>\<close>

definition agg_of_name :: "string \<Rightarrow> agg_func option" where
  "agg_of_name name =
    (if name = ''count'' then Some Count
     else if name = ''sum'' then Some Sum
     else if name = ''avg'' then Some Avg
     else if name = ''min'' then Some Min_agg
     else if name = ''max'' then Some Max_agg
     else None)"

definition peek_aggregate :: "token list \<Rightarrow> agg_func option" where
  "peek_aggregate ts =
    (case ts of
       TIdent name # r \<Rightarrow>
         (case agg_of_name name of
            None \<Rightarrow> None
          | Some func \<Rightarrow> (case r of t # _ \<Rightarrow> if t = TLParen then Some func else None | [] \<Rightarrow> None))
     | _ \<Rightarrow> None)"

text \<open>\<open>(*|col)\<close> after the function name.\<close>

definition agg_args :: "display \<Rightarrow> agg_func \<Rightarrow> agg_arg tparser" where
  "agg_args d func ts =
    rbind (expect d TLParen ts) (\<lambda>(_, r).
    rbind (case eat TStar r of
        Some r1 \<Rightarrow>
          if func \<noteq> Count then
            Err (ParseError (agg_name func @ ''(*) is not allowed; '' @ agg_name func @ '' needs a column''))
          else Ok (Star, r1)
      | None \<Rightarrow> map_res (\<lambda>(c, r1). (Col c, r1)) (parse_identifier d ''a column inside the aggregate'' r)) (\<lambda>(arg, r1).
    rbind (expect d TRParen r1) (\<lambda>(_, r2). Ok (arg, r2))))"

definition having_compare :: "display \<Rightarrow> having_expr tparser" where
  "having_compare d ts =
    rbind (case peek_aggregate ts of
        Some func \<Rightarrow> map_res (\<lambda>(arg, r). (Having_aggregate func arg, r)) (agg_args d func (tl ts))
      | None \<Rightarrow> map_res (\<lambda>(c, r). (Having_column c, r)) (parse_identifier d ''a column or aggregate in HAVING'' ts)) (\<lambda>(term, r).
    rbind (comparison d '' in HAVING'' r) (\<lambda>(op, r1).
    rbind (parse_literal d r1) (\<lambda>(v, r2). Ok (HCompare term op v, r2))))"

definition having_syntax :: "display \<Rightarrow> having_expr bool_syntax" where
  "having_syntax d = \<lparr>bs_or = HOr, bs_and = HAnd, bs_not = HNot, bs_compare = having_compare d\<rparr>"

definition parse_having :: "display \<Rightarrow> having_expr tparser" where
  "parse_having d = bool_or d (having_syntax d)"

definition parse_select_item :: "display \<Rightarrow> select_item tparser" where
  "parse_select_item d ts =
    (case peek_aggregate ts of
       Some func \<Rightarrow> map_res (\<lambda>(arg, r). (Item_aggregate func arg, r)) (agg_args d func (tl ts))
     | None \<Rightarrow> map_res (\<lambda>(c, r). (Item_column c, r)) (parse_identifier d ''column name'' ts))"

section \<open>Statements\<close>

definition index_target :: "display \<Rightarrow> bool \<Rightarrow> bool \<Rightarrow> statement tparser" where
  "index_target d create is_range ts =
    rbind (expect_keyword d ''on'' ts) (\<lambda>(_, r).
    rbind (parse_identifier d ''table name'' r) (\<lambda>(table, r1).
    rbind (expect d TLParen r1) (\<lambda>(_, r2).
    rbind (parse_identifier d ''column name'' r2) (\<lambda>(column, r3).
    rbind (expect d TRParen r3) (\<lambda>(_, r4).
      Ok (if create then Create_index table column is_range else Drop_index table column is_range, r4))))))"

definition parse_type :: "display \<Rightarrow> data_type tparser" where
  "parse_type d ts =
    rbind (keyword d ''a column type (INT, TEXT or VECTOR)'' ts) (\<lambda>(ty, r).
      if ty \<in> {''int'', ''integer''} then Ok (DInt, r)
      else if ty \<in> {''real'', ''float'', ''double''} then Ok (DReal, r)
      else if ty \<in> {''text'', ''varchar''} then Ok (DText, r)
      else if ty = ''vector'' then
        rbind (expect d TLParen r) (\<lambda>(_, r1).
        rbind (parse_unsigned d ''a vector dimension'' r1) (\<lambda>(dim, r2).
        rbind (expect d TRParen r2) (\<lambda>(_, r3).
          if dim = 0 \<or> 4096 < dim then
            Err (ParseError (''vector dimension must be 1..=4096, got '' @ show_nat (unat dim)))
          else Ok (DVector (ucast dim), r3))))
      else Err (ParseError (''unknown column type: '' @ debug_str ty)))"

text \<open>The loop over \<open>ENCRYPTED\<close> and \<open>PRIMARY KEY\<close>.\<close>

lemma expect_keyword_Ok: "expect_keyword d kw ts = Ok (u, r) \<longleftrightarrow> ts = TIdent kw # r"
  by (auto simp: expect_keyword_def keyword_def next_token_def split: list.splits token.splits)

function column_markers :: "display \<Rightarrow> bool \<Rightarrow> bool \<Rightarrow> (bool \<times> bool) tparser" where
  "column_markers d encrypted primary_key ts =
    (case eat_keyword ''encrypted'' ts of
       Some r \<Rightarrow> column_markers d True primary_key r
     | None \<Rightarrow>
         (case eat_keyword ''primary'' ts of
            Some r \<Rightarrow> rbind (expect_keyword d ''key'' r) (\<lambda>(_, r1). column_markers d encrypted True r1)
          | None \<Rightarrow> Ok ((encrypted, primary_key), ts)))"
  by pat_completeness auto

termination
  by (relation "measure (\<lambda>(d, e, p, ts). length ts)") (auto simp: eat_keyword_def eat_Some expect_keyword_Ok)

declare column_markers.simps [simp del]

definition parse_column :: "display \<Rightarrow> column_def tparser" where
  "parse_column d ts =
    rbind (parse_identifier d ''column name'' ts) (\<lambda>(name, r).
    rbind (parse_type d r) (\<lambda>(ty, r1).
    rbind (column_markers d False False r1) (\<lambda>((encrypted, primary_key), r2).
      Ok (\<lparr>cd_name = name, cd_ty = ty, cd_encrypted = encrypted, cd_primary_key = primary_key,
          cd_indexed = False, cd_range_indexed = False\<rparr>, r2))))"

definition parse_create_table :: "display \<Rightarrow> statement tparser" where
  "parse_create_table d ts =
    rbind (expect_keyword d ''table'' ts) (\<lambda>(_, r).
    rbind (parse_identifier d ''table name'' r) (\<lambda>(name, r1).
    rbind (expect d TLParen r1) (\<lambda>(_, r2).
    rbind (comma_list (parse_column d) r2) (\<lambda>(columns, r3).
    rbind (expect d TRParen r3) (\<lambda>(_, r4). Ok (Create_table name columns, r4))))))"

definition parse_drop_table :: "display \<Rightarrow> statement tparser" where
  "parse_drop_table d ts =
    rbind (expect_keyword d ''table'' ts) (\<lambda>(_, r).
    map_res (\<lambda>(name, r1). (Drop_table name, r1)) (parse_identifier d ''table name'' r))"

definition value_tuple :: "display \<Rightarrow> literal list tparser" where
  "value_tuple d ts =
    rbind (expect d TLParen ts) (\<lambda>(_, r).
    rbind (comma_list (parse_literal d) r) (\<lambda>(vs, r1).
    rbind (expect d TRParen r1) (\<lambda>(_, r2). Ok (vs, r2))))"

definition parse_insert :: "display \<Rightarrow> statement tparser" where
  "parse_insert d ts =
    rbind (expect_keyword d ''into'' ts) (\<lambda>(_, r).
    rbind (parse_identifier d ''table name'' r) (\<lambda>(table, r1).
    rbind (case eat TLParen r1 of
        Some r2 \<Rightarrow>
          rbind (comma_list (parse_identifier d ''column name'') r2) (\<lambda>(cols, r3).
          rbind (expect d TRParen r3) (\<lambda>(_, r4). Ok (Some cols, r4)))
      | None \<Rightarrow> Ok (None, r1)) (\<lambda>(columns, r2).
    rbind (expect_keyword d ''values'' r2) (\<lambda>(_, r3).
    rbind (comma_list (value_tuple d) r3) (\<lambda>(rows, r4). Ok (Insert table columns rows, r4))))))"

definition is_aggregate :: "select_item \<Rightarrow> bool" where
  "is_aggregate it = (case it of Item_aggregate _ _ \<Rightarrow> True | Item_column _ \<Rightarrow> False)"

definition plain_columns :: "select_item list \<Rightarrow> (perr, string list) result" where
  "plain_columns items =
    collect_res (map (\<lambda>it. case it of Item_column c \<Rightarrow> Ok c | Item_aggregate _ _ \<Rightarrow> Err Parser_panic) items)"

text \<open>The collapse of a plain column projection, and the refusal of \<open>SELECT * ... GROUP BY\<close>.\<close>

definition select_projection ::
  "projection \<Rightarrow> bool \<Rightarrow> string list \<Rightarrow> having_expr option \<Rightarrow> (perr, projection) result" where
  "select_projection proj has_aggregate group_by having =
    rbind (case proj of
        Items items \<Rightarrow>
          if \<not> has_aggregate \<and> group_by = [] \<and> having = None then map_res Columns (plain_columns items)
          else Ok proj
      | _ \<Rightarrow> Ok proj) (\<lambda>proj'.
    if proj' = All_columns \<and> group_by \<noteq> [] then
      Err (ParseError ''SELECT * cannot be combined with GROUP BY; list the grouping columns'')
    else Ok proj')"

definition parse_group_by :: "display \<Rightarrow> string list tparser" where
  "parse_group_by d ts =
    (case eat_keyword ''group'' ts of
       None \<Rightarrow> Ok ([], ts)
     | Some r \<Rightarrow> rbind (expect_keyword d ''by'' r) (\<lambda>(_, r1). comma_list (parse_identifier d ''column name'') r1))"

fun nearest_query :: "display \<Rightarrow> literal \<Rightarrow> (perr, f32 list) result" where
  "nearest_query d (LVector q) = Ok q"
| "nearest_query d v = Err (ParseError (''NEAREST TO takes a vector literal, found '' @ show_literal (d_f64 d) (d_f32 d) v))"

definition parse_order_by :: "display \<Rightarrow> order_by option tparser" where
  "parse_order_by d ts =
    (case eat_keyword ''order'' ts of
       None \<Rightarrow> Ok (None, ts)
     | Some r \<Rightarrow>
         rbind (expect_keyword d ''by'' r) (\<lambda>(_, r1).
         rbind (parse_identifier d ''column name'' r1) (\<lambda>(column, r2).
           case eat_keyword ''nearest'' r2 of
             Some r3 \<Rightarrow>
               rbind (expect_keyword d ''to'' r3) (\<lambda>(_, r4).
               rbind (parse_literal d r4) (\<lambda>(v, r5).
               rbind (nearest_query d v) (\<lambda>q.
                 Ok (Some \<lparr>ob_column = column, ob_descending = False, ob_nearest_to = Some q\<rparr>, r5))))
           | None \<Rightarrow>
               let (descending, r3) =
                 (case eat_keyword ''desc'' r2 of
                    Some r3 \<Rightarrow> (True, r3)
                  | None \<Rightarrow> (False, case eat_keyword ''asc'' r2 of Some r3 \<Rightarrow> r3 | None \<Rightarrow> r2))
               in Ok (Some \<lparr>ob_column = column, ob_descending = descending, ob_nearest_to = None\<rparr>, r3))))"

definition parse_limit :: "display \<Rightarrow> limit option tparser" where
  "parse_limit d ts =
    (case eat_keyword ''limit'' ts of
       None \<Rightarrow> Ok (None, ts)
     | Some r \<Rightarrow>
         rbind (parse_unsigned d ''a row count after LIMIT'' r) (\<lambda>(count, r1).
           case eat_keyword ''offset'' r1 of
             Some r2 \<Rightarrow>
               rbind (parse_unsigned d ''a row count after OFFSET'' r2) (\<lambda>(offset, r3).
                 Ok (Some \<lparr>lim_count = count, lim_offset = offset\<rparr>, r3))
           | None \<Rightarrow> Ok (Some \<lparr>lim_count = count, lim_offset = 0\<rparr>, r1)))"

text \<open>The projection as written, with \<open>has_aggregate\<close>.\<close>

definition select_head :: "display \<Rightarrow> (projection \<times> bool) tparser" where
  "select_head d ts =
    (case eat TStar ts of
       Some r \<Rightarrow> Ok ((All_columns, False), r)
     | None \<Rightarrow> map_res (\<lambda>(items, r). ((Items items, list_ex is_aggregate items), r)) (comma_list (parse_select_item d) ts))"

definition optional_having :: "display \<Rightarrow> having_expr option tparser" where
  "optional_having d ts =
    (case eat_keyword ''having'' ts of
       Some r \<Rightarrow> map_res (\<lambda>(h, r1). (Some h, r1)) (parse_having d r)
     | None \<Rightarrow> Ok (None, ts))"

definition parse_select :: "display \<Rightarrow> statement tparser" where
  "parse_select d ts =
    rbind (select_head d ts) (\<lambda>((proj, has_aggregate), r).
    rbind (expect_keyword d ''from'' r) (\<lambda>(_, r1).
    rbind (parse_identifier d ''table name'' r1) (\<lambda>(table, r2).
    rbind (optional_where d r2) (\<lambda>(predicate, r3).
    rbind (parse_group_by d r3) (\<lambda>(group_by, r4).
    rbind (optional_having d r4) (\<lambda>(having, r5).
    rbind (select_projection proj has_aggregate group_by having) (\<lambda>proj'.
    rbind (parse_order_by d r5) (\<lambda>(order, r6).
    rbind (parse_limit d r6) (\<lambda>(lim, r7).
      Ok (Select proj' table predicate group_by having order lim, r7))))))))))"

definition parse_assignment :: "display \<Rightarrow> assignment tparser" where
  "parse_assignment d ts =
    rbind (parse_identifier d ''column name'' ts) (\<lambda>(column, r).
    rbind (expect d TEq r) (\<lambda>(_, r1).
    rbind (parse_literal d r1) (\<lambda>(v, r2). Ok (\<lparr>as_column = column, as_value = v\<rparr>, r2))))"

definition parse_update :: "display \<Rightarrow> statement tparser" where
  "parse_update d ts =
    rbind (parse_identifier d ''table name'' ts) (\<lambda>(table, r).
    rbind (expect_keyword d ''set'' r) (\<lambda>(_, r1).
    rbind (comma_list (parse_assignment d) r1) (\<lambda>(assignments, r2).
    rbind (optional_where d r2) (\<lambda>(predicate, r3). Ok (Update table assignments predicate, r3)))))"

definition parse_delete :: "display \<Rightarrow> statement tparser" where
  "parse_delete d ts =
    rbind (expect_keyword d ''from'' ts) (\<lambda>(_, r).
    rbind (parse_identifier d ''table name'' r) (\<lambda>(table, r1).
    rbind (optional_where d r1) (\<lambda>(predicate, r2). Ok (Delete table predicate, r2))))"

text \<open>\<open>CREATE\<close> and \<open>DROP\<close>: an index, a range index or a table.\<close>

definition index_or_table :: "display \<Rightarrow> bool \<Rightarrow> statement tparser \<Rightarrow> statement tparser" where
  "index_or_table d create table_stmt ts =
    (case eat_keyword ''index'' ts of
       Some r \<Rightarrow> index_target d create False r
     | None \<Rightarrow>
         (case eat_keyword ''range'' ts of
            Some r \<Rightarrow> rbind (expect_keyword d ''index'' r) (\<lambda>(_, r1). index_target d create True r1)
          | None \<Rightarrow> table_stmt ts))"

text \<open>The optional \<open>TRANSACTION\<close> or \<open>WORK\<close>.\<close>

definition noise_word :: "token list \<Rightarrow> token list" where
  "noise_word ts =
    (case eat_keyword ''transaction'' ts of
       Some r \<Rightarrow> r
     | None \<Rightarrow> (case eat_keyword ''work'' ts of Some r \<Rightarrow> r | None \<Rightarrow> ts))"

definition explainable :: "statement \<Rightarrow> bool" where
  "explainable st = (case st of Select _ _ _ _ _ _ _ \<Rightarrow> True | Update _ _ _ \<Rightarrow> True | Delete _ _ \<Rightarrow> True | _ \<Rightarrow> False)"

definition simple_statement :: "display \<Rightarrow> string \<Rightarrow> statement tparser" where
  "simple_statement d kw ts =
    (if kw = ''create'' then index_or_table d True (parse_create_table d) ts
     else if kw = ''drop'' then index_or_table d False (parse_drop_table d) ts
     else if kw = ''insert'' then parse_insert d ts
     else if kw = ''select'' then parse_select d ts
     else if kw = ''update'' then parse_update d ts
     else if kw = ''delete'' then parse_delete d ts
     else if kw = ''begin'' then Ok (Begin, noise_word ts)
     else if kw = ''start'' then map_res (\<lambda>(_, r). (Begin, r)) (expect_keyword d ''transaction'' ts)
     else if kw = ''commit'' then Ok (Commit, noise_word ts)
     else if kw = ''rollback'' then Ok (Rollback, noise_word ts)
     else Err (ParseError (''unknown statement: '' @ debug_str kw)))"

lemma keyword_Ok: "keyword d expected ts = Ok (s, r) \<longleftrightarrow> ts = TIdent s # r"
  by (auto simp: keyword_def next_token_def split: list.splits token.splits)

function parse_statement :: "display \<Rightarrow> statement tparser" where
  "parse_statement d ts =
    rbind (keyword d ''a statement keyword'' ts) (\<lambda>(kw, r).
      if kw = ''explain'' then
        rbind (parse_statement d r) (\<lambda>(inner, r1).
          if explainable inner then Ok (Explain inner, r1)
          else Err (ParseError ''EXPLAIN supports SELECT, UPDATE and DELETE''))
      else simple_statement d kw r)"
  by pat_completeness auto

termination by (relation "measure (\<lambda>(d, ts). length ts)") (auto simp: keyword_Ok)

declare parse_statement.simps [simp del]

function statement_list :: "display \<Rightarrow> token list \<Rightarrow> (perr, statement list) result" where
  "statement_list d ts0 =
    (let ts = dropWhile (\<lambda>t. t = TSemi) ts0 in
     if ts = [] then Ok []
     else rbind (consumed ts (parse_statement d ts)) (\<lambda>(st, r).
       if r \<noteq> [] \<and> eat TSemi r = None then Err (unexpected d (quoted '';'' @ '' or end of input'') r)
       else map_res (Cons st) (statement_list d r)))"
  by pat_completeness auto

termination
proof (relation "measure (\<lambda>(d, ts). length ts)", simp)
  fix ts0 ts :: "token list" and d x st r
  assume "ts = dropWhile (\<lambda>t. t = TSemi) ts0" "ts \<noteq> []" "consumed ts (parse_statement d ts) = Ok x" "(st, r) = x"
  then have "length r < length ts" "length ts \<le> length ts0" by (auto simp: length_dropWhile_le)
  then show "((d, r), d, ts0) \<in> measure (\<lambda>(d, ts). length ts)" by simp
qed

declare statement_list.simps [simp del]

definition parse_statements :: "display \<Rightarrow> string \<Rightarrow> (perr, statement list) result" where
  "parse_statements d input = rbind (tokenize d input) (statement_list d)"

end
