(* ===== verification/Parser_Correct.thy ===== *)
theory Parser_Correct
  imports Parser
begin

text \<open>
  What the parser of \<open>Parser\<close> guarantees: it never panics and its guards never fire; what it returns is
  well-formed; and the text of a predicate, as \<open>EXPLAIN\<close> prints it, parses back to that predicate.
\<close>

section \<open>Well-formed tokens and trees\<close>

definition ident_ok :: "string \<Rightarrow> bool" where
  "ident_ok s \<longleftrightarrow> s \<noteq> [] \<and> ident_start (hd s) \<and> list_all (\<lambda>c. ident_char c \<and> \<not> is_upper c) s"

fun token_ok :: "token \<Rightarrow> bool" where
  "token_ok (TIdent s) \<longleftrightarrow> ident_ok s"
| "token_ok (TInt n) \<longleftrightarrow> 0 \<le> sint n"
| "token_ok _ \<longleftrightarrow> True"

definition tokens_ok :: "token list \<Rightarrow> bool" where "tokens_ok ts \<longleftrightarrow> list_all token_ok ts"

lemma tokens_ok_simps [simp]: "tokens_ok []" "tokens_ok (t # ts) \<longleftrightarrow> token_ok t \<and> tokens_ok ts"
  by (simp_all add: tokens_ok_def)

fun literal_ok :: "literal \<Rightarrow> bool" where
  "literal_ok (LInt n) \<longleftrightarrow> - (2 ^ 63) < sint n"
| "literal_ok (LVector v) \<longleftrightarrow> v \<noteq> []"
| "literal_ok _ \<longleftrightarrow> True"

text \<open>A column that could be read as the \<open>NOT\<close> operator never starts a comparison.\<close>

fun expr_ok :: "expr \<Rightarrow> bool" where
  "expr_ok (Compare c op v) \<longleftrightarrow> ident_ok c \<and> c \<noteq> ''not'' \<and> literal_ok v"
| "expr_ok (IsNull c negated) \<longleftrightarrow> ident_ok c \<and> c \<noteq> ''not''"
| "expr_ok (ENot e) \<longleftrightarrow> expr_ok e"
| "expr_ok (EAnd a b) \<longleftrightarrow> expr_ok a \<and> expr_ok b"
| "expr_ok (EOr a b) \<longleftrightarrow> expr_ok a \<and> expr_ok b"

fun agg_ok :: "agg_func \<Rightarrow> agg_arg \<Rightarrow> bool" where
  "agg_ok f Star \<longleftrightarrow> f = Count"
| "agg_ok f (Col c) \<longleftrightarrow> ident_ok c"

fun term_ok :: "having_term \<Rightarrow> bool" where
  "term_ok (Having_column c) \<longleftrightarrow> ident_ok c"
| "term_ok (Having_aggregate f a) \<longleftrightarrow> agg_ok f a"

fun having_ok :: "having_expr \<Rightarrow> bool" where
  "having_ok (HCompare t op v) \<longleftrightarrow> term_ok t \<and> literal_ok v"
| "having_ok (HNot e) \<longleftrightarrow> having_ok e"
| "having_ok (HAnd a b) \<longleftrightarrow> having_ok a \<and> having_ok b"
| "having_ok (HOr a b) \<longleftrightarrow> having_ok a \<and> having_ok b"

fun item_ok :: "select_item \<Rightarrow> bool" where
  "item_ok (Item_column c) \<longleftrightarrow> ident_ok c"
| "item_ok (Item_aggregate f a) \<longleftrightarrow> agg_ok f a"

fun type_ok :: "data_type \<Rightarrow> bool" where
  "type_ok (DVector n) \<longleftrightarrow> 0 < n \<and> n \<le> 4096"
| "type_ok _ \<longleftrightarrow> True"

definition column_ok :: "column_def \<Rightarrow> bool" where
  "column_ok c \<longleftrightarrow> ident_ok (cd_name c) \<and> type_ok (cd_ty c) \<and> \<not> cd_indexed c \<and> \<not> cd_range_indexed c"

text \<open>Which projections a \<open>SELECT\<close> can have, given its \<open>GROUP BY\<close> and \<open>HAVING\<close>.\<close>

fun projection_ok :: "projection \<Rightarrow> string list \<Rightarrow> having_expr option \<Rightarrow> bool" where
  "projection_ok All_columns group_by having \<longleftrightarrow> group_by = []"
| "projection_ok (Columns cs) group_by having \<longleftrightarrow> cs \<noteq> [] \<and> list_all ident_ok cs \<and> group_by = [] \<and> having = None"
| "projection_ok (Items its) group_by having \<longleftrightarrow>
    its \<noteq> [] \<and> list_all item_ok its \<and> (list_ex is_aggregate its \<or> group_by \<noteq> [] \<or> having \<noteq> None)"

definition order_ok :: "order_by \<Rightarrow> bool" where
  "order_ok ob \<longleftrightarrow> ident_ok (ob_column ob)
    \<and> (case ob_nearest_to ob of None \<Rightarrow> True | Some q \<Rightarrow> q \<noteq> [] \<and> \<not> ob_descending ob)"

definition limit_ok :: "limit \<Rightarrow> bool" where
  "limit_ok l \<longleftrightarrow> 0 \<le> sint (lim_count l) \<and> 0 \<le> sint (lim_offset l)"

fun statement_ok :: "statement \<Rightarrow> bool" where
  "statement_ok (Create_table name cols) \<longleftrightarrow> ident_ok name \<and> cols \<noteq> [] \<and> list_all column_ok cols"
| "statement_ok (Drop_table name) \<longleftrightarrow> ident_ok name"
| "statement_ok (Create_index t c b) \<longleftrightarrow> ident_ok t \<and> ident_ok c"
| "statement_ok (Drop_index t c b) \<longleftrightarrow> ident_ok t \<and> ident_ok c"
| "statement_ok (Insert t cols rows) \<longleftrightarrow> ident_ok t \<and> pred_option (\<lambda>cs. cs \<noteq> [] \<and> list_all ident_ok cs) cols
    \<and> rows \<noteq> [] \<and> list_all (\<lambda>r. r \<noteq> [] \<and> list_all literal_ok r) rows"
| "statement_ok (Select proj t p g h ob l) \<longleftrightarrow> ident_ok t \<and> pred_option expr_ok p \<and> list_all ident_ok g
    \<and> pred_option having_ok h \<and> pred_option order_ok ob \<and> pred_option limit_ok l \<and> projection_ok proj g h"
| "statement_ok (Update t as p) \<longleftrightarrow> ident_ok t \<and> as \<noteq> []
    \<and> list_all (\<lambda>a. ident_ok (as_column a) \<and> literal_ok (as_value a)) as \<and> pred_option expr_ok p"
| "statement_ok (Delete t p) \<longleftrightarrow> ident_ok t \<and> pred_option expr_ok p"
| "statement_ok (Explain st) \<longleftrightarrow> explainable st \<and> statement_ok st"
| "statement_ok _ \<longleftrightarrow> True"

section \<open>Tokens\<close>

lemma to_lower_char: "ident_char c \<Longrightarrow> ident_char (to_lower c) \<and> \<not> is_upper (to_lower c)"
  by (auto simp: to_lower_def ident_char_def ident_start_def is_upper_def is_lower_def is_digit_def code_def)

lemma to_lower_start: "ident_start c \<Longrightarrow> ident_start (to_lower c)"
  by (auto simp: to_lower_def ident_start_def is_upper_def is_lower_def code_def)

lemma lowered_ident:
  assumes "ident_start c"
  shows "ident_ok (to_lower c # map to_lower (takeWhile ident_char s))"
proof -
  have "ident_char c" using assms by (simp add: ident_char_def)
  then have "list_all (\<lambda>c. ident_char c \<and> \<not> is_upper c) (to_lower c # map to_lower (takeWhile ident_char s))"
    using to_lower_char by (auto simp: list_all_iff dest!: set_takeWhileD)
  then show ?thesis using assms by (simp add: ident_ok_def to_lower_start)
qed

lemma sint_small: "n < 2 ^ 63 \<Longrightarrow> sint (word_of_nat n :: i64) = int n"
  by (simp add: signed_of_nat signed_take_bit_int_eq_self)

lemma lex_step_ok: "lex_step d (c # s) = Ok (Some t, r) \<Longrightarrow> token_ok t"
  by (auto simp: lex_step_def lex_number_def Let_def lowered_ident sint_small ident_char_def split: if_splits)

lemma tokenize_ok: "tokenize d s = Ok ts \<Longrightarrow> tokens_ok ts"
proof (induction d s arbitrary: ts rule: tokenize.induct)
  case (1 d s)
  show ?case
  proof (cases s)
    case Nil
    with "1.prems" show ?thesis by (simp add: tokenize.simps)
  next
    case (Cons c s')
    from "1.prems" obtain t r us where "lex_step d s = Ok (t, r)" "tokenize d r = Ok us"
      "ts = (case t of None \<Rightarrow> us | Some x \<Rightarrow> x # us)"
      by (subst (asm) tokenize.simps) (auto simp: Cons)
    with "1.IH" [of "(t, r)"] Cons show ?thesis by (auto simp: lex_step_ok split: option.splits)
  qed
qed

lemma lex_no_panic: "lex_string acc s \<noteq> Err Parser_panic" "lex_number s \<noteq> Err Parser_panic" "lex_step d s \<noteq> Err Parser_panic"
proof -
  show str: "lex_string acc s \<noteq> Err Parser_panic" for acc s
    by (induction acc s rule: lex_string.induct, subst lex_string.simps) (auto simp: Let_def split: list.splits)
  show num: "lex_number s \<noteq> Err Parser_panic" for s by (simp add: lex_number_def Let_def)
  have m: "map_res f x = Err e \<longleftrightarrow> x = Err e" for f :: "'x \<Rightarrow> 'y" and x and e :: perr by (cases x) auto
  show "lex_step d s \<noteq> Err Parser_panic" by (simp add: lex_step_def Let_def m str num)
qed

lemma map_res_eq_Err [simp]: "map_res f x = Err e \<longleftrightarrow> x = Err e"
  by (cases x) auto

lemma tokenize_no_panic: "tokenize d s \<noteq> Err Parser_panic"
proof (induction d s rule: tokenize.induct)
  case (1 d s)
  then show ?case by (subst tokenize.simps) (auto simp: rbind_eq_Err lex_no_panic)
qed

section \<open>Every parser consumes, returns well-formed trees and does not panic\<close>

named_theorems parse_specs \<open>what a successful parser returns\<close>
named_theorems no_panic \<open>parsers that never panic\<close>

lemma eat_simps [simp]: "eat t [] = None" "eat t (u # r) = (if u = t then Some r else None)"
  by (simp_all add: eat_def)

lemma next_token_Ok [simp]: "next_token m ts = Ok (t, r) \<longleftrightarrow> ts = t # r"
  by (auto simp: next_token_def split: list.splits)

lemma expect_Ok [simp]: "expect d t ts = Ok (u, r) \<longleftrightarrow> ts = t # r"
  by (auto simp: expect_def eat_Some split: option.splits)

lemma identifier_Ok [simp]: "parse_identifier d m ts = Ok (s, r) \<longleftrightarrow> ts = TIdent s # r"
  by (simp add: parse_identifier_def keyword_Ok)

lemma eat_keyword_Some [simp]: "eat_keyword kw ts = Some r \<longleftrightarrow> ts = TIdent kw # r"
  by (simp add: eat_keyword_def eat_Some)

lemma eat_keyword_simps [simp]:
  "eat_keyword kw [] = None" "eat_keyword kw (t # r) = (if t = TIdent kw then Some r else None)"
  by (simp_all add: eat_keyword_def)

lemma token_steps [simp]:
  "next_token m (t # r) = Ok (t, r)" "expect d t (t # r) = Ok ((), r)" "keyword d m (TIdent s # r) = Ok (s, r)"
  "parse_identifier d m (TIdent s # r) = Ok (s, r)" "expect_keyword d kw (TIdent kw # r) = Ok ((), r)"
  by (simp_all add: next_token_def expect_def keyword_def parse_identifier_def expect_keyword_def)

lemmas basic_parsers [simp] = keyword_Ok expect_keyword_Ok eat_Some

lemma basic_no_panic [no_panic]:
  "next_token m ts \<noteq> Err Parser_panic" "expect d t ts \<noteq> Err Parser_panic"
  "keyword d m ts \<noteq> Err Parser_panic" "expect_keyword d kw ts \<noteq> Err Parser_panic"
  "parse_identifier d m ts \<noteq> Err Parser_panic" "parse_unsigned d m ts \<noteq> Err Parser_panic"
proof -
  show n: "next_token m ts \<noteq> Err Parser_panic" for m ts by (simp add: next_token_def split: list.splits)
  show "expect d t ts \<noteq> Err Parser_panic" by (simp add: expect_def unexpected_def split: option.splits)
  show k: "keyword d m ts \<noteq> Err Parser_panic" for m ts
    by (auto simp: keyword_def rbind_eq_Err n split: token.split_asm)
  show "expect_keyword d kw ts \<noteq> Err Parser_panic"
    by (auto simp: expect_keyword_def rbind_eq_Err k split: if_splits)
  show "parse_identifier d m ts \<noteq> Err Parser_panic" by (simp add: parse_identifier_def k)
  show "parse_unsigned d m ts \<noteq> Err Parser_panic"
    by (cases ts; cases "hd ts") (simp_all add: parse_unsigned_def next_token_def)
qed

lemma unsigned_spec [parse_specs]: "parse_unsigned d m ts = Ok (n, r) \<Longrightarrow> ts = TInt n # r \<and> 0 \<le> sint n"
  by (cases ts; cases "hd ts") (auto simp: parse_unsigned_def next_token_def split: if_splits)

lemma consumed_id: "(\<And>x r. res = Ok (x, r) \<Longrightarrow> length r < length ts) \<Longrightarrow> consumed ts res = res"
  by (cases res) (auto simp: consumed_def)

lemma comma_list_unfold:
  assumes "\<And>ts x r. p ts = Ok (x, r) \<Longrightarrow> length r < length ts"
  shows "comma_list p ts = rbind (p ts) (\<lambda>(x, r). case eat TComma r of
      None \<Rightarrow> Ok ([x], r) | Some r' \<Rightarrow> map_res (\<lambda>(xs, r''). (x # xs, r'')) (comma_list p r'))"
  using consumed_id [of "p ts" ts] assms by (subst comma_list.simps) simp

lemma comma_list_spec:
  assumes "\<And>ts x r. p ts = Ok (x, r) \<Longrightarrow> length r < length ts \<and> (tokens_ok ts \<longrightarrow> tokens_ok r \<and> P x)"
    and "comma_list p ts = Ok (xs, r)"
  shows "length r < length ts \<and> (tokens_ok ts \<longrightarrow> tokens_ok r \<and> xs \<noteq> [] \<and> list_all P xs)"
  using assms(2)
proof (induction ts arbitrary: xs r rule: length_induct)
  case (1 ts)
  from "1.prems" obtain x u where x: "p ts = Ok (x, u)"
    and rest: "(case eat TComma u of None \<Rightarrow> Ok ([x], u)
      | Some v \<Rightarrow> map_res (\<lambda>(ys, w). (x # ys, w)) (comma_list p v)) = Ok (xs, r)"
    by (subst (asm) comma_list.simps) auto
  note px = assms(1) [OF x]
  show ?case
  proof (cases "eat TComma u")
    case None
    with rest px show ?thesis by auto
  next
    case (Some v)
    with rest obtain ys where "comma_list p v = Ok (ys, r)" "xs = x # ys" by auto
    moreover have "length v < length ts" using Some px by auto
    ultimately show ?thesis using "1.IH" Some px by force
  qed
qed

lemma comma_list_no_panic:
  assumes "\<And>ts x r. p ts = Ok (x, r) \<Longrightarrow> length r < length ts" "\<And>ts. p ts \<noteq> Err Parser_panic"
  shows "comma_list p ts \<noteq> Err Parser_panic"
proof (induction ts rule: length_induct)
  case (1 ts)
  then show ?case
    using assms(2) by (subst comma_list_unfold [OF assms(1)])
      (auto simp: rbind_eq_Err split: option.splits dest!: assms(1))
qed

section \<open>Literals\<close>

lemma component_value_no_panic [no_panic]: "component_value d t \<noteq> Err Parser_panic"
  by (cases t) auto

lemma component_spec [parse_specs]:
  "vector_component d ts = Ok (x, r) \<Longrightarrow> length r < length ts \<and> (tokens_ok ts \<longrightarrow> tokens_ok r)"
  by (auto simp: vector_component_def Let_def split: option.splits)

lemma component_no_panic [no_panic]: "vector_component d ts \<noteq> Err Parser_panic"
  by (auto simp: vector_component_def Let_def rbind_eq_Err no_panic split: option.splits)

lemma components_spec [parse_specs]:
  "comma_list (vector_component d) ts = Ok (xs, r) \<Longrightarrow> length r < length ts \<and> (tokens_ok ts \<longrightarrow> tokens_ok r \<and> xs \<noteq> [])"
  using comma_list_spec [of "vector_component d" "\<lambda>_. True"] component_spec by blast

lemma neg_not_min: "0 \<le> sint n \<Longrightarrow> - (2 ^ 63) < sint (- n :: i64)"
proof -
  assume "0 \<le> sint n"
  moreover have "sint n < 2 ^ 63" using sint_lt [of n] by simp
  moreover have "- n = word_of_int (- sint n)" by simp
  ultimately have "sint (- n) = - sint n" by (simp only: signed_of_int) (simp add: signed_take_bit_int_eq_self)
  then show ?thesis using \<open>sint n < 2 ^ 63\<close> by simp
qed

lemma components_no_panic [no_panic]: "comma_list (vector_component d) r \<noteq> Err Parser_panic"
  by (rule comma_list_no_panic) (auto simp: no_panic dest: component_spec)

lemma negated_spec: "negated_number d t = Ok v \<Longrightarrow> token_ok t \<Longrightarrow> literal_ok v"
  using neg_not_min by (cases t) auto

lemma negated_no_panic [no_panic]: "negated_number d t \<noteq> Err Parser_panic"
  by (cases t) auto

lemma literal_from_spec:
  "literal_from d t u = Ok (v, r) \<Longrightarrow> length r \<le> length u \<and> (token_ok t \<and> tokens_ok u \<longrightarrow> tokens_ok r \<and> literal_ok v)"
  by (cases t)
    (auto simp: vector_rest_def negative_rest_def negated_spec split: if_splits dest!: components_spec)

lemma literal_from_no_panic [no_panic]: "literal_from d t u \<noteq> Err Parser_panic"
  by (cases t) (auto simp: vector_rest_def negative_rest_def rbind_eq_Err no_panic)

lemma literal_spec [parse_specs]:
  "parse_literal d ts = Ok (v, r) \<Longrightarrow> length r < length ts \<and> (tokens_ok ts \<longrightarrow> tokens_ok r \<and> literal_ok v)"
  by (auto simp: parse_literal_def dest!: literal_from_spec)

lemma literal_no_panic [no_panic]: "parse_literal d ts \<noteq> Err Parser_panic"
  by (auto simp: parse_literal_def rbind_eq_Err no_panic)

lemma comparison_Ok [simp]: "comparison d m ts = Ok (op, r) \<longleftrightarrow> (\<exists>t. ts = t # r \<and> op_of_token t = Some op)"
  by (auto simp: comparison_def split: option.splits)

lemma comparison_no_panic [no_panic]: "comparison d m ts \<noteq> Err Parser_panic"
  by (auto simp: comparison_def rbind_eq_Err no_panic split: option.splits)

section \<open>Boolean expressions\<close>

text \<open>
  What \<open>bool_or\<close> and its companions need of a syntax: its comparisons consume, do not panic and build
  good trees, and the connectives keep trees good. \<open>WHERE\<close> and \<open>HAVING\<close> interpret it.
\<close>

locale bool_grammar =
  fixes syn :: "'e bool_syntax" and good :: "'e \<Rightarrow> bool"
  assumes compare_spec: "bs_compare syn ts = Ok (e, r) \<Longrightarrow> length r < length ts \<and>
      (tokens_ok ts \<and> eat_keyword ''not'' ts = None \<longrightarrow> tokens_ok r \<and> good e)"
    and compare_no_panic: "bs_compare syn ts \<noteq> Err Parser_panic"
    and good_or: "good a \<Longrightarrow> good b \<Longrightarrow> good (bs_or syn a b)"
    and good_and: "good a \<Longrightarrow> good b \<Longrightarrow> good (bs_and syn a b)"
    and good_not: "good a \<Longrightarrow> good (bs_not syn a)"

lemma bool_shapes:
  assumes "bool_grammar syn good"
  shows "bool_or d syn ts = Ok (e, r) \<Longrightarrow> length r < length ts \<and> (tokens_ok ts \<longrightarrow> tokens_ok r \<and> good e)"
    and "or_rest d syn l ts = Ok (e, r) \<Longrightarrow> length r \<le> length ts \<and> (tokens_ok ts \<and> good l \<longrightarrow> tokens_ok r \<and> good e)"
    and "bool_and d syn ts = Ok (e, r) \<Longrightarrow> length r < length ts \<and> (tokens_ok ts \<longrightarrow> tokens_ok r \<and> good e)"
    and "and_rest d syn l ts = Ok (e, r) \<Longrightarrow> length r \<le> length ts \<and> (tokens_ok ts \<and> good l \<longrightarrow> tokens_ok r \<and> good e)"
    and "bool_not d syn ts = Ok (e, r) \<Longrightarrow> length r < length ts \<and> (tokens_ok ts \<longrightarrow> tokens_ok r \<and> good e)"
    and "bool_primary d syn ts = Ok (e, r) \<Longrightarrow> length r < length ts \<and>
      (tokens_ok ts \<and> eat_keyword ''not'' ts = None \<longrightarrow> tokens_ok r \<and> good e)"
  using assms
proof (induction d syn ts and d syn l ts and d syn ts and d syn l ts and d syn ts and d syn ts
    arbitrary: e r and e r and e r and e r and e r and e r
    rule: bool_or_or_rest_bool_and_and_rest_bool_not_bool_primary.induct)
  case (1 d syn ts)
  from "1.prems"(1) obtain l u where l: "bool_and d syn ts = Ok (l, u)" "length u < length ts" "or_rest d syn l u = Ok (e, r)"
    by (subst (asm) bool_or.simps) auto
  then have "consumed ts (bool_and d syn ts) = Ok (l, u)" by simp
  from "1.IH"(1) [OF l(1) "1.prems"(2)] "1.IH"(2) [OF this refl l(3) "1.prems"(2)] show ?case by auto
next
  case (2 d syn l ts)
  show ?case
  proof (cases "eat_keyword ''or'' ts")
    case None
    with "2.prems" show ?thesis by (subst (asm) or_rest.simps) auto
  next
    case (Some u)
    with "2.prems"(1) obtain x v where x: "bool_and d syn u = Ok (x, v)" "length v < length u"
      "or_rest d syn (bs_or syn l x) v = Ok (e, r)"
      by (subst (asm) or_rest.simps) auto
    then have "consumed u (bool_and d syn u) = Ok (x, v)" by simp
    from "2.IH"(1) [OF Some x(1) "2.prems"(2)] "2.IH"(2) [OF Some this refl x(3) "2.prems"(2)]
      bool_grammar.good_or [OF "2.prems"(2)] Some show ?thesis by auto
  qed
next
  case (3 d syn ts)
  from "3.prems"(1) obtain l u where l: "bool_not d syn ts = Ok (l, u)" "length u < length ts" "and_rest d syn l u = Ok (e, r)"
    by (subst (asm) bool_and.simps) auto
  then have "consumed ts (bool_not d syn ts) = Ok (l, u)" by simp
  from "3.IH"(1) [OF l(1) "3.prems"(2)] "3.IH"(2) [OF this refl l(3) "3.prems"(2)] show ?case by auto
next
  case (4 d syn l ts)
  show ?case
  proof (cases "eat_keyword ''and'' ts")
    case None
    with "4.prems" show ?thesis by (subst (asm) and_rest.simps) auto
  next
    case (Some u)
    with "4.prems"(1) obtain x v where x: "bool_not d syn u = Ok (x, v)" "length v < length u"
      "and_rest d syn (bs_and syn l x) v = Ok (e, r)"
      by (subst (asm) and_rest.simps) auto
    then have "consumed u (bool_not d syn u) = Ok (x, v)" by simp
    from "4.IH"(1) [OF Some x(1) "4.prems"(2)] "4.IH"(2) [OF Some this refl x(3) "4.prems"(2)]
      bool_grammar.good_and [OF "4.prems"(2)] Some show ?thesis by auto
  qed
next
  case (5 d syn ts)
  show ?case
  proof (cases "eat_keyword ''not'' ts")
    case None
    with "5.prems"(1) have "bool_primary d syn ts = Ok (e, r)" by (subst (asm) bool_not.simps) auto
    from "5.IH"(1) [OF None this "5.prems"(2)] None show ?thesis by auto
  next
    case (Some u)
    with "5.prems"(1) obtain x where "bool_not d syn u = Ok (x, r)" "e = bs_not syn x"
      by (subst (asm) bool_not.simps) auto
    with "5.IH"(2) [OF Some _ "5.prems"(2), of x r] bool_grammar.good_not [OF "5.prems"(2)] Some show ?thesis by auto
  qed
next
  case (6 d syn ts)
  show ?case
  proof (cases "eat TLParen ts")
    case None
    with "6.prems"(1) have "bs_compare syn ts = Ok (e, r)" by (subst (asm) bool_primary.simps) auto
    from bool_grammar.compare_spec [OF "6.prems"(2) this] show ?thesis .
  next
    case (Some u)
    with "6.prems"(1) have "bool_or d syn u = Ok (e, TRParen # r)" by (subst (asm) bool_primary.simps) auto
    with "6.IH" [OF Some _ "6.prems"(2), of e "TRParen # r"] Some show ?thesis by auto
  qed
qed

lemma rbind_no_panic:
  "res \<noteq> Err e \<Longrightarrow> (\<And>x r. res = Ok (x, r) \<Longrightarrow> f x r \<noteq> Err e) \<Longrightarrow> rbind res (\<lambda>(x, r). f x r) \<noteq> Err e"
  by (cases res) auto

lemma bool_no_panic:
  assumes "bool_grammar syn good"
  shows "bool_or d syn ts \<noteq> Err Parser_panic" "or_rest d syn l ts \<noteq> Err Parser_panic"
    "bool_and d syn ts \<noteq> Err Parser_panic" "and_rest d syn l ts \<noteq> Err Parser_panic"
    "bool_not d syn ts \<noteq> Err Parser_panic" "bool_primary d syn ts \<noteq> Err Parser_panic"
  using assms
proof (induction d syn ts and d syn l ts and d syn ts and d syn l ts and d syn ts and d syn ts
    rule: bool_or_or_rest_bool_and_and_rest_bool_not_bool_primary.induct)
  case (1 d syn ts)
  have "consumed ts (bool_and d syn ts) \<noteq> Err Parser_panic"
    using "1.IH"(1) [OF "1.prems"] bool_shapes(3) [OF "1.prems"] consumed_id [of "bool_and d syn ts" ts] by metis
  then show ?case unfolding bool_or.simps [of d syn ts] using "1.IH"(2) [OF _ refl "1.prems"] by (rule rbind_no_panic)
next
  case (2 d syn l ts)
  show ?case
  proof (cases "eat_keyword ''or'' ts")
    case (Some u)
    have "consumed u (bool_and d syn u) \<noteq> Err Parser_panic"
      using "2.IH"(1) [OF Some "2.prems"] bool_shapes(3) [OF "2.prems"] consumed_id [of "bool_and d syn u" u] by metis
    then have "rbind (consumed u (bool_and d syn u)) (\<lambda>(x, v). or_rest d syn (bs_or syn l x) v) \<noteq> Err Parser_panic"
      using "2.IH"(2) [OF Some _ refl "2.prems"] by (rule rbind_no_panic)
    with Some show ?thesis by (subst or_rest.simps) simp
  qed (subst or_rest.simps, simp)
next
  case (3 d syn ts)
  have "consumed ts (bool_not d syn ts) \<noteq> Err Parser_panic"
    using "3.IH"(1) [OF "3.prems"] bool_shapes(5) [OF "3.prems"] consumed_id [of "bool_not d syn ts" ts] by metis
  then show ?case unfolding bool_and.simps [of d syn ts] using "3.IH"(2) [OF _ refl "3.prems"] by (rule rbind_no_panic)
next
  case (4 d syn l ts)
  show ?case
  proof (cases "eat_keyword ''and'' ts")
    case (Some u)
    have "consumed u (bool_not d syn u) \<noteq> Err Parser_panic"
      using "4.IH"(1) [OF Some "4.prems"] bool_shapes(5) [OF "4.prems"] consumed_id [of "bool_not d syn u" u] by metis
    then have "rbind (consumed u (bool_not d syn u)) (\<lambda>(x, v). and_rest d syn (bs_and syn l x) v) \<noteq> Err Parser_panic"
      using "4.IH"(2) [OF Some _ refl "4.prems"] by (rule rbind_no_panic)
    with Some show ?thesis by (subst and_rest.simps) simp
  qed (subst and_rest.simps, simp)
next
  case (5 d syn ts)
  then show ?case by (subst bool_not.simps) (auto split: option.split simp del: eat_keyword_Some)
next
  case (6 d syn ts)
  then show ?case
    by (subst bool_primary.simps)
      (auto simp: rbind_eq_Err no_panic bool_grammar.compare_no_panic split: option.split simp del: eat_Some)
qed

text \<open>The equations without the guards, that is, the methods as the code has them.\<close>

context bool_grammar
begin

lemma or_unfold: "bool_or d syn ts = rbind (bool_and d syn ts) (\<lambda>(left, r). or_rest d syn left r)"
  using consumed_id [of "bool_and d syn ts" ts] bool_shapes(3) [OF bool_grammar_axioms]
  by (subst bool_or.simps) simp

lemma and_unfold: "bool_and d syn ts = rbind (bool_not d syn ts) (\<lambda>(left, r). and_rest d syn left r)"
  using consumed_id [of "bool_not d syn ts" ts] bool_shapes(5) [OF bool_grammar_axioms]
  by (subst bool_and.simps) simp

lemma or_rest_unfold:
  "or_rest d syn left (TIdent ''or'' # ts) = rbind (bool_and d syn ts) (\<lambda>(right, r). or_rest d syn (bs_or syn left right) r)"
  "eat_keyword ''or'' ts = None \<Longrightarrow> or_rest d syn left ts = Ok (left, ts)"
  using consumed_id [of "bool_and d syn ts" ts] bool_shapes(3) [OF bool_grammar_axioms]
  by (subst or_rest.simps, simp add: eat_keyword_def)+

lemma and_rest_unfold:
  "and_rest d syn left (TIdent ''and'' # ts) = rbind (bool_not d syn ts) (\<lambda>(right, r). and_rest d syn (bs_and syn left right) r)"
  "eat_keyword ''and'' ts = None \<Longrightarrow> and_rest d syn left ts = Ok (left, ts)"
  using consumed_id [of "bool_not d syn ts" ts] bool_shapes(5) [OF bool_grammar_axioms]
  by (subst and_rest.simps, simp add: eat_keyword_def)+

lemma not_unfold:
  "bool_not d syn (TIdent ''not'' # ts) = map_res (\<lambda>(e, r). (bs_not syn e, r)) (bool_not d syn ts)"
  "eat_keyword ''not'' ts = None \<Longrightarrow> bool_not d syn ts = bool_primary d syn ts"
  by (subst bool_not.simps, simp add: eat_keyword_def)+

text \<open>
  A parenthesised group: an operand, or two operands and a connective, between parentheses.
\<close>

lemma operand_alone:
  assumes "bool_not d syn ts = Ok (a, r)" "eat_keyword ''and'' r = None" "eat_keyword ''or'' r = None"
  shows "bool_or d syn ts = Ok (a, r)"
  using assms by (simp add: or_unfold and_unfold and_rest_unfold(2) or_rest_unfold(2))

lemma two_operands:
  assumes "bool_not d syn ts = Ok (a, TIdent kw # us)" "bool_not d syn us = Ok (b, r)"
    and "eat_keyword ''and'' r = None" "eat_keyword ''or'' r = None"
  shows "kw = ''and'' \<Longrightarrow> bool_or d syn ts = Ok (bs_and syn a b, r)"
    and "kw = ''or'' \<Longrightarrow> bool_or d syn ts = Ok (bs_or syn a b, r)"
  using assms by (simp_all add: or_unfold and_unfold and_rest_unfold or_rest_unfold eat_keyword_def)

lemma group:
  assumes "bool_or d syn ts = Ok (a, TRParen # r)"
  shows "bool_not d syn (TLParen # ts) = Ok (a, r)"
proof -
  have "bool_primary d syn (TLParen # ts) = Ok (a, r)" using assms by (subst bool_primary.simps) (simp add: expect_def)
  then show ?thesis by (subst not_unfold(2)) (simp_all add: eat_keyword_def)
qed

end

section \<open>\<open>WHERE\<close> and \<open>HAVING\<close>\<close>

lemma where_compare_spec:
  assumes "where_compare d ts = Ok (e, r)"
  shows "length r < length ts \<and> (tokens_ok ts \<and> eat_keyword ''not'' ts = None \<longrightarrow> tokens_ok r \<and> expr_ok e)"
proof -
  obtain c u where ts: "ts = TIdent c # u" using assms by (auto simp: where_compare_def)
  show ?thesis
  proof (cases "eat_keyword ''is'' u")
    case (Some v)
    with assms ts show ?thesis
      by (cases "eat_keyword ''not'' v") (auto simp: where_compare_def)
  next
    case None
    with assms ts show ?thesis
      by (auto simp: where_compare_def dest!: literal_spec)
  qed
qed

lemma where_compare_no_panic [no_panic]: "where_compare d ts \<noteq> Err Parser_panic"
  by (auto simp: where_compare_def Let_def rbind_eq_Err no_panic split: option.split_asm prod.splits)

interpretation where_grammar: bool_grammar "where_syntax d" expr_ok for d
  by unfold_locales (auto simp: where_syntax_def no_panic dest: where_compare_spec)

lemma expr_spec [parse_specs]:
  "parse_expr d ts = Ok (e, r) \<Longrightarrow> length r < length ts \<and> (tokens_ok ts \<longrightarrow> tokens_ok r \<and> expr_ok e)"
  unfolding parse_expr_def by (rule bool_shapes(1) [OF where_grammar.bool_grammar_axioms])

lemma expr_no_panic [no_panic]: "parse_expr d ts \<noteq> Err Parser_panic"
  unfolding parse_expr_def by (rule bool_no_panic(1) [OF where_grammar.bool_grammar_axioms])

lemma optional_where_spec [parse_specs]:
  "optional_where d ts = Ok (p, r) \<Longrightarrow> length r \<le> length ts \<and> (tokens_ok ts \<longrightarrow> tokens_ok r \<and> pred_option expr_ok p)"
  by (auto simp: optional_where_def split: option.split_asm dest!: expr_spec)

lemma optional_where_no_panic [no_panic]: "optional_where d ts \<noteq> Err Parser_panic"
  by (auto simp: optional_where_def no_panic split: option.split_asm)

lemma peek_aggregate_Some:
  assumes "peek_aggregate ts = Some f"
  shows "\<exists>name r. ts = TIdent name # TLParen # r"
proof -
  from assms obtain name u where ts: "ts = TIdent name # u"
    by (cases ts; cases "hd ts") (simp_all add: peek_aggregate_def)
  with assms show ?thesis
    by (cases u; cases "agg_of_name name") (auto simp: peek_aggregate_def split: if_split_asm)
qed

lemma agg_args_spec [parse_specs]:
  assumes "agg_args d f ts = Ok (a, r)"
  shows "length r < length ts \<and> (tokens_ok ts \<longrightarrow> tokens_ok r \<and> agg_ok f a)"
proof -
  obtain u where ts: "ts = TLParen # u" using assms by (auto simp: agg_args_def)
  show ?thesis
  proof (cases "eat TStar u")
    case (Some v)
    with assms ts show ?thesis by (cases "f = Count") (auto simp: agg_args_def)
  next
    case None
    with assms ts show ?thesis by (auto simp: agg_args_def)
  qed
qed

lemma agg_args_no_panic [no_panic]: "agg_args d f ts \<noteq> Err Parser_panic"
  by (auto simp: agg_args_def rbind_eq_Err no_panic split: option.split_asm if_split_asm)

lemma having_term_spec:
  "(case peek_aggregate ts of
      Some func \<Rightarrow> map_res (\<lambda>(arg, r). (Having_aggregate func arg, r)) (agg_args d func (tl ts))
    | None \<Rightarrow> map_res (\<lambda>(c, r). (Having_column c, r)) (parse_identifier d m ts)) = Ok (t, r)
    \<Longrightarrow> length r < length ts \<and> (tokens_ok ts \<longrightarrow> tokens_ok r \<and> term_ok t)"
  by (auto split: option.split_asm dest!: peek_aggregate_Some agg_args_spec)

lemma having_compare_spec:
  "having_compare d ts = Ok (e, r) \<Longrightarrow> length r < length ts \<and> (tokens_ok ts \<longrightarrow> tokens_ok r \<and> having_ok e)"
  by (auto simp: having_compare_def dest!: having_term_spec literal_spec)

lemma having_compare_no_panic [no_panic]: "having_compare d ts \<noteq> Err Parser_panic"
  by (auto simp: having_compare_def rbind_eq_Err no_panic split: option.split_asm)

interpretation having_grammar: bool_grammar "having_syntax d" having_ok for d
  by unfold_locales (auto simp: having_syntax_def no_panic dest: having_compare_spec)

lemma having_spec [parse_specs]:
  "parse_having d ts = Ok (e, r) \<Longrightarrow> length r < length ts \<and> (tokens_ok ts \<longrightarrow> tokens_ok r \<and> having_ok e)"
  unfolding parse_having_def by (rule bool_shapes(1) [OF having_grammar.bool_grammar_axioms])

lemma having_no_panic [no_panic]: "parse_having d ts \<noteq> Err Parser_panic"
  unfolding parse_having_def by (rule bool_no_panic(1) [OF having_grammar.bool_grammar_axioms])

lemma select_item_spec:
  "parse_select_item d ts = Ok (it, r) \<Longrightarrow> length r < length ts \<and> (tokens_ok ts \<longrightarrow> tokens_ok r \<and> item_ok it)"
  by (auto simp: parse_select_item_def split: option.split_asm dest!: peek_aggregate_Some agg_args_spec)

lemma select_item_no_panic: "parse_select_item d ts \<noteq> Err Parser_panic"
  by (auto simp: parse_select_item_def no_panic split: option.split_asm)

section \<open>Statements\<close>

lemma identifiers_spec [parse_specs]:
  "comma_list (parse_identifier d m) ts = Ok (xs, r) \<Longrightarrow>
    length r < length ts \<and> (tokens_ok ts \<longrightarrow> tokens_ok r \<and> xs \<noteq> [] \<and> list_all ident_ok xs)"
  by (rule comma_list_spec) auto

lemma literals_spec [parse_specs]:
  "comma_list (parse_literal d) ts = Ok (xs, r) \<Longrightarrow>
    length r < length ts \<and> (tokens_ok ts \<longrightarrow> tokens_ok r \<and> xs \<noteq> [] \<and> list_all literal_ok xs)"
  by (rule comma_list_spec) (rule literal_spec)

lemma lists_no_panic [no_panic]:
  "comma_list (parse_identifier d m) ts \<noteq> Err Parser_panic" "comma_list (parse_literal d) ts \<noteq> Err Parser_panic"
  by (rule comma_list_no_panic; auto simp: no_panic dest: literal_spec)+

lemma index_target_spec [parse_specs]:
  "index_target d create b ts = Ok (st, r) \<Longrightarrow> length r < length ts \<and> (tokens_ok ts \<longrightarrow> tokens_ok r \<and> statement_ok st)"
  by (auto simp: index_target_def)

lemma index_target_no_panic [no_panic]: "index_target d create b ts \<noteq> Err Parser_panic"
  by (auto simp: index_target_def rbind_eq_Err no_panic)

lemma vector_dimension: "\<not> (dim = 0 \<or> 4096 < (dim :: u64)) \<Longrightarrow> type_ok (DVector (ucast dim))"
proof -
  assume d: "\<not> (dim = 0 \<or> 4096 < dim)"
  then have le: "unat dim \<le> 4096" by (simp add: word_le_nat_alt not_less)
  moreover have "0 < unat dim" using d by (simp add: unat_gt_0)
  ultimately have "unat (ucast dim :: u16) = unat dim" by (simp add: unsigned_ucast_eq take_bit_nat_eq_self)
  with le \<open>0 < unat dim\<close> show ?thesis by (simp add: word_less_nat_alt word_le_nat_alt)
qed

lemma type_spec [parse_specs]:
  assumes "parse_type d ts = Ok (ty, r)"
  shows "length r < length ts \<and> (tokens_ok ts \<longrightarrow> tokens_ok r \<and> type_ok ty)"
proof -
  obtain kw u where ts: "ts = TIdent kw # u" using assms by (auto simp: parse_type_def)
  show ?thesis using assms ts vector_dimension
    by (cases "kw = ''vector''") (auto simp: parse_type_def split: if_split_asm dest!: unsigned_spec)
qed

lemma type_no_panic [no_panic]: "parse_type d ts \<noteq> Err Parser_panic"
  by (auto simp: parse_type_def rbind_eq_Err no_panic split: if_split_asm)

lemma markers_spec [parse_specs]:
  "column_markers d enc pk ts = Ok (m, r) \<Longrightarrow> length r \<le> length ts \<and> (tokens_ok ts \<longrightarrow> tokens_ok r)"
proof (induction d enc pk ts rule: column_markers.induct)
  case (1 d enc pk ts)
  show ?case
  proof (cases "eat_keyword ''encrypted'' ts")
    case (Some u)
    with "1.prems" have "column_markers d True pk u = Ok (m, r)" by (subst (asm) column_markers.simps) simp
    from "1.IH"(2) [OF Some this] Some show ?thesis by auto
  next
    case enc: None
    show ?thesis
    proof (cases "eat_keyword ''primary'' ts")
      case (Some u)
      with "1.prems" enc obtain v where v: "u = TIdent ''key'' # v" "column_markers d enc True v = Ok (m, r)"
        by (subst (asm) column_markers.simps) auto
      from "1.IH"(1) [OF enc Some _ refl v(2)] v Some show ?thesis by auto
    next
      case None
      with "1.prems" enc show ?thesis by (subst (asm) column_markers.simps) simp
    qed
  qed
qed

lemma markers_no_panic [no_panic]: "column_markers d enc pk ts \<noteq> Err Parser_panic"
proof (induction d enc pk ts rule: column_markers.induct)
  case (1 d enc pk ts)
  then show ?case by (subst column_markers.simps) (auto simp: rbind_eq_Err no_panic split: option.split)
qed

lemma column_spec:
  "parse_column d ts = Ok (c, r) \<Longrightarrow> length r < length ts \<and> (tokens_ok ts \<longrightarrow> tokens_ok r \<and> column_ok c)"
  by (auto simp: parse_column_def column_ok_def dest!: type_spec markers_spec)

lemma columns_spec [parse_specs]:
  "comma_list (parse_column d) ts = Ok (xs, r) \<Longrightarrow>
    length r < length ts \<and> (tokens_ok ts \<longrightarrow> tokens_ok r \<and> xs \<noteq> [] \<and> list_all column_ok xs)"
  by (rule comma_list_spec) (rule column_spec)

lemma columns_no_panic [no_panic]: "comma_list (parse_column d) ts \<noteq> Err Parser_panic"
  by (rule comma_list_no_panic) (use column_spec in blast, auto simp: parse_column_def rbind_eq_Err no_panic)

lemma tables_spec [parse_specs]:
  "parse_create_table d ts = Ok (st, r) \<Longrightarrow> length r < length ts \<and> (tokens_ok ts \<longrightarrow> tokens_ok r \<and> statement_ok st)"
  "parse_drop_table d ts = Ok (st, r) \<Longrightarrow> length r < length ts \<and> (tokens_ok ts \<longrightarrow> tokens_ok r \<and> statement_ok st)"
  by (auto simp: parse_create_table_def parse_drop_table_def dest!: columns_spec)

lemma tables_no_panic [no_panic]:
  "parse_create_table d ts \<noteq> Err Parser_panic" "parse_drop_table d ts \<noteq> Err Parser_panic"
  by (auto simp: parse_create_table_def parse_drop_table_def rbind_eq_Err no_panic)

lemma tuple_spec:
  "value_tuple d ts = Ok (vs, r) \<Longrightarrow>
    length r < length ts \<and> (tokens_ok ts \<longrightarrow> tokens_ok r \<and> vs \<noteq> [] \<and> list_all literal_ok vs)"
  by (auto simp: value_tuple_def dest!: literals_spec)

lemma tuples_spec [parse_specs]:
  "comma_list (value_tuple d) ts = Ok (xs, r) \<Longrightarrow>
    length r < length ts \<and> (tokens_ok ts \<longrightarrow> tokens_ok r \<and> xs \<noteq> [] \<and> list_all (\<lambda>vs. vs \<noteq> [] \<and> list_all literal_ok vs) xs)"
  by (rule comma_list_spec) (rule tuple_spec)

lemma tuples_no_panic [no_panic]: "comma_list (value_tuple d) ts \<noteq> Err Parser_panic"
  by (rule comma_list_no_panic) (use tuple_spec in blast, auto simp: value_tuple_def rbind_eq_Err no_panic)

lemma insert_spec [parse_specs]:
  assumes "parse_insert d ts = Ok (st, r)"
  shows "length r < length ts \<and> (tokens_ok ts \<longrightarrow> tokens_ok r \<and> statement_ok st)"
proof -
  obtain t u where ts: "ts = TIdent ''into'' # TIdent t # u" using assms by (auto simp: parse_insert_def)
  with assms show ?thesis
    by (cases "eat TLParen u") (auto simp: parse_insert_def dest!: identifiers_spec tuples_spec)
qed

lemma insert_no_panic [no_panic]: "parse_insert d ts \<noteq> Err Parser_panic"
  by (auto simp: parse_insert_def rbind_eq_Err no_panic split: option.split_asm)

lemma assignment_spec:
  "parse_assignment d ts = Ok (a, r) \<Longrightarrow> length r < length ts \<and>
    (tokens_ok ts \<longrightarrow> tokens_ok r \<and> ident_ok (as_column a) \<and> literal_ok (as_value a))"
  by (auto simp: parse_assignment_def dest!: literal_spec)

lemma assignments_spec [parse_specs]:
  "comma_list (parse_assignment d) ts = Ok (xs, r) \<Longrightarrow> length r < length ts \<and>
    (tokens_ok ts \<longrightarrow> tokens_ok r \<and> xs \<noteq> [] \<and> list_all (\<lambda>a. ident_ok (as_column a) \<and> literal_ok (as_value a)) xs)"
  by (rule comma_list_spec) (rule assignment_spec)

lemma update_delete_spec [parse_specs]:
  "parse_update d ts = Ok (st, r) \<Longrightarrow> length r < length ts \<and> (tokens_ok ts \<longrightarrow> tokens_ok r \<and> statement_ok st)"
  "parse_delete d ts = Ok (st, r) \<Longrightarrow> length r < length ts \<and> (tokens_ok ts \<longrightarrow> tokens_ok r \<and> statement_ok st)"
  by (auto simp: parse_update_def parse_delete_def dest!: optional_where_spec assignments_spec)

lemma update_delete_no_panic [no_panic]:
  "parse_update d ts \<noteq> Err Parser_panic" "parse_delete d ts \<noteq> Err Parser_panic"
proof -
  have "comma_list (parse_assignment d) ts \<noteq> Err Parser_panic" for ts
    by (rule comma_list_no_panic) (use assignment_spec in blast, auto simp: parse_assignment_def rbind_eq_Err no_panic)
  then show "parse_update d ts \<noteq> Err Parser_panic"
    by (auto simp: parse_update_def rbind_eq_Err no_panic)
  show "parse_delete d ts \<noteq> Err Parser_panic" by (auto simp: parse_delete_def rbind_eq_Err no_panic)
qed

lemma plain_columns_spec:
  assumes "list_all item_ok items" "items \<noteq> []" "\<not> list_ex is_aggregate items"
  shows "\<exists>cs. plain_columns items = Ok cs \<and> cs \<noteq> [] \<and> list_all ident_ok cs"
proof -
  have "\<exists>cs. plain_columns items = Ok cs \<and> length cs = length items \<and> list_all ident_ok cs"
    using assms(1,3)
  proof (induction items)
    case Nil
    then show ?case by (simp add: plain_columns_def)
  next
    case (Cons it its)
    then show ?case by (cases it) (auto simp: plain_columns_def is_aggregate_def)
  qed
  with assms(2) show ?thesis by fastforce
qed

text \<open>The projection parsed first, before it is known whether the query aggregates.\<close>

definition raw_projection_ok :: "projection \<Rightarrow> bool \<Rightarrow> bool" where
  "raw_projection_ok proj has_aggregate \<longleftrightarrow> proj = All_columns \<and> \<not> has_aggregate
    \<or> (\<exists>its. proj = Items its \<and> its \<noteq> [] \<and> list_all item_ok its \<and> has_aggregate = list_ex is_aggregate its)"

lemma projection_spec:
  assumes "raw_projection_ok proj has_agg"
  shows "select_projection proj has_agg g h = Ok proj' \<Longrightarrow> projection_ok proj' g h"
    and "select_projection proj has_agg g h \<noteq> Err Parser_panic"
  using assms plain_columns_spec
  by (auto simp: raw_projection_ok_def select_projection_def split: if_split_asm)
    (fastforce simp: rbind_eq_Err split: if_split_asm)+

lemma group_by_spec [parse_specs]:
  "parse_group_by d ts = Ok (g, r) \<Longrightarrow> length r \<le> length ts \<and> (tokens_ok ts \<longrightarrow> tokens_ok r \<and> list_all ident_ok g)"
  by (cases "eat_keyword ''group'' ts") (auto simp: parse_group_by_def dest!: identifiers_spec)

lemma nearest_query_Ok [simp]: "nearest_query d v = Ok q \<longleftrightarrow> v = LVector q"
  by (cases v) auto

lemma nearest_query_no_panic [no_panic]: "nearest_query d v \<noteq> Err Parser_panic"
  by (cases v) auto

lemma order_by_spec [parse_specs]:
  assumes "parse_order_by d ts = Ok (ob, r)"
  shows "length r \<le> length ts \<and> (tokens_ok ts \<longrightarrow> tokens_ok r \<and> pred_option order_ok ob)"
proof (cases "eat_keyword ''order'' ts")
  case None
  with assms show ?thesis by (simp add: parse_order_by_def)
next
  case (Some u)
  with assms obtain c v where u: "u = TIdent ''by'' # TIdent c # v" by (auto simp: parse_order_by_def)
  show ?thesis
  proof (cases "eat_keyword ''nearest'' v")
    case near: (Some w)
    with assms u Some show ?thesis by (auto simp: parse_order_by_def order_ok_def dest!: literal_spec)
  next
    case far: None
    with assms u Some show ?thesis
      by (cases "eat_keyword ''desc'' v"; cases "eat_keyword ''asc'' v") (auto simp: parse_order_by_def order_ok_def)
  qed
qed

lemma limit_spec [parse_specs]:
  assumes "parse_limit d ts = Ok (l, r)"
  shows "length r \<le> length ts \<and> (tokens_ok ts \<longrightarrow> tokens_ok r \<and> pred_option limit_ok l)"
proof (cases "eat_keyword ''limit'' ts")
  case None
  with assms show ?thesis by (simp add: parse_limit_def)
next
  case (Some u)
  with assms obtain n v where u: "parse_unsigned d ''a row count after LIMIT'' u = Ok (n, v)" by (auto simp: parse_limit_def)
  with assms Some show ?thesis
    by (cases "eat_keyword ''offset'' v") (auto simp: parse_limit_def limit_ok_def dest!: unsigned_spec)
qed

lemma clauses_no_panic [no_panic]:
  "parse_group_by d ts \<noteq> Err Parser_panic" "parse_order_by d ts \<noteq> Err Parser_panic" "parse_limit d ts \<noteq> Err Parser_panic"
proof -
  show "parse_group_by d ts \<noteq> Err Parser_panic"
    by (auto simp: parse_group_by_def rbind_eq_Err no_panic split: option.split_asm)
  show "parse_order_by d ts \<noteq> Err Parser_panic"
    by (auto simp: parse_order_by_def rbind_eq_Err no_panic split: option.split_asm)
  show "parse_limit d ts \<noteq> Err Parser_panic"
    by (auto simp: parse_limit_def rbind_eq_Err no_panic split: option.split_asm)
qed

lemma items_spec [parse_specs]:
  "comma_list (parse_select_item d) ts = Ok (xs, r) \<Longrightarrow>
    length r < length ts \<and> (tokens_ok ts \<longrightarrow> tokens_ok r \<and> xs \<noteq> [] \<and> list_all item_ok xs)"
  by (rule comma_list_spec) (rule select_item_spec)

lemma items_no_panic [no_panic]: "comma_list (parse_select_item d) ts \<noteq> Err Parser_panic"
  by (rule comma_list_no_panic) (use select_item_spec in blast, auto simp: select_item_no_panic)

lemma select_head_spec:
  "select_head d ts = Ok ((proj, has_agg), r) \<Longrightarrow> length r < length ts \<and>
    (tokens_ok ts \<longrightarrow> tokens_ok r \<and> raw_projection_ok proj has_agg)"
  by (cases "eat TStar ts") (auto simp: select_head_def raw_projection_ok_def dest!: items_spec)

lemma optional_having_spec [parse_specs]:
  "optional_having d ts = Ok (h, r) \<Longrightarrow> length r \<le> length ts \<and> (tokens_ok ts \<longrightarrow> tokens_ok r \<and> pred_option having_ok h)"
  by (cases "eat_keyword ''having'' ts") (auto simp: optional_having_def dest!: having_spec)

lemma select_parts_no_panic [no_panic]:
  "select_head d ts \<noteq> Err Parser_panic" "optional_having d ts \<noteq> Err Parser_panic"
  by (auto simp: select_head_def optional_having_def no_panic split: option.split_asm)

lemma select_spec [parse_specs]:
  assumes "parse_select d ts = Ok (st, r)"
  shows "length r < length ts \<and> (tokens_ok ts \<longrightarrow> tokens_ok r \<and> statement_ok st)"
proof -
  from assms obtain proj agg u t v p r3 g r4 h r5 proj' ob r6 l where parts:
    "select_head d ts = Ok ((proj, agg), u)" "u = TIdent ''from'' # TIdent t # v" "optional_where d v = Ok (p, r3)"
    "parse_group_by d r3 = Ok (g, r4)" "optional_having d r4 = Ok (h, r5)" "select_projection proj agg g h = Ok proj'"
    "parse_order_by d r5 = Ok (ob, r6)" "parse_limit d r6 = Ok (l, r)" "st = Select proj' t p g h ob l"
    by (auto simp: parse_select_def)
  note specs = select_head_spec [OF parts(1)] optional_where_spec [OF parts(3)] group_by_spec [OF parts(4)]
    optional_having_spec [OF parts(5)] order_by_spec [OF parts(7)] limit_spec [OF parts(8)]
  have "length r < length ts" using specs parts(2) by simp
  moreover have "tokens_ok r \<and> statement_ok st" if "tokens_ok ts"
    using that specs parts(2,9) projection_spec(1) [OF _ parts(6)] by auto
  ultimately show ?thesis by blast
qed

text \<open>The \<open>unreachable!\<close> of \<open>select\<close> needs no well-formed tokens: the items without aggregates are columns.\<close>

lemma select_projection_no_panic:
  assumes "select_head d ts = Ok ((proj, agg), r)"
  shows "select_projection proj agg g h \<noteq> Err Parser_panic"
proof -
  have "plain_columns its \<noteq> Err Parser_panic" if "\<not> list_ex is_aggregate its" for its
    using that
  proof (induction its)
    case (Cons it its)
    then show ?case by (cases it) (auto simp: plain_columns_def is_aggregate_def rbind_eq_Err)
  qed (simp add: plain_columns_def)
  with assms show ?thesis
    by (cases "eat TStar ts") (auto simp: select_head_def select_projection_def rbind_eq_Err split: if_split_asm)
qed

lemma select_no_panic [no_panic]: "parse_select d ts \<noteq> Err Parser_panic"
  by (auto simp: parse_select_def rbind_eq_Err no_panic dest: select_projection_no_panic)

lemma noise_word_spec: "length (noise_word ts) \<le> length ts" "tokens_ok ts \<Longrightarrow> tokens_ok (noise_word ts)"
  by (auto simp: noise_word_def split: option.split)

lemma index_or_table_spec:
  assumes "\<And>ts st r. p ts = Ok (st, r) \<Longrightarrow> length r < length ts \<and> (tokens_ok ts \<longrightarrow> tokens_ok r \<and> statement_ok st)"
    and "index_or_table d b p ts = Ok (st, r)"
  shows "length r < length ts \<and> (tokens_ok ts \<longrightarrow> tokens_ok r \<and> statement_ok st)"
  using assms(2) by (cases "eat_keyword ''index'' ts"; cases "eat_keyword ''range'' ts")
    (auto simp: index_or_table_def dest!: index_target_spec assms(1))

lemma index_or_table_no_panic [no_panic]:
  "(\<And>ts. p ts \<noteq> Err Parser_panic) \<Longrightarrow> index_or_table d b p ts \<noteq> Err Parser_panic"
  by (cases "eat_keyword ''index'' ts"; cases "eat_keyword ''range'' ts")
    (auto simp: index_or_table_def no_panic rbind_eq_Err)

lemma create_drop_spec [parse_specs]:
  "index_or_table d b (parse_create_table d) ts = Ok (st, r) \<Longrightarrow>
    length r < length ts \<and> (tokens_ok ts \<longrightarrow> tokens_ok r \<and> statement_ok st)"
  "index_or_table d b (parse_drop_table d) ts = Ok (st, r) \<Longrightarrow>
    length r < length ts \<and> (tokens_ok ts \<longrightarrow> tokens_ok r \<and> statement_ok st)"
  using index_or_table_spec tables_spec by blast+

lemma simple_statement_spec:
  assumes "simple_statement d kw ts = Ok (st, r)"
  shows "length r \<le> length ts \<and> (tokens_ok ts \<longrightarrow> tokens_ok r \<and> statement_ok st)"
  using assms noise_word_spec [of ts] unfolding simple_statement_def
  by (auto simp: less_imp_le split: if_split_asm
      dest!: insert_spec select_spec update_delete_spec create_drop_spec)

lemma simple_statement_no_panic [no_panic]: "simple_statement d kw ts \<noteq> Err Parser_panic"
  unfolding simple_statement_def by (simp add: no_panic)

lemma statement_spec:
  "parse_statement d ts = Ok (st, r) \<Longrightarrow> length r < length ts \<and> (tokens_ok ts \<longrightarrow> tokens_ok r \<and> statement_ok st)"
proof (induction d ts arbitrary: st r rule: parse_statement.induct)
  case (1 d ts)
  from "1.prems" obtain kw u where ts: "ts = TIdent kw # u" by (subst (asm) parse_statement.simps) auto
  show ?case
  proof (cases "kw = ''explain''")
    case True
    with "1.prems" ts obtain st' where "parse_statement d u = Ok (st', r)" "st = Explain st'" "explainable st'"
      by (subst (asm) parse_statement.simps) (auto split: if_split_asm)
    with "1.IH" [of "(kw, u)" kw u st' r] True ts show ?thesis by auto
  next
    case False
    with "1.prems" ts have "simple_statement d kw u = Ok (st, r)" by (subst (asm) parse_statement.simps) simp
    from simple_statement_spec [OF this] ts show ?thesis by auto
  qed
qed

lemma statement_no_panic: "parse_statement d ts \<noteq> Err Parser_panic"
proof (induction d ts rule: parse_statement.induct)
  case (1 d ts)
  then show ?case by (subst parse_statement.simps) (auto simp: rbind_eq_Err no_panic split: if_split_asm)
qed

lemma statement_list_unfold:
  "statement_list d ts0 =
    (let ts = dropWhile (\<lambda>t. t = TSemi) ts0 in
     if ts = [] then Ok []
     else rbind (parse_statement d ts) (\<lambda>(st, r).
       if r \<noteq> [] \<and> eat TSemi r = None then Err (unexpected d (quoted '';'' @ '' or end of input'') r)
       else map_res (Cons st) (statement_list d r)))"
proof -
  have "consumed ts (parse_statement d ts) = parse_statement d ts" for ts
    by (rule consumed_id) (use statement_spec in blast)
  then show ?thesis by (subst statement_list.simps) (simp add: Let_def)
qed

lemma statement_list_spec:
  "case statement_list d ts of Ok sts \<Rightarrow> tokens_ok ts \<longrightarrow> list_all statement_ok sts | Err e \<Rightarrow> e \<noteq> Parser_panic"
proof (induction ts rule: length_induct)
  case (1 ts0)
  let ?ts = "dropWhile (\<lambda>t. t = TSemi) ts0"
  have ok: "tokens_ok ts0 \<Longrightarrow> tokens_ok ?ts" by (auto simp: tokens_ok_def list_all_iff dest: set_dropWhileD)
  show ?case
  proof (cases "?ts = [] \<or> (\<exists>e. parse_statement d ?ts = Err e)")
    case True
    then show ?thesis using statement_no_panic by (subst statement_list_unfold) (auto simp: Let_def)
  next
    case False
    then obtain st r where st: "parse_statement d ?ts = Ok (st, r)" by (metis result.exhaust surj_pair)
    from statement_spec [OF st] have "length r < length ts0"
      using length_dropWhile_le [of "\<lambda>t. t = TSemi" ts0] by linarith
    with "1.IH" have "case statement_list d r of Ok sts \<Rightarrow> tokens_ok r \<longrightarrow> list_all statement_ok sts | Err e \<Rightarrow> e \<noteq> Parser_panic"
      by blast
    with False st statement_spec [OF st] ok show ?thesis
      by (subst statement_list_unfold) (auto simp: Let_def unexpected_def split: result.splits)
  qed
qed

lemma not_panic: "e \<noteq> Parser_panic \<longleftrightarrow> (\<exists>msg. e = ParseError msg)"
  by (cases e) auto

text \<open>
  C27: the parser is total and answers with well-formed statements only. On every input text it returns
  statements or a parse error, never a panic, and what it returns satisfies the shape the engine relies
  on: lower-case identifiers, vector dimensions from 1 to 4096, non-empty column and value lists, no
  integer literal whose negation would overflow, aggregates only in the grouped form of a projection,
  \<open>EXPLAIN\<close> only over \<open>SELECT\<close>, \<open>UPDATE\<close> and \<open>DELETE\<close>.
\<close>

theorem parser_total_and_well_formed:
  "case parse_statements d sql of Ok sts \<Rightarrow> list_all statement_ok sts | Err e \<Rightarrow> \<exists>msg. e = ParseError msg"
proof (cases "tokenize d sql")
  case (Ok ts)
  with statement_list_spec [where ts = ts and d = d] tokenize_ok [OF Ok] show ?thesis
    by (auto simp: parse_statements_def not_panic split: result.splits)
next
  case (Err e)
  with tokenize_no_panic [of d sql] show ?thesis by (auto simp: parse_statements_def not_panic)
qed

end
