(* ===== verification/Parser_Print.thy ===== *)
theory Parser_Print
  imports Parser_Correct
begin

text \<open>
  The text that \<open>EXPLAIN\<close> shows for a predicate (\<open>Display for Expr\<close>) parses back to that predicate. Lexing
  and parsing are followed through the text piece by piece; \<open>expr_tokens\<close> is what lies between them.
\<close>

section \<open>Decimal numbers\<close>

lemma digit_char: "n < (10 :: nat) \<Longrightarrow> is_digit (char_of (48 + n))"
  by (simp add: is_digit_def code_def)

lemma show_nat_digits: "list_all is_digit (show_nat n) \<and> show_nat n \<noteq> []"
proof (induction n rule: show_nat.induct)
  case (1 n)
  then show ?case by (subst (1 2) show_nat.simps) (auto simp: digit_char)
qed

lemma text_nat_snoc: "text_nat (s @ [c]) = 10 * text_nat s + (code c - 48)"
  by (simp add: text_nat_def)

lemma text_nat_show: "text_nat (show_nat n) = n"
proof (induction n rule: show_nat.induct)
  case (1 n)
  show ?case
  proof (cases "n < 10")
    case True
    then show ?thesis by (subst show_nat.simps) (simp add: text_nat_def code_def)
  next
    case False
    then show ?thesis using "1.IH" by (subst show_nat.simps) (simp add: text_nat_snoc code_def)
  qed
qed

section \<open>Numbers as text\<close>

text \<open>
  The renderings the tokenizer reads as one number: digits, perhaps a dot and more digits, perhaps a
  minus sign before them.
\<close>

definition unsigned_token :: "string \<Rightarrow> token" where
  "unsigned_token s = (let ip = takeWhile is_digit s; r = dropWhile is_digit s in
     if r = [] then TInt (word_of_nat (text_nat ip)) else TFloat (f64_of_decimal ip (tl r)))"

definition unsigned_text :: "string \<Rightarrow> bool" where
  "unsigned_text s \<longleftrightarrow> (let ip = takeWhile is_digit s; r = dropWhile is_digit s in
     ip \<noteq> [] \<and> (if r = [] then text_nat ip < 2 ^ 63 else hd r = CHR ''.'' \<and> tl r \<noteq> [] \<and> list_all is_digit (tl r)))"

definition minus_sign :: "string \<Rightarrow> bool" where "minus_sign s \<longleftrightarrow> s \<noteq> [] \<and> hd s = CHR ''-''"

definition number_text :: "string \<Rightarrow> bool" where
  "number_text s \<longleftrightarrow> unsigned_text (if minus_sign s then tl s else s)"

definition number_tokens :: "string \<Rightarrow> token list" where
  "number_tokens s = (if minus_sign s then [TMinus, unsigned_token (tl s)] else [unsigned_token s])"

text \<open>
  What the standard library prints for a finite float: a decimal numeral of its value, with a point
  only where the value has a fraction (\<open>1.0\<close> is printed \<open>1\<close>). \<open>number_text\<close> adds that a numeral without
  a point is below \<open>2 ^ 63\<close>: a larger one is refused by the tokenizer.
\<close>

definition digits_of :: "string \<Rightarrow> string" where
  "digits_of s = (if minus_sign s then tl s else s)"

definition has_point :: "string \<Rightarrow> bool" where
  "has_point s \<longleftrightarrow> dropWhile is_digit (digits_of s) \<noteq> []"

definition reads_real :: "string \<Rightarrow> f64 \<Rightarrow> bool" where
  "reads_real s x \<longleftrightarrow> number_text s \<and>
    f64_of_decimal (takeWhile is_digit (digits_of s)) (tl (dropWhile is_digit (digits_of s)))
      = (if minus_sign s then f64_neg x else x)"

text \<open>
  What the parser then reads: a \<open>REAL\<close> printed with a point is that \<open>REAL\<close> again, and one printed
  without a point is the \<open>INT\<close> literal of its digits. Every other literal is itself.
\<close>

fun reread_literal :: "display \<Rightarrow> literal \<Rightarrow> literal" where
  "reread_literal d (LReal x) =
    (if has_point (d_f64 d x) then LReal x
     else let n = word_of_nat (text_nat (digits_of (d_f64 d x))) in
       LInt (if minus_sign (d_f64 d x) then - n else n))"
| "reread_literal d v = v"

fun reread_expr :: "display \<Rightarrow> expr \<Rightarrow> expr" where
  "reread_expr d (Compare c op v) = Compare c op (reread_literal d v)"
| "reread_expr d (IsNull c negated) = IsNull c negated"
| "reread_expr d (ENot e) = ENot (reread_expr d e)"
| "reread_expr d (EAnd a b) = EAnd (reread_expr d a) (reread_expr d b)"
| "reread_expr d (EOr a b) = EOr (reread_expr d a) (reread_expr d b)"

fun expr_reals :: "expr \<Rightarrow> f64 list" where
  "expr_reals (Compare c op v) = (case v of LReal x \<Rightarrow> [x] | _ \<Rightarrow> [])"
| "expr_reals (IsNull c negated) = []"
| "expr_reals (ENot e) = expr_reals e"
| "expr_reals (EAnd a b) = expr_reals a @ expr_reals b"
| "expr_reals (EOr a b) = expr_reals a @ expr_reals b"

lemma reread_same: "reread_expr d e = e \<longleftrightarrow> list_all (\<lambda>x. has_point (d_f64 d x)) (expr_reals e)"
proof (induction e)
  case (Compare c op v)
  show ?case by (cases v) (simp_all add: Let_def)
qed simp_all

fun magnitude :: "token \<Rightarrow> f32" where
  "magnitude (TInt n) = f32_of_i64 n"
| "magnitude (TFloat x) = f32_of_f64 x"
| "magnitude _ = 0"

definition reads_component :: "string \<Rightarrow> f32 \<Rightarrow> bool" where
  "reads_component s x \<longleftrightarrow> number_text s \<and>
    magnitude (unsigned_token (if minus_sign s then tl s else s)) = (if minus_sign s then f32_neg x else x)"

fun literal_printed :: "display \<Rightarrow> literal \<Rightarrow> bool" where
  "literal_printed d (LReal x) \<longleftrightarrow> reads_real (d_f64 d x) x"
| "literal_printed d (LVector v) \<longleftrightarrow> list_all (\<lambda>x. reads_component (d_f32 d x) x) v"
| "literal_printed d _ \<longleftrightarrow> True"

fun floats_printed :: "display \<Rightarrow> expr \<Rightarrow> bool" where
  "floats_printed d (Compare c op v) \<longleftrightarrow> literal_printed d v"
| "floats_printed d (IsNull c negated) \<longleftrightarrow> True"
| "floats_printed d (ENot e) \<longleftrightarrow> floats_printed d e"
| "floats_printed d (EAnd a b) \<longleftrightarrow> floats_printed d a \<and> floats_printed d b"
| "floats_printed d (EOr a b) \<longleftrightarrow> floats_printed d a \<and> floats_printed d b"

section \<open>Lexing a printed predicate\<close>

text \<open>What may follow a piece of text without changing its last token.\<close>

definition boundary :: "string \<Rightarrow> bool" where
  "boundary r \<longleftrightarrow> r = [] \<or> \<not> ident_char (hd r) \<and> hd r \<noteq> CHR ''.'' \<and> hd r \<noteq> quote"

lemma tokenize_step:
  "lex_step d (c # s) = Ok (t, r) \<Longrightarrow>
    tokenize d (c # s) = map_res (\<lambda>ts. (case t of None \<Rightarrow> ts | Some x \<Rightarrow> x # ts)) (tokenize d r)"
  by (subst tokenize.simps) simp

lemma map_res_ident [simp]: "map_res (\<lambda>x. x) r = r"
  by (cases r) auto

lemma map_res_map_res [simp]: "map_res f (map_res g r) = map_res (\<lambda>x. f (g x)) r"
  by (cases r) auto

lemma append_fun [simp]: "(@) [] = (\<lambda>ts. ts)" "(@) (t # us) = (\<lambda>ts. t # us @ ts)"
  by auto

lemma lex_punctuation:
  "tokenize d (CHR '' '' # r) = tokenize d r"
  "tokenize d (CHR ''('' # r) = map_res (Cons TLParen) (tokenize d r)"
  "tokenize d (CHR '')'' # r) = map_res (Cons TRParen) (tokenize d r)"
  "tokenize d (CHR ''['' # r) = map_res (Cons TLBracket) (tokenize d r)"
  "tokenize d (CHR '']'' # r) = map_res (Cons TRBracket) (tokenize d r)"
  "tokenize d (CHR '','' # r) = map_res (Cons TComma) (tokenize d r)"
proof -
  have step: "tokenize d (c # r) = map_res (Cons t) (tokenize d r)" if "single c = Some t" "\<not> is_space c" "c \<noteq> CHR ''-''" for c t
    using that tokenize_step [of d c r "Some t" r] unfolding lex_step_def Let_def by (simp del: single.simps)
  show "tokenize d (CHR '' '' # r) = tokenize d r"
    using tokenize_step [of d "CHR '' ''" r None r] unfolding lex_step_def Let_def by (simp add: is_space_def code_def)
  show "tokenize d (CHR ''('' # r) = map_res (Cons TLParen) (tokenize d r)"
    "tokenize d (CHR '')'' # r) = map_res (Cons TRParen) (tokenize d r)"
    "tokenize d (CHR ''['' # r) = map_res (Cons TLBracket) (tokenize d r)"
    "tokenize d (CHR '']'' # r) = map_res (Cons TRBracket) (tokenize d r)"
    "tokenize d (CHR '','' # r) = map_res (Cons TComma) (tokenize d r)"
    by (rule step; simp add: is_space_def code_def)+
qed

lemma boundary_punctuation [simp]:
  "boundary []" "boundary (CHR '' '' # r)" "boundary (CHR '')'' # r)" "boundary (CHR '']'' # r)" "boundary (CHR '','' # r)"
  by (simp_all add: boundary_def ident_char_def ident_start_def is_lower_def is_upper_def is_digit_def code_def quote_def)

lemma ident_start_not_special:
  assumes "ident_start c"
  shows "\<not> is_space c" "single c = None" "\<not> is_digit c" "c \<notin> {CHR ''-'', CHR ''!'', CHR ''<'', CHR ''>'', quote}"
proof -

  have range: "code c = 95 \<or> 65 \<le> code c \<and> code c \<le> 90 \<or> 97 \<le> code c \<and> code c \<le> 122"
    using assms by (auto simp: ident_start_def is_lower_def is_upper_def code_def)
  then show "\<not> is_space c" "\<not> is_digit c" by (auto simp: is_space_def is_digit_def)
  have "code c \<notin> code ` set '',[]()*;-=!<>''" "code c \<noteq> code quote" using range by (auto simp: code_def quote_def)
  then have "c \<notin> set '',[]()*;-=!<>''" "c \<noteq> quote" by (blast, blast)
  then show "single c = None" "c \<notin> {CHR ''-'', CHR ''!'', CHR ''<'', CHR ''>'', quote}" by simp_all
qed

lemma lex_word:
  assumes "w \<noteq> []" "ident_start (hd w)" "list_all ident_char w" "r = [] \<or> \<not> ident_char (hd r)"
  shows "tokenize d (w @ r) = map_res (Cons (TIdent (map to_lower w))) (tokenize d r)"
proof -
  obtain c u where w: "w = c # u" using assms(1) by (cases w) auto
  have "takeWhile ident_char (w @ r) = w" "dropWhile ident_char (w @ r) = r"
    using assms(3,4) by (cases r; auto simp: list_all_iff takeWhile_append2 dropWhile_append2)+
  moreover have "lex_step d (w @ r) = Ok (Some (TIdent (map to_lower (takeWhile ident_char (w @ r)))), dropWhile ident_char (w @ r))"
    using assms(2) ident_start_not_special [of c] unfolding lex_step_def Let_def by (simp add: w del: single.simps)
  ultimately show ?thesis using tokenize_step [of d c "u @ r"] w by simp
qed

lemma lex_identifier: "ident_ok s \<Longrightarrow> boundary r \<Longrightarrow> tokenize d (s @ r) = map_res (Cons (TIdent s)) (tokenize d r)"
proof -
  assume s: "ident_ok s" and r: "boundary r"
  have "map to_lower s = s" using s by (auto simp: ident_ok_def list_all_iff to_lower_def intro: map_idI)
  then show ?thesis using lex_word [of s r d] s r by (auto simp: ident_ok_def list_all_iff boundary_def)
qed

lemma digit_not_special:
  assumes "is_digit c"
  shows "\<not> is_space c" "single c = None" "c \<notin> {CHR ''-'', CHR ''!'', CHR ''<'', CHR ''>'', quote}" "ident_char c"
proof -
  have range: "48 \<le> code c \<and> code c \<le> 57" using assms by (simp add: is_digit_def)
  then show "\<not> is_space c" by (auto simp: is_space_def)
  have "code c \<notin> code ` set '',[]()*;-=!<>''" "code c \<noteq> code quote" using range by (auto simp: code_def quote_def)
  then have "c \<notin> set '',[]()*;-=!<>''" "c \<noteq> quote" by (blast, blast)
  then show "single c = None" "c \<notin> {CHR ''-'', CHR ''!'', CHR ''<'', CHR ''>'', quote}" by simp_all
  show "ident_char c" using assms by (simp add: ident_char_def)
qed

lemma takeWhile_dropWhile_stop:
  assumes "list_all p w" "r = [] \<or> \<not> p (hd r)"
  shows "takeWhile p (w @ r) = w" "dropWhile p (w @ r) = r"
  using assms by (cases r; auto simp: list_all_iff takeWhile_append2 dropWhile_append2)+

lemma boundary_not_digit: "boundary r \<Longrightarrow> r = [] \<or> \<not> is_digit (hd r)"
  by (auto simp: boundary_def digit_not_special)

lemma lex_number_text:
  assumes "unsigned_text s" "boundary r"
  shows "lex_number (s @ r) = Ok (unsigned_token s, r)"
proof -
  define ip where "ip = takeWhile is_digit s"
  define u where "u = dropWhile is_digit s"
  have s: "s = ip @ u" by (simp add: ip_def u_def)
  have ip: "list_all is_digit ip" unfolding ip_def by (auto simp: list_all_iff dest: set_takeWhileD)
  have u: "u = [] \<or> \<not> is_digit (hd u)" unfolding u_def using hd_dropWhile [of is_digit s] by auto
  have bd: "r = [] \<or> \<not> is_digit (hd r)" by (rule boundary_not_digit [OF assms(2)])
  show ?thesis
  proof (cases "u = []")
    case True
    moreover have "\<not> (1 < length r \<and> r ! 0 = CHR ''.'' \<and> is_digit (r ! 1))"
      using assms(2) by (cases r) (auto simp: boundary_def)
    ultimately show ?thesis
      using assms(1) takeWhile_dropWhile_stop [OF ip bd] takeWhile_dropWhile_stop [OF ip, of "[]"]
      unfolding lex_number_def unsigned_text_def unsigned_token_def Let_def
      by (simp add: s del: takeWhile_eq_all_conv dropWhile_eq_Nil_conv)
  next
    case False
    with assms(1) obtain fp where fp: "u = CHR ''.'' # fp" "fp \<noteq> []" "list_all is_digit fp"
      by (cases u) (auto simp: unsigned_text_def Let_def u_def [symmetric])
    have stop: "u @ r = [] \<or> \<not> is_digit (hd (u @ r))" using u False by simp
    have "is_digit (fp ! 0)" using fp by (cases fp) auto
    then have "1 < length (u @ r) \<and> (u @ r) ! 0 = CHR ''.'' \<and> is_digit ((u @ r) ! 1)"
      using fp by (cases fp) auto
    then show ?thesis
      using takeWhile_dropWhile_stop [OF ip stop] takeWhile_dropWhile_stop [OF ip u] takeWhile_dropWhile_stop [OF fp(3) bd] fp
      unfolding lex_number_def unsigned_token_def Let_def by (simp add: s)
  qed
qed

lemma unsigned_text_hd: "unsigned_text s \<Longrightarrow> s \<noteq> [] \<and> is_digit (hd s)"
  by (cases s) (auto simp: unsigned_text_def Let_def split: if_splits)

lemma lex_unsigned:
  assumes "unsigned_text s" "boundary r"
  shows "tokenize d (s @ r) = map_res (Cons (unsigned_token s)) (tokenize d r)"
proof -
  obtain c u where s: "s = c # u" "is_digit c" using unsigned_text_hd [OF assms(1)] by (cases s) auto
  have "lex_step d (s @ r) = Ok (Some (unsigned_token s), r)"
    using digit_not_special [OF s(2)] lex_number_text [OF assms] s unfolding lex_step_def Let_def
    by (simp del: single.simps)
  then show ?thesis using tokenize_step [of d c "u @ r"] s by simp
qed

lemma lex_number_tokens:
  assumes "number_text s" "boundary r"
  shows "tokenize d (s @ r) = map_res (append (number_tokens s)) (tokenize d r)"
proof (cases "minus_sign s")
  case True
  then obtain u where s: "s = CHR ''-'' # u" by (cases s) (auto simp: minus_sign_def)
  with assms True have u: "unsigned_text u" by (simp add: number_text_def)
  obtain c v where c: "u = c # v" "is_digit c" using unsigned_text_hd [OF u] by (cases u) auto
  have "lex_step d (s @ r) = Ok (Some TMinus, u @ r)"
    using c digit_not_special [OF c(2)] unfolding lex_step_def Let_def s by (simp add: is_space_def code_def)
  then show ?thesis using tokenize_step [of d "CHR ''-''" "u @ r"] lex_unsigned [OF u assms(2)] True s
    by (simp add: number_tokens_def)
next
  case False
  with assms lex_unsigned [of s r d] show ?thesis by (simp add: number_text_def number_tokens_def)
qed

lemma show_nat_unsigned:
  assumes "n < 2 ^ 63"
  shows "unsigned_text (show_nat n)" "unsigned_token (show_nat n) = TInt (word_of_nat n)"
proof -
  have "takeWhile is_digit (show_nat n) = show_nat n" "dropWhile is_digit (show_nat n) = []"
    using takeWhile_dropWhile_stop [of is_digit "show_nat n" "[]"] show_nat_digits [of n] by simp_all
  then show "unsigned_text (show_nat n)" "unsigned_token (show_nat n) = TInt (word_of_nat n)"
    using show_nat_digits [of n] assms by (simp_all add: unsigned_text_def unsigned_token_def text_nat_show Let_def del: takeWhile_eq_all_conv dropWhile_eq_Nil_conv)
qed

lemma show_nat_no_sign: "\<not> minus_sign (show_nat n)"
  using show_nat_digits [of n] by (cases "show_nat n") (auto simp: minus_sign_def is_digit_def code_def)

lemma show_int_number:
  assumes "- (2 ^ 63) < sint n"
  shows "number_text (show_int (sint n))"
    and "number_tokens (show_int (sint n)) = (if sint n < 0 then [TMinus, TInt (- n)] else [TInt n])"
proof -
  have lt: "sint n < 2 ^ 63" for n :: i64 using sint_lt [of n] by simp
  have neg: "word_of_nat (nat (- sint n)) = - n" if "sint n < 0" for n :: i64
    using that by (simp add: nat_minus_as_int)
  have pos: "word_of_nat (nat (sint n)) = n" if "0 \<le> sint n" for n :: i64 using that by simp
  have sign: "minus_sign (CHR ''-'' # u)" for u by (simp add: minus_sign_def)
  show "number_text (show_int (sint n))"
    using assms lt [of n] by (auto simp: number_text_def show_int_def show_nat_no_sign sign show_nat_unsigned)
  show "number_tokens (show_int (sint n)) = (if sint n < 0 then [TMinus, TInt (- n)] else [TInt n])"
    using assms lt [of n] neg [of n] pos [of n]
    by (auto simp: number_tokens_def show_int_def show_nat_no_sign sign show_nat_unsigned)
qed

section \<open>String literals\<close>

lemma double_quotes_simps [simp]:
  "double_quotes [] = []"
  "double_quotes (c # s) = (if c = quote then [quote, quote] else [c]) @ double_quotes s"
  by (simp_all add: double_quotes_def quote_def)

lemma lex_string_content:
  assumes "quote \<notin> set u"
  shows "lex_string acc (u @ quote # quote # r) = lex_string (acc @ u @ [quote]) r"
    and "r = [] \<or> hd r \<noteq> quote \<Longrightarrow> lex_string acc (u @ quote # r) = Ok (acc @ u, r)"
proof -
  have tw: "takeWhile (\<lambda>c. c \<noteq> quote) (u @ quote # v) = u" "dropWhile (\<lambda>c. c \<noteq> quote) (u @ quote # v) = quote # v" for v
    using assms by (induction u) auto
  show "lex_string acc (u @ quote # quote # r) = lex_string (acc @ u @ [quote]) r"
    by (subst lex_string.simps) (simp add: tw Let_def)
  show "r = [] \<or> hd r \<noteq> quote \<Longrightarrow> lex_string acc (u @ quote # r) = Ok (acc @ u, r)"
    by (subst lex_string.simps) (auto simp: tw Let_def split: list.splits)
qed

lemma lex_string_doubled:
  assumes "r = [] \<or> hd r \<noteq> quote" "quote \<notin> set u"
  shows "lex_string acc (u @ double_quotes s @ quote # r) = Ok (acc @ u @ s, r)"
  using assms(2)
proof (induction s arbitrary: acc u)
  case Nil
  then show ?case using assms(1) by (simp add: lex_string_content(2))
next
  case (Cons c s)
  show ?case
  proof (cases "c = quote")
    case True
    then show ?thesis
      using Cons.IH [of "[]" "acc @ u @ [quote]"] lex_string_content(1) [OF Cons.prems, of acc "double_quotes s @ quote # r"]
      by simp
  next
    case False
    then show ?thesis using Cons.IH [of "u @ [c]" acc] Cons.prems by simp
  qed
qed

lemma lex_text:
  assumes "boundary r"
  shows "tokenize d (quote # double_quotes s @ quote # r) = map_res (Cons (TStr s)) (tokenize d r)"
proof -
  have "lex_string [] (double_quotes s @ quote # r) = Ok (s, r)"
    using lex_string_doubled [of r "[]" "[]" s] assms by (auto simp: boundary_def)
  then have "lex_step d (quote # double_quotes s @ quote # r) = Ok (Some (TStr s), r)"
    unfolding lex_step_def Let_def by (simp add: is_space_def code_def quote_def)
  then show ?thesis by (simp add: tokenize_step)
qed

section \<open>The tokens of a predicate\<close>

definition component_tokens :: "display \<Rightarrow> f32 \<Rightarrow> token list" where
  "component_tokens d x = number_tokens (d_f32 d x)"

fun components_tokens :: "display \<Rightarrow> f32 list \<Rightarrow> token list" where
  "components_tokens d [] = []"
| "components_tokens d [x] = component_tokens d x"
| "components_tokens d (x # y # v) = component_tokens d x @ TComma # components_tokens d (y # v)"

fun literal_tokens :: "display \<Rightarrow> literal \<Rightarrow> token list" where
  "literal_tokens d LNull = [TIdent ''null'']"
| "literal_tokens d (LInt n) = number_tokens (show_int (sint n))"
| "literal_tokens d (LReal x) = number_tokens (d_f64 d x)"
| "literal_tokens d (LText s) = [TStr s]"
| "literal_tokens d (LVector v) = TLBracket # components_tokens d v @ [TRBracket]"

fun op_token :: "cmp_op \<Rightarrow> token" where
  "op_token Eq = TEq"
| "op_token Ne = TNe"
| "op_token Lt = TLt"
| "op_token Gt = TGt"
| "op_token Le = TLe"
| "op_token Ge = TGe"

fun expr_tokens :: "display \<Rightarrow> expr \<Rightarrow> token list" where
  "expr_tokens d (Compare c op v) = TIdent c # op_token op # literal_tokens d v"
| "expr_tokens d (IsNull c negated) = TIdent c # TIdent ''is'' # (if negated then [TIdent ''not''] else []) @ [TIdent ''null'']"
| "expr_tokens d (ENot e) = TIdent ''not'' # TLParen # expr_tokens d e @ [TRParen]"
| "expr_tokens d (EAnd a b) = TLParen # expr_tokens d a @ TIdent ''and'' # expr_tokens d b @ [TRParen]"
| "expr_tokens d (EOr a b) = TLParen # expr_tokens d a @ TIdent ''or'' # expr_tokens d b @ [TRParen]"

subsection \<open>Lexing the text gives them\<close>

lemma words:
  assumes "boundary r"
  shows "tokenize d (''NULL'' @ r) = map_res (Cons (TIdent ''null'')) (tokenize d r)"
    "tokenize d (''IS'' @ r) = map_res (Cons (TIdent ''is'')) (tokenize d r)"
    "tokenize d (''NOT'' @ r) = map_res (Cons (TIdent ''not'')) (tokenize d r)"
    "tokenize d (''AND'' @ r) = map_res (Cons (TIdent ''and'')) (tokenize d r)"
    "tokenize d (''OR'' @ r) = map_res (Cons (TIdent ''or'')) (tokenize d r)"
    "tokenize d (''WHERE'' @ r) = map_res (Cons (TIdent ''where'')) (tokenize d r)"
    "tokenize d (''DELETE'' @ r) = map_res (Cons (TIdent ''delete'')) (tokenize d r)"
    "tokenize d (''FROM'' @ r) = map_res (Cons (TIdent ''from'')) (tokenize d r)"
proof -
  have w: "tokenize d (w @ r) = map_res (Cons (TIdent w')) (tokenize d r)"
    if "w \<noteq> []" "list_all is_upper w" "map to_lower w = w'" for w w'
    using that assms lex_word [of w r d]
    by (cases w) (auto simp: boundary_def ident_char_def ident_start_def list_all_iff)
  note w [of "''NULL''" "''null''"] w [of "''IS''" "''is''"] w [of "''NOT''" "''not''"] w [of "''AND''" "''and''"]
    w [of "''OR''" "''or''"] w [of "''WHERE''" "''where''"] w [of "''DELETE''" "''delete''"] w [of "''FROM''" "''from''"]
  then show "tokenize d (''NULL'' @ r) = map_res (Cons (TIdent ''null'')) (tokenize d r)"
    "tokenize d (''IS'' @ r) = map_res (Cons (TIdent ''is'')) (tokenize d r)"
    "tokenize d (''NOT'' @ r) = map_res (Cons (TIdent ''not'')) (tokenize d r)"
    "tokenize d (''AND'' @ r) = map_res (Cons (TIdent ''and'')) (tokenize d r)"
    "tokenize d (''OR'' @ r) = map_res (Cons (TIdent ''or'')) (tokenize d r)"
    "tokenize d (''WHERE'' @ r) = map_res (Cons (TIdent ''where'')) (tokenize d r)"
    "tokenize d (''DELETE'' @ r) = map_res (Cons (TIdent ''delete'')) (tokenize d r)"
    "tokenize d (''FROM'' @ r) = map_res (Cons (TIdent ''from'')) (tokenize d r)"
    by (simp_all add: is_upper_def to_lower_def code_def char_of_def bit_0)
qed

lemmas lex_words = words [simplified]

lemma lex_op: "tokenize d (show_cmp_op op @ CHR '' '' # r) = map_res (Cons (op_token op)) (tokenize d r)"
proof -
  have "lex_step d (show_cmp_op op @ CHR '' '' # r) = Ok (Some (op_token op), CHR '' '' # r)"
    unfolding lex_step_def Let_def by (cases op) (simp_all add: is_space_def code_def)
  then show ?thesis
    using tokenize_step [of d "hd (show_cmp_op op)" "tl (show_cmp_op op) @ CHR '' '' # r"]
    by (cases op) (simp_all add: lex_punctuation)
qed

lemma lex_components:
  assumes "v \<noteq> []" "list_all (\<lambda>x. reads_component (d_f32 d x) x) v"
  shows "tokenize d (intersperse '', '' (map (d_f32 d) v) @ CHR '']'' # r) =
    map_res (append (components_tokens d v)) (tokenize d (CHR '']'' # r))"
  using assms
proof (induction d v rule: components_tokens.induct)
  case (2 d x)
  then show ?case by (simp add: component_tokens_def reads_component_def lex_number_tokens)
next
  case (3 d x y v)
  then show ?case
    by (simp add: component_tokens_def reads_component_def lex_number_tokens lex_punctuation)
qed simp

lemma lex_literal:
  assumes "literal_ok v" "literal_printed d v" "boundary r"
  shows "tokenize d (show_literal (d_f64 d) (d_f32 d) v @ r) = map_res (append (literal_tokens d v)) (tokenize d r)"
proof (cases v)
  case LNull
  with assms(3) show ?thesis by (simp add: lex_words)
next
  case (LInt n)
  with assms show ?thesis by (simp add: lex_number_tokens show_int_number)
next
  case (LReal x)
  with assms show ?thesis by (simp add: lex_number_tokens reads_real_def)
next
  case (LText s)
  with assms lex_text [of r d s] show ?thesis by (simp add: quote_def)
next
  case (LVector w)
  with assms lex_components [of w d r] show ?thesis by (simp add: lex_punctuation)
qed

lemma lex_expr:
  assumes "expr_ok e" "floats_printed d e" "boundary r"
  shows "tokenize d (show_expr (d_f64 d) (d_f32 d) e @ r) = map_res (append (expr_tokens d e)) (tokenize d r)"
  using assms
proof (induction e arbitrary: r)
  case (Compare c op v)
  then show ?case by (simp add: lex_identifier lex_punctuation lex_op lex_literal)
next
  case (IsNull c negated)
  then show ?case by (simp add: lex_identifier lex_punctuation lex_words)
next
  case (ENot e)
  then show ?case by (simp add: lex_punctuation lex_words)
next
  case (EAnd a b)
  then show ?case by (simp add: lex_punctuation lex_words)
next
  case (EOr a b)
  then show ?case by (simp add: lex_punctuation lex_words)
qed

subsection \<open>Parsing them gives the predicate\<close>

lemma op_token_op [simp]: "op_of_token (op_token op) = Some op"
  by (cases op) simp_all

lemma f32_neg_neg [simp]: "f32_neg (f32_neg x) = x"
  by (simp add: f32_neg_def xor.assoc)

lemma f64_neg_neg [simp]: "f64_neg (f64_neg x) = x"
  by (simp add: f64_neg_def xor.assoc)

lemma unsigned_token_cases: "(\<exists>n. unsigned_token s = TInt n) \<or> (\<exists>x. unsigned_token s = TFloat x)"
  by (simp add: unsigned_token_def Let_def)

lemma parse_component:
  assumes "reads_component (d_f32 d x) x"
  shows "vector_component d (component_tokens d x @ r) = Ok (x, r)"
proof -
  have val: "component_value d (unsigned_token s) = Ok (magnitude (unsigned_token s))" "unsigned_token s \<noteq> TMinus" for s
    using unsigned_token_cases [of s] by auto
  show ?thesis
    using assms by (auto simp: vector_component_def component_tokens_def number_tokens_def reads_component_def val)
qed

lemma parse_components:
  assumes "v \<noteq> []" "list_all (\<lambda>x. reads_component (d_f32 d x) x) v"
  shows "comma_list (vector_component d) (components_tokens d v @ TRBracket # r) = Ok (v, TRBracket # r)"
  using assms
proof (induction d v rule: components_tokens.induct)
  case (2 d x)
  then show ?case by (subst comma_list_unfold) (auto simp: parse_component dest: component_spec)
next
  case (3 d x y v)
  then show ?case by (subst comma_list_unfold) (auto simp: parse_component dest: component_spec)
qed simp

lemma parse_printed_literal:
  assumes "literal_ok v" "literal_printed d v"
  shows "parse_literal d (literal_tokens d v @ r) = Ok (reread_literal d v, r)"
proof (cases v)
  case (LVector w)
  with assms parse_components [of w d r] show ?thesis by (simp add: parse_literal_def vector_rest_def)
next
  case (LReal x)
  define u where "u = digits_of (d_f64 d x)"
  have "takeWhile is_digit u = u" if "dropWhile is_digit u = []"
    using that takeWhile_dropWhile_id [of is_digit u] by simp
  then have tok: "unsigned_token u = (if has_point (d_f64 d x)
      then TFloat (if minus_sign (d_f64 d x) then f64_neg x else x) else TInt (word_of_nat (text_nat u)))"
    using assms(2) by (simp add: LReal reads_real_def unsigned_token_def has_point_def u_def Let_def
      del: takeWhile_eq_all_conv dropWhile_eq_Nil_conv)
  have "number_tokens (d_f64 d x) = (if minus_sign (d_f64 d x) then [TMinus, unsigned_token u] else [unsigned_token u])"
    by (simp add: number_tokens_def u_def digits_of_def)
  then show ?thesis
    by (simp add: LReal tok parse_literal_def negative_rest_def Let_def u_def [symmetric])
qed (use assms in \<open>auto simp: parse_literal_def show_int_number negative_rest_def\<close>)

lemma not_unfold_where:
  "c \<noteq> ''not'' \<Longrightarrow> bool_not d (where_syntax d) (TIdent c # ts) = bool_primary d (where_syntax d) (TIdent c # ts)"
  by (rule where_grammar.not_unfold(2)) simp

lemma parse_expr_tokens:
  assumes "expr_ok e" "floats_printed d e"
  shows "bool_not d (where_syntax d) (expr_tokens d e @ r) = Ok (reread_expr d e, r)"
  using assms
proof (induction e arbitrary: r)
  case (Compare c op v)
  then have "where_compare d (expr_tokens d (Compare c op v) @ r) = Ok (reread_expr d (Compare c op v), r)"
    by (cases op) (simp_all add: where_compare_def comparison_def parse_printed_literal)
  with Compare.prems show ?case
    by (simp add: not_unfold_where bool_primary.simps) (simp add: where_syntax_def)
next
  case (IsNull c negated)
  then have "where_compare d (expr_tokens d (IsNull c negated) @ r) = Ok (IsNull c negated, r)"
    by (simp add: where_compare_def)
  with IsNull.prems show ?case
    by (cases negated) (simp_all add: not_unfold_where bool_primary.simps, simp_all add: where_syntax_def)
next
  case (ENot e)
  then have "bool_or d (where_syntax d) (expr_tokens d e @ TRParen # r) = Ok (reread_expr d e, TRParen # r)"
    by (intro where_grammar.operand_alone) auto
  from where_grammar.group [OF this] show ?case
    by (simp add: where_grammar.not_unfold(1)) (simp add: where_syntax_def)
next
  case (EAnd a b)
  then have "bool_or d (where_syntax d) (expr_tokens d a @ TIdent ''and'' # expr_tokens d b @ TRParen # r)
      = Ok (bs_and (where_syntax d) (reread_expr d a) (reread_expr d b), TRParen # r)"
    by (intro where_grammar.two_operands(1)) auto
  from where_grammar.group [OF this] show ?case by (simp add: where_syntax_def)
next
  case (EOr a b)
  then have "bool_or d (where_syntax d) (expr_tokens d a @ TIdent ''or'' # expr_tokens d b @ TRParen # r)
      = Ok (bs_or (where_syntax d) (reread_expr d a) (reread_expr d b), TRParen # r)"
    by (intro where_grammar.two_operands(2)) auto
  from where_grammar.group [OF this] show ?case by (simp add: where_syntax_def)
qed

section \<open>The round trip\<close>

lemma tokenize_Nil: "tokenize d [] = Ok []"
  by (subst tokenize.simps) simp

lemma statement_list_Nil: "statement_list d [] = Ok []"
  by (subst statement_list.simps) simp

text \<open>
  C26: what the text of a predicate parses back to. For every predicate the parser can return, with
  float literals printed the way the standard library prints them and numerals without a point below
  \<open>2 ^ 63\<close>, the statement \<open>DELETE FROM t WHERE p\<close>, with \<open>p\<close> printed by \<open>Display for Expr\<close>, parses to the
  deletion by the same predicate up to one change: a \<open>REAL\<close> literal that is printed without a point (an
  integral one) comes back as an \<open>INT\<close> literal. Nested connectives, escaped quotes, negative numbers and
  vectors are all unambiguous, and the round trip is exact if and only if every \<open>REAL\<close> literal is printed
  with a point.
\<close>

theorem printed_predicate_parses_back:
  assumes "ident_ok t" "expr_ok e" "floats_printed d e"
  shows "parse_statements d (''DELETE FROM '' @ t @ '' WHERE '' @ show_expr (d_f64 d) (d_f32 d) e)
      = Ok [Delete t (Some (reread_expr d e))]
    \<and> (reread_expr d e = e \<longleftrightarrow> list_all (\<lambda>x. has_point (d_f64 d x)) (expr_reals e))"
proof -
  let ?ts = "TIdent ''delete'' # TIdent ''from'' # TIdent t # TIdent ''where'' # expr_tokens d e"
  let ?e = "reread_expr d e"
  have "tokenize d (''DELETE FROM '' @ t @ '' WHERE '' @ show_expr (d_f64 d) (d_f32 d) e @ []) = Ok ?ts"
    using assms lex_expr [of e d "[]"] by (simp add: lex_words lex_punctuation lex_identifier tokenize_Nil del: append_Nil2)
  then have lex: "tokenize d (''DELETE FROM '' @ t @ '' WHERE '' @ show_expr (d_f64 d) (d_f32 d) e) = Ok ?ts"
    by (simp only: append_Nil2)
  have "bool_or d (where_syntax d) (expr_tokens d e @ []) = Ok (?e, [])"
    by (rule where_grammar.operand_alone [OF parse_expr_tokens [OF assms(2,3)]]) simp_all
  then have "parse_expr d (expr_tokens d e) = Ok (?e, [])" by (simp add: parse_expr_def)
  then have "parse_statement d ?ts = Ok (Delete t (Some ?e), [])"
    by (subst parse_statement.simps) (simp add: simple_statement_def parse_delete_def optional_where_def)
  then have "statement_list d ?ts = Ok [Delete t (Some ?e)]"
    by (subst statement_list.simps) (simp add: consumed_def statement_list_Nil)
  then show ?thesis unfolding parse_statements_def lex by (simp add: reread_same)
qed

definition sample_display :: display where
  "sample_display = \<lparr>d_f64 = (\<lambda>x. ''-0.5''), d_f32 = (\<lambda>x. ''2''), d_char = (\<lambda>s. s)\<rparr>"

text \<open>
  The instance prints \<open>-0.5\<close>, \<open>1.0\<close> (as \<open>1\<close>) and \<open>2.0f32\<close> (as \<open>2\<close>) the way Rust does: \<open>1.0\<close> comes back as
  the integer.
\<close>

definition print_display :: display where
  "print_display = \<lparr>d_f64 = (\<lambda>x. if x = 0xBFE0000000000000 then ''-0.5'' else ''1''),
     d_f32 = (\<lambda>x. ''2''), d_char = (\<lambda>s. s)\<rparr>"

definition sample_predicate :: "literal \<Rightarrow> expr" where
  "sample_predicate v = EAnd (ENot (Compare ''a'' Lt (LInt (- 5))))
     (EOr (Compare ''name'' Eq (LText (''it'' @ [quote] @ ''s'')))
       (EAnd (Compare ''x'' Ge (LReal 0xBFE0000000000000))
         (EAnd (Compare ''y'' Eq v) (Compare ''v'' Ne (LVector [0x40000000])))))"

theorem printed_predicate_parses_back_witness:
  "ident_ok ''t'' \<and> expr_ok (sample_predicate (LReal 0x3FF0000000000000)) \<and>
   parse_statements print_display (''DELETE FROM '' @ ''t'' @ '' WHERE '' @
     show_expr (d_f64 print_display) (d_f32 print_display) (sample_predicate (LReal 0x3FF0000000000000)))
       = Ok [Delete ''t'' (Some (sample_predicate (LInt 1)))]"
proof -
  let ?p = "sample_predicate (LReal 0x3FF0000000000000)"
  have t: "ident_ok ''t''" by (simp add: ident_ok_def ident_start_def ident_char_def is_lower_def is_upper_def code_def)
  have e: "expr_ok ?p"
    by (simp add: sample_predicate_def ident_ok_def ident_start_def ident_char_def is_lower_def is_upper_def code_def)
  have logs: "bitlen 5 = 3" "bitlen 10 = 4" "bitlen 2 = 2" "bitlen (Suc 0) = 1" by (simp_all add: bitlen.simps)
  have half: "f64_of_decimal ''0'' ''5'' = 0x3FE0000000000000"
    by (simp add: f64_of_decimal_def text_nat_def code_def f64_of_ratio_def round_ratio_def log2_ratio_def logs
      shl_def round_div_def f64_bits_def)
  have one: "f64_of_decimal ''1'' [] = 0x3FF0000000000000"
    by (simp add: f64_of_decimal_def text_nat_def code_def f64_of_ratio_def round_ratio_def log2_ratio_def logs
      shl_def round_div_def f64_bits_def)
  note texts = number_text_def number_tokens_def minus_sign_def digits_of_def has_point_def unsigned_text_def
    unsigned_token_def is_digit_def code_def text_nat_def
  have reals: "reads_real ''-0.5'' 0xBFE0000000000000" "reads_real ''1'' 0x3FF0000000000000"
    using half one by (simp_all add: reads_real_def texts f64_neg_def)
  have two: "f32_of_i64 2 = 0x40000000"
    by (simp add: f32_of_i64_def round_ratio_def log2_ratio_def logs shl_def round_div_def f32_bits_def)
  have comp: "reads_component ''2'' 0x40000000" by (simp add: reads_component_def texts two)
  have fp: "floats_printed print_display ?p"
    using reals comp by (simp add: sample_predicate_def print_display_def)
  have "reread_expr print_display ?p = sample_predicate (LInt 1)"
    by (simp add: sample_predicate_def print_display_def texts)
  with printed_predicate_parses_back [OF t e fp] t e show ?thesis by (simp only:)
qed

end
