(* ===== verification/Migrate.thy ===== *)
theory Migrate
  imports Parser_Print "HOL-Library.Monad_Syntax"
begin

text \<open>
  The dump importer, \<open>crates/ciphra-migrate/src/lib.rs\<close>: a MySQL dump becomes Ciphra statements as text.
  Strings are their UTF-8 bytes. The loops over characters compare with ASCII characters only, which occur
  in UTF-8 nowhere inside another character, so that they run on bytes here; white space and slicing are
  those of characters. Notes are values with the arguments of their message instead of formatted text.
  \<open>None\<close> is a panic: a slice out of range or off a character boundary. The counters of nesting depth are
  integers, of 32 bits in the code.
\<close>

section \<open>Text\<close>

definition bquote :: char where "bquote = CHR 0x60"
definition dquote :: char where "dquote = CHR 0x22"
definition backslash :: char where "backslash = CHR 0x5C"
definition newline :: char where "newline = CHR 0x0A"

definition quotes :: "char set" where "quotes = {quote, dquote, bquote}"

definition starts_with :: "string \<Rightarrow> string \<Rightarrow> bool" where
  "starts_with s p \<longleftrightarrow> take (length p) s = p"

fun contains :: "string \<Rightarrow> string \<Rightarrow> bool" where
  "contains [] p \<longleftrightarrow> p = []"
| "contains (c # s) p \<longleftrightarrow> starts_with (c # s) p \<or> contains s p"

definition to_ascii_lowercase :: "string \<Rightarrow> string" where "to_ascii_lowercase s = map to_lower s"

fun join :: "string \<Rightarrow> string list \<Rightarrow> string" where
  "join sep [] = []"
| "join sep [x] = x"
| "join sep (x # y # xs) = x @ sep @ join sep (y # xs)"

text \<open>The characters of a string, and \<open>char::is_whitespace\<close> on them.\<close>

lemma first_char_nonempty: "0 < length (first_char (c # s))"
  by (simp add: first_char_def Let_def)

function utf8_chars :: "string \<Rightarrow> string list" where
  "utf8_chars [] = []"
| "utf8_chars (c # s) = first_char (c # s) # utf8_chars (drop (length (first_char (c # s))) (c # s))"
  by pat_completeness auto

termination
proof (relation "measure length", simp)
  fix c s
  show "(drop (length (first_char (c # s))) (c # s), c # s) \<in> measure length"
    using first_char_nonempty [of c s] by (cases "length (first_char (c # s))") auto
qed

definition is_whitespace :: "string \<Rightarrow> bool" where
  "is_whitespace c \<longleftrightarrow> map code c \<in>
    {[9], [10], [11], [12], [13], [32], [0xC2, 0x85], [0xC2, 0xA0], [0xE1, 0x9A, 0x80], [0xE2, 0x80, 0x80], [0xE2, 0x80, 0x81],
     [0xE2, 0x80, 0x82], [0xE2, 0x80, 0x83], [0xE2, 0x80, 0x84], [0xE2, 0x80, 0x85], [0xE2, 0x80, 0x86], [0xE2, 0x80, 0x87],
     [0xE2, 0x80, 0x88], [0xE2, 0x80, 0x89], [0xE2, 0x80, 0x8A], [0xE2, 0x80, 0xA8], [0xE2, 0x80, 0xA9], [0xE2, 0x80, 0xAF],
     [0xE2, 0x81, 0x9F], [0xE3, 0x80, 0x80]}"

definition trim_start :: "string \<Rightarrow> string" where
  "trim_start s = concat (dropWhile is_whitespace (utf8_chars s))"

definition trim_end :: "string \<Rightarrow> string" where
  "trim_end s = concat (rev (dropWhile is_whitespace (rev (utf8_chars s))))"

definition trim :: "string \<Rightarrow> string" where "trim s = trim_end (trim_start s)"

function words_of :: "string list \<Rightarrow> string list" where
  "words_of cs = (case dropWhile is_whitespace cs of
     [] \<Rightarrow> []
   | c # r \<Rightarrow> concat (c # takeWhile (\<lambda>c. \<not> is_whitespace c) r) # words_of (dropWhile (\<lambda>c. \<not> is_whitespace c) r))"
  by pat_completeness auto

termination
proof (relation "measure length", simp)
  fix cs c and r :: "string list"
  assume "dropWhile is_whitespace cs = c # r"
  then have "length r < length cs" using length_dropWhile_le [of is_whitespace cs] by simp
  then show "(dropWhile (\<lambda>c. \<not> is_whitespace c) r, cs) \<in> measure length"
    using length_dropWhile_le [of "\<lambda>c. \<not> is_whitespace c" r] by simp
qed

declare words_of.simps [simp del]

definition split_whitespace :: "string \<Rightarrow> string list" where
  "split_whitespace s = words_of (utf8_chars s)"

definition leading_words :: "string \<Rightarrow> nat \<Rightarrow> string" where
  "leading_words s n = join '' '' (take n (split_whitespace s))"

text \<open>\<open>b as char\<close>: the character of code \<open>b\<close>, in UTF-8.\<close>

definition as_char :: "char \<Rightarrow> string" where
  "as_char b = (if code b < 128 then [b] else [char_of (0xC0 + code b div 64), char_of (0x80 + code b mod 64)])"

section \<open>Splitting\<close>

text \<open>What follows the closing \<open>*/\<close> of a comment.\<close>

fun skip_comment :: "string \<Rightarrow> string" where
  "skip_comment (a # b # r) = (if a = CHR ''*'' \<and> b = CHR ''/'' then r else skip_comment (b # r))"
| "skip_comment s = []"

lemma skip_comment_shorter: "length (skip_comment s) \<le> length s"
  by (induction s rule: skip_comment.induct) auto

lemma skip_line_shorter: "b \<noteq> newline \<Longrightarrow> length (dropWhile (\<lambda>c. c \<noteq> newline) (b # r)) < Suc (length r)"
  using length_dropWhile_le [of "\<lambda>c. c \<noteq> newline" r] by simp

text \<open>The loop of \<open>split_statements\<close>: \<open>cur\<close>, \<open>quote\<close> and the bytes from \<open>i\<close> on.\<close>

function split_loop :: "string \<Rightarrow> char option \<Rightarrow> string \<Rightarrow> string list" where
  "split_loop cur q [] = (if trim cur = [] then [] else [cur])"
| "split_loop cur (Some q) (b # r) =
    (if b = backslash \<and> q \<noteq> bquote \<and> r \<noteq> [] then split_loop (cur @ as_char b @ as_char (hd r)) (Some q) (tl r)
     else split_loop (cur @ as_char b) (if b = q then None else Some q) r)"
| "split_loop cur None (b # r) =
    (if b \<in> quotes then split_loop (cur @ as_char b) (Some b) r
     else if b = CHR ''-'' \<and> r \<noteq> [] \<and> hd r = CHR ''-'' then split_loop cur None (dropWhile (\<lambda>c. c \<noteq> newline) (b # r))
     else if b = CHR ''#'' then split_loop cur None (dropWhile (\<lambda>c. c \<noteq> newline) (b # r))
     else if b = CHR ''/'' \<and> r \<noteq> [] \<and> hd r = CHR ''*'' then split_loop cur None (skip_comment (tl r))
     else if b = CHR '';'' then cur # split_loop [] None r
     else split_loop (cur @ first_char (b # r)) None (drop (length (first_char (b # r))) (b # r)))"
  by pat_completeness auto

termination
proof (relation "measure (\<lambda>(cur, q, s). length s)")
  fix cur b and r :: string
  show "((cur @ first_char (b # r), None, drop (length (first_char (b # r))) (b # r)), cur, None, b # r) \<in> measure (\<lambda>(cur, q, s). length s)"
    using first_char_nonempty [of b r] by (cases "length (first_char (b # r))") auto
  assume "b = CHR ''/'' \<and> r \<noteq> [] \<and> hd r = CHR ''*''"
  then show "((cur, None, skip_comment (tl r)), cur, None, b # r) \<in> measure (\<lambda>(cur, q, s). length s)"
    using skip_comment_shorter [of "tl r"] by (cases r) auto
qed (use skip_line_shorter in \<open>auto simp: newline_def neq_Nil_conv\<close>)

definition split_statements :: "string \<Rightarrow> string list" where
  "split_statements input = split_loop [] None input"

text \<open>The loop of \<open>top_level_split\<close>; \<open>cur\<close> is the text from \<open>start\<close> to here.\<close>

fun split_top :: "char \<Rightarrow> int \<Rightarrow> char option \<Rightarrow> string \<Rightarrow> string \<Rightarrow> string list" where
  "split_top sep depth q cur [] = [cur]"
| "split_top sep depth (Some q) cur (c # r) =
    (if c = backslash \<and> q \<noteq> bquote then
       (case r of [] \<Rightarrow> [cur @ [c]] | e # r' \<Rightarrow> split_top sep depth (Some q) (cur @ [c, e]) r')
     else split_top sep depth (if c = q then None else Some q) (cur @ [c]) r)"
| "split_top sep depth None cur (c # r) =
    (if c \<in> quotes then split_top sep depth (Some c) (cur @ [c]) r
     else if c = CHR ''('' \<or> c = CHR ''['' then split_top sep (depth + 1) None (cur @ [c]) r
     else if c = CHR '')'' \<or> c = CHR '']'' then split_top sep (depth - 1) None (cur @ [c]) r
     else if c = sep \<and> depth = 0 then cur # split_top sep depth None [] r
     else split_top sep depth None (cur @ [c]) r)"

definition top_level_split :: "string \<Rightarrow> char \<Rightarrow> string list" where
  "top_level_split s sep = split_top sep 0 None [] s"

fun find_loop :: "char \<Rightarrow> char option \<Rightarrow> nat \<Rightarrow> string \<Rightarrow> nat option" where
  "find_loop target q i [] = None"
| "find_loop target (Some q) i (c # r) =
    (if c = backslash \<and> q \<noteq> bquote then (case r of [] \<Rightarrow> None | e # r' \<Rightarrow> find_loop target (Some q) (i + 2) r')
     else find_loop target (if c = q then None else Some q) (i + 1) r)"
| "find_loop target None i (c # r) =
    (if c \<in> quotes then find_loop target (Some c) (i + 1) r
     else if c = target then Some i
     else find_loop target None (i + 1) r)"

definition find_top_level :: "string \<Rightarrow> char \<Rightarrow> nat option" where
  "find_top_level s target = find_loop target None 0 s"

fun paren_loop :: "int \<Rightarrow> char option \<Rightarrow> nat \<Rightarrow> string \<Rightarrow> nat option" where
  "paren_loop depth q i [] = None"
| "paren_loop depth (Some q) i (c # r) =
    (if c = backslash \<and> q \<noteq> bquote then (case r of [] \<Rightarrow> None | e # r' \<Rightarrow> paren_loop depth (Some q) (i + 2) r')
     else paren_loop depth (if c = q then None else Some q) (i + 1) r)"
| "paren_loop depth None i (c # r) =
    (if c \<in> quotes then paren_loop depth (Some c) (i + 1) r
     else if c = CHR ''('' then paren_loop (depth + 1) None (i + 1) r
     else if c = CHR '')'' then (if depth - 1 = 0 then Some i else paren_loop (depth - 1) None (i + 1) r)
     else paren_loop depth None (i + 1) r)"

definition matching_paren :: "string \<Rightarrow> nat \<Rightarrow> nat option" where
  "matching_paren s open = paren_loop 0 None open (drop open s)"

definition is_word_byte :: "char \<Rightarrow> bool" where "is_word_byte c \<longleftrightarrow> ident_char c"

definition char_boundary :: "char \<Rightarrow> bool" where "char_boundary b \<longleftrightarrow> \<not> (128 \<le> code b \<and> code b < 192)"

text \<open>
  The loop of \<open>find_keyword\<close>, with the byte before \<open>i\<close> in \<open>prev\<close>. Outside of parentheses it slices the text at
  every byte, which panics inside a character.
\<close>

function keyword_loop :: "string \<Rightarrow> int \<Rightarrow> char option \<Rightarrow> char option \<Rightarrow> nat \<Rightarrow> string \<Rightarrow> nat option option" where
  "keyword_loop kw depth q prev i [] = Some None"
| "keyword_loop kw depth (Some q) prev i (b # r) =
    (if b = backslash \<and> q \<noteq> bquote then keyword_loop kw depth (Some q) None (i + 2) (tl r)
     else keyword_loop kw depth (if b = q then None else Some q) (Some b) (i + 1) r)"
| "keyword_loop kw depth None prev i (b # r) =
    (if b \<in> quotes then keyword_loop kw depth (Some b) (Some b) (i + 1) r
     else if b = CHR ''('' \<or> b = CHR ''['' then keyword_loop kw (depth + 1) None (Some b) (i + 1) r
     else if b = CHR '')'' \<or> b = CHR '']'' then keyword_loop kw (depth - 1) None (Some b) (i + 1) r
     else if depth = 0 \<and> \<not> char_boundary b then None
     else if depth = 0 \<and> starts_with (b # r) kw
         \<and> (case prev of None \<Rightarrow> True | Some c \<Rightarrow> \<not> is_word_byte c)
         \<and> (case drop (length kw) (b # r) of [] \<Rightarrow> True | c # _ \<Rightarrow> \<not> is_word_byte c)
       then Some (Some i)
     else keyword_loop kw depth None (Some b) (i + 1) r)"
  by pat_completeness auto

termination by (relation "measure (\<lambda>(kw, depth, q, prev, i, s). length s)") auto

definition find_keyword :: "string \<Rightarrow> string \<Rightarrow> nat option option" where
  "find_keyword s kw = keyword_loop (to_ascii_lowercase kw) 0 None None 0 (to_ascii_lowercase s)"

section \<open>Identifiers and tokens\<close>

definition is_safe_ident :: "string \<Rightarrow> bool" where
  "is_safe_ident s \<longleftrightarrow> (case s of [] \<Rightarrow> False | c # r \<Rightarrow> ident_start c \<and> list_all ident_char r)"

definition unquote_ident :: "string \<Rightarrow> string" where
  "unquote_ident s =
    (let t0 = trim s;
         t = (if CHR ''('' \<in> set t0 then trim (takeWhile (\<lambda>c. c \<noteq> CHR ''('') t0) else t0)
     in if 2 \<le> length t \<and> hd t \<in> quotes \<and> last t = hd t then butlast (tl t) else t)"

definition paren_columns :: "string \<Rightarrow> string list" where
  "paren_columns s =
    (case find_top_level s (CHR ''('') of
       None \<Rightarrow> []
     | Some open \<Rightarrow>
         (case matching_paren s open of
            None \<Rightarrow> []
          | Some close \<Rightarrow> filter (\<lambda>c. c \<noteq> []) (map unquote_ident (top_level_split (drop (open + 1) (take close s)) (CHR '','')))))"

definition split_first_token :: "string \<Rightarrow> (string \<times> string) option" where
  "split_first_token s0 =
    (let s = trim_start s0 in
     if s = [] then None
     else if (hd s = bquote \<or> hd s = dquote) \<and> hd s \<in> set (tl s) then
       let n = 2 + length (takeWhile (\<lambda>c. c \<noteq> hd s) (tl s)) in Some (take n s, drop n s)
     else let n = length (concat (takeWhile (\<lambda>c. \<not> is_whitespace c) (utf8_chars s))) in Some (take n s, drop n s))"

definition starts_with_any :: "string \<Rightarrow> string list \<Rightarrow> bool" where
  "starts_with_any s ps \<longleftrightarrow> list_ex (starts_with s) ps"

section \<open>The result\<close>

datatype import_note =
    Skipped_statement string | No_column_list | Unbalanced_create | Unsafe_table string | Foreign_key_skipped
  | Multi_column_index | Unsupported_constraint | Unsafe_column string string | Decimal_as_real
  | Binary_as_text string | Unknown_type string | No_columns string | Composite_key string
  | Insert_without_into | Insert_without_table | Insert_unsafe_table string | Insert_without_values string
  | Insert_unsafe_column string string | Value_as_text string

record migration =
  mg_statements :: "string list"
  mg_notes :: "import_note list"

definition add_note :: "import_note \<Rightarrow> migration \<Rightarrow> migration" where
  "add_note n m = (if n \<in> set (mg_notes m) then m else m\<lparr>mg_notes := mg_notes m @ [n]\<rparr>)"

definition add_statement :: "string \<Rightarrow> migration \<Rightarrow> migration" where
  "add_statement s m = m\<lparr>mg_statements := mg_statements m @ [s]\<rparr>"

section \<open>CREATE TABLE\<close>

definition map_type :: "string \<Rightarrow> string \<times> import_note option" where
  "map_type spec =
    (let word = to_ascii_lowercase (concat (takeWhile (\<lambda>c. \<not> is_whitespace c \<and> c \<noteq> ''('') (utf8_chars (trim_start spec)))) in
     if word \<in> {''tinyint'', ''smallint'', ''mediumint'', ''int'', ''integer'', ''bigint'', ''bool'', ''boolean''} then (''INT'', None)
     else if word \<in> {''float'', ''double'', ''real''} then (''REAL'', None)
     else if word \<in> {''decimal'', ''numeric'', ''dec'', ''fixed''} then (''REAL'', Some Decimal_as_real)
     else if word \<in> {''char'', ''varchar'', ''tinytext'', ''text'', ''mediumtext'', ''longtext'', ''enum'', ''set'',
         ''date'', ''datetime'', ''timestamp'', ''time'', ''year'', ''json''} then (''TEXT'', None)
     else if word \<in> {''binary'', ''varbinary'', ''bit'', ''blob'', ''tinyblob'', ''mediumblob'', ''longblob''}
       then (''TEXT'', Some (Binary_as_text word))
     else (''TEXT'', Some (Unknown_type word)))"

text \<open>What the loop over the parts of a column list has gathered.\<close>

record gathered =
  g_out :: migration
  g_columns :: "(string \<times> string) list"
  g_inline_pk :: "string option"
  g_declared_pk :: "string list"
  g_indexes :: "string list"

text \<open>One part of the column list; \<open>Inl\<close> is the early return.\<close>

definition constraint_words :: "string list" where
  "constraint_words = [''KEY '', ''KEY('', ''UNIQUE'', ''INDEX'', ''FULLTEXT'', ''SPATIAL'', ''CONSTRAINT'', ''FOREIGN'', ''CHECK'']"

definition gather_constraint :: "string \<Rightarrow> string \<Rightarrow> gathered \<Rightarrow> gathered" where
  "gather_constraint part up g =
    (let cols = paren_columns part in
     if (starts_with up ''KEY'' \<or> starts_with up ''UNIQUE'' \<or> starts_with up ''INDEX'') \<and> length cols = 1
       then g\<lparr>g_indexes := g_indexes g @ [hd cols]\<rparr>
     else if starts_with up ''FOREIGN'' then g\<lparr>g_out := add_note Foreign_key_skipped (g_out g)\<rparr>
     else if 1 < length cols then g\<lparr>g_out := add_note Multi_column_index (g_out g)\<rparr>
     else g\<lparr>g_out := add_note Unsupported_constraint (g_out g)\<rparr>)"

definition gather_column :: "string \<Rightarrow> string \<Rightarrow> gathered \<Rightarrow> migration + gathered" where
  "gather_column table part g =
    (case split_first_token part of
       None \<Rightarrow> Inr g
     | Some (tok, rest) \<Rightarrow>
         let col = unquote_ident tok in
         if \<not> is_safe_ident col then Inl (add_note (Unsafe_column table col) (g_out g))
         else let (ty, n) = map_type rest;
                  out = (case n of None \<Rightarrow> g_out g | Some x \<Rightarrow> add_note x (g_out g));
                  pk = (if contains (upper rest) ''PRIMARY KEY'' then Some col else g_inline_pk g)
              in Inr (g\<lparr>g_out := out, g_inline_pk := pk, g_columns := g_columns g @ [(col, ty)]\<rparr>))"

definition gather_part :: "string \<Rightarrow> string \<Rightarrow> gathered \<Rightarrow> migration + gathered" where
  "gather_part table part0 g =
    (let part = trim part0; up = upper part in
     if part = [] then Inr g
     else if starts_with up ''PRIMARY KEY'' then Inr (g\<lparr>g_declared_pk := paren_columns part\<rparr>)
     else if starts_with_any up constraint_words then Inr (gather_constraint part up g)
     else gather_column table part g)"

fun gather :: "string \<Rightarrow> string list \<Rightarrow> gathered \<Rightarrow> migration + gathered" where
  "gather table [] g = Inr g"
| "gather table (p # ps) g = (case gather_part table p g of Inl out \<Rightarrow> Inl out | Inr g' \<Rightarrow> gather table ps g')"

definition column_sql :: "string option \<Rightarrow> string \<times> string \<Rightarrow> string" where
  "column_sql pk = (\<lambda>(name, ty). if Some name = pk then name @ '' '' @ ty @ '' PRIMARY KEY'' else name @ '' '' @ ty)"

definition create_sql :: "string \<Rightarrow> string option \<Rightarrow> (string \<times> string) list \<Rightarrow> string" where
  "create_sql name pk columns = ''CREATE TABLE '' @ name @ '' ('' @ join '', '' (map (column_sql pk) columns) @ '')''"

definition index_sql :: "string \<Rightarrow> string \<Rightarrow> string" where
  "index_sql name col = ''CREATE INDEX ON '' @ name @ '' ('' @ col @ '')''"

text \<open>The loop over the secondary indexes; \<open>seen\<close> is the hash set.\<close>

fun index_statements :: "string \<Rightarrow> string option \<Rightarrow> (string \<times> string) list \<Rightarrow> string set \<Rightarrow> string list \<Rightarrow> string list" where
  "index_statements name pk columns seen [] = []"
| "index_statements name pk columns seen (col # cols) =
    (if Some col = pk \<or> col \<in> seen then index_statements name pk columns seen cols
     else (if col \<in> fst ` set columns then [index_sql name col] else []) @ index_statements name pk columns (insert col seen) cols)"

definition resolve_pk :: "string \<Rightarrow> gathered \<Rightarrow> string option \<times> migration" where
  "resolve_pk table g =
    (case g_inline_pk g of
       Some c \<Rightarrow> (Some c, g_out g)
     | None \<Rightarrow>
         (case g_declared_pk g of
            [] \<Rightarrow> (None, g_out g)
          | [c] \<Rightarrow> (Some c, g_out g)
          | _ \<Rightarrow> (None, add_note (Composite_key table) (g_out g))))"

definition translate_create_table :: "string \<Rightarrow> migration \<Rightarrow> migration" where
  "translate_create_table stmt out =
    (case find_top_level stmt (CHR ''('') of
       None \<Rightarrow> add_note No_column_list out
     | Some open \<Rightarrow>
         (case matching_paren stmt open of
            None \<Rightarrow> add_note Unbalanced_create out
          | Some close \<Rightarrow>
              let words = split_whitespace (take open stmt);
                  body = drop (open + 1) (take close stmt);
                  name = (if words = [] then [] else unquote_ident (last words))
              in if \<not> is_safe_ident name then add_note (Unsafe_table name) out
                 else (case gather name (top_level_split body (CHR '',''))
                     \<lparr>g_out = out, g_columns = [], g_inline_pk = None, g_declared_pk = [], g_indexes = []\<rparr> of
                   Inl out' \<Rightarrow> out'
                 | Inr g \<Rightarrow>
                     if g_columns g = [] then add_note (No_columns name) (g_out g)
                     else let (pk, out1) = resolve_pk name g in
                       fold add_statement (create_sql name pk (g_columns g) # index_statements name pk (g_columns g) {} (g_indexes g)) out1)))"

section \<open>INSERT\<close>

text \<open>
  Decoding of a quoted string: the content between the first and the last byte, taken as a slice, then the
  escapes. A doubled quote is one quote, and so is a single one.
\<close>

definition unescape :: "char \<Rightarrow> string" where
  "unescape c =
    (if c = CHR ''n'' then [CHR 0x0A] else if c = CHR ''t'' then [CHR 0x09] else if c = CHR ''r'' then [CHR 0x0D]
     else if c = CHR ''0'' then [CHR 0x00] else if c = CHR ''b'' then [CHR 0x08] else if c = CHR ''Z'' then [CHR 0x1A]
     else if c = CHR ''%'' \<or> c = CHR ''_'' then [backslash, c]
     else [c])"

fun decode_chars :: "char \<Rightarrow> string \<Rightarrow> string" where
  "decode_chars q [] = []"
| "decode_chars q (c # r) =
    (if c = backslash then (case r of [] \<Rightarrow> [] | e # r' \<Rightarrow> unescape e @ decode_chars q r')
     else if c = q then (case r of e # r' \<Rightarrow> if e = q then q # decode_chars q r' else q # decode_chars q r | [] \<Rightarrow> [q])
     else c # decode_chars q r)"

definition decode_mysql_string :: "string \<Rightarrow> string option" where
  "decode_mysql_string tok =
    (if length tok < 2 \<or> \<not> char_boundary (last tok) then None
     else Some (decode_chars (hd tok) (butlast (tl tok))))"

definition ciphra_string :: "string \<Rightarrow> string" where
  "ciphra_string s = [quote] @ double_quotes s @ [quote]"

text \<open>\<open>str::parse::<i64>\<close> and \<open>str::parse::<f64>\<close> (without the words for infinities and NaN, which have letters).\<close>

definition parse_i64 :: "string \<Rightarrow> int option" where
  "parse_i64 s =
    (let ds = (case s of c # r \<Rightarrow> if c = CHR ''-'' \<or> c = CHR ''+'' then r else s | [] \<Rightarrow> []);
         n = (if s \<noteq> [] \<and> hd s = CHR ''-'' then - int (text_nat ds) else int (text_nat ds))
     in if ds \<noteq> [] \<and> list_all is_digit ds \<and> - (2 ^ 63) \<le> n \<and> n < 2 ^ 63 then Some n else None)"

definition parse_exponent :: "string \<Rightarrow> int option" where
  "parse_exponent s =
    (case s of
       [] \<Rightarrow> Some 0
     | c # r \<Rightarrow>
         if c = CHR ''e'' \<or> c = CHR ''E'' then
           (let ds = (case r of x # r' \<Rightarrow> if x = CHR ''-'' \<or> x = CHR ''+'' then r' else r | [] \<Rightarrow> []) in
            if ds \<noteq> [] \<and> list_all is_digit ds then Some (if hd r = CHR ''-'' then - int (text_nat ds) else int (text_nat ds)) else None)
         else None)"

definition parse_f64 :: "string \<Rightarrow> f64 option" where
  "parse_f64 s =
    (let neg = (s \<noteq> [] \<and> hd s = CHR ''-'');
         u = (case s of c # r \<Rightarrow> if c = CHR ''-'' \<or> c = CHR ''+'' then r else s | [] \<Rightarrow> []);
         ip = takeWhile is_digit u; r0 = dropWhile is_digit u;
         (fp, r) = (if r0 \<noteq> [] \<and> hd r0 = CHR ''.'' then (takeWhile is_digit (tl r0), dropWhile is_digit (tl r0)) else ([], r0))
     in if ip @ fp = [] then None
        else map_option (\<lambda>e. let e' = e - int (length fp); n = text_nat (ip @ fp) in
          if 0 \<le> e' then f64_of_ratio neg (n * 10 ^ nat e') 1 else f64_of_ratio neg n (10 ^ nat (- e'))) (parse_exponent r))"

definition f64_finite :: "f64 \<Rightarrow> bool" where "f64_finite x \<longleftrightarrow> drop_bit 52 x AND 0x7FF \<noteq> 0x7FF"

text \<open>Only letters of ASCII can matter here: a token with other letters is no number.\<close>

definition number_letters :: "string \<Rightarrow> bool" where
  "number_letters tok \<longleftrightarrow> list_all (\<lambda>c. (is_lower c \<or> is_upper c) \<longrightarrow> c = CHR ''e'' \<or> c = CHR ''E'') tok"

definition translate_value :: "display \<Rightarrow> string \<Rightarrow> migration \<Rightarrow> (string \<times> migration) option" where
  "translate_value d tok out =
    (if to_ascii_lowercase tok = ''null'' then Some (''NULL'', out)
     else if tok \<noteq> [] \<and> (hd tok = quote \<or> hd tok = dquote) then
       map_option (\<lambda>s. (ciphra_string s, out)) (decode_mysql_string tok)
     else (case parse_i64 tok of
         Some n \<Rightarrow> Some (show_int n, out)
       | None \<Rightarrow>
           (case (if number_letters tok then parse_f64 tok else None) of
              Some x \<Rightarrow> if f64_finite x then Some (d_f64 d x, out) else Some (ciphra_string tok, add_note (Value_as_text tok) out)
            | None \<Rightarrow> Some (ciphra_string tok, add_note (Value_as_text tok) out))))"

fun translate_values :: "display \<Rightarrow> string list \<Rightarrow> migration \<Rightarrow> (string list \<times> migration) option" where
  "translate_values d [] out = Some ([], out)"
| "translate_values d (v # vs) out = do {
    (x, out1) \<leftarrow> translate_value d (trim v) out;
    (xs, out2) \<leftarrow> translate_values d vs out1;
    Some (x # xs, out2) }"

definition tuple_sql :: "string list \<Rightarrow> string" where
  "tuple_sql vs = ''('' @ join '', '' vs @ '')''"

text \<open>The loop over the groups: those that are not parenthesised are passed over.\<close>

fun translate_groups :: "display \<Rightarrow> string list \<Rightarrow> migration \<Rightarrow> (string list \<times> migration) option" where
  "translate_groups d [] out = Some ([], out)"
| "translate_groups d (g # gs) out =
    (let group = trim g in
     if group = [] \<or> hd group \<noteq> CHR ''('' \<or> last group \<noteq> CHR '')'' then translate_groups d gs out
     else do {
       (vs, out1) \<leftarrow> translate_values d (top_level_split (butlast (tl group)) (CHR '','')) out;
       (ts, out2) \<leftarrow> translate_groups d gs out1;
       Some (tuple_sql vs # ts, out2) })"

definition insert_sql :: "string \<Rightarrow> string \<Rightarrow> string list \<Rightarrow> string" where
  "insert_sql name col_list tuples = ''INSERT INTO '' @ name @ col_list @ '' VALUES '' @ join '', '' tuples"

text \<open>The column list of an \<open>INSERT\<close>, or the first unsafe name in it.\<close>

definition insert_columns :: "string \<Rightarrow> string + string" where
  "insert_columns head =
    (if head \<noteq> [] \<and> hd head = CHR ''('' then
       (let cols = paren_columns head in
        if cols = [] then Inr []
        else (case filter (\<lambda>c. \<not> is_safe_ident c) cols of
            bad # _ \<Rightarrow> Inl bad
          | [] \<Rightarrow> Inr ('' ('' @ join '', '' cols @ '')'')))
     else Inr [])"

definition translate_insert :: "display \<Rightarrow> string \<Rightarrow> migration \<Rightarrow> migration option" where
  "translate_insert d stmt out = do {
    into \<leftarrow> find_keyword stmt ''into'';
    case into of
      None \<Rightarrow> Some (add_note Insert_without_into out)
    | Some pos \<Rightarrow>
        (case split_first_token (trim_start (drop (pos + 4) stmt)) of
           None \<Rightarrow> Some (add_note Insert_without_table out)
         | Some (tok, rest) \<Rightarrow>
             let name = unquote_ident tok in
             if \<not> is_safe_ident name then Some (add_note (Insert_unsafe_table name) out)
             else do {
               values \<leftarrow> find_keyword rest ''values'';
               case values of
                 None \<Rightarrow> Some (add_note (Insert_without_values name) out)
               | Some vpos \<Rightarrow>
                   (case insert_columns (trim (take vpos rest)) of
                      Inl bad \<Rightarrow> Some (add_note (Insert_unsafe_column name bad) out)
                    | Inr col_list \<Rightarrow> do {
                        (tuples, out1) \<leftarrow> translate_groups d (top_level_split (trim (drop (vpos + 6) rest)) (CHR '','')) out;
                        Some (if tuples = [] then out1 else add_statement (insert_sql name col_list tuples) out1) }) }) }"

section \<open>The whole dump\<close>

definition translate_statement :: "display \<Rightarrow> string \<Rightarrow> migration \<Rightarrow> migration option" where
  "translate_statement d raw out =
    (let stmt = trim raw; up = upper (leading_words stmt 2) in
     if stmt = [] then Some out
     else if starts_with up ''CREATE TABLE'' then Some (translate_create_table stmt out)
     else if starts_with up ''INSERT INTO'' \<or> starts_with up ''INSERT IGNORE'' \<or> starts_with up ''REPLACE INTO''
       then translate_insert d stmt out
     else Some (add_note (Skipped_statement (leading_words stmt 2)) out))"

fun translate_all :: "display \<Rightarrow> string list \<Rightarrow> migration \<Rightarrow> migration option" where
  "translate_all d [] out = Some out"
| "translate_all d (raw # raws) out = Option.bind (translate_statement d raw out) (translate_all d raws)"

definition translate :: "display \<Rightarrow> string \<Rightarrow> migration option" where
  "translate d dump = translate_all d (split_statements dump) \<lparr>mg_statements = [], mg_notes = []\<rparr>"

section \<open>Every statement is data\<close>

text \<open>
  The importer writes SQL text that the engine parses and splits again, so a hostile dump must not be able to
  write anything but table definitions, index definitions and rows. The forms of text it emits:
\<close>

definition unsigned_decimal :: "string \<Rightarrow> bool" where
  "unsigned_decimal s \<longleftrightarrow> (let ip = takeWhile is_digit s; r = dropWhile is_digit s in
     ip \<noteq> [] \<and> (r = [] \<or> hd r = CHR ''.'' \<and> tl r \<noteq> [] \<and> list_all is_digit (tl r)))"

definition decimal :: "string \<Rightarrow> bool" where
  "decimal s \<longleftrightarrow> unsigned_decimal (if minus_sign s then tl s else s)"

definition value_text :: "string \<Rightarrow> bool" where
  "value_text v \<longleftrightarrow> v = ''NULL'' \<or> decimal v \<or> (\<exists>s. v = ciphra_string s)"

definition tuple_text :: "string \<Rightarrow> bool" where
  "tuple_text t \<longleftrightarrow> (\<exists>vs. vs \<noteq> [] \<and> list_all value_text vs \<and> t = tuple_sql vs)"

inductive emitted :: "string \<Rightarrow> bool" where
  emit_table: "is_safe_ident name \<Longrightarrow> columns \<noteq> [] \<Longrightarrow>
    list_all (\<lambda>(c, ty). is_safe_ident c \<and> ty \<in> {''INT'', ''REAL'', ''TEXT''}) columns \<Longrightarrow> emitted (create_sql name pk columns)"
| emit_index: "is_safe_ident name \<Longrightarrow> is_safe_ident col \<Longrightarrow> emitted (index_sql name col)"
| emit_rows: "is_safe_ident name \<Longrightarrow> tuples \<noteq> [] \<Longrightarrow> list_all tuple_text tuples \<Longrightarrow>
    cols = [] \<or> (\<exists>cs. cs \<noteq> [] \<and> list_all is_safe_ident cs \<and> cols = '' ('' @ join '', '' cs @ '')'') \<Longrightarrow>
    emitted (insert_sql name cols tuples)"

definition emits :: "migration \<Rightarrow> bool" where "emits m \<longleftrightarrow> list_all emitted (mg_statements m)"

lemma emits_add [simp]: "emits (add_note n m) = emits m" "emits (add_statement s m) \<longleftrightarrow> emits m \<and> emitted s"
  by (auto simp: emits_def add_note_def add_statement_def)

lemma emits_fold: "emits m \<Longrightarrow> list_all emitted ss \<Longrightarrow> emits (fold add_statement ss m)"
  by (induction ss arbitrary: m) auto

subsection \<open>Table definitions\<close>

definition gathers :: "gathered \<Rightarrow> bool" where
  "gathers g \<longleftrightarrow> emits (g_out g) \<and> list_all (\<lambda>(c, ty). is_safe_ident c \<and> ty \<in> {''INT'', ''REAL'', ''TEXT''}) (g_columns g)"

definition gathered_result :: "migration + gathered \<Rightarrow> bool" where
  "gathered_result r = (case r of Inl out \<Rightarrow> emits out | Inr g \<Rightarrow> gathers g)"

lemma map_type_types: "fst (map_type spec) \<in> {''INT'', ''REAL'', ''TEXT''}"
  by (simp add: map_type_def Let_def)

lemma gather_column_ok: "gathers g \<Longrightarrow> gathered_result (gather_column table part g)"
  using map_type_types
  by (auto simp: gather_column_def gathered_result_def gathers_def Let_def prod.case_eq_if split: option.split)

lemma gather_part_ok: "gathers g \<Longrightarrow> gathered_result (gather_part table part g)"
  using gather_column_ok [of g table "trim part"]
  by (simp add: gather_part_def gather_constraint_def Let_def) (simp add: gathered_result_def gathers_def)

lemma gather_ok: "gathers g \<Longrightarrow> gathered_result (gather table parts g)"
proof (induction parts arbitrary: g)
  case (Cons p parts)
  with gather_part_ok [of g table p] show ?case
    by (cases "gather_part table p g") (simp_all add: gathered_result_def)
qed (simp add: gathered_result_def)

lemma index_statements_emitted:
  "is_safe_ident name \<Longrightarrow> list_all (\<lambda>(c, ty). is_safe_ident c \<and> Q ty) columns \<Longrightarrow>
    list_all emitted (index_statements name pk columns seen cols)"
  by (induction name pk columns seen cols rule: index_statements.induct) (auto simp: list_all_iff intro!: emit_index)

lemma translate_create_table_ok:
  assumes "emits out"
  shows "emits (translate_create_table stmt out)"
proof -
  have *: "emits (case gather name parts \<lparr>g_out = out, g_columns = [], g_inline_pk = None, g_declared_pk = [], g_indexes = []\<rparr> of
        Inl out' \<Rightarrow> out'
      | Inr g \<Rightarrow> if g_columns g = [] then add_note (No_columns name) (g_out g)
          else let (pk, out1) = resolve_pk name g in
            fold add_statement (create_sql name pk (g_columns g) # index_statements name pk (g_columns g) {} (g_indexes g)) out1)"
    (is "emits (case ?r of Inl out' \<Rightarrow> out' | Inr g \<Rightarrow> ?done g)")
    if name: "is_safe_ident name" for name parts
  proof -
    have r: "gathered_result ?r" by (rule gather_ok) (simp add: gathers_def assms)
    show ?thesis
    proof (cases ?r)
      case (Inl out')
      with r show ?thesis by (simp add: gathered_result_def)
    next
      case (Inr g)
      with r have g: "gathers g" by (simp add: gathered_result_def)
      have "emits (snd (resolve_pk name g))"
        using g by (auto simp: resolve_pk_def gathers_def split: option.split list.split)
      then have "emits (?done g)"
        using g name emits_fold index_statements_emitted [of name "\<lambda>ty. ty \<in> {''INT'', ''REAL'', ''TEXT''}" "g_columns g"]
          emit_table [of name "g_columns g"]
        by (auto simp: gathers_def prod.case_eq_if simp del: fold_simps intro!: emits_fold)
      with Inr show ?thesis by simp
    qed
  qed
  show ?thesis
    using assms * unfolding translate_create_table_def Let_def
    by (auto split: option.split simp del: fold_simps)
qed

subsection \<open>Rows\<close>

lemma unsigned_decimal_digits: "list_all is_digit s \<Longrightarrow> s \<noteq> [] \<Longrightarrow> unsigned_decimal s"
  using takeWhile_dropWhile_stop [of is_digit s "[]"] by (simp add: unsigned_decimal_def Let_def del: takeWhile_eq_all_conv)

lemma show_int_decimal: "decimal (show_int n)"
  using show_nat_digits unsigned_decimal_digits show_nat_no_sign
  by (auto simp: decimal_def show_int_def minus_sign_def)

lemma if_not_Nil: "a \<noteq> [] \<Longrightarrow> b \<noteq> [] \<Longrightarrow> (if p then a else b) \<noteq> []"
  by simp

lemma list_case_not_Nil:
  "a \<noteq> [] \<Longrightarrow> (\<And>x xs. r = x # xs \<Longrightarrow> f x xs \<noteq> []) \<Longrightarrow> (case r of [] \<Rightarrow> a | x # xs \<Rightarrow> f x xs) \<noteq> []"
  by (cases r) simp_all

lemma split_top_nonempty: "split_top sep depth q cur s \<noteq> []"
proof (induction s arbitrary: depth q cur rule: length_induct)
  case (1 s)
  show ?case
  proof (cases s)
    case (Cons c r)
    with 1 have IH: "length u \<le> length r \<Longrightarrow> split_top sep depth q cur u \<noteq> []" for depth q cur u by simp
    show ?thesis
    proof (cases q)
      case None
      then show ?thesis unfolding Cons None split_top.simps
        by (intro if_not_Nil IH) (simp_all add: IH)
    next
      case (Some a)
      then show ?thesis unfolding Cons Some split_top.simps
        by (intro if_not_Nil list_case_not_Nil IH) simp_all
    qed
  qed simp
qed

text \<open>What the standard library promises of \<open>Display for f64\<close>: digits, with at most a sign and a fraction.\<close>

definition prints_decimal :: "display \<Rightarrow> bool" where
  "prints_decimal d \<longleftrightarrow> (\<forall>x. f64_finite x \<longrightarrow> decimal (d_f64 d x))"

lemma translate_value_ok:
  "translate_value d tok out = Some (v, out') \<Longrightarrow> prints_decimal d \<Longrightarrow> emits out \<Longrightarrow> value_text v \<and> emits out'"
  using show_int_decimal
  by (auto simp: translate_value_def value_text_def prints_decimal_def split: if_splits option.splits)

lemma translate_values_ok:
  "translate_values d toks out = Some (vs, out') \<Longrightarrow> prints_decimal d \<Longrightarrow> emits out \<Longrightarrow>
    list_all value_text vs \<and> length vs = length toks \<and> emits out'"
proof (induction toks arbitrary: vs out)
  case (Cons tok toks)
  then obtain v out1 ws where "translate_value d (trim tok) out = Some (v, out1)"
    "translate_values d toks out1 = Some (ws, out')" "vs = v # ws"
    by (auto simp: bind_eq_Some_conv)
  with translate_value_ok Cons show ?case by fastforce
qed auto

lemma translate_groups_ok:
  "translate_groups d gs out = Some (ts, out') \<Longrightarrow> prints_decimal d \<Longrightarrow> emits out \<Longrightarrow> list_all tuple_text ts \<and> emits out'"
proof (induction gs arbitrary: ts out)
  case (Cons g gs)
  show ?case
  proof (cases "trim g = [] \<or> hd (trim g) \<noteq> CHR ''('' \<or> last (trim g) \<noteq> CHR '')''")
    case True
    with Cons show ?thesis by (simp add: Let_def)
  next
    case False
    with Cons.prems obtain vs out1 us where vs:
      "translate_values d (top_level_split (butlast (tl (trim g))) (CHR '','')) out = Some (vs, out1)"
      "translate_groups d gs out1 = Some (us, out')" "ts = tuple_sql vs # us"
      by (auto simp: bind_eq_Some_conv Let_def)
    from translate_values_ok [OF vs(1)] Cons.prems have ok: "list_all value_text vs" "vs \<noteq> []" "emits out1"
      using split_top_nonempty by (auto simp: top_level_split_def)
    with Cons.IH [OF vs(2) Cons.prems(2)] vs(3) show ?thesis by (auto simp: tuple_text_def)
  qed
qed auto

lemma insert_columns_safe:
  "insert_columns head = Inr cols \<Longrightarrow>
    cols = [] \<or> (\<exists>cs. cs \<noteq> [] \<and> list_all is_safe_ident cs \<and> cols = '' ('' @ join '', '' cs @ '')'')"
  by (auto simp: insert_columns_def Let_def list_all_iff filter_empty_conv split: if_splits list.splits)

lemma translate_insert_ok:
  assumes "translate_insert d stmt out = Some out'" "prints_decimal d" "emits out"
  shows "emits out'"
proof -
  have rows: "emits (if tuples = [] then out1 else add_statement (insert_sql name cols tuples) out1)"
    if "is_safe_ident name" "insert_columns head = Inr cols" "translate_groups d gs out = Some (tuples, out1)"
    for name head cols gs tuples out1
    using emit_rows [OF that(1) _ _ insert_columns_safe [OF that(2)]] translate_groups_ok [OF that(3) assms(2,3)] by simp
  show ?thesis
    using assms unfolding translate_insert_def Let_def
    by (auto simp: rows split: bind_splits option.splits if_splits sum.splits)
qed

lemma translate_statement_ok: "translate_statement d raw out = Some out' \<Longrightarrow> prints_decimal d \<Longrightarrow> emits out \<Longrightarrow> emits out'"
  using translate_insert_ok translate_create_table_ok
  by (auto simp: translate_statement_def Let_def split: if_splits)

lemma translate_all_ok: "translate_all d raws out = Some out' \<Longrightarrow> prints_decimal d \<Longrightarrow> emits out \<Longrightarrow> emits out'"
  by (induction raws arbitrary: out) (auto simp: bind_eq_Some_conv dest: translate_statement_ok)

lemma translate_emitted: "translate d dump = Some m \<Longrightarrow> prints_decimal d \<Longrightarrow> s \<in> set (mg_statements m) \<Longrightarrow> emitted s"
  using translate_all_ok [of d "split_statements dump" "\<lparr>mg_statements = [], mg_notes = []\<rparr>" m]
  by (auto simp: translate_def emits_def list_all_iff)

subsection \<open>What the parser reads in the emitted text\<close>

text \<open>
  A text that a parser reads up to a boundary, whatever follows: its tokens are its own, and the parser consumes
  exactly them and returns a value with \<open>P\<close>. The only other outcome is the tokenizer's refusal of an
  integer of more than 63 bits. Lists of texts separated by commas are read by lists of parsers.
\<close>

definition out_of_range :: "string \<Rightarrow> perr" where
  "out_of_range ds = ParseError (''integer literal out of range: '' @ ds)"

definition closes :: "token list \<Rightarrow> bool" where "closes u \<longleftrightarrow> u = [] \<or> hd u = TRParen"
definition delimits :: "token list \<Rightarrow> bool" where "delimits u \<longleftrightarrow> closes u \<or> hd u = TComma"

definition lexes :: "display \<Rightarrow> string \<Rightarrow> token list \<Rightarrow> bool" where
  "lexes d s ts \<longleftrightarrow> (\<forall>r. boundary r \<longrightarrow> tokenize d (s @ r) = map_res (append ts) (tokenize d r))"

definition refused :: "display \<Rightarrow> string \<Rightarrow> bool" where
  "refused d s \<longleftrightarrow> (\<exists>ds. \<forall>r. boundary r \<longrightarrow> tokenize d (s @ r) = Err (out_of_range ds))"

definition reads :: "display \<Rightarrow> (token list \<Rightarrow> bool) \<Rightarrow> 'a tparser \<Rightarrow> ('a \<Rightarrow> bool) \<Rightarrow> string \<Rightarrow> bool" where
  "reads d stop p P s \<longleftrightarrow> refused d s \<or>
    (\<exists>ts x. ts \<noteq> [] \<and> lexes d s ts \<and> P x \<and> (\<forall>u. stop u \<longrightarrow> p (ts @ u) = Ok (x, u)))"

lemma readsI: "lexes d s ts \<Longrightarrow> ts \<noteq> [] \<Longrightarrow> P x \<Longrightarrow> (\<And>u. stop u \<Longrightarrow> p (ts @ u) = Ok (x, u)) \<Longrightarrow> reads d stop p P s"
  by (auto simp: reads_def)

lemma reads_cases:
  assumes "reads d stop p P s"
  obtains "refused d s" | ts x where "ts \<noteq> []" "lexes d s ts" "P x" "\<And>u. stop u \<Longrightarrow> p (ts @ u) = Ok (x, u)"
  using assms by (auto simp: reads_def)

lemma append_append_fun: "(@) (us @ vs) = (\<lambda>ts. us @ vs @ ts)"
  by auto

lemma closes_no_comma: "closes u \<Longrightarrow> eat TComma u = None"
  by (cases u) (auto simp: closes_def eat_def)

lemma lexes_comma: "lexes d s ts \<Longrightarrow> lexes d s' us \<Longrightarrow> lexes d (s @ '', '' @ s') (ts @ TComma # us)"
  by (simp add: lexes_def lex_punctuation append_append_fun)

lemma boundary_append: "boundary s \<Longrightarrow> s \<noteq> [] \<Longrightarrow> boundary (s @ r)"
  by (simp add: boundary_def)

lemma refused_first: "refused d s \<Longrightarrow> boundary s' \<Longrightarrow> s' \<noteq> [] \<Longrightarrow> refused d (s @ s')"
  unfolding refused_def append_assoc using boundary_append by blast

lemma refused_second: "lexes d s ts \<Longrightarrow> refused d s' \<Longrightarrow> refused d (s @ '', '' @ s')"
  by (auto simp: refused_def lexes_def lex_punctuation)

lemma reads_comma_list:
  assumes "xs \<noteq> []" "list_all (reads d delimits p P) xs" "\<And>ts x r. p ts = Ok (x, r) \<Longrightarrow> length r < length ts"
  shows "reads d closes (comma_list p) (\<lambda>ys. ys \<noteq> [] \<and> list_all P ys) (join '', '' xs)"
  using assms(1,2)
proof (induction "'', ''" xs rule: join.induct)
  case (2 s)
  then have "reads d delimits p P s" by simp
  then show ?case
  proof (cases rule: reads_cases)
    case 1
    then show ?thesis by (simp add: reads_def)
  next
    case (2 ts x)
    then have "comma_list p (ts @ u) = Ok ([x], u)" if "closes u" for u
      using that by (subst comma_list_unfold [OF assms(3)]) (auto simp: delimits_def closes_no_comma)
    with 2 show ?thesis by (simp add: readsI [of d s ts "\<lambda>ys. ys \<noteq> [] \<and> list_all P ys" "[x]" closes])
  qed
next
  case (3 s s' xs)
  then have s: "reads d delimits p P s" and "reads d closes (comma_list p) (\<lambda>ys. ys \<noteq> [] \<and> list_all P ys) (join '', '' (s' # xs))"
    by simp_all
  from this(2) show ?case
  proof (cases rule: reads_cases)
    case 1
    from s this have "refused d (s @ '', '' @ join '', '' (s' # xs))"
      by (cases rule: reads_cases) (simp add: refused_first, rule refused_second)
    then show ?thesis by (simp add: reads_def)
  next
    case (2 us ys)
    from s show ?thesis
    proof (cases rule: reads_cases)
      case 1
      then show ?thesis by (simp add: reads_def refused_first)
    next
      case t: (2 ts x)
      have "comma_list p ((ts @ TComma # us) @ u) = Ok (x # ys, u)" if "closes u" for u
        using t(4) [of "TComma # us @ u"] 2(4) [OF that]
        by (subst comma_list_unfold [OF assms(3)]) (simp_all add: delimits_def eat_def)
      with 2 t lexes_comma [OF t(2) 2(2)] show ?thesis
        by (intro readsI [of d _ "ts @ TComma # us" _ "x # ys"]) auto
    qed
  qed
qed simp

text \<open>Identifiers, values and rows.\<close>

lemma map_lower_ident: "list_all ident_char s \<Longrightarrow> list_all ident_char (map to_lower s) \<and> list_all (\<lambda>c. \<not> is_upper c) (map to_lower s)"
proof (induction s)
  case (Cons c s)
  have "ident_char (to_lower c) \<and> \<not> is_upper (to_lower c)" if "ident_char c"
    using that by (auto simp: to_lower_def ident_char_def ident_start_def is_lower_def is_upper_def is_digit_def code_def)
  with Cons show ?case by simp
qed simp

lemma safe_ident: "is_safe_ident s \<Longrightarrow> s \<noteq> [] \<and> ident_start (hd s) \<and> list_all ident_char s"
  by (auto simp: is_safe_ident_def ident_char_def split: list.splits)

lemma lower_ident_ok:
  assumes "is_safe_ident s"
  shows "ident_ok (map to_lower s)"
proof -
  obtain c r where s: "s = c # r" "ident_start c" "list_all ident_char s" using safe_ident [OF assms] by (cases s) auto
  then have "ident_start (to_lower c)"
    by (auto simp: to_lower_def ident_start_def is_lower_def is_upper_def code_def)
  with s map_lower_ident [of s] show ?thesis by (simp add: ident_ok_def list_all_iff)
qed

lemma lexes_ident: "is_safe_ident s \<Longrightarrow> lexes d s [TIdent (map to_lower s)]"
  unfolding lexes_def append_fun by (intro allI impI, subst lex_word) (use safe_ident [of s] in \<open>auto simp: boundary_def\<close>)

lemma reads_ident: "is_safe_ident s \<Longrightarrow> reads d stop (parse_identifier d m) ident_ok s"
  by (rule readsI [OF lexes_ident]) (auto simp: lower_ident_ok)

definition scalar :: "literal \<Rightarrow> bool" where
  "scalar v \<longleftrightarrow> (case v of LVector _ \<Rightarrow> False | _ \<Rightarrow> True)"

lemma lex_number_refused:
  assumes "unsigned_decimal s" "\<not> unsigned_text s" "boundary r"
  shows "lex_number (s @ r) = Err (out_of_range s)"
proof -
  have "dropWhile is_digit s = []" and big: "\<not> text_nat (takeWhile is_digit s) < 2 ^ 63"
    using assms(1,2) by (auto simp: unsigned_decimal_def unsigned_text_def Let_def split: if_splits simp del: takeWhile_eq_all_conv dropWhile_eq_Nil_conv)
  then have s: "list_all is_digit s" "takeWhile is_digit s = s" by (simp_all add: list_all_iff)
  moreover have "\<not> (1 < length r \<and> r ! 0 = CHR ''.'' \<and> is_digit (r ! 1))"
    using assms(3) by (cases r) (auto simp: boundary_def)
  ultimately show ?thesis
    using big [unfolded s(2)] takeWhile_dropWhile_stop [OF s(1) boundary_not_digit [OF assms(3)]]
    unfolding lex_number_def out_of_range_def Let_def by simp
qed

lemma lex_unsigned_refused:
  assumes "unsigned_decimal s" "\<not> unsigned_text s" "boundary r"
  shows "tokenize d (s @ r) = Err (out_of_range s)"
proof -
  obtain c u where s: "s = c # u" "is_digit c"
    using assms(1) by (cases s) (auto simp: unsigned_decimal_def Let_def split: if_splits)
  have "lex_step d (s @ r) = Err (out_of_range s)"
    using digit_not_special [OF s(2)] lex_number_refused [OF assms] s unfolding lex_step_def Let_def
    by (simp del: single.simps)
  with s show ?thesis by (subst tokenize.simps) simp
qed

lemma lex_minus: "is_digit (hd s) \<Longrightarrow> s \<noteq> [] \<Longrightarrow> tokenize d (CHR ''-'' # s @ r) = map_res (Cons TMinus) (tokenize d (s @ r))"
proof -
  assume "is_digit (hd s)" "s \<noteq> []"
  then have "lex_step d (CHR ''-'' # s @ r) = Ok (Some TMinus, s @ r)"
    using digit_not_special [of "hd s"] unfolding lex_step_def Let_def by (cases s) (auto simp: is_space_def code_def)
  then show ?thesis by (simp add: tokenize_step)
qed

lemma decimal_refused: "decimal s \<Longrightarrow> \<not> number_text s \<Longrightarrow> refused d s"
proof (cases "minus_sign s")
  case True
  assume "decimal s" "\<not> number_text s"
  moreover obtain u where s: "s = CHR ''-'' # u" using True by (cases s) (auto simp: minus_sign_def)
  ultimately have u: "unsigned_decimal u" "\<not> unsigned_text u" using True by (simp_all add: decimal_def number_text_def)
  then have "u \<noteq> []" "is_digit (hd u)" by (cases u; auto simp: unsigned_decimal_def Let_def split: if_splits)+
  then have "tokenize d (s @ r) = Err (out_of_range u)" if "boundary r" for r
    using lex_minus [of u d r] lex_unsigned_refused [OF u that] s by simp
  then show ?thesis by (auto simp: refused_def)
next
  case False
  then show "decimal s \<Longrightarrow> \<not> number_text s \<Longrightarrow> refused d s"
    using lex_unsigned_refused [of s _ d] by (auto simp: refused_def decimal_def number_text_def)
qed

lemma parse_number_tokens: "\<exists>v. scalar v \<and> (\<forall>u. parse_literal d (number_tokens s @ u) = Ok (v, u))"
proof -
  have "\<exists>v. scalar v \<and> (\<forall>u. parse_literal d (unsigned_token t # u) = Ok (v, u))"
    "\<exists>v. scalar v \<and> (\<forall>u. parse_literal d (TMinus # unsigned_token t # u) = Ok (v, u))" for t
    using unsigned_token_cases [of t] by (auto simp: parse_literal_def scalar_def negative_rest_def)
  then show ?thesis by (simp add: number_tokens_def)
qed

lemma reads_value:
  assumes "value_text v"
  shows "reads d stop (parse_literal d) scalar v"
proof -
  consider "v = ''NULL''" | s where "v = ciphra_string s" | "decimal v" "number_text v" | "decimal v" "\<not> number_text v"
    using assms by (auto simp: value_text_def)
  then show ?thesis
  proof cases
    case 1
    then have "lexes d v [TIdent ''null'']" by (simp add: lexes_def lex_words)
    then show ?thesis by (rule readsI [of _ _ _ _ LNull]) (simp_all add: scalar_def parse_literal_def)
  next
    case (2 s)
    then have "lexes d v [TStr s]" using lex_text by (simp add: lexes_def ciphra_string_def)
    then show ?thesis by (rule readsI [of _ _ _ _ "LText s"]) (simp_all add: scalar_def parse_literal_def)
  next
    case 3
    obtain x where x: "scalar x" "\<And>u. parse_literal d (number_tokens v @ u) = Ok (x, u)" using parse_number_tokens by blast
    have "lexes d v (number_tokens v)" using lex_number_tokens [OF 3(2)] by (simp add: lexes_def)
    then show ?thesis by (rule readsI [of _ _ _ _ x]) (simp_all add: x, simp add: number_tokens_def)
  next
    case 4
    then show ?thesis by (simp add: reads_def decimal_refused)
  qed
qed

lemma literal_shorter: "parse_literal d ts = Ok (v, r) \<Longrightarrow> length r < length ts"
  using literal_spec by blast

lemma lexes_parens:
  "lexes d s ts \<Longrightarrow> lexes d (''('' @ s @ '')'') (TLParen # ts @ [TRParen])"
  "refused d s \<Longrightarrow> refused d (''('' @ s @ '')'')"
  by (auto simp: lexes_def refused_def lex_punctuation append_append_fun)

definition parens :: "display \<Rightarrow> 'a tparser \<Rightarrow> 'a tparser" where
  "parens d p ts = rbind (expect d TLParen ts) (\<lambda>(_, r). rbind (p r) (\<lambda>(x, r1). rbind (expect d TRParen r1) (\<lambda>(_, r2). Ok (x, r2))))"

lemma parens_Ok: "parens d p ts = Ok (x, r) \<longleftrightarrow> (\<exists>v. ts = TLParen # v \<and> p v = Ok (x, TRParen # r))"
  by (auto simp: parens_def)

lemma reads_parens:
  assumes "reads d closes p P s"
  shows "reads d stop (parens d p) P (''('' @ s @ '')'')"
  using assms
proof (cases rule: reads_cases)
  case 1
  then show ?thesis using lexes_parens(2) [of d s] by (simp add: reads_def)
next
  case (2 ts x)
  have "parens d p ((TLParen # ts @ [TRParen]) @ u) = Ok (x, u)" for u
    using 2(4) [of "TRParen # u"] by (simp add: parens_Ok closes_def)
  then show ?thesis using 2(3) by (intro readsI [OF lexes_parens(1) [OF 2(2)]]) auto
qed

lemma reads_tuple:
  assumes "tuple_text t"
  shows "reads d stop (value_tuple d) (\<lambda>vs. vs \<noteq> [] \<and> list_all scalar vs) t"
proof -
  obtain vs where vs: "vs \<noteq> []" "list_all value_text vs" "t = tuple_sql vs" using assms by (auto simp: tuple_text_def)
  have "value_tuple d = parens d (comma_list (parse_literal d))" by (simp add: fun_eq_iff value_tuple_def parens_def)
  moreover have "reads d closes (comma_list (parse_literal d)) (\<lambda>vs. vs \<noteq> [] \<and> list_all scalar vs) (join '', '' vs)"
    using vs reads_value literal_shorter by (intro reads_comma_list) (auto simp: list_all_iff)
  ultimately show ?thesis unfolding vs(3) tuple_sql_def by (simp only: reads_parens)
qed

text \<open>Columns.\<close>

lemma lexes_space:
  "lexes d s ts \<Longrightarrow> lexes d s' us \<Longrightarrow> lexes d (s @ '' '' @ s') (ts @ us)"
  "lexes d s ts \<Longrightarrow> refused d s' \<Longrightarrow> refused d (s @ '' '' @ s')"
  by (auto simp: lexes_def refused_def lex_punctuation append_append_fun)

lemma lexes_keyword:
  assumes "w \<noteq> []" "list_all is_upper w" "map to_lower w = k"
  shows "lexes d w [TIdent k]"
proof -
  have "is_safe_ident w" using assms by (cases w) (auto simp: is_safe_ident_def list_all_iff ident_char_def ident_start_def)
  with assms(3) show ?thesis using lexes_ident by blast
qed

lemma lexes_words:
  "lexes d ''INT'' [TIdent ''int'']" "lexes d ''REAL'' [TIdent ''real'']" "lexes d ''TEXT'' [TIdent ''text'']"
  "lexes d ''PRIMARY'' [TIdent ''primary'']" "lexes d ''KEY'' [TIdent ''key'']" "lexes d ''CREATE'' [TIdent ''create'']"
  "lexes d ''TABLE'' [TIdent ''table'']" "lexes d ''INDEX'' [TIdent ''index'']" "lexes d ''ON'' [TIdent ''on'']"
  "lexes d ''INSERT'' [TIdent ''insert'']" "lexes d ''INTO'' [TIdent ''into'']" "lexes d ''VALUES'' [TIdent ''values'']"
  by (rule lexes_keyword; simp add: is_upper_def to_lower_def code_def char_of_def bit_0)+

definition plain_column :: "column_def \<Rightarrow> bool" where
  "plain_column c \<longleftrightarrow> ident_ok (cd_name c) \<and> cd_ty c \<in> {DInt, DReal, DText} \<and>
    \<not> cd_encrypted c \<and> \<not> cd_indexed c \<and> \<not> cd_range_indexed c"

lemma markers_stop: "delimits u \<Longrightarrow> column_markers d e k u = Ok ((e, k), u)"
  by (subst column_markers.simps) (cases u; auto simp: delimits_def closes_def eat_keyword_def eat_def)

lemma markers_key: "delimits u \<Longrightarrow> column_markers d False False (TIdent ''primary'' # TIdent ''key'' # u) = Ok ((False, True), u)"
  by (subst column_markers.simps) (simp add: markers_stop)

lemma reads_column:
  assumes "is_safe_ident name" "ty \<in> {''INT'', ''REAL'', ''TEXT''}"
  shows "reads d delimits (parse_column d) plain_column (column_sql pk (name, ty))"
proof -
  obtain k t where ty: "lexes d ty [TIdent k]" "\<And>u. parse_type d (TIdent k # u) = Ok (t, u)" "t \<in> {DInt, DReal, DText}"
  proof -
    consider "ty = ''INT''" | "ty = ''REAL''" | "ty = ''TEXT''" using assms(2) by blast
    then show thesis
    proof cases
      case 1
      then show thesis using that [of "''int''" DInt] by (simp add: lexes_words parse_type_def)
    next
      case 2
      then show thesis using that [of "''real''" DReal] by (simp add: lexes_words parse_type_def)
    next
      case 3
      then show thesis using that [of "''text''" DText] by (simp add: lexes_words parse_type_def)
    qed
  qed
  note lex = lexes_space(1) [OF lexes_ident [OF assms(1)] ty(1)]
  let ?col = "\<lambda>b. \<lparr>cd_name = map to_lower name, cd_ty = t, cd_encrypted = False, cd_primary_key = b, cd_indexed = False, cd_range_indexed = False\<rparr>"
  have plain: "plain_column (?col b)" for b using ty(3) lower_ident_ok [OF assms(1)] by (simp add: plain_column_def)
  show ?thesis
  proof (cases "Some name = pk")
    case True
    have "parse_column d (([TIdent (map to_lower name)] @ [TIdent k]) @ ([TIdent ''primary''] @ [TIdent ''key'']) @ u) = Ok (?col True, u)"
      if "delimits u" for u
      using that by (simp add: parse_column_def ty(2) markers_key)
    then show ?thesis
      using True lexes_space(1) [OF lex lexes_space(1) [OF lexes_words(4,5)]]
      by (intro readsI [of _ _ "[TIdent (map to_lower name), TIdent k, TIdent ''primary'', TIdent ''key'']" _ "?col True"]) (simp_all add: column_sql_def plain)
  next
    case False
    have "parse_column d (([TIdent (map to_lower name)] @ [TIdent k]) @ u) = Ok (?col False, u)" if "delimits u" for u
      using that by (simp add: parse_column_def ty(2) markers_stop)
    then show ?thesis
      using False lex by (intro readsI [of _ _ "[TIdent (map to_lower name), TIdent k]" _ "?col False"]) (simp_all add: column_sql_def plain)
  qed
qed

text \<open>Statements.\<close>

fun data_statement :: "statement \<Rightarrow> bool" where
  "data_statement (Create_table t cs) \<longleftrightarrow> ident_ok t \<and> cs \<noteq> [] \<and> list_all plain_column cs"
| "data_statement (Create_index t c is_range) \<longleftrightarrow> ident_ok t \<and> ident_ok c \<and> \<not> is_range"
| "data_statement (Insert t cols rows) \<longleftrightarrow> ident_ok t \<and> (\<forall>cs. cols = Some cs \<longrightarrow> cs \<noteq> [] \<and> list_all ident_ok cs)
    \<and> rows \<noteq> [] \<and> list_all (\<lambda>vs. vs \<noteq> [] \<and> list_all scalar vs) rows"
| "data_statement _ \<longleftrightarrow> False"

abbreviation ended :: "token list \<Rightarrow> bool" where "ended u \<equiv> u = []"

lemma reads_after:
  assumes "lexes d w ws" "reads d stop p P s"
    and "\<And>ts x u. stop' u \<Longrightarrow> P x \<Longrightarrow> (\<And>v. stop v \<Longrightarrow> p (ts @ v) = Ok (x, v)) \<Longrightarrow> p' (ws @ ts @ u) = Ok (f x, u) \<and> P' (f x)"
    and "\<exists>u. stop' u"
  shows "reads d stop' p' P' (w @ '' '' @ s)"
  using assms(2)
proof (cases rule: reads_cases)
  case 1
  then show ?thesis using lexes_space(2) [OF assms(1)] by (simp add: reads_def)
next
  case (2 ts x)
  have ok: "p' (ws @ ts @ u) = Ok (f x, u) \<and> P' (f x)" if "stop' u" for u using assms(3) [OF that 2(3,4)] .
  with assms(4) have "P' (f x)" by blast
  with ok show ?thesis using 2 lexes_space(1) [OF assms(1) 2(2)] by (intro readsI [of _ _ "ws @ ts" _ "f x"]) auto
qed

lemma reads_columns:
  assumes "columns \<noteq> []" "list_all (\<lambda>(c, ty). is_safe_ident c \<and> ty \<in> {''INT'', ''REAL'', ''TEXT''}) columns"
  shows "reads d closes (comma_list (parse_column d)) (\<lambda>cs. cs \<noteq> [] \<and> list_all plain_column cs) (join '', '' (map (column_sql pk) columns))"
  using assms reads_column column_spec by (intro reads_comma_list) (auto simp: list_all_iff split_def)

lemma reads_create:
  assumes "is_safe_ident name" "columns \<noteq> []" "list_all (\<lambda>(c, ty). is_safe_ident c \<and> ty \<in> {''INT'', ''REAL'', ''TEXT''}) columns"
  shows "reads d ended (parse_statement d) data_statement (create_sql name pk columns)"
proof -
  let ?body = "''('' @ join '', '' (map (column_sql pk) columns) @ '')''"
  have "lexes d (''CREATE'' @ '' '' @ ''TABLE'' @ '' '' @ name) ([TIdent ''create''] @ [TIdent ''table''] @ [TIdent (map to_lower name)])"
    by (intro lexes_space(1) lexes_words lexes_ident assms)
  then have "reads d ended (parse_statement d) data_statement ((''CREATE'' @ '' '' @ ''TABLE'' @ '' '' @ name) @ '' '' @ ?body)"
  proof (rule reads_after [OF _ reads_parens [OF reads_columns [OF assms(2,3)]], where stop = ended and f = "Create_table (map to_lower name)"])
    fix ts :: "token list" and cs and u :: "token list"
    assume "\<And>v. ended v \<Longrightarrow> parens d (comma_list (parse_column d)) (ts @ v) = Ok (cs, v)" "ended u" "cs \<noteq> [] \<and> list_all plain_column cs"
    then show "parse_statement d (([TIdent ''create''] @ [TIdent ''table''] @ [TIdent (map to_lower name)]) @ ts @ u) = Ok (Create_table (map to_lower name) cs, u)
        \<and> data_statement (Create_table (map to_lower name) cs)"
      using lower_ident_ok [OF assms(1)]
      by (subst parse_statement.simps) (auto simp: parens_Ok simple_statement_def index_or_table_def parse_create_table_def)
  qed simp
  then show ?thesis by (simp add: create_sql_def)
qed

lemma reads_index:
  assumes "is_safe_ident name" "is_safe_ident col"
  shows "reads d ended (parse_statement d) data_statement (index_sql name col)"
proof -
  let ?ws = "[TIdent ''create''] @ [TIdent ''index''] @ [TIdent ''on''] @ [TIdent (map to_lower name)]"
  have "lexes d (''CREATE'' @ '' '' @ ''INDEX'' @ '' '' @ ''ON'' @ '' '' @ name) ?ws"
    by (intro lexes_space(1) lexes_words lexes_ident assms)
  then have "reads d ended (parse_statement d) data_statement
      ((''CREATE'' @ '' '' @ ''INDEX'' @ '' '' @ ''ON'' @ '' '' @ name) @ '' '' @ ''('' @ col @ '')'')"
  proof (rule reads_after [OF _ reads_parens [OF reads_ident [OF assms(2), of d closes "''column name''"]], where stop = ended and f = "\<lambda>c. Create_index (map to_lower name) c False"])
    fix ts :: "token list" and c and u :: "token list"
    assume "\<And>v. ended v \<Longrightarrow> parens d (parse_identifier d ''column name'') (ts @ v) = Ok (c, v)" "ended u" "ident_ok c"
    then show "parse_statement d (?ws @ ts @ u) = Ok (Create_index (map to_lower name) c False, u)
        \<and> data_statement (Create_index (map to_lower name) c False)"
      using lower_ident_ok [OF assms(1)]
      by (subst parse_statement.simps) (auto simp: parens_Ok simple_statement_def index_or_table_def index_target_def)
  qed simp
  then show ?thesis by (simp add: index_sql_def)
qed

lemma reads_rows:
  assumes "tuples \<noteq> []" "list_all tuple_text tuples" "lexes d w (TIdent ''insert'' # TIdent ''into'' # TIdent t # cols @ [TIdent ''values''])" "ident_ok t"
    and "\<And>u. (case eat TLParen (cols @ TIdent ''values'' # u) of
        Some r2 \<Rightarrow>
          rbind (comma_list (parse_identifier d ''column name'') r2) (\<lambda>(cols, r3).
          rbind (expect d TRParen r3) (\<lambda>(_, r4). Ok (Some cols, r4)))
      | None \<Rightarrow> Ok (None, cols @ TIdent ''values'' # u)) = Ok (columns, TIdent ''values'' # u)"
    and "\<And>cs. columns = Some cs \<Longrightarrow> cs \<noteq> [] \<and> list_all ident_ok cs"
  shows "reads d ended (parse_statement d) data_statement (w @ '' '' @ join '', '' tuples)"
proof -
  have "reads d closes (comma_list (value_tuple d)) (\<lambda>rows. rows \<noteq> [] \<and> list_all (\<lambda>vs. vs \<noteq> [] \<and> list_all scalar vs) rows) (join '', '' tuples)"
    using assms(1,2) reads_tuple tuple_spec by (intro reads_comma_list) (auto simp: list_all_iff)
  then show ?thesis
  proof (rule reads_after [OF assms(3), where f = "Insert t columns"])
    fix ts :: "token list" and rows and u :: "token list"
    assume rows: "\<And>v. closes v \<Longrightarrow> comma_list (value_tuple d) (ts @ v) = Ok (rows, v)" and "ended u"
      "rows \<noteq> [] \<and> list_all (\<lambda>vs. vs \<noteq> [] \<and> list_all scalar vs) rows"
    then show "parse_statement d ((TIdent ''insert'' # TIdent ''into'' # TIdent t # cols @ [TIdent ''values'']) @ ts @ u) = Ok (Insert t columns rows, u)
        \<and> data_statement (Insert t columns rows)"
      using assms(4,6) assms(5) [of ts] rows [of "[]"]
      by (subst parse_statement.simps) (simp add: simple_statement_def parse_insert_def closes_def del: eat_simps)
  qed simp
qed

lemma reads_insert:
  assumes "is_safe_ident name" "tuples \<noteq> []" "list_all tuple_text tuples"
    and "cols = [] \<or> (\<exists>cs. cs \<noteq> [] \<and> list_all is_safe_ident cs \<and> cols = '' ('' @ join '', '' cs @ '')'')"
  shows "reads d ended (parse_statement d) data_statement (insert_sql name cols tuples)"
proof -
  let ?t = "map to_lower name"
  let ?w = "''INSERT'' @ '' '' @ ''INTO'' @ '' '' @ name"
  have w: "lexes d ?w ([TIdent ''insert''] @ [TIdent ''into''] @ [TIdent ?t])"
    by (intro lexes_space(1) lexes_words lexes_ident assms)
  from assms(4) show ?thesis
  proof (elim disjE exE conjE)
    assume "cols = []"
    then show ?thesis
      using reads_rows [OF assms(2,3), of d "?w @ '' '' @ ''VALUES''" ?t "[]" None] lexes_space(1) [OF w lexes_words(12)]
        lower_ident_ok [OF assms(1)] by (simp add: insert_sql_def)
  next
    fix cs assume cs: "cs \<noteq> []" "list_all is_safe_ident cs" and cols: "cols = '' ('' @ join '', '' cs @ '')''"
    let ?p = "parens d (comma_list (parse_identifier d ''column name''))"
    have sql: "insert_sql name cols tuples = (?w @ '' '' @ ''('' @ join '', '' cs @ '')'') @ '' VALUES '' @ join '', '' tuples"
      by (simp add: insert_sql_def cols)
    have "reads d closes (comma_list (parse_identifier d ''column name'')) (\<lambda>cs. cs \<noteq> [] \<and> list_all ident_ok cs) (join '', '' cs)"
      using cs reads_ident by (intro reads_comma_list) (auto simp: list_all_iff)
    then have "reads d (\<lambda>_. True) ?p (\<lambda>cs. cs \<noteq> [] \<and> list_all ident_ok cs) (''('' @ join '', '' cs @ '')'')"
      by (rule reads_parens)
    then show ?thesis
    proof (cases rule: reads_cases)
      case 1
      show ?thesis unfolding sql reads_def
        by (rule disjI1, rule refused_first [OF lexes_space(2) [OF w 1]]) simp_all
    next
      case (2 ts xs)
      have "(case eat TLParen (ts @ u) of
          Some r2 \<Rightarrow>
            rbind (comma_list (parse_identifier d ''column name'') r2) (\<lambda>(cols, r3).
            rbind (expect d TRParen r3) (\<lambda>(_, r4). Ok (Some cols, r4)))
        | None \<Rightarrow> Ok (None, ts @ u)) = Ok (Some xs, u)" for u
        using 2(4) [of u] by (auto simp: parens_Ok)
      from reads_rows [OF assms(2,3) _ lower_ident_ok [OF assms(1)] this, of "(?w @ '' '' @ ''('' @ join '', '' cs @ '')'') @ '' '' @ ''VALUES''"]
      show ?thesis using lexes_space(1) [OF lexes_space(1) [OF w 2(2)] lexes_words(12)] 2(3) sql by simp
    qed
  qed
qed

lemma reads_emitted: "emitted s \<Longrightarrow> reads d ended (parse_statement d) data_statement s"
  by (induction rule: emitted.induct) (blast intro: reads_create reads_index reads_insert)+

lemma reads_statements:
  assumes "reads d ended (parse_statement d) P s"
  shows "(\<exists>st. parse_statements d s = Ok [st] \<and> P st) \<or> (\<exists>ds. parse_statements d s = Err (out_of_range ds))"
  using assms
proof (cases rule: reads_cases)
  case 1
  then obtain ds where "\<And>r. boundary r \<Longrightarrow> tokenize d (s @ r) = Err (out_of_range ds)" by (auto simp: refused_def)
  from this [of "[]"] show ?thesis by (auto simp: parse_statements_def)
next
  case (2 ts st)
  then have st: "parse_statement d ts = Ok (st, [])" by simp
  then obtain k r where "ts = TIdent k # r" by (subst (asm) parse_statement.simps) auto
  with st have "statement_list d ts = Ok [st]"
    by (subst statement_list.simps) (simp add: consumed_def statement_list_Nil)
  moreover have "tokenize d (s @ []) = Ok ts" using 2(2) unfolding lexes_def by (simp add: tokenize_Nil del: append_Nil2)
  ultimately show ?thesis using 2(3) by (simp add: parse_statements_def)
qed

text \<open>
  C25: an imported dump cannot smuggle in a statement. Whatever the dump holds, every statement text the
  translator returns parses as exactly one statement, and that statement creates a table with plain INT, REAL and
  TEXT columns, creates an equality index or inserts rows of scalar literals, all over identifiers; the
  one other outcome is the tokenizer's error for an integer literal of more than 63 bits. The hypothesis on the
  standard library is that it displays a finite float as decimal digits, with at most a sign and a fraction.
\<close>

theorem import_is_only_data:
  assumes "prints_decimal d" "translate d dump = Some m" "s \<in> set (mg_statements m)"
  shows "(\<exists>st. parse_statements d s = Ok [st] \<and> data_statement st) \<or>
    (\<exists>ds. parse_statements d s = Err (ParseError (''integer literal out of range: '' @ ds)))"
  using reads_statements [OF reads_emitted [OF translate_emitted [OF assms(2,1,3)]]] unfolding out_of_range_def by blast

text \<open>Evaluation on text of ASCII characters.\<close>

lemma is_whitespace_byte: "is_whitespace [c] \<longleftrightarrow> code c = 32 \<or> 9 \<le> code c \<and> code c \<le> 13"
  by (auto simp: is_whitespace_def)

lemma first_char_byte: "code c < 128 \<Longrightarrow> first_char (c # s) = [c]"
  by (simp add: first_char_def)

lemma utf8_chars_byte: "code c < 128 \<Longrightarrow> utf8_chars (c # s) = [c] # utf8_chars s"
  by (simp add: first_char_byte)

lemmas import_eval = split_statements_def as_char_def quotes_def quote_def dquote_def bquote_def backslash_def newline_def
  first_char_byte utf8_chars_byte is_whitespace_byte code_def Let_def translate_statement_def trim_def trim_start_def trim_end_def leading_words_def split_whitespace_def
 words_of.simps upper_def is_lower_def starts_with_def translate_insert_def find_keyword_def to_ascii_lowercase_def to_lower_def is_upper_def
 char_boundary_def is_word_byte_def ident_char_def ident_start_def is_digit_def split_first_token_def unquote_ident_def is_safe_ident_def insert_columns_def
 top_level_split_def translate_value_def parse_i64_def number_letters_def parse_f64_def decode_mysql_string_def ciphra_string_def add_statement_def tuple_sql_def insert_sql_def
 show_int_def text_nat_def unescape_def add_note_def char_of_def bit_0

definition hostile_dump :: string where
  "hostile_dump = ''INSERT INTO t VALUES (1,'' @ [quote] @ ''a'' @ [backslash, quote] @ ''); DROP TABLE t'' @ [quote] @ '');''"

lemma hostile_dump_split:
  "split_statements hostile_dump = [''INSERT INTO t VALUES (1,'' @ [quote] @ ''a'' @ [backslash, quote] @ ''); DROP TABLE t'' @ [quote] @ '')'']"
  unfolding hostile_dump_def by (simp add: import_eval del: utf8_chars.simps(2))

lemma hostile_dump_translated:
  "prints_decimal sample_display"
  "translate sample_display hostile_dump =
     Some \<lparr>mg_statements = [''INSERT INTO t VALUES (1, '' @ ciphra_string (''a'' @ [quote] @ ''); DROP TABLE t'') @ '')''], mg_notes = []\<rparr>"
proof -
  show "prints_decimal sample_display"
    by (simp add: prints_decimal_def sample_display_def decimal_def minus_sign_def unsigned_decimal_def is_digit_def code_def)
  show "translate sample_display hostile_dump =
     Some \<lparr>mg_statements = [''INSERT INTO t VALUES (1, '' @ ciphra_string (''a'' @ [quote] @ ''); DROP TABLE t'') @ '')''], mg_notes = []\<rparr>"
    unfolding translate_def hostile_dump_split by (simp add: import_eval show_nat.simps [of "Suc 0"] del: utf8_chars.simps(2))
qed

theorem import_is_only_data_witness:
  "prints_decimal sample_display \<and>
   translate sample_display hostile_dump =
     Some \<lparr>mg_statements = [''INSERT INTO t VALUES (1, '' @ ciphra_string (''a'' @ [quote] @ ''); DROP TABLE t'') @ '')''], mg_notes = []\<rparr> \<and>
   ((\<exists>st. parse_statements sample_display (''INSERT INTO t VALUES (1, '' @ ciphra_string (''a'' @ [quote] @ ''); DROP TABLE t'') @ '')'') = Ok [st] \<and> data_statement st) \<or>
    (\<exists>ds. parse_statements sample_display (''INSERT INTO t VALUES (1, '' @ ciphra_string (''a'' @ [quote] @ ''); DROP TABLE t'') @ '')'')
      = Err (ParseError (''integer literal out of range: '' @ ds))))"
  using hostile_dump_translated import_is_only_data [OF hostile_dump_translated,
      of "''INSERT INTO t VALUES (1, '' @ ciphra_string (''a'' @ [quote] @ ''); DROP TABLE t'') @ '')''"]
  by (simp del: append.simps)

section \<open>What it does not keep\<close>

text \<open>
  The bytes of a quoted string are pushed one by one as characters, so that text outside ASCII is encoded twice.
  A keyword is searched for by slicing at every byte, and a string token by slicing off two bytes: a character outside ASCII
  before \<open>VALUES\<close> and an unclosed quote are panics. A row with any clause behind it is dropped without a note.
\<close>

lemma import_reencodes_text:
  "split_statements [quote, CHR 0xC3, CHR 0xA9, quote, CHR '';''] = [[quote, CHR 0xC3, CHR 0x83, CHR 0xC2, CHR 0xA9, quote]]"
  by (simp add: import_eval del: utf8_chars.simps(2))

lemma import_panics:
  "find_keyword (CHR 0xC3 # CHR 0xA9 # s) ''values'' = None"
  "translate_value d [quote] out = None"
  by (simp_all add: import_eval)

lemma import_drops_row:
  "translate_groups d [''(1) ON DUPLICATE KEY UPDATE a=1''] out = Some ([], out)"
  by (simp add: import_eval del: utf8_chars.simps(2))

end
