(* ===== verification/Frontend.thy ===== *)
theory Frontend
  imports Statements Migrate
begin

text \<open>
  What the programs around the engine share: \<open>Engine::execute\<close> on text, the \<open>Display\<close> forms of values and errors
  (\<open>crates/ciphra-engine/src/lib.rs\<close>), and keys written in hexadecimal, which the command line, the server and the
  C interface each parse with the same loop. \<open>io_text\<close> is the operating system's description of its last error.
\<close>

section \<open>Executing text\<close>

text \<open>One statement after the other; statement \<open>i\<close> runs in the world \<open>ws i\<close>.\<close>

fun parse_failure :: "perr \<Rightarrow> engine_error" where
  "parse_failure (ParseError e) = Parse_error e"
| "parse_failure Parser_panic = Panicked"

definition execute :: "display \<Rightarrow> (nat \<Rightarrow> world) \<Rightarrow> string \<Rightarrow> engine \<Rightarrow> engine \<times> query_result list res" where
  "execute d ws sql e =
    (case parse_statements d sql of
       Err err \<Rightarrow> (e, Err (parse_failure err))
     | Ok statements \<Rightarrow> execute_statements (zip (map ws [0..<length statements]) statements) e)"

section \<open>Display\<close>

fun show_value :: "display \<Rightarrow> val \<Rightarrow> string" where
  "show_value d VNull = ''NULL''"
| "show_value d (VInt n) = show_int (sint n)"
| "show_value d (VReal x) = d_f64 d x"
| "show_value d (VText s) = s"
| "show_value d (VVector v) = ''['' @ join '', '' (map (d_f32 d) v) @ '']''"

fun show_storage_error :: "string \<Rightarrow> storage_error \<Rightarrow> string" where
  "show_storage_error io_text Io = ''storage io error: '' @ io_text"
| "show_storage_error io_text (Corrupt msg) = ''storage corruption: '' @ msg"

fun show_crypto_error :: "crypto_error \<Rightarrow> string" where
  "show_crypto_error Open = ''decryption failed: wrong key or tampered data''"

text \<open>\<open>Panicked\<close> has no text: no caller shows it.\<close>

fun show_error :: "string \<Rightarrow> engine_error \<Rightarrow> string" where
  "show_error io_text (Parse_error e) = ''parse error: '' @ e"
| "show_error io_text (Storage_error e) = show_storage_error io_text e"
| "show_error io_text (Crypto_error e) = ''crypto error: '' @ show_crypto_error e"
| "show_error io_text Bad_passphrase = ''wrong passphrase for this database''"
| "show_error io_text (Schema_error msg) = ''schema error: '' @ msg"
| "show_error io_text (Constraint_error msg) = ''constraint violation: '' @ msg"
| "show_error io_text (Audit_error msg) = ''audit chain violation: '' @ msg"
| "show_error io_text (Type_error msg) = ''type error: '' @ msg"
| "show_error io_text (Corrupt_error msg) = ''corrupt data: '' @ msg"
| "show_error io_text Io_error = ''io error: '' @ io_text"
| "show_error io_text Panicked = []"

section \<open>Keys in hexadecimal\<close>

definition hex_digit :: "nat \<Rightarrow> char" where
  "hex_digit n = char_of (if n < 10 then 48 + n else 87 + n)"

definition hex :: "bytes \<Rightarrow> string" where
  "hex bs = concat (map (\<lambda>b. [hex_digit (unat b div 16), hex_digit (unat b mod 16)]) bs)"

text \<open>\<open>char::to_digit(16)\<close> and \<open>u8::from_str_radix(s, 16)\<close> on two bytes of text: one leading plus sign is allowed.\<close>

definition hex_value :: "char \<Rightarrow> nat option" where
  "hex_value c =
    (if is_digit c then Some (code c - 48)
     else if 97 \<le> code c \<and> code c \<le> 102 then Some (code c - 87)
     else if 65 \<le> code c \<and> code c \<le> 70 then Some (code c - 55)
     else None)"

definition from_str_radix_16 :: "char \<Rightarrow> char \<Rightarrow> byte option" where
  "from_str_radix_16 a b =
    (case hex_value b of
       None \<Rightarrow> None
     | Some lo \<Rightarrow> if a = CHR ''+'' then Some (word_of_nat lo)
                 else map_option (\<lambda>hi. word_of_nat (16 * hi + lo)) (hex_value a))"

text \<open>A slice \<open>hex[2 * i..2 * i + 2]\<close> whose ends are not at the start of a character panics.\<close>

definition char_start :: "string \<Rightarrow> nat \<Rightarrow> bool" where
  "char_start s i \<longleftrightarrow> i = 0 \<or> i = length s \<or> (i < length s \<and> \<not> (128 \<le> code (s ! i) \<and> code (s ! i) < 192))"

datatype key_error = Key_length | Key_digits | Key_panic

fun parse_key_bytes :: "string \<Rightarrow> nat list \<Rightarrow> (key_error, bytes) result" where
  "parse_key_bytes s [] = Ok []"
| "parse_key_bytes s (i # is) =
    (if \<not> char_start s (2 * i) \<or> \<not> char_start s (2 * i + 2) then Err Key_panic
     else case from_str_radix_16 (s ! (2 * i)) (s ! (2 * i + 1)) of
            None \<Rightarrow> Err Key_digits
          | Some b \<Rightarrow> rbind (parse_key_bytes s is) (\<lambda>bs. Ok (b # bs)))"

definition parse_key :: "string \<Rightarrow> (key_error, bytes) result" where
  "parse_key s = (if length s \<noteq> 64 then Err Key_length else parse_key_bytes s [0..<32])"

section \<open>What the hexadecimal forms mean\<close>

lemma code_hex_digit: "n < 16 \<Longrightarrow> code (hex_digit n) = (if n < 10 then 48 + n else 87 + n)"
  by (simp add: code_def hex_digit_def)

lemma hex_value_digit [simp]: "n < 16 \<Longrightarrow> hex_value (hex_digit n) = Some n"
  by (simp add: hex_value_def is_digit_def code_hex_digit)

lemma hex_digit_plain: "n < 16 \<Longrightarrow> hex_digit n \<noteq> CHR ''+''" "n < 16 \<Longrightarrow> code (hex_digit n) < 128"
proof -
  assume n: "n < 16"
  show "code (hex_digit n) < 128" using n by (simp add: code_hex_digit)
  show "hex_digit n \<noteq> CHR ''+''"
  proof
    assume "hex_digit n = CHR ''+''"
    then have "code (hex_digit n) = 43" by (simp add: code_def)
    then show False using n by (simp add: code_hex_digit split: if_splits)
  qed
qed

lemma length_hex [simp]: "length (hex bs) = 2 * length bs"
  by (induction bs) (simp_all add: hex_def)

lemma hex_nth:
  "i < length bs \<Longrightarrow> hex bs ! (2 * i) = hex_digit (unat (bs ! i) div 16)"
  "i < length bs \<Longrightarrow> hex bs ! Suc (2 * i) = hex_digit (unat (bs ! i) mod 16)"
  by (induction bs arbitrary: i) (auto simp: hex_def nth_Cons' dest: less_Suc_eq_0_disj [THEN iffD1])

lemma byte_nibbles: "unat (b :: byte) div 16 < 16" "word_of_nat (16 * (unat b div 16) + unat b mod 16) = b"
  using unsigned_less [of b] by (simp_all add: div_less_iff_less_mult)

text \<open>Reading back what \<open>hex\<close> printed; the same for the server's key line and the client's pin.\<close>

lemma parse_key_hex:
  assumes "length k = 32"
  shows "parse_key (hex k) = Ok k"
proof -
  have start: "char_start (hex k) (2 * i)" if "i \<le> 32" for i
    using that assms hex_nth(1) [of i k] hex_digit_plain(2) [OF byte_nibbles(1), of "k ! i"]
    by (cases "i = 32") (auto simp: char_start_def)
  have pair: "from_str_radix_16 (hex k ! (2 * i)) (hex k ! (2 * i + 1)) = Some (k ! i)" if "i < 32" for i
    using that assms hex_digit_plain(1) byte_nibbles by (simp add: from_str_radix_16_def hex_nth del: of_nat_add of_nat_mult)
  have "parse_key_bytes (hex k) is = Ok (map ((!) k) is)" if "set is \<subseteq> {..<32}" for "is"
    using that
  proof (induction "is")
    case (Cons i "is")
    then show ?case using start [of i] start [of "Suc i"] pair [of i] by simp
  qed simp
  then show ?thesis using assms map_nth [of k] by (simp add: parse_key_def atLeast0LessThan)
qed

text \<open>
  The loop accepts more than hexadecimal digits, and panics on text of 64 bytes whose characters do not start at
  every second byte.
\<close>

lemma parse_key_plus: "parse_key (concat (replicate 32 ''+1'')) = Ok (replicate 32 1)"
  by code_simp

lemma parse_key_panics: "parse_key (''a'' @ [CHR 0xC3, CHR 0xA9] @ replicate 61 CHR ''0'') = Err Key_panic"
  by code_simp

end
