(* ===== verification/Ffi.thy ===== *)
theory Ffi
  imports Frontend
begin

text \<open>
  The C interface, \<open>crates/ciphra-ffi/src/lib.rs\<close>. A pointer to a C string is the bytes before its terminating zero,
  or \<open>None\<close> for null; an \<open>out_err\<close> argument is a slot that may be absent; a handle is an engine, or \<open>None\<close> for null.
  Freeing strings and handles only releases memory. Results cross the boundary as JSON, which the encoder writes by
  hand: beside it stands a reader for RFC 8259.
\<close>

section \<open>JSON encoding\<close>

text \<open>
  \<open>encode_str\<close> escapes character by character; the bytes of a character beyond ASCII are all above \<open>0x7F\<close> and are
  copied, so that the text can be treated byte by byte.
\<close>

definition hex4 :: "nat \<Rightarrow> string" where
  "hex4 n = map (\<lambda>k. hex_digit (n div 16 ^ k mod 16)) [3, 2, 1, 0]"

definition escape_char :: "char \<Rightarrow> string" where
  "escape_char c =
    (if c = dquote then [backslash, dquote]
     else if c = backslash then [backslash, backslash]
     else if c = newline then [backslash, CHR ''n'']
     else if c = CHR 0x0D then [backslash, CHR ''r'']
     else if c = CHR 0x09 then [backslash, CHR ''t'']
     else if c = CHR 0x08 then [backslash, CHR ''b'']
     else if c = CHR 0x0C then [backslash, CHR ''f'']
     else if code c < 0x20 then [backslash, CHR ''u''] @ hex4 (code c)
     else [c])"

definition encode_str :: "string \<Rightarrow> string" where
  "encode_str s = dquote # concat (map escape_char s) @ [dquote]"

definition f64_is_finite :: "f64 \<Rightarrow> bool" where "f64_is_finite x \<longleftrightarrow> (unat x div 2 ^ 52) mod 2 ^ 11 \<noteq> 2047"
definition f32_is_finite :: "f32 \<Rightarrow> bool" where "f32_is_finite x \<longleftrightarrow> (unat x div 2 ^ 23) mod 2 ^ 8 \<noteq> 255"

fun encode_json_value :: "display \<Rightarrow> val \<Rightarrow> string" where
  "encode_json_value d VNull = ''null''"
| "encode_json_value d (VInt n) = show_int (sint n)"
| "encode_json_value d (VReal x) = (if f64_is_finite x then d_f64 d x else ''null'')"
| "encode_json_value d (VText s) = encode_str s"
| "encode_json_value d (VVector v) = ''['' @ join '','' (map (\<lambda>x. if f32_is_finite x then d_f32 d x else ''null'') v) @ '']''"

definition json_quoted :: "string \<Rightarrow> string" where "json_quoted s = dquote # s @ [dquote]"

definition encode_count :: "string \<Rightarrow> nat \<Rightarrow> string" where
  "encode_count kind n = ''{'' @ json_quoted ''kind'' @ '':'' @ json_quoted kind @ '','' @ json_quoted ''count'' @ '':'' @ show_nat n @ ''}''"

definition encode_index :: "string \<Rightarrow> string \<Rightarrow> string \<Rightarrow> bool \<Rightarrow> string" where
  "encode_index kind table column rng =
    ''{'' @ json_quoted ''kind'' @ '':'' @ json_quoted kind @ '','' @ json_quoted ''table'' @ '':'' @ encode_str table @ '','' @ json_quoted ''column'' @ '':''
      @ encode_str column @ '','' @ json_quoted ''range'' @ '':'' @ (if rng then ''true'' else ''false'') @ ''}''"

definition encode_named :: "string \<Rightarrow> string \<Rightarrow> string" where
  "encode_named kind name = ''{'' @ json_quoted ''kind'' @ '':'' @ json_quoted kind @ '','' @ json_quoted ''name'' @ '':'' @ encode_str name @ ''}''"

fun encode_result :: "display \<Rightarrow> query_result \<Rightarrow> string" where
  "encode_result d (Created name) = encode_named ''created'' name"
| "encode_result d (Dropped name) = encode_named ''dropped'' name"
| "encode_result d (Index_created table column rng) = encode_index ''index_created'' table column rng"
| "encode_result d (Index_dropped table column rng) = encode_index ''index_dropped'' table column rng"
| "encode_result d (Inserted n) = encode_count ''inserted'' n"
| "encode_result d (Updated n) = encode_count ''updated'' n"
| "encode_result d (Deleted n) = encode_count ''deleted'' n"
| "encode_result d (Rows columns rows) =
    ''{'' @ json_quoted ''kind'' @ '':'' @ json_quoted ''rows'' @ '','' @ json_quoted ''columns'' @ '':['' @ join '','' (map encode_str columns) @ ''],''
      @ json_quoted ''rows'' @ '':['' @ join '','' (map (\<lambda>row. ''['' @ join '','' (map (encode_json_value d) row) @ '']'') rows) @ '']}''"
| "encode_result d Begun = ''{'' @ json_quoted ''kind'' @ '':'' @ json_quoted ''begin'' @ ''}''"
| "encode_result d Committed = ''{'' @ json_quoted ''kind'' @ '':'' @ json_quoted ''committed'' @ ''}''"
| "encode_result d Rolled_back = ''{'' @ json_quoted ''kind'' @ '':'' @ json_quoted ''rolled_back'' @ ''}''"

definition results_to_json :: "display \<Rightarrow> query_result list \<Rightarrow> string" where
  "results_to_json d results = ''['' @ join '','' (map (encode_result d) results) @ '']''"

section \<open>The boundary\<close>

datatype err_slot = No_slot | Slot "string option"

fun clear_err :: "err_slot \<Rightarrow> err_slot" where
  "clear_err No_slot = No_slot"
| "clear_err (Slot _) = Slot None"

text \<open>A zero inside a string becomes the replacement character, in UTF-8.\<close>

definition into_c_string :: "string \<Rightarrow> string" where
  "into_c_string s = concat (map (\<lambda>c. if c = CHR 0x00 then [CHR 0xEF, CHR 0xBF, CHR 0xBD] else [c]) s)"

fun set_err :: "err_slot \<Rightarrow> string \<Rightarrow> err_slot" where
  "set_err No_slot message = No_slot"
| "set_err (Slot _) message = Slot (Some (into_c_string message))"

definition to_str :: "string option \<Rightarrow> string \<Rightarrow> (string, string) result" where
  "to_str ptr what =
    (case ptr of
       None \<Rightarrow> Err (what @ '' must not be null'')
     | Some s \<Rightarrow> if utf8_valid (as_bytes s) then Ok s else Err (what @ '' is not valid UTF-8''))"

text \<open>\<open>flatten\<close> on a result whose error is shown, or is a caught panic.\<close>

definition flatten :: "string \<Rightarrow> 'a res \<Rightarrow> (string, 'a) result" where
  "flatten io_text r =
    (case r of
       Ok x \<Rightarrow> Ok x
     | Err Panicked \<Rightarrow> Err ''internal error: operation panicked''
     | Err e \<Rightarrow> Err (show_error io_text e))"

fun ffi_key_error :: "key_error \<Rightarrow> string" where
  "ffi_key_error Key_length = ''server key must be 64 hex characters (32 bytes)''"
| "ffi_key_error Key_digits = ''server key must be valid hex''"
| "ffi_key_error Key_panic = ''internal error: operation panicked''"

fun finish_open :: "(string, engine) result \<Rightarrow> err_slot \<Rightarrow> engine option \<times> err_slot" where
  "finish_open (Ok engine) slot = (Some engine, slot)"
| "finish_open (Err message) slot = (None, set_err slot message)"

text \<open>\<open>fs\<close> is the log and the sidecar of each directory, \<open>connect\<close> the server reached at an address with a pin.\<close>

definition ciphra_open ::
  "string \<Rightarrow> world \<Rightarrow> (string \<Rightarrow> (storage_error, bytes) result \<times> bytes option) \<Rightarrow> string option \<Rightarrow> string option \<Rightarrow> err_slot \<Rightarrow> engine option \<times> err_slot" where
  "ciphra_open io_text w fs data_dir passphrase out_err =
    finish_open
      (rbind (to_str data_dir ''data_dir'') (\<lambda>dir.
       rbind (to_str passphrase ''passphrase'') (\<lambda>pass.
         flatten io_text (engine_open w (fst (fs dir)) (snd (fs dir)) pass))))
      (clear_err out_err)"

definition ciphra_open_remote ::
  "string \<Rightarrow> world \<Rightarrow> (string \<Rightarrow> bytes option \<Rightarrow> server_state option) \<Rightarrow> string option \<Rightarrow> string option \<Rightarrow> string option \<Rightarrow> err_slot
    \<Rightarrow> engine option \<times> err_slot" where
  "ciphra_open_remote io_text w connect addr passphrase server_key_hex out_err =
    finish_open
      (rbind (to_str addr ''addr'') (\<lambda>address.
       rbind (to_str passphrase ''passphrase'') (\<lambda>pass.
       rbind (case server_key_hex of
                None \<Rightarrow> Ok None
              | Some _ \<Rightarrow> rbind (to_str server_key_hex ''server_key_hex'') (\<lambda>h.
                  case parse_key h of Ok k \<Rightarrow> Ok (Some k) | Err e \<Rightarrow> Err (ffi_key_error e))) (\<lambda>pinned.
         flatten io_text
           (case connect address pinned of
              None \<Rightarrow> Err (Storage_error Io)
            | Some server \<Rightarrow> open_remote w server pass)))))
      (clear_err out_err)"

definition ciphra_execute ::
  "display \<Rightarrow> string \<Rightarrow> (nat \<Rightarrow> world) \<Rightarrow> engine option \<Rightarrow> string option \<Rightarrow> err_slot \<Rightarrow> engine option \<times> string option \<times> err_slot" where
  "ciphra_execute d io_text ws db sql out_err =
    (let slot = clear_err out_err;
         (db', result) =
           (case db of
              None \<Rightarrow> (None, Err ''null database handle'')
            | Some e \<Rightarrow>
                (case to_str sql ''sql'' of
                   Err m \<Rightarrow> (Some e, Err m)
                 | Ok statement_text \<Rightarrow>
                     (case execute d ws statement_text e of
                        (e', r) \<Rightarrow> (Some e', map_res (results_to_json d) (flatten io_text r)))))
     in case result of
          Ok json \<Rightarrow> (db', Some (into_c_string json), slot)
        | Err message \<Rightarrow> (db', None, set_err slot message))"

section \<open>A reader for RFC 8259\<close>

datatype json = JNull | JBool bool | JNumber string | JString string | JArray "json list" | JObject "(string \<times> json) list"

definition json_space :: "char \<Rightarrow> bool" where "json_space c \<longleftrightarrow> c = CHR '' '' \<or> c = CHR 0x09 \<or> c = newline \<or> c = CHR 0x0D"

text \<open>A unit of four hexadecimal digits in UTF-8; the two halves of a surrogate pair are not joined.\<close>

definition unit_utf8 :: "nat \<Rightarrow> string option" where
  "unit_utf8 n =
    (if n < 0x80 then Some [char_of n]
     else if n < 0x800 then Some [char_of (0xC0 + n div 64), char_of (0x80 + n mod 64)]
     else if 0xD800 \<le> n \<and> n < 0xE000 then None
     else Some [char_of (0xE0 + n div 4096), char_of (0x80 + n div 64 mod 64), char_of (0x80 + n mod 64)])"

definition simple_escape :: "char \<Rightarrow> char option" where
  "simple_escape c = map_of
    [(dquote, dquote), (backslash, backslash), (CHR ''/'', CHR ''/''), (CHR ''n'', newline), (CHR ''r'', CHR 0x0D), (CHR ''t'', CHR 0x09),
     (CHR ''b'', CHR 0x08), (CHR ''f'', CHR 0x0C)] c"

definition read_unit :: "char \<Rightarrow> char \<Rightarrow> char \<Rightarrow> char \<Rightarrow> string option" where
  "read_unit a b c d =
    (case (hex_value a, hex_value b, hex_value c, hex_value d) of
       (Some w, Some x, Some y, Some z) \<Rightarrow> unit_utf8 (4096 * w + 256 * x + 16 * y + z)
     | _ \<Rightarrow> None)"

text \<open>What follows the opening quote.\<close>

fun read_string :: "string \<Rightarrow> (string \<times> string) option" where
  "read_string [] = None"
| "read_string (c # r) =
    (if c = dquote then Some ([], r)
     else if c = backslash then
       (case r of
          [] \<Rightarrow> None
        | e # r1 \<Rightarrow>
            if e = CHR ''u'' then
              (case r1 of
                 h1 # h2 # h3 # h4 # r2 \<Rightarrow> Option.bind (read_unit h1 h2 h3 h4) (\<lambda>u. map_option (apfst (append u)) (read_string r2))
               | _ \<Rightarrow> None)
            else Option.bind (simple_escape e) (\<lambda>x. map_option (apfst (Cons x)) (read_string r1)))
     else if code c < 0x20 then None
     else map_option (apfst (Cons c)) (read_string r))"

declare read_string.simps(2) [simp del]

definition json_exponent :: "string \<Rightarrow> bool" where
  "json_exponent r \<longleftrightarrow> r \<noteq> [] \<and> hd r \<in> {CHR ''e'', CHR ''E''} \<and>
    (let r1 = (if tl r \<noteq> [] \<and> hd (tl r) \<in> {CHR ''+'', CHR ''-''} then tl (tl r) else tl r) in r1 \<noteq> [] \<and> list_all is_digit r1)"

definition json_fraction :: "string \<Rightarrow> bool" where
  "json_fraction r \<longleftrightarrow> r = [] \<or> json_exponent r \<or>
    (hd r = CHR ''.'' \<and> tl r \<noteq> [] \<and> is_digit (hd (tl r)) \<and> (dropWhile is_digit (tl r) = [] \<or> json_exponent (dropWhile is_digit (tl r))))"

definition json_unsigned :: "string \<Rightarrow> bool" where
  "json_unsigned s \<longleftrightarrow> s \<noteq> [] \<and> is_digit (hd s) \<and> (hd s = CHR ''0'' \<longrightarrow> length (takeWhile is_digit s) = 1) \<and> json_fraction (dropWhile is_digit s)"

definition number_char :: "char \<Rightarrow> bool" where
  "number_char c \<longleftrightarrow> is_digit c \<or> c \<in> {CHR ''+'', CHR ''-'', CHR ''.'', CHR ''e'', CHR ''E''}"

definition json_number :: "string \<Rightarrow> bool" where
  "json_number s \<longleftrightarrow> list_all number_char s \<and> (case s of [] \<Rightarrow> False | c # r \<Rightarrow> if c = CHR ''-'' then json_unsigned r else json_unsigned s)"

text \<open>Values, the rest of an array and the rest of an object; each level of nesting and each element takes one unit of fuel.\<close>

fun read_value :: "nat \<Rightarrow> string \<Rightarrow> (json \<times> string) option"
  and read_elements :: "nat \<Rightarrow> string \<Rightarrow> (json list \<times> string) option"
  and read_members :: "nat \<Rightarrow> string \<Rightarrow> ((string \<times> json) list \<times> string) option" where
  "read_value 0 s = None"
| "read_value (Suc n) s =
    (case dropWhile json_space s of
       [] \<Rightarrow> None
     | c # r \<Rightarrow>
         if c = dquote then map_option (apfst JString) (read_string r)
         else if c = CHR ''['' then
           (if take 1 (dropWhile json_space r) = '']'' then Some (JArray [], tl (dropWhile json_space r))
            else map_option (apfst JArray) (read_elements n r))
         else if c = CHR ''{'' then
           (if take 1 (dropWhile json_space r) = ''}'' then Some (JObject [], tl (dropWhile json_space r))
            else map_option (apfst JObject) (read_members n r))
         else if starts_with (c # r) ''null'' then Some (JNull, drop 4 (c # r))
         else if starts_with (c # r) ''true'' then Some (JBool True, drop 4 (c # r))
         else if starts_with (c # r) ''false'' then Some (JBool False, drop 5 (c # r))
         else if json_number (takeWhile number_char (c # r)) then
           Some (JNumber (takeWhile number_char (c # r)), dropWhile number_char (c # r))
         else None)"
| "read_elements 0 s = None"
| "read_elements (Suc n) s =
    Option.bind (read_value n s) (\<lambda>(v, r).
      case dropWhile json_space r of
        [] \<Rightarrow> None
      | c # r1 \<Rightarrow>
          if c = CHR '','' then map_option (apfst (Cons v)) (read_elements n r1)
          else if c = CHR '']'' then Some ([v], r1)
          else None)"
| "read_members 0 s = None"
| "read_members (Suc n) s =
    (case dropWhile json_space s of
       [] \<Rightarrow> None
     | q # r \<Rightarrow>
         if q \<noteq> dquote then None
         else Option.bind (read_string r) (\<lambda>(k, r1).
           case dropWhile json_space r1 of
             [] \<Rightarrow> None
           | c # r2 \<Rightarrow>
               if c \<noteq> CHR '':'' then None
               else Option.bind (read_value n r2) (\<lambda>(v, r3).
                 case dropWhile json_space r3 of
                   [] \<Rightarrow> None
                 | c # r4 \<Rightarrow>
                     if c = CHR '','' then map_option (apfst (Cons (k, v))) (read_members n r4)
                     else if c = CHR ''}'' then Some ([(k, v)], r4)
                     else None)))"

text \<open>A whole document: one value and nothing but white space after it.\<close>

definition read_json :: "string \<Rightarrow> json option" where
  "read_json s = Option.bind (read_value (length s) s) (\<lambda>(v, r). if list_all json_space r then Some v else None)"

section \<open>What the encoder writes\<close>

text \<open>The documents for values and results.\<close>

fun value_json :: "display \<Rightarrow> val \<Rightarrow> json" where
  "value_json d VNull = JNull"
| "value_json d (VInt n) = JNumber (show_int (sint n))"
| "value_json d (VReal x) = (if f64_is_finite x then JNumber (d_f64 d x) else JNull)"
| "value_json d (VText s) = JString s"
| "value_json d (VVector v) = JArray (map (\<lambda>x. if f32_is_finite x then JNumber (d_f32 d x) else JNull) v)"

definition tagged :: "string \<Rightarrow> (string \<times> json) list \<Rightarrow> json" where
  "tagged kind ms = JObject ((''kind'', JString kind) # ms)"

fun result_json :: "display \<Rightarrow> query_result \<Rightarrow> json" where
  "result_json d (Created name) = tagged ''created'' [(''name'', JString name)]"
| "result_json d (Dropped name) = tagged ''dropped'' [(''name'', JString name)]"
| "result_json d (Index_created t c r) = tagged ''index_created'' [(''table'', JString t), (''column'', JString c), (''range'', JBool r)]"
| "result_json d (Index_dropped t c r) = tagged ''index_dropped'' [(''table'', JString t), (''column'', JString c), (''range'', JBool r)]"
| "result_json d (Inserted n) = tagged ''inserted'' [(''count'', JNumber (show_nat n))]"
| "result_json d (Updated n) = tagged ''updated'' [(''count'', JNumber (show_nat n))]"
| "result_json d (Deleted n) = tagged ''deleted'' [(''count'', JNumber (show_nat n))]"
| "result_json d (Rows columns rows) =
    tagged ''rows'' [(''columns'', JArray (map JString columns)), (''rows'', JArray (map (\<lambda>row. JArray (map (value_json d) row)) rows))]"
| "result_json d Begun = tagged ''begin'' []"
| "result_json d Committed = tagged ''committed'' []"
| "result_json d Rolled_back = tagged ''rolled_back'' []"

text \<open>Strings.\<close>

lemma hex4_control: "n < 0x20 \<Longrightarrow> hex4 n = [hex_digit 0, hex_digit 0, hex_digit (n div 16), hex_digit (n mod 16)]"
  by (simp add: hex4_def)

lemma read_unit_control: "n < 0x20 \<Longrightarrow> read_unit (hex_digit 0) (hex_digit 0) (hex_digit (n div 16)) (hex_digit (n mod 16)) = Some [char_of n]"
  by (simp add: read_unit_def unit_utf8_def)

lemma special_chars: "dquote \<noteq> backslash" "backslash \<noteq> dquote" "code dquote = 34" "code backslash = 92" "code newline = 10"
  by (simp_all add: dquote_def backslash_def newline_def code_def)

lemma read_escaped: "read_string (escape_char c @ r) = map_option (apfst (Cons c)) (read_string r)"
proof (cases "code c < 0x20 \<and> c \<notin> {newline, CHR 0x0D, CHR 0x09, CHR 0x08, CHR 0x0C}")
  case True
  then have "escape_char c = [backslash, CHR ''u''] @ hex4 (code c)" using special_chars by (auto simp: escape_char_def)
  moreover have "char_of (code c) = c" by (simp add: code_def)
  ultimately show ?thesis
    using True read_unit_control [of "code c"] by (simp add: hex4_control read_string.simps(2) special_chars)
next
  case False
  then show ?thesis
    by (auto simp: escape_char_def read_string.simps(2) special_chars simple_escape_def newline_def backslash_def dquote_def)
qed

lemma read_encoded: "read_string (concat (map escape_char s) @ dquote # r) = Some (s, r)"
  by (induction s) (simp_all add: read_escaped, simp add: read_string.simps(2))

text \<open>
  \<open>t\<close> is read as \<open>v\<close>, whatever delimiter follows, with fuel for each of its bytes; it starts with no white space and
  no closing bracket.
\<close>

definition delimited :: "string \<Rightarrow> bool" where
  "delimited r \<longleftrightarrow> r = [] \<or> hd r \<in> {CHR '','', CHR '']'', CHR ''}''}"

definition json_text :: "json \<Rightarrow> string \<Rightarrow> bool" where
  "json_text v t \<longleftrightarrow> t \<noteq> [] \<and> \<not> json_space (hd t) \<and> hd t \<notin> {CHR '']'', CHR ''}''} \<and>
    (\<forall>n r. length t \<le> n \<longrightarrow> delimited r \<longrightarrow> read_value n (t @ r) = Some (v, r))"

lemma json_textD:
  assumes "json_text v t"
  shows "t \<noteq> []" "\<not> json_space (hd t)" "hd t \<noteq> CHR '']''" "hd t \<noteq> CHR ''}''" "length t \<le> n \<Longrightarrow> delimited r \<Longrightarrow> read_value n (t @ r) = Some (v, r)"
  using assms by (simp_all add: json_text_def)

lemma json_textI:
  assumes "t = c # u" "\<not> json_space c" "c \<noteq> CHR '']''" "c \<noteq> CHR ''}''"
    and "\<And>n r. length u \<le> n \<Longrightarrow> delimited r \<Longrightarrow> read_value (Suc n) (c # u @ r) = Some (v, r)"
  shows "json_text v t"
  unfolding json_text_def
proof (intro conjI allI impI)
  fix n r assume "length t \<le> n" "delimited r"
  then show "read_value n (t @ r) = Some (v, r)" using assms(1,5) by (cases n) auto
qed (use assms in auto)

lemma json_spaces: "\<not> json_space dquote" "\<not> json_space (CHR ''['')" "\<not> json_space (CHR ''{'')" "\<not> json_space (CHR '','')"
  "\<not> json_space (CHR '']'')" "\<not> json_space (CHR ''}'')" "\<not> json_space (CHR '':'')"
  by (simp_all add: json_space_def dquote_def newline_def)

lemma string_text: "json_text (JString s) (encode_str s)"
  unfolding encode_str_def by (rule json_textI [OF refl]) (simp_all add: json_spaces read_encoded, simp_all add: dquote_def)

lemma constant_texts: "json_text JNull ''null''" "json_text (JBool True) ''true''" "json_text (JBool False) ''false''"
  by (rule json_textI [OF refl], simp_all add: json_space_def newline_def dquote_def starts_with_def)+

lemma number_ends: "delimited r \<Longrightarrow> list_all number_char s \<Longrightarrow> takeWhile number_char (s @ r) = s \<and> dropWhile number_char (s @ r) = r"
proof -
  assume r: "delimited r" and s: "list_all number_char s"
  have "r = [] \<or> \<not> number_char (hd r)" using r by (auto simp: delimited_def number_char_def is_digit_def code_def)
  then show ?thesis using s by (cases r) (simp_all add: takeWhile_append dropWhile_append list_all_iff)
qed

lemma number_text:
  assumes "json_number s"
  shows "json_text (JNumber s) s"
proof -
  obtain c u where s: "s = c # u" using assms by (auto simp: json_number_def split: list.splits)
  have c: "c = CHR ''-'' \<or> is_digit c" and all: "list_all number_char s"
    using assms s by (auto simp: json_number_def json_unsigned_def split: if_splits)
  have "code c = 45 \<or> 48 \<le> code c \<and> code c \<le> 57" using c by (auto simp: is_digit_def code_def)
  then have plain: "c \<noteq> dquote \<and> c \<notin> set '' []{}ntf'' \<and> c \<noteq> CHR 0x09 \<and> c \<noteq> newline \<and> c \<noteq> CHR 0x0D"
    by (auto simp: code_def dquote_def newline_def)
  show ?thesis
  proof (rule json_textI [OF s])
    fix n r assume "delimited (r :: string)"
    from number_ends [OF this all] plain assms show "read_value (Suc n) (c # u @ r) = Some (JNumber s, r)"
      by (simp add: s json_space_def starts_with_def)
  qed (use plain in \<open>auto simp: json_space_def\<close>)
qed

text \<open>Arrays and objects.\<close>

lemma delimiters: "delimited (CHR '','' # r)" "delimited (CHR '']'' # r)" "delimited (CHR ''}'' # r)"
  by (simp_all add: delimited_def)

lemma elements_text:
  assumes "list_all2 json_text vs ts" "ts \<noteq> []" "length (join '','' ts) < n"
  shows "read_elements n (join '','' ts @ CHR '']'' # r) = Some (vs, r)"
  using assms
proof (induction "'',''" ts arbitrary: vs n rule: join.induct)
  case (2 t)
  then obtain v where v: "vs = [v]" "json_text v t" by (auto simp: list_all2_Cons2)
  obtain m where "n = Suc m" "length t \<le> m" using 2(3) by (cases n) auto
  then show ?case using json_textD(5) [OF v(2), of m "CHR '']'' # r"] v(1) by (simp add: delimiters json_spaces)
next
  case (3 t u ts)
  then obtain v ws where v: "vs = v # ws" "json_text v t" "list_all2 json_text ws (u # ts)" by (auto simp: list_all2_Cons2)
  obtain m where m: "n = Suc m" "length t \<le> m" "length (join '','' (u # ts)) < m" using 3(4) by (cases n) auto
  have "read_value m (t @ CHR '','' # join '','' (u # ts) @ CHR '']'' # r) = Some (v, CHR '','' # join '','' (u # ts) @ CHR '']'' # r)"
    by (rule json_textD(5) [OF v(2) m(2)]) (simp add: delimiters)
  then show ?case using 3(1) [OF v(3) _ m(3)] v(1) m(1) by (simp add: json_spaces)
qed simp

lemma join_start: "ts \<noteq> [] \<Longrightarrow> hd ts \<noteq> [] \<Longrightarrow> \<exists>u. join sep ts = hd ts @ u"
  by (cases "(sep, ts)" rule: join.cases) auto

lemma array_text:
  assumes "list_all2 json_text vs ts"
  shows "json_text (JArray vs) (''['' @ join '','' ts @ '']'')"
proof (cases "ts = []")
  case True
  then show ?thesis using assms by (intro json_textI [of _ "CHR ''[''" "'']''"]) (simp_all add: json_spaces, simp add: dquote_def)
next
  case False
  then obtain v where "json_text v (hd ts)" using assms by (cases ts) (auto simp: list_all2_Cons2)
  note t = json_textD(1-4) [OF this]
  obtain u where "join '','' ts = hd ts @ u" using join_start [OF False t(1)] by blast
  then have start: "take 1 (dropWhile json_space (join '','' ts @ r)) \<noteq> '']''" for r using t(1-3) by (cases "hd ts") auto
  show ?thesis
  proof (rule json_textI)
    fix n r assume "length (join '','' ts @ '']'') \<le> n"
    then show "read_value (Suc n) (CHR ''['' # (join '','' ts @ '']'') @ r) = Some (JArray vs, r)"
      using elements_text [OF assms False, of n r] start [of "CHR '']'' # r"] by (simp add: json_spaces dquote_def)
  qed (simp_all add: json_spaces)
qed

definition member :: "string \<Rightarrow> string \<Rightarrow> string" where "member k t = encode_str k @ '':'' @ t"

lemma read_member:
  assumes "json_text v t" "length t \<le> n" "delimited (c # r)" "\<not> json_space c"
  shows "read_members (Suc n) (member k t @ c # r) =
    (if c = CHR '','' then map_option (apfst (Cons (k, v))) (read_members n r) else if c = CHR ''}'' then Some ([(k, v)], r) else None)"
  using json_textD(5) [OF assms(1-3)] assms(4)
  by (simp add: member_def encode_str_def json_spaces read_encoded)

lemma members_text:
  assumes "list_all2 (\<lambda>(k, v) (k', t). k = k' \<and> json_text v t) ms kts" "kts \<noteq> []" "length (join '','' (map (\<lambda>(k, t). member k t) kts)) < n"
  shows "read_members n (join '','' (map (\<lambda>(k, t). member k t) kts) @ CHR ''}'' # r) = Some (ms, r)"
  using assms
proof (induction kts arbitrary: ms n rule: list.induct)
  case (Cons kt kts)
  then obtain k t v ws where kt: "kt = (k, t)" "ms = (k, v) # ws" "json_text v t"
      "list_all2 (\<lambda>(k, v) (k', t). k = k' \<and> json_text v t) ws kts"
    by (cases kt) (auto simp: list_all2_Cons2)
  obtain m where n: "n = Suc m" using Cons.prems(3) by (cases n) auto
  show ?case
  proof (cases kts)
    case Nil
    then have "length t \<le> m" using Cons.prems(3) kt(1) n by (simp add: member_def)
    then show ?thesis using read_member [OF kt(3), of m "CHR ''}''" r k] Nil kt n by (simp add: delimiters json_spaces)
  next
    case (Cons x xs)
    then have len: "length t \<le> m" "length (join '','' (map (\<lambda>(k, t). member k t) kts)) < m"
      using Cons.prems(3) kt(1) n by (simp_all add: member_def)
    have "read_members m (join '','' (map (\<lambda>(k, t). member k t) kts) @ CHR ''}'' # r) = Some (ws, r)"
      using Cons.IH [OF kt(4) _ len(2)] Cons by simp
    then show ?thesis
      using read_member [OF kt(3) len(1), of "CHR '',''" "join '','' (map (\<lambda>(k, t). member k t) kts) @ CHR ''}'' # r" k] Cons kt n
      by (simp add: delimiters json_spaces)
  qed
qed simp

lemma object_text:
  assumes "list_all2 (\<lambda>(k, v) (k', t). k = k' \<and> json_text v t) ms kts" "kts \<noteq> []"
  shows "json_text (JObject ms) (''{'' @ join '','' (map (\<lambda>(k, t). member k t) kts) @ ''}'')"
proof (rule json_textI)
  have "\<exists>u. join '','' (map (\<lambda>(k, t). member k t) kts) = dquote # u"
    using assms(2) join_start [of "map (\<lambda>(k, t). member k t) kts" "'',''"] by (cases kts) (auto simp: member_def encode_str_def)
  then have start: "take 1 (dropWhile json_space (join '','' (map (\<lambda>(k, t). member k t) kts) @ r)) \<noteq> ''}''" for r
    by (auto simp: json_spaces) (simp add: dquote_def)
  fix n r assume "length (join '','' (map (\<lambda>(k, t). member k t) kts) @ ''}'') \<le> n"
  then show "read_value (Suc n) (CHR ''{'' # (join '','' (map (\<lambda>(k, t). member k t) kts) @ ''}'') @ r) = Some (JObject ms, r)"
    using members_text [OF assms, of n r] start [of "CHR ''}'' # r"] by (simp add: json_spaces dquote_def)
qed (simp_all add: json_spaces)

section \<open>Results read back\<close>

text \<open>The standard library writes a finite float as a decimal number.\<close>

definition json_floats :: "display \<Rightarrow> bool" where
  "json_floats d \<longleftrightarrow> (\<forall>x. f64_is_finite x \<longrightarrow> json_number (d_f64 d x)) \<and> (\<forall>x. f32_is_finite x \<longrightarrow> json_number (d_f32 d x))"

lemma show_nat_start: "hd (show_nat n) = CHR ''0'' \<Longrightarrow> n = 0"
proof (induction n rule: show_nat.induct)
  case (1 n)
  show ?case
  proof (cases "n < 10")
    case True
    then have "code (hd (show_nat n)) = 48 + n" by (simp add: show_nat.simps [of n] code_def)
    then show ?thesis using 1(2) by (simp add: code_def)
  next
    case False
    then have "hd (show_nat n) = hd (show_nat (n div 10))" using show_nat_digits [of "n div 10"] by (simp add: show_nat.simps [of n])
    then show ?thesis using 1 False by simp
  qed
qed

lemma show_nat_unsigned_number: "json_unsigned (show_nat n)"
proof -
  have digits: "takeWhile is_digit (show_nat n) = show_nat n" "dropWhile is_digit (show_nat n) = []" "show_nat n \<noteq> []" "is_digit (hd (show_nat n))"
    using show_nat_digits [of n] by (simp_all add: list_all_iff)
  have "hd (show_nat n) = CHR ''0'' \<Longrightarrow> length (show_nat n) = 1" using show_nat_start [of n] by (simp add: show_nat.simps [of 0])
  then show ?thesis using digits(3,4) by (simp add: json_unsigned_def json_fraction_def digits(1,2))
qed

lemma show_nat_number: "json_number (show_nat n)"
proof -
  have "hd (show_nat n) \<noteq> CHR ''-''" using show_nat_digits [of n] by (cases "show_nat n") (auto simp: is_digit_def code_def)
  moreover have "list_all number_char (show_nat n)" using show_nat_digits [of n] by (auto simp: list_all_iff number_char_def)
  moreover obtain c r where "show_nat n = c # r" using show_nat_digits [of n] by (cases "show_nat n") auto
  ultimately show ?thesis using show_nat_unsigned_number [of n] by (simp add: json_number_def)
qed

lemma show_int_json: "json_number (show_int k)"
  using show_nat_number [of "nat (- k)"] show_nat_number [of "nat k"] show_nat_unsigned_number [of "nat (- k)"]
  by (auto simp: show_int_def json_number_def number_char_def)

lemma value_text: "json_floats d \<Longrightarrow> json_text (value_json d v) (encode_json_value d v)"
proof (cases v)
  case (VVector xs)
  assume d: "json_floats d"
  have "list_all2 json_text (map (\<lambda>x. if f32_is_finite x then JNumber (d_f32 d x) else JNull) xs) (map (\<lambda>x. if f32_is_finite x then d_f32 d x else ''null'') xs)"
    using d by (induction xs) (simp_all add: json_floats_def number_text constant_texts)
  from array_text [OF this] show ?thesis by (simp add: VVector)
qed (auto simp: json_floats_def constant_texts string_text intro!: number_text show_int_json)

lemma list_text: "(\<And>x. x \<in> set xs \<Longrightarrow> json_text (f x) (g x)) \<Longrightarrow> list_all2 json_text (map f xs) (map g xs)"
  by (induction xs) simp_all

lemma plain_names: "encode_str s = json_quoted s" if "list_all (\<lambda>c. escape_char c = [c]) s"
proof -
  have "concat (map escape_char s) = s" using that by (induction s) simp_all
  then show ?thesis by (simp add: encode_str_def json_quoted_def)
qed

lemma letters_plain:
  assumes "ident_char c"
  shows "escape_char c = [c]"
proof -
  have "48 \<le> code c" "code c \<noteq> 92" using assms by (auto simp: ident_char_def ident_start_def is_digit_def is_lower_def is_upper_def) (simp_all add: code_def)
  then show ?thesis using special_chars(3-5) by (auto simp: escape_char_def) (simp_all add: code_def)
qed

lemma tagged_text:
  assumes "list_all ident_char kind" "list_all (\<lambda>(k, t). list_all ident_char k) kts"
    and "list_all2 (\<lambda>(k, v) (k', t). k = k' \<and> json_text v t) ms kts"
  shows "json_text (tagged kind ms) (''{'' @ join '','' (map (\<lambda>(k, t). json_quoted k @ '':'' @ t) ((''kind'', json_quoted kind) # kts)) @ ''}'')"
proof -
  have plain: "list_all ident_char s \<Longrightarrow> json_quoted s = encode_str s" for s
    using plain_names [of s] letters_plain by (simp add: list_all_iff)
  have "list_all2 (\<lambda>(k, v) (k', t). k = k' \<and> json_text v t) ((''kind'', JString kind) # ms) ((''kind'', json_quoted kind) # kts)"
    using assms(3) string_text [of kind] plain [OF assms(1)] by simp
  from object_text [OF this] have obj: "json_text (tagged kind ms) (''{'' @ join '','' (map (\<lambda>(k, t). member k t) ((''kind'', json_quoted kind) # kts)) @ ''}'')"
    by (simp add: tagged_def)
  have "list_all ident_char ''kind''" by code_simp
  then have "map (\<lambda>(k, t). member k t) ((''kind'', json_quoted kind) # kts) = map (\<lambda>(k, t). json_quoted k @ '':'' @ t) ((''kind'', json_quoted kind) # kts)"
    using assms(2) plain by (auto simp: member_def list_all_iff)
  then show ?thesis using obj by (simp only:)
qed

lemma result_text:
  assumes "json_floats d"
  shows "json_text (result_json d r) (encode_result d r)"
proof -
  have kinds: "list_all (list_all ident_char) [''created'', ''dropped'', ''index_created'', ''index_dropped'', ''inserted'', ''updated'', ''deleted'',
      ''rows'', ''begin'', ''committed'', ''rolled_back'', ''name'', ''table'', ''column'', ''columns'', ''range'', ''count'']" by code_simp
  have name: "json_text (tagged k [(''name'', JString n)]) (encode_named k n)" if "list_all ident_char k" for k n
    using tagged_text [OF that, of "[(''name'', encode_str n)]" "[(''name'', JString n)]"] kinds string_text by (simp add: encode_named_def)
  have index: "json_text (tagged k [(''table'', JString t), (''column'', JString c), (''range'', JBool b)]) (encode_index k t c b)"
    if "list_all ident_char k" for k t c b
    using tagged_text [OF that, of "[(''table'', encode_str t), (''column'', encode_str c), (''range'', if b then ''true'' else ''false'')]"
        "[(''table'', JString t), (''column'', JString c), (''range'', JBool b)]"] kinds string_text constant_texts(2,3)
    by (cases b) (simp_all add: encode_index_def)
  have count: "json_text (tagged k [(''count'', JNumber (show_nat n))]) (encode_count k n)" if "list_all ident_char k" for k n
    using tagged_text [OF that, of "[(''count'', show_nat n)]" "[(''count'', JNumber (show_nat n))]"] kinds number_text [OF show_nat_number]
    by (simp add: encode_count_def)
  have bare: "json_text (tagged k []) (''{'' @ json_quoted ''kind'' @ '':'' @ json_quoted k @ ''}'')" if "list_all ident_char k" for k
    using tagged_text [OF that, of "[]" "[]"] by simp
  have pair: "json_text (tagged ''rows'' [(''columns'', a), (''rows'', b)])
      (''{'' @ json_quoted ''kind'' @ '':'' @ json_quoted ''rows'' @ '','' @ json_quoted ''columns'' @ '':'' @ x @ '','' @ json_quoted ''rows'' @ '':'' @ y @ ''}'')"
    if "json_text a x" "json_text b y" for a b x y
    using tagged_text [of "''rows''" "[(''columns'', x), (''rows'', y)]" "[(''columns'', a), (''rows'', b)]"] kinds that by simp
  show ?thesis
  proof (cases r)
    case (Rows columns rows)
    have "json_text (JArray (map JString columns)) (''['' @ join '','' (map encode_str columns) @ '']'')"
      by (rule array_text) (rule list_text, rule string_text)
    from pair [OF this, of "JArray (map (\<lambda>row. JArray (map (value_json d) row)) rows)"
        "''['' @ join '','' (map (\<lambda>row. ''['' @ join '','' (map (encode_json_value d) row) @ '']'') rows) @ '']''"]
    show ?thesis using assms by (simp add: Rows array_text [simplified] list_text value_text)
  qed (use kinds name index count bare in simp_all)
qed

lemma results_text: "json_floats d \<Longrightarrow> json_text (JArray (map (result_json d) rs)) (results_to_json d rs)"
  unfolding results_to_json_def by (rule array_text) (rule list_text, rule result_text)

lemma read_results: "json_floats d \<Longrightarrow> read_json (results_to_json d rs) = Some (JArray (map (result_json d) rs))"
  using json_textD(5) [OF results_text [of d rs], of "length (results_to_json d rs)" "[]"] by (simp add: read_json_def delimited_def)

text \<open>The text holds no zero byte, so that it crosses the boundary unchanged.\<close>

lemma into_c_string_same: "CHR 0x00 \<notin> set s \<Longrightarrow> into_c_string s = s"
  by (induction s) (auto simp: into_c_string_def)

lemma set_join: "set (join sep ts) \<subseteq> set sep \<union> \<Union> (set ` set ts)"
  by (induction sep ts rule: join.induct) auto

lemma zero_join: "CHR 0x00 \<notin> set sep \<Longrightarrow> (\<And>t. t \<in> set ts \<Longrightarrow> CHR 0x00 \<notin> set t) \<Longrightarrow> CHR 0x00 \<notin> set (join sep ts)"
  using set_join [of sep ts] by auto

lemma zero_escape: "CHR 0x00 \<notin> set (escape_char c)"
proof -
  have "CHR 0x00 \<noteq> hex_digit n" if "n < 16" for n
  proof
    assume eq: "CHR 0x00 = hex_digit n"
    have "code (hex_digit n) = 0" unfolding eq [symmetric] by (simp add: code_def)
    then show False using code_hex_digit [OF that] by (simp split: if_splits)
  qed
  then have "CHR 0x00 \<notin> set (hex4 n)" for n by (simp add: hex4_def)
  moreover have "c = CHR 0x00 \<Longrightarrow> code c < 0x20" by (simp add: code_def)
  ultimately show ?thesis by (auto simp: escape_char_def backslash_def dquote_def)
qed

lemma zero_number: "json_number s \<Longrightarrow> CHR 0x00 \<notin> set s"
  by (auto simp: json_number_def list_all_iff number_char_def is_digit_def code_def)

lemma zero_texts:
  "CHR 0x00 \<notin> set (encode_str s)" "CHR 0x00 \<notin> set (show_nat n)" "CHR 0x00 \<notin> set (show_int k)"
  "CHR 0x00 \<notin> set q \<Longrightarrow> CHR 0x00 \<notin> set (json_quoted q)"
  using zero_escape zero_number [OF show_nat_number] zero_number [OF show_int_json]
  by (auto simp: encode_str_def json_quoted_def dquote_def)

lemma zero_value: "json_floats d \<Longrightarrow> CHR 0x00 \<notin> set (encode_json_value d v)"
proof (cases v)
  case (VVector xs)
  assume d: "json_floats d"
  have "CHR 0x00 \<notin> set (join '','' (map (\<lambda>x. if f32_is_finite x then d_f32 d x else ''null'') xs))"
    by (rule zero_join) (use d zero_number in \<open>auto simp: json_floats_def split: if_splits\<close>)
  then show ?thesis by (simp add: VVector)
qed (auto simp: json_floats_def zero_texts dest: zero_number split: if_splits)

lemma zero_result: "json_floats d \<Longrightarrow> CHR 0x00 \<notin> set (encode_result d r)"
proof (cases r)
  case (Rows columns rows)
  assume d: "json_floats d"
  have "CHR 0x00 \<notin> set (join '','' (map encode_str columns))" by (rule zero_join) (auto simp: zero_texts)
  moreover have "CHR 0x00 \<notin> set (join '','' (map (\<lambda>row. ''['' @ join '','' (map (encode_json_value d) row) @ '']'') rows))"
  proof (rule zero_join)
    fix t assume "t \<in> set (map (\<lambda>row. ''['' @ join '','' (map (encode_json_value d) row) @ '']'') rows)"
    moreover have "CHR 0x00 \<notin> set (join '','' (map (encode_json_value d) row))" for row
      by (rule zero_join) (auto simp: zero_value [OF d])
    ultimately show "CHR 0x00 \<notin> set t" by auto
  qed simp
  ultimately show ?thesis by (simp add: Rows zero_texts)
qed (auto simp: encode_named_def encode_index_def encode_count_def zero_texts)

lemma json_unchanged: "json_floats d \<Longrightarrow> into_c_string (results_to_json d rs) = results_to_json d rs"
proof (rule into_c_string_same)
  assume "json_floats d"
  then have "CHR 0x00 \<notin> set (join '','' (map (encode_result d) rs))" by (intro zero_join) (auto simp: zero_result)
  then show "CHR 0x00 \<notin> set (results_to_json d rs)" by (simp add: results_to_json_def)
qed

section \<open>The contract of the interface\<close>

text \<open>A failed call leaves a message if there is a slot for it.\<close>

definition reported :: "err_slot \<Rightarrow> err_slot \<Rightarrow> bool" where
  "reported out_err slot \<longleftrightarrow> (out_err = No_slot \<and> slot = No_slot) \<or> (\<exists>m. slot = Slot (Some m))"

lemma reported_set: "reported out_err (set_err (clear_err out_err) m)"
  by (cases out_err) (simp_all add: reported_def)

text \<open>
  C24: what \<open>ciphra_execute\<close> hands to a driver. It returns text exactly when the handle and the SQL are valid and every
  statement succeeds; then the error slot is cleared and the text is JSON that a reader of RFC 8259 takes back to the
  results, whatever characters the rows hold. Otherwise it returns null with a message in the slot, panics included,
  and an invalid handle or text leaves the database as it was. The formatting of finite floats is the standard library's.
\<close>

theorem execute_results_read_back:
  assumes "json_floats d"
  shows "case ciphra_execute d io_text ws db sql out_err of
    (db', Some json, slot) \<Rightarrow> slot = clear_err out_err \<and>
      (\<exists>e e' s results. db = Some e \<and> sql = Some s \<and> utf8_valid (as_bytes s) \<and> execute d ws s e = (e', Ok results) \<and>
        db' = Some e' \<and> read_json json = Some (JArray (map (result_json d) results)))
  | (db', None, slot) \<Rightarrow> reported out_err slot \<and>
      (case (db, sql) of
         (Some e, Some s) \<Rightarrow> if utf8_valid (as_bytes s) then \<exists>e' err. execute d ws s e = (e', Err err) \<and> db' = Some e' else db' = db
       | _ \<Rightarrow> db' = db)"
proof (cases db)
  case None
  then show ?thesis by (simp add: ciphra_execute_def Let_def reported_set)
next
  case (Some e)
  show ?thesis
  proof (cases "to_str sql ''sql''")
    case (Err m)
    then show ?thesis
      using Some by (auto simp: ciphra_execute_def Let_def reported_set to_str_def split: option.splits if_splits)
  next
    case (Ok s)
    then have s: "sql = Some s" "utf8_valid (as_bytes s)" by (auto simp: to_str_def split: option.splits if_splits)
    obtain e' r where r: "execute d ws s e = (e', r)" by fastforce
    show ?thesis
    proof (cases r)
      case (Ok results)
      then show ?thesis
        using Some s r \<open>to_str sql ''sql'' = Ok s\<close> read_results [OF assms] json_unchanged [OF assms] by (simp add: ciphra_execute_def flatten_def)
    next
      case (Err err)
      then obtain m where "flatten io_text r = Err m" by (cases err) (auto simp: flatten_def)
      then show ?thesis using Some s r Err \<open>to_str sql ''sql'' = Ok s\<close> by (simp add: ciphra_execute_def reported_set)
    qed
  qed
qed

definition demo_display :: display where "demo_display = \<lparr>d_f64 = (\<lambda>_. ''0.5''), d_f32 = (\<lambda>_. ''0''), d_char = (\<lambda>c. c)\<rparr>"

theorem execute_results_read_back_witness:
  "json_floats demo_display \<and>
   (\<forall>ws e. \<exists>json. ciphra_execute demo_display [] ws (Some e) (Some []) (Slot None) = (Some e, Some json, Slot None) \<and> read_json json = Some (JArray []))"
proof (intro conjI allI)
  have "json_number ''0.5''" "json_number ''0''" by code_simp+
  then show floats: "json_floats demo_display" by (simp add: json_floats_def demo_display_def)
  fix ws e
  have "execute demo_display ws [] e = (e, Ok [])" by (simp add: execute_def parse_statements_def tokenize_Nil statement_list_Nil)
  with execute_results_read_back [OF floats, where io_text = "[]" and ws = ws and db = "Some e" and sql = "Some []" and out_err = "Slot None"]
  show "\<exists>json. ciphra_execute demo_display [] ws (Some e) (Some []) (Slot None) = (Some e, Some json, Slot None) \<and> read_json json = Some (JArray [])"
    by (auto simp: as_bytes_def split: prod.splits option.splits)
qed

end
