(* ===== verification/Engine_Audit.thy ===== *)
theory Engine_Audit
  imports Statements
begin

text \<open>
  Every change a statement makes to a local database is recorded in the audit chain. The store of a
  local database is exact in memory under every outcome of the disk, so the theorems about statements
  hold for every world whose random nonces have their 12 bytes; those about sessions leave out a
  \<open>COMMIT\<close> that fails, and the last theorem shows what it breaks. Remote databases are not covered, and
  the log bytes are not: \<open>store_view\<close> is the table in memory with the transaction's overlay.
\<close>

section \<open>Local stores\<close>

definition local_ok :: "store \<Rightarrow> bool" where
  "local_ok s \<longleftrightarrow> (case sto_backend s of Local st \<Rightarrow> bt_wf (st_map st) | Remote _ \<Rightarrow> False)
    \<and> (case sto_overlay s of None \<Rightarrow> True | Some ov \<Rightarrow> bt_wf ov)"

lemma local_get: "local_ok s \<Longrightarrow> store_get env s k = Ok (store_view s k)"
  by (auto simp: local_ok_def store_get_def store_view_def backend_view_def storage_get_def layer_def
      split: option.splits backend.splits)

text \<open>The sorted listing of a view under a prefix.\<close>

definition listing :: "(bytes \<rightharpoonup> bytes) \<Rightarrow> bytes \<Rightarrow> (bytes \<times> bytes) list \<Rightarrow> bool" where
  "listing m p es \<longleftrightarrow> bt_wf es \<and> map_of es = restrict_prefix m p"

lemma listing_unique: "listing m p es \<Longrightarrow> listing m p es' \<Longrightarrow> es = es'"
  by (auto simp: listing_def intro: bt_wf_eqI)

lemma listing_mem: "listing m p es \<Longrightarrow> (k, v) \<in> set es \<longleftrightarrow> prefix p k \<and> m k = Some v"
  by (auto simp: listing_def bt_wf_mem_iff restrict_prefix_def)

lemma local_scan:
  assumes "local_ok s"
  shows "\<exists>es. store_scan_prefix env s p = Ok es \<and> listing (store_view s) p es"
proof -
  obtain st where st: "sto_backend s = Local st" "bt_wf (st_map st)"
    using assms by (auto simp: local_ok_def split: backend.splits)
  have base: "listing (backend_view (Local st)) p (storage_scan_prefix st p)"
  proof -
    have "map_of (filter (\<lambda>(k, v). prefix p k) m) k = restrict_prefix (map_of m) p k" for m :: kvmap and k
      by (induction m) (auto simp: restrict_prefix_def)
    then show ?thesis using st(2)
      by (auto simp: listing_def scan_prefix_filter backend_view_def fun_eq_iff bt_wf_def sorted_wrt_map sorted_wrt_filter)
  qed
  show ?thesis
  proof (cases "sto_overlay s")
    case None
    with base st show ?thesis by (simp add: store_scan_prefix_def bt_collect_id store_view_def listing_def)
  next
    case (Some ov)
    let ?ov = "filter (\<lambda>e. prefix p (fst e)) ov"
    have "bt_wf ?ov" using assms Some by (simp add: local_ok_def bt_wf_def sorted_wrt_map sorted_wrt_filter)
    from merge_overlay [OF this, of "storage_scan_prefix st p"] base Some st show ?thesis
      by (simp add: store_scan_prefix_def bt_collect_id store_view_def foldl_filter layer_restrict listing_def)
  qed
qed

lemma local_commit:
  assumes "local_ok s" "list_all entry_built b" "store_commit env s b = (s', r)"
  shows "local_ok s' \<and> in_transaction s' = in_transaction s \<and>
    store_view s' = (case r of Ok _ \<Rightarrow> spec_batch (store_view s) b | Err _ \<Rightarrow> store_view s)"
proof (cases "sto_overlay s")
  case None
  obtain st where st: "sto_backend s = Local st" "bt_wf (st_map st)"
    using assms(1) by (auto simp: local_ok_def split: backend.splits)
  obtain st' r' where c: "storage_commit (env_io env) st b = (st', r')" by fastforce
  have s': "s' = s\<lparr>sto_backend := Local st'\<rparr>" "r = storage_res r'"
    using assms(3) None st c by (auto simp: store_commit_def)
  have "bt_wf (st_map st') \<and> map_of (st_map st') = (case r' of Ok _ \<Rightarrow> spec_batch (map_of (st_map st)) b | Err _ \<Rightarrow> map_of (st_map st))"
    using c st(2) by (auto simp: storage_commit_log log_write_def write_wal_def apply_batch_record map_of_apply_entries
        Let_def spec_batch_def intro: wf_intros split: if_splits prod.splits result.splits)
  then show ?thesis using None s' st(1) by (cases r') (auto simp: local_ok_def store_view_def backend_view_def in_transaction_def storage_res_def)
next
  case (Some ov)
  have s': "s' = s\<lparr>sto_overlay := Some (foldl overlay_insert ov (batch_entries b))\<rparr>" "r = Ok ()"
    using assms(3) Some by (auto simp: store_commit_def)
  have "bt_wf (foldl overlay_insert ov (batch_entries b))"
    using assms(1) Some overlay_insert_wf by (auto simp: local_ok_def)
  then show ?thesis using assms(1) Some s' layer_foldl_insert [OF assms(2)]
    by (simp add: local_ok_def store_view_def in_transaction_def)
qed

section \<open>The batches of statements\<close>

definition data_key :: "bytes \<Rightarrow> bool" where
  "data_key k \<longleftrightarrow> \<not> prefix AUDIT_PREFIX k \<and> k \<noteq> AUDIT_HEAD_KEY"

definition data_batch :: "batch \<Rightarrow> bool" where
  "data_batch b \<longleftrightarrow> list_all (\<lambda>e. entry_built e \<and> data_key (fst (snd e))) b"

lemma data_key_prefixes:
  "prefix (row_prefix m t) k \<Longrightarrow> data_key k" "prefix (index_prefix m t) k \<Longrightarrow> data_key k"
  "prefix (range_prefix m t) k \<Longrightarrow> data_key k" "data_key (catalog_key m t)" "data_key (seq_key m t)"
  by (auto simp: data_key_def row_prefix_def index_prefix_def range_prefix_def RANGE_PREFIX_def catalog_key_def
      CATALOG_PREFIX_def seq_key_def AUDIT_PREFIX_def AUDIT_HEAD_KEY_def as_bytes_def prefix_def)

lemma data_key_keys [simp]:
  "data_key (row_key m t i)" "data_key (index_entry_key m t c v i)" "data_key (range_index_key m t c)"
  "data_key (catalog_key m t)" "data_key (seq_key m t)"
  using data_key_prefixes(4,5)
    data_key_prefixes(1) [of m t "row_key m t i"] data_key_prefixes(2) [of m t "index_entry_key m t c v i"]
    data_key_prefixes(3) [of m t "range_index_key m t c"]
  by (simp_all add: row_key_def index_entry_key_def index_value_prefix_def index_column_prefix_def range_index_key_def)

lemma data_batch_Nil [simp]: "data_batch []"
  by (simp add: data_batch_def)

lemma data_batch_seal_put [simp]: "data_batch (seal_put w ck k p b) \<longleftrightarrow> data_batch b \<and> data_key k"
  by (auto simp: data_batch_def seal_put_def batch_put_def entry_built_def)

lemma data_batch_delete [simp]: "data_batch (batch_delete b k) \<longleftrightarrow> data_batch b \<and> data_key k"
  by (auto simp: data_batch_def batch_delete_def entry_built_def)

lemma data_batch_adds [simp]:
  "data_batch (add_schema w m s b) = data_batch b" "data_batch (add_seq w m t tk n b) = data_batch b"
  "data_batch (add_range_blob w m t tk c es b) = data_batch b"
  "data_batch (add_index_entry w m t tk c v i b) = data_batch b"
  "data_batch (remove_index_entry m t c v i b) = data_batch b"
  by (simp_all add: add_schema_def add_seq_def add_range_blob_def add_index_entry_def remove_index_entry_def)

lemma data_batch_delete_all: "list_all data_key ks \<Longrightarrow> data_batch b \<Longrightarrow> data_batch (delete_all ks b)"
  unfolding delete_all_def by (induction ks arbitrary: b) auto

lemma fold_res_inv:
  "fold_res f s xs = Ok s' \<Longrightarrow> I s \<Longrightarrow> (\<And>s x s'. x \<in> set xs \<Longrightarrow> f s x = Ok s' \<Longrightarrow> I s \<Longrightarrow> I s') \<Longrightarrow> I s'"
proof (induction xs arbitrary: s)
  case (Cons x xs)
  from Cons.prems(1) obtain s1 where s1: "f s x = Ok s1" "fold_res f s1 xs = Ok s'" by auto
  from Cons.IH [OF s1(2)] Cons.prems(2,3) s1(1) show ?case by auto
qed simp

lemma add_row_entries_data: "add_row_entries w m t tk cols row i b = Ok b' \<Longrightarrow> data_batch b \<Longrightarrow> data_batch b'"
  unfolding add_row_entries_def by (erule fold_res_inv [where I = data_batch]) auto

lemma remove_row_entries_data: "remove_row_entries m t cols row i b = Ok b' \<Longrightarrow> data_batch b \<Longrightarrow> data_batch b'"
  unfolding remove_row_entries_def by (erule fold_res_inv [where I = data_batch]) auto

section \<open>The shape of a statement\<close>

definition same_core :: "engine \<Rightarrow> engine \<Rightarrow> bool" where
  "same_core e e1 \<longleftrightarrow> (\<exists>a. e1 = e\<lparr>eng_advisor := a\<rparr>)"

definition audited :: "world \<Rightarrow> engine \<Rightarrow> engine \<times> query_result res \<Rightarrow> bool" where
  "audited w e res \<longleftrightarrow> same_core e (fst res)
    \<or> (\<exists>q kind tag b e1. same_core e e1 \<and> data_batch b \<and> length tag = 16
        \<and> res = finish q (commit_audited w kind tag b e1))"

lemma same_core_refl [simp]: "same_core e e"
  by (auto simp: same_core_def intro: exI [of _ "eng_advisor e"])

lemma audited_try:
  "same_core e e1 \<Longrightarrow> (\<And>x. r = Ok x \<Longrightarrow> audited w e (f x)) \<Longrightarrow> audited w e (try_res e1 r f)"
  by (cases r) (auto simp: try_res_def audited_def)

lemma audited_same: "same_core e e1 \<Longrightarrow> audited w e (e1, r)"
  by (simp add: audited_def)

lemma audited_commit:
  "same_core e e1 \<Longrightarrow> data_batch b \<Longrightarrow> length tag = 16 \<Longrightarrow> audited w e (finish q (commit_audited w kind tag b e1))"
  unfolding audited_def by blast

lemma same_core_adv [simp]: "same_core e (e\<lparr>eng_advisor := a\<rparr>)"
  by (auto simp: same_core_def)

lemma list_all2_in: "list_all2 P xs ys \<Longrightarrow> y \<in> set ys \<Longrightarrow> \<exists>x \<in> set xs. P x y"
  by (induction rule: list_all2_induct) auto

lemma length_table_tag [simp]: "length (table_tag m t) = 16"
  by (simp add: table_tag_def TABLE_TAG_LEN_def)

lemma collect_res_map_Ok:
  "collect_res (map f xs) = Ok ys \<longleftrightarrow> list_all2 (\<lambda>x y. f x = Ok y) xs ys"
  by (induction xs arbitrary: ys) (auto simp: list_all2_Cons1)

lemma map_filter_collect:
  assumes "map_res (List.map_filter id) (collect_res (map f xs)) = Ok ys" "y \<in> set ys"
  shows "\<exists>x \<in> set xs. f x = Ok (Some y)"
proof -
  obtain zs where zs: "collect_res (map f xs) = Ok zs" "ys = List.map_filter id zs" using assms(1) by auto
  then have "Some y \<in> set zs" using assms(2) by (auto simp: List.map_filter_def)
  with zs(1) show ?thesis unfolding collect_res_map_Ok by (rule list_all2_in)
qed

lemma scan_keys_data:
  assumes "local_ok s" "store_scan_prefix env s p = Ok es" "\<And>k. prefix p k \<Longrightarrow> data_key k"
  shows "list_all data_key (map fst es)"
  using local_scan [OF assms(1), of env p] assms(2,3) by (auto simp: list_all_iff listing_mem)

lemma scan_rows_Ok:
  assumes "local_ok (eng_store e)" "scan_rows w e t tk = Ok rows"
  obtains es where "listing (store_view (eng_store e)) (row_prefix (eng_master e) t) es"
    "list_all2 (\<lambda>kv kr. fst kr = fst kv \<and> open_row tk (fst kv) (snd kv) = Ok (snd kr)) es rows"
proof -
  let ?p = "row_prefix (eng_master e) t"
  obtain es where es: "store_scan_prefix (w_read w ?p) (eng_store e) ?p = Ok es" "listing (store_view (eng_store e)) ?p es"
    using local_scan [OF assms(1)] by blast
  have "collect_res (map (\<lambda>(key, sealed). map_res (Pair key) (open_row tk key sealed)) es) = Ok rows"
    using assms(2) by (simp add: scan_rows_def es(1) Let_def)
  then have "list_all2 (\<lambda>x y. (case x of (key, sealed) \<Rightarrow> map_res (Pair key) (open_row tk key sealed)) = Ok y) es rows"
    unfolding collect_res_map_Ok .
  then have "list_all2 (\<lambda>kv kr. fst kr = fst kv \<and> open_row tk (fst kv) (snd kv) = Ok (snd kr)) es rows"
    by (rule list_all2_mono) (auto split: prod.splits)
  with es(2) show ?thesis by (rule that)
qed

lemma scan_rows_keys:
  assumes "local_ok (eng_store e)" "scan_rows w e t tk = Ok rows" "kr \<in> set rows"
  shows "prefix (row_prefix (eng_master e) t) (fst kr)"
proof -
  from scan_rows_Ok [OF assms(1,2)] obtain es where es: "listing (store_view (eng_store e)) (row_prefix (eng_master e) t) es"
    "list_all2 (\<lambda>kv kr. fst kr = fst kv \<and> open_row tk (fst kv) (snd kv) = Ok (snd kr)) es rows" .
  from list_all2_in [OF es(2) assms(3)] obtain k v where "(k, v) \<in> set es" "fst kr = k" by auto
  with listing_mem [OF es(1)] show ?thesis by simp
qed

lemma fetch_rows_keys:
  assumes "fetch_rows w e t tk ids = Ok rows" "kr \<in> set rows"
  shows "prefix (row_prefix (eng_master e) t) (fst kr)"
  using assms unfolding fetch_rows_def
  by (drule_tac map_filter_collect) (auto simp: Let_def row_key_def split: option.splits)

lemma candidate_rows_core:
  assumes "candidate_rows w e t sch flt tk = (e1, r)"
  shows "same_core e e1 \<and> (local_ok (eng_store e) \<longrightarrow>
    (\<forall>rows. r = Ok rows \<longrightarrow> (\<forall>kr \<in> set rows. prefix (row_prefix (eng_master e) t) (fst kr))))"
  using assms scan_rows_keys [of e w t tk] fetch_rows_keys [of w e t tk]
  unfolding candidate_rows_def try_res_def Let_def
  by (auto split: option.splits result.splits prod.splits)

lemmas audited_intros = audited_try audited_same audited_commit same_core_refl same_core_adv

lemma if_audited: "(c \<Longrightarrow> audited w e a) \<Longrightarrow> (\<not> c \<Longrightarrow> audited w e b) \<Longrightarrow> audited w e (if c then a else b)"
  by simp

lemma create_table_audited: "audited w e (create_table w name cols e)"
  unfolding create_table_def Let_def by (intro audited_intros if_audited) auto

lemma fold_row_entries_data:
  "fold_res (\<lambda>b (key, row). add_row_entries w m t tk cols row (f key) b) b0 rows = Ok b' \<Longrightarrow> data_batch b0 \<Longrightarrow> data_batch b'"
  by (erule fold_res_inv [where I = data_batch]) (auto dest: add_row_entries_data)

lemma create_index_audited: "audited w e (create_index w t c e)"
  unfolding create_index_def Let_def
  by (intro audited_intros if_audited) (auto intro: fold_row_entries_data)

lemma drop_index_audited: "local_ok (eng_store e) \<Longrightarrow> audited w e (drop_index w t c e)"
  unfolding drop_index_def Let_def
  by (intro audited_intros if_audited)
    (auto intro!: data_batch_delete_all scan_keys_data data_key_prefixes(2) simp: index_column_prefix_def dest: append_prefixD)

lemma create_range_index_audited: "audited w e (create_range_index w t c e)"
  unfolding create_range_index_def Let_def by (intro audited_intros if_audited) auto

lemma drop_range_index_audited: "audited w e (drop_range_index w t c e)"
  unfolding drop_range_index_def Let_def by (intro audited_intros if_audited) auto

lemma drop_table_audited:
  assumes "local_ok (eng_store e)"
  shows "audited w e (drop_table w t e)"
proof -
  have "list_all data_key (concat ks)"
    if "collect_res (map (scan_keys w e) [row_prefix (eng_master e) t, index_prefix (eng_master e) t, range_prefix (eng_master e) t]) = Ok ks" for ks
  proof -
    have key: "list_all data_key k" if "scan_keys w e p = Ok k" "\<And>x. prefix p x \<Longrightarrow> data_key x" for p k
      using that scan_keys_data [OF assms] by (auto simp: scan_keys_def)
    note k = key [OF _ data_key_prefixes(1)] key [OF _ data_key_prefixes(2)] key [OF _ data_key_prefixes(3)]
    from that obtain a b c where "scan_keys w e (row_prefix (eng_master e) t) = Ok a"
      "scan_keys w e (index_prefix (eng_master e) t) = Ok b" "scan_keys w e (range_prefix (eng_master e) t) = Ok c"
      "ks = [a, b, c]" by auto
    with k show ?thesis by simp
  qed
  then show ?thesis unfolding drop_table_def Let_def
    by (intro audited_intros) (auto intro!: data_batch_delete_all)
qed

lemma write_rows_data:
  "fold_res (write_row w m t tk cols) (b, i) rows = Ok (b', i') \<Longrightarrow> data_batch b \<Longrightarrow> data_batch b'"
  by (drule fold_res_inv [where I = "\<lambda>st. data_batch (fst st)"])
    (auto simp: write_row_def split: prod.splits dest!: add_row_entries_data)

lemma extend_ranges_data:
  "fold_res (extend_range w e t tk i rows) b cols = Ok b' \<Longrightarrow> data_batch b \<Longrightarrow> data_batch b'"
  by (erule fold_res_inv [where I = data_batch]) (auto simp: extend_range_def)

lemma insert_audited: "audited w e (insert_stmt w t cols rows e)"
  unfolding insert_stmt_def Let_def
  by (intro audited_intros) (auto intro!: audited_intros split: prod.splits, erule extend_ranges_data, simp, erule write_rows_data, simp)

lemma select_audited: "audited w e (select_stmt w t proj p g h ob lim e)"
proof -
  have core: "same_core e (fst (candidate_rows w e t sch flt tk))" for sch flt tk
    using candidate_rows_core [of w e t sch flt tk] by (cases "candidate_rows w e t sch flt tk") simp
  have part: "audited w e (case candidate_rows w e t sch flt tk of (e1, r) \<Rightarrow> try_res e1 (f r) (\<lambda>rows. (e1, g1 rows)))" for sch flt tk f g1
    using core [of sch flt tk] by (auto intro!: audited_try audited_same split: prod.splits)
  show ?thesis unfolding select_stmt_def Let_def
    by (auto intro!: audited_try audited_same part split: projection.split)
qed

lemma rewrite_ranges_data:
  "fold_res (rewrite_range w e t tk ch) b cols = Ok b' \<Longrightarrow> data_batch b \<Longrightarrow> data_batch b'"
  by (erule fold_res_inv [where I = data_batch]) (auto simp: rewrite_range_def split: if_splits)

lemma write_change_data:
  assumes "write_change w m t tk cols b ch = Ok b'" "data_batch b" "data_key (fst ch)"
  shows "data_batch b'"
proof -
  obtain key old new where ch: "ch = (key, old, new)" by (cases ch)
  from assms(1) obtain b1 where b1: "fold_res (reindex_cell w m t tk old new (rowid_from_key key)) b cols = Ok b1"
    "b' = seal_put w tk key (encode_row new) b1" by (auto simp: write_change_def ch)
  have "data_batch b1"
    by (rule fold_res_inv [OF b1(1), of data_batch]) (use assms(2) in \<open>auto simp: reindex_cell_def Let_def\<close>)
  with b1(2) assms(3) ch show ?thesis by simp
qed

lemma changed_rows_keys:
  "changed_rows flt res rows = Ok ch \<Longrightarrow> c \<in> set ch \<Longrightarrow> fst c \<in> fst ` set rows"
  unfolding changed_rows_def by (drule (1) map_filter_collect) (force split: if_splits)

lemma update_audited:
  assumes "local_ok (eng_store e)"
  shows "audited w e (update_stmt w t as p e)"
proof -
  have "audited w e (case candidate_rows w e t sch flt (table_key (eng_master e) t) of (e1, r) \<Rightarrow>
          try_res e1 (rbind r (changed_rows flt resolved)) (\<lambda>changed.
          try_res e1 (check_new_pk w e1 t sch (table_key (eng_master e) t) resolved changed) (\<lambda>_.
          try_res e1 (fold_res (write_change w (eng_master e) t (table_key (eng_master e) t) (maintained_columns sch)) [] changed) (\<lambda>b.
          try_res e1 (fold_res (rewrite_range w e1 t (table_key (eng_master e) t) changed) b (range_indexed_columns sch)) (\<lambda>b1.
            finish (Updated (length changed)) (commit_audited w UPDATE (table_tag (eng_master e) t) b1 e1))))))"
    for sch flt resolved
  proof -
    let ?tk = "table_key (eng_master e) t"
    obtain e1 r where c: "candidate_rows w e t sch flt ?tk = (e1, r)" by fastforce
    from candidate_rows_core [OF c] assms have core: "same_core e e1"
      and keys: "\<And>rows kr. r = Ok rows \<Longrightarrow> kr \<in> set rows \<Longrightarrow> data_key (fst kr)"
      using data_key_prefixes(1) by auto
    have data: "data_batch b" if "rbind r (changed_rows flt resolved) = Ok ch"
      "fold_res (write_change w (eng_master e) t ?tk cols) [] ch = Ok b" for ch b cols
    proof (rule fold_res_inv [OF that(2)])
      fix s x s'
      assume "x \<in> set ch" and step: "write_change w (eng_master e) t ?tk cols s x = Ok s'" "data_batch s"
      from that(1) obtain rows where "r = Ok rows" "changed_rows flt resolved rows = Ok ch" by auto
      with changed_rows_keys [OF _ \<open>x \<in> set ch\<close>] keys have "data_key (fst x)" by fastforce
      with step show "data_batch s'" by (rule write_change_data)
    qed simp
    show ?thesis unfolding c prod.case
      by (intro audited_try core audited_commit, erule rewrite_ranges_data, erule (1) data, simp)
  qed
  then show ?thesis unfolding update_stmt_def Let_def by (intro audited_try) auto
qed

lemma shrink_ranges_data:
  "fold_res (shrink_range w e t tk ds) b cols = Ok b' \<Longrightarrow> data_batch b \<Longrightarrow> data_batch b'"
  by (erule fold_res_inv [where I = data_batch]) (auto simp: shrink_range_def split: if_splits)

lemma matching_rows: "matching flt rows = Ok ms \<Longrightarrow> x \<in> set ms \<Longrightarrow> x \<in> set rows"
  unfolding matching_def by (drule (1) map_filter_collect) (auto split: if_splits)

lemma delete_audited:
  assumes "local_ok (eng_store e)"
  shows "audited w e (delete_stmt w t p e)"
proof -
  have "audited w e (case candidate_rows w e t sch flt (table_key (eng_master e) t) of (e1, r) \<Rightarrow>
          try_res e1 (rbind r (matching flt)) (\<lambda>doomed.
          try_res e1 (fold_res (delete_row (eng_master e) t (maintained_columns sch)) [] doomed) (\<lambda>b.
          try_res e1 (fold_res (shrink_range w e1 t (table_key (eng_master e) t) doomed) b (range_indexed_columns sch)) (\<lambda>b1.
            finish (Deleted (length doomed)) (commit_audited w DELETE (table_tag (eng_master e) t) b1 e1)))))" for sch flt
  proof -
    let ?tk = "table_key (eng_master e) t"
    obtain e1 r where c: "candidate_rows w e t sch flt ?tk = (e1, r)" by fastforce
    from candidate_rows_core [OF c] assms have core: "same_core e e1"
      and keys: "\<And>rows kr. r = Ok rows \<Longrightarrow> kr \<in> set rows \<Longrightarrow> data_key (fst kr)"
      using data_key_prefixes(1) by auto
    have data: "data_batch b" if "rbind r (matching flt) = Ok ds" "fold_res (delete_row (eng_master e) t cols) [] ds = Ok b" for ds b cols
    proof (rule fold_res_inv [OF that(2)])
      fix s x s'
      assume "x \<in> set ds" and step: "delete_row (eng_master e) t cols s x = Ok s'" "data_batch s"
      from that(1) obtain rows where "r = Ok rows" "matching flt rows = Ok ds" by auto
      with matching_rows \<open>x \<in> set ds\<close> keys have "data_key (fst x)" by blast
      with step show "data_batch s'" by (auto simp: delete_row_def split: prod.splits dest: remove_row_entries_data)
    qed simp
    show ?thesis unfolding c prod.case
      by (intro audited_try core audited_commit, erule shrink_ranges_data, erule (1) data, simp)
  qed
  then show ?thesis unfolding delete_stmt_def Let_def by (intro audited_try) auto
qed

definition transactional :: "statement \<Rightarrow> bool" where
  "transactional st \<longleftrightarrow> st \<in> {Begin, Commit, Rollback}"

lemma statement_audited:
  "local_ok (eng_store e) \<Longrightarrow> \<not> transactional st \<Longrightarrow> audited w e (execute_statement w st e)"
  by (cases st) (simp_all add: execute_statement_def transactional_def create_table_audited drop_table_audited
      create_index_audited create_range_index_audited drop_index_audited drop_range_index_audited insert_audited
      select_audited update_audited delete_audited audited_same)

section \<open>The log as an invariant\<close>

definition audit_log :: "engine \<Rightarrow> audit_entry list \<Rightarrow> bool" where
  "audit_log e es \<longleftrightarrow> local_ok (eng_store e) \<and>
    (\<exists>pairs. listing (store_view (eng_store e)) AUDIT_PREFIX pairs
      \<and> map fst pairs = map (\<lambda>i. audit_key_of (word_of_nat i)) [0..<length es]
      \<and> audit_check (derive_key (eng_master e) ''audit'') (eng_audit_head e) pairs = Ok es)"

lemma audit_log_verify:
  assumes "audit_log e es"
  shows "audit_verify w e = Ok es"
proof -
  from assms obtain pairs where p: "local_ok (eng_store e)" "listing (store_view (eng_store e)) AUDIT_PREFIX pairs"
    "audit_check (derive_key (eng_master e) ''audit'') (eng_audit_head e) pairs = Ok es"
    unfolding audit_log_def by blast
  obtain ps where ps: "store_scan_prefix (w_read w AUDIT_PREFIX) (eng_store e) AUDIT_PREFIX = Ok ps"
    "listing (store_view (eng_store e)) AUDIT_PREFIX ps" using local_scan [OF p(1)] by blast
  with p listing_unique [OF ps(2) p(2)] show ?thesis by (simp add: audit_verify_def)
qed

lemma audit_log_core: "same_core e e1 \<Longrightarrow> audit_log e1 es = audit_log e es"
  by (auto simp: audit_log_def same_core_def)

lemma data_batch_built: "data_batch b \<Longrightarrow> list_all entry_built b"
  by (auto simp: data_batch_def list_all_iff)

lemma spec_batch_other:
  "\<forall>e \<in> set b. fst (snd e) \<noteq> k \<Longrightarrow> spec_batch m b k = m k"
  unfolding spec_batch_def by (induction b arbitrary: m) auto

lemma data_batch_audit: "data_batch b \<Longrightarrow> \<not> data_key k \<Longrightarrow> spec_batch m b k = m k"
  by (intro spec_batch_other) (auto simp: data_batch_def list_all_iff)

lemma list_less_append: "(xs :: bytes) < ys \<Longrightarrow> length xs = length ys \<Longrightarrow> xs @ u < ys @ v"
  by (simp add: list_less_def lexord_sufI)

lemma list_less_prepend: "(u :: bytes) < v \<Longrightarrow> xs @ u < xs @ v"
  by (simp add: list_less_def lexord_append_leftI)

lemma be_bytes_Suc: "be_bytes (Suc n) k = be_bytes n (k div 256) @ [word_of_nat k]"
  by (simp add: be_bytes_def le_bytes.simps(2))

lemma be_bytes_less: "j < k \<Longrightarrow> k < 256 ^ n \<Longrightarrow> be_bytes n j < be_bytes n k"
proof (induction n arbitrary: j k)
  case (Suc n)
  show ?case
  proof (cases "j div 256 = k div 256")
    case True
    then have "j mod 256 < k mod 256" using Suc.prems(1) by (metis div_mult_mod_eq nat_add_left_cancel_less)
    then have "(word_of_nat j :: byte) < word_of_nat k" by (simp add: word_less_nat_alt unat_byte_of_nat)
    then have "[word_of_nat j :: byte] < [word_of_nat k]" by (simp add: list_less_def)
    then show ?thesis by (simp only: be_bytes_Suc True list_less_prepend)
  next
    case False
    then have "j div 256 < k div 256" using Suc.prems(1) by (simp add: div_le_mono order_le_less)
    moreover have "k div 256 < 256 ^ n" using Suc.prems(2) by (simp add: less_mult_imp_div_less mult.commute)
    ultimately have "be_bytes n (j div 256) < be_bytes n (k div 256)" by (rule Suc.IH)
    then show ?thesis by (simp only: be_bytes_Suc) (simp add: list_less_append)
  qed
qed simp

lemma audit_key_less: "i < j \<Longrightarrow> j < 2 ^ 64 \<Longrightarrow> audit_key_of (word_of_nat i) < audit_key_of (word_of_nat j)"
proof -
  assume "i < j" "j < 2 ^ 64"
  moreover from this have "unat (word_of_nat i :: u64) = i" "unat (word_of_nat j :: u64) = j" by (simp_all add: unat_of_nat)
  ultimately show ?thesis by (simp add: audit_key_of_def list_less_prepend be_bytes_less)
qed

lemma audit_keys: "\<not> data_key (audit_key_of s)" "prefix AUDIT_PREFIX (audit_key_of s)" "\<not> data_key AUDIT_HEAD_KEY"
  "\<not> prefix AUDIT_PREFIX AUDIT_HEAD_KEY" "audit_key_of s \<noteq> AUDIT_HEAD_KEY"
  by (auto simp: data_key_def audit_key_of_def AUDIT_PREFIX_def AUDIT_HEAD_KEY_def as_bytes_def)

lemma chained_root_length: "length root = 32 \<Longrightarrow> chained root n es r \<Longrightarrow> length r = 32"
proof (induction es arbitrary: root n)
  case (Cons e es)
  from Cons.prems Cons.IH [of "audit_root_of e" "Suc n"] show ?case by (simp add: audit_root_of_def)
qed simp

text \<open>A new largest key appends to a listing.\<close>

lemma listing_snoc:
  assumes "listing m p es" "prefix p k" "\<And>k'. k' \<in> fst ` set es \<Longrightarrow> k' < k"
    and "m' k = Some v" "\<And>k'. k' \<noteq> k \<Longrightarrow> prefix p k' \<Longrightarrow> m' k' = m k'"
  shows "listing m' p (es @ [(k, v)])"
proof -
  have "bt_wf (es @ [(k, v)])"
    using assms(1,3) by (auto simp: listing_def bt_wf_def sorted_wrt_append)
  moreover have "map_of (es @ [(k, v)]) = restrict_prefix m' p"
  proof
    fix x
    have none: "map_of es k = None" using assms(3) by (force simp: map_of_eq_None_iff)
    show "map_of (es @ [(k, v)]) x = restrict_prefix m' p x"
      using assms none by (cases "x = k") (auto simp: listing_def restrict_prefix_def map_add_def split: option.splits)
  qed
  ultimately show ?thesis by (simp add: listing_def)
qed

definition new_entry :: "world \<Rightarrow> byte \<Rightarrow> bytes \<Rightarrow> bytes \<Rightarrow> engine \<Rightarrow> audit_entry" where
  "new_entry w kind tag dg e = \<lparr>ae_seq = fst (eng_audit_head e), ae_time = w_time w, ae_kind = kind,
    ae_table_tag = tag, ae_writes_digest = dg, ae_prev_root = snd (eng_audit_head e)\<rparr>"

definition nonces_ok :: "world \<Rightarrow> bool" where
  "nonces_ok w \<longleftrightarrow> (\<forall>i. length (w_nonce w i) = NONCE_LEN)"

lemma commit_with_audit_log:
  assumes "audit_log e es" "length es + 1 < 2 ^ 64" "data_batch b" "length tag = 16" "length dg = 32" "nonces_ok w"
    and "commit_with_audit w kind tag dg b e = (e', r)"
  shows "case r of
      Ok _ \<Rightarrow> audit_log e' (es @ [new_entry w kind tag dg e])
        \<and> (\<forall>k. data_key k \<longrightarrow> store_view (eng_store e') k = spec_batch (store_view (eng_store e)) b k)
    | Err _ \<Rightarrow> audit_log e' es \<and> store_view (eng_store e') = store_view (eng_store e)"
proof -
  let ?en = "new_entry w kind tag dg e" and ?ak = "derive_key (eng_master e) ''audit''"
  obtain seq prev where h: "eng_audit_head e = (seq, prev)" by fastforce
  define b1 where "b1 = seal_put w ?ak (audit_key_of seq) (encode_audit ?en) b"
  define b2 where "b2 = seal_put w ?ak AUDIT_HEAD_KEY (le_bytes 8 (unat (seq + 1)) @ audit_root_of ?en) b1"
  obtain s' r' where c: "store_commit (w_commit w) (eng_store e) b2 = (s', r')" by fastforce
  have res: "e' = (case r' of Ok _ \<Rightarrow> e\<lparr>eng_store := s', eng_audit_head := (seq + 1, audit_root_of ?en)\<rparr>
      | Err _ \<Rightarrow> e\<lparr>eng_store := s'\<rparr>)" "r = (case r' of Ok _ \<Rightarrow> Ok () | Err x \<Rightarrow> Err x)"
    using assms(7) c by (auto simp: commit_with_audit_def h Let_def new_entry_def b1_def b2_def split: result.splits)
  from assms(1) obtain pairs where lo: "local_ok (eng_store e)"
    and li: "listing (store_view (eng_store e)) AUDIT_PREFIX pairs"
    and keys: "map fst pairs = map (\<lambda>i. audit_key_of (word_of_nat i)) [0..<length es]"
    and chk: "audit_check ?ak (eng_audit_head e) pairs = Ok es" unfolding audit_log_def by blast
  have "list_all entry_built b2"
    using data_batch_built [OF assms(3)] by (simp add: b2_def b1_def seal_put_def batch_put_def entry_built_def)
  note com = local_commit [OF lo this c]
  show ?thesis
  proof (cases r')
    case (Ok u)
    let ?v = "store_view (eng_store e)"
    let ?sealed = "cipher_seal ?ak (w_nonce w (length b)) (encode_audit ?en) (audit_key_of seq)"
    obtain hs where b2: "b2 = b @ [(OP_PUT, audit_key_of seq, ?sealed), (OP_PUT, AUDIT_HEAD_KEY, hs)]"
      by (simp add: b2_def b1_def seal_put_def batch_put_def)
    have view: "store_view s' = (spec_batch ?v b)(audit_key_of seq \<mapsto> ?sealed, AUDIT_HEAD_KEY \<mapsto> hs)"
      using com Ok by (simp add: b2 spec_batch_append) (simp add: spec_batch_def)
    from chk have chain: "chained GENESIS_ROOT 0 es prev" "seq = word_of_nat (length es)" "list_all2 (sealed_entry ?ak) pairs es"
      by (auto simp: audit_check_exact h)
    have prev: "length prev = 32" using chained_root_length [OF _ chain(1)] by (simp add: GENESIS_ROOT_def)
    have ok: "audit_entry_ok ?en" using assms(4,5) prev by (simp add: audit_entry_ok_def new_entry_def h)
    have "listing (store_view s') AUDIT_PREFIX (pairs @ [(audit_key_of seq, ?sealed)])"
    proof (rule listing_snoc [OF li])
      fix k' assume "k' \<in> fst ` set pairs"
      then have "k' \<in> set (map fst pairs)" by simp
      then obtain i where "i < length es" "k' = audit_key_of (word_of_nat i)" unfolding keys by auto
      with audit_key_less [of i "length es"] assms(2) show "k' < audit_key_of seq" by (simp add: chain(2))
    next
      fix k' assume "k' \<noteq> audit_key_of seq" and p: "prefix AUDIT_PREFIX k'"
      moreover have "spec_batch ?v b k' = ?v k'" using p by (intro data_batch_audit [OF assms(3)]) (simp add: data_key_def)
      ultimately show "store_view s' k' = ?v k'" using audit_keys(4) by (auto simp: view)
    qed (simp_all add: view audit_keys)
    moreover have "audit_check ?ak (seq + 1, audit_root_of ?en) (pairs @ [(audit_key_of seq, ?sealed)]) = Ok (es @ [?en])"
      unfolding audit_check_exact using chain ok assms(6) prev
      by (auto simp: chained_snoc new_entry_def h sealed_entry_def nonces_ok_def intro!: list_all2_appendI)
    moreover have "map fst (pairs @ [(audit_key_of seq, ?sealed)]) = map (\<lambda>i. audit_key_of (word_of_nat i)) [0..<length (es @ [?en])]"
      using keys by (simp add: chain(2))
    ultimately have "audit_log e' (es @ [?en])"
      using com res(1) Ok unfolding audit_log_def by auto
    moreover have "\<forall>k. data_key k \<longrightarrow> store_view (eng_store e') k = spec_batch ?v b k"
      using res(1) Ok view audit_keys by auto
    ultimately show ?thesis using res(2) Ok by simp
  next
    case (Err x)
    then show ?thesis using com res lo li keys chk unfolding audit_log_def by auto
  qed
qed

lemma commit_audited_log:
  assumes "audit_log e es" "length es + 1 < 2 ^ 64" "data_batch b" "length tag = 16" "nonces_ok w"
    and "commit_audited w kind tag b e = (e', r)"
  shows "(audit_log e' es \<and> store_view (eng_store e') = store_view (eng_store e))
    \<or> (r = Ok () \<and> b \<noteq> [] \<and> audit_log e' (es @ [new_entry w kind tag (digest_batch b) e])
      \<and> (\<forall>k. data_key k \<longrightarrow> store_view (eng_store e') k = spec_batch (store_view (eng_store e)) b k))"
proof (cases "b = []")
  case True
  then show ?thesis using assms by (simp add: commit_audited_def)
next
  case False
  have "length (digest_batch b) = 32" by (simp add: digest_batch_eq)
  from commit_with_audit_log [OF assms(1-4) this assms(5), of kind e' r] assms(6) False show ?thesis
    by (cases r) (auto simp: commit_audited_def)
qed

lemma statement_log:
  assumes "audit_log e es" "length es + 1 < 2 ^ 64" "nonces_ok w" "\<not> transactional st"
    and "execute_statement w st e = (e', r)"
  shows "(audit_log e' es \<and> store_view (eng_store e') = store_view (eng_store e))
    \<or> (\<exists>b entry q. r = Ok q \<and> b \<noteq> [] \<and> data_batch b \<and> ae_writes_digest entry = digest_batch b
      \<and> audit_log e' (es @ [entry])
      \<and> (\<forall>k. data_key k \<longrightarrow> store_view (eng_store e') k = spec_batch (store_view (eng_store e)) b k))"
proof -
  have "local_ok (eng_store e)" using assms(1) by (simp add: audit_log_def)
  from statement_audited [OF this assms(4), of w] consider
    (same) "same_core e e'"
  | (commit) q kind tag b e1 where "same_core e e1" "data_batch b" "length tag = 16"
      "(e', r) = finish q (commit_audited w kind tag b e1)"
    unfolding audited_def assms(5) by auto
  then show ?thesis
  proof cases
    case same
    then show ?thesis using assms(1) audit_log_core [OF same] by (auto simp: same_core_def)
  next
    case commit
    obtain r1 where c: "commit_audited w kind tag b e1 = (e', r1)" "r = map_res (\<lambda>_. q) r1"
      using commit(4) by (cases "commit_audited w kind tag b e1") (auto simp: finish_def)
    have "audit_log e1 es" using assms(1) audit_log_core [OF commit(1)] by simp
    moreover have "eng_store e1 = eng_store e" using commit(1) by (auto simp: same_core_def)
    ultimately consider "audit_log e' es" "store_view (eng_store e') = store_view (eng_store e)"
      | "r1 = Ok ()" "b \<noteq> []" "audit_log e' (es @ [new_entry w kind tag (digest_batch b) e1])"
        "\<forall>k. data_key k \<longrightarrow> store_view (eng_store e') k = spec_batch (store_view (eng_store e)) b k"
      using commit_audited_log [OF _ assms(2) commit(2,3) assms(3) c(1)] by auto
    then show ?thesis
    proof cases
      case 2
      then show ?thesis using c(2) commit(2)
        by (intro disjI2 exI [of _ b] exI [of _ "new_entry w kind tag (digest_batch b) e1"] exI [of _ q])
          (simp add: new_entry_def)
    qed simp
  qed
qed

section \<open>Sessions with transactions\<close>

lemma local_commit_transaction:
  assumes "local_ok s" "sto_overlay s = Some ov" "commit_transaction env s = (s', r)"
  shows "local_ok s' \<and> \<not> in_transaction s' \<and>
    store_view s' = (case r of Ok _ \<Rightarrow> store_view s | Err _ \<Rightarrow> backend_view (sto_backend s))"
proof -
  obtain st where st: "sto_backend s = Local st" "bt_wf (st_map st)"
    using assms(1) by (auto simp: local_ok_def split: backend.splits)
  have wf: "bt_wf ov" using assms(1,2) by (simp add: local_ok_def)
  have built: "list_all entry_built (overlay_batch ov)"
    by (auto simp: overlay_batch_map list_all_iff entry_built_def split: option.splits)
  define s0 where "s0 = s\<lparr>sto_overlay := None\<rparr>"
  have s0: "local_ok s0" "store_view s0 = backend_view (sto_backend s)" "\<not> in_transaction s0"
    using assms(1) by (auto simp: s0_def local_ok_def store_view_def in_transaction_def)
  have spec: "spec_batch (backend_view (sto_backend s)) (overlay_batch ov) = store_view s"
    using overlay_batch_spec [OF wf] assms(2) by (simp add: store_view_def)
  show ?thesis
  proof (cases "overlay_batch ov = []")
    case True
    then have "s' = s0" "r = Ok ()" using assms(2,3) by (auto simp: commit_transaction_def s0_def Let_def)
    then show ?thesis using s0 spec True by (simp add: spec_batch_def)
  next
    case False
    then have "store_commit env s0 (overlay_batch ov) = (s', r)"
      using assms(2,3) by (auto simp: commit_transaction_def store_commit_def s0_def Let_def split: prod.splits)
    from local_commit [OF s0(1) built this] show ?thesis using s0 spec by (auto split: result.splits)
  qed
qed

text \<open>The engine a rollback returns to.\<close>

definition txn_base :: "engine \<Rightarrow> engine" where
  "txn_base e = fst (engine_rollback_transaction e)"

lemma txn_base_simps:
  assumes "in_transaction (eng_store e)" "eng_txn_audit_head e = Some h"
  shows "eng_store (txn_base e) = rollback_transaction (eng_store e)" "eng_audit_head (txn_base e) = h"
    "eng_master (txn_base e) = eng_master e"
  using assms by (auto simp: txn_base_def engine_rollback_transaction_def Let_def)

text \<open>A statement inside a transaction touches neither the backend nor the saved head.\<close>

lemma statement_txn:
  assumes "local_ok (eng_store e)" "\<not> transactional st" "execute_statement w st e = (e', r)"
  shows "in_transaction (eng_store e') = in_transaction (eng_store e) \<and> eng_txn_audit_head e' = eng_txn_audit_head e
    \<and> eng_master e' = eng_master e
    \<and> (in_transaction (eng_store e) \<longrightarrow> sto_backend (eng_store e') = sto_backend (eng_store e))"
proof -
  have com: "in_transaction (eng_store e2) = in_transaction (eng_store e1) \<and> eng_txn_audit_head e2 = eng_txn_audit_head e1
    \<and> eng_master e2 = eng_master e1 \<and> (in_transaction (eng_store e1) \<longrightarrow> sto_backend (eng_store e2) = sto_backend (eng_store e1))"
    if "commit_audited w kind tag b e1 = (e2, r1)" for kind tag b e1 e2 r1
    using that unfolding commit_audited_def commit_with_audit_def store_commit_def in_transaction_def Let_def
    by (auto split: if_splits prod.splits option.splits result.splits)
  from statement_audited [OF assms(1,2), of w] show ?thesis
    unfolding audited_def assms(3)
  proof (elim disjE exE conjE)
    fix q kind tag b e1
    assume e1: "same_core e e1" and f: "(e', r) = finish q (commit_audited w kind tag b e1)"
    obtain r1 where "commit_audited w kind tag b e1 = (e', r1)"
      using f by (cases "commit_audited w kind tag b e1") (auto simp: finish_def)
    from com [OF this] e1 show ?thesis by (auto simp: same_core_def)
  qed (auto simp: same_core_def)
qed

lemma audit_log_same: "eng_store e = eng_store e' \<Longrightarrow> eng_master e = eng_master e' \<Longrightarrow>
    eng_audit_head e = eng_audit_head e' \<Longrightarrow> audit_log e es = audit_log e' es"
  by (simp add: audit_log_def)

text \<open>
  The engines reached in \<open>n\<close> statements, transaction control included. The one step left out is a
  \<open>COMMIT\<close> that fails.
\<close>

inductive reaches :: "engine \<Rightarrow> nat \<Rightarrow> engine \<Rightarrow> bool" where
  start: "reaches e0 0 e0"
| step: "reaches e0 n e \<Longrightarrow> nonces_ok w \<Longrightarrow> execute_statement w st e = (e', r) \<Longrightarrow>
    (st = Commit \<Longrightarrow> is_ok r \<or> \<not> in_transaction (eng_store e)) \<Longrightarrow> reaches e0 (Suc n) e'"

definition session_inv :: "audit_entry list \<Rightarrow> nat \<Rightarrow> engine \<Rightarrow> audit_entry list \<Rightarrow> bool" where
  "session_inv es0 n e es \<longleftrightarrow> audit_log e es \<and> prefix es0 es \<and> length es \<le> length es0 + n
    \<and> (in_transaction (eng_store e) \<longrightarrow> eng_txn_audit_head e \<noteq> None
        \<and> (\<exists>es1. audit_log (txn_base e) es1 \<and> prefix es0 es1 \<and> length es1 \<le> length es0 + n))"

lemma session_statement:
  assumes "session_inv es0 n e es" "length es0 + Suc n < 2 ^ 64" "nonces_ok w" "\<not> transactional st"
    and "execute_statement w st e = (e', r)"
  shows "\<exists>es'. session_inv es0 (Suc n) e' es'"
proof -
  have log: "audit_log e es" and pre: "prefix es0 es" and len: "length es \<le> length es0 + n"
    using assms(1) by (auto simp: session_inv_def)
  have lo: "local_ok (eng_store e)" using log by (simp add: audit_log_def)
  have "length es + 1 < 2 ^ 64" using len assms(2) by linarith
  from statement_log [OF log this assms(3-5)] obtain es' where es': "audit_log e' es'" "prefix es0 es'" "length es' \<le> length es0 + Suc n"
    using pre len by (auto intro: prefix_prefix)
  note txn = statement_txn [OF lo assms(4,5)]
  have "eng_txn_audit_head e' \<noteq> None \<and> (\<exists>es1. audit_log (txn_base e') es1 \<and> prefix es0 es1 \<and> length es1 \<le> length es0 + Suc n)"
    if t: "in_transaction (eng_store e')"
  proof -
    from t txn assms(1) obtain h es1 where h: "eng_txn_audit_head e = Some h" "in_transaction (eng_store e)"
      and es1: "audit_log (txn_base e) es1" "prefix es0 es1" "length es1 \<le> length es0 + n"
      by (auto simp: session_inv_def)
    have h': "eng_txn_audit_head e' = Some h" using txn h by simp
    have "rollback_transaction (eng_store e') = rollback_transaction (eng_store e)"
      using txn h(2) by (simp add: rollback_transaction_def)
    then have "audit_log (txn_base e') es1 = audit_log (txn_base e) es1"
      using txn_base_simps [OF t h'] txn_base_simps [OF h(2,1)] txn by (intro audit_log_same) simp_all
    with es1 h' show ?thesis by auto
  qed
  then show ?thesis using es' by (auto simp: session_inv_def)
qed

lemma session_step:
  assumes "session_inv es0 n e es" "length es0 + Suc n < 2 ^ 64" "nonces_ok w"
    and "execute_statement w st e = (e', r)" "st = Commit \<Longrightarrow> is_ok r \<or> \<not> in_transaction (eng_store e)"
  shows "\<exists>es'. session_inv es0 (Suc n) e' es'"
proof (cases "transactional st")
  case False
  then show ?thesis using session_statement assms by blast
next
  case True
  have log: "audit_log e es" using assms(1) by (simp add: session_inv_def)
  have mono: "session_inv es0 (Suc n) e es" using assms(1) by (auto simp: session_inv_def intro: le_SucI)
  from True consider "st = Begin" | "st = Commit" | "st = Rollback" by (auto simp: transactional_def)
  then show ?thesis
  proof cases
    case 1
    show ?thesis
    proof (cases "in_transaction (eng_store e)")
      case True
      then show ?thesis using mono 1 assms(4) by (auto simp: execute_statement_def begin_transaction_def)
    next
      case False
      then have e': "e' = e\<lparr>eng_txn_audit_head := Some (eng_audit_head e), eng_store := store_begin (eng_store e)\<rparr>"
        using 1 assms(4) by (simp add: execute_statement_def begin_transaction_def)
      have none: "sto_overlay (eng_store e) = None" using False by (simp add: in_transaction_def)
      then have view: "store_view (store_begin (eng_store e)) = store_view (eng_store e)"
        by (simp add: store_view_def store_begin_def)
      have lo: "local_ok (store_begin (eng_store e))" using log none by (simp add: audit_log_def local_ok_def store_begin_def)
      have in': "in_transaction (eng_store e')" by (simp add: e' store_begin_def in_transaction_def)
      have h': "eng_txn_audit_head e' = Some (eng_audit_head e)" by (simp add: e')
      have "rollback_transaction (store_begin (eng_store e)) = eng_store e"
        using none by (simp add: rollback_transaction_def store_begin_def)
      then have "audit_log (txn_base e') es = audit_log e es"
        using txn_base_simps [OF in' h'] by (intro audit_log_same) (simp_all add: e')
      moreover have "audit_log e' es" using log lo view by (auto simp: audit_log_def e')
      ultimately have "session_inv es0 (Suc n) e' es" using mono log h' unfolding session_inv_def by blast
      then show ?thesis ..
    qed
  next
    case 2
    show ?thesis
    proof (cases "in_transaction (eng_store e)")
      case False
      then show ?thesis using mono 2 assms(4) by (auto simp: execute_statement_def engine_commit_transaction_def)
    next
      case True
      then obtain ov where ov: "sto_overlay (eng_store e) = Some ov" by (auto simp: in_transaction_def)
      obtain s' r' where c: "commit_transaction (w_commit w) (eng_store e) = (s', r')" by fastforce
      have ok: "r' = Ok ()" "e' = e\<lparr>eng_store := s', eng_txn_audit_head := None\<rparr>"
        using 2 assms(4,5) True c
        by (auto simp: execute_statement_def engine_commit_transaction_def split: result.splits)
      have "local_ok (eng_store e)" using log by (simp add: audit_log_def)
      from local_commit_transaction [OF this ov c] ok log
      have "audit_log e' es" "\<not> in_transaction (eng_store e')" by (auto simp: audit_log_def)
      then have "session_inv es0 (Suc n) e' es" using mono unfolding session_inv_def by blast
      then show ?thesis ..
    qed
  next
    case 3
    show ?thesis
    proof (cases "in_transaction (eng_store e)")
      case False
      then show ?thesis using mono 3 assms(4) by (auto simp: execute_statement_def engine_rollback_transaction_def)
    next
      case True
      then obtain es1 where es1: "audit_log (txn_base e) es1" "prefix es0 es1" "length es1 \<le> length es0 + n"
        using assms(1) by (auto simp: session_inv_def)
      have e': "e' = txn_base e" using 3 assms(4) by (simp add: execute_statement_def txn_base_def)
      obtain h where "eng_txn_audit_head e = Some h" using True assms(1) by (auto simp: session_inv_def)
      from txn_base_simps(1) [OF True this] have "\<not> in_transaction (eng_store e')"
        by (simp add: e' rollback_transaction_def in_transaction_def)
      then have "session_inv es0 (Suc n) e' es1" using es1 e' by (auto simp: session_inv_def)
      then show ?thesis ..
    qed
  qed
qed

lemma reaches_inv:
  assumes "reaches e0 n e" "audit_log e0 es0" "\<not> in_transaction (eng_store e0)" "length es0 + n < 2 ^ 64"
  shows "\<exists>es. session_inv es0 n e es"
  using assms
proof (induction rule: reaches.induct)
  case (start e0)
  then show ?case by (auto simp: session_inv_def)
next
  case (step e0 n e w st e' r)
  then obtain es where "session_inv es0 n e es" by auto
  from session_step [OF this _ step.hyps(2,3,4)] step.prems show ?case by blast
qed

section \<open>Properties\<close>

text \<open>A new local database, for concrete instances.\<close>

definition demo_engine :: engine where
  "demo_engine = \<lparr>eng_store = store_local empty_store, eng_master = replicate 32 1, eng_local = True,
     eng_audit_head = (0, GENESIS_ROOT), eng_txn_audit_head = None, eng_advisor = advisor_default\<rparr>"

definition demo_world :: "io_outcome \<Rightarrow> world" where
  "demo_world io = \<lparr>w_read = (\<lambda>_. ok_env), w_write = (\<lambda>_. ok_env), w_commit = ok_env\<lparr>env_io := io\<rparr>,
     w_nonce = (\<lambda>_. replicate 12 0), w_salt = replicate 16 0, w_time = 0, w_fmt64 = (\<lambda>_. []), w_fmt32 = (\<lambda>_. [])\<rparr>"

lemma demo_nonces: "nonces_ok (demo_world io)"
  by (simp add: nonces_ok_def demo_world_def NONCE_LEN_def)

lemma demo_view: "local_ok (eng_store demo_engine)" "store_view (eng_store demo_engine) = Map.empty"
  by (simp_all add: demo_engine_def store_local_def local_ok_def store_view_def backend_view_def empty_store_def)

lemma demo_log: "audit_log demo_engine []" "\<not> in_transaction (eng_store demo_engine)"
proof -
  have "listing Map.empty AUDIT_PREFIX []" by (simp add: listing_def restrict_prefix_def fun_eq_iff)
  then show "audit_log demo_engine []"
    using demo_view by (auto simp: audit_log_def audit_check_def demo_engine_def intro!: exI [of _ "[]"])
  show "\<not> in_transaction (eng_store demo_engine)"
    by (simp add: demo_engine_def store_local_def in_transaction_def)
qed

lemma failed_commit:
  assumes "audit_log e es" "in_transaction (eng_store e)" "eng_txn_audit_head e = Some h" "audit_log (txn_base e) es1"
    and "length es1 < length es" "length es < 2 ^ 64" "execute_statement w Commit e = (e', Err err)"
  shows "audit_verify w' e' = Err (Audit_error ''audit head does not match the recomputed chain'')
    \<and> execute_statement w' Rollback e' = (e', Err (Schema_error ''no transaction is open''))"
proof -
  obtain ov where ov: "sto_overlay (eng_store e) = Some ov" using assms(2) by (auto simp: in_transaction_def)
  obtain s' r' where c: "commit_transaction (w_commit w) (eng_store e) = (s', r')" by fastforce
  have fail: "r' = Err err" "e' = e\<lparr>eng_store := s'\<rparr>"
    using assms(2,7) c by (auto simp: execute_statement_def engine_commit_transaction_def split: result.splits)
  have "local_ok (eng_store e)" using assms(1) by (simp add: audit_log_def)
  from local_commit_transaction [OF this ov c] fail
  have s': "local_ok s'" "\<not> in_transaction s'" "store_view s' = backend_view (sto_backend (eng_store e))" by auto
  note base = txn_base_simps [OF assms(2,3)]
  have bview: "store_view (eng_store (txn_base e)) = store_view s'"
    unfolding s'(3) base(1) by (simp add: store_view_def rollback_transaction_def)
  from assms(4) obtain pairs where pairs: "listing (store_view s') AUDIT_PREFIX pairs"
    "audit_check (derive_key (eng_master e) ''audit'') h pairs = Ok es1"
    unfolding audit_log_def bview base(2,3) by blast
  obtain ps where "store_scan_prefix (w_read w' AUDIT_PREFIX) s' AUDIT_PREFIX = Ok ps" "listing (store_view s') AUDIT_PREFIX ps"
    using local_scan [OF s'(1)] by blast
  then have scan: "store_scan_prefix (w_read w' AUDIT_PREFIX) s' AUDIT_PREFIX = Ok pairs"
    using listing_unique [OF _ pairs(1)] by blast
  have head: "fst (eng_audit_head e) = word_of_nat (length es)"
    using assms(1) by (auto simp: audit_log_def audit_check_exact)
  from pairs(2) obtain root where walk: "audit_walk (derive_key (eng_master e) ''audit'') [] GENESIS_ROOT pairs = Ok (es1, root)"
    by (auto simp: audit_check_def split: if_splits prod.splits)
  have "(word_of_nat (length es1) :: u64) \<noteq> word_of_nat (length es)"
    using assms(5,6) by (simp add: word_of_nat_eq_iff take_bit_eq_mod)
  then have "(word_of_nat (length es1), root) \<noteq> eng_audit_head e" using head by (metis fst_conv)
  then have "audit_verify w' e' = Err (Audit_error ''audit head does not match the recomputed chain'')"
    by (simp add: audit_verify_def fail(2) scan audit_check_def walk)
  then show ?thesis using s'(2) by (simp add: execute_statement_def engine_rollback_transaction_def fail(2))
qed

lemma bt_insert_not_Nil [simp]: "bt_insert k v m \<noteq> []"
  by (cases m) auto

lemma demo_txn:
  defines "w \<equiv> demo_world Io_ok"
  defines "e1 \<equiv> fst (execute_statement w Begin demo_engine)"
  defines "e2 \<equiv> fst (execute_statement w (Create_table ''t'' []) e1)"
  shows "\<exists>entry. audit_log e2 [entry]" "in_transaction (eng_store e2)" "eng_txn_audit_head e2 = Some (0, GENESIS_ROOT)"
    "audit_log (txn_base e2) []" "\<exists>e' err. execute_statement (demo_world (Write_failed 0)) Commit e2 = (e', Err err)"
    "audit_log e1 []" "\<exists>e' q. execute_statement w Commit e2 = (e', Ok q)"
proof -
  have e1: "e1 = demo_engine\<lparr>eng_txn_audit_head := Some (0, GENESIS_ROOT), eng_store := store_begin (eng_store demo_engine)\<rparr>"
    using demo_log(2) by (simp add: e1_def execute_statement_def begin_transaction_def) (simp add: demo_engine_def)
  have none: "sto_overlay (eng_store demo_engine) = None" by (simp add: demo_engine_def store_local_def)
  have v1: "local_ok (eng_store e1)" "store_view (eng_store e1) = Map.empty"
    using demo_view none by (auto simp: e1 store_begin_def local_ok_def store_view_def)
  have "reaches demo_engine (Suc 0) e1"
    by (rule reaches.step [OF reaches.start demo_nonces [of Io_ok], of Begin]) (simp_all add: prod_eq_iff e1_def w_def)
  from reaches_inv [OF this demo_log] obtain es1 where i1: "session_inv [] 1 e1 es1" by auto
  show log1: "audit_log e1 []"
    using demo_log(1) v1 demo_view by (simp add: audit_log_def) (simp add: e1)
  define b where "b = add_schema w (eng_master e1) \<lparr>ts_name = ''t'', ts_columns = []\<rparr> []"
  have ex: "execute_statement w (Create_table ''t'' []) e1
      = finish (Created ''t'') (commit_audited w CREATE_TABLE (table_tag (eng_master e1) ''t'') b e1)"
    using local_get [OF v1(1)] v1(2)
    by (simp add: execute_statement_def create_table_def schema_def try_res_def create_table_check_def b_def Let_def)
  have bne: "b \<noteq> []" by (simp add: b_def add_schema_def seal_put_def batch_put_def)
  obtain e' r where c: "commit_with_audit w CREATE_TABLE (table_tag (eng_master e1) ''t'') (digest_batch b) b e1 = (e', r)" by fastforce
  have ov1: "sto_overlay (eng_store e1) = Some []" by (simp add: e1 store_begin_def)
  have com: "r = Ok () \<and> (\<exists>ov. sto_overlay (eng_store e') = Some ov \<and> ov \<noteq> [])
      \<and> sto_backend (eng_store e') = sto_backend (eng_store e1)"
    using c ov1 by (auto simp: commit_with_audit_def store_commit_def Let_def seal_put_def batch_put_def batch_entries_def
        overlay_insert_def split: prod.splits)
  then have r: "r = Ok ()" and ov': "\<exists>ov. sto_overlay (eng_store e') = Some ov \<and> ov \<noteq> []"
    "sto_backend (eng_store e') = sto_backend (eng_store e1)" by blast+
  have e2: "e2 = e'" using ex bne c r by (simp add: e2_def commit_audited_def finish_def)
  have "data_batch b" by (simp add: b_def)
  from commit_with_audit_log [OF log1 _ this _ _ demo_nonces [of Io_ok, folded w_def] c] r
  show "\<exists>entry. audit_log e2 [entry]" by (auto simp: e2 digest_batch_eq)
  have "e2 = fst (execute_statement w (Create_table ''t'' []) e1)" by (simp add: e2_def)
  then obtain r2 where ex2: "execute_statement w (Create_table ''t'' []) e1 = (e2, r2)" by (metis prod.collapse)
  note txn = statement_txn [OF v1(1) _ ex2]
  show tx: "in_transaction (eng_store e2)" and h: "eng_txn_audit_head e2 = Some (0, GENESIS_ROOT)"
    using txn by (auto simp: transactional_def e1 store_begin_def in_transaction_def)
  have "rollback_transaction (eng_store e2) = eng_store demo_engine"
    using ov' none by (simp add: rollback_transaction_def e2 e1 store_begin_def)
  then have "audit_log (txn_base e2) [] = audit_log demo_engine []"
    using txn_base_simps [OF tx h] txn by (intro audit_log_same) (simp_all add: transactional_def e1, simp_all add: demo_engine_def)
  then show "audit_log (txn_base e2) []" using demo_log(1) by simp
  from ov' obtain ov where ov: "sto_overlay (eng_store e2) = Some ov" "ov \<noteq> []" by (auto simp: e2)
  then have "overlay_batch ov \<noteq> []" by (simp add: overlay_batch_map)
  moreover have "sto_backend (eng_store e2) = Local empty_store"
    using ov' by (simp add: e2 e1 store_begin_def demo_engine_def store_local_def)
  ultimately show "\<exists>e' err. execute_statement (demo_world (Write_failed 0)) Commit e2 = (e', Err err)"
    "\<exists>e' q. execute_statement w Commit e2 = (e', Ok q)"
    using tx ov by (auto simp: execute_statement_def engine_commit_transaction_def commit_transaction_def Let_def w_def
        demo_world_def storage_commit_log log_write_def write_wal_def storage_res_def empty_store_def
        split: prod.splits result.splits)
qed

text \<open>
  C2: in a local database, every statement other than \<open>BEGIN\<close>, \<open>COMMIT\<close> and \<open>ROLLBACK\<close> either leaves the
  contents of the store, as every read sees them (the in-memory table and the transaction overlay), and
  the verified audit log as they were (errors, failed writes, reads, statements that change nothing), or
  succeeds and appends to the log exactly one entry, whose digest is the digest of the batch of sealed
  writes that took effect: no visible change without an entry, and no entry without a change. This holds
  in and outside transactions and for every outcome of the disk. It speaks of the contents in memory: a
  write whose \<open>fsync\<close> fails changes nothing there, while its bytes may stay in the log file.
\<close>

theorem statement_recorded:
  assumes "audit_log e es" "length es + 1 < 2 ^ 64" "nonces_ok w" "\<not> transactional st"
    and "execute_statement w st e = (e', r)"
  shows "(audit_verify w' e' = Ok es \<and> store_view (eng_store e') = store_view (eng_store e))
    \<or> (\<exists>b entry q. r = Ok q \<and> b \<noteq> [] \<and> data_batch b \<and> ae_writes_digest entry = digest_batch b
      \<and> audit_verify w' e' = Ok (es @ [entry])
      \<and> (\<forall>k. data_key k \<longrightarrow> store_view (eng_store e') k = spec_batch (store_view (eng_store e)) b k))"
  using statement_log [OF assms] audit_log_verify by blast

text \<open>The instance: \<open>CREATE TABLE t\<close> after \<open>BEGIN\<close> on the new database appends its entry.\<close>

theorem statement_recorded_witness:
  "\<exists>e1 e' q b entry. execute_statement (demo_world Io_ok) Begin demo_engine = (e1, Ok Begun)
    \<and> execute_statement (demo_world Io_ok) (Create_table ''t'' []) e1 = (e', Ok q)
    \<and> b \<noteq> [] \<and> ae_writes_digest entry = digest_batch b
    \<and> audit_verify (demo_world Io_ok) e' = Ok [entry]
    \<and> (\<forall>k. data_key k \<longrightarrow> store_view (eng_store e') k = spec_batch (store_view (eng_store e1)) b k)"
proof -
  let ?w = "demo_world Io_ok"
  obtain e1 where e1: "execute_statement ?w Begin demo_engine = (e1, Ok Begun)"
    using demo_log(2) by (simp add: execute_statement_def begin_transaction_def)
  obtain e' r where ex: "execute_statement ?w (Create_table ''t'' []) e1 = (e', r)" by fastforce
  have log: "audit_log e1 []" using demo_txn(6) by (simp add: e1)
  obtain x where "audit_log e' [x]" using demo_txn(1) by (auto simp: e1 ex)
  then have x: "audit_verify ?w e' = Ok [x]" by (rule audit_log_verify)
  have "length ([] :: audit_entry list) + 1 < 2 ^ 64" "\<not> transactional (Create_table ''t'' [])"
    by (simp_all add: transactional_def)
  from statement_recorded [OF log this(1) demo_nonces this(2) ex, of ?w] e1 ex x show ?thesis by auto
qed

text \<open>
  C6: in a local database, through any session of statements in which no \<open>COMMIT\<close> of an open transaction
  fails (every other disk error is allowed), with transactions begun, rolled back and committed at any
  point, the audit chain verifies after every statement and the log of the session's start stays a
  prefix of it. The start is any moment outside a transaction; a \<open>ROLLBACK\<close> drops the entries made since
  its \<open>BEGIN\<close>, and no others.
\<close>

theorem audit_chain_maintained:
  assumes "audit_log e0 es0" "\<not> in_transaction (eng_store e0)" "reaches e0 n e" "length es0 + n < 2 ^ 64"
  shows "\<exists>es. audit_verify w e = Ok es \<and> prefix es0 es \<and> length es \<le> length es0 + n"
  using reaches_inv [OF assms(3,1,2,4)] audit_log_verify by (auto simp: session_inv_def)

text \<open>The instance: \<open>BEGIN\<close>, \<open>CREATE TABLE\<close>, \<open>COMMIT\<close>, \<open>BEGIN\<close>, \<open>DROP TABLE\<close>, \<open>ROLLBACK\<close>, then a
  \<open>CREATE TABLE\<close> whose \<open>fsync\<close> fails.\<close>

definition demo_run :: "(io_outcome \<times> statement) list \<Rightarrow> engine" where
  "demo_run sts = foldl (\<lambda>e (io, st). fst (execute_statement (demo_world io) st e)) demo_engine sts"

lemma demo_run_snoc: "reaches demo_engine n (demo_run sts) \<Longrightarrow>
    (st = Commit \<Longrightarrow> is_ok (snd (execute_statement (demo_world io) Commit (demo_run sts)))) \<Longrightarrow>
    reaches demo_engine (Suc n) (demo_run (sts @ [(io, st)]))"
  by (rule reaches.step [of _ _ _ "demo_world io" st]) (auto simp: demo_run_def demo_nonces prod_eq_iff)

theorem audit_chain_maintained_witness:
  "\<exists>es. audit_verify (demo_world Io_ok) (demo_run [(Io_ok, Begin), (Io_ok, Create_table ''t'' []), (Io_ok, Commit),
        (Io_ok, Begin), (Io_ok, Drop_table ''t''), (Io_ok, Rollback), (Sync_failed, Create_table ''u'' [])]) = Ok es
    \<and> prefix [] es \<and> length es \<le> 7"
proof -
  have r2: "reaches demo_engine 2 (demo_run [(Io_ok, Begin), (Io_ok, Create_table ''t'' [])])"
    using demo_run_snoc [OF demo_run_snoc [of 0 "[]" Begin Io_ok], of "Create_table ''t'' []" Io_ok] reaches.start [of demo_engine]
    by (simp add: demo_run_def numeral_2_eq_2)
  have "is_ok (snd (execute_statement (demo_world Io_ok) Commit (demo_run [(Io_ok, Begin), (Io_ok, Create_table ''t'' [])])))"
    using demo_txn(7) by (auto simp: demo_run_def)
  from demo_run_snoc [OF r2 this]
  have "reaches demo_engine 3 (demo_run [(Io_ok, Begin), (Io_ok, Create_table ''t'' []), (Io_ok, Commit)])" by simp
  from demo_run_snoc [OF demo_run_snoc [OF demo_run_snoc [OF demo_run_snoc [OF this, of Begin Io_ok],
        of "Drop_table ''t''" Io_ok], of Rollback Io_ok], of "Create_table ''u'' []" Sync_failed]
  have "reaches demo_engine 7 (demo_run [(Io_ok, Begin), (Io_ok, Create_table ''t'' []), (Io_ok, Commit),
        (Io_ok, Begin), (Io_ok, Drop_table ''t''), (Io_ok, Rollback), (Sync_failed, Create_table ''u'' [])])"
    by simp
  from audit_chain_maintained [OF demo_log this, of "demo_world Io_ok"] show ?thesis by simp
qed

text \<open>
  C38: what a failed \<open>COMMIT\<close> leaves behind. When a transaction with recorded changes fails to commit, its
  writes are gone but the cached audit head has kept counting them: the chain no longer verifies, and
  \<open>ROLLBACK\<close>, which would restore the head, is refused because the transaction is already closed.
\<close>

theorem failed_commit_breaks_audit:
  assumes "audit_log e es" "in_transaction (eng_store e)" "eng_txn_audit_head e = Some h" "audit_log (txn_base e) es1"
    and "length es1 < length es" "length es < 2 ^ 64" "execute_statement w Commit e = (e', Err err)"
  shows "audit_verify w' e' = Err (Audit_error ''audit head does not match the recomputed chain'')
    \<and> execute_statement w' Rollback e' = (e', Err (Schema_error ''no transaction is open''))"
  by (rule failed_commit [OF assms])

theorem failed_commit_breaks_audit_witness:
  "\<exists>e' err. execute_statement (demo_world (Write_failed 0)) Commit
      (fst (execute_statement (demo_world Io_ok) (Create_table ''t'' [])
        (fst (execute_statement (demo_world Io_ok) Begin demo_engine)))) = (e', Err err)
    \<and> audit_verify (demo_world Io_ok) e' = Err (Audit_error ''audit head does not match the recomputed chain'')
    \<and> execute_statement (demo_world Io_ok) Rollback e' = (e', Err (Schema_error ''no transaction is open''))"
proof -
  let ?e = "fst (execute_statement (demo_world Io_ok) (Create_table ''t'' [])
        (fst (execute_statement (demo_world Io_ok) Begin demo_engine)))"
  obtain entry where log: "audit_log ?e [entry]" using demo_txn(1) by blast
  obtain e' err where ex: "execute_statement (demo_world (Write_failed 0)) Commit ?e = (e', Err err)" using demo_txn(5) by blast
  from failed_commit_breaks_audit [OF log demo_txn(2,3,4) _ _ ex, of "demo_world Io_ok"] ex show ?thesis by auto
qed

end
