(* ===== verification/Kem_Algebra.thy ===== *)
theory Kem_Algebra
  imports Kem_Ring
begin

text \<open>
  The polynomials of ML-KEM as a commutative ring: addition and subtraction are those of the code, the
  product is the schoolbook product. Its associativity is read off the transform domain. In this type the
  computations of the encryption scheme are equations that the ring laws settle.
\<close>

section \<open>The transform domain\<close>

lemma kem_ntt_mul_length [simp]: "length (kem_ntt_mul a b) = 256"
  using pairs_nth(3) [of 0 128] by (simp add: kem_ntt_mul_def Let_def)

lemma kem_ntt_mul_nth:
  assumes "k < 128"
  shows "kem_ntt_mul a b ! (2 * k) = reduce (a ! (2 * k) * b ! (2 * k) + a ! (2 * k + 1) * b ! (2 * k + 1) mod kem_q * kem_gammas ! k)"
    "kem_ntt_mul a b ! (2 * k + 1) = reduce (a ! (2 * k) * b ! (2 * k + 1) + a ! (2 * k + 1) * b ! (2 * k))"
  using pairs_nth(1,2) [OF assms] unfolding kem_ntt_mul_def Let_def by simp_all

lemma pair_index: "i < 256 \<Longrightarrow> \<exists>k < 128. i = 2 * k \<or> i = 2 * k + (1 :: nat)"
  by presburger

lemma kem_poly_ntt_mul [simp, intro]: "kem_poly (kem_ntt_mul a b)"
proof -
  have "0 \<le> kem_ntt_mul a b ! i \<and> kem_ntt_mul a b ! i < kem_q" if "i < 256" for i
    using pair_index [OF that] by (auto simp: kem_ntt_mul_nth simp del: One_nat_def)
  then show ?thesis by (simp add: kem_poly_def list_all_length)
qed

lemma kem_ntt_mul_congr:
  assumes "k < 128"
  shows "congr kem_q (kem_ntt_mul a b ! (2 * k)) (a ! (2 * k) * b ! (2 * k) + a ! (2 * k + 1) * b ! (2 * k + 1) * kem_gammas ! k)"
    "congr kem_q (kem_ntt_mul a b ! (2 * k + 1)) (a ! (2 * k) * b ! (2 * k + 1) + a ! (2 * k + 1) * b ! (2 * k))"
  unfolding kem_ntt_mul_nth [OF assms]
  by (rule congr_trans [OF congr_reduce(1)], intro congr_add congr_mult congr_of_mod congr_refl)
     (rule congr_reduce(1))

lemma kem_ntt_mul_assoc: "kem_ntt_mul (kem_ntt_mul a b) c = kem_ntt_mul a (kem_ntt_mul b c)"
proof (rule kem_poly_eqI)
  fix i :: nat assume "i < 256"
  then obtain k where k: "k < 128" "i = 2 * k \<or> i = 2 * k + 1" using pair_index by blast
  let ?g = "kem_gammas ! k"
  let ?a0 = "a ! (2 * k)" and ?a1 = "a ! (2 * k + 1)" and ?b0 = "b ! (2 * k)" and ?b1 = "b ! (2 * k + 1)"
    and ?c0 = "c ! (2 * k)" and ?c1 = "c ! (2 * k + 1)"
  note ab = kem_ntt_mul_congr [OF k(1), of a b] and bc = kem_ntt_mul_congr [OF k(1), of b c]
  have "congr kem_q (kem_ntt_mul (kem_ntt_mul a b) c ! (2 * k))
      ((?a0 * ?b0 + ?a1 * ?b1 * ?g) * ?c0 + (?a0 * ?b1 + ?a1 * ?b0) * ?c1 * ?g)"
    by (rule congr_trans [OF kem_ntt_mul_congr(1) [OF k(1)]]) (intro congr_add congr_mult ab congr_refl)
  moreover have "congr kem_q (kem_ntt_mul a (kem_ntt_mul b c) ! (2 * k))
      (?a0 * (?b0 * ?c0 + ?b1 * ?c1 * ?g) + ?a1 * (?b0 * ?c1 + ?b1 * ?c0) * ?g)"
    by (rule congr_trans [OF kem_ntt_mul_congr(1) [OF k(1)]]) (intro congr_add congr_mult bc congr_refl)
  moreover have "congr kem_q (kem_ntt_mul (kem_ntt_mul a b) c ! (2 * k + 1))
      ((?a0 * ?b0 + ?a1 * ?b1 * ?g) * ?c1 + (?a0 * ?b1 + ?a1 * ?b0) * ?c0)"
    by (rule congr_trans [OF kem_ntt_mul_congr(2) [OF k(1)]]) (intro congr_add congr_mult ab congr_refl)
  moreover have "congr kem_q (kem_ntt_mul a (kem_ntt_mul b c) ! (2 * k + 1))
      (?a0 * (?b0 * ?c1 + ?b1 * ?c0) + ?a1 * (?b0 * ?c0 + ?b1 * ?c1 * ?g))"
    by (rule congr_trans [OF kem_ntt_mul_congr(2) [OF k(1)]]) (intro congr_add congr_mult bc congr_refl)
  ultimately show "congr kem_q (kem_ntt_mul (kem_ntt_mul a b) c ! i) (kem_ntt_mul a (kem_ntt_mul b c) ! i)"
    using k(2) by (elim disjE) (simp_all only: congr_mod algebra_simps)
qed simp_all

lemma level_poly_unique:
  assumes "kem.on_level 7 f a" "kem.on_level 7 f b" "kem_poly a" "kem_poly b"
  shows "a = b"
  by (rule kem_poly_eqI [OF assms(3,4)]) (rule kem.level_unique [OF assms(2,1)])

lemma kem_ntt_schoolbook:
  assumes "length a = 256" "length b = 256"
  shows "kem_ntt (schoolbook kem_q a b) = kem_ntt_mul (kem_ntt a) (kem_ntt b)"
  using assms by (intro level_poly_unique [where f = "schoolbook kem_q a b"] kem_ntt_level kem_ntt_mul_level) (auto intro: kem_ntt_poly)

lemma kem_intt_ntt: "kem_poly a \<Longrightarrow> kem_intt (kem_ntt a) = a"
  using kem_intt_poly [OF kem_ntt_level, of a] by (simp add: kem_poly_def)

text \<open>The transform is a bijection: it is injective on a finite set.\<close>

lemma finite_kem_poly: "finite {a. kem_poly a}"
proof -
  have "{a. kem_poly a} \<subseteq> {a. set a \<subseteq> {0..<kem_q} \<and> length a = 256}" by (auto simp: kem_poly_def list_all_iff)
  then show ?thesis using finite_lists_length_eq [of "{0..<kem_q}" 256] finite_subset by blast
qed

lemma kem_ntt_intt: "kem_poly p \<Longrightarrow> kem_poly (kem_intt p) \<and> kem_ntt (kem_intt p) = p"
proof -
  assume p: "kem_poly p"
  have "inj_on kem_ntt {a. kem_poly a}" by (rule inj_on_inverseI [of _ kem_intt]) (simp add: kem_intt_ntt)
  moreover have "kem_ntt ` {a. kem_poly a} \<subseteq> {a. kem_poly a}" using kem_ntt_poly by (auto simp: kem_poly_def)
  ultimately have "kem_ntt ` {a. kem_poly a} = {a. kem_poly a}" using finite_kem_poly by (intro endo_inj_surj) auto
  with p obtain a where "kem_poly a" "p = kem_ntt a" by blast
  then show ?thesis by (simp add: kem_intt_ntt)
qed

section \<open>The ring\<close>

lemma kem_poly_add_nth: "i < 256 \<Longrightarrow> kem_poly_add a b ! i = reduce (a ! i + b ! i)"
  by (simp add: kem_poly_add_def)

lemma kem_poly_sub_nth: "i < 256 \<Longrightarrow> kem_poly_sub a b ! i = reduce (a ! i - b ! i)"
  by (simp add: kem_poly_sub_def)

typedef rq = "{a. kem_poly a}" morphisms coeffs Rq
  by (rule exI [of _ "replicate 256 0"]) (simp add: kem_poly_def list_all_iff kem_q_def)

setup_lifting type_definition_rq

lemma schoolbook_commute: "schoolbook q a b = schoolbook q b a"
proof -
  have "(\<Sum>i < 256. \<Sum>j < 256. a ! i * b ! j * (if i + j = k then 1 else if i + j = k + 256 then - 1 else 0))
      = (\<Sum>j < 256. \<Sum>i < 256. b ! j * a ! i * (if j + i = k then 1 else if j + i = k + 256 then - 1 else 0))" for k
    by (subst sum.swap) (simp only: mult.commute [of "a ! _"] add.commute)
  then show ?thesis unfolding schoolbook_def by simp
qed

lemma schoolbook_add: "schoolbook kem_q (kem_poly_add a b) c = kem_poly_add (schoolbook kem_q a c) (schoolbook kem_q b c)"
proof (rule kem_poly_eqI)
  fix k :: nat assume k: "k < 256"
  let ?s = "\<lambda>i j. if i + j = k then 1 else if i + j = k + 256 then - 1 else 0 :: int"
  have "congr kem_q (schoolbook kem_q (kem_poly_add a b) c ! k) (\<Sum>i < 256. \<Sum>j < 256. kem_poly_add a b ! i * c ! j * ?s i j)"
    by (simp add: schoolbook_nth [OF k])
  also have "congr kem_q \<dots> (\<Sum>i < 256. \<Sum>j < 256. (a ! i + b ! i) * c ! j * ?s i j)"
    by (intro congr_sum congr_mult congr_refl) (simp add: kem_poly_add_nth)
  also have "\<dots> = (\<Sum>i < 256. \<Sum>j < 256. a ! i * c ! j * ?s i j) + (\<Sum>i < 256. \<Sum>j < 256. b ! i * c ! j * ?s i j)"
    by (simp only: distrib_right sum.distrib)
  also have "congr kem_q \<dots> (schoolbook kem_q a c ! k + schoolbook kem_q b c ! k)"
    unfolding schoolbook_nth [OF k] by (intro congr_add congr_of_mod(2))
  also have "congr kem_q \<dots> (kem_poly_add (schoolbook kem_q a c) (schoolbook kem_q b c) ! k)"
    by (simp add: kem_poly_add_nth k)
  finally show "congr kem_q (schoolbook kem_q (kem_poly_add a b) c ! k) (kem_poly_add (schoolbook kem_q a c) (schoolbook kem_q b c) ! k)" .
qed (auto simp: kem_poly_schoolbook)

lemma schoolbook_assoc:
  assumes "kem_poly a" "kem_poly b" "kem_poly c"
  shows "schoolbook kem_q (schoolbook kem_q a b) c = schoolbook kem_q a (schoolbook kem_q b c)"
proof -
  have "length a = 256" "length b = 256" "length c = 256" using assms by (simp_all add: kem_poly_def)
  then have "kem_ntt (schoolbook kem_q (schoolbook kem_q a b) c) = kem_ntt (schoolbook kem_q a (schoolbook kem_q b c))"
    by (simp add: kem_ntt_schoolbook kem_ntt_mul_assoc)
  then show ?thesis using kem_intt_ntt kem_poly_schoolbook by metis
qed

instantiation rq :: comm_ring
begin

lift_definition zero_rq :: rq is "replicate 256 0" by (simp add: kem_poly_def list_all_iff kem_q_def)
lift_definition plus_rq :: "rq \<Rightarrow> rq \<Rightarrow> rq" is kem_poly_add by simp
lift_definition minus_rq :: "rq \<Rightarrow> rq \<Rightarrow> rq" is kem_poly_sub by simp
lift_definition uminus_rq :: "rq \<Rightarrow> rq" is "kem_poly_sub (replicate 256 0)" by simp
lift_definition times_rq :: "rq \<Rightarrow> rq \<Rightarrow> rq" is "schoolbook kem_q" by (simp add: kem_poly_schoolbook)

instance
proof
  fix a b c :: rq
  have add: "congr kem_q (kem_poly_add x y ! i) (x ! i + y ! i)" if "i < 256" for x y i by (simp add: kem_poly_add_nth that)
  show "a * b * c = a * (b * c)" by transfer (rule schoolbook_assoc)
  show "a * b = b * a" by transfer (rule schoolbook_commute)
  show "(a + b) * c = a * c + b * c" by transfer (rule schoolbook_add)
  show "a + b + c = a + (b + c)" by transfer
    (rule kem_poly_eqI; simp add: kem_poly_add_nth reduce_def congr_mod mod_simps add.assoc)
  show "a + b = b + a" by transfer (simp add: kem_poly_add_def add.commute)
  show "0 + a = a" by transfer (rule kem_poly_eqI; simp add: kem_poly_add_nth)
  have "kem_poly (replicate 256 0)" by (simp add: kem_poly_def list_all_iff kem_q_def)
  then show "- a + a = 0" by transfer
    (rule kem_poly_eqI; simp add: kem_poly_add_nth kem_poly_sub_nth reduce_def congr_mod mod_simps)
  show "a - b = a + - b" by transfer
    (rule kem_poly_eqI; simp add: kem_poly_add_nth kem_poly_sub_nth reduce_def congr_mod mod_simps)
qed

end

section \<open>Transforms into the ring\<close>

lemma kem_ntt_add:
  assumes "length a = 256" "length b = 256"
  shows "kem_ntt (kem_poly_add a b) = kem_poly_add (kem_ntt a) (kem_ntt b)"
proof (rule level_poly_unique)
  show "kem.on_level 7 (kem_poly_add a b) (kem_ntt (kem_poly_add a b))" "kem_poly (kem_ntt (kem_poly_add a b))"
    by (auto intro!: kem_ntt_level kem_ntt_poly simp: kem_poly_add_def)
  show "kem.on_level 7 (kem_poly_add a b) (kem_poly_add (kem_ntt a) (kem_ntt b))"
    by (rule kem.level_add [OF kem_ntt_level [OF assms(1)] kem_ntt_level [OF assms(2)]])
       (auto simp: kem_poly_add_nth, simp add: kem_poly_add_def)
qed simp

text \<open>The ring element that an array of the code stands for, and the one whose transform it is.\<close>

definition of_ntt :: "int list \<Rightarrow> rq" where "of_ntt p = Rq (kem_intt p)"

lemma coeffs_poly [simp]: "kem_poly (coeffs x)"
  using coeffs [of x] by simp

lemma Rq_inject_poly: "kem_poly a \<Longrightarrow> kem_poly b \<Longrightarrow> Rq a = Rq b \<longleftrightarrow> a = b"
  by (simp add: Rq_inject)

lemma Rq_add: "kem_poly a \<Longrightarrow> kem_poly b \<Longrightarrow> Rq (kem_poly_add a b) = Rq a + Rq b"
  by (simp add: plus_rq.abs_eq eq_onp_same_args)

lemma Rq_sub: "kem_poly a \<Longrightarrow> kem_poly b \<Longrightarrow> Rq (kem_poly_sub a b) = Rq a - Rq b"
  by (simp add: minus_rq.abs_eq eq_onp_same_args)

lemma Rq_mult: "kem_poly a \<Longrightarrow> kem_poly b \<Longrightarrow> Rq (schoolbook kem_q a b) = Rq a * Rq b"
  by (simp add: times_rq.abs_eq eq_onp_same_args)

lemma of_ntt_ntt [simp]: "kem_poly a \<Longrightarrow> of_ntt (kem_ntt a) = Rq a"
  by (simp add: of_ntt_def kem_intt_ntt)

lemma of_ntt_add: "kem_poly p \<Longrightarrow> kem_poly p' \<Longrightarrow> of_ntt (kem_poly_add p p') = of_ntt p + of_ntt p'"
proof -
  assume p: "kem_poly p" "kem_poly p'"
  note i = kem_ntt_intt [OF p(1)] kem_ntt_intt [OF p(2)]
  have "kem_intt (kem_poly_add p p') = kem_intt (kem_ntt (kem_poly_add (kem_intt p) (kem_intt p')))"
    using i by (subst kem_ntt_add) (simp_all add: kem_poly_def)
  then show ?thesis using i by (simp add: kem_intt_ntt of_ntt_def Rq_add)
qed

lemma of_ntt_mult: "kem_poly p \<Longrightarrow> kem_poly p' \<Longrightarrow> of_ntt (kem_ntt_mul p p') = of_ntt p * of_ntt p'"
proof -
  assume p: "kem_poly p" "kem_poly p'"
  note i = kem_ntt_intt [OF p(1)] kem_ntt_intt [OF p(2)]
  have "kem_intt (kem_ntt_mul p p') = kem_intt (kem_ntt_mul (kem_ntt (kem_intt p)) (kem_ntt (kem_intt p')))"
    using i by simp
  also have "\<dots> = schoolbook kem_q (kem_intt p) (kem_intt p')" using i by (intro kem_mult) (simp_all add: kem_poly_def)
  finally show ?thesis using i by (simp add: of_ntt_def Rq_mult)
qed

end
