(* ===== verification/Ml_Kem_Correct.thy ===== *)
theory Ml_Kem_Correct
  imports Ml_Kem Kem_Algebra
begin

text \<open>
  What ML-KEM guarantees: the bit packing loses nothing, and decapsulation recovers the shared secret of
  an honest encapsulation whenever the noise that the lattice scheme adds stays below a quarter of the
  modulus. The noise is a function of the seeds; the algebra is carried out in the ring of polynomials.
\<close>

section \<open>Bit packing\<close>

lemma set_bit_order: "set (bit_order d) = {(i, b). i < 256 \<and> b < d}"
  by (auto simp: bit_order_def)

lemma pack_bits:
  assumes "length out = 32 * d" "\<And>i b. (i, b) \<in> set ps \<Longrightarrow> i < 256 \<and> b < d" "p < 256 * d"
  shows "length (foldl (put_bit f d) out ps) = 32 * d \<and> (bit (foldl (put_bit f d) out ps ! (p div 8)) (p mod 8) \<longleftrightarrow>
    bit (out ! (p div 8)) (p mod 8) \<or> (\<exists>(i, b) \<in> set ps. d * i + b = p \<and> bit (f ! i) b))"
  using assms(1,2)
proof (induction ps arbitrary: out)
  case (Cons x ps)
  obtain i b where x: "x = (i, b)" by fastforce
  let ?q = "d * i + b"
  have ib: "i < 256" "b < d" using Cons.prems(2) [of i b] x by simp_all
  have "d * i + b < d * Suc i" using ib by simp
  also have "\<dots> \<le> d * 256" using ib by (intro mult_le_mono) auto
  finally have q: "?q div 8 < 32 * d" by (simp add: less_mult_imp_div_less)
  have same: "p = ?q \<longleftrightarrow> p div 8 = ?q div 8 \<and> p mod 8 = ?q mod 8" by (metis div_mult_mod_eq)
  have "length (put_bit f d out x) = 32 * d" using Cons.prems(1) by (simp add: put_bit_def x Let_def)
  moreover have "bit (put_bit f d out x ! (p div 8)) (p mod 8) \<longleftrightarrow> bit (out ! (p div 8)) (p mod 8) \<or> ?q = p \<and> bit (f ! i) b"
    using Cons.prems(1) q same unfolding put_bit_def x Let_def
    by (auto simp: nth_list_update bit_or_iff bit_exp_iff)
  ultimately show ?case using Cons.IH [of "put_bit f d out x"] Cons.prems(2) by (auto simp: x)
qed simp

lemma byte_encode_length [simp]: "length (byte_encode f d) = 32 * d"
proof -
  have "length (foldl (put_bit f d) out ps) = length out" for out ps
    by (induction ps arbitrary: out) (auto simp: put_bit_def Let_def)
  then show ?thesis by (simp add: byte_encode_def)
qed

lemma bit_byte_encode:
  assumes "i < 256" "b < d"
  shows "bit (byte_encode f d ! ((d * i + b) div 8)) ((d * i + b) mod 8) \<longleftrightarrow> bit (f ! i) b"
proof -
  have "d * i + b < d * Suc i" using assms by simp
  also have "\<dots> \<le> d * 256" using assms by (intro mult_le_mono) auto
  finally have p: "d * i + b < 256 * d" by simp
  have inj: "d * i' + b' = d * i + b \<longleftrightarrow> i' = i \<and> b' = b" if "b' < d" for i' b'
    using that assms(2) by (metis add.commute div_mult_self4 div_less mod_mult_self4 mod_less add_0 not_less_zero)
  have "bit (replicate (32 * d) 0 ! ((d * i + b) div 8) :: byte) ((d * i + b) mod 8) = False" using p by simp
  with pack_bits [of "replicate (32 * d) 0" d "bit_order d" "d * i + b" f] p show ?thesis
    using assms inj by (auto simp: byte_encode_def set_bit_order)
qed

lemma bit_collect: "bit (foldl (\<lambda>v b. v OR push_bit b (of_bool (B b))) (0 :: int) [0..<d]) n \<longleftrightarrow> n < d \<and> B n"
  by (induction d) (auto simp: bit_or_iff bit_push_bit_iff less_Suc_eq bit_of_bool_iff)

lemma bit_below: "0 \<le> (x :: int) \<Longrightarrow> x < 2 ^ d \<Longrightarrow> d \<le> n \<Longrightarrow> \<not> bit x n"
  by (metis bit_take_bit_iff linorder_not_less take_bit_int_eq_self)

lemma byte_decode_bits:
  assumes "i < 256" "0 \<le> x" "x < 2 ^ d" "x < (if d < 12 then 2 ^ d else kem_q)"
    and "\<And>b. b < d \<Longrightarrow> bit (bs ! ((d * i + b) div 8)) ((d * i + b) mod 8) \<longleftrightarrow> bit x b"
  shows "byte_decode bs d ! i = x"
proof -
  have "foldl (\<lambda>v b. v OR push_bit b (of_bool (bit (bs ! ((d * i + b) div 8)) ((d * i + b) mod 8)))) (0 :: int) [0..<d] = x"
  proof (rule bit_eqI)
    fix n
    show "bit (foldl (\<lambda>v b. v OR push_bit b (of_bool (bit (bs ! ((d * i + b) div 8)) ((d * i + b) mod 8)))) (0 :: int) [0..<d]) n = bit x n"
      unfolding bit_collect using assms(5) [of n] bit_below [OF assms(2,3), of n] by (cases "n < d") simp_all
  qed
  moreover have "0 < (if d < 12 then 2 ^ d else kem_q)" by (simp add: kem_q_def)
  ultimately show ?thesis using assms(1,2,4) by (auto simp: byte_decode_def Let_def max_def)
qed

lemma length_byte_decode [simp]: "length (byte_decode bs d) = 256"
  by (simp add: byte_decode_def Let_def)

text \<open>What a packed polynomial must hold: coefficients of \<open>d\<close> bits, or of the ring for \<open>d = 12\<close>.\<close>

definition packable :: "int list \<Rightarrow> nat \<Rightarrow> bool" where
  "packable f d \<longleftrightarrow> length f = 256 \<and> d \<le> 12 \<and> list_all (\<lambda>x. 0 \<le> x \<and> x < (if d < 12 then 2 ^ d else kem_q)) f"

lemma byte_decode_encode:
  assumes "packable f d"
  shows "byte_decode (byte_encode f d) d = f"
proof (rule nth_equalityI)
  fix i assume "i < length (byte_decode (byte_encode f d) d)"
  then have i: "i < 256" by simp
  have "0 \<le> f ! i" "f ! i < (if d < 12 then 2 ^ d else kem_q)"
    using assms i by (auto simp: packable_def list_all_length)
  moreover have "(if d < 12 then 2 ^ d else kem_q) \<le> 2 ^ d" using assms by (auto simp: packable_def kem_q_def)
  ultimately show "byte_decode (byte_encode f d) d ! i = f ! i"
    using i by (intro byte_decode_bits) (auto simp: bit_byte_encode)
qed (use assms in \<open>simp add: packable_def\<close>)

lemma byte_encode_decode_1:
  assumes "length m = 32"
  shows "byte_encode (byte_decode m 1) 1 = m"
proof (rule nth_equalityI)
  show "length (byte_encode (byte_decode m 1) 1) = length m" using assms by simp
  fix k assume "k < length (byte_encode (byte_decode m 1) 1)"
  then have k: "k < 32" by simp
  show "byte_encode (byte_decode m 1) 1 ! k = m ! k"
  proof (rule bit_word_eqI)
    fix n assume n: "n < LENGTH(8)"
    let ?p = "8 * k + n"
    have p: "?p < 256" "?p div 8 = k" "?p mod 8 = n" using k n by simp_all
    have "bit (byte_encode (byte_decode m 1) 1 ! k) n \<longleftrightarrow> bit (byte_decode m 1 ! ?p) 0"
      using bit_byte_encode [of ?p 0 1 "byte_decode m 1"] p by simp
    also have "byte_decode m 1 ! ?p = of_bool (bit (m ! k) n)"
      by (rule byte_decode_bits) (use p in \<open>auto simp: bit_0\<close>)
    finally show "bit (byte_encode (byte_decode m 1) 1 ! k) n = bit (m ! k) n" by (simp add: bit_0)
  qed
qed

section \<open>Sampling\<close>

lemma sample_loop_poly:
  assumes "sample_loop xof a = Some r" "length a \<le> 256" "list_all (\<lambda>x. 0 \<le> x \<and> x < kem_q) a"
  shows "kem_poly r"
proof -
  let ?ok = "list_all (\<lambda>x. 0 \<le> x \<and> x < kem_q)"
  have "length a \<le> 256 \<and> ?ok a \<longrightarrow> kem_poly r"
  proof (rule sample_loop.raw_induct [OF _ assms(1)])
    fix loop xof a r
    assume IH: "\<And>xof a r. loop xof a = Some r \<Longrightarrow> length a \<le> 256 \<and> ?ok a \<longrightarrow> kem_poly r"
      and body: "(if length a < 256 then Option.bind (keccak_squeeze xof 3) (\<lambda>(xof1, buf). loop xof1 (sample_step buf a))
         else Some a) = Some r"
    show "length a \<le> 256 \<and> ?ok a \<longrightarrow> kem_poly r"
    proof (intro impI)
      assume a: "length a \<le> 256 \<and> ?ok a"
      show "kem_poly r"
      proof (cases "length a < 256")
        case True
        with body obtain x1 buf where sq: "keccak_squeeze xof 3 = Some (x1, buf)"
          by (cases "keccak_squeeze xof 3") auto
        have "loop x1 (sample_step buf a) = Some r" using body True sq by simp
        moreover have "length (sample_step buf a) \<le> 256 \<and> ?ok (sample_step buf a)"
          using True a by (simp add: sample_step_def Let_def)
        ultimately show ?thesis using IH by blast
      qed (use a body in \<open>simp add: kem_poly_def\<close>)
    qed
  qed
  with assms show ?thesis by simp
qed

lemma sample_ntt_poly: "sample_ntt rho i j = Some r \<Longrightarrow> kem_poly r"
  by (auto simp: sample_ntt_def Option.bind_eq_Some_conv intro: sample_loop_poly)

lemma those_map: "those (map f xs) = (if \<forall>x \<in> set xs. f x \<noteq> None then Some (map (\<lambda>x. the (f x)) xs) else None)"
  by (induction xs) (auto split: option.splits)

definition cbd_poly :: "bytes \<Rightarrow> nat \<Rightarrow> int list" where
  "cbd_poly seed n = sample_cbd (sponge 136 0x1f (seed @ [word_of_nat n]) 128) 2"

lemma sample_polys_total: "sample_polys seed n k = Some (map (\<lambda>i. cbd_poly seed (n + i)) [0..<k])"
  by (simp add: sample_polys_def those_map kem_prf_def sha3_sponge cbd_poly_def)

lemma cbd_poly_poly [simp]: "kem_poly (cbd_poly seed n)"
  unfolding cbd_poly_def sample_cbd_def Let_def by (rule kem_poly_map)

text \<open>The rejection loop of some entry of the matrix does not end.\<close>

definition sampling_diverges :: "bytes \<Rightarrow> bool" where
  "sampling_diverges rho \<longleftrightarrow> (\<exists>i \<in> {..<3}. \<exists>j \<in> {..<3}. sample_ntt rho i j = None)"

definition matrix_entry :: "bytes \<Rightarrow> nat \<Rightarrow> nat \<Rightarrow> int list" where
  "matrix_entry rho i j = the (sample_ntt rho j i)"

lemma gen_matrix_cases:
  "gen_matrix rho transposed = (if sampling_diverges rho then None
    else Some (map (\<lambda>i. map (\<lambda>j. if transposed then matrix_entry rho j i else matrix_entry rho i j) [0..<3]) [0..<3]))"
proof (cases "sampling_diverges rho")
  case True
  then obtain i j where "i < 3" "j < 3" "sample_ntt rho i j = None" by (auto simp: sampling_diverges_def)
  then show ?thesis using True by (cases transposed) (fastforce simp: gen_matrix_def those_map)+
next
  case False
  then have "\<forall>i < 3. \<forall>j < 3. sample_ntt rho i j \<noteq> None" by (auto simp: sampling_diverges_def)
  then show ?thesis using False by (cases transposed) (simp_all add: gen_matrix_def those_map matrix_entry_def)
qed

lemma matrix_entry_poly:
  assumes "\<not> sampling_diverges rho" "i < 3" "j < 3"
  shows "kem_poly (matrix_entry rho i j)"
proof -
  from assms obtain y where "sample_ntt rho j i = Some y" by (auto simp: sampling_diverges_def)
  then show ?thesis by (simp add: matrix_entry_def sample_ntt_poly)
qed

section \<open>The scheme in the ring\<close>

lemma upt3: "[0..<3] = [0, 1, 2 :: nat]"
  by (simp add: upt_rec)

lemma zero_poly_Rq: "kem_poly zero_poly" "Rq zero_poly = 0" "of_ntt zero_poly = 0"
proof -
  show z: "kem_poly zero_poly" by (simp add: zero_poly_def kem_poly_def kem_q_def list_all_length)
  show "Rq zero_poly = 0" by (simp add: zero_rq_def zero_poly_def)
  have "kem_poly_add zero_poly zero_poly = zero_poly"
    by (rule kem_poly_eqI [OF _ z]) (simp_all add: kem_poly_add_nth zero_poly_def)
  then have "of_ntt zero_poly + of_ntt zero_poly = of_ntt zero_poly" using of_ntt_add [OF z z] by simp
  then show "of_ntt zero_poly = 0" by simp
qed

lemma dot_poly [simp]: "kem_poly (dot a b)"
  by (simp add: dot_def upt3)

lemma of_ntt_dot:
  assumes "\<And>i. i < 3 \<Longrightarrow> kem_poly (a ! i)" "\<And>i. i < 3 \<Longrightarrow> kem_poly (b ! i)"
  shows "of_ntt (dot a b) = of_ntt (a ! 0) * of_ntt (b ! 0) + of_ntt (a ! 1) * of_ntt (b ! 1) + of_ntt (a ! 2) * of_ntt (b ! 2)"
  using assms by (simp add: dot_def upt3 of_ntt_add of_ntt_mult zero_poly_Rq)

text \<open>What compression to \<open>d\<close> bits and back adds to a polynomial.\<close>

definition rounded :: "int list \<Rightarrow> nat \<Rightarrow> int list" where
  "rounded f d = poly_decompress (poly_compress f d) d"

definition rounding :: "int list \<Rightarrow> nat \<Rightarrow> int list" where
  "rounding f d = kem_poly_sub (rounded f d) f"

definition school_dot :: "int list list \<Rightarrow> int list list \<Rightarrow> int list" where
  "school_dot a b = foldl (\<lambda>acc j. kem_poly_add acc (schoolbook kem_q (a ! j) (b ! j))) zero_poly [0..<3]"

text \<open>
  The noise that decryption sees: the products of the small polynomials and the rounding of the ciphertext.
\<close>

definition noise_of :: "int list list \<Rightarrow> int list list \<Rightarrow> int list list \<Rightarrow> int list list \<Rightarrow> int list \<Rightarrow> int list list \<Rightarrow> int list \<Rightarrow> int list" where
  "noise_of s e r e1 e2 u v =
    kem_poly_sub (kem_poly_add (kem_poly_add (school_dot e r) e2) (rounding v 4))
      (school_dot s (map (\<lambda>i. kem_poly_add (e1 ! i) (rounding (u ! i) 10)) [0..<3]))"

lemma compress_range: "0 \<le> kem_compress x d" "kem_compress x d < 2 ^ d"
  by (simp_all add: kem_compress_def)

lemma decompress_range:
  assumes "d \<in> {1, 4, 10}" "0 \<le> y" "y < 2 ^ d"
  shows "0 \<le> kem_decompress y d \<and> kem_decompress y d < kem_q"
  using assms by (elim insertE) (auto simp: kem_decompress_def kem_q_def)

lemma poly_decompress_poly:
  "d \<in> {1, 4, 10} \<Longrightarrow> (\<And>i. i < 256 \<Longrightarrow> 0 \<le> f ! i \<and> f ! i < 2 ^ d) \<Longrightarrow> kem_poly (poly_decompress f d)"
  by (simp add: kem_poly_def poly_decompress_def list_all_length decompress_range)

lemma rounded_poly: "d \<in> {1, 4, 10} \<Longrightarrow> kem_poly (rounded f d)"
  unfolding rounded_def by (rule poly_decompress_poly) (simp_all add: poly_compress_def compress_range)

lemma Rq_rounded: "d \<in> {1, 4, 10} \<Longrightarrow> kem_poly f \<Longrightarrow> Rq (rounded f d) = Rq f + Rq (rounding f d)"
  by (simp add: rounding_def Rq_sub rounded_poly)

lemma rounding_poly [simp]: "kem_poly (rounding f d)"
  by (simp add: rounding_def)

lemma school_dot_poly [simp]: "kem_poly (school_dot a b)"
  by (simp add: school_dot_def upt3)

lemma Rq_school_dot:
  assumes "\<And>i. i < 3 \<Longrightarrow> kem_poly (a ! i)" "\<And>i. i < 3 \<Longrightarrow> kem_poly (b ! i)"
  shows "Rq (school_dot a b) = Rq (a ! 0) * Rq (b ! 0) + Rq (a ! 1) * Rq (b ! 1) + Rq (a ! 2) * Rq (b ! 2)"
  using assms by (simp add: school_dot_def upt3 Rq_add Rq_mult zero_poly_Rq kem_poly_schoolbook)

lemma noise_of_poly [simp]: "kem_poly (noise_of s e r e1 e2 u v)"
  by (simp add: noise_of_def)

lemma kem_poly_length: "kem_poly a \<Longrightarrow> length a = 256"
  by (simp add: kem_poly_def)

lemma intt_Rq: "kem_poly p \<Longrightarrow> Rq (kem_intt p) = of_ntt p"
  by (simp add: of_ntt_def)

definition small_vector :: "int list list \<Rightarrow> bool" where
  "small_vector a \<longleftrightarrow> length a = 3 \<and> list_all kem_poly a"

lemma small_vectorD: "small_vector a \<Longrightarrow> i < 3 \<Longrightarrow> kem_poly (a ! i)" "small_vector a \<Longrightarrow> length a = 3"
  by (simp_all add: small_vector_def list_all_length)

lemma map_ntt_nth:
  assumes "small_vector a" "i < 3"
  shows "kem_poly (map kem_ntt a ! i)" "of_ntt (map kem_ntt a ! i) = Rq (a ! i)"
  using small_vectorD [OF assms(1)] assms(2) by (simp_all add: kem_ntt_poly kem_poly_length)

lemma keygen_t_nth:
  assumes "small_vector s" "small_vector e" "\<And>i j. i < 3 \<Longrightarrow> j < 3 \<Longrightarrow> kem_poly (a ! i ! j)" "i < 3"
  shows "kem_poly (keygen_t a (map kem_ntt s) (map kem_ntt e) ! i)"
    "of_ntt (keygen_t a (map kem_ntt s) (map kem_ntt e) ! i) =
      of_ntt (a ! i ! 0) * Rq (s ! 0) + of_ntt (a ! i ! 1) * Rq (s ! 1) + of_ntt (a ! i ! 2) * Rq (s ! 2) + Rq (e ! i)"
  using assms map_ntt_nth [OF assms(1)] map_ntt_nth [OF assms(2)]
  by (simp_all add: keygen_t_def of_ntt_add of_ntt_dot)

lemma encrypt_u_nth:
  assumes "small_vector r" "small_vector e1" "\<And>i j. i < 3 \<Longrightarrow> j < 3 \<Longrightarrow> kem_poly (at ! i ! j)" "i < 3"
  shows "kem_poly (encrypt_u at (map kem_ntt r) e1 ! i)"
    "Rq (encrypt_u at (map kem_ntt r) e1 ! i) =
      of_ntt (at ! i ! 0) * Rq (r ! 0) + of_ntt (at ! i ! 1) * Rq (r ! 1) + of_ntt (at ! i ! 2) * Rq (r ! 2) + Rq (e1 ! i)"
  using assms map_ntt_nth [OF assms(1)] small_vectorD [OF assms(2)]
  by (simp_all add: encrypt_u_def Rq_add of_ntt_dot kem_ntt_intt intt_Rq)

definition message_poly :: "bytes \<Rightarrow> int list" where
  "message_poly m = poly_decompress (byte_decode m 1) 1"

lemma byte_decode_1: "i < 256 \<Longrightarrow> byte_decode m 1 ! i = of_bool (bit (m ! (i div 8)) (i mod 8))"
  by (rule byte_decode_bits) (auto simp: bit_0)

lemma message_poly_poly [simp]: "kem_poly (message_poly m)"
  unfolding message_poly_def by (rule poly_decompress_poly) (simp_all add: byte_decode_1 del: One_nat_def)

lemma encrypt_v_Rq:
  assumes "small_vector r" "kem_poly e2" "\<And>i. i < 3 \<Longrightarrow> kem_poly (t ! i)"
  shows "kem_poly (encrypt_v t (map kem_ntt r) e2 m)"
    "Rq (encrypt_v t (map kem_ntt r) e2 m) =
      of_ntt (t ! 0) * Rq (r ! 0) + of_ntt (t ! 1) * Rq (r ! 1) + of_ntt (t ! 2) * Rq (r ! 2) + Rq e2 + Rq (message_poly m)"
  using assms map_ntt_nth [OF assms(1)] unfolding encrypt_v_def Let_def message_poly_def [symmetric]
  by (simp_all add: Rq_add of_ntt_dot kem_ntt_intt intt_Rq)

lemma decrypted_in_ring:
  assumes "small_vector s" "small_vector e" "small_vector r" "small_vector e1" "kem_poly e2"
    and a: "\<And>i j. i < 3 \<Longrightarrow> j < 3 \<Longrightarrow> kem_poly (a ! i ! j)"
    and at: "\<And>i j. i < 3 \<Longrightarrow> j < 3 \<Longrightarrow> at ! i ! j = a ! j ! i"
    and u: "u = encrypt_u at (map kem_ntt r) e1"
    and v: "v = encrypt_v (keygen_t a (map kem_ntt s) (map kem_ntt e)) (map kem_ntt r) e2 m"
  shows "kem_poly_sub (rounded v 4) (kem_intt (dot (map kem_ntt s) (map kem_ntt (map (\<lambda>f. rounded f 10) u))))
    = kem_poly_add (message_poly m) (noise_of s e r e1 e2 u v)"
proof -
  let ?u' = "map (\<lambda>f. rounded f 10) u"
  have at': "kem_poly (at ! i ! j)" if "i < 3" "j < 3" for i j using that a at by simp
  note t = keygen_t_nth [OF assms(1,2) a]
  note un = encrypt_u_nth [OF assms(3,4) at', folded u]
  note vn = encrypt_v_Rq [OF assms(3,5) t(1), where m = m, folded v]
  have lu: "length u = 3" by (simp add: u encrypt_u_def)
  then have u': "small_vector ?u'" by (simp add: small_vector_def list_all_length rounded_poly)
  have ur: "Rq (?u' ! i) = Rq (u ! i) + Rq (rounding (u ! i) 10)" if "i < 3" for i
    using that lu un(1) by (simp add: Rq_rounded)
  let ?n = "Rq (e ! 0) * Rq (r ! 0) + Rq (e ! 1) * Rq (r ! 1) + Rq (e ! 2) * Rq (r ! 2) + Rq e2 + Rq (rounding v 4)
    - (Rq (s ! 0) * (Rq (e1 ! 0) + Rq (rounding (u ! 0) 10)) + Rq (s ! 1) * (Rq (e1 ! 1) + Rq (rounding (u ! 1) 10))
      + Rq (s ! 2) * (Rq (e1 ! 2) + Rq (rounding (u ! 2) 10)))"
  have noise: "Rq (noise_of s e r e1 e2 u v) = ?n"
    unfolding noise_of_def using assms(5) small_vectorD [OF assms(1)] small_vectorD [OF assms(2)] small_vectorD [OF assms(3)] small_vectorD [OF assms(4)]
    by (simp add: Rq_sub Rq_add Rq_school_dot numeral_2_eq_2)
  have "Rq (kem_poly_sub (rounded v 4) (kem_intt (dot (map kem_ntt s) (map kem_ntt ?u'))))
      = Rq v + Rq (rounding v 4) - (Rq (s ! 0) * Rq (?u' ! 0) + Rq (s ! 1) * Rq (?u' ! 1) + Rq (s ! 2) * Rq (?u' ! 2))"
    using map_ntt_nth [OF assms(1)] map_ntt_nth [OF u'] vn(1)
    by (simp add: Rq_sub rounded_poly kem_ntt_intt intt_Rq of_ntt_dot Rq_rounded)
  also have "\<dots> = Rq (message_poly m) + ?n"
    by (simp add: ur un(2) vn(2) t(2) at algebra_simps)
  also have "\<dots> = Rq (kem_poly_add (message_poly m) (noise_of s e r e1 e2 u v))" by (simp add: Rq_add noise)
  finally show ?thesis by (subst (asm) Rq_inject_poly) simp_all
qed

section \<open>Decryption\<close>

text \<open>A coefficient of the noise, read as the nearest representative of 0, is within a quarter of the modulus.\<close>

definition small_noise :: "int list \<Rightarrow> bool" where
  "small_noise n \<longleftrightarrow> list_all (\<lambda>c. c \<le> 831 \<or> kem_q - 832 \<le> c) n"

lemma compress_message_bit:
  assumes "0 \<le> c" "c < kem_q" "c \<le> 831 \<or> kem_q - 832 \<le> c"
  shows "kem_compress (reduce (kem_decompress (of_bool b) 1 + c)) 1 = of_bool b"
proof -
  have r: "reduce x = (if x < 3329 then x else x - 3329)" if "0 \<le> x" "x < 6658" for x
    using that mod_pos_pos_trivial [of "x - 3329" 3329] by (simp add: reduce_def kem_q_def)
  have "(c * 2 + 1664) div 3329 = 2" if "2497 \<le> c" "c < 3329" using that by linarith
  then show ?thesis using assms by (cases b) (auto simp: kem_decompress_def kem_compress_def kem_q_def r)
qed

lemma message_recovered:
  assumes "length m = 32" "kem_poly n" "small_noise n"
  shows "byte_encode (poly_compress (kem_poly_add (message_poly m) n) 1) 1 = m"
proof -
  have "poly_compress (kem_poly_add (message_poly m) n) 1 = byte_decode m 1"
  proof (rule nth_equalityI)
    fix i assume "i < length (poly_compress (kem_poly_add (message_poly m) n) 1)"
    then have i: "i < 256" by (simp add: poly_compress_def)
    have "n ! i \<le> 831 \<or> kem_q - 832 \<le> n ! i" using assms(2,3) i by (simp add: small_noise_def list_all_length kem_poly_def)
    with kem_poly_nth [OF assms(2) i] i show "poly_compress (kem_poly_add (message_poly m) n) 1 ! i = byte_decode m 1 ! i"
      by (simp add: poly_compress_def message_poly_def poly_decompress_def kem_poly_add_nth byte_decode_1 compress_message_bit del: One_nat_def)
  qed (simp add: poly_compress_def)
  then show ?thesis using byte_encode_decode_1 [OF assms(1)] by simp
qed

lemma slice_middle: "i = length xs \<Longrightarrow> j = length xs + length ys \<Longrightarrow> slice_of (xs @ ys @ zs) i j = Some ys"
  by (simp add: slice_of_def)

lemma decode_polys_encode:
  assumes "length ts = 3" "\<And>t. t \<in> set ts \<Longrightarrow> packable t d"
  shows "decode_polys (concat (map (\<lambda>t. byte_encode t d) ts) @ rest) d = Some ts"
proof -
  from assms(1) obtain a b c where ts: "ts = [a, b, c]" by (auto simp: numeral_3_eq_3 length_Suc_conv)
  let ?a = "byte_encode a d" and ?b = "byte_encode b d" and ?c = "byte_encode c d"
  have "slice_of ([] @ ?a @ (?b @ ?c @ rest)) (32 * d * 0) (32 * d * (0 + 1)) = Some ?a"
    "slice_of (?a @ ?b @ (?c @ rest)) (32 * d * 1) (32 * d * (1 + 1)) = Some ?b"
    "slice_of ((?a @ ?b) @ ?c @ rest) (32 * d * 2) (32 * d * (2 + 1)) = Some ?c"
    by (rule slice_middle; simp)+
  moreover have "byte_decode ?a d = a" "byte_decode ?b d = b" "byte_decode ?c d = c" using assms(2) by (simp_all add: ts byte_decode_encode)
  ultimately show ?thesis by (simp add: decode_polys_def upt3 ts)
qed

lemma packable_12: "kem_poly f \<Longrightarrow> packable f 12"
  by (simp add: packable_def kem_poly_def)

lemma packable_compressed: "d \<in> {4, 10} \<Longrightarrow> packable (poly_compress f d) d"
  by (auto simp: packable_def poly_compress_def list_all_length compress_range compress_range(2) [of _ 4, simplified] compress_range(2) [of _ 10, simplified])

lemma decrypt_ciphertext:
  assumes "length u = 3" "length s = 3" "\<And>p. p \<in> set s \<Longrightarrow> kem_poly p"
  shows "pke_decrypt (concat (map (\<lambda>s. byte_encode s 12) s))
      (concat (map (\<lambda>ui. byte_encode (poly_compress ui 10) 10) u) @ byte_encode (poly_compress v 4) 4)
    = Some (byte_encode (poly_compress (kem_poly_sub (rounded v 4) (kem_intt (dot s (map kem_ntt (map (\<lambda>f. rounded f 10) u))))) 1) 1)"
proof -
  let ?c1 = "concat (map (\<lambda>c. byte_encode c 10) (map (\<lambda>f. poly_compress f 10) u))" and ?c2 = "byte_encode (poly_compress v 4) 4"
  have "decode_polys (?c1 @ ?c2) 10 = Some (map (\<lambda>f. poly_compress f 10) u)"
    by (rule decode_polys_encode) (use assms(1) packable_compressed in auto)
  moreover have "decode_polys (concat (map (\<lambda>s. byte_encode s 12) s) @ []) 12 = Some s"
    by (rule decode_polys_encode) (use assms(2,3) packable_12 in auto)
  moreover have "length ?c1 = 960" using assms(1) by (simp add: length_concat comp_def sum_list_triv)
  then have "slice_of (?c1 @ ?c2 @ []) 960 1088 = Some ?c2" by (intro slice_middle) simp_all
  moreover have "byte_decode ?c2 4 = poly_compress v 4" by (rule byte_decode_encode) (simp add: packable_compressed)
  ultimately show ?thesis by (simp add: pke_decrypt_def comp_def rounded_def Let_def)
qed

section \<open>Encapsulation and decapsulation agree\<close>

definition small_vec :: "bytes \<Rightarrow> nat \<Rightarrow> int list list" where
  "small_vec seed n = map (\<lambda>i. cbd_poly seed (n + i)) [0..<3]"

lemma small_vec_vector [simp]: "small_vector (small_vec seed n)"
  by (simp add: small_vector_def small_vec_def list_all_iff)

definition matrix :: "bytes \<Rightarrow> int list list list" where
  "matrix rho = map (\<lambda>i. map (\<lambda>j. matrix_entry rho i j) [0..<3]) [0..<3]"

definition matrix_transposed :: "bytes \<Rightarrow> int list list list" where
  "matrix_transposed rho = map (\<lambda>i. map (\<lambda>j. matrix_entry rho j i) [0..<3]) [0..<3]"

definition public_t :: "bytes \<Rightarrow> bytes \<Rightarrow> int list list" where
  "public_t rho sigma = keygen_t (matrix rho) (map kem_ntt (small_vec sigma 0)) (map kem_ntt (small_vec sigma 3))"

definition cipher_u :: "bytes \<Rightarrow> bytes \<Rightarrow> int list list" where
  "cipher_u rho rand = encrypt_u (matrix_transposed rho) (map kem_ntt (small_vec rand 0)) (small_vec rand 3)"

definition cipher_v :: "bytes \<Rightarrow> bytes \<Rightarrow> bytes \<Rightarrow> bytes \<Rightarrow> int list" where
  "cipher_v rho sigma rand m = encrypt_v (public_t rho sigma) (map kem_ntt (small_vec rand 0)) (cbd_poly rand 6) m"

text \<open>The noise of the encryption of \<open>m\<close> with the randomness \<open>rand\<close> under the key of the seeds \<open>rho\<close> and \<open>sigma\<close>.\<close>

definition pke_noise :: "bytes \<Rightarrow> bytes \<Rightarrow> bytes \<Rightarrow> bytes \<Rightarrow> int list" where
  "pke_noise rho sigma rand m =
    noise_of (small_vec sigma 0) (small_vec sigma 3) (small_vec rand 0) (small_vec rand 3) (cbd_poly rand 6)
      (cipher_u rho rand) (cipher_v rho sigma rand m)"

definition packed_ciphertext :: "bytes \<Rightarrow> bytes \<Rightarrow> bytes \<Rightarrow> bytes \<Rightarrow> bytes" where
  "packed_ciphertext rho sigma rand m =
    concat (map (\<lambda>ui. byte_encode (poly_compress ui 10) 10) (cipher_u rho rand)) @ byte_encode (poly_compress (cipher_v rho sigma rand m) 4) 4"

definition packed_ek :: "bytes \<Rightarrow> bytes \<Rightarrow> bytes" where
  "packed_ek rho sigma = concat (map (\<lambda>t. byte_encode t 12) (public_t rho sigma)) @ rho"

definition packed_dk :: "bytes \<Rightarrow> bytes" where
  "packed_dk sigma = concat (map (\<lambda>s. byte_encode s 12) (map kem_ntt (small_vec sigma 0)))"

lemma matrix_poly:
  assumes "\<not> sampling_diverges rho" "i < 3" "j < 3"
  shows "kem_poly (matrix rho ! i ! j)" "matrix_transposed rho ! i ! j = matrix rho ! j ! i"
  using assms by (simp_all add: matrix_def matrix_transposed_def matrix_entry_poly)

lemma gen_matrix_some:
  "\<not> sampling_diverges rho \<Longrightarrow> gen_matrix rho False = Some (matrix rho)"
  "\<not> sampling_diverges rho \<Longrightarrow> gen_matrix rho True = Some (matrix_transposed rho)"
  by (simp_all add: gen_matrix_cases matrix_def matrix_transposed_def)

lemma keygen_result:
  assumes "kem_g (d @ [3]) = Some (rho, sigma)" "\<not> sampling_diverges rho"
  shows "pke_keygen d = Some (packed_ek rho sigma, packed_dk sigma)"
  using assms
  by (simp add: pke_keygen_def gen_matrix_some sample_polys_total packed_ek_def packed_dk_def public_t_def small_vec_def Let_def comp_def)

lemma public_t_poly:
  assumes "\<not> sampling_diverges rho"
  shows "length (public_t rho sigma) = 3" "t \<in> set (public_t rho sigma) \<Longrightarrow> kem_poly t"
  using keygen_t_nth(1) [OF small_vec_vector small_vec_vector matrix_poly(1) [OF assms]]
  by (auto simp: public_t_def in_set_conv_nth) (auto simp: keygen_t_def)

lemma packed_lengths:
  "length (public_t rho sigma) = 3" "length (cipher_u rho rand) = 3"
  "length (packed_ek rho sigma) = 1152 + length rho" "length (packed_dk sigma) = 1152"
  "length (packed_ciphertext rho sigma rand m) = 1088"
proof -
  show l: "length (public_t rho sigma) = 3" "length (cipher_u rho rand) = 3"
    by (simp_all add: public_t_def keygen_t_def cipher_u_def encrypt_u_def)
  show "length (packed_ek rho sigma) = 1152 + length rho" "length (packed_dk sigma) = 1152"
      "length (packed_ciphertext rho sigma rand m) = 1088"
    using l by (simp_all add: packed_ek_def packed_dk_def packed_ciphertext_def length_concat comp_def sum_list_triv small_vec_def)
qed

lemma encrypt_result:
  assumes "\<not> sampling_diverges rho" "length rho = 32"
  shows "pke_encrypt (packed_ek rho sigma) m rand = Some (packed_ciphertext rho sigma rand m)"
proof -
  have "decode_polys (packed_ek rho sigma) 12 = Some (public_t rho sigma)"
    unfolding packed_ek_def by (rule decode_polys_encode) (use public_t_poly [OF assms(1)] packable_12 in auto)
  moreover have "length (concat (map (\<lambda>t. byte_encode t 12) (public_t rho sigma))) = 1152"
    using packed_lengths(1) by (simp add: length_concat comp_def sum_list_triv)
  then have "slice_of (packed_ek rho sigma @ []) 1152 1184 = Some rho"
    unfolding packed_ek_def append_assoc using assms(2) by (intro slice_middle) simp_all
  ultimately show ?thesis using assms(1)
    by (simp add: pke_encrypt_def gen_matrix_some sample_polys_total packed_ciphertext_def cipher_u_def cipher_v_def small_vec_def Let_def)
qed

lemma decrypt_result:
  assumes "\<not> sampling_diverges rho" "length m = 32" "small_noise (pke_noise rho sigma rand m)"
  shows "pke_decrypt (packed_dk sigma) (packed_ciphertext rho sigma rand m) = Some m"
proof -
  let ?s = "small_vec sigma 0"
  have "pke_decrypt (packed_dk sigma) (packed_ciphertext rho sigma rand m)
      = Some (byte_encode (poly_compress (kem_poly_sub (rounded (cipher_v rho sigma rand m) 4)
          (kem_intt (dot (map kem_ntt ?s) (map kem_ntt (map (\<lambda>f. rounded f 10) (cipher_u rho rand)))))) 1) 1)"
    unfolding packed_dk_def packed_ciphertext_def
    by (rule decrypt_ciphertext) (auto simp: packed_lengths small_vec_def intro!: kem_ntt_poly kem_poly_length)
  also have "kem_poly_sub (rounded (cipher_v rho sigma rand m) 4)
          (kem_intt (dot (map kem_ntt ?s) (map kem_ntt (map (\<lambda>f. rounded f 10) (cipher_u rho rand)))))
      = kem_poly_add (message_poly m) (pke_noise rho sigma rand m)"
    unfolding pke_noise_def
    by (rule decrypted_in_ring [OF _ _ _ _ _ matrix_poly [OF assms(1)] cipher_u_def cipher_v_def [unfolded public_t_def]]) simp_all
  also have "byte_encode (poly_compress \<dots> 1) 1 = m" by (rule message_recovered) (use assms in \<open>simp_all add: pke_noise_def\<close>)
  finally show ?thesis .
qed

lemma kem_g_total: "\<exists>a b. kem_g x = Some (a, b) \<and> length a = 32 \<and> length b = 32"
  by (simp add: kem_g_def sha3_sponge)

lemma keygen_diverges: "kem_g (d @ [3]) = Some (rho, sigma) \<Longrightarrow> sampling_diverges rho \<Longrightarrow> pke_keygen d = None"
  by (simp add: pke_keygen_def gen_matrix_cases)

lemma decapsulate_slices:
  assumes "length dkp = 1152" "length ekp = 1184" "length h = 32" "length z = 32"
  shows "slice_of (dkp @ ekp @ h @ z) 0 1152 = Some dkp" "slice_of (dkp @ ekp @ h @ z) 1152 2336 = Some ekp"
    "slice_of (dkp @ ekp @ h @ z) 2336 2368 = Some h" "slice_of (dkp @ ekp @ h @ z) 2368 2400 = Some z"
  using slice_middle [of 0 "[]" 1152 dkp "ekp @ h @ z"] slice_middle [of 1152 dkp 2336 ekp "h @ z"]
    slice_middle [of 2336 "dkp @ ekp" 2368 h z] slice_middle [of 2368 "dkp @ ekp @ h" 2400 z "[]"] assms
  by simp_all

text \<open>The noise of the encapsulation of \<open>m\<close> under the key generated from \<open>d\<close>, as the code derives its seeds.\<close>

definition encaps_noise :: "bytes \<Rightarrow> bytes \<Rightarrow> int list option" where
  "encaps_noise d m = do {
    (rho, sigma) \<leftarrow> kem_g (d @ [3]);
    (ek, dk) \<leftarrow> pke_keygen d;
    hash \<leftarrow> kem_h ek;
    (shared, rand) \<leftarrow> kem_g (m @ hash);
    Some (pke_noise rho sigma rand m) }"

lemma honest_exchange:
  assumes "length d = 32" "length z = 32" "length m = 32"
  shows "case keygen_internal d z of
      None \<Rightarrow> sampling_diverges (fst (the (kem_g (d @ [3]))))
    | Some kp \<Rightarrow> length (kp_ek kp) = 1184 \<and> length (kp_dk kp) = 2400 \<and>
        (\<exists>ct k n k'. encaps_internal (kp_ek kp) m = Some (ct, k) \<and> length ct = 1088 \<and> length k = 32 \<and>
          encaps_noise d m = Some n \<and> decapsulate (kp_dk kp) ct = Some k' \<and> (small_noise n \<longrightarrow> k' = k))"
proof -
  obtain rho sigma where g: "kem_g (d @ [3]) = Some (rho, sigma)" "length rho = 32" using kem_g_total by blast
  show ?thesis
  proof (cases "sampling_diverges rho")
    case True
    then show ?thesis using g by (simp add: keygen_internal_def keygen_diverges)
  next
    case False
    let ?ek = "packed_ek rho sigma" and ?dk = "packed_dk sigma"
    define h where "h = sponge 136 0x06 ?ek 32"
    have h: "kem_h ?ek = Some h" "length h = 32" by (simp_all add: kem_h_def sha3_sponge h_def)
    obtain k rand where k: "kem_g (m @ h) = Some (k, rand)" "length k = 32" using kem_g_total by blast
    let ?ct = "packed_ciphertext rho sigma rand m"
    have kp: "keygen_internal d z = Some \<lparr>kp_ek = ?ek, kp_dk = ?dk @ ?ek @ h @ z\<rparr>"
      by (simp add: keygen_internal_def keygen_result [OF g(1) False] h)
    have ct: "encaps_internal ?ek m = Some (?ct, k)"
      by (simp add: encaps_internal_def h k encrypt_result [OF False g(2)])
    have n: "encaps_noise d m = Some (pke_noise rho sigma rand m)"
      by (simp add: encaps_noise_def g keygen_result [OF g(1) False] h k)
    have "length ?dk = 1152" "length ?ek = 1184" using g(2) by (simp_all add: packed_lengths)
    note slices = decapsulate_slices [OF this h(2) assms(2)]
    obtain m' where m': "pke_decrypt ?dk ?ct = Some m'" "small_noise (pke_noise rho sigma rand m) \<Longrightarrow> m' = m"
    proof (cases "small_noise (pke_noise rho sigma rand m)")
      case True
      then show ?thesis using that decrypt_result [OF False assms(3)] by blast
    next
      case False
      have "pke_decrypt ?dk ?ct \<noteq> None" unfolding packed_dk_def packed_ciphertext_def
        by (subst decrypt_ciphertext) (auto simp: packed_lengths small_vec_def intro!: kem_ntt_poly kem_poly_length)
      then show ?thesis using that False by blast
    qed
    obtain k1 r1 where k1: "kem_g (m' @ h) = Some (k1, r1)" using kem_g_total by blast
    have "\<exists>k'. decapsulate (?dk @ ?ek @ h @ z) ?ct = Some k' \<and> (small_noise (pke_noise rho sigma rand m) \<longrightarrow> k' = k)"
      using m'(2) k k1 by (auto simp: decapsulate_def slices m'(1) kem_j_def sha3_sponge encrypt_result [OF False g(2)])
    then show ?thesis using kp ct n g(2) k(2) h(2) assms(2) by (simp add: packed_lengths)
  qed
qed

text \<open>
  C13: ML-KEM-768 is correct. For every seed of a key pair and of an encapsulation, key generation returns a
  key of 1184 and 2400 bytes unless the rejection sampling of the public matrix never ends; encapsulation to
  that key then returns a ciphertext of 1088 bytes and a secret of 32 bytes, and decapsulation of the
  ciphertext returns the same secret whenever every coefficient of the noise of the encryption is within a
  quarter of the modulus. No slice of the code is out of range on the way.
\<close>

theorem ml_kem_decapsulates:
  assumes "length d = 32" "length z = 32" "length m = 32"
  shows "case keygen_internal d z of
      None \<Rightarrow> sampling_diverges (fst (the (kem_g (d @ [3]))))
    | Some kp \<Rightarrow> length (kp_ek kp) = 1184 \<and> length (kp_dk kp) = 2400 \<and>
        (\<exists>ct k n k'. encaps_internal (kp_ek kp) m = Some (ct, k) \<and> length ct = 1088 \<and> length k = 32 \<and>
          encaps_noise d m = Some n \<and> decapsulate (kp_dk kp) ct = Some k' \<and> (small_noise n \<longrightarrow> k' = k))"
  by (rule honest_exchange [OF assms])

theorem ml_kem_decapsulates_witness:
  "length (replicate 32 (7 :: byte)) = 32 \<and>
   (case keygen_internal (replicate 32 7) (replicate 32 7) of
      None \<Rightarrow> sampling_diverges (fst (the (kem_g (replicate 32 7 @ [3]))))
    | Some kp \<Rightarrow> length (kp_ek kp) = 1184 \<and> length (kp_dk kp) = 2400 \<and>
        (\<exists>ct k n k'. encaps_internal (kp_ek kp) (replicate 32 7) = Some (ct, k) \<and> length ct = 1088 \<and> length k = 32 \<and>
          encaps_noise (replicate 32 7) (replicate 32 7) = Some n \<and> decapsulate (kp_dk kp) ct = Some k' \<and> (small_noise n \<longrightarrow> k' = k)))"
  using ml_kem_decapsulates [of "replicate 32 7" "replicate 32 7" "replicate 32 7"] by simp

end
