(* ===== verification/X25519_Field.thy ===== *)
theory X25519_Field
  imports X25519
begin

text \<open>
  The field arithmetic of X25519 on integers: for limbs within the bounds that the ladder keeps, addition,
  subtraction and multiplication of field elements are those of the integers modulo \<open>2\<^sup>2\<^sup>5\<^sup>5 - 19\<close>, no word
  overflows, and the byte conversions are the little-endian ones on the canonical representative.
\<close>

section \<open>Values\<close>

definition p25519 :: int where "p25519 = 2 ^ 255 - 19"

fun fe_val :: "fe \<Rightarrow> int" where
  "fe_val (Fe l0 l1 l2 l3 l4) = uint l0 + 2 ^ 51 * uint l1 + 2 ^ 102 * uint l2 + 2 ^ 153 * uint l3 + 2 ^ 204 * uint l4"

fun limbs_below :: "int \<Rightarrow> fe \<Rightarrow> bool" where
  "limbs_below b (Fe l0 l1 l2 l3 l4) \<longleftrightarrow> uint l0 < b \<and> uint l1 < b \<and> uint l2 < b \<and> uint l3 < b \<and> uint l4 < b"

text \<open>What \<open>carry\<close> leaves: limbs of 51 bits, except for the last carry in the first one.\<close>

fun carried :: "fe \<Rightarrow> bool" where
  "carried (Fe l0 l1 l2 l3 l4) \<longleftrightarrow> uint l0 < 2 ^ 51 + 2 ^ 18 \<and> uint l1 < 2 ^ 51 \<and> uint l2 < 2 ^ 51 \<and> uint l3 < 2 ^ 51 \<and> uint l4 < 2 ^ 51"

lemma limbs_below_mono: "limbs_below b f \<Longrightarrow> b \<le> c \<Longrightarrow> limbs_below c f"
  by (cases f) auto

lemma carried_limbs: "carried f \<Longrightarrow> limbs_below (2 ^ 52) f"
  by (cases f) auto

lemma uint_mask51: "uint (x AND MASK51) = uint x mod 2 ^ 51"
proof -
  have "MASK51 = mask 51" by (simp add: MASK51_def mask_eq_exp_minus_1)
  then have "x AND MASK51 = take_bit 51 x" by (simp only: take_bit_eq_mask)
  then have "uint (x AND MASK51) = take_bit 51 (uint x)" by (simp only: unsigned_take_bit_eq)
  then show ?thesis by (simp only: take_bit_eq_mod)
qed

lemma uint_drop: "uint (drop_bit n (x :: 'a :: len word)) = uint x div 2 ^ n"
proof -
  have "unat (drop_bit n x) = unat x div 2 ^ n" using unat_drop_bit_eq [of n x] drop_bit_eq_div [of n "unat x"] by simp
  then have "int (unat (drop_bit n x)) = int (unat x) div 2 ^ n" by (simp only: zdiv_int of_nat_power of_nat_numeral)
  then show ?thesis by simp
qed

lemma uint_add64: "uint x + uint y < 2 ^ 64 \<Longrightarrow> uint (x + y :: u64) = uint x + uint y"
  by (simp add: uint_word_ariths)

lemma uint_add128: "uint x + uint y < 2 ^ 128 \<Longrightarrow> uint (x + y :: u128) = uint x + uint y"
  by (simp add: uint_word_ariths)

lemma uint_mult64: "uint x * uint y < 2 ^ 64 \<Longrightarrow> uint (x * y :: u64) = uint x * uint y"
  by (simp add: uint_word_ariths)

lemma uint_sub64: "uint y \<le> uint x \<Longrightarrow> uint (x - y :: u64) = uint x - uint y"
proof -
  assume "uint y \<le> uint x"
  moreover have "0 \<le> uint y" "uint x < 2 ^ 64" using uint_lt2p [of x] by simp_all
  ultimately have "(uint x - uint y) mod 2 ^ 64 = uint x - uint y" by (intro mod_pos_pos_trivial) linarith+
  then show ?thesis by (simp add: uint_word_ariths)
qed

text \<open>A carry chain over five limbs, with \<open>x\<close> added at the bottom, divides the value by \<open>2\<^sup>2\<^sup>5\<^sup>5\<close>.\<close>

lemma carry_chain:
  fixes l0 l1 l2 l3 l4 x :: int
  assumes "m0 = l0 + x" "m1 = l1 + m0 div 2 ^ 51" "m2 = l2 + m1 div 2 ^ 51" "m3 = l3 + m2 div 2 ^ 51" "m4 = l4 + m3 div 2 ^ 51"
  defines "v \<equiv> l0 + 2 ^ 51 * l1 + 2 ^ 102 * l2 + 2 ^ 153 * l3 + 2 ^ 204 * l4 + x"
  shows "m0 mod 2 ^ 51 + 2 ^ 51 * (m1 mod 2 ^ 51) + 2 ^ 102 * (m2 mod 2 ^ 51) + 2 ^ 153 * (m3 mod 2 ^ 51) + 2 ^ 204 * (m4 mod 2 ^ 51) = v mod 2 ^ 255"
    "m4 div 2 ^ 51 = v div 2 ^ 255"
proof -
  define s where "s = m0 mod 2 ^ 51 + 2 ^ 51 * (m1 mod 2 ^ 51) + 2 ^ 102 * (m2 mod 2 ^ 51) + 2 ^ 153 * (m3 mod 2 ^ 51) + 2 ^ 204 * (m4 mod 2 ^ 51)"
  have diff: "b = a - c" if "a = b + c" for a b c :: int using that by simp
  note l = assms(1-5) [THEN diff]
  have v: "v = 2 ^ 255 * (m4 div 2 ^ 51) + s"
    unfolding s_def v_def minus_mult_div_eq_mod [symmetric] by (subst l(1), subst l(2), subst l(3), subst l(4), subst l(5)) (simp add: algebra_simps)
  have "0 \<le> y mod 2 ^ 51 \<and> y mod 2 ^ 51 \<le> 2 ^ 51 - 1" for y :: int by simp
  note digit = this
  have "0 \<le> a0 + 2 ^ 51 * a1 + 2 ^ 102 * a2 + 2 ^ 153 * a3 + 2 ^ 204 * a4 \<and> a0 + 2 ^ 51 * a1 + 2 ^ 102 * a2 + 2 ^ 153 * a3 + 2 ^ 204 * a4 < 2 ^ 255"
    if "0 \<le> a0 \<and> a0 \<le> 2 ^ 51 - 1" "0 \<le> a1 \<and> a1 \<le> 2 ^ 51 - 1" "0 \<le> a2 \<and> a2 \<le> 2 ^ 51 - 1" "0 \<le> a3 \<and> a3 \<le> 2 ^ 51 - 1"
      "0 \<le> a4 \<and> a4 \<le> 2 ^ 51 - 1" for a0 a1 a2 a3 a4 :: int using that by simp
  from this [OF digit digit digit digit digit] have "0 \<le> s" "s < 2 ^ 255" unfolding s_def by blast+
  note eqs = int_mod_pos_eq [OF v this, symmetric] int_div_pos_eq [OF v this, symmetric]
  show "m0 mod 2 ^ 51 + 2 ^ 51 * (m1 mod 2 ^ 51) + 2 ^ 102 * (m2 mod 2 ^ 51) + 2 ^ 153 * (m3 mod 2 ^ 51) + 2 ^ 204 * (m4 mod 2 ^ 51) = v mod 2 ^ 255"
    using eqs(1) unfolding s_def .
  show "m4 div 2 ^ 51 = v div 2 ^ 255" by (rule eqs(2))
qed

text \<open>Adding 19 times the last carry at the bottom keeps the value modulo \<open>p\<close>.\<close>

lemma carry_fold:
  fixes l0 l1 l2 l3 l4 :: int
  assumes "m1 = l1 + l0 div 2 ^ 51" "m2 = l2 + m1 div 2 ^ 51" "m3 = l3 + m2 div 2 ^ 51" "m4 = l4 + m3 div 2 ^ 51"
  shows "congr p25519 (l0 mod 2 ^ 51 + m4 div 2 ^ 51 * 19 + 2 ^ 51 * (m1 mod 2 ^ 51) + 2 ^ 102 * (m2 mod 2 ^ 51) + 2 ^ 153 * (m3 mod 2 ^ 51) + 2 ^ 204 * (m4 mod 2 ^ 51))
    (l0 + 2 ^ 51 * l1 + 2 ^ 102 * l2 + 2 ^ 153 * l3 + 2 ^ 204 * l4)" (is "congr _ ?r ?v")
proof -
  note c = carry_chain [OF add_0_right [symmetric] assms, unfolded add_0_right]
  have "?r = ?v mod 2 ^ 255 + 19 * (?v div 2 ^ 255)" unfolding c [symmetric] by (simp only: ac_simps)
  moreover have "y mod 2 ^ 255 + 19 * (y div 2 ^ 255) - y = p25519 * (- (y div 2 ^ 255))" for y
    unfolding p25519_def minus_mult_div_eq_mod [symmetric] by (simp add: algebra_simps)
  ultimately show ?thesis by (simp only: congr_def dvd_triv_left)
qed

lemma fe_carry_ints:
  assumes "limbs_below (2 ^ 63) (Fe l0 l1 l2 l3 l4)" "fe_carry (Fe l0 l1 l2 l3 l4) = Fe r0 r1 r2 r3 r4"
    and "m1 = uint l1 + uint l0 div 2 ^ 51" "m2 = uint l2 + m1 div 2 ^ 51" "m3 = uint l3 + m2 div 2 ^ 51" "m4 = uint l4 + m3 div 2 ^ 51"
  shows "uint r0 = uint l0 mod 2 ^ 51 + m4 div 2 ^ 51 * 19" "uint r1 = m1 mod 2 ^ 51" "uint r2 = m2 mod 2 ^ 51"
    "uint r3 = m3 mod 2 ^ 51" "uint r4 = m4 mod 2 ^ 51" "m4 < 2 ^ 63 + 2 ^ 13"
proof -
  have b: "uint l0 < 2 ^ 63" "uint l1 < 2 ^ 63" "uint l2 < 2 ^ 63" "uint l3 < 2 ^ 63" "uint l4 < 2 ^ 63"
    using assms(1) by simp_all
  define w1 where "w1 = l1 + drop_bit 51 l0"
  define w2 where "w2 = l2 + drop_bit 51 w1"
  define w3 where "w3 = l3 + drop_bit 51 w2"
  define w4 where "w4 = l4 + drop_bit 51 w3"
  have c: "r0 = (l0 AND MASK51) + drop_bit 51 w4 * 19" "r1 = w1 AND MASK51" "r2 = w2 AND MASK51" "r3 = w3 AND MASK51" "r4 = w4 AND MASK51"
    using assms(2) by (simp_all add: w1_def w2_def w3_def w4_def Let_def)
  have u1: "uint w1 = m1" "m1 < 2 ^ 63 + 2 ^ 13"
    using b by (simp_all add: w1_def assms(3) uint_add64 uint_drop)
  have u2: "uint w2 = m2" "m2 < 2 ^ 63 + 2 ^ 13"
    using b u1 by (simp_all add: w2_def assms(4) uint_add64 uint_drop)
  have u3: "uint w3 = m3" "m3 < 2 ^ 63 + 2 ^ 13"
    using b u2 by (simp_all add: w3_def assms(5) uint_add64 uint_drop)
  have u4: "uint w4 = m4" "m4 < 2 ^ 63 + 2 ^ 13"
    using b u3 by (simp_all add: w4_def assms(6) uint_add64 uint_drop)
  show "m4 < 2 ^ 63 + 2 ^ 13" by (rule u4(2))
  show "uint r0 = uint l0 mod 2 ^ 51 + m4 div 2 ^ 51 * 19"
    using u4 by (simp add: c(1) uint_add64 uint_mult64 uint_drop uint_mask51)
  show "uint r1 = m1 mod 2 ^ 51" "uint r2 = m2 mod 2 ^ 51" "uint r3 = m3 mod 2 ^ 51" "uint r4 = m4 mod 2 ^ 51"
    by (simp_all only: c uint_mask51 u1 u2 u3 u4)
qed

lemma fe_carry_value:
  assumes "limbs_below (2 ^ 63) f"
  shows "carried (fe_carry f) \<and> congr p25519 (fe_val (fe_carry f)) (fe_val f)"
proof -
  obtain l0 l1 l2 l3 l4 where f: "f = Fe l0 l1 l2 l3 l4" by (cases f)
  obtain r0 r1 r2 r3 r4 where r: "fe_carry (Fe l0 l1 l2 l3 l4) = Fe r0 r1 r2 r3 r4" by (cases "fe_carry (Fe l0 l1 l2 l3 l4)")
  define m1 where "m1 = uint l1 + uint l0 div 2 ^ 51"
  define m2 where "m2 = uint l2 + m1 div 2 ^ 51"
  define m3 where "m3 = uint l3 + m2 div 2 ^ 51"
  define m4 where "m4 = uint l4 + m3 div 2 ^ 51"
  note u = fe_carry_ints [OF assms [unfolded f] r m1_def m2_def m3_def m4_def]
  have "m4 div 2 ^ 51 \<le> 2 ^ 12" using u(6) by simp
  then have "y mod 2 ^ 51 < 2 ^ 51" "y mod 2 ^ 51 + m4 div 2 ^ 51 * 19 < 2 ^ 51 + 2 ^ 18" for y :: int
    using pos_mod_bound [of "2 ^ 51" y] by simp_all
  then have "carried (Fe r0 r1 r2 r3 r4)" unfolding carried.simps u(1-5) by blast
  moreover have "congr p25519 (fe_val (Fe r0 r1 r2 r3 r4)) (fe_val f)"
    unfolding f fe_val.simps u(1-5) by (rule carry_fold [OF m1_def m2_def m3_def m4_def])
  ultimately show ?thesis unfolding f r by blast
qed

lemma uint_diff_less: "uint a < 9007199254740992 \<Longrightarrow> 9007199254740992 \<le> n \<Longrightarrow> uint (a :: u64) - uint (b :: u64) < n"
  using uint_ge_0 [of b] by linarith

lemma fe_sub_value:
  assumes "limbs_below (2 ^ 53) f" "limbs_below (2 ^ 53) g"
  shows "carried (fe_sub f g) \<and> congr p25519 (fe_val (fe_sub f g)) (fe_val f - fe_val g)"
proof -
  obtain a0 a1 a2 a3 a4 where f: "f = Fe a0 a1 a2 a3 a4" by (cases f)
  obtain b0 b1 b2 b3 b4 where g: "g = Fe b0 b1 b2 b3 b4" by (cases g)
  have sub: "uint (a + c - b) = uint a + uint c - uint b"
    if "uint a < 2 ^ 53" "uint b < 2 ^ 53" "2 ^ 54 < uint c" "uint c < 2 ^ 56" for a b c :: u64
  proof -
    have "uint (a + c) = uint a + uint c" using that by (simp add: uint_add64)
    moreover have "uint b < 2 ^ 54" using that by simp
    ultimately have "uint b \<le> uint (a + c)" using that uint_ge_0 [of a] by linarith
    note this \<open>uint (a + c) = uint a + uint c\<close>
    then show ?thesis by (simp add: uint_sub64)
  qed
  let ?h = "Fe (a0 + 36028797018963664 - b0) (a1 + 36028797018963952 - b1) (a2 + 36028797018963952 - b2)
      (a3 + 36028797018963952 - b3) (a4 + 36028797018963952 - b4)"
  have h: "limbs_below (2 ^ 63) ?h" "fe_val ?h = fe_val f - fe_val g + 16 * p25519"
    using assms by (auto simp: f g sub p25519_def uint_diff_less)
  have "congr p25519 (fe_val ?h) (fe_val f - fe_val g)" unfolding h(2) congr_def by simp
  with fe_carry_value [OF h(1)] show ?thesis
    unfolding f g fe_sub.simps by (blast intro: congr_trans)
qed

lemma fe_add_value:
  assumes "limbs_below (2 ^ 52) f" "limbs_below (2 ^ 52) g"
  shows "limbs_below (2 ^ 53) (fe_add f g) \<and> fe_val (fe_add f g) = fe_val f + fe_val g"
  using assms by (cases f; cases g) (auto simp: uint_add64 algebra_simps)

lemma uint_wide: "uint (wide x y) = uint x * uint y"
proof -
  have "uint x < 2 ^ 64" "uint y < 2 ^ 64" using uint_lt2p [of x] uint_lt2p [of y] by simp_all
  then have "uint x * uint y < 2 ^ 64 * 2 ^ 64" by (intro mult_strict_mono) simp_all
  moreover have "uint (ucast z :: u128) = uint z" for z :: u64 by (rule uint_up_ucast) (simp add: is_up)
  ultimately show ?thesis by (simp add: wide_def uint_word_ariths)
qed

lemma uint_ucast64: "uint (ucast (v :: u128) :: u64) = uint v mod 2 ^ 64"
  by (simp add: unsigned_ucast_eq take_bit_eq_mod)

lemma uint_ucast_mask51: "uint ((ucast (v :: u128) :: u64) AND MASK51) = uint v mod 2 ^ 51"
proof -
  have "(2 :: int) ^ 51 dvd 2 ^ 64" by (rule le_imp_power_dvd) simp
  then show ?thesis by (simp only: uint_mask51 uint_ucast64 mod_mod_cancel)
qed

lemma reduce_wide_value:
  assumes "uint t0 < 2 ^ 116" "uint t1 < 2 ^ 116" "uint t2 < 2 ^ 116" "uint t3 < 2 ^ 116" "uint t4 < 2 ^ 109"
  shows "carried (reduce_wide t0 t1 t2 t3 t4) \<and> congr p25519 (fe_val (reduce_wide t0 t1 t2 t3 t4))
    (uint t0 + 2 ^ 51 * uint t1 + 2 ^ 102 * uint t2 + 2 ^ 153 * uint t3 + 2 ^ 204 * uint t4)"
proof -
  let ?B = "2 ^ 51 :: int"
  define v1 where "v1 = t1 + drop_bit 51 t0"
  define v2 where "v2 = t2 + drop_bit 51 v1"
  define v3 where "v3 = t3 + drop_bit 51 v2"
  define v4 where "v4 = t4 + drop_bit 51 v3"
  define r0 :: u64 where "r0 = (ucast t0 AND MASK51) + ucast (drop_bit 51 v4) * 19"
  let ?f = "Fe r0 (ucast v1 AND MASK51) (ucast v2 AND MASK51) (ucast v3 AND MASK51) (ucast v4 AND MASK51)"
  have r: "reduce_wide t0 t1 t2 t3 t4 = fe_carry ?f"
    by (simp add: reduce_wide_def r0_def v1_def v2_def v3_def v4_def Let_def)
  have u1: "uint v1 = uint t1 + uint t0 div ?B" "uint v1 < 2 ^ 117"
    using assms(1,2) by (simp_all add: v1_def uint_add128 uint_drop)
  have u2: "uint v2 = uint t2 + uint v1 div ?B" "uint v2 < 2 ^ 117"
    using assms(3) u1(2) by (simp_all add: v2_def uint_add128 uint_drop)
  have u3: "uint v3 = uint t3 + uint v2 div ?B" "uint v3 < 2 ^ 117"
    using assms(4) u2(2) by (simp_all add: v3_def uint_add128 uint_drop)
  have u4: "uint v4 = uint t4 + uint v3 div ?B" "uint v4 < 2 ^ 109 + 2 ^ 66"
    using assms(5) u3(2) by (simp_all add: v4_def uint_add128 uint_drop)
  have q: "uint v4 div ?B < 2 ^ 58 + 2 ^ 15 + 1" using u4(2) by simp
  then have "uint v4 div ?B * 19 < 2 ^ 63 - 2 ^ 51" by simp
  then have uq: "uint (ucast (drop_bit 51 v4) :: u64) = uint v4 div ?B"
    unfolding uint_ucast64 uint_drop by (intro mod_pos_pos_trivial) (simp_all add: pos_imp_zdiv_nonneg_iff)
  have u0: "uint r0 = uint t0 mod ?B + uint v4 div ?B * 19"
    using q by (simp add: r0_def uint_add64 uint_mult64 uq uint_ucast_mask51)
  have "uint t0 mod ?B < ?B" by simp
  with q have "uint t0 mod ?B + uint v4 div ?B * 19 < 2 ^ 63" by simp
  then have h: "limbs_below (2 ^ 63) ?f" by (auto simp: u0 uint_ucast_mask51 intro: less_trans [OF pos_mod_bound])
  have "congr p25519 (fe_val ?f) (uint t0 + ?B * uint t1 + 2 ^ 102 * uint t2 + 2 ^ 153 * uint t3 + 2 ^ 204 * uint t4)"
    unfolding fe_val.simps uint_ucast_mask51 u0 by (rule carry_fold [OF u1(1) u2(1) u3(1) u4(1)])
  with fe_carry_value [OF h] show ?thesis unfolding r by (blast intro: congr_trans)
qed

lemma product_bound:
  "uint (a :: u64) < 2 ^ 53 \<Longrightarrow> uint (b :: u64) < 2 ^ 53 \<Longrightarrow> uint a * uint b < 2 ^ 106"
  using mult_strict_mono [of "uint a" "2 ^ 53" "uint b" "2 ^ 53"] by simp

text \<open>The product of two values, with what exceeds 255 bits folded back.\<close>

lemma product_folded:
  fixes a0 :: int
  shows "(a0 + 2 ^ 51 * a1 + 2 ^ 102 * a2 + 2 ^ 153 * a3 + 2 ^ 204 * a4) * (b0 + 2 ^ 51 * b1 + 2 ^ 102 * b2 + 2 ^ 153 * b3 + 2 ^ 204 * b4) =
    (a0 * b0 + 19 * (a1 * b4) + 19 * (a2 * b3) + 19 * (a3 * b2) + 19 * (a4 * b1))
    + 2 ^ 51 * (a0 * b1 + a1 * b0 + 19 * (a2 * b4) + 19 * (a3 * b3) + 19 * (a4 * b2))
    + 2 ^ 102 * (a0 * b2 + a1 * b1 + a2 * b0 + 19 * (a3 * b4) + 19 * (a4 * b3))
    + 2 ^ 153 * (a0 * b3 + a1 * b2 + a2 * b1 + a3 * b0 + 19 * (a4 * b4))
    + 2 ^ 204 * (a0 * b4 + a1 * b3 + a2 * b2 + a3 * b1 + a4 * b0)
    + (a1 * b4 + a2 * b3 + a3 * b2 + a4 * b1 + 2 ^ 51 * (a2 * b4 + a3 * b3 + a4 * b2) + 2 ^ 102 * (a3 * b4 + a4 * b3) + 2 ^ 153 * (a4 * b4)) * p25519"
  unfolding p25519_def by (simp add: algebra_simps)

lemma fe_mul_value:
  assumes "limbs_below (2 ^ 53) f" "limbs_below (2 ^ 53) g"
  shows "carried (fe_mul f g) \<and> congr p25519 (fe_val (fe_mul f g)) (fe_val f * fe_val g)"
proof -
  obtain a0 a1 a2 a3 a4 where f: "f = Fe a0 a1 a2 a3 a4" by (cases f)
  obtain b0 b1 b2 b3 b4 where g: "g = Fe b0 b1 b2 b3 b4" by (cases g)
  have a: "uint a0 < 2 ^ 53" "uint a1 < 2 ^ 53" "uint a2 < 2 ^ 53" "uint a3 < 2 ^ 53" "uint a4 < 2 ^ 53"
    and b: "uint b0 < 2 ^ 53" "uint b1 < 2 ^ 53" "uint b2 < 2 ^ 53" "uint b3 < 2 ^ 53" "uint b4 < 2 ^ 53"
    using assms by (simp_all add: f g)
  have w: "uint (wide x y) = uint x * uint y \<and> uint x * uint y < 2 ^ 106"
    "uint (wide x (y * 19)) = 19 * (uint x * uint y)" if "uint x < 2 ^ 53" "uint y < 2 ^ 53" for x y
    using that product_bound [OF that] by (simp_all add: uint_wide uint_mult64)
  note wb = w(1) [THEN conjunct2] and ws = w(1) [THEN conjunct1, simplified] w(2) [simplified] a [simplified] b [simplified]
  note ab = wb [OF a(1) b(1)] wb [OF a(1) b(2)] wb [OF a(1) b(3)] wb [OF a(1) b(4)] wb [OF a(1) b(5)]
    wb [OF a(2) b(1)] wb [OF a(2) b(2)] wb [OF a(2) b(3)] wb [OF a(2) b(4)] wb [OF a(2) b(5)]
    wb [OF a(3) b(1)] wb [OF a(3) b(2)] wb [OF a(3) b(3)] wb [OF a(3) b(4)] wb [OF a(3) b(5)]
    wb [OF a(4) b(1)] wb [OF a(4) b(2)] wb [OF a(4) b(3)] wb [OF a(4) b(4)] wb [OF a(4) b(5)]
    wb [OF a(5) b(1)] wb [OF a(5) b(2)] wb [OF a(5) b(3)] wb [OF a(5) b(4)] wb [OF a(5) b(5)]
  have sum5: "uint (x0 + x1 + x2 + x3 + x4) = uint x0 + uint x1 + uint x2 + uint x3 + uint x4"
    if "uint x0 + uint x1 + uint x2 + uint x3 + uint x4 < 2 ^ 128" for x0 x1 x2 x3 x4 :: u128
  proof -
    have "0 \<le> uint x1" "0 \<le> uint x2" "0 \<le> uint x3" "0 \<le> uint x4" by simp_all
    with that have "uint x0 + uint x1 < 2 ^ 128" "uint x0 + uint x1 + uint x2 < 2 ^ 128" "uint x0 + uint x1 + uint x2 + uint x3 < 2 ^ 128"
      by linarith+
    with that show ?thesis by (simp add: uint_add128)
  qed
  let ?t0 = "wide a0 b0 + wide a1 (b4 * 19) + wide a2 (b3 * 19) + wide a3 (b2 * 19) + wide a4 (b1 * 19)"
  let ?t1 = "wide a0 b1 + wide a1 b0 + wide a2 (b4 * 19) + wide a3 (b3 * 19) + wide a4 (b2 * 19)"
  let ?t2 = "wide a0 b2 + wide a1 b1 + wide a2 b0 + wide a3 (b4 * 19) + wide a4 (b3 * 19)"
  let ?t3 = "wide a0 b3 + wide a1 b2 + wide a2 b1 + wide a3 b0 + wide a4 (b4 * 19)"
  let ?t4 = "wide a0 b4 + wide a1 b3 + wide a2 b2 + wide a3 b1 + wide a4 b0"
  have t0: "uint ?t0 = uint a0 * uint b0 + 19 * (uint a1 * uint b4) + 19 * (uint a2 * uint b3) + 19 * (uint a3 * uint b2) + 19 * (uint a4 * uint b1)"
    using ab by (subst sum5) (simp_all add: ws)
  have t1: "uint ?t1 = uint a0 * uint b1 + uint a1 * uint b0 + 19 * (uint a2 * uint b4) + 19 * (uint a3 * uint b3) + 19 * (uint a4 * uint b2)"
    using ab by (subst sum5) (simp_all add: ws)
  have t2: "uint ?t2 = uint a0 * uint b2 + uint a1 * uint b1 + uint a2 * uint b0 + 19 * (uint a3 * uint b4) + 19 * (uint a4 * uint b3)"
    using ab by (subst sum5) (simp_all add: ws)
  have t3: "uint ?t3 = uint a0 * uint b3 + uint a1 * uint b2 + uint a2 * uint b1 + uint a3 * uint b0 + 19 * (uint a4 * uint b4)"
    using ab by (subst sum5) (simp_all add: ws)
  have t4: "uint ?t4 = uint a0 * uint b4 + uint a1 * uint b3 + uint a2 * uint b2 + uint a3 * uint b1 + uint a4 * uint b0"
    using ab by (subst sum5) (simp_all add: ws)
  have "uint ?t0 < 2 ^ 116" unfolding t0 using ab by simp
  moreover have "uint ?t1 < 2 ^ 116" unfolding t1 using ab by simp
  moreover have "uint ?t2 < 2 ^ 116" unfolding t2 using ab by simp
  moreover have "uint ?t3 < 2 ^ 116" unfolding t3 using ab by simp
  moreover have "uint ?t4 < 2 ^ 109" unfolding t4 using ab by simp
  ultimately have r: "carried (fe_mul f g)" "congr p25519 (fe_val (fe_mul f g))
      (uint ?t0 + 2 ^ 51 * uint ?t1 + 2 ^ 102 * uint ?t2 + 2 ^ 153 * uint ?t3 + 2 ^ 204 * uint ?t4)"
    using reduce_wide_value [of ?t0 ?t1 ?t2 ?t3 ?t4] unfolding f g fe_mul.simps by blast+
  have "congr p25519 (uint ?t0 + 2 ^ 51 * uint ?t1 + 2 ^ 102 * uint ?t2 + 2 ^ 153 * uint ?t3 + 2 ^ 204 * uint ?t4) (fe_val f * fe_val g)"
    unfolding f g fe_val.simps product_folded t0 t1 t2 t3 t4 congr_def by simp
  with r show ?thesis by (blast intro: congr_trans)
qed

lemma fe_mul_small_value:
  assumes "limbs_below (2 ^ 53) f"
  shows "carried (fe_mul_small f 121665) \<and> congr p25519 (fe_val (fe_mul_small f 121665)) (121665 * fe_val f)"
proof -
  obtain a0 a1 a2 a3 a4 where f: "f = Fe a0 a1 a2 a3 a4" by (cases f)
  have w: "uint (wide x 121665) = 121665 * uint x" for x by (simp add: uint_wide)
  have "carried (fe_mul_small f 121665) \<and> congr p25519 (fe_val (fe_mul_small f 121665))
      (uint (wide a0 121665) + 2 ^ 51 * uint (wide a1 121665) + 2 ^ 102 * uint (wide a2 121665)
        + 2 ^ 153 * uint (wide a3 121665) + 2 ^ 204 * uint (wide a4 121665))"
    unfolding f fe_mul_small.simps by (rule reduce_wide_value) (use assms in \<open>simp_all add: f w\<close>)
  then show ?thesis unfolding w f fe_val.simps by (simp add: algebra_simps)
qed

section \<open>The canonical form\<close>

lemma fe_carry_twice:
  assumes "carried f"
  shows "limbs_below (2 ^ 51) (fe_carry f)"
proof -
  obtain l0 l1 l2 l3 l4 where f: "f = Fe l0 l1 l2 l3 l4" by (cases f)
  obtain r0 r1 r2 r3 r4 where r: "fe_carry (Fe l0 l1 l2 l3 l4) = Fe r0 r1 r2 r3 r4" by (cases "fe_carry (Fe l0 l1 l2 l3 l4)")
  have l: "uint l0 < 2 ^ 51 + 2 ^ 18" "uint l1 < 2 ^ 51" "uint l2 < 2 ^ 51" "uint l3 < 2 ^ 51" "uint l4 < 2 ^ 51"
    using assms by (simp_all add: f)
  define m1 where "m1 = uint l1 + uint l0 div 2 ^ 51"
  define m2 where "m2 = uint l2 + m1 div 2 ^ 51"
  define m3 where "m3 = uint l3 + m2 div 2 ^ 51"
  define m4 where "m4 = uint l4 + m3 div 2 ^ 51"
  have "limbs_below (2 ^ 63) (Fe l0 l1 l2 l3 l4)" using l by simp
  note u = fe_carry_ints [OF this r m1_def m2_def m3_def m4_def]
  have step: "(0 \<le> (x + c) div 2 ^ 51 \<and> (x + c) div 2 ^ 51 \<le> 1) \<and> (x + c) div 2 ^ 51 \<le> c"
    if "0 \<le> x" "x < 2 ^ 51" "0 \<le> c \<and> c \<le> 1" for x c :: int
    using that by (cases "c = 0") (auto simp: order.order_iff_strict)
  have c0: "0 \<le> uint l0 div 2 ^ 51 \<and> uint l0 div 2 ^ 51 \<le> 1" using l(1) by (simp add: pos_imp_zdiv_nonneg_iff)
  note c1 = step [OF uint_ge_0 l(2) c0, folded m1_def]
  note c2 = step [OF uint_ge_0 l(3) conjunct1 [OF c1], folded m2_def]
  note c3 = step [OF uint_ge_0 l(4) conjunct1 [OF c2], folded m3_def]
  note c4 = step [OF uint_ge_0 l(5) conjunct1 [OF c3], folded m4_def]
  have "uint l0 mod 2 ^ 51 + m4 div 2 ^ 51 * 19 < 2 ^ 51"
  proof (cases "uint l0 < 2 ^ 51")
    case True
    then have "m4 div 2 ^ 51 = 0" using c1 c2 c3 c4 by simp
    then show ?thesis by simp
  next
    case False
    then have "uint l0 mod 2 ^ 51 = (uint l0 - 2 ^ 51) mod 2 ^ 51" by simp
    also have "\<dots> = uint l0 - 2 ^ 51" using False l(1) by (intro mod_pos_pos_trivial) simp_all
    finally show ?thesis using l(1) c0 c1 c2 c3 c4 by simp
  qed
  then show ?thesis unfolding f r limbs_below.simps u(1-5) by simp
qed

lemma fe_canonical_value:
  assumes "limbs_below (2 ^ 51) f"
  shows "limbs_below (2 ^ 51) (fe_canonical f) \<and> fe_val (fe_canonical f) = fe_val f mod p25519"
proof -
  obtain l0 l1 l2 l3 l4 where f: "f = Fe l0 l1 l2 l3 l4" by (cases f)
  have l: "uint l0 < 2 ^ 51" "uint l1 < 2 ^ 51" "uint l2 < 2 ^ 51" "uint l3 < 2 ^ 51" "uint l4 < 2 ^ 51"
    using assms by (simp_all add: f)
  have add: "uint (x + drop_bit 51 y) = uint x + uint y div 2 ^ 51 \<and> uint (x + drop_bit 51 y) < 2 ^ 52"
    if "uint x < 2 ^ 51" "uint y < 2 ^ 52" for x y :: u64
    using that by (simp add: uint_add64 uint_drop)
  define n0 where "n0 = l0 + 19"
  define n1 where "n1 = l1 + drop_bit 51 n0"
  define n2 where "n2 = l2 + drop_bit 51 n1"
  define n3 where "n3 = l3 + drop_bit 51 n2"
  define n4 where "n4 = l4 + drop_bit 51 n3"
  define m0 where "m0 = l0 + 19 * drop_bit 51 n4"
  define m1 where "m1 = l1 + drop_bit 51 m0"
  define m2 where "m2 = l2 + drop_bit 51 m1"
  define m3 where "m3 = l3 + drop_bit 51 m2"
  define m4 where "m4 = l4 + drop_bit 51 m3"
  have c: "fe_canonical f = Fe (m0 AND MASK51) (m1 AND MASK51) (m2 AND MASK51) (m3 AND MASK51) (m4 AND MASK51)"
    by (simp only: f fe_canonical_def fe.case Let_def m0_def m1_def m2_def m3_def m4_def n0_def n1_def n2_def n3_def n4_def)
  have n0: "uint n0 = uint l0 + 19" "uint n0 < 2 ^ 52" using l(1) by (simp_all add: n0_def uint_add64)
  note n1 = add [OF l(2) n0(2), folded n1_def]
  note n2 = add [OF l(3) conjunct2 [OF n1], folded n2_def]
  note n3 = add [OF l(4) conjunct2 [OF n2], folded n3_def]
  note n4 = add [OF l(5) conjunct2 [OF n3], folded n4_def]
  let ?v = "fe_val f"
  have vb: "0 \<le> ?v" "?v < 2 ^ 255" using l by (simp_all add: f)
  have q: "uint n4 div 2 ^ 51 = (?v + 19) div 2 ^ 255"
    using carry_chain(2) [OF n0(1) conjunct1 [OF n1] conjunct1 [OF n2] conjunct1 [OF n3] conjunct1 [OF n4]] by (simp only: f fe_val.simps)
  let ?q = "(?v + 19) div 2 ^ 255"
  have q1: "0 \<le> ?q" "?q \<le> 1" using vb by simp_all
  have m0: "uint m0 = uint l0 + 19 * ?q" "uint m0 < 2 ^ 52"
  proof -
    have "uint (19 * drop_bit 51 n4) = 19 * ?q" using q q1 by (simp add: uint_mult64 uint_drop)
    then show "uint m0 = uint l0 + 19 * ?q" "uint m0 < 2 ^ 52" using l(1) q1 by (simp_all add: m0_def uint_add64)
  qed
  note m1 = add [OF l(2) m0(2), folded m1_def]
  note m2 = add [OF l(3) conjunct2 [OF m1], folded m2_def]
  note m3 = add [OF l(4) conjunct2 [OF m2], folded m3_def]
  note m4 = add [OF l(5) conjunct2 [OF m3], folded m4_def]
  have "fe_val (fe_canonical f) = (?v + 19 * ?q) mod 2 ^ 255"
    using carry_chain(1) [OF m0(1) conjunct1 [OF m1] conjunct1 [OF m2] conjunct1 [OF m3] conjunct1 [OF m4]]
    unfolding c by (simp only: fe_val.simps uint_mask51) (simp only: f fe_val.simps)
  also have "\<dots> = ?v mod p25519"
  proof (cases "?v < p25519")
    case True
    then have "?q = 0" using vb by (simp add: p25519_def)
    then show ?thesis using True vb by simp
  next
    case False
    then have "(?v + 19) div 2 ^ 255 = 1" using vb by (simp add: p25519_def)
    moreover have "?v mod p25519 = (?v - p25519) mod p25519" by simp
    moreover have "(?v - p25519) mod p25519 = ?v - p25519" "(?v + 19 - 2 ^ 255) mod 2 ^ 255 = ?v + 19 - 2 ^ 255"
      using False vb by (intro mod_pos_pos_trivial; simp add: p25519_def)+
    moreover have "(?v + 19) mod 2 ^ 255 = (?v + 19 - 2 ^ 255) mod 2 ^ 255" by (simp only: minus_mod_self2)
    ultimately show ?thesis by (simp add: p25519_def)
  qed
  finally show ?thesis unfolding c by (simp add: uint_mask51)
qed

lemma fe_freeze_value:
  assumes "limbs_below (2 ^ 63) f"
  shows "limbs_below (2 ^ 51) (fe_freeze f) \<and> fe_val (fe_freeze f) = fe_val f mod p25519"
proof -
  note c1 = fe_carry_value [OF assms]
  have "limbs_below (2 ^ 63) (fe_carry f)" using limbs_below_mono [OF carried_limbs] c1 by simp
  note c2 = fe_carry_value [OF this]
  have "congr p25519 (fe_val (fe_carry (fe_carry f))) (fe_val f)" using c1 c2 by (blast intro: congr_trans)
  with fe_canonical_value [OF fe_carry_twice [OF conjunct1 [OF c1]]] show ?thesis
    by (simp add: fe_freeze_def congr_mod)
qed

section \<open>Bytes\<close>

lemma bit_below_power: "0 \<le> (x :: int) \<Longrightarrow> x < 2 ^ d \<Longrightarrow> bit x n \<Longrightarrow> n < d"
  by (metis bit_take_bit_iff take_bit_int_eq_self)

lemma uint_or_push:
  fixes a b :: u64
  assumes "uint a < 2 ^ n" "n \<le> 64"
  shows "uint (a OR push_bit n b) = uint a + 2 ^ n * (uint b mod 2 ^ (64 - n))"
proof -
  have "uint (push_bit n b) = push_bit n (take_bit (64 - n) (uint b))"
    using assms(2) by (simp add: unsigned_push_bit_eq take_bit_push_bit)
  then have "uint (a OR push_bit n b) = uint a OR push_bit n (take_bit (64 - n) (uint b))" by (simp only: unsigned_or_eq)
  also have "\<dots> = uint a + push_bit n (take_bit (64 - n) (uint b))"
    using assms(1) by (intro disjunctive_add [symmetric]) (auto simp: bit_push_bit_iff dest: bit_below_power [rotated 2])
  finally show ?thesis by (simp add: push_bit_eq_mult take_bit_eq_mod mult.commute)
qed

lemma le_nat_append: "le_nat (xs @ ys) = le_nat xs + 256 ^ length xs * le_nat ys"
  by (induction xs) (simp_all add: algebra_simps)

lemma fe_to_bytes_value:
  assumes "limbs_below (2 ^ 63) f"
  shows "fe_to_bytes f = le_bytes 32 (nat (fe_val f mod p25519))"
proof -
  obtain l0 l1 l2 l3 l4 where f: "fe_freeze f = Fe l0 l1 l2 l3 l4" by (cases "fe_freeze f")
  have l: "uint l0 < 2 ^ 51" "uint l1 < 2 ^ 51" "uint l2 < 2 ^ 51" "uint l3 < 2 ^ 51" "uint l4 < 2 ^ 51"
    and v: "fe_val f mod p25519 = uint l0 + 2 ^ 51 * uint l1 + 2 ^ 102 * uint l2 + 2 ^ 153 * uint l3 + 2 ^ 204 * uint l4"
    using fe_freeze_value [OF assms] by (simp_all only: f limbs_below.simps fe_val.simps)
  let ?ws = "[l0 OR push_bit 51 l1, drop_bit 13 l1 OR push_bit 38 l2, drop_bit 26 l2 OR push_bit 25 l3, drop_bit 39 l3 OR push_bit 12 l4]"
  have w0: "uint (l0 OR push_bit 51 l1) = uint l0 + 2 ^ 51 * (uint l1 mod 2 ^ 13)" using l(1) uint_or_push [of l0 51 l1] by simp
  have w1: "uint (drop_bit 13 l1 OR push_bit 38 l2) = uint l1 div 2 ^ 13 + 2 ^ 38 * (uint l2 mod 2 ^ 26)"
    using l(2) uint_or_push [of "drop_bit 13 l1" 38 l2] by (simp add: uint_drop)
  have w2: "uint (drop_bit 26 l2 OR push_bit 25 l3) = uint l2 div 2 ^ 26 + 2 ^ 25 * (uint l3 mod 2 ^ 39)"
    using l(3) uint_or_push [of "drop_bit 26 l2" 25 l3] by (simp add: uint_drop)
  have w3: "uint (drop_bit 39 l3 OR push_bit 12 l4) = uint l3 div 2 ^ 39 + 2 ^ 12 * uint l4"
    using l(4,5) uint_or_push [of "drop_bit 39 l3" 12 l4] by (simp add: uint_drop)
  have le: "le_nat (le_bytes 8 (unat w)) = unat w" for w :: u64
    by (rule le_nat_le_bytes_lt, rule less_le_trans [OF unsigned_less]) simp
  have "int (le_nat (concat (map (\<lambda>w. le_bytes 8 (unat w)) ?ws))) = fe_val f mod p25519"
    unfolding v by (simp add: le_nat_append le w0 w1 w2 w3 minus_mult_div_eq_mod [symmetric] algebra_simps)
  then have "le_nat (fe_to_bytes f) = nat (fe_val f mod p25519)" by (simp add: fe_to_bytes_def f)
  moreover have "length (fe_to_bytes f) = 32" by (simp add: fe_to_bytes_def f)
  ultimately show ?thesis using le_bytes_le_nat [of "fe_to_bytes f"] by simp
qed

lemma load_u64_value:
  assumes "i + 8 \<le> length bs"
  shows "uint (load_u64 bs i) = int (le_nat (take 8 (drop i bs)))"
proof -
  have "uint (foldl (\<lambda>x k. x OR push_bit (8 * k) (ucast (bs ! (i + k)))) (0 :: u64) [0..<n]) = int (le_nat (take n (drop i bs)))
      \<and> le_nat (take n (drop i bs)) < 2 ^ (8 * n)" if "n \<le> 8" for n
    using that
  proof (induction n)
    case (Suc n)
    let ?a = "foldl (\<lambda>x k. x OR push_bit (8 * k) (ucast (bs ! (i + k)))) (0 :: u64) [0..<n]"
    let ?b = "bs ! (i + n)"
    from Suc have a: "uint ?a = int (le_nat (take n (drop i bs)))" "le_nat (take n (drop i bs)) < 2 ^ (8 * n)" by simp_all
    have ub: "uint (ucast ?b :: u64) = uint ?b" by (rule uint_up_ucast) (simp add: is_up)
    have "uint ?b < 2 ^ 8" using uint_lt2p [of ?b] by simp
    also have "(2 :: int) ^ 8 \<le> 2 ^ (64 - 8 * n)" using Suc.prems by (intro power_increasing) simp_all
    finally have "uint (?a OR push_bit (8 * n) (ucast ?b)) = uint ?a + 2 ^ (8 * n) * uint ?b"
      using uint_or_push [of ?a "8 * n" "ucast ?b"] a Suc.prems by (simp add: ub)
    moreover have "take (Suc n) (drop i bs) = take n (drop i bs) @ [?b]" using assms Suc.prems by (simp add: take_Suc_conv_app_nth)
    then have "le_nat (take (Suc n) (drop i bs)) = le_nat (take n (drop i bs)) + 2 ^ (8 * n) * unat ?b"
      using assms Suc.prems by (simp add: le_nat_append power_mult)
    moreover have "le_nat (take (Suc n) (drop i bs)) < 2 ^ (8 * Suc n)"
      using le_nat_take_lt [of "Suc n" "drop i bs"] by (simp add: power_mult power_add)
    ultimately show ?case using a by simp
  qed simp
  from this [of 8] show ?thesis by (simp add: load_u64_def)
qed

lemma le_nat_words:
  assumes "length bs = 32"
  shows "le_nat bs = le_nat (take 8 (drop 0 bs)) + 2 ^ 64 * le_nat (take 8 (drop 8 bs)) + 2 ^ 128 * le_nat (take 8 (drop 16 bs)) + 2 ^ 192 * le_nat (take 8 (drop 24 bs))"
proof -
  have "bs = take 8 (drop 0 bs) @ take 8 (drop 8 bs) @ take 8 (drop 16 bs) @ take 8 (drop 24 bs)"
    using assms append_take_drop_id [of 8 bs] append_take_drop_id [of 8 "drop 8 bs"] append_take_drop_id [of 8 "drop 16 bs"] by simp
  then have "le_nat bs = le_nat (take 8 (drop 0 bs) @ take 8 (drop 8 bs) @ take 8 (drop 16 bs) @ take 8 (drop 24 bs))" by (rule arg_cong)
  then show ?thesis unfolding le_nat_append using assms by simp
qed

lemma uint_repack:
  fixes x y :: u64
  assumes "a + n = 64" "n \<le> 51"
  shows "uint ((drop_bit a x OR push_bit n y) AND MASK51) = uint x div 2 ^ a + 2 ^ n * (uint y mod 2 ^ (51 - n))"
proof -
  let ?c = "uint x div 2 ^ a" and ?z = "uint y mod 2 ^ (64 - n)"
  have "2 ^ a * ?c \<le> uint x" by (metis le_add_same_cancel1 mult_div_mod_eq pos_mod_sign zero_less_numeral zero_less_power)
  also have "uint x < 2 ^ a * 2 ^ n" using uint_lt2p [of x] assms(1) by (simp flip: power_add)
  finally have c: "0 \<le> ?c" "?c < 2 ^ n" by (simp_all add: pos_imp_zdiv_nonneg_iff)
  have "uint ((drop_bit a x OR push_bit n y) AND MASK51) = (?c + 2 ^ n * ?z) mod 2 ^ 51"
    unfolding uint_mask51 using uint_or_push [of "drop_bit a x" n y] c assms by (simp add: uint_drop)
  also have "(2 :: int) ^ 51 = 2 ^ n * 2 ^ (51 - n)" using assms(2) by (simp flip: power_add)
  also have "(?c + 2 ^ n * ?z) mod (2 ^ n * 2 ^ (51 - n)) = 2 ^ n * ((?c + 2 ^ n * ?z) div 2 ^ n mod 2 ^ (51 - n)) + (?c + 2 ^ n * ?z) mod 2 ^ n"
    by (rule zmod_zmult2_eq) simp
  also have "(?c + 2 ^ n * ?z) div 2 ^ n = ?z" using c by simp
  also have "(?c + 2 ^ n * ?z) mod 2 ^ n = ?c" using c by simp
  also have "?z mod 2 ^ (51 - n) = uint y mod 2 ^ (51 - n)" by (intro mod_mod_cancel le_imp_power_dvd) simp
  finally show ?thesis by simp
qed

lemma fe_from_bytes_value:
  assumes "length bs = 32"
  shows "limbs_below (2 ^ 51) (fe_from_bytes bs) \<and> fe_val (fe_from_bytes bs) = int (le_nat bs) mod 2 ^ 255"
proof -
  define x0 where "x0 = load_u64 bs 0"
  define x1 where "x1 = load_u64 bs 8"
  define x2 where "x2 = load_u64 bs 16"
  define x3 where "x3 = load_u64 bs 24"
  have n: "int (le_nat bs) = uint x0 + 2 ^ 64 * uint x1 + 2 ^ 128 * uint x2 + 2 ^ 192 * uint x3"
    unfolding x0_def x1_def x2_def x3_def using assms le_nat_words [OF assms] by (simp add: load_u64_value)
  have x: "0 \<le> uint x0 \<and> uint x0 < 2 ^ 64" "0 \<le> uint x1 \<and> uint x1 < 2 ^ 64" "0 \<le> uint x2 \<and> uint x2 < 2 ^ 64" "0 \<le> uint x3 \<and> uint x3 < 2 ^ 64"
    using uint_lt2p [of x0] uint_lt2p [of x1] uint_lt2p [of x2] uint_lt2p [of x3] by simp_all
  have l1: "uint ((drop_bit 51 x0 OR push_bit 13 x1) AND MASK51) = uint x0 div 2 ^ 51 + 2 ^ 13 * (uint x1 mod 2 ^ 38)"
    using uint_repack [of 51 13 x0 x1] by simp
  have l2: "uint ((drop_bit 38 x1 OR push_bit 26 x2) AND MASK51) = uint x1 div 2 ^ 38 + 2 ^ 26 * (uint x2 mod 2 ^ 25)"
    using uint_repack [of 38 26 x1 x2] by simp
  have l3: "uint ((drop_bit 25 x2 OR push_bit 39 x3) AND MASK51) = uint x2 div 2 ^ 25 + 2 ^ 39 * (uint x3 mod 2 ^ 12)"
    using uint_repack [of 25 39 x2 x3] by simp
  have l0: "uint (x0 AND MASK51) = uint x0 mod 2 ^ 51" by (rule uint_mask51)
  have l4: "uint (drop_bit 12 x3 AND MASK51) = uint x3 div 2 ^ 12 mod 2 ^ 51"
    by (simp only: uint_mask51 uint_drop)
  have f: "fe_from_bytes bs = Fe (x0 AND MASK51) ((drop_bit 51 x0 OR push_bit 13 x1) AND MASK51) ((drop_bit 38 x1 OR push_bit 26 x2) AND MASK51)
      ((drop_bit 25 x2 OR push_bit 39 x3) AND MASK51) (drop_bit 12 x3 AND MASK51)"
    by (simp only: fe_from_bytes_def Let_def x0_def x1_def x2_def x3_def)
  have below: "limbs_below (2 ^ 51) (fe_from_bytes bs)" unfolding f by (simp add: uint_mask51)
  have "uint x3 = 2 ^ 63 * (uint x3 div 2 ^ 63) + 2 ^ 12 * (uint x3 div 2 ^ 12 mod 2 ^ 51) + uint x3 mod 2 ^ 12"
    using zmod_zmult2_eq [of "2 ^ 51" "uint x3" "2 ^ 12"] mult_div_mod_eq [of "2 ^ 63" "uint x3"] by simp
  then have "int (le_nat bs) = 2 ^ 255 * (uint x3 div 2 ^ 63) + fe_val (fe_from_bytes bs)"
    unfolding n f fe_val.simps l0 l1 l2 l3 l4 minus_mult_div_eq_mod [symmetric] by (simp add: algebra_simps)
  moreover have "0 \<le> fe_val (fe_from_bytes bs) \<and> fe_val (fe_from_bytes bs) < 2 ^ 255"
    using below by (cases "fe_from_bytes bs") simp
  ultimately have "fe_val (fe_from_bytes bs) = int (le_nat bs) mod 2 ^ 255" using int_mod_pos_eq by metis
  with below show ?thesis by blast
qed

end
