(* ===== verification/Dsa_Codec.thy ===== *)
theory Dsa_Codec
  imports Ml_Dsa Ml_Kem_Correct X25519_Field
begin

text \<open>
  The encodings of ML-DSA lose nothing: bit packing, polynomials with bounded coefficients, hints and the layout
  of signatures read back what was written.
\<close>

unbundle bit_operations_syntax

section \<open>Bit packing\<close>

text \<open>A list of digits as a number, least significant first, and back.\<close>

fun digits_nat :: "nat \<Rightarrow> nat list \<Rightarrow> nat" where
  "digits_nat bits [] = 0"
| "digits_nat bits (v # vs) = v + 2 ^ bits * digits_nat bits vs"

fun nat_digits :: "nat \<Rightarrow> nat \<Rightarrow> nat \<Rightarrow> nat list" where
  "nat_digits bits 0 x = []"
| "nat_digits bits (Suc n) x = x mod 2 ^ bits # nat_digits bits n (x div 2 ^ bits)"

lemma nat_digits_digits: "list_all (\<lambda>v. v < 2 ^ bits) vs \<Longrightarrow> nat_digits bits (length vs) (digits_nat bits vs) = vs"
  by (induction vs) simp_all

lemma nat_digits_range: "list_all (\<lambda>v. v < 2 ^ bits) (nat_digits bits n x)" "length (nat_digits bits n x) = n"
  by (induction n arbitrary: x) simp_all

lemma unat_less_power: "unat w < 2 ^ n \<longleftrightarrow> uint w < 2 ^ n"
  by (simp only: unat_eq_nat_uint nat_less_numeral_power_cancel_iff)

lemma unat_or_push:
  fixes a b :: u64
  assumes "unat a < 2 ^ n" "unat b < 2 ^ m" "n + m \<le> 64"
  shows "unat (a OR push_bit n b) = unat a + 2 ^ n * unat b"
proof -
  have "unat b < 2 ^ (64 - n)" using assms(2,3) by (intro less_le_trans [OF assms(2)] power_increasing) simp_all
  then have "uint b mod 2 ^ (64 - n) = uint b" by (intro mod_pos_pos_trivial) (simp_all add: unat_less_power)
  then have "uint (a OR push_bit n b) = uint a + 2 ^ n * uint b"
    using uint_or_push [of a n b] assms(1,3) by (simp add: unat_less_power)
  then have "int (unat (a OR push_bit n b)) = int (unat a + 2 ^ n * unat b)" by simp
  then show ?thesis by (simp only: of_nat_eq_iff)
qed

lemma unat_ucast_up: "unat (ucast v :: u64) = unat (v :: u32)" "unat (ucast b :: u64) = unat (b :: byte)"
proof -
  have "unat v < 2 ^ 64" "unat b < 2 ^ 64" by (rule less_le_trans [OF unsigned_less], simp)+
  then show "unat (ucast v :: u64) = unat v" "unat (ucast b :: u64) = unat b" by (simp_all add: unsigned_ucast_eq take_bit_eq_mod)
qed

lemma digit_less: "a < m \<Longrightarrow> v < b \<Longrightarrow> a + m * v < m * (b :: nat)"
  using mult_le_mono2 [of "Suc v" b m] by simp

lemma pack_flush_value:
  assumes "unat acc < 2 ^ n" "pack_flush acc n = (out, acc', n')"
  shows "n' = n mod 8 \<and> length out = n div 8 \<and> unat acc = le_nat out + 256 ^ length out * unat acc' \<and> unat acc' < 2 ^ n'"
  using assms
proof (induction acc n arbitrary: out rule: pack_flush.induct)
  case (1 acc n)
  show ?case
  proof (cases "8 \<le> n")
    case True
    obtain out1 a1 n1 where r: "pack_flush (drop_bit 8 acc) (n - 8) = (out1, a1, n1)" by (metis prod_cases3)
    with "1.prems" True have out: "out = ucast acc # out1" "acc' = a1" "n' = n1"
      by (subst (asm) (2) pack_flush.simps; simp)+
    have d: "unat (drop_bit 8 acc) = unat acc div 256" by (simp add: drop_bit_eq_div unat_div)
    have "unat acc < 2 ^ (n - 8) * 256"
      using "1.prems"(1) True power_add [of "2 :: nat" "n - 8" 8] by simp
    then have "unat (drop_bit 8 acc) < 2 ^ (n - 8)" unfolding d by (simp add: less_mult_imp_div_less)
    from "1.IH" [OF True this] r out have IH: "n' = (n - 8) mod 8" "length out1 = (n - 8) div 8"
      "unat acc div 256 = le_nat out1 + 256 ^ length out1 * unat acc'" "unat acc' < 2 ^ n'"
      by (auto simp: d)
    have "unat (ucast acc :: byte) = unat acc mod 256" by (simp add: unsigned_ucast_eq take_bit_eq_mod)
    then have "unat acc = le_nat out + 256 ^ length out * unat acc'"
      using IH(3) div_mult_mod_eq [of "unat acc" 256] by (simp add: out(1) algebra_simps)
    with IH True show ?thesis by (auto simp: out(1) le_mod_geq le_div_geq)
  next
    case False
    then show ?thesis using "1.prems" by (subst (asm) pack_flush.simps) auto
  qed
qed

lemma pack_loop_value:
  assumes "list_all (\<lambda>v. unat v < 2 ^ bits) vs" "unat acc < 2 ^ n" "n < 8" "bits \<le> 32"
  shows "\<exists>rest. unat acc + 2 ^ n * digits_nat bits (map unat vs)
      = le_nat (pack_loop bits vs acc n) + 256 ^ length (pack_loop bits vs acc n) * rest
    \<and> rest < 2 ^ ((n + bits * length vs) mod 8) \<and> length (pack_loop bits vs acc n) = (n + bits * length vs) div 8"
  using assms
proof (induction vs arbitrary: acc n)
  case Nil
  then show ?case by (intro exI [of _ "unat acc"]) simp
next
  case (Cons v vs)
  let ?a = "acc OR push_bit n (ucast v) :: u64"
  have v: "unat (ucast v :: u64) = unat v" "unat v < 2 ^ bits" using Cons.prems by (simp_all add: unat_ucast_up)
  have a: "unat ?a = unat acc + 2 ^ n * unat v"
    using unat_or_push [of acc n "ucast v" bits] Cons.prems v by simp
  have lt: "unat ?a < 2 ^ (n + bits)" unfolding a power_add using Cons.prems(2) v(2) by (intro digit_less)
  obtain out a1 n1 where r: "pack_flush ?a (n + bits) = (out, a1, n1)" by (metis prod_cases3)
  note f = pack_flush_value [OF lt r]
  obtain rest where IH: "unat a1 + 2 ^ n1 * digits_nat bits (map unat vs)
      = le_nat (pack_loop bits vs a1 n1) + 256 ^ length (pack_loop bits vs a1 n1) * rest"
    "rest < 2 ^ ((n1 + bits * length vs) mod 8)" "length (pack_loop bits vs a1 n1) = (n1 + bits * length vs) div 8"
    using Cons.IH [of a1 n1] Cons.prems f by auto
  let ?k = "n1 + bits * length vs"
  have total: "n + bits * length (v # vs) = 8 * length out + ?k"
    using f div_mult_mod_eq [of "n + bits" 8] by (simp add: algebra_simps)
  have loop: "pack_loop bits (v # vs) acc n = out @ pack_loop bits vs a1 n1" by (simp add: r)
  have n1: "2 ^ (n + bits) = (256 :: nat) ^ length out * 2 ^ n1"
  proof -
    have "n + bits = 8 * length out + n1" using f by simp
    then show ?thesis by (simp add: power_add power_mult)
  qed
  have "unat acc + 2 ^ n * digits_nat bits (map unat (v # vs)) = unat ?a + 2 ^ (n + bits) * digits_nat bits (map unat vs)"
    unfolding a by (simp add: algebra_simps power_add)
  also have "\<dots> = le_nat out + 256 ^ length out * (unat a1 + 2 ^ n1 * digits_nat bits (map unat vs))"
    unfolding n1 using f by (simp add: algebra_simps)
  also have "\<dots> = le_nat (out @ pack_loop bits vs a1 n1) + 256 ^ length (out @ pack_loop bits vs a1 n1) * rest"
    unfolding IH(1) by (simp add: le_nat_append algebra_simps power_add)
  finally show ?case using IH(2,3) unfolding loop total by (intro exI [of _ rest]) simp
qed

lemma unpack_fill_value:
  assumes "unat acc < 2 ^ n" "n < bits + 8" "bits \<le> 32" "bits \<le> n + 8 * length data"
  shows "\<exists>used rest acc1 n1. unpack_fill bits acc n data = Some (acc1, n1, rest) \<and> data = used @ rest \<and> n1 = n + 8 * length used \<and>
    bits \<le> n1 \<and> n1 < bits + 8 \<and> unat acc1 = unat acc + 2 ^ n * le_nat used \<and> unat acc1 < 2 ^ n1"
  using assms
proof (induction bits acc n data rule: unpack_fill.induct)
  case (1 bits acc n)
  then show ?case by (intro exI [of _ "[]"]) simp
next
  case (2 bits acc n b r)
  show ?case
  proof (cases "n < bits")
    case True
    let ?a = "acc OR push_bit n (ucast b) :: u64"
    have b: "unat b < 2 ^ 8" by (rule less_le_trans [OF unsigned_less]) simp
    have a: "unat ?a = unat acc + 2 ^ n * unat b"
      using unat_or_push [of acc n "ucast b" 8] "2.prems" True b by (simp add: unat_ucast_up)
    have lt: "unat ?a < 2 ^ (n + 8)" unfolding a power_add using "2.prems"(1) b by (intro digit_less)
    from "2.IH" [OF True lt] True "2.prems" obtain used rest acc1 n1 where r:
      "unpack_fill bits ?a (n + 8) r = Some (acc1, n1, rest)" "r = used @ rest" "n1 = n + 8 + 8 * length used"
      "bits \<le> n1" "n1 < bits + 8" "unat acc1 = unat ?a + 2 ^ (n + 8) * le_nat used" "unat acc1 < 2 ^ n1" by auto
    have "unat acc1 = unat acc + 2 ^ n * le_nat (b # used)" unfolding r(6) a by (simp add: algebra_simps power_add)
    with r True show ?thesis by (intro exI [of _ "b # used"] exI [of _ rest] exI [of _ acc1] exI [of _ n1]) simp
  next
    case False
    with "2.prems" show ?thesis by (intro exI [of _ "[]"] exI [of _ "b # r"]) simp
  qed
qed

lemma unpack_loop_value:
  assumes "unat acc < 2 ^ n" "n < 8" "0 < bits" "bits \<le> 32" "bits * count \<le> n + 8 * length data"
  shows "unpack_loop bits count acc n data = Some (map word_of_nat (nat_digits bits count (unat acc + 2 ^ n * le_nat data)))"
  using assms
proof (induction count arbitrary: acc n data)
  case (Suc count)
  from unpack_fill_value [of acc n bits data] Suc.prems obtain used rest acc1 n1 where f:
    "unpack_fill bits acc n data = Some (acc1, n1, rest)" "data = used @ rest" "n1 = n + 8 * length used" "bits \<le> n1" "n1 < bits + 8"
    "unat acc1 = unat acc + 2 ^ n * le_nat used" "unat acc1 < 2 ^ n1" by auto
  have d: "unat (drop_bit bits acc1) = unat acc1 div 2 ^ bits"
    using unat_drop_bit_eq [of bits acc1] drop_bit_eq_div [of bits "unat acc1"] by simp
  have m: "ucast (acc1 AND (if bits = 64 then - 1 else push_bit bits 1 - 1)) = (word_of_nat (unat acc1 mod 2 ^ bits) :: u32)"
  proof -
    have "acc1 AND (push_bit bits 1 - 1) = take_bit bits acc1" by (simp add: take_bit_eq_mask mask_eq_exp_minus_1)
    moreover have "ucast (take_bit bits acc1) = (word_of_nat (unat acc1 mod 2 ^ bits) :: u32)"
      unfolding word_unat_eq_iff unsigned_ucast_eq unsigned_take_bit_eq unsigned_of_nat by (simp only: take_bit_eq_mod [symmetric] of_nat_id take_bit_take_bit min.commute)
    ultimately show ?thesis using Suc.prems(4) by simp
  qed
  have n1: "2 ^ n1 = 2 ^ bits * (2 :: nat) ^ (n1 - bits)" using f(4) by (simp flip: power_add)
  have lt: "unat (drop_bit bits acc1) < 2 ^ (n1 - bits)"
    unfolding d using f(7) n1 by (simp add: less_mult_imp_div_less mult.commute)
  let ?x = "unat acc + 2 ^ n * le_nat data"
  have x: "?x = unat acc1 + 2 ^ n1 * le_nat rest"
  proof -
    have "2 ^ (n + 8 * length used) = 2 ^ n * (256 :: nat) ^ length used" by (simp add: power_add power_mult)
    then show ?thesis unfolding f(2,3,6) by (simp add: le_nat_append algebra_simps)
  qed
  have "unpack_loop bits count (drop_bit bits acc1) (n1 - bits) rest
      = Some (map word_of_nat (nat_digits bits count (unat (drop_bit bits acc1) + 2 ^ (n1 - bits) * le_nat rest)))"
    using Suc.prems f by (intro Suc.IH lt) auto
  moreover have "unat (drop_bit bits acc1) + 2 ^ (n1 - bits) * le_nat rest = ?x div 2 ^ bits"
    unfolding d x n1 by (simp add: mult.assoc)
  moreover have "unat acc1 mod 2 ^ bits = ?x mod 2 ^ bits" unfolding x n1 by (simp add: mult.assoc)
  ultimately show ?case using f(1) by (simp add: m)
qed simp

lemma pack_bits_value:
  assumes "list_all (\<lambda>v. unat v < 2 ^ bits) vals" "bits \<le> 32" "bits * length vals = 8 * m"
  shows "le_nat (pack_bits vals bits) = digits_nat bits (map unat vals)" "length (pack_bits vals bits) = m"
  using pack_loop_value [OF assms(1), of 0 0] assms(2,3) by (auto simp: pack_bits_def)

lemma unpack_bits_value:
  assumes "0 < bits" "bits \<le> 32" "bits * count \<le> 8 * length data"
  shows "unpack_bits data bits count = Some (map word_of_nat (nat_digits bits count (le_nat data)))"
  using unpack_loop_value [of 0 0 bits count data] assms by (simp add: unpack_bits_def)

lemma unpack_pack:
  assumes "list_all (\<lambda>v. unat v < 2 ^ bits) vals" "0 < bits" "bits \<le> 32" "bits * length vals = 8 * m" "count = length vals"
  shows "unpack_bits (pack_bits vals bits) bits count = Some vals"
proof -
  note p = pack_bits_value [OF assms(1,3,4)]
  have "unpack_bits (pack_bits vals bits) bits count = Some (map word_of_nat (nat_digits bits count (digits_nat bits (map unat vals))))"
    using assms p by (simp add: unpack_bits_value)
  also have "nat_digits bits count (digits_nat bits (map unat vals)) = map unat vals"
    using nat_digits_digits [of bits "map unat vals"] assms(1,5) by (simp add: list.pred_map comp_def)
  finally show ?thesis by (simp add: comp_def)
qed

section \<open>Polynomials\<close>

text \<open>A polynomial packed as \<open>base - c\<close> in \<open>bits\<close> bits, for coefficients with centred value in \<open>base - 2\<^sup>b\<^sup>i\<^sup>t\<^sup>s < c \<le> base\<close>.\<close>

definition centered_within :: "int \<Rightarrow> nat \<Rightarrow> int list \<Rightarrow> bool" where
  "centered_within base bits p \<longleftrightarrow> list_all (\<lambda>c. base - 2 ^ bits < center c \<and> center c \<le> base) p"

lemma center_mod: "in_range c \<Longrightarrow> center c mod dsa_q = c"
  by (auto simp: center_def in_range_def dsa_q_def)

lemma small_word: "0 \<le> x \<Longrightarrow> x < 2 ^ bits \<Longrightarrow> bits \<le> 20 \<Longrightarrow> sint (word_of_int x :: u32) = x \<and> unat (word_of_int x :: u32) < 2 ^ bits"
proof -
  assume x: "0 \<le> x" "x < 2 ^ bits" "bits \<le> 20"
  have "(2 :: int) ^ bits \<le> 2 ^ 20" using x(3) by (intro power_increasing) auto
  with x have b: "x < 2 ^ 20" by linarith
  then have "uint (word_of_int x :: u32) = x" using x(1) by (simp add: uint_word_of_int_eq take_bit_eq_mod)
  moreover have "sint (word_of_int x :: u32) = x"
    using x(1) b by (simp add: signed_of_int signed_take_bit_int_eq_self)
  ultimately show ?thesis using x(2) by (simp add: unat_less_power)
qed

lemma packed_poly:
  assumes "dsa_poly p" "centered_within base bits p" "0 < bits" "bits \<le> 20"
  shows "map_option (map (\<lambda>v. (base - sint v) mod dsa_q)) (unpack_bits (pack_bits (map (\<lambda>c. word_of_int (base - center c)) p) bits) bits 256) = Some p"
    and "length (pack_bits (map (\<lambda>c. word_of_int (base - center c)) p) bits) = 32 * bits"
proof -
  let ?v = "map (\<lambda>c. word_of_int (base - center c) :: u32) p"
  have len: "length p = 256" using assms(1) by (simp add: dsa_poly_def)
  have w: "sint (word_of_int (base - center c) :: u32) = base - center c \<and> unat (word_of_int (base - center c) :: u32) < 2 ^ bits"
    if "c \<in> set p" for c
    using assms(2,4) that by (intro small_word) (auto simp: centered_within_def list_all_iff)
  then have v: "list_all (\<lambda>v. unat v < 2 ^ bits) ?v" by (auto simp: list_all_iff)
  have "unpack_bits (pack_bits ?v bits) bits 256 = Some ?v"
    using assms(3,4) len by (intro unpack_pack [OF v, of "32 * bits"]) auto
  moreover have "map (\<lambda>v. (base - sint v) mod dsa_q) ?v = map (\<lambda>c. c) p"
    unfolding map_map comp_def using w assms(1)
    by (intro map_cong refl) (auto simp: center_mod in_range_def dsa_poly_def list_all_iff)
  ultimately show "map_option (map (\<lambda>v. (base - sint v) mod dsa_q)) (unpack_bits (pack_bits ?v bits) bits 256) = Some p" by simp
  show "length (pack_bits ?v bits) = 32 * bits"
    using assms(4) len by (intro pack_bits_value(2) [OF v]) auto
qed

lemma unpack_eta_pack: "dsa_poly p \<Longrightarrow> centered_within ETA 4 p \<Longrightarrow> unpack_eta (pack_eta p) = Some p \<and> length (pack_eta p) = 128"
  using packed_poly [of p ETA 4] by (simp add: unpack_eta_def pack_eta_def)

lemma unpack_t0_pack: "dsa_poly p \<Longrightarrow> centered_within (2 ^ 12) 13 p \<Longrightarrow> unpack_t0 (pack_t0 p) = Some p \<and> length (pack_t0 p) = 416"
  using packed_poly [of p "2 ^ 12" 13] by (simp add: unpack_t0_def pack_t0_def dsa_d_def)

lemma unpack_z_pack: "dsa_poly p \<Longrightarrow> centered_within GAMMA1 20 p \<Longrightarrow> unpack_z (pack_z p) = Some p \<and> length (pack_z p) = 640"
  using packed_poly [of p GAMMA1 20] by (simp add: unpack_z_def pack_z_def)

lemma unpack_t1_pack:
  assumes "length p = 256" "list_all (\<lambda>c. 0 \<le> c \<and> c < 2 ^ 10) p"
  shows "unpack_t1 (pack_t1 p) = Some p \<and> length (pack_t1 p) = 320"
proof -
  let ?v = "map word_of_int p :: u32 list"
  have w: "sint (word_of_int c :: u32) = c \<and> unat (word_of_int c :: u32) < 2 ^ 10" if "c \<in> set p" for c
    using assms(2) that by (intro small_word) (auto simp: list_all_iff)
  then have v: "list_all (\<lambda>v. unat v < 2 ^ 10) ?v" by (auto simp: list_all_iff)
  have "unpack_bits (pack_bits ?v 10) 10 256 = Some ?v" using assms(1) by (intro unpack_pack [OF v, of 320]) auto
  moreover have "map sint ?v = map (\<lambda>c. c) p" unfolding map_map comp_def using w by (intro map_cong refl) auto
  moreover have "length (pack_bits ?v 10) = 320" using assms(1) by (intro pack_bits_value(2) [OF v]) auto
  ultimately show ?thesis by (simp add: unpack_t1_def pack_t1_def)
qed

section \<open>Sequences of polynomials\<close>

lemma slice_chunk:
  assumes "\<And>p. p \<in> set ps \<Longrightarrow> length (pack p) = stride" "i < length ps" "off = length pre"
  shows "slice_of (pre @ concat (map pack ps) @ post) (off + i * stride) (off + i * stride + stride) = Some (pack (ps ! i))"
proof -
  have len: "length (concat (map pack qs)) = length qs * stride" if "set qs \<subseteq> set ps" for qs
    using that assms(1) by (induction qs) auto
  have "concat (map pack ps) = concat (map pack (take i ps)) @ pack (ps ! i) @ concat (map pack (drop (Suc i) ps))"
    using id_take_nth_drop [OF assms(2)] by (metis concat.simps(2) concat_append list.simps(9) map_append)
  then have "pre @ concat (map pack ps) @ post =
      (pre @ concat (map pack (take i ps))) @ pack (ps ! i) @ (concat (map pack (drop (Suc i) ps)) @ post)" by simp
  moreover have "length (concat (map pack (take i ps))) = i * stride" using len [of "take i ps"] assms(2) set_take_subset [of i ps] by simp
  moreover have "length (pack (ps ! i)) = stride" using assms(1,2) by simp
  ultimately show ?thesis using slice_middle [of "off + i * stride" "pre @ concat (map pack (take i ps))" _ "pack (ps ! i)"] assms(3)
    by simp
qed

lemma unpack_polys_pack:
  assumes "\<And>p. p \<in> set ps \<Longrightarrow> unpack (pack p) = Some p \<and> length (pack p) = stride" "off = length pre" "count = length ps"
  shows "unpack_polys unpack (pre @ concat (map pack ps) @ post) off stride count = Some ps"
proof -
  have "Option.bind (slice_of (pre @ concat (map pack ps) @ post) (off + i * stride) (off + i * stride + stride)) unpack = Some (ps ! i)"
    if "i < length ps" for i
    using slice_chunk [of ps pack stride i off pre post] assms that by simp
  then have "unpack_polys unpack (pre @ concat (map pack ps) @ post) off stride count = Some (map ((!) ps) [0..<length ps])"
    unfolding unpack_polys_def those_map assms(3) by (auto intro!: map_cong)
  then show ?thesis by (simp add: map_nth)
qed

lemma length_concat_pack: "(\<And>p. p \<in> set ps \<Longrightarrow> length (pack p) = stride) \<Longrightarrow> length (concat (map pack ps)) = length ps * stride"
  by (induction ps) auto

section \<open>Hints\<close>

definition hint_poly :: "int list \<Rightarrow> bool" where
  "hint_poly p \<longleftrightarrow> length p = 256 \<and> set p \<subseteq> {0, 1}"

definition hint_positions :: "int list \<Rightarrow> nat list" where
  "hint_positions p = filter (\<lambda>j. p ! j \<noteq> 0) [0..<256]"

text \<open>Writing a list of bytes from an index on.\<close>

definition write_at :: "bytes \<Rightarrow> nat \<Rightarrow> bytes \<Rightarrow> bytes" where
  "write_at hint idx bs = take idx hint @ bs @ drop (idx + length bs) hint"

lemma put_hints_positions:
  assumes "idx + length (hint_positions p) \<le> length hint"
  shows "put_hints p (hint, idx) = (write_at hint idx (map word_of_nat (hint_positions p)), idx + length (hint_positions p))"
proof -
  have "foldl (\<lambda>(hint, idx) j. if p ! j \<noteq> 0 then (hint[idx := word_of_nat j], idx + 1) else (hint, idx)) (hint, idx) js
      = (write_at hint idx (map word_of_nat (filter (\<lambda>j. p ! j \<noteq> 0) js)), idx + length (filter (\<lambda>j. p ! j \<noteq> 0) js))"
    if "idx + length (filter (\<lambda>j. p ! j \<noteq> 0) js) \<le> length hint" for js
    using that
  proof (induction js arbitrary: hint idx)
    case Nil
    then show ?case by (simp add: write_at_def)
  next
    case (Cons j js)
    show ?case
    proof (cases "p ! j \<noteq> 0")
      case True
      with Cons.prems have "idx < length hint" by simp
      then have "write_at (hint[idx := word_of_nat j]) (idx + 1) bs = write_at hint idx (word_of_nat j # bs)" for bs
        by (simp add: write_at_def take_Suc_conv_app_nth take_update_swap list_update_append)
      with True Cons show ?thesis by simp
    next
      case False
      with Cons show ?thesis by simp
    qed
  qed
  then show ?thesis using assms by (simp add: put_hints_def hint_positions_def)
qed

text \<open>The positions of the first \<open>i\<close> polynomials, and the array after they are written.\<close>

definition positions_upto :: "int list list \<Rightarrow> nat \<Rightarrow> nat list" where
  "positions_upto h i = concat (map hint_positions (take i h))"

definition hint_array :: "int list list \<Rightarrow> nat \<Rightarrow> bytes" where
  "hint_array h i = map word_of_nat (positions_upto h i) @ replicate (OMEGA - length (positions_upto h i)) 0
    @ map (\<lambda>m. word_of_nat (length (positions_upto h (Suc m)))) [0..<i] @ replicate (dsa_k - i) 0"

lemma positions_Suc: "i < length h \<Longrightarrow> positions_upto h (Suc i) = positions_upto h i @ hint_positions (h ! i)"
  by (simp add: positions_upto_def take_Suc_conv_app_nth)

lemma positions_mono: "i \<le> j \<Longrightarrow> length (positions_upto h i) \<le> length (positions_upto h j)"
proof -
  assume "i \<le> j"
  then obtain k where "j = i + k" using le_Suc_ex by blast
  then have "positions_upto h j = positions_upto h i @ concat (map hint_positions (take k (drop i h)))"
    by (simp add: positions_upto_def take_add)
  then show ?thesis by simp
qed

lemma encode_hint_step:
  assumes "i < length h" "length h = dsa_k" "length (positions_upto h (Suc i)) \<le> OMEGA"
  shows "(let (hint, idx) = put_hints (h ! i) (hint_array h i, length (positions_upto h i)) in (hint[OMEGA + i := word_of_nat idx], idx))
    = (hint_array h (Suc i), length (positions_upto h (Suc i)))"
proof -
  let ?s = "positions_upto h i" and ?p = "hint_positions (h ! i)"
  let ?mid = "map (\<lambda>m. word_of_nat (length (positions_upto h (Suc m))) :: byte) [0..<i]"
  have len: "length ?s + length ?p \<le> OMEGA" using assms(3) positions_Suc [OF assms(1)] by simp
  have i: "dsa_k - i = Suc (dsa_k - Suc i)" using assms(1,2) by simp
  let ?front = "map word_of_nat (?s @ ?p) @ replicate (OMEGA - length (?s @ ?p)) 0 @ ?mid"
  have array: "write_at (hint_array h i) (length ?s) (map word_of_nat ?p) = ?front @ 0 # replicate (dsa_k - Suc i) 0"
    using len unfolding write_at_def hint_array_def i by (simp add: algebra_simps)
  have front: "length ?front = OMEGA + i" using len by simp
  have "(?front @ 0 # replicate (dsa_k - Suc i) 0)[OMEGA + i := word_of_nat (length (?s @ ?p))] = hint_array h (Suc i)"
    using list_update_length [of ?front 0 "replicate (dsa_k - Suc i) 0"] unfolding front
    by (simp add: hint_array_def positions_Suc [OF assms(1)])
  moreover have "put_hints (h ! i) (hint_array h i, length ?s) = (write_at (hint_array h i) (length ?s) (map word_of_nat ?p), length ?s + length ?p)"
    using len by (intro put_hints_positions) (simp add: hint_array_def)
  ultimately show ?thesis by (simp add: array positions_Suc [OF assms(1)])
qed

lemma encode_hint_array:
  assumes "length h = dsa_k" "length (positions_upto h dsa_k) \<le> OMEGA"
  shows "encode_hint h = hint_array h dsa_k"
proof -
  have "foldl (\<lambda>s i. let (hint, idx) = put_hints (h ! i) s in (hint[OMEGA + i := word_of_nat idx], idx)) (replicate (OMEGA + dsa_k) 0, 0) [0..<i]
      = (hint_array h i, length (positions_upto h i))" if "i \<le> dsa_k" for i
    using that
  proof (induction i)
    case 0
    then show ?case by (simp add: hint_array_def positions_upto_def replicate_add)
  next
    case (Suc i)
    then have "length (positions_upto h (Suc i)) \<le> OMEGA" using positions_mono [of "Suc i" dsa_k h] assms(2) by simp
    with Suc show ?case using encode_hint_step [of i h] assms(1) by simp
  qed
  from this [of dsa_k] show ?thesis by (simp add: encode_hint_def assms(1))
qed

lemma length_positions: "length (hint_positions p) \<le> 256"
  using length_filter_le [of "\<lambda>j. p ! j \<noteq> 0" "[0..<256]"] by (simp add: hint_positions_def)

lemma set_ones:
  assumes "hint_poly p"
  shows "foldl (\<lambda>q j. q[j := 1]) zero_poly (hint_positions p) = p"
proof (rule nth_equalityI)
  have len: "length (foldl (\<lambda>q j. q[j := 1]) q js) = length q" for q :: "int list" and js by (induction js arbitrary: q) simp_all
  have at: "foldl (\<lambda>q j. q[j := 1]) q js ! i = (if i \<in> set js then 1 else q ! i)" if "i < length q" for q :: "int list" and js i
    using that by (induction js arbitrary: q) (auto simp: nth_list_update)
  show "length (foldl (\<lambda>q j. q[j := 1]) zero_poly (hint_positions p)) = length p"
    using assms by (simp add: len zero_poly_def hint_poly_def)
  fix i assume "i < length (foldl (\<lambda>q j. q[j := 1]) zero_poly (hint_positions p))"
  then have i: "i < 256" by (simp add: len zero_poly_def)
  then have "p ! i \<in> set p" using assms by (simp add: hint_poly_def)
  then have "p ! i \<in> {0, 1}" using assms unfolding hint_poly_def by blast
  then show "foldl (\<lambda>q j. q[j := 1]) zero_poly (hint_positions p) ! i = p ! i"
    using i by (auto simp: at zero_poly_def hint_positions_def)
qed

lemma hint_run_increasing:
  assumes "sorted_wrt (<) ps" "\<And>j. j < length ps \<Longrightarrow> hint ! (k + j) = word_of_nat (ps ! j)" "list_all (\<lambda>j. j < 256) ps"
  shows "m \<le> length ps \<Longrightarrow> hint_run hint k q [k + m..<k + length ps] = Some (foldl (\<lambda>q j. q[j := 1]) q (drop m ps))"
proof (induction "length ps - m" arbitrary: m q)
  case 0
  then show ?case by simp
next
  case (Suc n)
  then have m: "m < length ps" by simp
  have small: "unat (word_of_nat (ps ! j) :: byte) = ps ! j" if "j < length ps" for j
    using assms(3) that by (simp add: list_all_length unsigned_of_nat take_bit_eq_mod)
  have "\<not> hint ! (k + m) \<le> hint ! (k + m - 1)" if "0 < m"
  proof -
    have "ps ! (m - 1) < ps ! m" using sorted_wrt_nth_less [OF assms(1), of "m - 1" m] that m by simp
    moreover have "hint ! (k + m - 1) = word_of_nat (ps ! (m - 1))" using assms(2) [of "m - 1"] that m by simp
    ultimately show ?thesis using assms(2) [OF m] m small [OF m] small [of "m - 1"] by (simp add: word_le_nat_alt)
  qed
  then have "hint_run hint k q [k + m..<k + length ps] = hint_run hint k (q[ps ! m := 1]) [k + Suc m..<k + length ps]"
    using m assms(2) [OF m] small [OF m] by (auto simp: upt_conv_Cons)
  also have "\<dots> = Some (foldl (\<lambda>q j. q[j := 1]) (q[ps ! m := 1]) (drop (Suc m) ps))"
    using Suc.hyps m by (intro Suc.hyps(1)) auto
  finally show ?case using m by (simp add: Cons_nth_drop_Suc [symmetric])
qed

lemma hint_array_nth:
  assumes "length (positions_upto h dsa_k) \<le> OMEGA"
  shows "j < length (positions_upto h dsa_k) \<Longrightarrow> hint_array h dsa_k ! j = word_of_nat (positions_upto h dsa_k ! j)"
    "i < dsa_k \<Longrightarrow> hint_array h dsa_k ! (OMEGA + i) = word_of_nat (length (positions_upto h (Suc i)))"
    "drop (length (positions_upto h dsa_k)) (take OMEGA (hint_array h dsa_k)) = replicate (OMEGA - length (positions_upto h dsa_k)) 0"
    "length (hint_array h dsa_k) = OMEGA + dsa_k"
  using assms by (auto simp: hint_array_def nth_append)

lemma positions_prefix: "i \<le> j \<Longrightarrow> m < length (positions_upto h i) \<Longrightarrow> positions_upto h j ! m = positions_upto h i ! m"
proof -
  assume "i \<le> j" "m < length (positions_upto h i)"
  moreover obtain k where "j = i + k" using \<open>i \<le> j\<close> le_Suc_ex by blast
  moreover have "positions_upto h (i + k) = positions_upto h i @ concat (map hint_positions (take k (drop i h)))"
    by (simp add: positions_upto_def take_add)
  ultimately show ?thesis by (simp add: nth_append)
qed

lemma hint_polys_array:
  assumes "length h = dsa_k" "length (positions_upto h dsa_k) \<le> OMEGA" "list_all hint_poly h"
  shows "i \<le> dsa_k \<Longrightarrow> hint_polys (hint_array h dsa_k) (length (positions_upto h i)) [i..<dsa_k]
    = Some (drop i h, length (positions_upto h dsa_k))"
proof (induction "dsa_k - i" arbitrary: i)
  case 0
  then show ?case using assms(1) by simp
next
  case (Suc n)
  then have i: "i < dsa_k" by simp
  let ?a = "hint_array h dsa_k" and ?k = "length (positions_upto h i)" and ?ps = "hint_positions (h ! i)"
  have upto: "positions_upto h (Suc i) = positions_upto h i @ ?ps" using i assms(1) by (intro positions_Suc) simp
  have e: "length (positions_upto h (Suc i)) \<le> OMEGA" using positions_mono [of "Suc i" dsa_k h] i assms(2) by simp
  then have end_at: "unat (?a ! (OMEGA + i)) = ?k + length ?ps"
    unfolding hint_array_nth(2) [OF assms(2) i] using upto by (subst unsigned_of_nat) (simp add: take_bit_eq_mod OMEGA_def)
  have at: "?a ! (?k + j) = word_of_nat (?ps ! j)" if "j < length ?ps" for j
  proof -
    have "?k + j < length (positions_upto h (Suc i))" using that upto by simp
    moreover have "length (positions_upto h (Suc i)) \<le> length (positions_upto h dsa_k)" using i by (intro positions_mono) simp
    ultimately show ?thesis
      using hint_array_nth(1) [OF assms(2), of "?k + j"] positions_prefix [of "Suc i" dsa_k "?k + j" h] i upto by (simp add: nth_append)
  qed
  have sorted: "sorted_wrt (<) ?ps" by (simp add: hint_positions_def sorted_wrt_filter)
  have small: "list_all (\<lambda>j. j < 256) ?ps" by (simp add: hint_positions_def list_all_iff)
  have "hint_run ?a ?k zero_poly [?k..<?k + length ?ps] = Some (h ! i)"
    using hint_run_increasing [OF sorted at small, of 0 zero_poly] set_ones [of "h ! i"] assms(1,3) i by (simp add: list_all_length)
  moreover have "hint_polys ?a (length (positions_upto h (Suc i))) [Suc i..<dsa_k] = Some (drop (Suc i) h, length (positions_upto h dsa_k))"
    using Suc.hyps i by (intro Suc.hyps(1)) auto
  ultimately show ?case
    using end_at e upto i assms(1) by (simp add: upt_conv_Cons Let_def Cons_nth_drop_Suc)
qed

lemma count_positions: "list_all hint_poly h \<Longrightarrow> length h = dsa_k \<Longrightarrow> length (positions_upto h dsa_k) = count_ones h"
proof -
  have "length (hint_positions p) = length (filter (\<lambda>c. c \<noteq> 0) p)" if "hint_poly p" for p
  proof -
    have "map ((!) p) [0..<256] = p" using that map_nth [of p] by (simp add: hint_poly_def)
    moreover have "length (filter (\<lambda>c. c \<noteq> 0) (map ((!) p) [0..<256])) = length (hint_positions p)"
      unfolding filter_map length_map hint_positions_def comp_def ..
    ultimately show ?thesis by simp
  qed
  then have "list_all hint_poly h \<Longrightarrow> length (concat (map hint_positions h)) = length (filter (\<lambda>c. c \<noteq> 0) (concat h))"
    by (induction h) simp_all
  then show "list_all hint_poly h \<Longrightarrow> length h = dsa_k \<Longrightarrow> length (positions_upto h dsa_k) = count_ones h"
    by (simp add: positions_upto_def count_ones_def)
qed

lemma decode_encode_hint:
  assumes "length h = dsa_k" "list_all hint_poly h" "count_ones h \<le> OMEGA"
  shows "decode_hint (encode_hint h) = Some h" "length (encode_hint h) = OMEGA + dsa_k"
proof -
  have n: "length (positions_upto h dsa_k) \<le> OMEGA" using assms count_positions by simp
  note enc = encode_hint_array [OF assms(1) n]
  have "hint_polys (hint_array h dsa_k) 0 [0..<dsa_k] = Some (h, length (positions_upto h dsa_k))"
    using hint_polys_array [OF assms(1) n assms(2), of 0] by (simp add: positions_upto_def)
  then show "decode_hint (encode_hint h) = Some h"
    unfolding enc decode_hint_def by (simp add: hint_array_nth(3) [OF n] list_ex_iff)
  show "length (encode_hint h) = OMEGA + dsa_k" unfolding enc by (rule hint_array_nth(4) [OF n])
qed

section \<open>Signatures\<close>

lemma sig_decode_encode:
  assumes "length c_tilde = C_TILDE_LEN" "length z = dsa_l" "\<And>p. p \<in> set z \<Longrightarrow> dsa_poly p \<and> centered_within GAMMA1 20 p"
    and "length h = dsa_k" "list_all hint_poly h" "count_ones h \<le> OMEGA"
  shows "sig_decode (sig_encode c_tilde z h) = Some (Some (c_tilde, z, h))" "length (sig_encode c_tilde z h) = SIGNATURE_LEN"
proof -
  note hint = decode_encode_hint [OF assms(4,5,6)]
  have z: "unpack_z (pack_z p) = Some p \<and> length (pack_z p) = 640" if "p \<in> set z" for p
    using assms(3) that by (simp add: unpack_z_pack)
  have lz: "length (concat (map pack_z z)) = 3200" using length_concat_pack [of z pack_z 640] z assms(2) by (simp add: dsa_l_def)
  have "slice_of (c_tilde @ concat (map pack_z z) @ encode_hint h) 0 C_TILDE_LEN = Some c_tilde"
    using slice_middle [of 0 "[]" C_TILDE_LEN c_tilde] assms(1) by simp
  moreover have "slice_of (c_tilde @ concat (map pack_z z) @ encode_hint h) 3248 3309 = Some (encode_hint h)"
    using slice_middle [of 3248 "c_tilde @ concat (map pack_z z)" 3309 "encode_hint h" "[]"] assms(1) lz hint(2)
    by (simp add: C_TILDE_LEN_def OMEGA_def dsa_k_def)
  moreover have "unpack_polys unpack_z (c_tilde @ concat (map pack_z z) @ encode_hint h) C_TILDE_LEN 640 dsa_l = Some z"
    using z assms(1,2) by (intro unpack_polys_pack) auto
  ultimately show "sig_decode (sig_encode c_tilde z h) = Some (Some (c_tilde, z, h))"
    using hint(1) by (simp add: sig_decode_def sig_encode_def Let_def C_TILDE_LEN_def dsa_l_def OMEGA_def dsa_k_def)
  show "length (sig_encode c_tilde z h) = SIGNATURE_LEN"
    using assms(1) lz hint(2) by (simp add: sig_encode_def SIGNATURE_LEN_def dsa_l_def)
qed

end
