(* ===== verification/Ml_Dsa_Correct.thy ===== *)
theory Ml_Dsa_Correct
  imports Dsa_Codec
begin

text \<open>
  ML-DSA is correct: a signature that \<open>sign\<close> returns for a key of \<open>keypair_from_seed\<close> is accepted by \<open>verify\<close>. The
  verifier recomputes the commitment up to a small error, which the tests of the signing loop bound and the
  hints undo.
\<close>

unbundle bit_operations_syntax

section \<open>Sampling\<close>

definition small_poly :: "int list \<Rightarrow> bool" where
  "small_poly p \<longleftrightarrow> dsa_poly p \<and> list_all (\<lambda>c. \<bar>center c\<bar> \<le> ETA) p"

lemma rej_ntt_step_range:
  assumes "length a < 256" "list_all in_range a"
  shows "length (rej_ntt_step buf a) \<le> 256 \<and> list_all in_range (rej_ntt_step buf a)"
  using assms by (simp add: rej_ntt_step_def Let_def in_range_def)

lemma rej_ntt_loop_poly:
  assumes "rej_ntt_loop xof a = Some r" "length a \<le> 256 \<and> list_all in_range a"
  shows "dsa_poly r"
proof -
  have "length a \<le> 256 \<and> list_all in_range a \<longrightarrow> dsa_poly r"
  proof (rule rej_ntt_loop.raw_induct [OF _ assms(1)])
    fix loop xof a r
    assume IH: "\<And>xof a r. loop xof a = Some r \<Longrightarrow> length a \<le> 256 \<and> list_all in_range a \<longrightarrow> dsa_poly r"
      and body: "(if length a < 256 then Option.bind (keccak_squeeze xof 3) (\<lambda>(xof1, buf). loop xof1 (rej_ntt_step buf a)) else Some a) = Some r"
    show "length a \<le> 256 \<and> list_all in_range a \<longrightarrow> dsa_poly r"
    proof (cases "length a < 256")
      case True
      with body obtain x1 buf where "loop x1 (rej_ntt_step buf a) = Some r" by (cases "keccak_squeeze xof 3") auto
      with IH rej_ntt_step_range [OF True] show ?thesis by blast
    next
      case False
      with body show ?thesis by (auto simp: dsa_poly_def in_range_def [abs_def])
    qed
  qed
  with assms(2) show ?thesis by blast
qed

definition small_coeff :: "int \<Rightarrow> bool" where "small_coeff c \<longleftrightarrow> in_range c \<and> \<bar>center c\<bar> \<le> ETA"

lemma eta_small: "0 \<le> n \<Longrightarrow> n < 9 \<Longrightarrow> small_coeff ((ETA - n) mod dsa_q)"
proof -
  assume "0 \<le> n" "n < (9 :: int)"
  then have "n \<in> {0, 1, 2, 3, 4, 5, 6, 7, 8}" by auto
  then show ?thesis by (auto simp: small_coeff_def in_range_def center_def ETA_def dsa_q_def)
qed

lemma rej_bounded_step_range:
  "length a < 256 \<Longrightarrow> list_all small_coeff a \<Longrightarrow> length (rej_bounded_step b a) \<le> 256 \<and> list_all small_coeff (rej_bounded_step b a)"
  by (simp add: rej_bounded_step_def eta_small)

lemma rej_bounded_loop_small:
  assumes "rej_bounded_loop xof a = Some r" "length a \<le> 256 \<and> list_all small_coeff a"
  shows "small_poly r"
proof -
  have "length a \<le> 256 \<and> list_all small_coeff a \<longrightarrow> small_poly r"
  proof (rule rej_bounded_loop.raw_induct [OF _ assms(1)])
    fix loop xof a r
    assume IH: "\<And>xof a r. loop xof a = Some r \<Longrightarrow> length a \<le> 256 \<and> list_all small_coeff a \<longrightarrow> small_poly r"
      and body: "(if length a < 256 then Option.bind (keccak_squeeze xof 1) (\<lambda>(xof1, buf). loop xof1 (rej_bounded_step (buf ! 0) a)) else Some a) = Some r"
    show "length a \<le> 256 \<and> list_all small_coeff a \<longrightarrow> small_poly r"
    proof (cases "length a < 256")
      case True
      with body obtain x1 b where "loop x1 (rej_bounded_step b a) = Some r" by (cases "keccak_squeeze xof 1") auto
      with IH rej_bounded_step_range [OF True] show ?thesis by blast
    next
      case False
      with body show ?thesis by (auto simp: small_poly_def dsa_poly_def small_coeff_def in_range_def list_all_iff)
    qed
  qed
  with assms(2) show ?thesis by blast
qed

lemma rej_ntt_poly_poly: "rej_ntt_poly rho j i = Some p \<Longrightarrow> dsa_poly p"
  by (auto simp: rej_ntt_poly_def bind_eq_Some_conv intro: rej_ntt_loop_poly)

lemma rej_bounded_poly_small: "rej_bounded_poly rho n = Some p \<Longrightarrow> small_poly p"
  by (auto simp: rej_bounded_poly_def bind_eq_Some_conv intro: rej_bounded_loop_small)

lemma mod_in_range: "in_range (x mod dsa_q)"
  by (simp add: in_range_def dsa_q_def)

lemma expand_mask_total: "\<exists>y. expand_mask_poly rho n = Some y \<and> dsa_poly y"
proof -
  obtain k out where "keccak_squeeze (absorbed 136 0x1f (rho @ le_bytes 2 (unat n))) 640 = Some (k, out)" and len: "length out = 640"
    using squeeze_absorbed [of 136 "0x1f" "rho @ le_bytes 2 (unat n)" 640] by simp
  moreover have "keccak_absorb new_shake256 rho = Some (absorbed 136 0x1f rho)"
    "keccak_absorb (absorbed 136 0x1f rho) (le_bytes 2 (unat n)) = Some (absorbed 136 0x1f (rho @ le_bytes 2 (unat n)))"
    using keccak_absorb_absorbed [of 136 "0x1f" "[]" rho] keccak_absorb_absorbed [of 136 "0x1f" rho]
    by (simp_all add: new_shake256_def absorbed_Nil [symmetric])
  moreover have "unpack_bits out 20 256 = Some (map word_of_nat (nat_digits 20 256 (le_nat out)))"
    using len by (intro unpack_bits_value) simp_all
  moreover have "dsa_poly (map (\<lambda>i. sub_mod (GAMMA1 mod dsa_q) (f i mod dsa_q)) [0..<256])" for f
    by (simp add: dsa_poly_iff mod_ops_range(2) mod_in_range)
  ultimately show ?thesis by (simp add: expand_mask_poly_def)
qed

text \<open>The challenge has at most \<open>TAU\<close> coefficients of absolute value one.\<close>

definition weight :: "int list \<Rightarrow> int" where "weight c = (\<Sum>i < 256. \<bar>center (c ! i)\<bar>)"

lemma weight_update:
  assumes "length c = 256" "j < 256"
  shows "weight (c[j := x]) = weight c - \<bar>center (c ! j)\<bar> + \<bar>center x\<bar>"
proof -
  have "weight (c[j := x]) = (\<Sum>i \<in> {..<256} - {j}. \<bar>center (c ! i)\<bar>) + \<bar>center x\<bar>"
    using assms unfolding weight_def by (subst sum.remove [of _ j]) (auto intro!: sum.cong)
  moreover have "weight c = (\<Sum>i \<in> {..<256} - {j}. \<bar>center (c ! i)\<bar>) + \<bar>center (c ! j)\<bar>"
    using assms unfolding weight_def by (subst sum.remove [of _ j]) auto
  ultimately show ?thesis by simp
qed

lemma ball_step_weight:
  assumes "dsa_poly c" "j \<le> i" "i < 256" "c ! i = 0" "x \<in> {1, dsa_q - 1}"
  shows "weight (c[i := c ! j, j := x]) = weight c + 1" "dsa_poly (c[i := c ! j, j := x])"
proof -
  have len: "length c = 256" and r: "\<And>k. k < 256 \<Longrightarrow> in_range (c ! k)" using assms(1) by (simp_all add: dsa_poly_iff)
  have z: "center 0 = 0" by (simp add: center_def dsa_q_def)
  have x: "in_range x" "\<bar>center x\<bar> = 1" using assms(5) by (auto simp: in_range_def center_def dsa_q_def)
  have "weight (c[i := c ! j]) = weight c + \<bar>center (c ! j)\<bar>"
    using weight_update [OF len assms(3), of "c ! j"] assms(4) by (simp add: z)
  moreover have "c[i := c ! j] ! j = c ! j" using assms(2,3) len by (auto simp: nth_list_update)
  ultimately show "weight (c[i := c ! j, j := x]) = weight c + 1"
    using weight_update [of "c[i := c ! j]" j x] len assms(2,3) x(2) by simp
  have "c ! j \<in> set c" using assms(2,3) len by simp
  then show "dsa_poly (c[i := c ! j, j := x])"
    using assms len x(1) r by (auto simp: dsa_poly_iff nth_list_update)
qed

lemma ball_index_bound: "ball_index xof i = Some (xof1, j) \<Longrightarrow> j \<le> i"
proof -
  assume r: "ball_index xof i = Some (xof1, j)"
  have "snd (xof1, j) \<le> i"
  proof (rule ball_index.raw_induct [OF _ r])
    fix loop xof i r
    assume IH: "\<And>xof i r. loop xof i = Some r \<Longrightarrow> snd r \<le> i"
      and body: "Option.bind (keccak_squeeze xof 1) (\<lambda>(xof1, b). if unat (b ! 0) \<le> i then Some (xof1, unat (b ! 0)) else loop xof1 i) = Some r"
    obtain x where x: "keccak_squeeze xof 1 = Some x" using body by (cases "keccak_squeeze xof 1") auto
    then have "(if unat (snd x ! 0) \<le> i then Some (fst x, unat (snd x ! 0)) else loop (fst x) i) = Some r"
      using body unfolding x by (simp add: split_def)
    then show "snd r \<le> i" using IH [of "fst x" i r] by (cases "unat (snd x ! 0) \<le> i") auto
  qed
  then show ?thesis by simp
qed

lemma ball_loop_weight:
  assumes "ball_loop signs xof c [m..<256] = Some r" "m \<le> 256" "dsa_poly c" "\<And>k. m \<le> k \<Longrightarrow> k < 256 \<Longrightarrow> c ! k = 0"
  shows "dsa_poly r \<and> weight r = weight c + int (256 - m)"
  using assms
proof (induction "256 - m" arbitrary: m xof c)
  case 0
  then show ?case by simp
next
  case (Suc n)
  then have m: "m < 256" by simp
  let ?x = "if bit signs (m - (256 - TAU)) then dsa_q - 1 else 1"
  from Suc.prems(1) m obtain xof1 j where j: "ball_index xof m = Some (xof1, j)"
    and rest: "ball_loop signs xof1 (c[m := c ! j, j := ?x]) [Suc m..<256] = Some r"
    by (auto simp: upt_conv_Cons bind_eq_Some_conv)
  note jm = ball_index_bound [OF j]
  have step: "weight (c[m := c ! j, j := ?x]) = weight c + 1" "dsa_poly (c[m := c ! j, j := ?x])"
    using ball_step_weight [OF Suc.prems(3) jm m] Suc.prems(4) m by auto
  have zero: "c[m := c ! j, j := ?x] ! k = 0" if "Suc m \<le> k" "k < 256" for k
    using Suc.prems(4) [of k] that jm by simp
  have "dsa_poly r \<and> weight r = weight (c[m := c ! j, j := ?x]) + int (256 - Suc m)"
    using Suc.hyps(2) m by (intro Suc.hyps(1) [OF _ rest _ step(2) zero]) auto
  then show ?case using step m by auto
qed

lemma zero_nth: "i < 256 \<Longrightarrow> zero_poly ! i = 0"
  unfolding zero_poly_def by (rule nth_replicate)

lemma zero_dsa_poly [simp]: "dsa_poly zero_poly"
  unfolding dsa_poly_iff by (auto simp: zero_nth in_range_def dsa_q_def) (simp add: zero_poly_def)

lemma sample_in_ball_weight:
  assumes "sample_in_ball seed = Some c"
  shows "dsa_poly c \<and> weight c = int TAU"
proof -
  obtain signs xof where loop: "ball_loop signs xof zero_poly [256 - TAU..<256] = Some c"
    using assms unfolding sample_in_ball_def by (auto simp: bind_eq_Some_conv)
  have "weight zero_poly = 0" unfolding weight_def by (intro sum.neutral) (simp add: zero_nth center_def dsa_q_def)
  moreover have "int (256 - (256 - TAU)) = int TAU" by (simp add: TAU_def)
  moreover have "dsa_poly c \<and> weight c = weight zero_poly + int (256 - (256 - TAU))"
    by (rule ball_loop_weight [OF loop]) (simp_all add: zero_nth)
  ultimately show ?thesis by simp
qed

section \<open>Products with the challenge are small\<close>

lemma center_congr: "congr dsa_q (center x) x"
  by (simp add: center_def congr_def)

lemma schoolbook_small:
  assumes "\<And>j. j < 256 \<Longrightarrow> \<bar>center (s ! j)\<bar> \<le> b" "0 \<le> b" "k < 256"
  shows "\<exists>e. congr dsa_q (schoolbook dsa_q c s ! k) e \<and> \<bar>e\<bar> \<le> weight c * b"
proof -
  define g :: "nat \<Rightarrow> nat \<Rightarrow> int" where "g = (\<lambda>i j. if i + j = k then 1 else if i + j = k + 256 then - 1 else 0)"
  define e where "e = (\<Sum>i < 256. \<Sum>j < 256. center (c ! i) * center (s ! j) * g i j)"
  have "congr dsa_q (schoolbook dsa_q c s ! k) (\<Sum>i < 256. \<Sum>j < 256. c ! i * s ! j * g i j)"
    using schoolbook_nth [OF assms(3), of dsa_q c s] by (simp add: g_def)
  also have "congr dsa_q \<dots> e"
    unfolding e_def by (intro congr_sum congr_mult congr_refl congr_sym [OF center_congr])
  finally have 1: "congr dsa_q (schoolbook dsa_q c s ! k) e" .
  have inner: "\<bar>\<Sum>j < 256. center (s ! j) * g i j\<bar> \<le> b" if "i < 256" for i
  proof -
    define j0 where "j0 = (if i \<le> k then k - i else k + 256 - i)"
    have j0: "j0 < 256" using that assms(3) by (auto simp: j0_def)
    have "center (s ! j) * g i j = (if j = j0 then center (s ! j0) * g i j0 else 0)" if "j < 256" for j
      using that \<open>i < 256\<close> assms(3) by (auto simp: g_def j0_def)
    then have "(\<Sum>j < 256. center (s ! j) * g i j) = (\<Sum>j < 256. if j = j0 then center (s ! j0) * g i j0 else 0)" by simp
    also have "\<dots> = center (s ! j0) * g i j0" using j0 by simp
    finally show ?thesis using assms(1) [OF j0] assms(2) by (auto simp: g_def)
  qed
  have "\<bar>e\<bar> \<le> (\<Sum>i < 256. \<bar>\<Sum>j < 256. center (c ! i) * center (s ! j) * g i j\<bar>)" unfolding e_def by (rule sum_abs)
  also have "\<dots> = (\<Sum>i < 256. \<bar>center (c ! i)\<bar> * \<bar>\<Sum>j < 256. center (s ! j) * g i j\<bar>)"
    by (simp add: mult.assoc abs_mult flip: sum_distrib_left)
  also have "\<dots> \<le> (\<Sum>i < 256. \<bar>center (c ! i)\<bar> * b)" by (intro sum_mono mult_left_mono inner) auto
  also have "\<dots> = weight c * b" by (simp add: weight_def sum_distrib_right)
  finally show ?thesis using 1 by blast
qed

section \<open>What the verifier recomputes\<close>

lemma upt5: "[0..<dsa_l] = [0, 1, 2, 3, 4]"
  by (simp add: dsa_l_def upt_rec)

lemma dsa_dot_poly [simp]: "dsa_poly (dsa_dot row v)"
  unfolding dsa_dot_def upt5 by simp

lemma dsa_dot_congr:
  assumes "m < 256"
  shows "congr dsa_q (dsa_dot row v ! m) (\<Sum>j < dsa_l. row ! j ! m * v ! j ! m)"
proof -
  have add: "congr dsa_q (dsa_add p (dsa_pointwise a b) ! m) (x + a ! m * b ! m)" if "congr dsa_q (p ! m) x" for p a b x
    using assms by (simp, intro congr_trans [OF mod_ops_congr(1)] congr_add that mod_ops_congr)
  have "congr dsa_q (foldl (\<lambda>acc j. dsa_add acc (dsa_pointwise (row ! j) (v ! j))) zero_poly [0..<n] ! m) (\<Sum>j < n. row ! j ! m * v ! j ! m)" for n
    by (induction n) (simp_all add: zero_nth assms add del: dsa_ops_nth)
  then show ?thesis by (simp add: dsa_dot_def)
qed

text \<open>A matrix and vectors of polynomials, as the key and the commitment have them.\<close>

definition poly_vector :: "nat \<Rightarrow> int list list \<Rightarrow> bool" where
  "poly_vector n v \<longleftrightarrow> length v = n \<and> list_all dsa_poly v"

lemma poly_vectorD: "poly_vector n v \<Longrightarrow> i < n \<Longrightarrow> dsa_poly (v ! i)"
  by (simp add: poly_vector_def list_all_length)

lemma approx_commitment:
  assumes a: "dsa_poly c" "poly_vector dsa_l s1" "poly_vector dsa_l y" "dsa_poly s2" "dsa_poly t0" "dsa_poly u"
    and z: "\<And>j. j < dsa_l \<Longrightarrow> z ! j = dsa_add (y ! j) (dsa_scale (dsa_ntt c) (dsa_ntt (s1 ! j)))" "length z = dsa_l"
    and t: "dsa_add u t0 = dsa_add (dsa_inv_ntt (dsa_dot row (map dsa_ntt s1))) s2"
  shows "dsa_inv_ntt (dsa_sub (dsa_dot row (map dsa_ntt z)) (dsa_pointwise (dsa_ntt c) (dsa_ntt u)))
    = dsa_add (dsa_sub (dsa_inv_ntt (dsa_dot row (map dsa_ntt y))) (dsa_scale (dsa_ntt c) (dsa_ntt s2))) (dsa_scale (dsa_ntt c) (dsa_ntt t0))"
proof -
  let ?c = "dsa_ntt c" and ?y = "map dsa_ntt y" and ?s1 = "map dsa_ntt s1" and ?z = "map dsa_ntt z"
  let ?lhs = "dsa_sub (dsa_dot row ?z) (dsa_pointwise ?c (dsa_ntt u))"
  let ?rhs = "dsa_add (dsa_sub (dsa_dot row ?y) (dsa_pointwise ?c (dsa_ntt s2))) (dsa_pointwise ?c (dsa_ntt t0))"
  have z_hat: "congr dsa_q (?z ! j ! m) (?y ! j ! m + ?c ! m * ?s1 ! j ! m)" if "j < dsa_l" "m < 256" for j m
  proof -
    have "?z ! j = dsa_add (dsa_ntt (y ! j)) (dsa_pointwise ?c (dsa_ntt (s1 ! j)))"
      using that z a poly_vectorD [OF a(3)] by (simp add: dsa_ntt_add dsa_scale_def)
    moreover have "?y ! j = dsa_ntt (y ! j)" "?s1 ! j = dsa_ntt (s1 ! j)" using that a(2,3) by (simp_all add: poly_vector_def)
    ultimately show ?thesis using that
      by (simp, intro congr_trans [OF mod_ops_congr(1)] congr_add congr_refl mod_ops_congr)
  qed
  have u_hat: "congr dsa_q (dsa_ntt u ! m) ((\<Sum>j < dsa_l. row ! j ! m * ?s1 ! j ! m) + dsa_ntt s2 ! m - dsa_ntt t0 ! m)" if m: "m < 256" for m
  proof -
    have "dsa_add (dsa_ntt u) (dsa_ntt t0) = dsa_add (dsa_dot row ?s1) (dsa_ntt s2)"
      using arg_cong [OF t, of dsa_ntt] a by (simp add: dsa_ntt_add)
    then have e: "add_mod (dsa_ntt u ! m) (dsa_ntt t0 ! m) = add_mod (dsa_dot row ?s1 ! m) (dsa_ntt s2 ! m)"
      using m by (metis dsa_ops_nth(1))
    have "congr dsa_q (dsa_ntt u ! m + dsa_ntt t0 ! m) (dsa_dot row ?s1 ! m + dsa_ntt s2 ! m)"
      using congr_trans [OF congr_sym [OF mod_ops_congr(1)] mod_ops_congr(1) [of "dsa_dot row ?s1 ! m" "dsa_ntt s2 ! m", folded e]] .
    also have "congr dsa_q \<dots> ((\<Sum>j < dsa_l. row ! j ! m * ?s1 ! j ! m) + dsa_ntt s2 ! m)"
      by (intro congr_add congr_refl dsa_dot_congr m)
    finally have "congr dsa_q (dsa_ntt u ! m + dsa_ntt t0 ! m - dsa_ntt t0 ! m)
        ((\<Sum>j < dsa_l. row ! j ! m * ?s1 ! j ! m) + dsa_ntt s2 ! m - dsa_ntt t0 ! m)" by (intro congr_diff congr_refl)
    then show ?thesis by simp
  qed
  have "?lhs = ?rhs"
  proof (rule dsa_poly_eqI)
    fix m :: nat assume m: "m < 256"
    let ?S = "\<Sum>j < dsa_l. row ! j ! m * ?s1 ! j ! m" and ?Y = "\<Sum>j < dsa_l. row ! j ! m * ?y ! j ! m"
    let ?cm = "?c ! m" and ?s2 = "dsa_ntt s2 ! m" and ?t0 = "dsa_ntt t0 ! m"
    have "congr dsa_q (dsa_dot row ?z ! m) (\<Sum>j < dsa_l. row ! j ! m * ?z ! j ! m)" by (rule dsa_dot_congr [OF m])
    also have "congr dsa_q \<dots> (\<Sum>j < dsa_l. row ! j ! m * (?y ! j ! m + ?cm * ?s1 ! j ! m))"
      by (intro congr_sum congr_mult congr_refl z_hat m) simp
    also have "\<dots> = ?Y + ?cm * ?S" by (simp add: sum.distrib sum_distrib_left algebra_simps)
    finally have az: "congr dsa_q (dsa_dot row ?z ! m) (?Y + ?cm * ?S)" .
    have "congr dsa_q (?lhs ! m) (dsa_dot row ?z ! m - dsa_pointwise ?c (dsa_ntt u) ! m)" using m by (simp add: mod_ops_congr(2))
    also have "congr dsa_q \<dots> (?Y + ?cm * ?S - ?cm * (?S + ?s2 - ?t0))"
    proof (intro congr_diff az)
      have "congr dsa_q (dsa_pointwise ?c (dsa_ntt u) ! m) (?cm * dsa_ntt u ! m)" using m by (simp add: mod_ops_congr(3))
      also have "congr dsa_q \<dots> (?cm * (?S + ?s2 - ?t0))" by (intro congr_mult congr_refl u_hat m)
      finally show "congr dsa_q (dsa_pointwise ?c (dsa_ntt u) ! m) (?cm * (?S + ?s2 - ?t0))" .
    qed
    also have "\<dots> = (?Y - ?cm * ?s2) + ?cm * ?t0" by (simp add: algebra_simps)
    also have "congr dsa_q \<dots> (?rhs ! m)"
    proof (rule congr_sym)
      have sub: "congr dsa_q (sub_mod (dsa_dot row ?y ! m) (dsa_mul_mod ?cm ?s2)) (?Y - ?cm * ?s2)"
        by (intro congr_trans [OF mod_ops_congr(2)] congr_diff dsa_dot_congr m mod_ops_congr)
      show "congr dsa_q (?rhs ! m) ((?Y - ?cm * ?s2) + ?cm * ?t0)"
        using m by (simp, intro congr_trans [OF mod_ops_congr(1)] congr_add sub mod_ops_congr)
    qed
    finally show "congr dsa_q (?lhs ! m) (?rhs ! m)" .
  qed simp_all
  also have "?rhs = dsa_ntt (dsa_add (dsa_sub (dsa_inv_ntt (dsa_dot row ?y)) (dsa_scale ?c (dsa_ntt s2))) (dsa_scale ?c (dsa_ntt t0)))"
    using a by (simp add: dsa_scale_def dsa_ntt_add dsa_ntt_sub)
  finally show ?thesis using a by (simp add: dsa_scale_def)
qed

section \<open>The tests of the signing loop\<close>

lemma foldl_max_less: "foldl max b xs < x \<longleftrightarrow> b < x \<and> (\<forall>y \<in> set xs. y < (x :: int))"
  by (induction xs arbitrary: b) auto

lemma max_norm_less:
  assumes "max_norm norm_inf ps < x" "p \<in> set ps" "c \<in> set p"
  shows "\<bar>center c\<bar> < x"
  using assms by (auto simp: max_norm_def norm_inf_def foldl_max_less)

lemma max_low_less: "max_norm infinity_low ps < x \<Longrightarrow> p \<in> set ps \<Longrightarrow> c \<in> set p \<Longrightarrow> \<bar>c\<bar> < x"
  by (auto simp: max_norm_def infinity_low_def foldl_max_less)

lemma high_bits_congr: "congr dsa_q x y \<Longrightarrow> high_bits x = high_bits y"
  by (simp add: high_bits_def decompose_def congr_mod)

text \<open>One coefficient: the hint recovers the high part of the commitment \<open>w\<close> from \<open>w - s + t\<close>.\<close>

lemma hint_recovers:
  assumes "congr dsa_q s e" "\<bar>e\<bar> \<le> BETA" "\<bar>low_bits (sub_mod w s)\<bar> < GAMMA2 - BETA" "\<bar>center t\<bar> < GAMMA2"
  defines "r \<equiv> add_mod (sub_mod w s) t"
  shows "use_hint (make_hint (sub_mod 0 t) r) r = high_bits w"
proof -
  let ?s = "add_mod (r mod dsa_q) (sub_mod 0 t mod dsa_q)"
  have "congr dsa_q ?s (r + (0 - t))"
    by (intro congr_trans [OF mod_ops_congr(1)] congr_add congr_of_mod congr_trans [OF congr_of_mod(1)] mod_ops_congr(2))
  also have "congr dsa_q \<dots> (r + - center t)"
    by (intro congr_add congr_refl) (simp add: congr_minus congr_sym [OF center_congr])
  finally have s: "congr dsa_q ?s (r + - center t)" .
  have "congr dsa_q (r + - center t) (sub_mod w s + t + - t)"
    unfolding r_def by (intro congr_add mod_ops_congr congr_minus center_congr)
  then have "congr dsa_q ?s (sub_mod w s)" using congr_trans [OF s] by simp
  then have "high_bits ?s = high_bits (sub_mod w s)" by (rule high_bits_congr)
  moreover have "use_hint (make_hint (sub_mod 0 t) r) r = high_bits ?s"
    by (rule use_hint_correct [OF s]) (use assms(4) in \<open>simp_all add: make_hint_def\<close>)
  moreover have "high_bits w = high_bits (sub_mod w s)"
  proof (rule high_bits_stable [OF _ assms(2,3)])
    have "congr dsa_q (w - s + s) (sub_mod w s + e)" by (intro congr_add assms(1) congr_sym [OF mod_ops_congr(2)])
    then show "congr dsa_q w (sub_mod w s + e)" by simp
  qed
  ultimately show ?thesis by simp
qed

text \<open>What a key pair holds: the vectors and the two parts of \<open>t\<close>.\<close>

definition key_vectors :: "int list list list \<Rightarrow> int list list \<Rightarrow> int list list \<Rightarrow> int list list \<Rightarrow> int list list \<Rightarrow> bool" where
  "key_vectors a s1 s2 t1 t0 \<longleftrightarrow> poly_vector dsa_l s1 \<and> poly_vector dsa_k s2 \<and> list_all small_poly s2 \<and> poly_vector dsa_k t0 \<and> length t1 = dsa_k \<and>
    (\<forall>i < dsa_k. length (t1 ! i) = 256 \<and>
      dsa_add (map (\<lambda>x. dsa_mul_mod x (2 ^ dsa_d)) (t1 ! i)) (t0 ! i) = dsa_add (dsa_inv_ntt (dsa_dot (a ! i) (map dsa_ntt s1))) (s2 ! i))"

lemma scaled_poly: "length t = 256 \<Longrightarrow> dsa_poly (map (\<lambda>x. dsa_mul_mod x y) t)"
  by (simp add: dsa_poly_iff mod_ops_range(3))

lemma small_polyD: "small_poly p \<Longrightarrow> dsa_poly p" "small_poly p \<Longrightarrow> j < 256 \<Longrightarrow> \<bar>center (p ! j)\<bar> \<le> ETA"
  by (auto simp: small_poly_def dsa_poly_def list_all_length)

text \<open>One coefficient of the commitment is recovered by its hint when the two norm tests pass.\<close>

lemma commitment_coefficient:
  assumes c: "dsa_poly c" "weight c = int TAU" and s2: "dsa_poly s2" "small_poly s2" and j: "j < 256"
    and low: "\<bar>low_bits (sub_mod w (dsa_scale (dsa_ntt c) (dsa_ntt s2) ! j))\<bar> < GAMMA2 - BETA"
    and ct0: "\<bar>center ct0\<bar> < GAMMA2"
  defines "r \<equiv> add_mod (sub_mod w (dsa_scale (dsa_ntt c) (dsa_ntt s2) ! j)) ct0"
  shows "use_hint (make_hint (sub_mod 0 ct0) r) r = high_bits w"
proof -
  have "dsa_scale (dsa_ntt c) (dsa_ntt s2) = schoolbook dsa_q c s2"
    unfolding dsa_scale_def using c(1) s2(1) by (rule dsa_product)
  then obtain e where "congr dsa_q (dsa_scale (dsa_ntt c) (dsa_ntt s2) ! j) e" "\<bar>e\<bar> \<le> BETA"
    using schoolbook_small [of s2 ETA j c] small_polyD(2) [OF s2(2)] j c(2) by (auto simp: BETA_def ETA_def)
  from hint_recovers [OF this low ct0] show ?thesis by (simp add: r_def)
qed

lemma recovered_w1_eqI:
  assumes "length t1 = dsa_k" "poly_vector dsa_k w"
    and coeff: "\<And>i j. i < dsa_k \<Longrightarrow> j < 256 \<Longrightarrow> use_hint (hint ! i ! j \<noteq> 0)
      (dsa_inv_ntt (dsa_sub (dsa_dot (a ! i) (map dsa_ntt z)) (dsa_pointwise (dsa_ntt c) (dsa_ntt (map (\<lambda>x. dsa_mul_mod x (2 ^ dsa_d)) (t1 ! i))))) ! j)
      = high_bits (w ! i ! j)"
  shows "recovered_w1 a t1 c z hint = map (map high_bits) w"
proof (rule nth_equalityI)
  show "length (recovered_w1 a t1 c z hint) = length (map (map high_bits) w)"
    using assms(2) by (simp add: recovered_w1_def poly_vector_def Let_def)
  fix i assume "i < length (recovered_w1 a t1 c z hint)"
  then have i: "i < dsa_k" by (simp add: recovered_w1_def Let_def)
  have "recovered_w1 a t1 c z hint ! i = map (\<lambda>j. high_bits (w ! i ! j)) [0..<256]"
    using i assms(1) coeff [OF i] unfolding recovered_w1_def Let_def by simp
  also have "\<dots> = map high_bits (map ((!) (w ! i)) [0..<256])" by simp
  also have "map ((!) (w ! i)) [0..<256] = w ! i"
    using map_nth [of "w ! i"] dsa_poly_length [OF poly_vectorD [OF assms(2) i]] by simp
  finally show "recovered_w1 a t1 c z hint ! i = map (map high_bits) w ! i" using i assms(2) by (simp add: poly_vector_def)
qed

lemma sign_response_verifies:
  assumes key: "key_vectors a s1 s2 t1 t0" and y: "poly_vector dsa_l y" and c: "dsa_poly c" "weight c = int TAU"
    and w: "w = dsa_matvec a (map dsa_ntt y)"
    and sig: "sign_response (map dsa_ntt s1) (map dsa_ntt s2) (map dsa_ntt t0) c_tilde c y w = Some sig"
  shows "\<exists>z hint. sig = sig_encode c_tilde z hint \<and> max_norm norm_inf z < GAMMA1 - BETA \<and> poly_vector dsa_l z \<and>
    length hint = dsa_k \<and> list_all hint_poly hint \<and> count_ones hint \<le> OMEGA \<and> recovered_w1 a t1 c z hint = map (map high_bits) w"
proof -
  define cs1 where "cs1 = map (dsa_scale (dsa_ntt c)) (map dsa_ntt s1)"
  define cs2 where "cs2 = map (dsa_scale (dsa_ntt c)) (map dsa_ntt s2)"
  define ct0 where "ct0 = map (dsa_scale (dsa_ntt c)) (map dsa_ntt t0)"
  define z where "z = map (\<lambda>j. dsa_add (y ! j) (cs1 ! j)) [0..<dsa_l]"
  define r0 where "r0 = map (\<lambda>i. map low_bits (dsa_sub (w ! i) (cs2 ! i))) [0..<dsa_k]"
  define hint where "hint = make_hints w cs2 ct0"
  have tests: "max_norm norm_inf z < GAMMA1 - BETA" "max_norm infinity_low r0 < GAMMA2 - BETA" "max_norm norm_inf ct0 < GAMMA2"
    "count_ones hint \<le> OMEGA" "sig = sig_encode c_tilde z hint"
    using sig unfolding sign_response_def Let_def cs1_def [symmetric] cs2_def [symmetric] ct0_def [symmetric]
      z_def [symmetric] r0_def [symmetric] hint_def [symmetric] by (auto split: if_splits)
  have s: "poly_vector dsa_l s1" "poly_vector dsa_k s2" "list_all small_poly s2" "poly_vector dsa_k t0" "length t1 = dsa_k"
    using key by (auto simp: key_vectors_def)
  have w_nth: "w ! i = dsa_inv_ntt (dsa_dot (a ! i) (map dsa_ntt y))" "dsa_poly (w ! i)" if "i < dsa_k" for i
    using that by (simp_all add: w dsa_matvec_def)
  have cs2_nth: "cs2 ! i = dsa_scale (dsa_ntt c) (dsa_ntt (s2 ! i))" "ct0 ! i = dsa_scale (dsa_ntt c) (dsa_ntt (t0 ! i))" if "i < dsa_k" for i
    using that s by (simp_all add: cs2_def ct0_def poly_vector_def)
  have z_nth: "z ! j = dsa_add (y ! j) (dsa_scale (dsa_ntt c) (dsa_ntt (s1 ! j)))" if "j < dsa_l" for j
    using that s by (simp add: z_def cs1_def poly_vector_def)
  have z: "poly_vector dsa_l z"
    unfolding poly_vector_def list_all_length
    using poly_vectorD [OF y] z_nth by (auto simp: dsa_scale_def) (simp_all add: z_def)
  have approx: "dsa_inv_ntt (dsa_sub (dsa_dot (a ! i) (map dsa_ntt z)) (dsa_pointwise (dsa_ntt c) (dsa_ntt (map (\<lambda>x. dsa_mul_mod x (2 ^ dsa_d)) (t1 ! i)))))
      = dsa_add (dsa_sub (w ! i) (cs2 ! i)) (ct0 ! i)" if i: "i < dsa_k" for i
    unfolding w_nth [OF i] cs2_nth [OF i]
    using key i s y z by (intro approx_commitment [OF c(1) s(1) y poly_vectorD [OF s(2) i] poly_vectorD [OF s(4) i] scaled_poly z_nth])
      (auto simp: key_vectors_def poly_vector_def)
  have "recovered_w1 a t1 c z hint = map (map high_bits) w"
  proof (rule recovered_w1_eqI [OF s(5)])
    show wv: "poly_vector dsa_k w" using w_nth(2) by (simp add: poly_vector_def list_all_length w dsa_matvec_def)
    fix i j assume i: "i < dsa_k" and j: "(j::nat) < 256"
    have "low_bits (sub_mod (w ! i ! j) (cs2 ! i ! j)) \<in> set (r0 ! i)" "r0 ! i \<in> set r0"
      using i j nth_mem [of j "r0 ! i"] by (simp_all add: r0_def)
    then have low: "\<bar>low_bits (sub_mod (w ! i ! j) (cs2 ! i ! j))\<bar> < GAMMA2 - BETA" using max_low_less [OF tests(2)] by blast
    have "ct0 ! i ! j \<in> set (ct0 ! i)" using i j by (simp add: cs2_nth(2) dsa_scale_def dsa_poly_length)
    moreover have "ct0 ! i \<in> set ct0" using i s(4) by (intro nth_mem) (simp add: ct0_def poly_vector_def)
    ultimately have ct: "\<bar>center (ct0 ! i ! j)\<bar> < GAMMA2" using max_norm_less [OF tests(3)] by blast
    have "small_poly (s2 ! i)" using s(2,3) i by (simp add: list_all_length poly_vector_def)
    from commitment_coefficient [OF c poly_vectorD [OF s(2) i] this j low [unfolded cs2_nth(1) [OF i]] ct]
    show "use_hint (hint ! i ! j \<noteq> 0) (dsa_inv_ntt (dsa_sub (dsa_dot (a ! i) (map dsa_ntt z))
        (dsa_pointwise (dsa_ntt c) (dsa_ntt (map (\<lambda>x. dsa_mul_mod x (2 ^ dsa_d)) (t1 ! i))))) ! j) = high_bits (w ! i ! j)"
      unfolding approx [OF i] using i j by (auto simp add: hint_def make_hints_def Let_def cs2_nth(1))
  qed
  moreover have "list_all hint_poly hint" "length hint = dsa_k" by (auto simp: hint_def make_hints_def hint_poly_def list_all_iff Let_def)
  ultimately show ?thesis using tests z by blast
qed

section \<open>Keys\<close>

lemma dsa_h_total: "\<exists>out. dsa_h parts n = Some out \<and> length out = n"
  using absorb_all_absorbed [of 136 "0x1f" "[]" parts] squeeze_absorbed [of 136 "0x1f" "concat parts" n]
  by (simp add: dsa_h_def new_shake256_def absorbed_Nil [symmetric])

text \<open>Some rejection loop of the matrix or of the secret vectors does not end.\<close>

definition matrix_diverges :: "bytes \<Rightarrow> bool" where
  "matrix_diverges rho \<longleftrightarrow> (\<exists>i < dsa_k. \<exists>j < dsa_l. rej_ntt_poly rho j i = None)"

definition secret_diverges :: "bytes \<Rightarrow> bool" where
  "secret_diverges rho \<longleftrightarrow> (\<exists>i < dsa_l + dsa_k. rej_bounded_poly rho (word_of_nat i) = None)"

lemma those_total: "(\<And>x. x \<in> set xs \<Longrightarrow> \<exists>y. f x = Some y \<and> P y) \<Longrightarrow> \<exists>ys. those (map f xs) = Some ys \<and> length ys = length xs \<and> list_all P ys"
proof -
  assume *: "\<And>x. x \<in> set xs \<Longrightarrow> \<exists>y. f x = Some y \<and> P y"
  then have "\<forall>x \<in> set xs. f x \<noteq> None" by fastforce
  moreover have "list_all P (map (\<lambda>x. the (f x)) xs)" using * by (fastforce simp: list_all_iff)
  ultimately show ?thesis by (simp add: those_map)
qed

lemma expand_a_None: "expand_a rho = None \<longleftrightarrow> matrix_diverges rho"
  unfolding expand_a_def matrix_diverges_def by (auto simp: those_map split: if_splits) blast

lemma expand_s_None: "secret_diverges rho \<Longrightarrow> expand_s rho = None"
proof -
  assume "secret_diverges rho"
  then obtain i where i: "i < dsa_l + dsa_k" "rej_bounded_poly rho (word_of_nat i) = None" by (auto simp: secret_diverges_def)
  show ?thesis
  proof (cases "i < dsa_l")
    case False
    then have "i - dsa_l < dsa_k" "dsa_l + (i - dsa_l) = i" using i(1) by simp_all
    then have "those (map (\<lambda>idx. rej_bounded_poly rho (word_of_nat (dsa_l + idx))) [0..<dsa_k]) = None"
      unfolding those_map using i(2) by (auto intro!: bexI [of _ "i - dsa_l"])
    then show ?thesis by (simp add: expand_s_def bind_eq_None_conv)
  qed (use i in \<open>auto simp: expand_s_def those_map\<close>)
qed

lemma expand_s_Some:
  assumes "\<not> secret_diverges rho"
  obtains s1 s2 where "expand_s rho = Some (s1, s2)" "length s1 = dsa_l" "length s2 = dsa_k" "list_all small_poly s1" "list_all small_poly s2"
proof -
  have *: "\<exists>p. rej_bounded_poly rho (word_of_nat i) = Some p \<and> small_poly p" if "i < dsa_l + dsa_k" for i
    using that assms rej_bounded_poly_small by (cases "rej_bounded_poly rho (word_of_nat i)") (auto simp: secret_diverges_def)
  obtain s1 where s1: "those (map (\<lambda>idx. rej_bounded_poly rho (word_of_nat idx)) [0..<dsa_l]) = Some s1" "length s1 = dsa_l" "list_all small_poly s1"
    using those_total [of "[0..<dsa_l]" "\<lambda>idx. rej_bounded_poly rho (word_of_nat idx)" small_poly] * by auto
  obtain s2 where s2: "those (map (\<lambda>idx. rej_bounded_poly rho (word_of_nat (dsa_l + idx))) [0..<dsa_k]) = Some s2" "length s2 = dsa_k" "list_all small_poly s2"
    using those_total [of "[0..<dsa_k]" "\<lambda>idx. rej_bounded_poly rho (word_of_nat (dsa_l + idx))" small_poly] *
    by (auto simp del: of_nat_add)
  show thesis using s1 s2 by (intro that [of s1 s2]) (simp_all add: expand_s_def)
qed

lemma small_vector: "list_all small_poly s \<Longrightarrow> length s = n \<Longrightarrow> poly_vector n s"
  by (auto simp: poly_vector_def list_all_iff small_polyD(1))

lemma small_centered: "small_poly p \<Longrightarrow> centered_within ETA 4 p"
  by (auto simp: small_poly_def centered_within_def list_all_iff ETA_def)

text \<open>The two parts of a coefficient of \<open>t\<close>.\<close>

lemma power2round_parts:
  assumes "dsa_poly t"
  defines "t1 \<equiv> map (\<lambda>r. fst (power2round r)) t" and "t0 \<equiv> map (\<lambda>r. snd (power2round r) mod dsa_q) t"
  shows "length t1 = 256" "list_all (\<lambda>c. 0 \<le> c \<and> c < 2 ^ 10) t1" "dsa_poly t0" "centered_within (2 ^ 12) 13 t0"
    "dsa_add (map (\<lambda>x. dsa_mul_mod x (2 ^ dsa_d)) t1) t0 = t"
proof -
  have len: "length t = 256" using assms(1) by (simp add: dsa_poly_def)
  show "length t1 = 256" by (simp add: t1_def len)
  show "list_all (\<lambda>c. 0 \<le> c \<and> c < 2 ^ 10) t1"
    unfolding t1_def list_all_iff using power2round_spec(2,3) [OF prod.collapse [symmetric]] by auto
  show t0: "dsa_poly t0" by (simp add: t0_def dsa_poly_iff len mod_in_range)
  have c: "center (x mod dsa_q) = x" if "- (2 ^ 12) < x" "x \<le> 2 ^ 12" for x
  proof (cases "0 \<le> x")
    case False
    then have "x mod dsa_q = x + dsa_q" using that mod_add_self2 [of x dsa_q] mod_pos_pos_trivial [of "x + dsa_q" dsa_q]
      by (simp add: dsa_q_def)
    then show ?thesis using False that by (simp add: center_def dsa_q_def)
  qed (use that in \<open>simp add: center_def dsa_q_def\<close>)
  show "centered_within (2 ^ 12) 13 t0"
    unfolding centered_within_def t0_def list_all_iff using c power2round_spec(4,5) [OF prod.collapse [symmetric]] by auto
  show "dsa_add (map (\<lambda>x. dsa_mul_mod x (2 ^ dsa_d)) t1) t0 = t"
  proof (rule dsa_poly_eqI)
    fix i :: nat assume i: "i < 256"
    have "congr dsa_q (dsa_add (map (\<lambda>x. dsa_mul_mod x (2 ^ dsa_d)) t1) t0 ! i) (t1 ! i * 2 ^ dsa_d + t0 ! i)"
      using i len by (simp add: t1_def t0_def, intro congr_trans [OF mod_ops_congr(1)] congr_add mod_ops_congr congr_refl)
    also have "congr dsa_q \<dots> (fst (power2round (t ! i)) * 2 ^ 13 + snd (power2round (t ! i)))"
      using i len by (simp add: t1_def t0_def dsa_d_def, intro congr_add congr_refl congr_of_mod)
    also have "congr dsa_q \<dots> (t ! i)" by (rule congr_sym [OF power2round_spec(1) [OF prod.collapse [symmetric]]])
    finally show "congr dsa_q (dsa_add (map (\<lambda>x. dsa_mul_mod x (2 ^ dsa_d)) t1) t0 ! i) (t ! i)" .
  qed (use assms(1) t0 scaled_poly [of t1] len in \<open>simp_all add: t1_def\<close>)
qed

text \<open>A key pair reads back as what it was made of.\<close>

definition encoded_secret :: "bytes \<Rightarrow> bytes \<Rightarrow> bytes \<Rightarrow> int list list \<Rightarrow> int list list \<Rightarrow> int list list \<Rightarrow> bytes" where
  "encoded_secret rho k_seed tr s1 s2 t0 =
    rho @ k_seed @ tr @ concat (map pack_eta s1) @ concat (map pack_eta s2) @ concat (map pack_t0 t0)"

lemma sk_decode_encoded:
  assumes "length rho = 32" "length k_seed = 32" "length tr = 64"
    and "length s1 = dsa_l" "list_all small_poly s1" "length s2 = dsa_k" "list_all small_poly s2"
    and "length t0 = dsa_k" "list_all (\<lambda>p. dsa_poly p \<and> centered_within (2 ^ 12) 13 p) t0"
  shows "sk_decode (encoded_secret rho k_seed tr s1 s2 t0)
      = Some \<lparr>ds_rho = rho, ds_k_seed = k_seed, ds_tr = tr, ds_s1 = s1, ds_s2 = s2, ds_t0 = t0\<rparr>"
    "length (encoded_secret rho k_seed tr s1 s2 t0) = DSA_SECRET_KEY_LEN"
proof -
  let ?S1 = "concat (map pack_eta s1)" and ?S2 = "concat (map pack_eta s2)" and ?T0 = "concat (map pack_t0 t0)"
  have eta: "unpack_eta (pack_eta p) = Some p \<and> length (pack_eta p) = 128" if "small_poly p" for p
    using that unpack_eta_pack [of p] small_centered [of p] small_polyD(1) [of p] by blast
  have e1: "unpack_eta (pack_eta p) = Some p \<and> length (pack_eta p) = 128" if "p \<in> set s1" for p using that assms(5) eta by (simp add: list_all_iff)
  have e2: "unpack_eta (pack_eta p) = Some p \<and> length (pack_eta p) = 128" if "p \<in> set s2" for p using that assms(7) eta by (simp add: list_all_iff)
  have e3: "unpack_t0 (pack_t0 p) = Some p \<and> length (pack_t0 p) = 416" if "p \<in> set t0" for p
    using that assms(9) unpack_t0_pack [of p] by (simp add: list_all_iff)
  have len: "length ?S1 = 640" "length ?S2 = 768" "length ?T0 = 2496"
    using length_concat_pack [of s1 pack_eta 128] length_concat_pack [of s2 pack_eta 128] length_concat_pack [of t0 pack_t0 416]
      e1 e2 e3 assms(4,6,8) by (simp_all add: dsa_l_def dsa_k_def)
  show "length (encoded_secret rho k_seed tr s1 s2 t0) = DSA_SECRET_KEY_LEN"
    using assms(1-3) len by (simp add: encoded_secret_def DSA_SECRET_KEY_LEN_def dsa_l_def dsa_k_def dsa_d_def)
  have "slice_of ([] @ rho @ (k_seed @ tr @ ?S1 @ ?S2 @ ?T0)) 0 32 = Some rho"
    "slice_of (rho @ k_seed @ (tr @ ?S1 @ ?S2 @ ?T0)) 32 64 = Some k_seed"
    "slice_of ((rho @ k_seed) @ tr @ (?S1 @ ?S2 @ ?T0)) 64 128 = Some tr"
    using assms(1-3) by (intro slice_middle; simp)+
  moreover have "unpack_polys unpack_eta ((rho @ k_seed @ tr) @ ?S1 @ (?S2 @ ?T0)) 128 128 dsa_l = Some s1"
    by (rule unpack_polys_pack [OF e1]) (use assms in simp_all)
  moreover have "unpack_polys unpack_eta ((rho @ k_seed @ tr @ ?S1) @ ?S2 @ ?T0) 768 128 dsa_k = Some s2"
    by (rule unpack_polys_pack [OF e2]) (use assms len in simp_all)
  moreover have "unpack_polys unpack_t0 ((rho @ k_seed @ tr @ ?S1 @ ?S2) @ ?T0 @ []) 1536 416 dsa_k = Some t0"
    by (rule unpack_polys_pack [OF e3]) (use assms len in simp_all)
  ultimately show "sk_decode (encoded_secret rho k_seed tr s1 s2 t0)
      = Some \<lparr>ds_rho = rho, ds_k_seed = k_seed, ds_tr = tr, ds_s1 = s1, ds_s2 = s2, ds_t0 = t0\<rparr>"
    by (simp add: sk_decode_def encoded_secret_def Let_def dsa_l_def dsa_k_def dsa_d_def)
qed

lemma pk_decode_encode:
  assumes "length rho = 32" "length t1 = dsa_k" "list_all (\<lambda>p. length p = 256 \<and> list_all (\<lambda>c. 0 \<le> c \<and> c < 2 ^ 10) p) t1"
  shows "pk_decode (pk_encode rho t1) = Some (rho, t1)" "length (pk_encode rho t1) = DSA_PUBLIC_KEY_LEN"
proof -
  have t: "unpack_t1 (pack_t1 p) = Some p \<and> length (pack_t1 p) = 320" if "p \<in> set t1" for p
    using that assms(3) unpack_t1_pack [of p] by (simp add: list_all_iff)
  have "slice_of ([] @ rho @ concat (map pack_t1 t1)) 0 32 = Some rho" using assms(1) by (intro slice_middle) simp_all
  moreover have "unpack_polys unpack_t1 (rho @ concat (map pack_t1 t1) @ []) 32 320 dsa_k = Some t1"
    by (rule unpack_polys_pack [OF t]) (use assms in simp_all)
  ultimately show "pk_decode (pk_encode rho t1) = Some (rho, t1)" by (simp add: pk_decode_def pk_encode_def)
  show "length (pk_encode rho t1) = DSA_PUBLIC_KEY_LEN"
    using length_concat_pack [of t1 pack_t1 320] t assms(1,2) by (simp add: pk_encode_def DSA_PUBLIC_KEY_LEN_def dsa_k_def)
qed

text \<open>What \<open>keypair_from_seed\<close> returns.\<close>

definition key_material :: "bytes \<Rightarrow> bytes \<times> bytes \<times> bytes" where
  "key_material seed = (let e = the (dsa_h [seed, [word_of_nat dsa_k], [word_of_nat dsa_l]] 128) in (take 32 e, take 64 (drop 32 e), take 32 (drop 96 e)))"

definition key_sampling_diverges :: "bytes \<Rightarrow> bool" where
  "key_sampling_diverges seed \<longleftrightarrow> (case key_material seed of (rho, rho_prime, _) \<Rightarrow> matrix_diverges rho \<or> secret_diverges rho_prime)"

lemma keypair_result:
  "keypair_from_seed seed = None \<and> key_sampling_diverges seed \<or>
   (\<exists>rho k_seed tr a s1 s2 t1 t0. keypair_from_seed seed = Some (pk_encode rho t1, encoded_secret rho k_seed tr s1 s2 t0) \<and>
     length rho = 32 \<and> length k_seed = 32 \<and> length tr = 64 \<and> dsa_h [pk_encode rho t1] 64 = Some tr \<and> expand_a rho = Some a \<and>
     key_vectors a s1 s2 t1 t0 \<and> list_all small_poly s1 \<and>
     list_all (\<lambda>p. length p = 256 \<and> list_all (\<lambda>c. 0 \<le> c \<and> c < 2 ^ 10) p) t1 \<and>
     list_all (\<lambda>p. dsa_poly p \<and> centered_within (2 ^ 12) 13 p) t0)"
proof -
  obtain e where e: "dsa_h [seed, [word_of_nat dsa_k], [word_of_nat dsa_l]] 128 = Some e" "length e = 128" using dsa_h_total by blast
  let ?rho = "take 32 e" and ?rho' = "take 64 (drop 32 e)" and ?k = "take 32 (drop 96 e)"
  show ?thesis
  proof (cases "matrix_diverges ?rho \<or> secret_diverges ?rho'")
    case True
    then have "key_sampling_diverges seed" by (simp add: key_sampling_diverges_def key_material_def e(1) Let_def)
    moreover have "keypair_from_seed seed = None"
      using True expand_a_None [of ?rho] expand_s_None [of ?rho'] e(1)
      by (cases "expand_a ?rho") (auto simp: keypair_from_seed_def Let_def)
    ultimately show ?thesis by blast
  next
    case False
    then obtain a where a: "expand_a ?rho = Some a" using expand_a_None [of ?rho] by auto
    obtain s1 s2 where s: "expand_s ?rho' = Some (s1, s2)" "length s1 = dsa_l" "length s2 = dsa_k" "list_all small_poly s1" "list_all small_poly s2"
      using expand_s_Some [of ?rho'] False by blast
    let ?tt = "keypair_t a s1 s2"
    let ?hi = "map (map (\<lambda>r. fst (power2round r))) ?tt" and ?lo = "map (map (\<lambda>r. snd (power2round r) mod dsa_q)) ?tt"
    obtain tr where tr: "dsa_h [pk_encode ?rho ?hi] 64 = Some tr" "length tr = 64" using dsa_h_total by blast
    have kp: "keypair_from_seed seed = Some (pk_encode ?rho ?hi, encoded_secret ?rho ?k tr s1 s2 ?lo)"
      using e(1) a s(1) tr(1) by (simp add: keypair_from_seed_def Let_def encoded_secret_def)
    have t: "length ?tt = dsa_k" "\<And>i. i < dsa_k \<Longrightarrow> ?tt ! i = dsa_add (dsa_inv_ntt (dsa_dot (a ! i) (map dsa_ntt s1))) (s2 ! i)"
      by (simp_all add: keypair_t_def dsa_matvec_def Let_def)
    have tp: "dsa_poly (?tt ! i)" if "i < dsa_k" for i
      using t(2) [OF that] that s(3,5) by (simp add: list_all_length small_polyD(1))
    note parts = power2round_parts [OF tp]
    have "key_vectors a s1 s2 ?hi ?lo"
      using s t parts small_vector [OF s(4)] small_vector [OF s(5)] by (simp add: key_vectors_def poly_vector_def list_all_length)
    moreover have "list_all (\<lambda>p. length p = 256 \<and> list_all (\<lambda>c. 0 \<le> c \<and> c < 2 ^ 10) p) ?hi"
      "list_all (\<lambda>p. dsa_poly p \<and> centered_within (2 ^ 12) 13 p) ?lo"
      using t(1) parts by (simp_all add: list_all_length)
    ultimately show ?thesis using kp tr a s(4) e(2) 
      by (intro disjI2) (rule exI [of _ ?rho], rule exI [of _ ?k], rule exI [of _ tr], rule exI [of _ a], rule exI [of _ s1],
        rule exI [of _ s2], rule exI [of _ ?hi], rule exI [of _ ?lo], simp)
  qed
qed

section \<open>Signatures verify\<close>

lemma sign_attempt_verifies:
  assumes "length rho = 32" "dsa_h [pk_encode rho t1] 64 = Some tr" "expand_a rho = Some a" "key_vectors a s1 s2 t1 t0"
    and t1: "list_all (\<lambda>p. length p = 256 \<and> list_all (\<lambda>c. 0 \<le> c \<and> c < 2 ^ 10) p) t1"
    and mu: "message_digest tr message = Some mu"
    and sig: "sign_attempt a (map dsa_ntt s1) (map dsa_ntt s2) (map dsa_ntt t0) mu rho_pp kappa = Some (Some sig)"
  shows "length sig = SIGNATURE_LEN \<and> dsa_verify (pk_encode rho t1) message sig = Some True"
proof -
  have "length t1 = dsa_k" using assms(4) by (simp add: key_vectors_def)
  note pk = pk_decode_encode [OF assms(1) this t1]
  obtain y where y: "those (map (\<lambda>r. expand_mask_poly rho_pp (kappa + word_of_nat r)) [0..<dsa_l]) = Some y" "poly_vector dsa_l y"
    using those_total [of "[0..<dsa_l]" "\<lambda>r. expand_mask_poly rho_pp (kappa + word_of_nat r)" dsa_poly] expand_mask_total
    by (auto simp: poly_vector_def)
  define w where "w = dsa_matvec a (map dsa_ntt y)"
  obtain c_tilde where ct: "dsa_h [mu, w1_encode (map (map high_bits) w)] C_TILDE_LEN = Some c_tilde" "length c_tilde = C_TILDE_LEN"
    using dsa_h_total by blast
  from sig obtain c where c: "sample_in_ball c_tilde = Some c"
    and response: "sign_response (map dsa_ntt s1) (map dsa_ntt s2) (map dsa_ntt t0) c_tilde c y w = Some sig"
    by (auto simp: sign_attempt_def y(1) ct(1) w_def [symmetric] Let_def bind_eq_Some_conv)
  obtain z hint where zh: "sig = sig_encode c_tilde z hint" "max_norm norm_inf z < GAMMA1 - BETA" "poly_vector dsa_l z"
    "length hint = dsa_k" "list_all hint_poly hint" "count_ones hint \<le> OMEGA" "recovered_w1 a t1 c z hint = map (map high_bits) w"
    using sign_response_verifies [OF assms(4) y(2) _ _ w_def response] sample_in_ball_weight [OF c] by blast
  have range_z: "dsa_poly p \<and> centered_within GAMMA1 20 p" if p: "p \<in> set z" for p
  proof -
    have "- GAMMA1 < center c \<and> center c \<le> GAMMA1" if "c \<in> set p" for c
      using max_norm_less [OF zh(2) p that] by (simp add: gamma_values BETA_def TAU_def ETA_def abs_less_iff)
    then show ?thesis
      using zh(3) p by (auto simp: poly_vector_def list_all_iff centered_within_def gamma_values)
  qed
  note decode = sig_decode_encode [OF ct(2) _ range_z zh(4,5,6)]
  show ?thesis
    using zh(2,3,7) pk assms(2,3) mu c ct(1) decode unfolding zh(1)
    by (simp add: dsa_verify_def poly_vector_def)
qed

lemma sign_loop_accepts: "sign_loop attempt kappa = Some sig \<Longrightarrow> \<exists>k. attempt k = Some (Some sig)"
proof -
  assume r: "sign_loop attempt kappa = Some sig"
  show ?thesis
  proof (rule sign_loop.raw_induct [OF _ r])
    fix loop attempt kappa sig
    assume IH: "\<And>attempt kappa sig. loop attempt kappa = Some sig \<Longrightarrow> \<exists>k. attempt k = Some (Some sig)"
      and body: "Option.bind (attempt kappa) (\<lambda>r. case r of None \<Rightarrow> loop attempt (kappa + word_of_nat dsa_l) | Some sig \<Rightarrow> Some sig) = Some sig"
    then show "\<exists>k. attempt k = Some (Some sig)"
      by (cases "attempt kappa"; cases "the (attempt kappa)") auto
  qed
qed

text \<open>No turn of the signing loop that is reached accepts: each is rejected, or its sampling of a challenge does not end.\<close>

definition no_attempt_accepted :: "(u16 \<Rightarrow> bytes option option) \<Rightarrow> bool" where
  "no_attempt_accepted attempt \<longleftrightarrow>
    (\<forall>n. (\<forall>m < n. attempt (word_of_nat (dsa_l * m)) = Some None) \<longrightarrow> (\<forall>sig. attempt (word_of_nat (dsa_l * n)) \<noteq> Some (Some sig)))"

lemma sign_loop_rejects: "sign_loop attempt 0 = None \<Longrightarrow> no_attempt_accepted attempt"
proof -
  assume r: "sign_loop attempt 0 = None"
  have step: "sign_loop attempt k = (case attempt k of None \<Rightarrow> None | Some None \<Rightarrow> sign_loop attempt (k + word_of_nat dsa_l) | Some (Some sig) \<Rightarrow> Some sig)" for k
    by (subst sign_loop.simps) (auto split: option.split)
  have reach: "sign_loop attempt (word_of_nat (dsa_l * n)) = None" if "\<forall>m < n. attempt (word_of_nat (dsa_l * m)) = Some None" for n
    using that
  proof (induction n)
    case (Suc n)
    then have "sign_loop attempt (word_of_nat (dsa_l * n)) = None" "attempt (word_of_nat (dsa_l * n)) = Some None" by auto
    with step [of "word_of_nat (dsa_l * n)"] show ?case by (simp add: add.commute)
  qed (simp add: r)
  show ?thesis unfolding no_attempt_accepted_def
  proof (intro allI impI)
    fix n sig assume "\<forall>m < n. attempt (word_of_nat (dsa_l * m)) = Some None"
    from reach [OF this] show "attempt (word_of_nat (dsa_l * n)) \<noteq> Some (Some sig)" using step [of "word_of_nat (dsa_l * n)"] by auto
  qed
qed

lemma signature_outcome:
  "case keypair_from_seed seed of
     None \<Rightarrow> key_sampling_diverges seed
   | Some (pk, sk) \<Rightarrow> length pk = DSA_PUBLIC_KEY_LEN \<and> length sk = DSA_SECRET_KEY_LEN \<and>
       (\<exists>attempt. sign_setup sk message = Some attempt \<and>
         (case dsa_sign sk message of
            None \<Rightarrow> no_attempt_accepted attempt
          | Some sig \<Rightarrow> length sig = SIGNATURE_LEN \<and> dsa_verify pk message sig = Some True))"
proof (cases "keypair_from_seed seed")
  case None
  then show ?thesis using keypair_result [of seed] by auto
next
  case (Some kp)
  then obtain rho k_seed tr a s1 s2 t1 t0 where
    kp: "kp = (pk_encode rho t1, encoded_secret rho k_seed tr s1 s2 t0)" and
    len: "length rho = 32" "length k_seed = 32" "length tr = 64" and
    tr: "dsa_h [pk_encode rho t1] 64 = Some tr" and a: "expand_a rho = Some a" and
    key: "key_vectors a s1 s2 t1 t0" "list_all small_poly s1" and
    t1: "list_all (\<lambda>p. length p = 256 \<and> list_all (\<lambda>c. 0 \<le> c \<and> c < 2 ^ 10) p) t1" and
    t0: "list_all (\<lambda>p. dsa_poly p \<and> centered_within (2 ^ 12) 13 p) t0"
    using keypair_result [of seed] by auto
  have "length s1 = dsa_l" "length s2 = dsa_k" "list_all small_poly s2" "length t0 = dsa_k" "length t1 = dsa_k"
    using key(1) by (auto simp: key_vectors_def poly_vector_def)
  note sk = sk_decode_encoded [OF len this(1) key(2) this(2,3,4) t0] and pk = pk_decode_encode [OF len(1) this(5) t1]
  obtain mu where mu: "message_digest tr message = Some mu" using dsa_h_total by (auto simp: message_digest_def)
  obtain rho_pp where "dsa_h [k_seed, replicate 32 0, mu] 64 = Some rho_pp" using dsa_h_total by blast
  then have started: "sign_setup (encoded_secret rho k_seed tr s1 s2 t0) message
      = Some (sign_attempt a (map dsa_ntt s1) (map dsa_ntt s2) (map dsa_ntt t0) mu rho_pp)" (is "_ = Some ?attempt")
    by (simp add: sign_setup_def sk(1) a mu)
  have "case sign_loop ?attempt 0 of None \<Rightarrow> no_attempt_accepted ?attempt
      | Some sig \<Rightarrow> length sig = SIGNATURE_LEN \<and> dsa_verify (pk_encode rho t1) message sig = Some True"
    using sign_loop_rejects [of ?attempt] sign_loop_accepts [of ?attempt 0] sign_attempt_verifies [OF len(1) tr a key(1) t1 mu]
    by (cases "sign_loop ?attempt 0") auto
  then show ?thesis using Some kp sk(2) pk(2) started by (simp add: dsa_sign_def)
qed

text \<open>
  C12: ML-DSA-65 is correct. For every seed, key generation returns keys of 1952 and 4032 bytes unless a rejection
  loop of its sampling never ends. Signing any message with the secret key then starts, and either no turn of its
  loop accepts or it returns a signature of 3309 bytes, which verification under the public key accepts for that
  message. No slice or index of the three operations is out of range on the way.
\<close>

theorem ml_dsa_signatures_verify:
  "case keypair_from_seed seed of
     None \<Rightarrow> key_sampling_diverges seed
   | Some (pk, sk) \<Rightarrow> length pk = DSA_PUBLIC_KEY_LEN \<and> length sk = DSA_SECRET_KEY_LEN \<and>
       (\<exists>attempt. sign_setup sk message = Some attempt \<and>
         (case dsa_sign sk message of
            None \<Rightarrow> no_attempt_accepted attempt
          | Some sig \<Rightarrow> length sig = SIGNATURE_LEN \<and> dsa_verify pk message sig = Some True))"
  by (rule signature_outcome)

end
