(* ===== verification/Signed_Root.thy ===== *)
theory Signed_Root
  imports Engine_Audit Ml_Dsa_Correct
begin

text \<open>
  Signed audit roots, the rest of the auditing of \<open>crates/ciphra-engine/src/lib.rs\<close>: the signing key of a database,
  \<open>sign_audit_root\<close> and \<open>verify_audit_root\<close>. \<open>None\<close> is a sampling or signing loop of ML-DSA that does not end.
\<close>

section \<open>Signing and verifying\<close>

record signed_audit_root =
  sar_seq :: u64
  sar_root :: bytes
  sar_merkle_root :: bytes
  sar_public_key :: bytes
  sar_signature :: bytes

definition audit_signing_public_key :: "engine \<Rightarrow> bytes option" where
  "audit_signing_public_key e =
    (let seed = derive_seed (eng_master e) AUDIT_SIGNING_CONTEXT in map_option fst (keypair_from_seed seed))"

definition sign_audit_root :: "world \<Rightarrow> engine \<Rightarrow> signed_audit_root res option" where
  "sign_audit_root w e =
    (let (seq, root) = eng_audit_head e in
     case audit_merkle_root w e of
       Err err \<Rightarrow> Some (Err err)
     | Ok merkle_root \<Rightarrow>
         let seed = derive_seed (eng_master e) AUDIT_SIGNING_CONTEXT in
         do {
           (public_key, secret_key) \<leftarrow> keypair_from_seed seed;
           signature \<leftarrow> dsa_sign secret_key (audit_root_message seq root merkle_root);
           Some (Ok \<lparr>sar_seq = seq, sar_root = root, sar_merkle_root = merkle_root, sar_public_key = public_key, sar_signature = signature\<rparr>) })"

definition verify_audit_root :: "signed_audit_root \<Rightarrow> bytes \<Rightarrow> bool option" where
  "verify_audit_root sr public_key =
    dsa_verify public_key (audit_root_message (sar_seq sr) (sar_root sr) (sar_merkle_root sr)) (sar_signature sr)"

section \<open>A signed root is a receipt\<close>

text \<open>ML-DSA does not produce a signature: key generation does not return, or no attempt at signing accepts.\<close>

definition signing_diverges :: "bytes \<Rightarrow> bytes \<Rightarrow> bool" where
  "signing_diverges seed message \<longleftrightarrow> key_sampling_diverges seed \<or>
    (\<exists>pk sk attempt. keypair_from_seed seed = Some (pk, sk) \<and> sign_setup sk message = Some attempt \<and> no_attempt_accepted attempt)"

lemma signing_outcome:
  "(case Option.bind (keypair_from_seed seed) (\<lambda>(pk, sk). map_option (Pair pk) (dsa_sign sk message)) of
      None \<Rightarrow> signing_diverges seed message
    | Some (pk, sig) \<Rightarrow> map_option fst (keypair_from_seed seed) = Some pk \<and> dsa_verify pk message sig = Some True)"
  using signature_outcome [of seed message]
  by (cases "keypair_from_seed seed"; cases "dsa_sign (snd (the (keypair_from_seed seed))) message")
    (auto simp: signing_diverges_def split: option.splits)

text \<open>The leaves and the sequence number of a chain that verifies.\<close>

lemma verified_chain:
  assumes "audit_verify w e = Ok es"
  shows "audit_merkle_root w e = Ok (merkle_root_of (map (\<lambda>e. merkle_leaf (encode_audit e)) es))"
    "fst (eng_audit_head e) = word_of_nat (length es)" "list_all audit_entry_ok es"
    "\<exists>pairs. audit_check (derive_key (eng_master e) ''audit'') (eng_audit_head e) pairs = Ok es"
proof -
  show "audit_merkle_root w e = Ok (merkle_root_of (map (\<lambda>e. merkle_leaf (encode_audit e)) es))"
    using assms by (simp add: audit_merkle_root_def audit_leaves_def)
  obtain pairs where pairs: "audit_check (derive_key (eng_master e) ''audit'') (eng_audit_head e) pairs = Ok es"
    using assms by (auto simp: audit_verify_def)
  then show "\<exists>pairs. audit_check (derive_key (eng_master e) ''audit'') (eng_audit_head e) pairs = Ok es" ..
  show "fst (eng_audit_head e) = word_of_nat (length es)" "list_all audit_entry_ok es"
    using pairs chained_all_ok by (auto simp: audit_check_exact)
qed

text \<open>
  What a signed root lets anyone check: it verifies under the published key, it commits to the number of entries and
  the head of the chain, every entry has a proof that is accepted against it, and an entry accepted against it is in
  the chain or exhibits a SHA-256 collision.
\<close>

definition receipt :: "world \<Rightarrow> engine \<Rightarrow> audit_entry list \<Rightarrow> signed_audit_root \<Rightarrow> bool" where
  "receipt w e es sr \<longleftrightarrow>
    audit_signing_public_key e = Some (sar_public_key sr) \<and> verify_audit_root sr (sar_public_key sr) = Some True \<and>
    (sar_seq sr, sar_root sr) = audit_root e \<and> unat (sar_seq sr) = length es \<and>
    (\<forall>index. unat index < length es \<longrightarrow>
      (\<exists>p. audit_inclusion_proof w e index = Ok (es ! unat index, p, sar_merkle_root sr) \<and>
        verify_inclusion (es ! unat index) p (sar_merkle_root sr))) \<and>
    (\<forall>entry p. audit_entry_ok entry \<and> verify_inclusion entry p (sar_merkle_root sr) \<longrightarrow>
      entry \<in> set es \<or> collide (set (verifier_inputs entry p)) (set (tree_inputs es)))"

lemma chain_proofs:
  assumes "audit_verify w e = Ok es" "length es < 2 ^ 64"
  defines "root \<equiv> merkle_root_of (map (\<lambda>e. merkle_leaf (encode_audit e)) es)"
  shows "unat index < length es \<Longrightarrow> \<exists>p. audit_inclusion_proof w e index = Ok (es ! unat index, p, root) \<and> verify_inclusion (es ! unat index) p root"
    "audit_entry_ok entry \<Longrightarrow> verify_inclusion entry p root \<Longrightarrow> entry \<in> set es \<or> collide (set (verifier_inputs entry p)) (set (tree_inputs es))"
proof -
  obtain pairs where "audit_check (derive_key (eng_master e) ''audit'') (eng_audit_head e) pairs = Ok es"
    using verified_chain(4) [OF assms(1)] by blast
  from inclusion_proof_verifies [OF this assms(2), of index]
  show "unat index < length es \<Longrightarrow> \<exists>p. audit_inclusion_proof w e index = Ok (es ! unat index, p, root) \<and> verify_inclusion (es ! unat index) p root"
    using assms(1) by (auto simp: root_def audit_inclusion_proof_def)
  show "audit_entry_ok entry \<Longrightarrow> verify_inclusion entry p root \<Longrightarrow> entry \<in> set es \<or> collide (set (verifier_inputs entry p)) (set (tree_inputs es))"
    unfolding root_def by (rule accepted_entry_in_tree [OF verified_chain(3) [OF assms(1)]])
qed

text \<open>
  C11: a signed audit root is a receipt for the whole history. A database whose chain does not verify signs nothing and
  reports the error. Otherwise \<open>sign_audit_root\<close> returns, unless the loops of ML-DSA never accept, a root that anyone
  can verify under the database's published key, that fixes the number of entries and the head of the chain, against
  which an inclusion proof of every entry is accepted and, short of a SHA-256 collision, no other entry is.
\<close>

theorem signed_root_is_receipt:
  "case audit_verify w e of
     Err err \<Rightarrow> sign_audit_root w e = Some (Err err)
   | Ok es \<Rightarrow> length es < 2 ^ 64 \<longrightarrow>
       (case sign_audit_root w e of
          None \<Rightarrow> signing_diverges (derive_seed (eng_master e) AUDIT_SIGNING_CONTEXT)
            (audit_root_message (fst (audit_root e)) (snd (audit_root e)) (merkle_root_of (map (\<lambda>e. merkle_leaf (encode_audit e)) es)))
        | Some (Err err) \<Rightarrow> False
        | Some (Ok sr) \<Rightarrow> receipt w e es sr)"
proof (cases "audit_verify w e")
  case (Ok es)
  note chain = verified_chain(1,2) [OF Ok]
  have "receipt w e es \<lparr>sar_seq = fst (eng_audit_head e), sar_root = snd (eng_audit_head e),
      sar_merkle_root = merkle_root_of (map (\<lambda>e. merkle_leaf (encode_audit e)) es), sar_public_key = pk, sar_signature = sig\<rparr>"
    if "length es < 2 ^ 64" "audit_signing_public_key e = Some pk"
      "dsa_verify pk (audit_root_message (fst (eng_audit_head e)) (snd (eng_audit_head e)) (merkle_root_of (map (\<lambda>e. merkle_leaf (encode_audit e)) es))) sig = Some True"
    for pk sig
    using that chain chain_proofs [OF Ok that(1)] by (simp add: receipt_def verify_audit_root_def audit_root_def unat_of_nat prod_eq_iff)
  then show ?thesis
    using Ok chain signing_outcome [of "derive_seed (eng_master e) AUDIT_SIGNING_CONTEXT"
        "audit_root_message (fst (eng_audit_head e)) (snd (eng_audit_head e)) (merkle_root_of (map (\<lambda>e. merkle_leaf (encode_audit e)) es))"]
    by (auto simp: sign_audit_root_def audit_signing_public_key_def audit_root_def Let_def split_def split: Option.bind_splits option.splits)
qed (simp add: sign_audit_root_def audit_merkle_root_def audit_leaves_def split: prod.splits)

theorem signed_root_is_receipt_witness:
  "\<exists>w entry e. w = demo_world Io_ok \<and>
    e = fst (execute_statement w (Create_table ''t'' []) (fst (execute_statement w Begin demo_engine))) \<and>
    audit_verify w e = Ok [entry] \<and>
    (case sign_audit_root w e of
       None \<Rightarrow> signing_diverges (derive_seed (eng_master e) AUDIT_SIGNING_CONTEXT)
         (audit_root_message (fst (audit_root e)) (snd (audit_root e)) (merkle_root_of (map (\<lambda>e. merkle_leaf (encode_audit e)) [entry])))
     | Some (Err err) \<Rightarrow> False
     | Some (Ok sr) \<Rightarrow> receipt w e [entry] sr)"
proof -
  let ?w = "demo_world Io_ok"
  let ?e = "fst (execute_statement ?w (Create_table ''t'' []) (fst (execute_statement ?w Begin demo_engine)))"
  obtain entry where "audit_log ?e [entry]" using demo_txn(1) by blast
  then have "audit_verify ?w ?e = Ok [entry]" by (rule audit_log_verify)
  with signed_root_is_receipt [where w = ?w and e = ?e] show ?thesis
    by (intro exI [of _ ?w] exI [of _ entry] exI [of _ ?e]) simp
qed

end
