(* ===== verification/X25519_Correct.thy ===== *)
theory X25519_Correct
  imports X25519_Field
begin

text \<open>
  The Montgomery ladder of X25519 against the function of RFC 7748 on integers: inversion by the addition
  chain, the masked swaps, the clamped scalar, and the ladder as a simulation.
\<close>

section \<open>Inversion\<close>

text \<open>\<open>f\<close> holds the power \<open>z\<^sup>n\<close> of the field.\<close>

definition holds_power :: "fe \<Rightarrow> int \<Rightarrow> nat \<Rightarrow> bool" where
  "holds_power f z n \<longleftrightarrow> carried f \<and> congr p25519 (fe_val f) (z ^ n)"

lemma carried_53: "carried f \<Longrightarrow> limbs_below (2 ^ 53) f"
  by (rule limbs_below_mono [OF carried_limbs]) simp_all

lemma holds_power_mul: "holds_power f z m \<Longrightarrow> holds_power g z n \<Longrightarrow> holds_power (fe_mul f g) z (m + n)"
  using fe_mul_value [OF carried_53 carried_53, of f g] unfolding holds_power_def power_add
  by (blast intro: congr_trans congr_mult)

lemma holds_power_square: "holds_power f z m \<Longrightarrow> holds_power (fe_square f) z (2 * m)"
  using holds_power_mul [of f z m f m] by (simp add: fe_square_def mult_2)

lemma holds_power_times: "holds_power f z m \<Longrightarrow> holds_power (square_times n f) z (2 ^ n * m)"
  unfolding square_times_def
proof (induction n)
  case (Suc n)
  then show ?case using holds_power_square [of "(fe_square ^^ n) f" z "2 ^ n * m"] by (simp add: mult.assoc)
qed simp

lemma fe_invert_value:
  assumes "carried f"
  shows "holds_power (fe_invert f) (fe_val f) (2 ^ 255 - 21)"
proof -
  let ?z = "fe_val f"
  have z1: "holds_power f ?z 1" using assms by (simp add: holds_power_def)
  note z2 = holds_power_square [OF z1]
  note z9 = holds_power_mul [OF z1 holds_power_square [OF holds_power_square [OF z2]]]
  note z11 = holds_power_mul [OF z2 z9]
  note z5 = holds_power_mul [OF z9 holds_power_square [OF z11]]
  note z10 = holds_power_mul [OF holds_power_times [OF z5, of 5] z5]
  note z20 = holds_power_mul [OF holds_power_times [OF z10, of 10] z10]
  note z40 = holds_power_mul [OF holds_power_times [OF z20, of 20] z20]
  note z50 = holds_power_mul [OF holds_power_times [OF z40, of 10] z10]
  note z100 = holds_power_mul [OF holds_power_times [OF z50, of 50] z50]
  note z200 = holds_power_mul [OF holds_power_times [OF z100, of 100] z100]
  note z250 = holds_power_mul [OF holds_power_times [OF z200, of 50] z50]
  note z255 = holds_power_mul [OF holds_power_times [OF z250, of 5] z11]
  show ?thesis unfolding fe_invert_def Let_def using z255 by simp
qed

section \<open>Swaps\<close>

lemma fe_cswap_bool: "fe_cswap f g (of_bool b) = (if b then (g, f) else (f, g))"
proof -
  have x: "a XOR (a XOR b) = b" "b XOR (a XOR b) = a" for a b :: u64
    by (simp_all add: xor.left_commute flip: xor.assoc)
  show ?thesis by (cases f; cases g; cases b) (simp_all add: Let_def x)
qed

section \<open>RFC 7748\<close>

definition rfc_scalar :: "bytes \<Rightarrow> nat" where
  "rfc_scalar k = 2 ^ 254 + 8 * (le_nat k mod 2 ^ 254 div 8)"

definition rfc_swap :: "bool \<Rightarrow> int \<times> int \<times> int \<times> int \<Rightarrow> int \<times> int \<times> int \<times> int" where
  "rfc_swap swap = (\<lambda>(x2, z2, x3, z3). if swap then (x3, z3, x2, z2) else (x2, z2, x3, z3))"

definition rfc_step :: "nat \<Rightarrow> int \<Rightarrow> (int \<times> int \<times> int \<times> int) \<times> bool \<Rightarrow> nat \<Rightarrow> (int \<times> int \<times> int \<times> int) \<times> bool" where
  "rfc_step k x1 st t =
    (let (x2, z2, x3, z3) = rfc_swap (snd st \<noteq> bit k t) (fst st);
         A = x2 + z2; AA = A ^ 2; B = x2 - z2; BB = B ^ 2; E = AA - BB;
         C = x3 + z3; D = x3 - z3; DA = D * A; CB = C * B
     in ((AA * BB mod p25519, E * (AA + 121665 * E) mod p25519, (DA + CB) ^ 2 mod p25519, x1 * (DA - CB) ^ 2 mod p25519), bit k t))"

definition rfc_x25519 :: "bytes \<Rightarrow> bytes \<Rightarrow> bytes" where
  "rfc_x25519 k u =
    (let x1 = int (le_nat u) mod 2 ^ 255;
         (st, swap) = foldl (rfc_step (rfc_scalar k) x1) ((1, 0, x1, 1), False) (rev [0..<255]);
         (x2, z2, x3, z3) = rfc_swap swap st
     in le_bytes 32 (nat (x2 * z2 ^ nat (p25519 - 2) mod p25519)))"

section \<open>The scalar\<close>

lemma bit_le_nat: "t < 8 * length bs \<Longrightarrow> bit (le_nat bs) t \<longleftrightarrow> bit (bs ! (t div 8)) (t mod 8)"
proof (induction bs arbitrary: t)
  case (Cons b bs)
  have plus: "le_nat (b # bs) = unat b OR push_bit 8 (le_nat bs)"
  proof -
    have "unat b + push_bit 8 (le_nat bs) = unat b OR push_bit 8 (le_nat bs)"
      by (rule disjunctive_add) (auto simp: bit_push_bit_iff bit_unsigned_iff dest: bit_imp_le_length)
    then show ?thesis by (simp add: push_bit_eq_mult mult.commute)
  qed
  show ?case
  proof (cases "t < 8")
    case True
    then show ?thesis by (simp add: plus bit_or_iff bit_push_bit_iff bit_unsigned_iff del: le_nat.simps)
  next
    case False
    then obtain s where t: "t = s + 8" by (metis add.commute le_Suc_ex not_less)
    have "\<not> bit (unat b) t" using False by (auto simp: bit_unsigned_iff dest: bit_imp_le_length)
    then show ?thesis using Cons.IH [of s] Cons.prems by (simp add: plus bit_or_iff bit_push_bit_iff t div_add_self2 del: le_nat.simps)
  qed
qed simp

lemma bit_rfc_scalar:
  assumes "t < 255"
  shows "bit (rfc_scalar k) t \<longleftrightarrow> t = 254 \<or> 3 \<le> t \<and> bit (le_nat k) t"
proof -
  have scalar: "2 ^ m + push_bit 3 (drop_bit 3 (take_bit m x)) = 2 ^ m OR push_bit 3 (drop_bit 3 (take_bit m x))" for m x :: nat
    by (rule disjunctive_add) (auto simp: bit_push_bit_iff bit_drop_bit_eq bit_take_bit_iff bit_exp_iff)
  have bits: "bit (2 ^ m + push_bit 3 (drop_bit 3 (take_bit m x))) t \<longleftrightarrow> t = m \<or> 3 \<le> t \<and> t < m \<and> bit x t" for m x :: nat
    unfolding scalar by (auto simp: bit_or_iff bit_push_bit_iff bit_drop_bit_eq bit_take_bit_iff bit_exp_iff)
  have "rfc_scalar k = 2 ^ 254 + push_bit 3 (drop_bit 3 (take_bit 254 (le_nat k)))"
    unfolding rfc_scalar_def push_bit_eq_mult drop_bit_eq_div take_bit_eq_mod by simp
  then have "bit (rfc_scalar k) t \<longleftrightarrow> t = 254 \<or> 3 \<le> t \<and> t < 254 \<and> bit (le_nat k) t" by (simp only: bits)
  then show ?thesis using assms by auto
qed

lemma byte_cases: "(j :: nat) < 8 \<Longrightarrow> j \<in> {0, 1, 2, 3, 4, 5, 6, 7}"
  by auto

lemma mask_bits: "j < 8 \<Longrightarrow> bit (248 :: byte) j \<longleftrightarrow> 3 \<le> j" "j < 8 \<Longrightarrow> bit (127 :: byte) j \<longleftrightarrow> j < 7" "j < 8 \<Longrightarrow> bit (64 :: byte) j \<longleftrightarrow> j = 6"
  by (drule byte_cases, elim insertE; simp)+

lemma bit_clamp_scalar:
  assumes "length k = 32" "t < 255"
  shows "bit (clamp_scalar k ! (t div 8)) (t mod 8) \<longleftrightarrow> bit (rfc_scalar k) t"
proof -
  let ?j = "t mod 8"
  have j: "?j < 8" by simp
  have k: "bit (le_nat k) t \<longleftrightarrow> bit (k ! (t div 8)) ?j" using assms by (intro bit_le_nat) simp
  consider "t div 8 = 0" | "t div 8 = 31" | "t div 8 \<noteq> 0" "t div 8 \<noteq> 31" by blast
  then show ?thesis
  proof cases
    case 1
    then have "?j = t" "t < 8" by simp_all
    then show ?thesis using assms 1 k mask_bits(1) [OF j]
      by (auto simp: clamp_scalar_def Let_def bit_rfc_scalar bit_and_iff)
  next
    case 2
    then have "t = 248 + ?j" by presburger
    then have "?j = 6 \<longleftrightarrow> t = 254" "?j < 7" using assms(2) by presburger+
    then show ?thesis using assms 2 k mask_bits(2,3) [OF j]
      by (auto simp: clamp_scalar_def Let_def bit_rfc_scalar bit_and_iff bit_or_iff)
  next
    case 3
    then have "8 \<le> t" "t < 248" using assms(2) by presburger+
    then show ?thesis using assms 3 k by (simp add: clamp_scalar_def Let_def bit_rfc_scalar)
  qed
qed

lemma low_bit: "(ucast (drop_bit j (w :: byte) AND 1) :: u64) = of_bool (bit w j)"
proof -
  have "drop_bit j w AND 1 = of_bool (bit w j)" unfolding and_one_eq mod_2_eq_odd bit_iff_odd_drop_bit ..
  then show ?thesis by (cases "bit w j") simp_all
qed

lemma ladder_bit:
  assumes "length k = 32" "t < 255"
  shows "(ucast (drop_bit (t mod 8) (clamp_scalar k ! (t div 8)) AND 1) :: u64) = of_bool (bit (rfc_scalar k) t)"
  unfolding low_bit bit_clamp_scalar [OF assms] ..

section \<open>The ladder\<close>

text \<open>A field element stands for an integer modulo \<open>p\<close>: with limbs as \<open>carry\<close> leaves them, or after an addition.\<close>

definition rep :: "fe \<Rightarrow> int \<Rightarrow> bool" where
  "rep f x \<longleftrightarrow> carried f \<and> congr p25519 (fe_val f) x"

definition rep_sum :: "fe \<Rightarrow> int \<Rightarrow> bool" where
  "rep_sum f x \<longleftrightarrow> limbs_below (2 ^ 53) f \<and> congr p25519 (fe_val f) x"

lemma rep_rep_sum: "rep f x \<Longrightarrow> rep_sum f x"
  by (simp only: rep_def rep_sum_def carried_53)

lemma rep_add: "rep f x \<Longrightarrow> rep g y \<Longrightarrow> rep_sum (fe_add f g) (x + y)"
  using fe_add_value [OF carried_limbs carried_limbs, of f g] unfolding rep_def rep_sum_def by (auto intro: congr_add)

lemma rep_sub: "rep_sum f x \<Longrightarrow> rep_sum g y \<Longrightarrow> rep (fe_sub f g) (x - y)"
  using fe_sub_value [of f g] unfolding rep_def rep_sum_def by (blast intro: congr_trans congr_diff)

lemma rep_mul: "rep_sum f x \<Longrightarrow> rep_sum g y \<Longrightarrow> rep (fe_mul f g) (x * y)"
  using fe_mul_value [of f g] unfolding rep_def rep_sum_def by (blast intro: congr_trans congr_mult)

lemma rep_square: "rep_sum f x \<Longrightarrow> rep (fe_square f) (x ^ 2)"
  using rep_mul [of f x f x] by (simp add: fe_square_def power2_eq_square)

lemma rep_mul_small: "rep_sum f x \<Longrightarrow> rep (fe_mul_small f 121665) (121665 * x)"
  using fe_mul_small_value [of f] unfolding rep_def rep_sum_def by (blast intro: congr_trans congr_mult congr_refl)

lemma rep_mod: "rep f x \<Longrightarrow> rep f (x mod p25519)"
  unfolding rep_def by (blast intro: congr_trans congr_of_mod)

fun sim :: "ladder \<Rightarrow> (int \<times> int \<times> int \<times> int) \<times> bool \<Rightarrow> bool" where
  "sim s ((x2, z2, x3, z3), swap) \<longleftrightarrow>
    rep (lx2 s) x2 \<and> rep (lz2 s) z2 \<and> rep (lx3 s) x3 \<and> rep (lz3 s) z3 \<and> lswap s = of_bool swap"

lemma ladder_swap_sim: "sim s (st, c) \<Longrightarrow> sim (ladder_swap (of_bool b) s) (rfc_swap b st, c)"
  by (cases st) (auto simp: ladder_swap_def rfc_swap_def fe_cswap_bool)

lemma ladder_step_sim:
  assumes "sim s (st, c)" "rep x1 n1" "length k = 32" "t < 255"
  shows "sim (ladder_step (clamp_scalar k) x1 s t) (rfc_step (rfc_scalar k) n1 (st, c) t)"
proof -
  let ?b = "bit (rfc_scalar k) t"
  obtain x2 z2 x3 z3 where st: "rfc_swap (c \<noteq> ?b) st = (x2, z2, x3, z3)" by (metis prod_cases4)
  have sw: "lswap s XOR of_bool ?b = of_bool (c \<noteq> ?b)" using assms(1) by (cases st; cases c; cases ?b) simp_all
  define s1 where "s1 = ladder_swap (of_bool (c \<noteq> ?b)) s"
  have r: "rep (lx2 s1) x2" "rep (lz2 s1) z2" "rep (lx3 s1) x3" "rep (lz3 s1) z3"
    using ladder_swap_sim [OF assms(1), of "c \<noteq> ?b"] unfolding st s1_def by simp_all
  note rs = rep_rep_sum
  let ?a = "fe_add (lx2 s1) (lz2 s1)" and ?b' = "fe_sub (lx2 s1) (lz2 s1)" and ?c = "fe_add (lx3 s1) (lz3 s1)" and ?d = "fe_sub (lx3 s1) (lz3 s1)"
  note a = rep_add [OF r(1,2)] and b = rep_sub [OF rs [OF r(1)] rs [OF r(2)]]
    and c = rep_add [OF r(3,4)] and d = rep_sub [OF rs [OF r(3)] rs [OF r(4)]]
  note aa = rep_square [OF a] and bb = rep_square [OF rs [OF b]]
  note e = rep_sub [OF rs [OF aa] rs [OF bb]]
  note da = rep_mul [OF rs [OF d] a] and cb = rep_mul [OF c rs [OF b]]
  note results = rep_mul [OF rs [OF aa] rs [OF bb], THEN rep_mod]
    rep_mul [OF rs [OF e] rep_add [OF aa rep_mul_small [OF rs [OF e]]], THEN rep_mod]
    rep_square [OF rep_add [OF da cb], THEN rep_mod]
    rep_mul [OF rs [OF assms(2)] rs [OF rep_square [OF rs [OF rep_sub [OF rs [OF da] rs [OF cb]]]]], THEN rep_mod]
  show ?thesis
    unfolding ladder_step_def rfc_step_def ladder_bit [OF assms(3,4)] sw Let_def s1_def [symmetric] fst_conv snd_conv st case_prod_conv
    by (simp only: sim.simps ladder.simps) (use results in blast)
qed

lemma ladder_sim:
  assumes "sim s st" "rep x1 n1" "length k = 32" "\<forall>t \<in> set ts. t < 255"
  shows "sim (foldl (ladder_step (clamp_scalar k) x1) s ts) (foldl (rfc_step (rfc_scalar k) n1) st ts)"
  using assms(1,4)
proof (induction ts arbitrary: s st)
  case (Cons t ts)
  then have "sim (ladder_step (clamp_scalar k) x1 s t) (rfc_step (rfc_scalar k) n1 st t)"
    using ladder_step_sim [of s "fst st" "snd st", OF _ assms(2,3)] by simp
  then show ?case using Cons by simp
qed simp

lemma rep_invert: "rep f x \<Longrightarrow> rep (fe_invert f) (x ^ nat (p25519 - 2))"
proof -
  assume f: "rep f x"
  have "nat (p25519 - 2) = 2 ^ 255 - 21" by (simp add: p25519_def)
  then have "holds_power (fe_invert f) (fe_val f) (nat (p25519 - 2))" using fe_invert_value [of f] f by (simp only: rep_def)
  moreover have "congr p25519 (fe_val f ^ nat (p25519 - 2)) (x ^ nat (p25519 - 2))" using f by (intro congr_power) (simp add: rep_def)
  ultimately show ?thesis unfolding holds_power_def rep_def by (blast intro: congr_trans)
qed

lemma rep_to_bytes: "rep f x \<Longrightarrow> fe_to_bytes f = le_bytes 32 (nat (x mod p25519))"
  using fe_to_bytes_value [OF limbs_below_mono [OF carried_limbs], of f] by (simp add: rep_def congr_mod)

lemma rep_from_bytes: "length bs = 32 \<Longrightarrow> rep (fe_from_bytes bs) (int (le_nat bs) mod 2 ^ 255)"
  using fe_from_bytes_value [of bs] by (cases "fe_from_bytes bs") (auto simp: rep_def)

lemma rep_constants: "rep fe_one 1" "rep fe_zero 0"
  by (simp_all add: rep_def fe_one_def fe_zero_def)

text \<open>
  C14: X25519 is the function of RFC 7748. For every scalar and every u-coordinate of 32 bytes, the ladder
  on 51-bit limbs in wrapping 64-bit words, with masked swaps and inversion by an addition chain, returns
  the little-endian bytes of what the ladder of the RFC computes on integers modulo \<open>2\<^sup>2\<^sup>5\<^sup>5 - 19\<close> with the
  clamped scalar; the result is the canonical representative.
\<close>

theorem x25519_matches_rfc:
  assumes "length scalar = 32" "length u = 32"
  shows "scalarmult scalar u = rfc_x25519 scalar u"
proof -
  let ?n1 = "int (le_nat u) mod 2 ^ 255" and ?x1 = "fe_from_bytes u" and ?ts = "rev [0..<255]"
  let ?s0 = "\<lparr>lx2 = fe_one, lz2 = fe_zero, lx3 = ?x1, lz3 = fe_one, lswap = 0\<rparr>"
  define s where "s = foldl (ladder_step (clamp_scalar scalar) ?x1) ?s0 ?ts"
  obtain st swap where st: "foldl (rfc_step (rfc_scalar scalar) ?n1) ((1, 0, ?n1, 1), False) ?ts = (st, swap)" by fastforce
  note x1 = rep_from_bytes [OF assms(2)]
  have "sim ?s0 ((1, 0, ?n1, 1), False)" using x1 rep_constants by simp
  from ladder_sim [OF this x1 assms(1), of ?ts] have s: "sim s (st, swap)" unfolding s_def st by simp
  then have "lswap s = of_bool swap" by (cases st) simp
  with ladder_swap_sim [OF s, of swap] have f: "sim (ladder_swap (lswap s) s) (rfc_swap swap st, swap)" by simp
  obtain x2 z2 x3 z3 where r: "rfc_swap swap st = (x2, z2, x3, z3)" by (metis prod_cases4)
  from f have "rep (lx2 (ladder_swap (lswap s) s)) x2" "rep (lz2 (ladder_swap (lswap s) s)) z2" unfolding r by simp_all
  from rep_to_bytes [OF rep_mul [OF rep_rep_sum [OF this(1)] rep_rep_sum [OF rep_invert [OF this(2)]]]]
  show ?thesis unfolding scalarmult_def rfc_x25519_def Let_def s_def [symmetric] st case_prod_conv r .
qed

theorem x25519_matches_rfc_witness:
  "length (replicate 32 (7 :: byte)) = 32 \<and> length BASE_POINT = 32 \<and>
   scalarmult (replicate 32 7) BASE_POINT = rfc_x25519 (replicate 32 7) BASE_POINT"
  using x25519_matches_rfc [of "replicate 32 7" BASE_POINT] by (simp add: BASE_POINT_def)

end
