(* ===== verification/Handshake.thy ===== *)
theory Handshake
  imports Net Aead Sha256 Ml_Kem_Correct X25519_Correct
begin

text \<open>
  The hybrid key exchange of \<open>crates/ciphra-crypto/src/hybrid.rs\<close> and the sealed channel that
  \<open>crates/ciphra-net/src/lib.rs\<close> runs over it: hello messages, key derivation, the two sides of the
  handshake on byte streams, sealed frames with per-direction keys and counters. The random bytes the code
  draws are arguments; \<open>None\<close> is a panic or a rejection loop of ML-KEM that does not end.
\<close>

section \<open>Hybrid key exchange\<close>

record server_identity =
  si_secret :: bytes
  si_public :: bytes

definition from_secret :: "bytes \<Rightarrow> server_identity" where
  "from_secret secret = \<lparr>si_secret = secret, si_public = x_public_key secret\<rparr>"

record client_hello =
  ch_e_c :: bytes
  ch_ek :: bytes

record server_hello =
  sh_e_s :: bytes
  sh_ct :: bytes

record client_state =
  cs_e_secret :: bytes
  cs_e_public :: bytes
  cs_ek :: bytes
  cs_dk :: bytes

definition client_start :: "bytes \<Rightarrow> bytes \<Rightarrow> bytes \<Rightarrow> (client_state \<times> client_hello) option" where
  "client_start e_secret d z = do {
    let e_public = x_public_key e_secret;
    kp \<leftarrow> keygen_internal d z;
    Some (\<lparr>cs_e_secret = e_secret, cs_e_public = e_public, cs_ek = kp_ek kp, cs_dk = kp_dk kp\<rparr>,
          \<lparr>ch_e_c = e_public, ch_ek = kp_ek kp\<rparr>) }"

definition TRANSPORT_LABEL :: bytes where "TRANSPORT_LABEL = as_bytes ''ciphra/transport/v1''"

definition hybrid_derive_key :: "bytes \<Rightarrow> bytes \<Rightarrow> bytes \<Rightarrow> bytes \<Rightarrow> bytes \<Rightarrow> bytes \<Rightarrow> bytes \<Rightarrow> bytes option" where
  "hybrid_derive_key dh_e dh_s ss_pq e_c ek e_s ct = do {
    k1 \<leftarrow> keccak_absorb new_sha3_256 TRANSPORT_LABEL;
    k2 \<leftarrow> keccak_absorb k1 dh_e;
    k3 \<leftarrow> keccak_absorb k2 dh_s;
    k4 \<leftarrow> keccak_absorb k3 ss_pq;
    k5 \<leftarrow> keccak_absorb k4 e_c;
    k6 \<leftarrow> keccak_absorb k5 ek;
    k7 \<leftarrow> keccak_absorb k6 e_s;
    k8 \<leftarrow> keccak_absorb k7 ct;
    (k9, key) \<leftarrow> keccak_squeeze k8 32;
    Some key }"

definition client_finish :: "client_state \<Rightarrow> server_hello \<Rightarrow> bytes \<Rightarrow> bytes option" where
  "client_finish state hello server_static_public = do {
    let dh_e = diffie_hellman (cs_e_secret state) (sh_e_s hello);
    let dh_s = diffie_hellman (cs_e_secret state) server_static_public;
    ss_pq \<leftarrow> decapsulate (cs_dk state) (sh_ct hello);
    hybrid_derive_key dh_e dh_s ss_pq (cs_e_public state) (cs_ek state) (sh_e_s hello) (sh_ct hello) }"

definition server_respond :: "server_identity \<Rightarrow> client_hello \<Rightarrow> bytes \<Rightarrow> bytes \<Rightarrow> (server_hello \<times> bytes) option" where
  "server_respond identity hello e_secret m = do {
    let e_public = x_public_key e_secret;
    let dh_e = diffie_hellman e_secret (ch_e_c hello);
    let dh_s = diffie_hellman (si_secret identity) (ch_e_c hello);
    (ct, ss_pq) \<leftarrow> encaps_internal (ch_ek hello) m;
    key \<leftarrow> hybrid_derive_key dh_e dh_s ss_pq (ch_e_c hello) (ch_ek hello) e_public ct;
    Some (\<lparr>sh_e_s = e_public, sh_ct = ct\<rparr>, key) }"

definition CLIENT_HELLO_LEN :: nat where "CLIENT_HELLO_LEN = 32 + 1184"

definition SERVER_HELLO_LEN :: nat where "SERVER_HELLO_LEN = 32 + 1088"

definition client_hello_to_bytes :: "client_hello \<Rightarrow> bytes" where
  "client_hello_to_bytes h = ch_e_c h @ ch_ek h"

definition client_hello_from_bytes :: "bytes \<Rightarrow> client_hello option" where
  "client_hello_from_bytes bs =
    (if length bs \<noteq> CLIENT_HELLO_LEN then None else Some \<lparr>ch_e_c = take 32 bs, ch_ek = drop 32 bs\<rparr>)"

definition server_hello_to_bytes :: "server_hello \<Rightarrow> bytes" where
  "server_hello_to_bytes h = sh_e_s h @ sh_ct h"

definition server_hello_from_bytes :: "bytes \<Rightarrow> server_hello option" where
  "server_hello_from_bytes bs =
    (if length bs \<noteq> SERVER_HELLO_LEN then None else Some \<lparr>sh_e_s = take 32 bs, sh_ct = drop 32 bs\<rparr>)"

definition counter_nonce :: "u64 \<Rightarrow> bytes" where
  "counter_nonce counter = le_bytes 8 (unat counter) @ replicate 4 0"

definition channel_seal :: "bytes \<Rightarrow> u64 \<Rightarrow> bytes \<Rightarrow> bytes" where
  "channel_seal key counter plaintext = aead_seal key (counter_nonce counter) plaintext TRANSPORT_LABEL"

definition channel_open :: "bytes \<Rightarrow> u64 \<Rightarrow> bytes \<Rightarrow> bytes option" where
  "channel_open key counter sealed = aead_open key (counter_nonce counter) sealed TRANSPORT_LABEL"

section \<open>The sealed channel\<close>

datatype net_error = Net_io | Bad_client_hello | Bad_server_hello | Pin_mismatch | Auth_failed

record channel =
  send_key :: bytes
  recv_key :: bytes
  send_ctr :: u64
  recv_ctr :: u64

definition net_derive :: "bytes \<Rightarrow> string \<Rightarrow> bytes" where
  "net_derive shared label = sha256 (shared @ as_bytes label)"

definition channel_new :: "bytes \<Rightarrow> bool \<Rightarrow> channel" where
  "channel_new shared client =
    (let c2s = net_derive shared ''c2s''; s2c = net_derive shared ''s2c'' in
     if client then \<lparr>send_key = c2s, recv_key = s2c, send_ctr = 0, recv_ctr = 0\<rparr>
     else \<lparr>send_key = s2c, recv_key = c2s, send_ctr = 0, recv_ctr = 0\<rparr>)"

text \<open>The channel after a send, and the bytes it writes to the stream.\<close>

definition channel_send :: "channel \<Rightarrow> bytes \<Rightarrow> channel \<times> bytes" where
  "channel_send ch plaintext =
    (ch\<lparr>send_ctr := send_ctr ch + 1\<rparr>, write_frame (channel_seal (send_key ch) (send_ctr ch) plaintext))"

text \<open>The plaintext, the rest of the stream and the channel after a receive.\<close>

definition channel_recv :: "channel \<Rightarrow> bytes \<Rightarrow> (net_error, bytes \<times> bytes \<times> channel) result" where
  "channel_recv ch stream =
    rbind (map_err (\<lambda>_. Net_io) (read_frame stream)) (\<lambda>(sealed, rest).
    rbind (ok_or Auth_failed (channel_open (recv_key ch) (recv_ctr ch) sealed)) (\<lambda>opened.
    Ok (opened, rest, ch\<lparr>recv_ctr := recv_ctr ch + 1\<rparr>)))"

section \<open>The handshake on the stream\<close>

text \<open>The server's half at the start of \<open>handle_connection\<close>: its channel and the bytes it answers with.\<close>

definition server_handshake :: "bytes \<Rightarrow> bytes \<Rightarrow> bytes \<Rightarrow> bytes \<Rightarrow> (net_error, channel \<times> bytes \<times> bytes) result option" where
  "server_handshake server_secret e_secret m stream =
    (let identity = from_secret server_secret in
     case read_frame stream of
       Err _ \<Rightarrow> Some (Err Net_io)
     | Ok (hello_bytes, rest) \<Rightarrow>
         (case client_hello_from_bytes hello_bytes of
            None \<Rightarrow> Some (Err Bad_client_hello)
          | Some hello \<Rightarrow> map_option (\<lambda>(server_hello, secret).
              Ok (channel_new secret False, write_frame (si_public identity @ server_hello_to_bytes server_hello), rest))
              (server_respond identity hello e_secret m)))"

text \<open>\<open>client_handshake\<close> up to its write, and from its read on.\<close>

definition client_handshake_start :: "bytes \<Rightarrow> bytes \<Rightarrow> bytes \<Rightarrow> (client_state \<times> bytes) option" where
  "client_handshake_start e_secret d z =
    map_option (\<lambda>(state, hello). (state, write_frame (client_hello_to_bytes hello))) (client_start e_secret d z)"

definition client_handshake_finish ::
  "client_state \<Rightarrow> bytes option \<Rightarrow> bytes \<Rightarrow> (net_error, channel \<times> bytes \<times> bool \<times> bytes) result option" where
  "client_handshake_finish state pinned stream =
    (case read_frame stream of
       Err _ \<Rightarrow> Some (Err Net_io)
     | Ok (reply, rest) \<Rightarrow>
         if length reply \<noteq> 32 + SERVER_HELLO_LEN then Some (Err Bad_server_hello)
         else let server_public = take 32 reply in
           if (case pinned of Some expected \<Rightarrow> expected \<noteq> server_public | None \<Rightarrow> False) then Some (Err Pin_mismatch)
           else (case server_hello_from_bytes (drop 32 reply) of
               None \<Rightarrow> Some (Err Bad_server_hello)
             | Some hello \<Rightarrow> map_option (\<lambda>shared. Ok (channel_new shared True, server_public, pinned \<noteq> None, rest))
                 (client_finish state hello server_public)))"

section \<open>Frames and sealed messages\<close>

lemma read_frame_iff: "read_frame stream = Ok (p, rest) \<longleftrightarrow> stream = write_frame p @ rest \<and> length p \<le> MAX_FRAME"
proof
  assume "read_frame stream = Ok (p, rest)"
  then have len: "4 \<le> length stream" "le_nat (take 4 stream) \<le> MAX_FRAME" "4 + le_nat (take 4 stream) \<le> length stream"
    and p: "p = take (le_nat (take 4 stream)) (drop 4 stream)" "rest = drop (4 + le_nat (take 4 stream)) stream"
    by (auto simp: read_frame_def Let_def split: if_splits)
  have "length p = le_nat (take 4 stream)" using len p by simp
  moreover have "take 4 stream = le_bytes 4 (le_nat (take 4 stream))" using le_bytes_field [of 4 stream] len by simp
  moreover have "stream = take 4 stream @ take (le_nat (take 4 stream)) (drop 4 stream) @ drop (4 + le_nat (take 4 stream)) stream"
    by (metis add.commute append_take_drop_id drop_drop)
  ultimately show "stream = write_frame p @ rest \<and> length p \<le> MAX_FRAME" using len p by (simp add: write_frame_def)
next
  assume "stream = write_frame p @ rest \<and> length p \<le> MAX_FRAME"
  moreover from this have "le_nat (le_bytes 4 (length p)) = length p" by (intro le_nat_le_bytes_lt) (simp add: MAX_FRAME_def)
  ultimately show "read_frame stream = Ok (p, rest)" by (simp add: read_frame_def write_frame_def Let_def)
qed

lemma channel_open_iff: "channel_open key ctr sealed = Some p \<longleftrightarrow> sealed = channel_seal key ctr p"
  by (simp add: channel_open_def channel_seal_def aead_open_iff)

lemma map_err_eq_Ok [simp]: "map_err f r = Ok x \<longleftrightarrow> r = Ok x"
  by (cases r) simp_all

lemma channel_recv_iff:
  "channel_recv ch stream = Ok (p, rest, ch') \<longleftrightarrow>
    stream = write_frame (channel_seal (recv_key ch) (recv_ctr ch) p) @ rest
    \<and> length (channel_seal (recv_key ch) (recv_ctr ch) p) \<le> MAX_FRAME \<and> ch' = ch\<lparr>recv_ctr := recv_ctr ch + 1\<rparr>"
  by (auto simp: channel_recv_def read_frame_iff channel_open_iff)

lemma counter_nonce_inj: "counter_nonce a = counter_nonce b \<longleftrightarrow> a = b"
proof
  assume "counter_nonce a = counter_nonce b"
  then have "le_bytes 8 (unat a) = le_bytes 8 (unat b)" by (simp add: counter_nonce_def)
  moreover have "unat w < 256 ^ 8" for w :: u64 by (rule less_le_trans [OF unsigned_less]) simp
  ultimately have "unat a = unat b" by (metis le_bytes_inj)
  then show "a = b" by (simp only: word_unat_eq_iff)
qed simp

text \<open>A sequence of messages through a channel.\<close>

fun send_all :: "channel \<Rightarrow> bytes list \<Rightarrow> channel \<times> bytes" where
  "send_all ch [] = (ch, [])"
| "send_all ch (m # ms) = (let (ch1, out) = channel_send ch m; (ch2, outs) = send_all ch1 ms in (ch2, out @ outs))"

fun recv_all :: "nat \<Rightarrow> channel \<Rightarrow> bytes \<Rightarrow> (net_error, bytes list \<times> bytes \<times> channel) result" where
  "recv_all 0 ch stream = Ok ([], stream, ch)"
| "recv_all (Suc n) ch stream =
    rbind (channel_recv ch stream) (\<lambda>(m, rest, ch1). rbind (recv_all n ch1 rest) (\<lambda>(ms, rest', ch2). Ok (m # ms, rest', ch2)))"

lemma length_channel_seal: "length (channel_seal key ctr p) = length p + TAG_LEN"
  by (simp add: channel_seal_def aead_seal_def Let_def)

lemma recv_all_iff:
  assumes "send_key s = recv_key r" "send_ctr s = recv_ctr r"
  shows "recv_all n r stream = Ok (ms, rest, r') \<longleftrightarrow>
    length ms = n \<and> list_all frame_fits ms \<and> stream = snd (send_all s ms) @ rest \<and> r' = r\<lparr>recv_ctr := recv_ctr r + of_nat n\<rparr>"
  using assms
proof (induction n arbitrary: s r stream ms)
  case (Suc n)
  let ?s1 = "s\<lparr>send_ctr := send_ctr s + 1\<rparr>" and ?r1 = "r\<lparr>recv_ctr := recv_ctr r + 1\<rparr>"
  have IH: "recv_all n ?r1 stream' = Ok (ms', rest, r') \<longleftrightarrow>
      length ms' = n \<and> list_all frame_fits ms' \<and> stream' = snd (send_all ?s1 ms') @ rest \<and> r' = ?r1\<lparr>recv_ctr := recv_ctr ?r1 + of_nat n\<rparr>" for stream' ms'
    using Suc.prems by (intro Suc.IH) simp_all
  show ?case
  proof (cases ms)
    case Nil
    then show ?thesis by auto
  next
    case (Cons m ms')
    have "recv_all (Suc n) r stream = Ok (m # ms', rest, r') \<longleftrightarrow>
        (\<exists>mid. channel_recv r stream = Ok (m, mid, ?r1) \<and> recv_all n ?r1 mid = Ok (ms', rest, r'))"
      by (auto simp: channel_recv_iff)
    also have "\<dots> \<longleftrightarrow> frame_fits m \<and> stream = write_frame (channel_seal (recv_key r) (recv_ctr r) m) @ snd (send_all ?s1 ms') @ rest
        \<and> length ms' = n \<and> list_all frame_fits ms' \<and> r' = ?r1\<lparr>recv_ctr := recv_ctr ?r1 + of_nat n\<rparr>"
      by (auto simp: channel_recv_iff IH length_channel_seal frame_fits_def)
    also have "?r1\<lparr>recv_ctr := recv_ctr ?r1 + of_nat n\<rparr> = r\<lparr>recv_ctr := recv_ctr r + of_nat (Suc n)\<rparr>" by (simp add: add.commute add.left_commute)
    also have "write_frame (channel_seal (recv_key r) (recv_ctr r) m) @ snd (send_all ?s1 ms') @ rest = snd (send_all s ms) @ rest"
      using Suc.prems by (simp add: Cons channel_send_def Let_def split_beta)
    finally show ?thesis by (auto simp: Cons)
  qed
qed auto

text \<open>
  C9: the sealed channel delivers exactly what was sent, in order. A receiver whose key and counter match
  those of a sender accepts \<open>n\<close> messages from a stream, whatever the network made of it, exactly when the
  stream begins with the frames that the sender writes for these messages, in this order and from this
  counter on, each within the frame limit; it then has the messages and stands at the counter after them.
  Within \<open>2\<^sup>6\<^sup>4\<close> messages no nonce is used twice.
\<close>

theorem channel_delivers_in_order:
  assumes "send_key s = recv_key r" "send_ctr s = recv_ctr r"
  shows "(recv_all n r stream = Ok (ms, rest, r') \<longleftrightarrow>
      length ms = n \<and> list_all frame_fits ms \<and> stream = snd (send_all s ms) @ rest \<and> r' = r\<lparr>recv_ctr := recv_ctr r + of_nat n\<rparr>)
    \<and> distinct (map (\<lambda>i. counter_nonce (send_ctr s + of_nat i)) [0..<min n (2 ^ 64)])"
proof (rule conjI [OF recv_all_iff [OF assms]])
  have "inj_on (\<lambda>i. send_ctr s + of_nat i) {0..<min n (2 ^ 64)}"
  proof (rule inj_onI)
    fix i j assume ij: "i \<in> {0..<min n (2 ^ 64)}" "j \<in> {0..<min n (2 ^ 64)}" "send_ctr s + of_nat i = send_ctr s + of_nat j"
    then have "(of_nat i :: u64) = of_nat j" by simp
    then have "unat (of_nat i :: u64) = unat (of_nat j :: u64)" by (rule arg_cong)
    then show "i = j" using ij by (simp add: unat_of_nat)
  qed
  then show "distinct (map (\<lambda>i. counter_nonce (send_ctr s + of_nat i)) [0..<min n (2 ^ 64)])"
    by (auto simp: distinct_map inj_on_def counter_nonce_inj)
qed

theorem channel_delivers_in_order_witness:
  "send_key (channel_new [1] True) = recv_key (channel_new [1] False) \<and> send_ctr (channel_new [1] True) = recv_ctr (channel_new [1] False) \<and>
   recv_all 2 (channel_new [1] False) (snd (send_all (channel_new [1] True) [[1, 2], [3]]) @ [4]) =
     Ok ([[1, 2], [3]], [4], (channel_new [1] False)\<lparr>recv_ctr := 2\<rparr>)"
proof -
  have "send_key (channel_new [1] True) = recv_key (channel_new [1] False)" "send_ctr (channel_new [1] True) = recv_ctr (channel_new [1] False)"
    "recv_ctr (channel_new [1] False) = 0"
    by (simp_all add: channel_new_def Let_def)
  with channel_delivers_in_order [of "channel_new [1] True" "channel_new [1] False" 2
      "snd (send_all (channel_new [1] True) [[1, 2], [3]]) @ [4]" "[[1, 2], [3]]" "[4]" "(channel_new [1] False)\<lparr>recv_ctr := 2\<rparr>"]
  show ?thesis by (simp add: frame_fits_def MAX_FRAME_def TAG_LEN_def del: send_all.simps recv_all.simps)
qed

section \<open>Both sides derive the same keys\<close>

lemma length_scalarmult [simp]: "length (scalarmult k u) = 32"
  by (auto simp: scalarmult_def fe_to_bytes_def Let_def split: fe.splits)

lemma hybrid_derive_key_total:
  "hybrid_derive_key dh_e dh_s ss_pq e_c ek e_s ct =
    Some (sponge 136 0x06 (TRANSPORT_LABEL @ dh_e @ dh_s @ ss_pq @ e_c @ ek @ e_s @ ct) 32)"
  using keccak_absorb_absorbed [of 136 "0x06"] squeeze_absorbed [of 136 "0x06"]
  by (simp add: hybrid_derive_key_def new_sha3_256_def absorbed_Nil [symmetric])

text \<open>The secrets \<open>a\<close> and \<open>b\<close> agree: each with the public key of the other gives the same point.\<close>

definition dh_agree :: "bytes \<Rightarrow> bytes \<Rightarrow> bool" where
  "dh_agree a b \<longleftrightarrow> diffie_hellman a (x_public_key b) = diffie_hellman b (x_public_key a)"

text \<open>Two ends of a channel: what one sends the other receives.\<close>

definition mirrored :: "channel \<Rightarrow> channel \<Rightarrow> bool" where
  "mirrored a b \<longleftrightarrow> send_key a = recv_key b \<and> recv_key a = send_key b \<and> send_ctr a = recv_ctr b \<and> recv_ctr a = send_ctr b"

lemma channel_new_mirrored: "mirrored (channel_new secret True) (channel_new secret False)"
  by (simp add: mirrored_def channel_new_def Let_def)

lemma hello_roundtrip:
  "length (ch_e_c h) = 32 \<Longrightarrow> length (ch_ek h) = 1184 \<Longrightarrow> client_hello_from_bytes (client_hello_to_bytes h) = Some h"
  "length (sh_e_s g) = 32 \<Longrightarrow> length (sh_ct g) = 1088 \<Longrightarrow> server_hello_from_bytes (server_hello_to_bytes g) = Some g"
  by (simp_all add: client_hello_from_bytes_def client_hello_to_bytes_def server_hello_from_bytes_def server_hello_to_bytes_def
      CLIENT_HELLO_LEN_def SERVER_HELLO_LEN_def)

lemma read_written: "length p \<le> MAX_FRAME \<Longrightarrow> read_frame (write_frame p @ rest) = Ok (p, rest)"
  by (simp add: read_frame_iff)

text \<open>
  C10: the handshake agrees on a channel. For all seeds, a client and a server that exchange their
  hello frames unchanged end with mirrored channels, whenever the X25519 secrets agree pairwise and the
  noise of the ML-KEM encryption is small: the client accepts the reply exactly when it pins no key or
  the server's own, reports the server's key and whether it was pinned, and both sides consume exactly
  the frames of the handshake. With any other pin the client refuses. Nothing panics; only the rejection
  sampling of the client's key may fail to end.
\<close>

theorem handshake_agrees:
  assumes "length client_secret = 32" "length d = 32" "length z = 32" "length server_secret = 32" "length e_secret = 32" "length m = 32"
    and "dh_agree client_secret e_secret" "dh_agree client_secret server_secret"
  shows "case client_handshake_start client_secret d z of
      None \<Rightarrow> sampling_diverges (fst (the (kem_g (d @ [3]))))
    | Some (state, hello) \<Rightarrow>
        (\<exists>n server reply client. encaps_noise d m = Some n
          \<and> server_handshake server_secret e_secret m (hello @ after) = Some (Ok (server, reply, after))
          \<and> client_handshake_finish state pinned (reply @ after') =
              Some (if pinned \<in> {None, Some (x_public_key server_secret)}
                    then Ok (client, x_public_key server_secret, pinned \<noteq> None, after') else Err Pin_mismatch)
          \<and> (small_noise n \<longrightarrow> mirrored client server))"
proof (cases "keygen_internal d z")
  case None
  then show ?thesis using honest_exchange [OF assms(2,3,6)] by (simp add: client_handshake_start_def client_start_def)
next
  case (Some kp)
  with honest_exchange [OF assms(2,3,6)] obtain ct k n k' where
    x: "length (kp_ek kp) = 1184" "encaps_internal (kp_ek kp) m = Some (ct, k)" "length ct = 1088"
      "encaps_noise d m = Some n" "decapsulate (kp_dk kp) ct = Some k'" "small_noise n \<Longrightarrow> k' = k"
    by auto
  let ?c = "x_public_key client_secret" and ?e = "x_public_key e_secret" and ?s = "x_public_key server_secret"
  let ?hello = "\<lparr>ch_e_c = ?c, ch_ek = kp_ek kp\<rparr>" and ?reply = "\<lparr>sh_e_s = ?e, sh_ct = ct\<rparr>"
  let ?state = "\<lparr>cs_e_secret = client_secret, cs_e_public = ?c, cs_ek = kp_ek kp, cs_dk = kp_dk kp\<rparr>"
  let ?key = "\<lambda>ss. sponge 136 0x06 (TRANSPORT_LABEL @ diffie_hellman client_secret ?e @ diffie_hellman client_secret ?s @ ss @ ?c @ kp_ek kp @ ?e @ ct) 32"
  have pub: "length (x_public_key a) = 32" for a by (simp add: x_public_key_def)
  have start: "client_handshake_start client_secret d z = Some (?state, write_frame (client_hello_to_bytes ?hello))"
    by (simp add: client_handshake_start_def client_start_def Some Let_def)
  have "read_frame (write_frame (client_hello_to_bytes ?hello) @ after) = Ok (client_hello_to_bytes ?hello, after)"
    by (rule read_written) (simp add: client_hello_to_bytes_def pub x(1) MAX_FRAME_def)
  moreover have "server_respond (from_secret server_secret) ?hello e_secret m = Some (?reply, ?key k)"
    using assms(7,8) by (simp add: server_respond_def from_secret_def x(2) hybrid_derive_key_total dh_agree_def Let_def)
  ultimately have srv: "server_handshake server_secret e_secret m (write_frame (client_hello_to_bytes ?hello) @ after) =
      Some (Ok (channel_new (?key k) False, write_frame (?s @ server_hello_to_bytes ?reply), after))"
    by (simp add: server_handshake_def hello_roundtrip pub x(1) from_secret_def Let_def)
  have "read_frame (write_frame (?s @ server_hello_to_bytes ?reply) @ after') = Ok (?s @ server_hello_to_bytes ?reply, after')"
    by (rule read_written) (simp add: server_hello_to_bytes_def pub x(3) MAX_FRAME_def)
  moreover have "client_finish ?state ?reply ?s = Some (?key k')" by (simp add: client_finish_def x(5) hybrid_derive_key_total Let_def)
  ultimately have cl: "client_handshake_finish ?state pinned (write_frame (?s @ server_hello_to_bytes ?reply) @ after') =
      Some (if pinned \<in> {None, Some ?s} then Ok (channel_new (?key k') True, ?s, pinned \<noteq> None, after') else Err Pin_mismatch)"
    using hello_roundtrip(2) [of ?reply] pub x(3)
    by (cases pinned) (simp_all add: client_handshake_finish_def server_hello_to_bytes_def SERVER_HELLO_LEN_def Let_def)
  have "small_noise n \<longrightarrow> mirrored (channel_new (?key k') True) (channel_new (?key k) False)"
    using x(6) channel_new_mirrored by blast
  then show ?thesis unfolding start option.case prod.case using x(4) srv cl by blast
qed

theorem handshake_agrees_witness:
  "dh_agree (replicate 32 7) (replicate 32 7) \<and>
   (case client_handshake_start (replicate 32 7) (replicate 32 1) (replicate 32 2) of
      None \<Rightarrow> sampling_diverges (fst (the (kem_g (replicate 32 1 @ [3]))))
    | Some (state, hello) \<Rightarrow>
        (\<exists>n server reply client. encaps_noise (replicate 32 1) (replicate 32 4) = Some n
          \<and> server_handshake (replicate 32 7) (replicate 32 7) (replicate 32 4) (hello @ [5]) = Some (Ok (server, reply, [5]))
          \<and> client_handshake_finish state None (reply @ []) = Some (Ok (client, x_public_key (replicate 32 7), False, []))
          \<and> (small_noise n \<longrightarrow> mirrored client server)))"
proof -
  have "dh_agree (replicate 32 7) (replicate 32 7)" by (simp add: dh_agree_def)
  with handshake_agrees [of "replicate 32 7" "replicate 32 1" "replicate 32 2" "replicate 32 7" "replicate 32 7" "replicate 32 4" "[5]" None "[]"]
  show ?thesis by (auto split: option.splits)
qed

end
