(* ===== verification/Cli.thy ===== *)
theory Cli
  imports Frontend Signed_Root Handshake
begin

text \<open>
  The command line, \<open>crates/ciphra/src/main.rs\<close>, and the arguments and identity file of
  \<open>crates/ciphra-server/src/main.rs\<close>. A program's output is the list of lines it prints on either stream; the usage text,
  the banner and the prompts are left out. Lines are read one by one; the end of the list is the end of the input.
  \<open>None\<close> is a loop of ML-DSA that does not end.
\<close>

datatype line = Out string | Erring string | Noted import_note

datatype exit_code = Success | Failure

definition em_dash :: string where "em_dash = [CHR 0xE2, CHR 0x80, CHR 0x94]"
definition ellipsis :: string where "ellipsis = [CHR 0xE2, CHR 0x80, CHR 0xA6]"

section \<open>Arguments\<close>

record cli_options =
  co_data_dir :: string
  co_execute :: "string list"
  co_rotate :: bool
  co_backup :: "string option"
  co_restore :: "string option"
  co_remote :: "string option"
  co_server_key :: "string option"
  co_import_mysql :: "string option"

definition default_options :: cli_options where
  "default_options = \<lparr>co_data_dir = ''./ciphra-data'', co_execute = [], co_rotate = False, co_backup = None, co_restore = None,
     co_remote = None, co_server_key = None, co_import_mysql = None\<rparr>"

datatype 'a parsed_args = Options 'a | Show_help | Show_version | Bad_args string

text \<open>The argument of an option, or the error that it is missing.\<close>

definition with_value :: "string list \<Rightarrow> string \<Rightarrow> (string \<Rightarrow> string list \<Rightarrow> 'a parsed_args) \<Rightarrow> 'a parsed_args" where
  "with_value args missing f = (case args of [] \<Rightarrow> Bad_args missing | v # rest \<Rightarrow> f v rest)"

lemma with_value_cong [fundef_cong]:
  "args = args' \<Longrightarrow> missing = missing' \<Longrightarrow> (\<And>v rest. args' = v # rest \<Longrightarrow> f v rest = g v rest) \<Longrightarrow> with_value args missing f = with_value args' missing' g"
  by (cases args') (simp_all add: with_value_def)

fun parse_args :: "cli_options \<Rightarrow> string list \<Rightarrow> cli_options parsed_args" where
  "parse_args opts [] = Options opts"
| "parse_args opts (arg # args) =
    (if arg = ''--data'' \<or> arg = ''-d'' then
       with_value args ''--data requires a directory argument'' (\<lambda>v rest. parse_args (opts\<lparr>co_data_dir := v\<rparr>) rest)
     else if arg = ''--execute'' \<or> arg = ''-e'' then
       with_value args ''-e requires a SQL argument'' (\<lambda>v rest. parse_args (opts\<lparr>co_execute := co_execute opts @ [v]\<rparr>) rest)
     else if arg = ''--rotate-passphrase'' then parse_args (opts\<lparr>co_rotate := True\<rparr>) args
     else if arg = ''--backup'' then
       with_value args ''--backup requires a file argument'' (\<lambda>v rest. parse_args (opts\<lparr>co_backup := Some v\<rparr>) rest)
     else if arg = ''--restore'' then
       with_value args ''--restore requires a file argument'' (\<lambda>v rest. parse_args (opts\<lparr>co_restore := Some v\<rparr>) rest)
     else if arg = ''--remote'' then
       with_value args ''--remote requires host:port'' (\<lambda>v rest. parse_args (opts\<lparr>co_remote := Some v\<rparr>) rest)
     else if arg = ''--server-key'' then
       with_value args ''--server-key requires a hex key'' (\<lambda>v rest. parse_args (opts\<lparr>co_server_key := Some v\<rparr>) rest)
     else if arg = ''--import-mysql'' then
       with_value args ''--import-mysql requires a dump file path'' (\<lambda>v rest. parse_args (opts\<lparr>co_import_mysql := Some v\<rparr>) rest)
     else if arg = ''--help'' \<or> arg = ''-h'' then Show_help
     else if arg = ''--version'' \<or> arg = ''-V'' then Show_version
     else Bad_args (''unknown argument: '' @ arg @ '' (try --help)''))"

text \<open>The environment variable, or the development passphrase with a warning.\<close>

definition choose_passphrase :: "string option \<Rightarrow> string \<times> line list" where
  "choose_passphrase var =
    (case var of
       Some p \<Rightarrow> if p \<noteq> [] then (p, []) else (''ciphra-dev-only'',
           [Erring ''warning: CIPHRA_PASSPHRASE is not set; using an INSECURE development passphrase''])
     | None \<Rightarrow> (''ciphra-dev-only'', [Erring ''warning: CIPHRA_PASSPHRASE is not set; using an INSECURE development passphrase'']))"

fun cli_key_error :: "key_error \<Rightarrow> string option" where
  "cli_key_error Key_length = Some ''--server-key must be 64 hex characters (32 bytes)''"
| "cli_key_error Key_digits = Some ''--server-key is not valid hex''"
| "cli_key_error Key_panic = None"

text \<open>
  The order in which \<open>run\<close> decides: what is opened and what is then done with it. A message is an error exit; the
  missing new passphrase of a rotation is found only after the database is open.
\<close>

datatype open_mode = Restoring string | Opening_local | Opening_remote string "bytes option"

datatype cli_action = Restored | Back_up string | Rotate "string option" | Import string | Execute_all "string list" | Repl

datatype cli_plan = Plan open_mode cli_action | Plan_error string | Plan_panic

definition plan_action :: "cli_options \<Rightarrow> string option \<Rightarrow> cli_action" where
  "plan_action opts new_passphrase =
    (case co_backup opts of
       Some path \<Rightarrow> Back_up path
     | None \<Rightarrow>
         if co_rotate opts then Rotate (case new_passphrase of Some p \<Rightarrow> if p \<noteq> [] then Some p else None | None \<Rightarrow> None)
         else case co_import_mysql opts of
                Some file \<Rightarrow> Import file
              | None \<Rightarrow> if co_execute opts \<noteq> [] then Execute_all (co_execute opts) else Repl)"

definition plan_run :: "cli_options \<Rightarrow> string option \<Rightarrow> cli_plan" where
  "plan_run opts new_passphrase =
    (if co_remote opts \<noteq> None \<and> (co_restore opts \<noteq> None \<or> co_rotate opts) then
       Plan_error ''--restore and --rotate-passphrase operate on the database file; run them on the host that owns it''
     else case co_restore opts of
            Some snapshot \<Rightarrow> Plan (Restoring snapshot) Restored
          | None \<Rightarrow>
              (let open_it = (\<lambda>pinned. Plan (case co_remote opts of Some addr \<Rightarrow> Opening_remote addr pinned | None \<Rightarrow> Opening_local)
                     (plan_action opts new_passphrase)) in
               case co_server_key opts of
                 None \<Rightarrow> open_it None
               | Some hex_key \<Rightarrow>
                   (case parse_key (trim hex_key) of
                      Ok k \<Rightarrow> open_it (Some k)
                    | Err e \<Rightarrow> (case cli_key_error e of Some m \<Rightarrow> Plan_error m | None \<Rightarrow> Plan_panic))))"

text \<open>The server's arguments and its identity: the key file, or a fresh secret that is written to it.\<close>

record server_options =
  so_data_dir :: string
  so_listen :: string
  so_follow :: "string option"
  so_server_key :: "bytes option"

definition default_server_options :: server_options where
  "default_server_options = \<lparr>so_data_dir = ''./ciphra-data'', so_listen = ''127.0.0.1:5077'', so_follow = None, so_server_key = None\<rparr>"

fun server_key_error :: "key_error \<Rightarrow> string" where
  "server_key_error Key_length = ''server key must be 64 hex characters (32 bytes)''"
| "server_key_error Key_digits = ''server key must be valid hex''"
| "server_key_error Key_panic = ''(panic)''"

fun parse_server_args :: "server_options \<Rightarrow> string list \<Rightarrow> server_options parsed_args" where
  "parse_server_args opts [] = Options opts"
| "parse_server_args opts (arg # args) =
    (if arg = ''--data'' \<or> arg = ''-d'' then
       with_value args ''--data requires a directory argument'' (\<lambda>v rest. parse_server_args (opts\<lparr>so_data_dir := v\<rparr>) rest)
     else if arg = ''--listen'' \<or> arg = ''-l'' then
       with_value args ''--listen requires an address argument'' (\<lambda>v rest. parse_server_args (opts\<lparr>so_listen := v\<rparr>) rest)
     else if arg = ''--follow'' \<or> arg = ''-f'' then
       with_value args ''--follow requires a leader address'' (\<lambda>v rest. parse_server_args (opts\<lparr>so_follow := Some v\<rparr>) rest)
     else if arg = ''--server-key'' \<or> arg = ''-k'' then
       with_value args ''--server-key requires a 64-hex-char key'' (\<lambda>v rest.
         case parse_key v of
           Ok k \<Rightarrow> parse_server_args (opts\<lparr>so_server_key := Some k\<rparr>) rest
         | Err e \<Rightarrow> Bad_args (server_key_error e))
     else if arg = ''--help'' \<or> arg = ''-h'' then Show_help
     else Bad_args (''unknown argument: '' @ arg @ '' (try --help)''))"

datatype key_file = No_key_file | Unreadable_key_file | Key_file bytes

text \<open>The secret, the public key and the file afterwards; \<open>written\<close> is whether the write of a new file succeeds.\<close>

definition load_or_create_identity :: "string \<Rightarrow> key_file \<Rightarrow> bytes \<Rightarrow> bool \<Rightarrow> (string, bytes \<times> bytes \<times> bytes) result" where
  "load_or_create_identity io_text file fresh written =
    (let done = (\<lambda>secret. Ok (secret, si_public (from_secret secret), secret)) in
     case file of
       Key_file secret \<Rightarrow> if length secret = 32 then done secret else Err ''ciphra.serverkey is not a 32-byte key''
     | Unreadable_key_file \<Rightarrow> Err io_text
     | No_key_file \<Rightarrow> if written then done fresh else Err io_text)"

section \<open>Printing results\<close>

definition plural :: "nat \<Rightarrow> string" where "plural n = (if n = 1 then '''' else ''s'')"

text \<open>\<open>{cell:<width$}\<close> counts characters, \<open>String::len\<close> counts bytes.\<close>

definition pad :: "nat \<Rightarrow> string \<Rightarrow> string" where
  "pad width s = s @ replicate (width - length (utf8_chars s)) CHR '' ''"

definition print_row :: "string list \<Rightarrow> nat list \<Rightarrow> string" where
  "print_row cells widths = concat (map (\<lambda>(s, width). ''| '' @ pad width s @ '' '') (zip cells widths)) @ ''|''"

definition widen :: "nat list \<Rightarrow> string list \<Rightarrow> nat list" where
  "widen widths row = map (\<lambda>(width, s). max width (length s)) (zip widths row) @ drop (length row) widths"

definition separator :: "nat list \<Rightarrow> string" where
  "separator widths = concat (map (\<lambda>w. ''+'' @ replicate (w + 2) CHR ''-'') widths) @ ''+''"

definition print_table :: "display \<Rightarrow> string list \<Rightarrow> val list list \<Rightarrow> line list" where
  "print_table d columns rows =
    (let cells = map (map (show_value d)) rows;
         widths = foldl widen (map length columns) cells
     in map Out ([separator widths, print_row columns widths, separator widths] @ map (\<lambda>row. print_row row widths) cells
          @ [separator widths, show_nat (length rows) @ '' row'' @ plural (length rows)]))"

fun print_result :: "display \<Rightarrow> query_result \<Rightarrow> line list" where
  "print_result d (Created name) = [Out (''created table '' @ name)]"
| "print_result d (Dropped name) = [Out (''dropped table '' @ name)]"
| "print_result d (Index_created table column rng) =
    [Out (''created '' @ (if rng then ''range index'' else ''index'') @ '' on '' @ table @ '' ('' @ column @ '')'')]"
| "print_result d (Index_dropped table column rng) =
    [Out (''dropped '' @ (if rng then ''range index'' else ''index'') @ '' on '' @ table @ '' ('' @ column @ '')'')]"
| "print_result d (Inserted n) = [Out (''inserted '' @ show_nat n @ '' row'' @ plural n)]"
| "print_result d (Updated n) = [Out (''updated '' @ show_nat n @ '' row'' @ plural n)]"
| "print_result d (Deleted n) = [Out (''deleted '' @ show_nat n @ '' row'' @ plural n)]"
| "print_result d (Rows columns rows) = print_table d columns rows"
| "print_result d Begun = [Out ''BEGIN'']"
| "print_result d Committed = [Out ''COMMIT'']"
| "print_result d Rolled_back = [Out ''ROLLBACK'']"

text \<open>\<open>None\<close> is a panic.\<close>

definition run_sql :: "display \<Rightarrow> string \<Rightarrow> (nat \<Rightarrow> world) \<Rightarrow> string \<Rightarrow> engine \<Rightarrow> engine \<times> (string, line list) result option" where
  "run_sql d io_text ws sql e =
    (case execute d ws sql e of
       (e', Err err) \<Rightarrow> (e', if err = Panicked then None else Some (Err (show_error io_text err)))
     | (e', Ok results) \<Rightarrow> (e', Some (Ok (concat (map (print_result d) results)))))"

section \<open>Importing a dump\<close>

record import_report =
  ir_applied :: nat
  ir_failed :: nat
  ir_rows :: nat

fun inserted_rows :: "query_result \<Rightarrow> nat" where
  "inserted_rows (Inserted n) = n"
| "inserted_rows _ = 0"

text \<open>
  The loop over the statements; statement \<open>i\<close> runs in the worlds \<open>ws i\<close>. It goes on after errors and stops at a panic:
  the last component is whether the loop got to the end.
\<close>

fun import_statements ::
  "display \<Rightarrow> string \<Rightarrow> (nat \<Rightarrow> nat \<Rightarrow> world) \<Rightarrow> nat \<Rightarrow> string list \<Rightarrow> engine \<Rightarrow> import_report \<Rightarrow> engine \<times> import_report \<times> line list \<times> bool" where
  "import_statements d io_text ws i [] e report = (e, report, [], True)"
| "import_statements d io_text ws i (stmt # rest) e report =
    (case execute d (ws i) stmt e of
       (e', Ok results) \<Rightarrow>
         import_statements d io_text ws (Suc i) rest e'
           (report\<lparr>ir_applied := ir_applied report + 1, ir_rows := ir_rows report + sum_list (map inserted_rows results)\<rparr>)
     | (e', Err err) \<Rightarrow>
         if err = Panicked then (e', report, [], False)
         else case import_statements d io_text ws (Suc i) rest e' (report\<lparr>ir_failed := ir_failed report + 1\<rparr>) of
                (e'', report', lines, whole) \<Rightarrow>
                  (e'', report', [Erring (''import: statement failed ('' @ show_error io_text err @ ''):''),
                     Erring (''  '' @ concat (take 70 (utf8_chars stmt)) @ ellipsis)] @ lines, whole))"

text \<open>\<open>dump\<close> is the text of the file, or nothing if it cannot be read. \<open>None\<close> is a panic.\<close>

definition import_mysql_dump ::
  "display \<Rightarrow> string \<Rightarrow> (nat \<Rightarrow> nat \<Rightarrow> world) \<Rightarrow> string \<Rightarrow> string option \<Rightarrow> engine \<Rightarrow> engine \<times> (line list \<times> (string, exit_code) result) option" where
  "import_mysql_dump d io_text ws path dump e =
    (case dump of
       None \<Rightarrow> (e, Some ([], Err (''cannot read '' @ path @ '': '' @ io_text)))
     | Some text \<Rightarrow>
         (case translate d text of
            None \<Rightarrow> (e, None)
          | Some migration \<Rightarrow>
              (case import_statements d io_text ws 0 (mg_statements migration) e \<lparr>ir_applied = 0, ir_failed = 0, ir_rows = 0\<rparr> of
                 (e', report, lines, whole) \<Rightarrow>
                   (e', if \<not> whole then None
                        else Some (lines @ map Noted (mg_notes migration)
                          @ [Out (''imported from '' @ path @ '': '' @ show_nat (ir_applied report) @ '' statement(s) applied ('' @ show_nat (ir_rows report)
                              @ '' row(s)), '' @ show_nat (ir_failed report) @ '' failed, '' @ show_nat (length (mg_notes migration)) @ '' note(s)'')],
                          Ok (if 0 < ir_failed report then Failure else Success))))))"

section \<open>The interactive loop\<close>

definition parse_u64 :: "string \<Rightarrow> u64 option" where
  "parse_u64 s =
    (let digits = (if s \<noteq> [] \<and> hd s = CHR ''+'' then tl s else s) in
     if digits \<noteq> [] \<and> list_all is_digit digits \<and> text_nat digits < 2 ^ 64 then Some (word_of_nat (text_nat digits)) else None)"

definition show_u64 :: "u64 \<Rightarrow> string" where "show_u64 n = show_nat (unat n)"

definition shown :: "string \<Rightarrow> ('a \<Rightarrow> line list) \<Rightarrow> 'a res \<Rightarrow> line list" where
  "shown io_text f r = (case r of Ok x \<Rightarrow> f x | Err err \<Rightarrow> [Erring (show_error io_text err)])"

definition audit_head_lines :: "engine \<Rightarrow> line list" where
  "audit_head_lines e = (case audit_root e of (seq, root) \<Rightarrow>
    [Out (''audit head: seq '' @ show_u64 seq @ '', root '' @ hex root), Out ''(record these externally; compare later to detect rollback)''])"

definition signed_lines :: "signed_audit_root \<Rightarrow> line list" where
  "signed_lines sr =
    [Out ''audit root signature (ML-DSA-65, post-quantum):'', Out (''  seq:       '' @ show_u64 (sar_seq sr)), Out (''  root:      '' @ hex (sar_root sr)),
     Out (''  merkleroot:'' @ hex (sar_merkle_root sr)), Out (''  publickey: '' @ hex (sar_public_key sr)), Out (''  signature: '' @ hex (sar_signature sr)),
     Out (''(anyone with the public key can verify these offline '' @ em_dash @ '' no passphrase needed)'')]"

definition proof_lines :: "u64 \<Rightarrow> audit_entry \<times> merkle_proof \<times> bytes \<Rightarrow> line list" where
  "proof_lines index r = (case r of (entry, p, root) \<Rightarrow>
    [Out (''inclusion proof for audit entry '' @ show_u64 index @ '':''), Out (''  kind:      '' @ show_nat (unat (ae_kind entry))),
     Out (''  total:     '' @ show_u64 (mp_total p)), Out (''  merkleroot:'' @ hex root), Out (''  path ('' @ show_nat (length (mp_siblings p)) @ '' siblings):'')]
    @ map (\<lambda>sib. Out (''    '' @ hex sib)) (mp_siblings p)
    @ [Out (''(verifies against the signed merkle root '' @ em_dash @ '' proves this statement is in history)'')])"

definition audit_command :: "string \<Rightarrow> world \<Rightarrow> engine \<Rightarrow> string list \<Rightarrow> line list option" where
  "audit_command io_text w e parts =
    (case parts of
       [] \<Rightarrow> Some (audit_head_lines e)
     | sub # operands \<Rightarrow>
         if sub = ''root'' then Some (audit_head_lines e)
         else if sub = ''verify'' then
           Some (shown io_text (\<lambda>entries.
             [Out (''audit chain OK: '' @ show_nat (length entries) @ '' entries verified, root '' @ hex (snd (audit_root e)))]) (audit_verify w e))
         else if sub = ''pubkey'' then
           map_option (\<lambda>pk. [Out ''audit signing public key (ML-DSA-65, publish once):'', Out (hex pk)]) (audit_signing_public_key e)
         else if sub = ''sign'' then map_option (shown io_text signed_lines) (sign_audit_root w e)
         else if sub = ''prove'' then
           (case (case operands of [] \<Rightarrow> None | n # _ \<Rightarrow> parse_u64 n) of
              Some index \<Rightarrow> Some (shown io_text (proof_lines index) (audit_inclusion_proof w e index))
            | None \<Rightarrow> Some [Erring ''usage: .audit prove <entry-index>''])
         else Some [Erring (''unknown subcommand: .audit '' @ sub @ '' (root|verify|sign|pubkey|prove)'')])"

definition advice_lines :: "u64 \<Rightarrow> index_advice list \<Rightarrow> line list" where
  "advice_lines seen advice =
    (if advice = [] then
       [Out (''no index suggestions (from '' @ show_u64 seen @ '' predicate quer'' @ (if seen = 1 then ''y'' else ''ies'') @ '' this session)'')]
     else Out (''suggested indexes (from '' @ show_u64 seen @ '' queries this session):'') # map (\<lambda>a.
       Out (''  '' @ ia_statement a @ ''   -- '' @ show_u64 (ia_predicates a) @ (if ia_range a then '' range-scans'' else '' eq-scans'')
         @ '', ~'' @ show_u64 (ia_scan_rows a) @ '' rows scanned'')) advice)"

fun type_name :: "data_type \<Rightarrow> string" where
  "type_name DInt = ''INT''"
| "type_name DReal = ''REAL''"
| "type_name DText = ''TEXT''"
| "type_name (DVector dim) = ''VECTOR('' @ show_nat (unat dim) @ '')''"

definition column_line :: "column_def \<Rightarrow> line" where
  "column_line col = Out (cd_name col @ '' '' @ type_name (cd_ty col) @ (if cd_primary_key col then '' PRIMARY KEY'' else '''')
    @ (if cd_encrypted col then '' ENCRYPTED'' else '''') @ (if cd_indexed col then '' INDEXED'' else '''')
    @ (if cd_range_indexed col then '' RANGE-INDEXED'' else ''''))"

text \<open>A dot command: the engine after it, the output (\<open>help\<close> is the fixed help text), and whether the loop goes on.\<close>

definition meta_command :: "string \<Rightarrow> line list \<Rightarrow> world \<Rightarrow> engine \<Rightarrow> string \<Rightarrow> (engine \<times> line list \<times> bool) option" where
  "meta_command io_text help w e command =
    (case split_whitespace command of
       [] \<Rightarrow> Some (e, [Erring ''unknown command:  (try .help)''], True)
     | name # parts \<Rightarrow>
         if name = ''.exit'' \<or> name = ''.quit'' then Some (e, [], False)
         else if name = ''.help'' then Some (e, help, True)
         else if name = ''.audit'' then map_option (\<lambda>lines. (e, lines, True)) (audit_command io_text w e parts)
         else if name = ''.advise'' then
           (case parts of
              [] \<Rightarrow> Some (e, shown io_text (advice_lines (advisor_query_count e)) (advise w e), True)
            | sub # _ \<Rightarrow>
                if sub = ''reset'' then Some (advisor_reset e, [Out ''index advisor telemetry cleared''], True)
                else Some (e, [Erring (''unknown subcommand: .advise '' @ sub @ '' (reset)'')], True))
         else if name = ''.tables'' then
           Some (e, shown io_text (\<lambda>ts. if ts = [] then [Out ''(no tables)''] else map Out ts) (tables w e), True)
         else if name = ''.schema'' then
           (case parts of
              [] \<Rightarrow> Some (e, [Erring ''usage: .schema <table>''], True)
            | table # _ \<Rightarrow>
                Some (e, shown io_text (\<lambda>found.
                  case found of
                    None \<Rightarrow> [Erring (''no such table: '' @ debug_str table)]
                  | Some sch \<Rightarrow> map column_line (ts_columns sch)) (schema w e table), True))
         else Some (e, [Erring (''unknown command: '' @ name @ '' (try .help)'')], True))"

text \<open>What one line of input makes the loop do, given the text that is waiting.\<close>

datatype repl_action = Command string | Wait string | Blank string | Statement_text string

definition repl_action :: "bool \<Rightarrow> string \<Rightarrow> string \<Rightarrow> repl_action" where
  "repl_action interactive buffer l =
    (let trimmed = trim l in
     if buffer = [] \<and> starts_with trimmed ''.'' then Command trimmed
     else
       let sql = buffer @ l in
       if (trimmed \<noteq> [] \<and> last trimmed = CHR '';'') \<or> (interactive \<and> trimmed = []) then
         (if trim sql = [] then Blank sql else Statement_text sql)
       else Wait sql)"

text \<open>The loop from line \<open>i\<close> on; a panic ends the program.\<close>

fun repl :: "bool \<Rightarrow> display \<Rightarrow> string \<Rightarrow> line list \<Rightarrow> (nat \<Rightarrow> nat \<Rightarrow> world) \<Rightarrow> nat \<Rightarrow> string \<Rightarrow> string list \<Rightarrow> engine \<Rightarrow> (engine \<times> line list) option" where
  "repl interactive d io_text help ws i buffer [] e = Some (e, [])"
| "repl interactive d io_text help ws i buffer (l # ls) e =
    (case repl_action interactive buffer l of
       Command command \<Rightarrow>
         Option.bind (meta_command io_text help (ws i 0) e command) (\<lambda>(e', lines, go_on).
           if go_on then map_option (apsnd (append lines)) (repl interactive d io_text help ws (Suc i) buffer ls e')
           else Some (e', lines))
     | Wait sql \<Rightarrow> repl interactive d io_text help ws (Suc i) sql ls e
     | Blank sql \<Rightarrow> repl interactive d io_text help ws (Suc i) [] ls e
     | Statement_text sql \<Rightarrow>
         (case run_sql d io_text (ws i) sql e of
            (e', None) \<Rightarrow> Some (e', [])
          | (e', Some r) \<Rightarrow> map_option (apsnd (append (case r of Ok lines \<Rightarrow> lines | Err message \<Rightarrow> [Erring message])))
              (repl interactive d io_text help ws (Suc i) [] ls e')))"

section \<open>An import extends the history\<close>

lemma data_statement_plain: "data_statement st \<Longrightarrow> \<not> transactional st"
  by (cases st) (simp_all add: transactional_def)

text \<open>One text of one statement, or one that does not parse.\<close>

lemma execute_single:
  assumes "parse_statements d sql = Ok [st]" "execute d ws sql e = (e', r)"
  obtains r' where "execute_statement (ws 0) st e = (e', r')"
  using assms by (cases "execute_statement (ws 0) st e"; cases "snd (execute_statement (ws 0) st e)") (auto simp: execute_def)

lemma data_text_log:
  assumes "audit_log e es" "length es + 1 < 2 ^ 64" "\<And>j. nonces_ok (ws j)"
    and "(\<exists>st. parse_statements d sql = Ok [st] \<and> data_statement st) \<or> (\<exists>err. parse_statements d sql = Err err)"
    and "execute d ws sql e = (e', r)"
  shows "\<exists>es'. audit_log e' es' \<and> prefix es es' \<and> length es' \<le> length es + 1"
proof (cases "parse_statements d sql")
  case (Err err)
  then show ?thesis using assms(1,5) by (auto simp: execute_def intro!: exI [of _ es])
next
  case (Ok sts)
  then obtain st where st: "parse_statements d sql = Ok [st]" "data_statement st" using assms(4) by auto
  obtain r' where "execute_statement (ws 0) st e = (e', r')" using execute_single [OF st(1) assms(5)] .
  from statement_log [OF assms(1,2,3) data_statement_plain [OF st(2)] this] show ?thesis
    by (auto intro: exI [of _ es] exI [of _ "es @ _"])
qed

lemma import_log:
  assumes "audit_log e es" "length es + length stmts < 2 ^ 64" "\<And>i j. nonces_ok (ws i j)"
    and "\<And>s. s \<in> set stmts \<Longrightarrow> (\<exists>st. parse_statements d s = Ok [st] \<and> data_statement st) \<or> (\<exists>err. parse_statements d s = Err err)"
    and "import_statements d io_text ws i stmts e report = (e', report', lines, whole)"
  shows "(\<exists>es'. audit_log e' es' \<and> prefix es es' \<and> length es' \<le> length es + length stmts) \<and>
    (whole \<longrightarrow> ir_applied report' + ir_failed report' = ir_applied report + ir_failed report + length stmts)"
  using assms(1,2,4,5)
proof (induction stmts arbitrary: i e es report lines)
  case Nil
  then show ?case by (auto intro!: exI [of _ es])
next
  case (Cons s stmts)
  obtain e1 r where ex: "execute d (ws i) s e = (e1, r)" by fastforce
  obtain es1 where es1: "audit_log e1 es1" "prefix es es1" "length es1 \<le> length es + 1"
    using data_text_log [OF Cons.prems(1) _ assms(3) _ ex] Cons.prems(2,3) by auto
  have bound: "length es1 + length stmts < 2 ^ 64" using es1(3) Cons.prems(2) by simp
  note IH = Cons.IH [OF es1(1) bound Cons.prems(3) [OF list.set_intros(2)]]
  have extend: "(\<exists>es'. audit_log e' es' \<and> prefix es1 es' \<and> length es' \<le> length es1 + length stmts) \<Longrightarrow>
      \<exists>es'. audit_log e' es' \<and> prefix es es' \<and> length es' \<le> length es + length (s # stmts)"
    using es1(2,3) by (auto dest: prefix_order.trans)
  show ?case
  proof (cases "r = Err Panicked")
    case True
    then show ?thesis using Cons.prems(4) ex es1 by (auto intro!: exI [of _ es1])
  next
    case False
    then obtain report1 lines1 where "import_statements d io_text ws (Suc i) stmts e1 report1 = (e', report', lines1, whole)"
      and "ir_applied report1 + ir_failed report1 = ir_applied report + ir_failed report + 1"
      using Cons.prems(4) ex by (cases r) (auto split: prod.splits)
    with IH [OF _ this(1)] extend show ?thesis by auto
  qed
qed

text \<open>
  C23: importing a dump cannot rewrite history. Whatever dump is loaded into a local database, under any outcome of its
  writes, the audit chain afterwards verifies and extends the chain before by at most one entry for each statement;
  and unless the import stops at a panic, every statement is counted as applied or failed. The formatting of floats by
  the standard library is a hypothesis, as in the translation of dumps.
\<close>

theorem import_extends_history:
  assumes "prints_decimal d" "translate d dump = Some m" "audit_log e es" "length es + length (mg_statements m) < 2 ^ 64"
    and "\<And>i j. nonces_ok (ws i j)"
  shows "case import_statements d io_text ws 0 (mg_statements m) e \<lparr>ir_applied = 0, ir_failed = 0, ir_rows = 0\<rparr> of
    (e', report, lines, whole) \<Rightarrow>
      fst (import_mysql_dump d io_text ws path (Some dump) e) = e' \<and>
      (\<exists>es'. audit_verify w e' = Ok es' \<and> prefix es es' \<and> length es' \<le> length es + length (mg_statements m)) \<and>
      (whole \<longrightarrow> ir_applied report + ir_failed report = length (mg_statements m))"
proof -
  obtain e' report lines whole where run:
      "import_statements d io_text ws 0 (mg_statements m) e \<lparr>ir_applied = 0, ir_failed = 0, ir_rows = 0\<rparr> = (e', report, lines, whole)"
    by (metis prod_cases4)
  have "(\<exists>st. parse_statements d s = Ok [st] \<and> data_statement st) \<or> (\<exists>err. parse_statements d s = Err err)"
    if "s \<in> set (mg_statements m)" for s
    using reads_statements [OF reads_emitted [OF translate_emitted [OF assms(2,1) that]]] by blast
  from import_log [OF assms(3,4,5) this run] show ?thesis
    using run assms(2) audit_log_verify by (auto simp: import_mysql_dump_def)
qed

theorem import_extends_history_witness:
  "prints_decimal sample_display \<and> translate sample_display hostile_dump =
     Some \<lparr>mg_statements = [''INSERT INTO t VALUES (1, '' @ ciphra_string (''a'' @ [quote] @ ''); DROP TABLE t'') @ '')''], mg_notes = []\<rparr> \<and>
   (\<exists>es'. audit_verify (demo_world Io_ok) (fst (import_mysql_dump sample_display [] (\<lambda>_ _. demo_world Io_ok) ''dump.sql'' (Some hostile_dump) demo_engine)) = Ok es' \<and>
     length es' \<le> 1)"
proof -
  have "length ([] :: audit_entry list) + length (mg_statements \<lparr>mg_statements =
      [''INSERT INTO t VALUES (1, '' @ ciphra_string (''a'' @ [quote] @ ''); DROP TABLE t'') @ '')''], mg_notes = []\<rparr>) < 2 ^ 64"
    by simp
  from import_extends_history [OF hostile_dump_translated demo_log(1) this, where ws = "\<lambda>_ _. demo_world Io_ok" and io_text = "[]"
      and w = "demo_world Io_ok" and path = "''dump.sql''"] demo_nonces hostile_dump_translated
  show ?thesis by (auto split: prod.splits simp del: import_statements.simps)
qed

section \<open>Tables line up\<close>

text \<open>Cutting text into characters goes through the pieces it is made of, each of them well-formed.\<close>

lemma valid_first:
  assumes "utf8_valid (as_bytes (c # s))"
  shows "\<exists>k. 0 < k \<and> k \<le> length (c # s) \<and> (\<forall>b. first_char ((c # s) @ b) = take k (c # s)) \<and> utf8_valid (as_bytes (drop k (c # s)))"
proof -
  define n where "n = code c"
  have bytes: "(of_char c :: byte) < w \<longleftrightarrow> n < unat w" "w \<le> (of_char c :: byte) \<longleftrightarrow> unat w \<le> n" "(of_char c :: byte) \<le> w \<longleftrightarrow> n \<le> unat w" for w
    by (simp_all add: n_def code_def word_less_nat_alt word_le_nat_alt unat_of_char)
  have first: "first_char ((c # s) @ b) = take (if n < 0x80 then 1 else if n < 0xE0 then 2 else if n < 0xF0 then 3 else 4) (c # s @ b)" for b
    by (simp add: first_char_def n_def Let_def)
  have valid: "utf8_valid (of_char c # as_bytes s)" using assms by (simp add: as_bytes_def)
  note split_valid = valid [unfolded utf8_valid.simps(2) bytes, simplified]
  consider "n < 0x80" | "\<not> n < 0x80" "n < 0xE0" | "\<not> n < 0xE0" "n < 0xF0" | "\<not> n < 0xF0" by linarith
  then show ?thesis
  proof cases
    case 1
    then show ?thesis unfolding first using split_valid by (intro exI [of _ 1]) simp
  next
    case 2
    with split_valid obtain x r where "s = x # r" "utf8_valid (as_bytes r)" by (cases s) (auto simp: as_bytes_def split: if_splits)
    with 2 show ?thesis unfolding first by (intro exI [of _ 2]) simp
  next
    case 3
    with split_valid obtain x y r where "s = x # y # r" "utf8_valid (as_bytes r)"
      by (cases s; cases "tl s") (auto simp: as_bytes_def split: if_splits)
    with 3 show ?thesis unfolding first by (intro exI [of _ 3]) simp
  next
    case 4
    with split_valid obtain x y z r where "s = x # y # z # r" "utf8_valid (as_bytes r)"
      by (cases s; cases "tl s"; cases "tl (tl s)") (auto simp: as_bytes_def split: if_splits)
    with 4 show ?thesis unfolding first by (intro exI [of _ 4]) simp
  qed
qed

lemma utf8_chars_append: "utf8_valid (as_bytes a) \<Longrightarrow> utf8_chars (a @ b) = utf8_chars a @ utf8_chars b"
proof (induction a rule: length_induct)
  case (1 a)
  show ?case
  proof (cases a)
    case (Cons c s)
    obtain k where k: "0 < k" "k \<le> length (c # s)" "\<And>b. first_char ((c # s) @ b) = take k (c # s)" "utf8_valid (as_bytes (drop k (c # s)))"
      using valid_first [of c s] 1(2) Cons by auto
    have "utf8_chars (drop k (c # s) @ b) = utf8_chars (drop k (c # s)) @ utf8_chars b" using 1(1) k Cons by simp
    moreover have "utf8_chars (c # (s @ b)) = take k (c # s) # utf8_chars (drop k (c # s @ b))" using k(2) k(3) [of b] by (simp add: min_def)
    moreover have "utf8_chars (c # s) = take k (c # s) # utf8_chars (drop k (c # s))" using k(2) k(3) [of "[]"] by (simp add: min_def)
    moreover have "drop k (c # s @ b) = drop k (c # s) @ b" using k(2) by (cases k) simp_all
    ultimately show ?thesis by (simp add: Cons del: utf8_chars.simps)
  qed simp
qed

lemma utf8_chars_concat: "(\<And>s. s \<in> set ss \<Longrightarrow> utf8_valid (as_bytes s)) \<Longrightarrow> length (utf8_chars (concat ss)) = sum_list (map (\<lambda>s. length (utf8_chars s)) ss)"
  by (induction ss) (simp_all add: utf8_chars_append)

lemma utf8_chars_le: "length (utf8_chars s) \<le> length s"
proof (induction s rule: utf8_chars.induct)
  case (2 c s)
  let ?k = "length (first_char (c # s))"
  have "length (utf8_chars (drop ?k (c # s))) \<le> length (c # s) - ?k" using 2 by (simp only: length_drop)
  then have "length (utf8_chars (c # s)) \<le> Suc (length (c # s) - ?k)" by (simp only: utf8_chars.simps(2) list.size add_0_right add_Suc_right Suc_le_mono)
  then show ?case using first_char_nonempty [of c s] unfolding list.size by linarith
qed simp

lemma ascii_chars: "list_all (\<lambda>c. code c < 128) s \<Longrightarrow> utf8_chars s = map (\<lambda>c. [c]) s \<and> utf8_valid (as_bytes s)"
  by (induction s) (simp_all add: utf8_chars_byte as_bytes_def word_less_nat_alt unat_of_char code_def del: utf8_chars.simps(2))

lemma ascii_append: "list_all (\<lambda>c. code c < 128) a \<Longrightarrow> length (utf8_chars (a @ b)) = length a + length (utf8_chars b)"
  using ascii_chars [of a] by (simp add: utf8_chars_append)

lemma spaces_ascii: "list_all (\<lambda>c. code c < 128) (replicate n CHR '' '')" "list_all (\<lambda>c. code c < 128) ''| ''" "list_all (\<lambda>c. code c < 128) '' ''"
  by (simp_all add: code_def list_all_iff)

lemma padded_cell:
  assumes "utf8_valid (as_bytes s)" "length s \<le> width"
  shows "length (utf8_chars (''| '' @ pad width s @ '' '' @ r)) = width + 3 + length (utf8_chars r)"
  using utf8_chars_le [of s] assms(2) ascii_append [OF spaces_ascii(2)] ascii_append [OF spaces_ascii(1)] ascii_append [OF spaces_ascii(3)]
  by (simp add: pad_def utf8_chars_append [OF assms(1)] del: append.simps utf8_chars.simps)

lemma widen_spec:
  assumes "length row = length widths"
  shows "length (widen widths row) = length widths" "i < length widths \<Longrightarrow> length (row ! i) \<le> widen widths row ! i \<and> widths ! i \<le> widen widths row ! i"
  using assms by (simp_all add: widen_def)

lemma foldl_widen:
  assumes "\<And>row. row \<in> set cells \<Longrightarrow> length row = length widths"
  shows "length (foldl widen widths cells) = length widths \<and>
    (\<forall>i < length widths. widths ! i \<le> foldl widen widths cells ! i \<and> (\<forall>row \<in> set cells. length (row ! i) \<le> foldl widen widths cells ! i))"
  using assms
proof (induction cells arbitrary: widths)
  case (Cons row cells)
  have row: "length row = length widths" using Cons.prems by simp
  note w = widen_spec [OF row]
  have "\<And>r. r \<in> set cells \<Longrightarrow> length r = length (widen widths row)" using Cons.prems w(1) by simp
  from Cons.IH [OF this] w show ?case by (auto intro: order_trans)
qed simp

lemma print_row_chars:
  assumes "length cells = length widths" "\<And>i. i < length widths \<Longrightarrow> length (cells ! i) \<le> widths ! i" "\<And>s. s \<in> set cells \<Longrightarrow> utf8_valid (as_bytes s)"
  shows "length (utf8_chars (print_row cells widths)) = length (separator widths)"
  using assms
proof (induction cells widths rule: list_induct2)
  case Nil
  show ?case using ascii_chars [of "''|''"] by (simp add: print_row_def separator_def code_def)
next
  case (Cons s cells w widths)
  have "print_row (s # cells) (w # widths) = ''| '' @ pad w s @ '' '' @ print_row cells widths" by (simp add: print_row_def)
  moreover have "length (separator (w # widths)) = w + 3 + length (separator widths)" by (simp add: separator_def)
  moreover have "length s \<le> w" "utf8_valid (as_bytes s)" using Cons.prems(1) [of 0] Cons.prems(2) by simp_all
  moreover have "length (utf8_chars (print_row cells widths)) = length (separator widths)"
    by (rule Cons.IH) (use Cons.prems(1) [of "Suc _"] Cons.prems(2) in simp_all)
  ultimately show ?case using padded_cell [of s w "print_row cells widths"] by (simp only:)
qed

text \<open>
  Every line of a printed table is equally wide, whatever text the cells hold: the separator lines, the header and the
  rows all have as many characters.
\<close>

theorem table_lines_align:
  assumes "\<And>c. c \<in> set columns \<Longrightarrow> utf8_valid (as_bytes c)" "\<And>row. row \<in> set rows \<Longrightarrow> length row = length columns"
    and "\<And>row v. row \<in> set rows \<Longrightarrow> v \<in> set row \<Longrightarrow> utf8_valid (as_bytes (show_value d v))"
  shows "\<exists>n. \<forall>l \<in> set (butlast (print_table d columns rows)). \<exists>s. l = Out s \<and> length (utf8_chars s) = n"
proof -
  let ?cells = "map (map (show_value d)) rows"
  define widths where "widths = foldl widen (map length columns) ?cells"
  have "\<And>row. row \<in> set ?cells \<Longrightarrow> length row = length (map length columns)" using assms(2) by auto
  from foldl_widen [of ?cells, OF this]
  have widened: "length widths = length (map length columns) \<and> (\<forall>i < length (map length columns). map length columns ! i \<le> widths ! i \<and>
      (\<forall>row \<in> set ?cells. length (row ! i) \<le> widths ! i))"
    unfolding widths_def by blast
  have fold: "length widths = length columns"
    "\<And>i. i < length columns \<Longrightarrow> length (columns ! i) \<le> widths ! i"
    "\<And>i row. i < length columns \<Longrightarrow> row \<in> set ?cells \<Longrightarrow> length (row ! i) \<le> widths ! i"
    using widened by auto
  have sep: "length (utf8_chars (separator widths)) = length (separator widths)"
  proof -
    have "list_all (\<lambda>c. code c < 128) (separator widths)" by (auto simp: separator_def list_all_iff code_def split: if_splits)
    then show ?thesis using ascii_chars by simp
  qed
  have header: "length (utf8_chars (print_row columns widths)) = length (separator widths)"
    by (rule print_row_chars) (use fold assms(1) in auto)
  have row: "length (utf8_chars (print_row row widths)) = length (separator widths)" if "row \<in> set ?cells" for row
    by (rule print_row_chars) (use that fold assms(2,3) in auto)
  have "set (butlast (print_table d columns rows)) \<subseteq> Out ` ({separator widths, print_row columns widths} \<union> (\<lambda>row. print_row row widths) ` set ?cells)"
    by (auto simp: print_table_def Let_def widths_def butlast_append)
  then show ?thesis using sep header row by (intro exI [of _ "length (separator widths)"]) auto
qed

section \<open>The loop runs what is typed\<close>

text \<open>The texts a session hands to the engine, and the lines it takes as SQL rather than as dot commands.\<close>

fun repl_texts :: "bool \<Rightarrow> string \<Rightarrow> string list \<Rightarrow> string list \<times> string" where
  "repl_texts interactive buffer [] = ([], buffer)"
| "repl_texts interactive buffer (l # ls) =
    (case repl_action interactive buffer l of
       Command _ \<Rightarrow> repl_texts interactive buffer ls
     | Wait sql \<Rightarrow> repl_texts interactive sql ls
     | Blank sql \<Rightarrow> apfst (Cons sql) (repl_texts interactive [] ls)
     | Statement_text sql \<Rightarrow> apfst (Cons sql) (repl_texts interactive [] ls))"

fun sql_lines :: "bool \<Rightarrow> string \<Rightarrow> string list \<Rightarrow> string list" where
  "sql_lines interactive buffer [] = []"
| "sql_lines interactive buffer (l # ls) =
    (case repl_action interactive buffer l of
       Command _ \<Rightarrow> sql_lines interactive buffer ls
     | Wait sql \<Rightarrow> l # sql_lines interactive sql ls
     | Blank sql \<Rightarrow> l # sql_lines interactive [] ls
     | Statement_text sql \<Rightarrow> l # sql_lines interactive [] ls)"

text \<open>
  No character typed as SQL is lost, repeated or moved: the texts run, in order, and the text still waiting at the end
  are together the lines of SQL.
\<close>

theorem repl_runs_what_is_typed:
  "concat (fst (repl_texts interactive buffer ls)) @ snd (repl_texts interactive buffer ls) = buffer @ concat (sql_lines interactive buffer ls)"
proof (induction ls arbitrary: buffer)
  case (Cons l ls)
  show ?case
  proof (cases "repl_action interactive buffer l")
    case (Command c)
    then show ?thesis using Cons.IH [of buffer] by simp
  next
    case (Wait sql)
    then have "sql = buffer @ l" by (auto simp: repl_action_def Let_def split: if_splits)
    then show ?thesis using Cons.IH [of sql] Wait by simp
  next
    case (Blank sql)
    then have "sql = buffer @ l" by (auto simp: repl_action_def Let_def split: if_splits)
    then show ?thesis using Cons.IH [of "[]"] Blank by simp
  next
    case (Statement_text sql)
    then have "sql = buffer @ l" by (auto simp: repl_action_def Let_def split: if_splits)
    then show ?thesis using Cons.IH [of "[]"] Statement_text by simp
  qed
qed simp

section \<open>Pinning the printed key\<close>

lemma trim_plain:
  assumes "list_all (\<lambda>c. 32 < code c \<and> code c < 128) s"
  shows "trim s = s"
proof -
  have "list_all (\<lambda>c. code c < 128) s" using assms by (auto simp: list_all_iff)
  note chars = ascii_chars [OF this]
  have "\<not> is_whitespace c" if "c \<in> set (utf8_chars s)" for c
    using that assms conjunct1 [OF chars] by (auto simp: list_all_iff is_whitespace_byte simp del: utf8_chars.simps)
  then have "dropWhile is_whitespace (utf8_chars s) = utf8_chars s" "dropWhile is_whitespace (rev (utf8_chars s)) = rev (utf8_chars s)"
    by (simp_all add: dropWhile_eq_self_iff hd_rev) (use hd_in_set last_in_set in blast)+
  moreover have "concat (utf8_chars s) = s" using chars by simp
  ultimately show ?thesis by (simp add: trim_def trim_start_def trim_end_def)
qed

text \<open>
  The key line a server prints, given to a client as \<open>--server-key\<close>, is the public key of its identity, which is the one
  pin its handshake accepts.
\<close>

theorem printed_key_pins:
  assumes "load_or_create_identity io_text kf fresh written = Ok (secret, public, contents)" "co_remote opts = Some addr"
    and "co_restore opts = None" "\<not> co_rotate opts"
  shows "public = si_public (from_secret secret) \<and> contents = secret \<and>
    plan_run (opts\<lparr>co_server_key := Some (hex public)\<rparr>) new = Plan (Opening_remote addr (Some public)) (plan_action opts new)"
proof -
  have id: "public = si_public (from_secret secret)" "contents = secret"
    using assms(1) by (auto simp: load_or_create_identity_def Let_def split: key_file.splits if_splits)
  then have "length public = 32" by (simp add: from_secret_def x_public_key_def)
  moreover have "32 < code (hex_digit n) \<and> code (hex_digit n) < 128" if "n < 16" for n using code_hex_digit [OF that] that by simp
  then have "list_all (\<lambda>c. 32 < code c \<and> code c < 128) (hex public)"
    using byte_nibbles(1) by (auto simp: hex_def list_all_iff)
  moreover have "plan_action (opts\<lparr>co_server_key := k\<rparr>) new = plan_action opts new" for k by (simp add: plan_action_def split: option.split)
  ultimately show ?thesis using id assms(2-4) trim_plain [of "hex public"] parse_key_hex [of public] by (simp add: plan_run_def Let_def)
qed

end
