(* ===== verification/Opening.thy ===== *)
theory Opening
  imports Engine_Audit
begin

text \<open>
  Opening a local database (\<open>open_store\<close> of \<open>crates/ciphra-engine/src/lib.rs\<close>): the order in which the
  key-derivation parameters are recorded, used and read again.
\<close>

lemma local_put:
  assumes "local_ok s" "env_io env = Io_ok"
  shows "\<exists>s'. store_put env s k v = (s', Ok ()) \<and> local_ok s' \<and> store_view s' = (store_view s)(k \<mapsto> v)"
proof -
  obtain st where st: "sto_backend s = Local st" "bt_wf (st_map st)"
    using assms(1) by (auto simp: local_ok_def split: backend.splits)
  show ?thesis
  proof (cases "sto_overlay s")
    case None
    have "bt_wf (bt_insert k v (st_map st))" using st(2) by (intro wf_intros)
    with None st assms(2) show ?thesis
      by (auto simp: store_put_def storage_put_log log_write_def write_wal_def storage_res_def local_ok_def
          store_view_def backend_view_def apply_op.simps Let_def)
  next
    case (Some ov)
    with assms(1) st show ?thesis
      by (auto simp: store_put_def local_ok_def store_view_def intro: wf_intros)
  qed
qed

lemma catalog_keys: "CANARY_KEY \<noteq> KEYPARAMS_KEY" "AUDIT_HEAD_KEY \<noteq> KEYPARAMS_KEY" "AUDIT_HEAD_KEY \<noteq> CANARY_KEY"
  by (simp_all add: CANARY_KEY_def KEYPARAMS_KEY_def AUDIT_HEAD_KEY_def as_bytes_def)

text \<open>Reopening a store whose record is given.\<close>

lemma open_params_recorded:
  assumes "local_ok s" "store_view s KEYPARAMS_KEY = Some record"
  shows "open_params w s kdf = (s, read_keyparams record)"
  using local_get [OF assms(1)] assms(2) by (simp add: open_params_def try_res_def)

lemma open_params_new:
  assumes "local_ok s" "store_view s KEYPARAMS_KEY = None" "env_io (w_write w KEYPARAMS_KEY) = Io_ok"
  obtains s' where "open_params w s kdf = (s', Ok (kdf, w_salt w))" "local_ok s'"
    "store_view s' = (store_view s)(KEYPARAMS_KEY \<mapsto> encode_keyparams kdf (w_salt w))"
  using local_put [OF assms(1,3), of KEYPARAMS_KEY "encode_keyparams kdf (w_salt w)"] local_get [OF assms(1)] assms(2)
  by (force simp: open_params_def try_res_def)

lemma open_canary_new:
  assumes "local_ok s" "store_view s CANARY_KEY = None" "env_io (w_write w CANARY_KEY) = Io_ok"
  obtains s' where "open_canary w s master = (s', Ok ())" "local_ok s'"
    "store_view s' = (store_view s)(CANARY_KEY \<mapsto> cipher_seal (derive_key master ''canary'') (w_nonce w 0) CANARY_PLAINTEXT CANARY_KEY)"
  using local_put [OF assms(1,3), of CANARY_KEY
      "cipher_seal (derive_key master ''canary'') (w_nonce w 0) CANARY_PLAINTEXT CANARY_KEY"] local_get [OF assms(1)] assms(2)
  by (force simp: open_canary_def try_res_def Let_def)

lemma open_canary_recorded:
  assumes "local_ok s" "length nonce = NONCE_LEN"
    and "store_view s CANARY_KEY = Some (cipher_seal (derive_key master ''canary'') nonce CANARY_PLAINTEXT CANARY_KEY)"
  shows "open_canary w s master = (s, Ok ())"
  using local_get [OF assms(1)] assms(2,3) by (simp add: open_canary_def try_res_def Let_def)

lemma open_audit_head_new:
  "local_ok s \<Longrightarrow> store_view s AUDIT_HEAD_KEY = None \<Longrightarrow> open_audit_head w s master = Ok (0, GENESIS_ROOT)"
  by (simp add: open_audit_head_def local_get)

text \<open>
  C35: creating a local database records the key-derivation parameters before it uses them. On a store
  without records, whose writes succeed, \<open>open_store\<close> writes the parameters and the fresh 16-byte salt
  first. If a key can be derived (no zero iteration, pass or lane count), the database opens, and every
  later opening with the same passphrase, whatever parameters it asks for, uses the recorded ones and
  derives the same 32-byte master key. If the derivation panics, the unusable record is already stored:
  every later opening, with any passphrase and any parameters, fails with ``bad ciphra.keyparams file''.
\<close>

theorem keyparams_recorded_first:
  assumes "local_ok s" "\<And>k. env_io (w_write w k) = Io_ok" "nonces_ok w" "length (w_salt w) = SALT_LEN"
    and "store_view s KEYPARAMS_KEY = None" "store_view s CANARY_KEY = None" "store_view s AUDIT_HEAD_KEY = None"
    and "open_store w s l passphrase kdf = (s1, r)"
  shows "store_view s1 KEYPARAMS_KEY = Some (encode_keyparams kdf (w_salt w))
    \<and> (case kdf_derive kdf passphrase (w_salt w) of
         None \<Rightarrow> \<not> kdf_ok kdf \<and> r = Err Panicked
           \<and> (\<forall>w' l' passphrase' kdf'. open_store w' s1 l' passphrase' kdf' = (s1, Err bad_keyparams))
       | Some master \<Rightarrow> kdf_ok kdf \<and> length master = 32 \<and> (\<exists>e. r = Ok e \<and> eng_master e = master)
           \<and> (\<forall>w' l' kdf'. \<exists>e'. open_store w' s1 l' passphrase kdf' = (s1, Ok e') \<and> eng_master e' = master))"
proof -
  let ?rec = "encode_keyparams kdf (w_salt w)"
  obtain s' where s': "open_params w s kdf = (s', Ok (kdf, w_salt w))" "local_ok s'"
    "store_view s' = (store_view s)(KEYPARAMS_KEY \<mapsto> ?rec)"
    using open_params_new [OF assms(1,5,2)] by metis
  have rec: "read_keyparams ?rec = (if kdf_ok kdf then Ok (kdf, w_salt w) else Err bad_keyparams)"
    using assms(4) by (intro read_encode_keyparams) simp
  show ?thesis
  proof (cases "kdf_derive kdf passphrase (w_salt w)")
    case None
    then have bad: "\<not> kdf_ok kdf" using kdf_derive_key [of kdf passphrase "w_salt w"] by simp
    have s1: "s1 = s'" "r = Err Panicked" using assms(8) s'(1) None by (auto simp: open_store_def)
    have "open_params w' s' kdf' = (s', Err bad_keyparams)" for w' kdf'
      using open_params_recorded [OF s'(2)] s'(3) rec bad by simp
    then show ?thesis using None bad s1 s'(3) by (simp add: open_store_def)
  next
    case (Some master)
    then have ok: "kdf_ok kdf" "length master = 32"
      using kdf_derive_key [of kdf passphrase "w_salt w"] by (simp_all add: KEY_LEN_def)
    have "store_view s' CANARY_KEY = None" using s'(3) assms(6) catalog_keys by simp
    from open_canary_new [OF s'(2) this assms(2)] obtain s2 where s2: "open_canary w s' master = (s2, Ok ())" "local_ok s2"
      "store_view s2 = (store_view s')(CANARY_KEY \<mapsto> cipher_seal (derive_key master ''canary'') (w_nonce w 0) CANARY_PLAINTEXT CANARY_KEY)"
      by metis
    have views: "store_view s2 KEYPARAMS_KEY = Some ?rec" "store_view s2 AUDIT_HEAD_KEY = None"
      using s2(3) s'(3) assms(7) catalog_keys by simp_all
    note head = open_audit_head_new [OF s2(2) views(2)]
    have s1: "s1 = s2" "\<exists>e. r = Ok e \<and> eng_master e = master"
      using assms(8) s'(1) s2(1) head Some by (auto simp: open_store_def)
    have nonce: "length (w_nonce w 0) = NONCE_LEN" using assms(3) by (simp add: nonces_ok_def)
    have "open_params w' s2 kdf' = (s2, Ok (kdf, w_salt w))" for w' kdf'
      using open_params_recorded [OF s2(2) views(1)] rec ok(1) by simp
    moreover have "open_canary w' s2 master = (s2, Ok ())" for w'
      by (rule open_canary_recorded [OF s2(2) nonce]) (simp add: s2(3))
    ultimately have "\<exists>e'. open_store w' s2 l' passphrase kdf' = (s2, Ok e') \<and> eng_master e' = master" for w' l' kdf'
      by (simp add: open_store_def Some head)
    then show ?thesis using Some ok s1 views(1) by simp
  qed
qed

text \<open>The instance: creating a database with zero PBKDF2 iterations makes it unusable for good.\<close>

theorem keyparams_recorded_first_witness:
  "\<exists>s1. open_store (demo_world Io_ok) (store_local empty_store) True ''pw'' (Pbkdf2 0) = (s1, Err Panicked)
    \<and> (\<forall>passphrase. open_store (demo_world Io_ok) s1 True passphrase recommended = (s1, Err bad_keyparams))"
proof -
  let ?w = "demo_world Io_ok" and ?s = "store_local empty_store"
  obtain s1 r where o: "open_store ?w ?s True ''pw'' (Pbkdf2 0) = (s1, r)" by fastforce
  have view: "local_ok ?s" "store_view ?s = Map.empty"
    using demo_view by (simp_all add: demo_engine_def)
  have env: "env_io (w_write ?w k) = Io_ok" for k by (simp add: demo_world_def ok_env_def)
  have salt: "length (w_salt ?w) = SALT_LEN" by (simp add: demo_world_def SALT_LEN_def)
  have "kdf_derive (Pbkdf2 0) ''pw'' (w_salt ?w) = None"
    using kdf_derive_key [of "Pbkdf2 0" "''pw''" "w_salt ?w"] by (simp split: option.splits)
  with keyparams_recorded_first [OF view(1) env demo_nonces salt _ _ _ o] view(2) o show ?thesis by auto
qed

end
