(* ===== verification/Index_Lookup.thy ===== *)
theory Index_Lookup
  imports Engine_Audit
begin

text \<open>
  Equality lookups through an index (\<open>candidate_rows\<close> and \<open>index_rowids\<close> of
  \<open>crates/ciphra-engine/src/lib.rs\<close>) with a literal that is not of the column's type.
\<close>

lemma find_map_first:
  "x \<in> set xs \<Longrightarrow> (\<And>y. y \<in> set xs \<Longrightarrow> f y = (if y = x then Some r else None)) \<Longrightarrow> find_map f xs = Some r"
  by (induction xs) auto

text \<open>The planner takes the index of the compared column, with the literal as it was written.\<close>

lemma indexed_eq_single:
  assumes "v \<noteq> VNull" "col < length (ts_columns sch)"
    and "cd_indexed (ts_columns sch ! col) \<or> pk_column sch = Some col"
  shows "indexed_eq_value (CCompare col name Eq v) sch = Some (col, v)"
proof (cases "pk_column sch = Some col")
  case True
  with assms(1) show ?thesis by (simp add: indexed_eq_value_def)
next
  case False
  with assms have "col \<in> set (columns_where cd_indexed sch)" by (simp add: columns_where_mem)
  then have "find_map (\<lambda>c. map_option (Pair c) (eq_value_for (CCompare col name Eq v) c)) (columns_where cd_indexed sch)
      = Some (col, v)"
    by (rule find_map_first) (use assms(1) in auto)
  with False assms(1) show ?thesis by (auto simp: indexed_eq_value_def split: option.splits)
qed

lemma prefix_same_length: "length a = length b \<Longrightarrow> prefix a (b @ c) \<Longrightarrow> a = b"
  by (auto simp: prefix_def)

lemma length_index_value_prefix: "length (index_value_prefix m t col v) = length (index_value_prefix m t col v')"
  by (simp add: index_value_prefix_def)

text \<open>Nothing is listed under the lookup prefix of a value unless an entry's tag coincides with it.\<close>

lemma index_lookup_empty:
  assumes "local_ok (eng_store e)"
    and "\<And>k s. store_view (eng_store e) k = Some s \<Longrightarrow> prefix (index_column_prefix (eng_master e) t col) k \<Longrightarrow>
      \<exists>u rowid. k = index_entry_key (eng_master e) t col u rowid \<and> typed ty u"
    and "\<And>u rowid. store_view (eng_store e) (index_entry_key (eng_master e) t col u rowid) \<noteq> None \<Longrightarrow> typed ty u \<Longrightarrow>
      index_value_prefix (eng_master e) t col u \<noteq> index_value_prefix (eng_master e) t col v"
  shows "index_rowids w e t tkey col v = Ok []"
proof -
  let ?p = "index_value_prefix (eng_master e) t col v"
  obtain es where es: "store_scan_prefix (w_read w ?p) (eng_store e) ?p = Ok es" "listing (store_view (eng_store e)) ?p es"
    using local_scan [OF assms(1)] by blast
  have "es = []"
  proof (rule ccontr)
    assume "es \<noteq> []"
    then obtain k s where ks: "(k, s) \<in> set es" by (cases es) auto
    then have k: "prefix ?p k" "store_view (eng_store e) k = Some s" using listing_mem [OF es(2)] by blast+
    have "prefix (index_column_prefix (eng_master e) t col) k"
      using k(1) by (auto simp: index_value_prefix_def prefix_def)
    from assms(2) [OF k(2) this] obtain u rowid where u: "k = index_entry_key (eng_master e) t col u rowid" "typed ty u"
      by blast
    have "?p = index_value_prefix (eng_master e) t col u"
      using prefix_same_length [OF length_index_value_prefix] k(1) unfolding u(1) index_entry_key_def by blast
    with assms(3) [of u rowid] u k(2) show False by simp
  qed
  with es(1) show ?thesis by (simp add: index_rowids_def Let_def)
qed

text \<open>
  C40: an integer literal compared with an indexed \<open>REAL\<close> column finds no row. Take any schema with an
  equality index on a \<open>REAL\<close> column (or a \<open>REAL\<close> primary key), in a local database whose index entries
  for that column belong to \<open>REAL\<close> or \<open>NULL\<close> cells, as \<open>INSERT\<close> makes them. The predicate \<open>name = n\<close> with an
  integer literal is true of every row whose cell is \<open>n\<close> as a \<open>REAL\<close>; but the planner looks the literal up
  as it was written, under the tag of \<open>INT n\<close>, and \<open>candidate_rows\<close> returns no row at all, or the
  truncated HMAC of a stored cell's encoding collides with that of \<open>INT n\<close>.
\<close>

theorem eq_index_misses_int_literal:
  assumes "local_ok (eng_store e)" and "column_index sch name = Some col"
    and "cd_ty (ts_columns sch ! col) = DReal"
    and "cd_indexed (ts_columns sch ! col) \<or> pk_column sch = Some col"
    and "\<And>k s. store_view (eng_store e) k = Some s \<Longrightarrow> prefix (index_column_prefix (eng_master e) t col) k \<Longrightarrow>
      \<exists>u rowid. k = index_entry_key (eng_master e) t col u rowid \<and> typed DReal u"
    and "compile_expr sch (Compare name Eq (LInt n)) = Ok f"
  shows "(\<forall>row. col < length row \<and> row ! col = VReal (f64_of_i64 n) \<longrightarrow> expr_matches f row = Ok True)
    \<and> ((\<exists>e'. candidate_rows w e t sch (Some f) tkey = (e', Ok []))
      \<or> (\<exists>u rowid. store_view (eng_store e) (index_entry_key (eng_master e) t col u rowid) \<noteq> None
          \<and> encode_row [u] \<noteq> encode_row [VInt n]
          \<and> index_value_prefix (eng_master e) t col u = index_value_prefix (eng_master e) t col (VInt n)))"
proof -
  have f: "f = CCompare col name Eq (VInt n)"
    using assms(2,6) by (simp add: resolve_column_def)
  have col: "col < length (ts_columns sch)"
    using assms(2) position_Some by (auto simp: column_index_def)
  have plan: "indexed_eq_value f sch = Some (col, VInt n)"
    unfolding f using indexed_eq_single [of "VInt n" col sch name] col assms(4) by simp
  have rows: "expr_matches f row = Ok True" if "col < length row" "row ! col = VReal (f64_of_i64 n)" for row
    using that by (simp add: f expr_matches_def cell_def compare_cell.simps)
  have enc: "encode_row [u] \<noteq> encode_row [VInt n]" if "typed DReal u" for u
    using that by (cases u) (simp_all add: encode_row_def tag_defs)
  have "(\<exists>u rowid. store_view (eng_store e) (index_entry_key (eng_master e) t col u rowid) \<noteq> None \<and> typed DReal u
      \<and> index_value_prefix (eng_master e) t col u = index_value_prefix (eng_master e) t col (VInt n))
    \<or> index_rowids w e t tkey col (VInt n) = Ok []" (is "?collision \<or> _")
  proof (cases ?collision)
    case False
    then have "index_rowids w e t tkey col (VInt n) = Ok []"
      by (intro index_lookup_empty [OF assms(1)]) (use assms(5) in blast)+
    then show ?thesis ..
  qed simp
  then show ?thesis
  proof
    assume ?collision
    with enc rows show ?thesis by blast
  next
    assume "index_rowids w e t tkey col (VInt n) = Ok []"
    then have "\<exists>e'. candidate_rows w e t sch (Some f) tkey = (e', Ok [])"
      by (simp add: candidate_rows_def plan fetch_rows_def try_res_def Let_def)
    with rows show ?thesis by blast
  qed
qed

text \<open>The instance: a table whose only row holds \<open>1.0\<close> in the indexed column, queried for \<open>x = 1\<close>.\<close>

definition demo_indexed :: engine where
  "demo_indexed = demo_engine\<lparr>eng_store := store_local (empty_store\<lparr>st_map :=
     [(index_entry_key (replicate 32 1) ''t'' 0 (VReal (f64_of_i64 1)) 0, [])]\<rparr>)\<rparr>"

theorem eq_index_misses_int_literal_witness:
  "expr_matches (CCompare 0 ''x'' Eq (VInt 1)) [VReal (f64_of_i64 1)] = Ok True
    \<and> ((\<exists>e'. candidate_rows (demo_world Io_ok) demo_indexed ''t'' demo_schema (Some (CCompare 0 ''x'' Eq (VInt 1))) [] = (e', Ok []))
      \<or> (\<exists>u. encode_row [u] \<noteq> encode_row [VInt 1]
          \<and> index_value_prefix (replicate 32 1) ''t'' 0 u = index_value_prefix (replicate 32 1) ''t'' 0 (VInt 1)))"
proof -
  let ?k = "index_entry_key (replicate 32 1) ''t'' 0 (VReal (f64_of_i64 1)) 0"
  have view: "local_ok (eng_store demo_indexed)" "store_view (eng_store demo_indexed) = [?k \<mapsto> []]"
    "eng_master demo_indexed = replicate 32 1"
    by (simp_all add: demo_indexed_def store_local_def local_ok_def store_view_def backend_view_def bt_wf_def
        demo_engine_def)
  have sch: "column_index demo_schema ''x'' = Some 0" "cd_ty (ts_columns demo_schema ! 0) = DReal"
    "cd_indexed (ts_columns demo_schema ! 0) \<or> pk_column demo_schema = Some 0"
    "compile_expr demo_schema (Compare ''x'' Eq (LInt 1)) = Ok (CCompare 0 ''x'' Eq (VInt 1))"
    by (simp_all add: demo_schema_def column_index_def resolve_column_def)
  have entries: "\<exists>u rowid. k = index_entry_key (eng_master demo_indexed) ''t'' 0 u rowid \<and> typed DReal u"
    if "store_view (eng_store demo_indexed) k = Some s" "prefix (index_column_prefix (eng_master demo_indexed) ''t'' 0) k" for k s
    using that(1) unfolding view(2,3) by (intro exI [of _ "VReal (f64_of_i64 1)"] exI [of _ 0]) (simp split: if_splits)
  from eq_index_misses_int_literal [OF view(1) sch(1-3) entries sch(4), where w = "demo_world Io_ok" and tkey = "[]"] show ?thesis
    unfolding view(3) by fastforce
qed

end
