(* ===== verification/Spec2Isabelle.thy ===== *)
theory Spec2Isabelle
  imports Sampling Ffi Cli Opening Index_Lookup
begin

text \<open>
  Ciphra is an encrypted SQL database written in Rust. A statement is parsed, planned and run by an
  engine that keeps every table sealed inside a key-value store; the store is a write-ahead log on
  the local disk or a server reached over a sealed channel; every change is recorded in a hash chain
  that can be audited. This development models the program file by file and proves the properties
  each part promises to the next. The sources are under \<open>src/crates/\<close>.

  \<^bold>\<open>The parts and their theories\<close>

  \<^item> \<open>Prelude\<close>: results, machine integers as bytes (\<open>to_le_bytes\<close> and the like), UTF-8, the decoders' shared
    lemmas. \<open>Btree_Map\<close>: the ordered map \<open>BTreeMap\<close> as a sorted association list.
  \<^item> \<open>Storage\<close> (\<open>ciphra-storage/src/lib.rs\<close>): records, CRC-32, replay, single writes, batches, snapshots and
    compaction. The disk is the byte list of the log; each write takes an \<open>io_outcome\<close> that says how
    much of it reached the log. Replay is a loop bounded by the log's length, proved sufficient.
  \<^item> \<open>Kv_Contract\<close>: the interface between a key-value store and its clients as locales, interpreted by
    the local storage, by the remote protocol and by the engine's store.
  \<^item> \<open>Net\<close> (\<open>ciphra-net/src/lib.rs\<close>): frames, request and batch codecs, the server's request handler, its
    replication queue, the client's operations and the follower. Messages are lists handed over by
    the channel; a round trip may lose the request or the response.
  \<^item> \<open>Store\<close> (\<open>struct Store\<close> of \<open>ciphra-engine/src/lib.rs\<close>): the two backends and the transaction overlay.
  \<^item> \<open>Ast\<close>, \<open>Engine_Types\<close>, \<open>Codec\<close>, \<open>Float64\<close>, \<open>Query\<close>, \<open>Aggregate\<close> (\<open>ciphra-sql/src/lib.rs\<close>,
    \<open>ciphra-engine/src/codec.rs\<close> and \<open>lib.rs\<close>): the syntax tree, values and errors, the row, schema and
    range-blob encodings, IEEE-754 arithmetic on bit patterns, three-valued predicates and index
    planning, grouping and aggregation.
  \<^item> \<open>Lexer\<close>, \<open>Parser\<close>, \<open>Parser_Correct\<close>, \<open>Parser_Print\<close> (\<open>ciphra-sql/src/lexer.rs\<close>, \<open>parser.rs\<close>): the tokenizer on bytes, every
    parsing method as a function on the tokens that are left, and what they return. \<open>Migrate\<close>
    (\<open>ciphra-migrate/src/lib.rs\<close>): the translation of MySQL dumps into statements as text.
  \<^item> \<open>Sha256\<close>, \<open>Hmac\<close>, \<open>Poly1305\<close>, \<open>Aead\<close>, \<open>Keys\<close>, \<open>Blake2b\<close>, \<open>Argon2\<close> (\<open>ciphra-crypto/src\<close>): the primitives, each
    beside the definition of its standard, and the key hierarchy. \<open>Kdf\<close>: the key parameters record.
  \<^item> \<open>Keccak\<close>, \<open>Ntt\<close>, \<open>Kem_Ring\<close>, \<open>Kem_Algebra\<close>, \<open>Ml_Kem\<close>, \<open>Ml_Kem_Correct\<close> (\<open>keccak.rs\<close>, \<open>ml_kem.rs\<close>): the sponge; the number-theoretic
    transform as a locale over the roots of unity, interpreted on the tables of the code; the ring of
    polynomials as a type of class \<open>comm_ring\<close>; key encapsulation and its correctness. A sampling loop
    that does not end is \<open>None\<close>.
  \<^item> \<open>Dsa_Ring\<close>, \<open>Ml_Dsa\<close>, \<open>Dsa_Codec\<close>, \<open>Ml_Dsa_Correct\<close> (\<open>ml_dsa.rs\<close>): the transform and the rounding of coefficients, key
    generation, signing and verification, the round trips of the encodings, and correctness. \<open>Sampling\<close>: the
    rejection loops of ML-KEM and ML-DSA as one locale over the stream they read.
  \<^item> \<open>Congruence\<close>, \<open>X25519\<close>, \<open>X25519_Field\<close>, \<open>X25519_Correct\<close> (\<open>x25519.rs\<close>): limbs in 64-bit words, the ladder, and the ladder of
    RFC 7748 on integers. \<open>Handshake\<close> (\<open>hybrid.rs\<close>, the channel and handshake of \<open>ciphra-net/src/lib.rs\<close>): the key
    exchange on byte streams and the sealed frames.
  \<^item> \<open>Audit_Chain\<close>: audit entries, chain verification, the Merkle tree and inclusion proofs.
  \<^item> \<open>Engine\<close>, \<open>Statements\<close>: the engine's state, key layout, reading and opening; every statement, the
    dispatcher and key rotation. \<open>Engine_Audit\<close>: what all statements have in common.
    \<open>Opening\<close>: creating and reopening a database. \<open>Index_Lookup\<close>: equality lookups. \<open>Signed_Root\<close>: the signed audit
    root (\<open>sign_audit_root\<close>, \<open>verify_audit_root\<close>).
  \<^item> \<open>Frontend\<close>, \<open>Ffi\<close>, \<open>Cli\<close> (\<open>ciphra-ffi/src/lib.rs\<close>, \<open>ciphra/src/main.rs\<close>, \<open>ciphra-server/src/main.rs\<close>): \<open>Engine::execute\<close> on text,
    displayed values and keys in hexadecimal; the C interface and its JSON, beside a reader of RFC 8259; the
    arguments of the two programs, the import of a dump, dot commands, printed tables and the
    interactive loop.

  \<^bold>\<open>State and outside world\<close>

  A method on \<open>&mut self\<close> is a function from the state to the state after it and its result. What the
  code takes from outside is an argument: the outcome of each disk access, the random nonces and
  salts, the clock, the rendering of floats. A \<open>panic!\<close>, a failed assertion or an index out of range
  is an error value (\<open>Panicked\<close>) or \<open>None\<close>. Integers have their machine width where they can wrap.

  \<^bold>\<open>What is proved\<close>

  \<^item> \<open>Storage\<close>: a store reopens from its log to the state its writes left; a batch takes effect entirely or
    not at all whatever the write does; opening any bytes keeps exactly the longest run
    of complete records at their start; compaction and prefix scans are exact. Two statements record what the code loses after a
    failed write and after a failed reopening in compaction.
  \<^item> \<open>Net\<close>: a follower that applies its queue equals the leader; remote operations are the local ones
    while nothing fails and everything fits in a frame; the possible outcomes of a remote commit; a read-only replica refuses writes; the frame limit.
  \<^item> \<open>Store\<close>: reads and commits refine an abstract map on either backend, under the same conditions;
    transactions are atomic.
  \<^item> \<open>Codec\<close>, \<open>Query\<close>, \<open>Aggregate\<close>: encodings are bijective on their range, index plans lose no matching row,
    evaluation of typed rows does not fail, groups and aggregates are those of the rows. \<open>Index_Lookup\<close>: an
    integer literal on an indexed \<open>REAL\<close> column finds no row. \<open>Opening\<close>: the key parameters are recorded
    before they are used, good or bad.
  \<^item> \<open>Parser_Correct\<close>: parsing ends on every input, never panics and yields well-formed statements only.
    \<open>Parser_Print\<close>: the printed form of a predicate parses back to it, except that an integral \<open>REAL\<close>
    literal comes back as an integer. \<open>Migrate\<close>: each statement made of a dump
    parses as one definition of a table or index or one insertion of rows, whatever the dump holds.
  \<^item> Cryptography: streaming SHA-256 and BLAKE2b, HMAC, HKDF, PBKDF2 and the limb arithmetic of Poly1305
    equal their standards, and no check of a debug build fires in Poly1305; opening an AEAD envelope inverts sealing and accepts nothing else; Argon2id
    never panics on valid parameters. The Keccak sponge equals its block-wise definition however it is
    fed, the transforms of ML-KEM multiply polynomials, and decapsulation returns the encapsulated
    secret when the noise, a function of the seeds, is below a quarter of the modulus. A signature that
    ML-DSA returns is accepted by its verification, for every seed and message; its hints recover the
    commitment exactly. The rejection samplers return the first 256 acceptable candidates of their streams
    as soon as these exist, and run forever only when they do not. X25519 is the
    function of its RFC. A handshake ends in mirrored channels or a refused pin, and a channel
    accepts exactly the frames its peer sent, in order. That two X25519 secrets agree on the shared
    point is a hypothesis of the handshake: the group law of the curve is not formalised.
  \<^item> Audit: a verified log determines its entries up to a SHA-256 collision, which the statement exhibits;
    inclusion proofs are complete and sound in the same sense; in a local database every statement outside transaction control records
    exactly what it changed in the contents that reads see, and through every session without a failed
    \<open>COMMIT\<close> the chain verifies. A signed root is
    only made of a chain that verifies, and is a receipt for all of its entries. That nobody else can sign
    is a computational assumption and not stated.
  \<^item> Programs: the JSON of \<open>ciphra_execute\<close> reads back to the results and every failure is reported; an import
    only extends the audit chain; the interactive loop runs exactly the text typed; the lines of a printed
    table are equally wide; the key a server prints is the pin its handshake accepts. Two lemmas record
    that \<open>parse_key\<close> panics inside a character and accepts a sign.

  \<^bold>\<open>Not modelled\<close>

  Operating-system randomness, key zeroization, the sockets and threads of the server's main program,
  benchmarks and test helpers have no behaviour of their own to state; nor is the
  depth of the native call stack, which bounds how deep the parser's input may nest. The signing loop of ML-DSA is not proved
  to accept some attempt: that holds with overwhelming probability only, and its theorem says so.
  Memory is unbounded in the model: in the code the entry count of a batch record and of other decoded
  lists is reserved up front (\<open>Vec::with_capacity\<close>), so a crafted record can abort the process there. The
  properties of statements and sessions are about local databases and about the contents in memory: after a
  failed \<open>fsync\<close> the log file may hold a batch that the memory does not. A follower reads its records without
  the frame limit of \<open>read_frame\<close>. Counters that the code increments with \<open>+=\<close> (channel messages, HKDF blocks)
  wrap as in a release build. The result of \<open>f64\<close> arithmetic that is not a number is one quiet NaN.
\<close>

end
